(* ===== verification/Fabric_Prelude.thy ===== *)
theory Fabric_Prelude
  imports Main "HOL-Library.Word" "HOL-Library.Monad_Syntax" "HOL-Library.Multiset"
    "HOL-Library.Product_Lexorder"
begin

text \<open>
  Shared ground of the development: names for the fixed-width integer types of the
  C++ sources, the checked vector accesses and the assertion that every component
  uses, and the generic lemmas on words, sums and counting-sort slots that the
  component proofs share.

  A C++ operation that is undefined on some input (an out-of-range vector access, a
  division by zero, \<open>front()\<close> of an empty vector) and a failing \<open>assert\<close> are both the
  value \<^const>\<open>None\<close> of the option monad.  A theorem that an operation returns
  \<^const>\<open>Some\<close> therefore says that the operation is free of undefined behaviour and
  that its assertions hold.
\<close>

unbundle bit_operations_syntax

section \<open>Machine integers\<close>

type_synonym u8 = "8 word"
type_synonym u16 = "16 word"
type_synonym u32 = "32 word"
type_synonym u64 = "64 word"

named_theorems fabric_simps \<open>evaluation rules of the checked accesses\<close>

lemma unat_of_nat_small: "n < 2 ^ LENGTH('a) \<Longrightarrow> unat (of_nat n :: 'a::len word) = n"
  by (simp add: unat_of_nat take_bit_nat_eq_self)

lemma unat_add_small:
  "unat x + unat y < 2 ^ LENGTH('a) \<Longrightarrow> unat (x + y :: 'a::len word) = unat x + unat y"
  using unat_add_lem by blast

lemma unat_mult_small:
  "unat x * unat y < 2 ^ LENGTH('a) \<Longrightarrow> unat (x * y :: 'a::len word) = unat x * unat y"
  using unat_mult_lem by blast

lemma unat_inc: "x < (y :: 'a::len word) \<Longrightarrow> unat (x + 1) = Suc (unat x)"
proof -
  assume "x < y"
  then have "unat x < unat y" by (simp add: word_less_nat_alt)
  moreover have "unat y < 2 ^ LENGTH('a)" by simp
  ultimately have "unat x + 1 < 2 ^ LENGTH('a)" by linarith
  then show ?thesis
    using unat_add_lem[of x 1] by (simp add: unat_1)
qed

lemma unat_dec: "x \<noteq> (0 :: 'a::len word) \<Longrightarrow> unat (x - 1) = unat x - 1"
  by (simp add: unat_minus_one)

lemma unat_sub_small: "y \<le> x \<Longrightarrow> unat (x - y :: 'a::len word) = unat x - unat y"
  by (rule unat_sub)

lemma unat_lt64: "unat (x :: u64) < 18446744073709551616"
  using unsigned_less[of x, where ?'a = nat] by simp

lemma unat_lt32: "unat (x :: u32) < 4294967296"
  using unsigned_less[of x, where ?'a = nat] by simp

lemma unat_lt16: "unat (x :: u16) < 65536"
  using unsigned_less[of x, where ?'a = nat] by simp

lemma unat_lt8: "unat (x :: u8) < 256"
  using unsigned_less[of x, where ?'a = nat] by simp

lemma unat_ucast_up_eq:
  "LENGTH('a) \<le> LENGTH('b) \<Longrightarrow> unat (ucast (x :: 'a::len word) :: 'b::len word) = unat x"
  proof -
  assume le: "LENGTH('a) \<le> LENGTH('b)"
  have "unat x < 2 ^ LENGTH('a)" by simp
  also have "\<dots> \<le> (2 ^ LENGTH('b) :: nat)" using le by (rule power_increasing) simp
  finally show ?thesis by (simp add: unsigned_ucast_eq take_bit_nat_eq_self)
qed

section \<open>Checked accesses and assertions\<close>

definition vget :: "'a list \<Rightarrow> nat \<Rightarrow> 'a option" where
  "vget xs i = (if i < length xs then Some (xs ! i) else None)"

definition vset :: "'a list \<Rightarrow> nat \<Rightarrow> 'a \<Rightarrow> 'a list option" where
  "vset xs i x = (if i < length xs then Some (xs[i := x]) else None)"

definition assert_that :: "bool \<Rightarrow> unit option" where
  "assert_that b = (if b then Some () else None)"

lemma vget_in [fabric_simps]: "i < length xs \<Longrightarrow> vget xs i = Some (xs ! i)"
  by (simp add: vget_def)

lemma vset_in [fabric_simps]: "i < length xs \<Longrightarrow> vset xs i x = Some (xs[i := x])"
  by (simp add: vset_def)

lemma assert_that_True [fabric_simps]: "b \<Longrightarrow> assert_that b = Some ()"
  by (simp add: assert_that_def)

lemma vget_Some_iff: "vget xs i = Some x \<longleftrightarrow> i < length xs \<and> x = xs ! i"
  by (auto simp: vget_def)

lemma vset_Some_iff: "vset xs i x = Some ys \<longleftrightarrow> i < length xs \<and> ys = xs[i := x]"
  by (auto simp: vset_def)

lemma assert_that_Some_iff: "assert_that b = Some u \<longleftrightarrow> b"
  by (auto simp: assert_that_def)

lemmas checked_iffs = vget_Some_iff vset_Some_iff assert_that_Some_iff bind_eq_Some_conv

section \<open>Sums over updated lists\<close>

lemma sum_list_update_group:
  fixes f :: "'a \<Rightarrow> 'b::ab_group_add"
  assumes "i < length xs"
  shows "sum_list (map f (xs[i := x])) = sum_list (map f xs) - f (xs ! i) + f x"
  using assms
proof (induction xs arbitrary: i)
  case Nil
  then show ?case by simp
next
  case (Cons a xs)
  then show ?case by (cases i) (auto simp: algebra_simps)
qed

lemma sum_list_map_update_nat:
  fixes f :: "'a \<Rightarrow> nat"
  assumes "i < length xs"
  shows "sum_list (map f (xs[i := x])) + f (xs ! i) = sum_list (map f xs) + f x"
  using assms
proof (induction xs arbitrary: i)
  case Nil
  then show ?case by simp
next
  case (Cons a xs)
  then show ?case by (cases i) (auto simp: algebra_simps)
qed

lemma mset_take_drop_nth:
  "i < length xs \<Longrightarrow> mset xs = add_mset (xs ! i) (mset (take i xs @ drop (Suc i) xs))"
  by (metis add_mset_add_single id_take_nth_drop mset.simps(2) mset_append union_mset_add_mset_right)

section \<open>Counting-sort slots\<close>

text \<open>
  Two passes of the sources lay a list of keyed items out as one contiguous run per
  key: a first pass counts the keys and turns the counts into offsets, a second pass
  gives each item the next free slot of its key.  The \<open>j\<close>-th item of the key list \<open>ks\<close>
  lands in \<open>slot ks j\<close>.
\<close>

definition first_slot :: "nat list \<Rightarrow> nat \<Rightarrow> nat" where
  "first_slot ks k = length (filter (\<lambda>x. x < k) ks)"

definition slot :: "nat list \<Rightarrow> nat \<Rightarrow> nat" where
  "slot ks j = first_slot ks (ks ! j) + count_list (take j ks) (ks ! j)"

lemma count_list_card: "count_list ks k = card {i. i < length ks \<and> ks ! i = k}"
  by (simp add: count_list_eq_length_filter length_filter_conv_card eq_commute)

lemma slot_card:
  assumes "j < length ks"
  shows "slot ks j = card {i. i < length ks \<and> (ks ! i < ks ! j \<or> ks ! i = ks ! j \<and> i < j)}"
proof -
  let ?A = "{i. i < length ks \<and> ks ! i < ks ! j}"
  let ?B = "{i. i < length ks \<and> ks ! i = ks ! j \<and> i < j}"
  have B: "count_list (take j ks) (ks ! j) = card ?B"
    unfolding count_list_card using assms by (intro arg_cong[where f = card]) auto
  have "card (?A \<union> ?B) = card ?A + card ?B"
    by (rule card_Un_disjoint) auto
  moreover have "?A \<union> ?B = {i. i < length ks \<and> (ks ! i < ks ! j \<or> ks ! i = ks ! j \<and> i < j)}"
    by auto
  ultimately show ?thesis
    by (simp add: slot_def first_slot_def length_filter_conv_card B)
qed

lemma slot_mono:
  assumes "i < length ks" "j < length ks" "ks ! i < ks ! j \<or> ks ! i = ks ! j \<and> i < j"
  shows "slot ks i < slot ks j"
  unfolding slot_card[OF assms(1)] slot_card[OF assms(2)]
proof (rule psubset_card_mono)
  show "{ia. ia < length ks \<and> (ks ! ia < ks ! i \<or> ks ! ia = ks ! i \<and> ia < i)}
    \<subset> {i. i < length ks \<and> (ks ! i < ks ! j \<or> ks ! i = ks ! j \<and> i < j)}"
    using assms by (auto simp: psubset_eq set_eq_iff)
qed auto

lemma slot_inj: "i < length ks \<Longrightarrow> j < length ks \<Longrightarrow> slot ks i = slot ks j \<Longrightarrow> i = j"
  using slot_mono[of i ks j] slot_mono[of j ks i] by (metis less_irrefl linorder_less_linear)

lemma slot_less: "j < length ks \<Longrightarrow> slot ks j < length ks"
proof -
  assume j: "j < length ks"
  have "card {i. i < length ks \<and> (ks ! i < ks ! j \<or> ks ! i = ks ! j \<and> i < j)} < card {..<length ks}"
    by (rule psubset_card_mono) (use j in auto)
  then show ?thesis by (simp add: slot_card[OF j])
qed

lemma slot_surj:
  assumes "p < length ks"
  shows "\<exists>j < length ks. slot ks j = p"
proof -
  have "slot ks ` {..<length ks} = {..<length ks}"
    by (rule endo_inj_surj) (auto simp: inj_on_def intro: slot_inj slot_less)
  then show ?thesis using assms by (metis imageE lessThan_iff)
qed

lemma first_slot_Suc: "first_slot ks (Suc k) = first_slot ks k + count_list ks k"
proof -
  have "length (filter (\<lambda>x. x < Suc k) ks) =
    length (filter (\<lambda>x. x < k) ks) + length (filter ((=) k) ks)"
    by (induction ks) auto
  then show ?thesis by (simp add: first_slot_def count_list_eq_length_filter)
qed

lemma first_slot_mono: "k \<le> l \<Longrightarrow> first_slot ks k \<le> first_slot ks l"
  unfolding first_slot_def by (induction ks) auto

lemma first_slot_0 [simp]: "first_slot ks 0 = 0"
  by (simp add: first_slot_def)

lemma first_slot_le: "first_slot ks k \<le> length ks"
  by (simp add: first_slot_def)

lemma first_slot_all: "\<forall>x \<in> set ks. x < k \<Longrightarrow> first_slot ks k = length ks"
  by (simp add: first_slot_def)

lemma count_list_take_less: "j < length ks \<Longrightarrow> count_list (take j ks) (ks ! j) < count_list ks (ks ! j)"
  by (subst (3) id_take_nth_drop[of j ks]) auto

lemma slot_bounds:
  assumes "j < length ks"
  shows "first_slot ks (ks ! j) \<le> slot ks j" "slot ks j < first_slot ks (Suc (ks ! j))"
  using count_list_take_less[OF assms] by (auto simp: slot_def first_slot_Suc)

text \<open>The slots of one run are exactly those of the items with its key.\<close>

lemma slot_key_unique:
  assumes "j < length ks" "first_slot ks k \<le> slot ks j" "slot ks j < first_slot ks (Suc k)"
  shows "ks ! j = k"
proof (rule ccontr)
  assume "ks ! j \<noteq> k"
  then consider "Suc (ks ! j) \<le> k" | "Suc k \<le> ks ! j" by linarith
  then show False
  proof cases
    case 1
    then show False
      using first_slot_mono[of "Suc (ks ! j)" k ks] slot_bounds(2)[OF assms(1)] assms(2) by linarith
  next
    case 2
    then show False
      using first_slot_mono[of "Suc k" "ks ! j" ks] slot_bounds(1)[OF assms(1)] assms(3) by linarith
  qed
qed

text \<open>Filling an array slot by slot: every slot holds its own item at the end.\<close>

definition fill_slots :: "nat list \<Rightarrow> (nat \<Rightarrow> 'a) \<Rightarrow> nat list \<Rightarrow> 'a list \<Rightarrow> 'a list" where
  "fill_slots ks v js arr = fold (\<lambda>j arr. arr[slot ks j := v j]) js arr"

lemma length_fill_slots [simp]: "length (fill_slots ks v js arr) = length arr"
  unfolding fill_slots_def by (induction js arbitrary: arr) auto

lemma fill_slots_nth:
  assumes "length arr = length ks" "set js \<subseteq> {..<length ks}" "j \<in> set js"
  shows "fill_slots ks v js arr ! slot ks j = v j"
  using assms
proof (induction js arbitrary: j rule: rev_induct)
  case Nil
  then show ?case by simp
next
  case (snoc x js)
  have *: "fill_slots ks v (js @ [x]) arr = (fill_slots ks v js arr)[slot ks x := v x]"
    by (simp add: fill_slots_def)
  show ?case
  proof (cases "slot ks j = slot ks x")
    case True
    then have "j = x" using snoc.prems slot_inj[of j ks x] by auto
    then show ?thesis using snoc.prems by (simp add: * slot_less)
  next
    case False
    then have "j \<in> set js" using snoc.prems by auto
    then show ?thesis using snoc False by (simp add: *)
  qed
qed

lemma fill_slots_all:
  assumes "length arr = length ks" "j < length ks"
  shows "fill_slots ks v [0..<length ks] arr ! slot ks j = v j"
  by (rule fill_slots_nth) (use assms in auto)

section \<open>Circular buffers\<close>

text \<open>
  \<open>n\<close> items of a buffer of capacity \<open>c\<close>, starting at \<open>h\<close> and wrapping around: the shape
  of the packet rings and of the retransmission rings.
\<close>

definition circ :: "'a list \<Rightarrow> nat \<Rightarrow> nat \<Rightarrow> nat \<Rightarrow> 'a list" where
  "circ buf c h n = map (\<lambda>i. buf ! ((h + i) mod c)) [0..<n]"

lemma length_circ [simp]: "length (circ buf c h n) = n"
  by (simp add: circ_def)

lemma circ_0 [simp]: "circ buf c h 0 = []"
  by (simp add: circ_def)

lemma wrap_mod:
  assumes "t < c + c" "c > (0::nat)"
  shows "(if t \<ge> c then t - c else t) = t mod c"
  using assms by (auto simp: mod_if not_less)

lemma circ_cong:
  "(\<And>i. i < c \<Longrightarrow> buf ! i = buf' ! i) \<Longrightarrow> 0 < c \<Longrightarrow> circ buf c h n = circ buf' c h n"
  by (simp add: circ_def)

lemma circ_push:
  assumes "h < c" "n < c" "c \<le> length buf"
  shows "circ (buf[(h + n) mod c := x]) c h (Suc n) = circ buf c h n @ [x]"
proof (rule nth_equalityI)
  let ?t = "(h + n) mod c"
  have t: "?t < length buf" using assms mod_less_divisor[of c "h + n"] by linarith
  fix i assume "i < length (circ (buf[?t := x]) c h (Suc n))"
  then have i: "i < Suc n" by simp
  show "circ (buf[?t := x]) c h (Suc n) ! i = (circ buf c h n @ [x]) ! i"
  proof (cases "i = n")
    case True
    then show ?thesis using t by (simp add: circ_def nth_append del: upt_Suc)
  next
    case False
    then have "i < n" using i by simp
    have "(h + i) mod c \<noteq> ?t"
    proof
      assume "(h + i) mod c = ?t"
      then have "h + i = h + n \<or> h + i + c = h + n \<or> h + i = h + n + c"
        using \<open>i < n\<close> assms by (auto simp: mod_if split: if_splits)
      then show False using \<open>i < n\<close> assms by simp
    qed
    then show ?thesis using \<open>i < n\<close> by (simp add: circ_def nth_append del: upt_Suc)
  qed
qed simp

lemma circ_pop: "0 < n \<Longrightarrow> h < c \<Longrightarrow> circ buf c h n = buf ! h # circ buf c ((h + 1) mod c) (n - 1)"
proof (rule nth_equalityI)
  fix i assume n: "0 < n" "h < c" and "i < length (circ buf c h n)"
  then show "circ buf c h n ! i = (buf ! h # circ buf c ((h + 1) mod c) (n - 1)) ! i"
    by (cases i) (simp_all add: circ_def mod_add_left_eq)
qed simp

section \<open>Slices of a flat array\<close>

lemma sum_take_le: "i \<le> j \<Longrightarrow> sum_list (take i xs) \<le> sum_list (take j (xs :: nat list))"
proof -
  assume "i \<le> j"
  then have "take j xs = take i xs @ take (j - i) (drop i xs)"
    by (metis le_add_diff_inverse take_add)
  then show ?thesis by simp
qed

lemma slice_end:
  "i < length xs \<Longrightarrow> a < xs ! i \<Longrightarrow> i < j \<Longrightarrow> sum_list (take i xs) + a < sum_list (take j (xs :: nat list))"
  using sum_take_le[of "Suc i" j xs] by (simp add: take_Suc_conv_app_nth)

lemma slice_in: "i < length xs \<Longrightarrow> a < xs ! i \<Longrightarrow> sum_list (take i xs) + a < sum_list (xs :: nat list)"
  using slice_end[of i xs a "length xs"] by simp

lemma slice_inject:
  assumes "i < length xs" "a < xs ! i" "j < length xs" "b < xs ! j"
    "sum_list (take i xs) + a = sum_list (take j (xs :: nat list)) + b"
  shows "i = j \<and> a = b"
  using slice_end[OF assms(1,2), of j] slice_end[OF assms(3,4), of i] assms(5)
  by (cases i j rule: linorder_cases) auto

section \<open>Loops over containers\<close>

text \<open>A range-based \<open>for\<close> whose body may fail, and its rule with an invariant on positions.\<close>

fun fold_opt :: "('a \<Rightarrow> 's \<Rightarrow> 's option) \<Rightarrow> 'a list \<Rightarrow> 's \<Rightarrow> 's option" where
  "fold_opt f [] s = Some s"
| "fold_opt f (x # xs) s = do { s \<leftarrow> f x s; fold_opt f xs s }"

lemma fold_opt_append:
  "fold_opt f (xs @ ys) s = do { s \<leftarrow> fold_opt f xs s; fold_opt f ys s }"
  by (induction xs arbitrary: s) (auto split: bind_split)

lemma fold_opt_invariant:
  assumes "P 0 s"
    and "\<And>i s. i < length xs \<Longrightarrow> P i s \<Longrightarrow> \<exists>s'. f (xs ! i) s = Some s' \<and> P (Suc i) s'"
  shows "\<exists>s'. fold_opt f xs s = Some s' \<and> P (length xs) s'"
proof -
  have "\<exists>s'. fold_opt f (take i xs) s = Some s' \<and> P i s'" if "i \<le> length xs" for i
    using that
  proof (induction i)
    case 0
    then show ?case using assms(1) by simp
  next
    case (Suc i)
    then obtain s1 where s1: "fold_opt f (take i xs) s = Some s1" "P i s1" by auto
    obtain s2 where "f (xs ! i) s1 = Some s2" "P (Suc i) s2"
      using assms(2)[of i s1] s1 Suc.prems by auto
    then show ?case using s1 Suc.prems
      by (auto simp: take_Suc_conv_app_nth fold_opt_append)
  qed
  from this[of "length xs"] show ?thesis by simp
qed

lemma fold_opt_preserves:
  assumes "fold_opt f xs s = Some s'" "P s"
    and "\<And>x s s'. x \<in> set xs \<Longrightarrow> P s \<Longrightarrow> f x s = Some s' \<Longrightarrow> P s'"
  shows "P s'"
  using assms
proof (induction xs arbitrary: s)
  case Nil
  then show ?case by simp
next
  case (Cons x xs)
  then obtain s1 where "f x s = Some s1" "fold_opt f xs s1 = Some s'"
    by (auto simp: bind_eq_Some_conv)
  with Cons show ?case by (metis list.set_intros)
qed

lemma upt_split_at: "k < n \<Longrightarrow> [0..<n] = [0..<k] @ k # [Suc k..<n]"
  using upt_add_eq_append[of 0 k "n - k"] upt_conv_Cons[of k n] by simp

lemma count_list_take_Suc:
  "j < length ks \<Longrightarrow> count_list (take (Suc j) ks) k = count_list (take j ks) k + (if ks ! j = k then 1 else 0)"
  by (simp add: take_Suc_conv_app_nth)

end
