(* ===== verification/Units_Ids.thy ===== *)
theory Units_Ids
  imports Fabric_Prelude
begin

text \<open>
  \<^verbatim>\<open>core/units.hpp\<close> and \<^verbatim>\<open>core/ids.hpp\<close>: the integer units of the simulator and the
  tagged handles.  Times, sizes and rates are 64-bit words and wrap as the C++
  \<open>uint64\<close> does; the division of \<open>serialization_ns\<close> is \<^const>\<open>None\<close> for a zero rate.
\<close>

section \<open>Units\<close>

type_synonym Nanos = u64
type_synonym Bytes = u64
type_synonym BitsPerSec = u64

definition kNanosPerSec :: Nanos where "kNanosPerSec = 1000000000"
definition kBitsPerByte :: u64 where "kBitsPerByte = 8"
definition kMaxPacketBytes :: Bytes where "kMaxPacketBytes = 9216"

definition gbps :: "u64 \<Rightarrow> BitsPerSec" where "gbps g = g * 1000000000"
definition micros :: "u64 \<Rightarrow> Nanos" where "micros us = us * 1000"

definition serialization_ns :: "Bytes \<Rightarrow> BitsPerSec \<Rightarrow> Nanos option" where
  "serialization_ns bytes rate =
     (if rate = 0 then None else Some ((bytes * kBitsPerByte * kNanosPerSec) div rate))"

definition serialization_is_exact :: "Bytes \<Rightarrow> BitsPerSec \<Rightarrow> bool option" where
  "serialization_is_exact bytes rate =
     (if rate = 0 then None else Some ((bytes * kBitsPerByte * kNanosPerSec) mod rate = 0))"

lemma serialization_numerator:
  assumes "bytes \<le> kMaxPacketBytes"
  shows "unat (bytes * kBitsPerByte * kNanosPerSec) = unat bytes * 8000000000"
proof -
  have "unat bytes \<le> 9216"
    using assms by (simp add: kMaxPacketBytes_def word_le_nat_alt)
  then have 1: "unat (bytes * kBitsPerByte) = unat bytes * 8"
    by (simp add: kBitsPerByte_def unat_mult_small)
  show ?thesis
    using \<open>unat bytes \<le> 9216\<close> by (simp add: 1 kNanosPerSec_def unat_mult_small)
qed

lemma serialization_ns_nat:
  assumes "bytes \<le> kMaxPacketBytes" "serialization_ns bytes rate = Some t"
  shows "unat t = unat bytes * 8000000000 div unat rate"
  using assms serialization_numerator[OF assms(1)]
  by (auto simp: serialization_ns_def unat_div split: if_splits)

lemma serialization_ns_Some: "rate \<noteq> 0 \<Longrightarrow> \<exists>t. serialization_ns bytes rate = Some t"
  by (simp add: serialization_ns_def)

lemma serialization_ns_None: "serialization_ns bytes rate = None \<longleftrightarrow> rate = 0"
  by (simp add: serialization_ns_def)

section \<open>Handles\<close>

text \<open>
  \<open>template <class Tag> class Id\<close>: the tag is a phantom type parameter, so a port
  handle cannot be used where a node handle is expected.
\<close>

datatype 'tag id = Id (id_value: u32)

datatype node_tag = NodeTag
datatype port_tag = PortTag
datatype flow_tag = FlowTag

type_synonym node_id = "node_tag id"
type_synonym port_id = "port_tag id"
type_synonym flow_id = "flow_tag id"

definition kInvalidValue :: u32 where "kInvalidValue = 0xFFFFFFFF"

definition id_index :: "'tag id \<Rightarrow> nat" where "id_index i = unat (id_value i)"
definition id_valid :: "'tag id \<Rightarrow> bool" where "id_valid i = (id_value i \<noteq> kInvalidValue)"
definition id_invalid :: "'tag id" where "id_invalid = Id kInvalidValue"

text \<open>\<open>Id{static_cast<std::uint32_t>(n)}\<close>: the handle of a vector position.\<close>

definition id_at :: "nat \<Rightarrow> 'tag id" where "id_at n = Id (of_nat n)"

lemma id_index_at [simp]: "n < 2 ^ 32 \<Longrightarrow> id_index (id_at n) = n"
  by (simp add: id_index_def id_at_def unat_of_nat_small)

lemma id_at_index [simp]: "id_at (id_index i) = i"
  by (cases i) (simp add: id_index_def id_at_def)

lemma id_index_inject: "id_index i = id_index j \<longleftrightarrow> i = j"
  by (cases i; cases j) (simp add: id_index_def word_unat_eq_iff)

lemma id_at_inject: "m < 2 ^ 32 \<Longrightarrow> n < 2 ^ 32 \<Longrightarrow> id_at m = id_at n \<longleftrightarrow> m = n"
  using id_index_at by metis

lemma id_valid_at: "n < 2 ^ 32 - 1 \<Longrightarrow> id_valid (id_at n)"
  by (simp add: id_valid_def id_at_def kInvalidValue_def word_unat_eq_iff unat_of_nat_small)

lemma id_invalid_not_valid [simp]: "\<not> id_valid id_invalid"
  by (simp add: id_valid_def id_invalid_def)

lemma id_index_less: "id_index i < 2 ^ 32"
  using unat_lt32[of "id_value i"] by (simp add: id_index_def)

instantiation id :: (type) linorder
begin
definition less_eq_id :: "'a id \<Rightarrow> 'a id \<Rightarrow> bool" where "less_eq_id i j = (id_value i \<le> id_value j)"
definition less_id :: "'a id \<Rightarrow> 'a id \<Rightarrow> bool" where "less_id i j = (id_value i < id_value j)"
instance
  by standard (auto simp: less_eq_id_def less_id_def id.expand)
end

end
