(* ===== verification/Packet_Ring.thy ===== *)
theory Packet_Ring
  imports Units_Ids
begin

text \<open>
  \<^verbatim>\<open>model/packet.hpp\<close>: packets and the fixed-capacity drop-tail queue.  \<open>std::size_t\<close>
  fields are \<open>nat\<close>; the one subtraction that could wrap, the decrement of \<open>count_\<close> in
  \<open>pop\<close>, is \<^const>\<open>None\<close> on an empty ring.
\<close>

section \<open>Packets\<close>

datatype PacketKind = Data | Ack

record packet =
  pkt_flow :: flow_id
  pkt_index :: u32
  pkt_bytes :: u16
  pkt_kind :: PacketKind
  pkt_attempt :: u8

definition default_packet :: packet where
  "default_packet = \<lparr>pkt_flow = id_invalid, pkt_index = 0, pkt_bytes = 0, pkt_kind = Data,
     pkt_attempt = 0\<rparr>"

section \<open>The ring\<close>

record packet_ring =
  ring_buf :: "packet list"
  ring_capacity :: nat
  ring_head :: nat
  ring_count :: nat

definition default_ring :: packet_ring where
  "default_ring = \<lparr>ring_buf = [], ring_capacity = 0, ring_head = 0, ring_count = 0\<rparr>"

definition ring_init :: "nat \<Rightarrow> packet_ring" where
  "ring_init capacity = \<lparr>ring_buf = replicate capacity default_packet, ring_capacity = capacity,
     ring_head = 0, ring_count = 0\<rparr>"

definition ring_empty :: "packet_ring \<Rightarrow> bool" where
  "ring_empty r = (ring_count r = 0)"

definition ring_full :: "packet_ring \<Rightarrow> bool" where
  "ring_full r = (ring_count r = ring_capacity r)"

definition ring_size :: "packet_ring \<Rightarrow> nat" where
  "ring_size r = ring_count r"

definition ring_try_push :: "packet \<Rightarrow> packet_ring \<Rightarrow> (bool \<times> packet_ring) option" where
  "ring_try_push p r =
     (if ring_count r = ring_capacity r then Some (False, r)
      else do {
        let t0 = ring_head r + ring_count r;
        let tail = (if t0 \<ge> ring_capacity r then t0 - ring_capacity r else t0);
        buf \<leftarrow> vset (ring_buf r) tail p;
        Some (True, r\<lparr>ring_buf := buf, ring_count := ring_count r + 1\<rparr>)
      })"

definition ring_pop :: "packet_ring \<Rightarrow> (packet \<times> packet_ring) option" where
  "ring_pop r = do {
     p \<leftarrow> vget (ring_buf r) (ring_head r);
     let h = ring_head r + 1;
     let h = (if h = ring_capacity r then 0 else h);
     assert_that (ring_count r \<noteq> 0);
     Some (p, r\<lparr>ring_head := h, ring_count := ring_count r - 1\<rparr>)
   }"

section \<open>Contract of a bounded FIFO\<close>

text \<open>Driving a queue through a list of operations, recording what was accepted and popped.\<close>

datatype 'a fifo_op = Push 'a | Pop

fun fifo_run :: "('a \<Rightarrow> 'r \<Rightarrow> (bool \<times> 'r) option) \<Rightarrow> ('r \<Rightarrow> ('a \<times> 'r) option) \<Rightarrow> 'a fifo_op list
    \<Rightarrow> 'r \<Rightarrow> ('a list \<times> 'a list \<times> 'r) option" where
  "fifo_run push pop [] r = Some ([], [], r)"
| "fifo_run push pop (Push x # ops) r = do {
     (ok, r) \<leftarrow> push x r;
     (acc, out, r) \<leftarrow> fifo_run push pop ops r;
     Some (if ok then x # acc else acc, out, r)
   }"
| "fifo_run push pop (Pop # ops) r = do {
     (x, r) \<leftarrow> pop r;
     (acc, out, r) \<leftarrow> fifo_run push pop ops r;
     Some (acc, x # out, r)
   }"

text \<open>The queue the ring stands for: a list that accepts while it is shorter than \<open>n\<close>.\<close>

definition list_push :: "nat \<Rightarrow> 'a \<Rightarrow> 'a list \<Rightarrow> (bool \<times> 'a list) option" where
  "list_push n x q = Some (if length q < n then (True, q @ [x]) else (False, q))"

fun list_pop :: "'a list \<Rightarrow> ('a \<times> 'a list) option" where
  "list_pop [] = None"
| "list_pop (x # q) = Some (x, q)"

lemma list_push_simps:
  "length q = n \<Longrightarrow> list_push n x q = Some (False, q)" "length q < n \<Longrightarrow> list_push n x q = Some (True, q @ [x])"
  by (simp_all add: list_push_def)

locale bounded_fifo =
  fixes content :: "'r \<Rightarrow> 'a list"
    and cap :: "'r \<Rightarrow> nat"
    and invar :: "'r \<Rightarrow> bool"
    and push :: "'a \<Rightarrow> 'r \<Rightarrow> (bool \<times> 'r) option"
    and pop :: "'r \<Rightarrow> ('a \<times> 'r) option"
  assumes bounded: "invar r \<Longrightarrow> length (content r) \<le> cap r"
    and push_full: "invar r \<Longrightarrow> length (content r) = cap r \<Longrightarrow> push x r = Some (False, r)"
    and push_room: "invar r \<Longrightarrow> length (content r) < cap r \<Longrightarrow>
      \<exists>r'. push x r = Some (True, r') \<and> invar r' \<and> content r' = content r @ [x] \<and> cap r' = cap r"
    and pop_empty: "invar r \<Longrightarrow> content r = [] \<Longrightarrow> pop r = None"
    and pop_cons: "invar r \<Longrightarrow> content r = x # xs \<Longrightarrow>
      \<exists>r'. pop r = Some (x, r') \<and> invar r' \<and> content r' = xs \<and> cap r' = cap r"
begin

lemma push_cases:
  assumes "invar r"
  obtains (full) "length (content r) = cap r" "push x r = Some (False, r)"
  | (room) r' where "length (content r) < cap r" "push x r = Some (True, r')" "invar r'"
      "content r' = content r @ [x]" "cap r' = cap r"
proof (cases "length (content r) = cap r")
  case True
  then show ?thesis using full push_full[OF assms] by blast
next
  case False
  then have "length (content r) < cap r" using bounded[OF assms] by simp
  then show ?thesis using room push_room[OF assms, of x] by blast
qed

lemma pop_SomeD:
  assumes "invar r" "pop r = Some (x, r')"
  shows "content r = x # content r'" "invar r'" "cap r' = cap r"
  using assms pop_empty[of r] pop_cons[of r] by (cases "content r"; force)+

lemma push_SomeD:
  assumes "invar r" "push x r = Some (ok, r')"
  shows "content r' = (if ok then content r @ [x] else content r)" "invar r'" "cap r' = cap r"
    "ok \<longleftrightarrow> length (content r) < cap r"
proof -
  have "content r' = (if ok then content r @ [x] else content r) \<and> invar r' \<and> cap r' = cap r
    \<and> (ok \<longleftrightarrow> length (content r) < cap r)"
  proof (rule push_cases[OF assms(1), of x])
    assume "length (content r) = cap r" "push x r = Some (False, r)"
    then show ?thesis using assms by simp
  next
    fix r1
    assume "length (content r) < cap r" "push x r = Some (True, r1)" "invar r1"
      "content r1 = content r @ [x]" "cap r1 = cap r"
    then show ?thesis using assms by simp
  qed
  then show "content r' = (if ok then content r @ [x] else content r)" "invar r'" "cap r' = cap r"
    "ok \<longleftrightarrow> length (content r) < cap r"
    by simp_all
qed

lemma fifo_run_order:
  assumes "invar r" "fifo_run push pop ops r = Some (acc, out, r')"
  shows "content r @ acc = out @ content r' \<and> invar r' \<and> cap r' = cap r"
  using assms
proof (induction ops arbitrary: r acc out)
  case Nil
  then show ?case by simp
next
  case (Cons op ops)
  show ?case
  proof (cases op)
    case (Push x)
    with Cons.prems obtain ok r1 acc1 where s: "push x r = Some (ok, r1)"
      "fifo_run push pop ops r1 = Some (acc1, out, r')" "acc = (if ok then x # acc1 else acc1)"
      by (auto simp: bind_eq_Some_conv)
    with push_SomeD[OF Cons.prems(1) s(1)] Cons.IH[of r1 acc1 out] show ?thesis
      by (auto split: if_splits)
  next
    case Pop
    with Cons.prems obtain x r1 out1 where s: "pop r = Some (x, r1)"
      "fifo_run push pop ops r1 = Some (acc, out1, r')" "out = x # out1"
      by (auto simp: bind_eq_Some_conv)
    with pop_SomeD[OF Cons.prems(1) s(1)] Cons.IH[of r1 acc out1] show ?thesis by auto
  qed
qed

text \<open>Operation by operation the queue behaves as the list, refusals and failures included.\<close>

lemma fifo_run_refines:
  assumes "invar r"
  shows "map_option (\<lambda>(acc, out, r). (acc, out, content r)) (fifo_run push pop ops r)
    = fifo_run (list_push (cap r)) list_pop ops (content r)"
  using assms
proof (induction ops arbitrary: r)
  case (Cons op ops)
  note inv = Cons.prems and IH = Cons.IH
  show ?case
  proof (cases op)
    case (Push x)
    from inv show ?thesis
    proof (cases rule: push_cases[of r x])
      case full
      then show ?thesis using IH[OF inv] Push
        by (cases "fifo_run push pop ops r") (auto simp: list_push_simps(1)[OF full(1)])
    next
      case (room r')
      have "fifo_run (list_push (cap r)) list_pop ops (content r @ [x])
        = map_option (\<lambda>(acc, out, r). (acc, out, content r)) (fifo_run push pop ops r')"
        using IH[OF room(3)] room(4,5) by simp
      then show ?thesis using Push room(1,2)
        by (cases "fifo_run push pop ops r'") (auto simp: list_push_simps(2))
    qed
  next
    case Pop
    show ?thesis
    proof (cases "content r")
      case Nil
      then show ?thesis using pop_empty[OF inv] Pop by simp
    next
      case (Cons x xs)
      then obtain r' where r': "pop r = Some (x, r')" "invar r'" "content r' = xs" "cap r' = cap r"
        using pop_cons[OF inv] by blast
      have "fifo_run (list_push (cap r)) list_pop ops xs
        = map_option (\<lambda>(acc, out, r). (acc, out, content r)) (fifo_run push pop ops r')"
        using IH[OF r'(2)] r'(3,4) by simp
      then show ?thesis using Cons Pop r'(1)
        by (cases "fifo_run push pop ops r'") auto
    qed
  qed
qed simp

end

section \<open>The ring meets the contract\<close>

definition ring_inv :: "packet_ring \<Rightarrow> bool" where
  "ring_inv r \<longleftrightarrow> length (ring_buf r) = ring_capacity r \<and> ring_count r \<le> ring_capacity r
     \<and> (ring_capacity r = 0 \<and> ring_head r = 0 \<or> ring_head r < ring_capacity r)"

text \<open>The packets in the ring, oldest first.\<close>

definition ring_list :: "packet_ring \<Rightarrow> packet list" where
  "ring_list r = circ (ring_buf r) (ring_capacity r) (ring_head r) (ring_count r)"

lemma length_ring_list [simp]: "length (ring_list r) = ring_count r"
  by (simp add: ring_list_def)

lemma ring_inv_init [simp]: "ring_inv (ring_init n)"
  by (auto simp: ring_inv_def ring_init_def)

lemma ring_list_init [simp]: "ring_list (ring_init n) = []"
  by (simp add: ring_list_def ring_init_def)

lemma ring_try_push_room:
  assumes "ring_inv r" "ring_count r < ring_capacity r"
  shows "\<exists>r'. ring_try_push p r = Some (True, r') \<and> ring_inv r' \<and> ring_list r' = ring_list r @ [p]
    \<and> ring_capacity r' = ring_capacity r"
proof -
  let ?c = "ring_capacity r" and ?h = "ring_head r" and ?n = "ring_count r"
  let ?t = "(?h + ?n) mod ?c"
  have c: "?c > 0" "?h < ?c" "length (ring_buf r) = ?c"
    using assms by (auto simp: ring_inv_def)
  have t: "?t < ?c" using c by simp
  have eq: "(if ?h + ?n \<ge> ?c then ?h + ?n - ?c else ?h + ?n) = ?t"
    by (rule wrap_mod) (use assms c in auto)
  let ?r = "r\<lparr>ring_buf := (ring_buf r)[?t := p], ring_count := ?n + 1\<rparr>"
  have "ring_try_push p r = Some (True, ?r)"
    using assms t c by (simp add: ring_try_push_def eq Let_def fabric_simps)
  moreover have "ring_inv ?r" using assms by (auto simp: ring_inv_def)
  moreover have "ring_list ?r = ring_list r @ [p]"
    using circ_push[of ?h ?c ?n "ring_buf r" p] assms c by (simp add: ring_list_def)
  ultimately show ?thesis by (intro exI[of _ ?r]) simp
qed

lemma ring_pop_cons:
  assumes "ring_inv r" "ring_list r = x # xs"
  shows "\<exists>r'. ring_pop r = Some (x, r') \<and> ring_inv r' \<and> ring_list r' = xs
    \<and> ring_capacity r' = ring_capacity r"
proof -
  let ?c = "ring_capacity r" and ?h = "ring_head r" and ?n = "ring_count r"
  have n: "?n = Suc (length xs)" using assms(2) length_ring_list by (metis length_Cons)
  have c: "?c > 0" "?h < ?c" "length (ring_buf r) = ?c" using assms n by (auto simp: ring_inv_def)
  have eq: "(if ?h + 1 = ?c then 0 else ?h + 1) = (?h + 1) mod ?c"
    using c by (simp add: mod_if)
  let ?r = "r\<lparr>ring_head := (?h + 1) mod ?c, ring_count := ?n - 1\<rparr>"
  have pop: "ring_list r = ring_buf r ! ?h # ring_list ?r"
    using circ_pop[of ?n ?h ?c "ring_buf r"] n c by (simp add: ring_list_def)
  then have x: "x = ring_buf r ! ?h" using assms(2) by simp
  have "ring_pop r = Some (x, ?r)"
    using c n by (simp add: ring_pop_def fabric_simps x Let_def eq del: One_nat_def)
  moreover have "ring_inv ?r" using assms c by (auto simp: ring_inv_def)
  moreover have "ring_list ?r = xs" using pop assms(2) by simp
  ultimately show ?thesis by (intro exI[of _ ?r]) simp
qed

interpretation ring: bounded_fifo ring_list ring_capacity ring_inv ring_try_push ring_pop
proof unfold_locales
  fix r :: packet_ring and x :: packet
  assume inv: "ring_inv r"
  show "length (ring_list r) \<le> ring_capacity r" using inv by (simp add: ring_inv_def)
  show "length (ring_list r) = ring_capacity r \<Longrightarrow> ring_try_push x r = Some (False, r)"
    by (simp add: ring_try_push_def)
  show "length (ring_list r) < ring_capacity r \<Longrightarrow> \<exists>r'. ring_try_push x r = Some (True, r')
      \<and> ring_inv r' \<and> ring_list r' = ring_list r @ [x] \<and> ring_capacity r' = ring_capacity r"
    using ring_try_push_room[OF inv] by simp
  show "ring_list r = [] \<Longrightarrow> ring_pop r = None"
    using length_ring_list[of r]
    by (auto simp: ring_pop_def vget_def assert_that_def Let_def simp del: length_ring_list)
  show "\<And>xs. ring_list r = x # xs \<Longrightarrow> \<exists>r'. ring_pop r = Some (x, r') \<and> ring_inv r'
      \<and> ring_list r' = xs \<and> ring_capacity r' = ring_capacity r"
    using ring_pop_cons[OF inv] by simp
qed

end
