(* ===== verification/Event_Queue.thy ===== *)
theory Event_Queue
  imports Packet_Ring
begin

text \<open>
  \<^verbatim>\<open>core/event.hpp\<close> and \<^verbatim>\<open>core/event_queue.hpp\<close>: the event record with its typed
  constructors and accessors, and the hand-written binary min-heap ordered by
  \<open>(time_ns, seq)\<close>.  \<^const>\<open>None\<close> stands for \<open>front()\<close> of an empty heap.
\<close>

section \<open>Events\<close>

datatype EventType = Inject | TxComplete | Arrive | Timeout

record event =
  ev_time :: Nanos
  ev_seq :: u64
  ev_a :: u32
  ev_b :: u32
  ev_c :: u32
  ev_bytes :: u16
  ev_type :: EventType
  ev_kind :: PacketKind

definition default_event :: event where
  "default_event = \<lparr>ev_time = 0, ev_seq = 0, ev_a = 0, ev_b = 0, ev_c = 0, ev_bytes = 0,
     ev_type = Inject, ev_kind = Data\<rparr>"

definition ev_port :: "event \<Rightarrow> port_id" where "ev_port e = Id (ev_a e)"
definition ev_flow :: "event \<Rightarrow> flow_id" where "ev_flow e = Id (ev_b e)"
definition ev_packet_index :: "event \<Rightarrow> u32" where "ev_packet_index e = ev_c e"
definition ev_attempt :: "event \<Rightarrow> u8" where "ev_attempt e = ucast (ev_a e)"

definition ev_inject :: "Nanos \<Rightarrow> flow_id \<Rightarrow> event" where
  "ev_inject t f = default_event\<lparr>ev_time := t, ev_type := Inject, ev_b := id_value f\<rparr>"

definition ev_tx_complete :: "Nanos \<Rightarrow> port_id \<Rightarrow> event" where
  "ev_tx_complete t p = default_event\<lparr>ev_time := t, ev_type := TxComplete, ev_a := id_value p\<rparr>"

definition ev_arrive :: "Nanos \<Rightarrow> port_id \<Rightarrow> packet \<Rightarrow> event" where
  "ev_arrive t traversed pkt = default_event\<lparr>ev_time := t, ev_type := Arrive,
     ev_kind := pkt_kind pkt, ev_a := id_value traversed, ev_b := id_value (pkt_flow pkt),
     ev_c := pkt_index pkt, ev_bytes := pkt_bytes pkt\<rparr>"

definition ev_timeout :: "Nanos \<Rightarrow> flow_id \<Rightarrow> u32 \<Rightarrow> u8 \<Rightarrow> event" where
  "ev_timeout t f pkt attempt = default_event\<lparr>ev_time := t, ev_type := Timeout,
     ev_a := ucast attempt, ev_b := id_value f, ev_c := pkt\<rparr>"

lemmas event_ctor_defs = ev_inject_def ev_tx_complete_def ev_arrive_def ev_timeout_def
  default_event_def

lemma event_ctor_fields [simp]:
  "ev_time (ev_inject t f) = t" "ev_type (ev_inject t f) = Inject" "ev_flow (ev_inject t f) = f"
  "ev_time (ev_tx_complete t p) = t" "ev_type (ev_tx_complete t p) = TxComplete"
  "ev_port (ev_tx_complete t p) = p"
  "ev_time (ev_arrive t p k) = t" "ev_type (ev_arrive t p k) = Arrive"
  "ev_port (ev_arrive t p k) = p" "ev_flow (ev_arrive t p k) = pkt_flow k"
  "ev_packet_index (ev_arrive t p k) = pkt_index k" "ev_bytes (ev_arrive t p k) = pkt_bytes k"
  "ev_kind (ev_arrive t p k) = pkt_kind k"
  "ev_time (ev_timeout t f i a) = t" "ev_type (ev_timeout t f i a) = Timeout"
  "ev_flow (ev_timeout t f i a) = f" "ev_packet_index (ev_timeout t f i a) = i"
  by (simp_all add: event_ctor_defs ev_port_def ev_flow_def ev_packet_index_def)

lemma ev_attempt_timeout [simp]: "ev_attempt (ev_timeout t f i a) = a"
  by (simp add: event_ctor_defs ev_attempt_def ucast_up_ucast_id is_up.rep_eq)

lemma ev_seq_update_fields [simp]:
  "ev_port (e\<lparr>ev_seq := n\<rparr>) = ev_port e" "ev_flow (e\<lparr>ev_seq := n\<rparr>) = ev_flow e"
  "ev_packet_index (e\<lparr>ev_seq := n\<rparr>) = ev_packet_index e"
  "ev_attempt (e\<lparr>ev_seq := n\<rparr>) = ev_attempt e"
  by (simp_all add: ev_port_def ev_flow_def ev_packet_index_def ev_attempt_def)

section \<open>The heap\<close>

definition earlier :: "event \<Rightarrow> event \<Rightarrow> bool" where
  "earlier x y = (if ev_time x \<noteq> ev_time y then ev_time x < ev_time y else ev_seq x < ev_seq y)"

record event_queue =
  eq_heap :: "event list"
  eq_next_seq :: u64

definition eq_new :: event_queue where
  "eq_new = \<lparr>eq_heap = [], eq_next_seq = 0\<rparr>"

definition eq_empty :: "event_queue \<Rightarrow> bool" where "eq_empty q = (eq_heap q = [])"
definition eq_size :: "event_queue \<Rightarrow> nat" where "eq_size q = length (eq_heap q)"
definition eq_total_pushed :: "event_queue \<Rightarrow> u64" where "eq_total_pushed q = eq_next_seq q"

text \<open>The loop of \<open>sift_up\<close>, with \<open>held\<close> kept aside, and the final store.\<close>

function sift_up_loop :: "event \<Rightarrow> event list \<Rightarrow> nat \<Rightarrow> event list \<times> nat" where
  "sift_up_loop held h i =
     (if i > 0 then
        let parent = (i - 1) div 2 in
        if \<not> earlier held (h ! parent) then (h, i)
        else sift_up_loop held (h[i := h ! parent]) parent
      else (h, i))"
  by pat_completeness auto
termination
  by (relation "measure (\<lambda>(held, h, i). i)") auto

definition sift_up :: "event list \<Rightarrow> nat \<Rightarrow> event list" where
  "sift_up h i = (let held = h ! i; (h, i) = sift_up_loop held h i in h[i := held])"

function sift_down_loop :: "event \<Rightarrow> event list \<Rightarrow> nat \<Rightarrow> event list \<times> nat" where
  "sift_down_loop held h i =
     (let n = length h; left = 2 * i + 1 in
      if left \<ge> n then (h, i)
      else
        let right = left + 1;
            child = (if right < n \<and> earlier (h ! right) (h ! left) then right else left) in
        if \<not> earlier (h ! child) held then (h, i)
        else sift_down_loop held (h[i := h ! child]) child)"
  by pat_completeness auto
termination
  by (relation "measure (\<lambda>(held, h, i). length h - i)") (auto simp: Let_def split: if_splits)

definition sift_down :: "event list \<Rightarrow> nat \<Rightarrow> event list" where
  "sift_down h i = (let held = h ! i; (h, i) = sift_down_loop held h i in h[i := held])"

declare sift_up_loop.simps [simp del] sift_down_loop.simps [simp del]

definition eq_push :: "event \<Rightarrow> event_queue \<Rightarrow> event_queue" where
  "eq_push e q =
     (let e = e\<lparr>ev_seq := eq_next_seq q\<rparr>;
          h = eq_heap q @ [e] in
      \<lparr>eq_heap = sift_up h (length h - 1), eq_next_seq = eq_next_seq q + 1\<rparr>)"

definition eq_top :: "event_queue \<Rightarrow> event option" where
  "eq_top q = (case eq_heap q of [] \<Rightarrow> None | e # _ \<Rightarrow> Some e)"

definition eq_pop :: "event_queue \<Rightarrow> (event \<times> event_queue) option" where
  "eq_pop q =
     (case eq_heap q of
        [] \<Rightarrow> None
      | out # _ \<Rightarrow>
          let h = butlast ((eq_heap q)[0 := last (eq_heap q)]);
              h = (if h \<noteq> [] then sift_down h 0 else h) in
          Some (out, q\<lparr>eq_heap := h\<rparr>))"

definition eq_clear :: "event_queue \<Rightarrow> event_queue" where
  "eq_clear q = \<lparr>eq_heap = [], eq_next_seq = 0\<rparr>"

section \<open>Order and heap shape\<close>

definition event_key :: "event \<Rightarrow> Nanos \<times> u64" where
  "event_key e = (ev_time e, ev_seq e)"

lemma earlier_key: "earlier x y \<longleftrightarrow> event_key x < event_key y"
  by (auto simp: earlier_def event_key_def)

definition heap_parent :: "nat \<Rightarrow> nat" where
  "heap_parent k = (k - 1) div 2"

definition heap_up_to :: "event list \<Rightarrow> nat \<Rightarrow> bool" where
  "heap_up_to h i \<longleftrightarrow>
     (\<forall>k. 0 < k \<and> k < length h \<and> k \<noteq> i \<longrightarrow> event_key (h ! heap_parent k) \<le> event_key (h ! k)) \<and>
     (\<forall>k. 0 < i \<and> 0 < k \<and> k < length h \<and> heap_parent k = i \<longrightarrow>
        event_key (h ! heap_parent i) \<le> event_key (h ! k))"

definition heap_down_to :: "event list \<Rightarrow> nat \<Rightarrow> bool" where
  "heap_down_to h i \<longleftrightarrow>
     (\<forall>k. 0 < k \<and> k < length h \<and> heap_parent k \<noteq> i \<longrightarrow>
        event_key (h ! heap_parent k) \<le> event_key (h ! k)) \<and>
     (\<forall>k. 0 < i \<and> 0 < k \<and> k < length h \<and> heap_parent k = i \<longrightarrow>
        event_key (h ! heap_parent i) \<le> event_key (h ! k))"

definition heap_ordered :: "event list \<Rightarrow> bool" where
  "heap_ordered h \<longleftrightarrow>
     (\<forall>k. 0 < k \<and> k < length h \<longrightarrow> event_key (h ! heap_parent k) \<le> event_key (h ! k))"

lemma heap_parent_less: "0 < k \<Longrightarrow> heap_parent k < k"
  by (simp add: heap_parent_def)

lemma heap_children: "0 < k \<Longrightarrow> heap_parent k = i \<longleftrightarrow> k = 2 * i + 1 \<or> k = 2 * i + 2"
  unfolding heap_parent_def by presburger

lemma heap_up_toD:
  "heap_up_to h i \<Longrightarrow> 0 < k \<Longrightarrow> k < length h \<Longrightarrow> k \<noteq> i \<Longrightarrow>
     event_key (h ! heap_parent k) \<le> event_key (h ! k)"
  "heap_up_to h i \<Longrightarrow> 0 < i \<Longrightarrow> 0 < k \<Longrightarrow> k < length h \<Longrightarrow> heap_parent k = i \<Longrightarrow>
     event_key (h ! heap_parent i) \<le> event_key (h ! k)"
  unfolding heap_up_to_def by blast+

lemma heap_down_toD:
  "heap_down_to h i \<Longrightarrow> 0 < k \<Longrightarrow> k < length h \<Longrightarrow> heap_parent k \<noteq> i \<Longrightarrow>
     event_key (h ! heap_parent k) \<le> event_key (h ! k)"
  "heap_down_to h i \<Longrightarrow> 0 < i \<Longrightarrow> 0 < k \<Longrightarrow> k < length h \<Longrightarrow> heap_parent k = i \<Longrightarrow>
     event_key (h ! heap_parent i) \<le> event_key (h ! k)"
  unfolding heap_down_to_def by blast+

lemma swap_update:
  "i < length h \<Longrightarrow> j < length h \<Longrightarrow> i \<noteq> j \<Longrightarrow>
   (h[i := h ! j])[j := x] = (h[i := x])[j := (h[i := x]) ! i, i := (h[i := x]) ! j]"
  by (auto simp: list_eq_iff_nth_eq nth_list_update)

lemma mset_move:
  assumes "i < length h" "j < length h" "i \<noteq> j"
  shows "mset ((h[i := h ! j])[j := x]) = mset (h[i := x])"
  using assms mset_swap[of i "h[i := x]" j] by (simp add: swap_update)

lemma sift_up_loop_spec:
  assumes "i < length h" "heap_up_to (h[i := held]) i" "sift_up_loop held h i = (h', j)"
  shows "j < length h' \<and> length h' = length h \<and> mset (h'[j := held]) = mset (h[i := held])
    \<and> heap_ordered (h'[j := held])"
  using assms
proof (induction held h i arbitrary: h' j rule: sift_up_loop.induct)
  case (1 held h i)
  note i = "1.prems"(1) and up = "1.prems"(2)
  define p where "p = heap_parent i"
  let ?g = "h[i := held]"
  have unf: "sift_up_loop held h i =
      (if i > 0 \<and> earlier held (h ! p) then sift_up_loop held (h[i := h ! p]) p else (h, i))"
    by (subst sift_up_loop.simps) (simp add: Let_def p_def heap_parent_def)
  show ?case
  proof (cases "i > 0 \<and> earlier held (h ! p)")
    case False
    then have r: "h' = h" "j = i" using "1.prems"(3) unf by auto
    have "heap_ordered ?g"
      unfolding heap_ordered_def
    proof (intro allI impI)
      fix k assume k: "0 < k \<and> k < length ?g"
      show "event_key (?g ! heap_parent k) \<le> event_key (?g ! k)"
      proof (cases "k = i")
        case True
        then have "\<not> earlier held (h ! p)" and "p < i"
          using False k heap_parent_less[of i] by (auto simp: p_def)
        then show ?thesis using True i by (auto simp: earlier_key p_def)
      next
        case False
        then show ?thesis using heap_up_toD(1)[OF up, of k] k by auto
      qed
    qed
    then show ?thesis using r i by simp
  next
    case True
    have p: "p < i" "p < length h" using True i heap_parent_less[of i] by (auto simp: p_def)
    let ?h1 = "h[i := h ! p]"
    let ?g1 = "?h1[p := held]"
    have loop: "sift_up_loop held ?h1 p = (h', j)" using True "1.prems"(3) unf by simp
    have ms: "mset ?g1 = mset ?g" using p i by (intro mset_move) auto
    have less: "event_key held \<le> event_key (h ! p)"
      using True by (auto simp: earlier_key intro: less_imp_le)
    have "heap_up_to ?g1 p"
      unfolding heap_up_to_def
    proof (intro conjI allI impI)
      fix k assume k: "0 < k \<and> k < length ?g1 \<and> k \<noteq> p"
      define q where "q = heap_parent k"
      have q: "q < k" using k heap_parent_less by (simp add: q_def)
      consider "k = i" | "k \<noteq> i" "q = i" | "k \<noteq> i" "q = p" | "k \<noteq> i" "q \<noteq> i" "q \<noteq> p" by blast
      then have "event_key (?g1 ! q) \<le> event_key (?g1 ! k)"
      proof cases
        case 1
        then show ?thesis using p less i by (simp add: q_def p_def[symmetric])
      next
        case 2
        then have "event_key (?g ! p) \<le> event_key (?g ! k)"
          using heap_up_toD(2)[OF up, of k] True k by (simp add: q_def p_def)
        then show ?thesis using 2 p k q i by simp
      next
        case 3
        then have "event_key (?g ! p) \<le> event_key (?g ! k)"
          using heap_up_toD(1)[OF up, of k] k by (simp add: q_def)
        then show ?thesis using 3 p k q less i by simp
      next
        case 4
        then have "event_key (?g ! q) \<le> event_key (?g ! k)"
          using heap_up_toD(1)[OF up, of k] k by (simp add: q_def)
        then show ?thesis using 4 p k i by simp
      qed
      then show "event_key (?g1 ! heap_parent k) \<le> event_key (?g1 ! k)" unfolding q_def .
    next
      fix k assume k: "0 < p \<and> 0 < k \<and> k < length ?g1 \<and> heap_parent k = p"
      define q where "q = heap_parent p"
      have q: "q < p" using k heap_parent_less by (simp add: q_def)
      have pk: "p < k" using k heap_parent_less by blast
      have a: "event_key (?g ! q) \<le> event_key (?g ! p)"
        using heap_up_toD(1)[OF up, of p] k p by (simp add: q_def)
      show "event_key (?g1 ! heap_parent p) \<le> event_key (?g1 ! k)"
        unfolding q_def[symmetric]
      proof (cases "k = i")
        case True
        then show "event_key (?g1 ! q) \<le> event_key (?g1 ! k)" using a k p q i by simp
      next
        case False
        have "event_key (?g ! p) \<le> event_key (?g ! k)"
          using heap_up_toD(1)[OF up, of k] k False by simp
        then show "event_key (?g1 ! q) \<le> event_key (?g1 ! k)"
          using False a k p pk q i by simp
      qed
    qed
    moreover have "p = (i - 1) div 2" by (simp add: p_def heap_parent_def)
    ultimately have "j < length h' \<and> length h' = length ?h1 \<and> mset (h'[j := held]) = mset ?g1
      \<and> heap_ordered (h'[j := held])"
      using "1.IH"[of p h' j] True p loop by simp
    then show ?thesis using ms by simp
  qed
qed

lemma sift_up_spec:
  assumes "i < length h" "heap_up_to h i"
  shows "mset (sift_up h i) = mset h \<and> length (sift_up h i) = length h \<and> heap_ordered (sift_up h i)"
proof -
  obtain h' j where l: "sift_up_loop (h ! i) h i = (h', j)" by fastforce
  then show ?thesis
    using sift_up_loop_spec[OF assms(1) _ l] assms by (simp add: sift_up_def)
qed

definition least_child :: "event list \<Rightarrow> nat \<Rightarrow> nat" where
  "least_child h i =
     (if 2 * i + 2 < length h \<and> earlier (h ! (2 * i + 2)) (h ! (2 * i + 1)) then 2 * i + 2
      else 2 * i + 1)"

lemma sift_down_loop_unfold:
  "sift_down_loop held h i =
     (if 2 * i + 1 < length h \<and> earlier (h ! least_child h i) held
      then sift_down_loop held (h[i := h ! least_child h i]) (least_child h i) else (h, i))"
  by (subst sift_down_loop.simps) (simp add: Let_def least_child_def)

lemma least_child_bounds:
  assumes "2 * i + 1 < length h"
  shows "i < least_child h i" "least_child h i < length h" "heap_parent (least_child h i) = i"
  using assms by (auto simp: least_child_def heap_parent_def)

lemma least_child_le:
  assumes "0 < k" "k < length h" "heap_parent k = i"
  shows "event_key (h ! least_child h i) \<le> event_key (h ! k)"
  using assms heap_children[of k i] by (auto simp: earlier_key not_less least_child_def)

lemma sift_down_loop_spec:
  assumes "i < length h" "heap_down_to (h[i := held]) i" "sift_down_loop held h i = (h', j)"
  shows "j < length h' \<and> length h' = length h \<and> mset (h'[j := held]) = mset (h[i := held])
    \<and> heap_ordered (h'[j := held])"
  using assms
proof (induction "length h - i" arbitrary: h i h' j rule: less_induct)
  case less
  note i = less.prems(1) and down = less.prems(2)
  define c where "c = least_child h i"
  let ?g = "h[i := held]"
  note unf = sift_down_loop_unfold[of held h i, folded c_def]
  show ?case
  proof (cases "2 * i + 1 < length h \<and> earlier (h ! c) held")
    case False
    then have r: "h' = h" "j = i" using less.prems(3) unf by (auto split: if_splits)
    have "heap_ordered ?g"
      unfolding heap_ordered_def
    proof (intro allI impI)
      fix k assume k: "0 < k \<and> k < length ?g"
      show "event_key (?g ! heap_parent k) \<le> event_key (?g ! k)"
      proof (cases "heap_parent k = i")
        case True
        then have "2 * i + 1 < length h" "i < k"
          using k heap_children[of k i] heap_parent_less[of k] by auto
        then have "event_key held \<le> event_key (h ! c)" using False by (simp add: earlier_key not_less)
        also have "\<dots> \<le> event_key (h ! k)" using least_child_le[of k h i] True k by (simp add: c_def)
        finally show ?thesis using True \<open>i < k\<close> i by simp
      next
        case False
        then show ?thesis using heap_down_toD(1)[OF down, of k] k by simp
      qed
    qed
    then show ?thesis using r i by simp
  next
    case True
    have c: "i < c" "c < length h" "heap_parent c = i"
      using True least_child_bounds[of i h] by (auto simp: c_def)
    let ?h1 = "h[i := h ! c]"
    let ?g1 = "?h1[c := held]"
    have loop: "sift_down_loop held ?h1 c = (h', j)" using True less.prems(3) unf by simp
    have ms: "mset ?g1 = mset ?g" using c i by (intro mset_move) auto
    have lt: "event_key (h ! c) \<le> event_key held"
      using True by (auto simp: earlier_key intro: less_imp_le)
    have "heap_down_to ?g1 c"
      unfolding heap_down_to_def
    proof (intro conjI allI impI)
      fix k assume k: "0 < k \<and> k < length ?g1 \<and> heap_parent k \<noteq> c"
      define q where "q = heap_parent k"
      have q: "q < k" "q \<noteq> c" using k heap_parent_less by (auto simp: q_def)
      consider "q = i" "k = c" | "q = i" "k \<noteq> c" | "q \<noteq> i" "k = i" | "q \<noteq> i" "k \<noteq> i" by blast
      then have "event_key (?g1 ! q) \<le> event_key (?g1 ! k)"
      proof cases
        case 1
        then show ?thesis using c lt i by simp
      next
        case 2
        then show ?thesis using least_child_le[of k h i] k q c i by (simp add: c_def q_def)
      next
        case 3
        then have "event_key (?g ! q) \<le> event_key (?g ! c)"
          using heap_down_toD(2)[OF down, of c] k c q by (simp add: q_def)
        then show ?thesis using 3 k c q i by simp
      next
        case 4
        moreover have "k \<noteq> c" using 4 c by (auto simp: q_def)
        moreover have "event_key (?g ! q) \<le> event_key (?g ! k)"
          using heap_down_toD(1)[OF down, of k] k 4 by (simp add: q_def)
        ultimately show ?thesis using k q by simp
      qed
      then show "event_key (?g1 ! heap_parent k) \<le> event_key (?g1 ! k)" unfolding q_def .
    next
      fix k assume k: "0 < c \<and> 0 < k \<and> k < length ?g1 \<and> heap_parent k = c"
      have "c < k" using k heap_parent_less by blast
      moreover have "event_key (?g ! c) \<le> event_key (?g ! k)"
        using heap_down_toD(1)[OF down, of k] k c by simp
      ultimately show "event_key (?g1 ! heap_parent c) \<le> event_key (?g1 ! k)"
        using c k i by simp
    qed
    then have "j < length h' \<and> length h' = length ?h1 \<and> mset (h'[j := held]) = mset ?g1
      \<and> heap_ordered (h'[j := held])"
      by (intro less.hyps[OF _ _ _ loop]) (use c i in auto)
    then show ?thesis using ms by simp
  qed
qed

lemma sift_down_spec:
  assumes "i < length h" "heap_down_to h i"
  shows "mset (sift_down h i) = mset h \<and> length (sift_down h i) = length h \<and> heap_ordered (sift_down h i)"
proof -
  obtain h' j where l: "sift_down_loop (h ! i) h i = (h', j)" by fastforce
  then show ?thesis
    using sift_down_loop_spec[OF assms(1) _ l] assms by (simp add: sift_down_def)
qed


section \<open>Contract of the event queue\<close>

text \<open>
  What the simulation loop relies on: the queue is a bag of stamped items, \<open>push\<close> adds
  one, \<open>pop\<close> removes one of least key.  The client lemma drains the queue.
\<close>

fun drain_queue :: "('q \<Rightarrow> ('a \<times> 'q) option) \<Rightarrow> nat \<Rightarrow> 'q \<Rightarrow> 'a list \<times> 'q" where
  "drain_queue pop 0 q = ([], q)"
| "drain_queue pop (Suc n) q =
     (case pop q of None \<Rightarrow> ([], q)
      | Some (x, q) \<Rightarrow> (case drain_queue pop n q of (xs, q) \<Rightarrow> (x # xs, q)))"

locale min_queue =
  fixes items :: "'q \<Rightarrow> 'a multiset"
    and invar :: "'q \<Rightarrow> bool"
    and key :: "'a \<Rightarrow> 'k::linorder"
    and stamp :: "'q \<Rightarrow> 'a \<Rightarrow> 'a"
    and push :: "'a \<Rightarrow> 'q \<Rightarrow> 'q"
    and pop :: "'q \<Rightarrow> ('a \<times> 'q) option"
  assumes push_invar: "invar q \<Longrightarrow> invar (push x q)"
    and push_items: "invar q \<Longrightarrow> items (push x q) = add_mset (stamp q x) (items q)"
    and pop_none: "invar q \<Longrightarrow> items q = {#} \<Longrightarrow> pop q = None"
    and pop_some: "invar q \<Longrightarrow> items q \<noteq> {#} \<Longrightarrow> \<exists>x q'. pop q = Some (x, q') \<and> invar q'
      \<and> items q = add_mset x (items q') \<and> (\<forall>y \<in># items q'. key x \<le> key y)"
begin

lemma pop_SomeD:
  assumes "invar q" "pop q = Some (x, q')"
  shows "invar q'" "items q = add_mset x (items q')" "\<forall>y \<in># items q'. key x \<le> key y"
proof -
  have "items q \<noteq> {#}" using pop_none[OF assms(1)] assms(2) by auto
  then show "invar q'" "items q = add_mset x (items q')" "\<forall>y \<in># items q'. key x \<le> key y"
    using pop_some[OF assms(1)] assms(2) by auto
qed

lemma pop_None_iff: "invar q \<Longrightarrow> pop q = None \<longleftrightarrow> items q = {#}"
  using pop_none pop_some by fastforce

lemma drain_sorted:
  assumes "invar q" "size (items q) \<le> n" "drain_queue pop n q = (xs, q')"
  shows "mset xs = items q \<and> sorted (map key xs) \<and> items q' = {#}"
  using assms
proof (induction n arbitrary: q xs q')
  case 0
  then show ?case by simp
next
  case (Suc n)
  show ?case
  proof (cases "pop q")
    case None
    then have "items q = {#}" "xs = []" "q' = q"
      using Suc.prems pop_None_iff[OF Suc.prems(1)] by auto
    then show ?thesis by simp
  next
    case (Some p)
    then obtain x q1 where p: "pop q = Some (x, q1)" by (cases p) auto
    note d = pop_SomeD[OF Suc.prems(1) p]
    obtain ys q2 where l: "drain_queue pop n q1 = (ys, q2)" by fastforce
    then have r: "xs = x # ys" "q' = q2" using Suc.prems(3) p by auto
    have "mset ys = items q1 \<and> sorted (map key ys) \<and> items q2 = {#}"
      using Suc.IH[OF d(1) _ l] Suc.prems(2) d(2) by simp
    moreover have "set ys = set_mset (items q1)" using calculation by (metis set_mset_mset)
    ultimately show ?thesis using d r by simp
  qed
qed

end

definition eq_events :: "event_queue \<Rightarrow> event multiset" where
  "eq_events q = mset (eq_heap q)"

definition eq_inv :: "event_queue \<Rightarrow> bool" where
  "eq_inv q \<longleftrightarrow> heap_ordered (eq_heap q)"

definition eq_stamp :: "event_queue \<Rightarrow> event \<Rightarrow> event" where
  "eq_stamp q e = e\<lparr>ev_seq := eq_next_seq q\<rparr>"

lemma heap_root_least:
  assumes "heap_ordered h" "k < length h"
  shows "event_key (h ! 0) \<le> event_key (h ! k)"
  using assms(2)
proof (induction k rule: less_induct)
  case (less k)
  show ?case
  proof (cases "k = 0")
    case False
    then have "heap_parent k < k" by (simp add: heap_parent_less)
    then have "event_key (h ! 0) \<le> event_key (h ! heap_parent k)" using less by auto
    also have "\<dots> \<le> event_key (h ! k)" using assms(1) less.prems False by (simp add: heap_ordered_def)
    finally show ?thesis .
  qed simp
qed

lemma eq_push_spec:
  assumes "eq_inv q"
  shows "eq_inv (eq_push e q)" "eq_events (eq_push e q) = add_mset (eq_stamp q e) (eq_events q)"
proof -
  let ?h = "eq_heap q @ [eq_stamp q e]"
  have "heap_up_to ?h (length ?h - 1)"
    unfolding heap_up_to_def
  proof (intro conjI allI impI)
    fix k assume k: "0 < k \<and> k < length ?h \<and> k \<noteq> length ?h - 1"
    then have "heap_parent k < k" by (simp add: heap_parent_less)
    then show "event_key (?h ! heap_parent k) \<le> event_key (?h ! k)"
      using assms k by (auto simp: nth_append eq_inv_def heap_ordered_def)
  next
    fix k assume k: "0 < length ?h - 1 \<and> 0 < k \<and> k < length ?h \<and> heap_parent k = length ?h - 1"
    then have "False" using heap_parent_less[of k] by auto
    then show "event_key (?h ! heap_parent (length ?h - 1)) \<le> event_key (?h ! k)" ..
  qed
  then have "mset (sift_up ?h (length ?h - 1)) = mset ?h \<and> heap_ordered (sift_up ?h (length ?h - 1))"
    using sift_up_spec[of "length ?h - 1" ?h] by simp
  moreover have "eq_push e q = \<lparr>eq_heap = sift_up ?h (length ?h - 1), eq_next_seq = eq_next_seq q + 1\<rparr>"
    by (simp add: eq_push_def eq_stamp_def Let_def)
  ultimately show "eq_inv (eq_push e q)"
    "eq_events (eq_push e q) = add_mset (eq_stamp q e) (eq_events q)"
    by (simp_all add: eq_inv_def eq_events_def)
qed

lemma eq_pop_spec:
  assumes "eq_inv q" "eq_events q \<noteq> {#}"
  shows "\<exists>x q'. eq_pop q = Some (x, q') \<and> eq_inv q' \<and> eq_events q = add_mset x (eq_events q')
    \<and> (\<forall>y \<in># eq_events q'. event_key x \<le> event_key y) \<and> eq_next_seq q' = eq_next_seq q"
proof -
  obtain x t where h: "eq_heap q = x # t" using assms(2) by (cases "eq_heap q") (auto simp: eq_events_def)
  have least: "\<forall>y \<in> set (x # t). event_key x \<le> event_key y"
    using heap_root_least[of "x # t"] assms(1) h unfolding eq_inv_def
    by (metis in_set_conv_nth nth_Cons_0)
  show ?thesis
  proof (cases "t = []")
    case True
    then show ?thesis using h
      by (simp add: eq_pop_def eq_inv_def eq_events_def heap_ordered_def)
  next
    case False
    define b where "b = butlast (last t # t)"
    have b: "b = last t # butlast t" using False by (simp add: b_def)
    have "heap_down_to b 0"
      unfolding heap_down_to_def
    proof (intro conjI allI impI)
      fix k assume k: "0 < k \<and> k < length b \<and> heap_parent k \<noteq> 0"
      have pk: "heap_parent k < k" using k by (simp add: heap_parent_less)
      have same: "b ! m = (x # t) ! m" if "m \<noteq> 0" "m < length b" for m
        using that False by (auto simp: b nth_Cons' nth_butlast)
      have "event_key ((x # t) ! heap_parent k) \<le> event_key ((x # t) ! k)"
        using assms(1) h k False by (auto simp: eq_inv_def heap_ordered_def b)
      then show "event_key (b ! heap_parent k) \<le> event_key (b ! k)"
        using same[of k] same[of "heap_parent k"] k pk by simp
    qed simp
    then have s: "mset (sift_down b 0) = mset b \<and> heap_ordered (sift_down b 0)"
      using sift_down_spec[of 0 b] b by simp
    have mb: "mset b = mset t"
      using False by (simp add: b) (metis append_butlast_last_id add_mset_add_single mset.simps mset_append)
    have "eq_pop q = Some (x, q\<lparr>eq_heap := sift_down b 0\<rparr>)"
      using h False b by (simp add: eq_pop_def b_def Let_def)
    moreover have "\<forall>y \<in># mset t. event_key x \<le> event_key y" using least by simp
    ultimately show ?thesis using s mb h
      by (intro exI[of _ x] exI[of _ "q\<lparr>eq_heap := sift_down b 0\<rparr>"])
        (simp add: eq_inv_def eq_events_def del: set_mset_mset)
  qed
qed

interpretation evq: min_queue eq_events eq_inv event_key eq_stamp eq_push eq_pop
proof unfold_locales
  fix q :: event_queue and x :: event
  assume inv: "eq_inv q"
  show "eq_inv (eq_push x q)" "eq_events (eq_push x q) = add_mset (eq_stamp q x) (eq_events q)"
    using eq_push_spec[OF inv] by auto
  show "eq_events q = {#} \<Longrightarrow> eq_pop q = None" by (simp add: eq_events_def eq_pop_def)
  show "eq_events q \<noteq> {#} \<Longrightarrow> \<exists>x q'. eq_pop q = Some (x, q') \<and> eq_inv q'
      \<and> eq_events q = add_mset x (eq_events q') \<and> (\<forall>y \<in># eq_events q'. event_key x \<le> event_key y)"
    using eq_pop_spec[OF inv] by blast
qed

lemma eq_empty_iff: "eq_empty q \<longleftrightarrow> eq_events q = {#}"
  by (simp add: eq_empty_def eq_events_def)

lemma eq_inv_clear [simp]: "eq_inv (eq_clear q)" "eq_events (eq_clear q) = {#}"
  by (simp_all add: eq_inv_def eq_events_def eq_clear_def heap_ordered_def)

lemma eq_next_seq_push [simp]: "eq_next_seq (eq_push e q) = eq_next_seq q + 1"
  by (simp add: eq_push_def Let_def)

end
