(* ===== verification/Queue_Stable.thy ===== *)
theory Queue_Stable
  imports Event_Queue
begin

text \<open>
  The order in which the event queue hands out a batch of events: by time, and events of
  the same time in the order they were pushed.  The sequence number that makes it so is
  stamped by \<open>eq_push\<close>.
\<close>

fun stamped :: "u64 \<Rightarrow> event list \<Rightarrow> event list" where
  "stamped n [] = []"
| "stamped n (e # es) = e\<lparr>ev_seq := n\<rparr> # stamped (n + 1) es"

lemma length_stamped [simp]: "length (stamped n es) = length es"
  by (induction es arbitrary: n) auto

lemma push_all:
  assumes "eq_inv q"
  shows "eq_inv (fold eq_push es q)"
    "eq_events (fold eq_push es q) = mset (stamped (eq_next_seq q) es) + eq_events q"
  using assms
proof (induction es arbitrary: q)
  case (Cons e es)
  { case 1 then show ?case using Cons.IH(1) evq.push_invar by simp }
  { case 2
    then show ?case
      using Cons.IH(2)[of "eq_push e q"] evq.push_invar[of q e] evq.push_items[of q e]
      by (simp add: eq_stamp_def) }
qed auto

lemma stamped_nth:
  "i < length es \<Longrightarrow> stamped n es ! i = (es ! i)\<lparr>ev_seq := n + of_nat i\<rparr>"
  by (induction es arbitrary: n i) (auto simp: nth_Cons' add.assoc)

lemma stamped_seq_sorted:
  assumes "unat n + length es < 2 ^ 64"
  shows "sorted (map ev_seq (stamped n es)) \<and> distinct (map ev_seq (stamped n es))"
proof -
  have u: "unat (n + of_nat i :: u64) = unat n + i" if "i < length es" for i
  proof -
    have i: "unat (of_nat i :: u64) = i" by (rule unat_of_nat_small) (use that assms in simp)
    then show ?thesis using that assms by (simp add: unat_add_small)
  qed
  have "sorted (map ev_seq (stamped n es))"
    by (auto simp: sorted_iff_nth_mono stamped_nth word_le_nat_alt u)
  moreover have "distinct (map ev_seq (stamped n es))"
    by (auto simp: distinct_conv_nth stamped_nth) (metis u add_left_cancel)
  ultimately show ?thesis ..
qed

lemma sorted_same_time:
  "sorted (map event_key xs) \<Longrightarrow> sorted (map ev_seq (filter (\<lambda>x. ev_time x = t) xs))"
  by (induction xs) (auto simp: event_key_def)

lemma sorted_keys_times: "sorted (map event_key xs) \<Longrightarrow> sorted (map ev_time xs)"
  by (induction xs) (auto simp: event_key_def less_eq_prod_def)

lemma sorted_filter_seq: "sorted (map ev_seq ys) \<Longrightarrow> sorted (map ev_seq (filter P ys))"
  by (rule sorted_filter)

text \<open>Sorting by \<open>(time, seq)\<close> is the stable sort by time.\<close>

lemma key_sorted_stable:
  assumes xs: "mset xs = mset ys" "sorted (map event_key xs)"
    and ys: "sorted (map ev_seq ys)" "distinct (map ev_seq ys)"
  shows "xs = sort_key ev_time ys"
proof (rule properties_for_sort_key[symmetric])
  show "mset xs = mset ys" by (rule xs)
  show "sorted (map ev_time xs)" using sorted_keys_times[OF xs(2)] .
  fix k assume "k \<in> set xs"
  let ?P = "\<lambda>x. ev_time k = ev_time x"
  have inj: "inj_on ev_seq (set ys)" using ys(2) by (simp add: distinct_map)
  have "sorted (map ev_seq (filter ?P xs))"
    using sorted_same_time[OF xs(2), of "ev_time k"] by (simp add: eq_commute)
  moreover have "sorted (map ev_seq (filter ?P ys))" using ys(1) by (rule sorted_filter_seq)
  moreover have m: "mset (filter ?P xs) = mset (filter ?P ys)" using xs(1) by simp
  moreover have "mset (map ev_seq (filter ?P xs)) = mset (map ev_seq (filter ?P ys))"
    using m by (simp add: mset_map)
  ultimately have "map ev_seq (filter ?P xs) = map ev_seq (filter ?P ys)"
    by (metis properties_for_sort)
  moreover have "inj_on ev_seq (set (filter ?P xs) \<union> set (filter ?P ys))"
    using inj mset_eq_setD[OF xs(1)] by (auto intro: inj_on_subset)
  ultimately show "filter ?P xs = filter ?P ys" by (metis map_inj_on)
qed

lemma drain_stable:
  assumes "length es < 2 ^ 64" "drain_queue eq_pop (length es) (fold eq_push es eq_new) = (xs, q)"
  shows "xs = sort_key ev_time (stamped 0 es) \<and> eq_empty q"
proof -
  have new: "eq_inv eq_new" "eq_events eq_new = {#}" "eq_next_seq eq_new = 0"
    by (simp_all add: eq_new_def eq_inv_def eq_events_def heap_ordered_def)
  note p = push_all[OF new(1), of es, unfolded new(2,3)]
  have "mset xs = mset (stamped 0 es) \<and> sorted (map event_key xs) \<and> eq_events q = {#}"
    using evq.drain_sorted[OF p(1) _ assms(2)] p(2) by simp
  then show ?thesis
    using key_sorted_stable stamped_seq_sorted[of 0 es] assms(1) by (auto simp: eq_empty_iff)
qed

end
