(* ===== verification/Flow_Hash.thy ===== *)
theory Flow_Hash
  imports Units_Ids
begin

text \<open>
  \<^verbatim>\<open>routing/flow_key.hpp\<close> and \<^verbatim>\<open>routing/policy.hpp\<close>: the 5-tuple, its hash, the
  multiply-shift map onto candidates and the two routing policies.  The lemmas show
  that the mixer is a bijection of 64-bit words, so distinct switches and distinct
  5-tuple fields never collide in the full hash, that the index map stays in range and
  is as even as an integer map can be, and that both policies meet the contract the
  simulator relies on.
\<close>

unbundle bit_operations_syntax

section \<open>The hash\<close>

record flow_key =
  fk_src_ip :: u32
  fk_dst_ip :: u32
  fk_src_port :: u16
  fk_dst_port :: u16
  fk_protocol :: u8

definition mix64 :: "u64 \<Rightarrow> u64" where
  "mix64 x =
     (let x = x XOR drop_bit 30 x;
          x = x * 0xBF58476D1CE4E5B9;
          x = x XOR drop_bit 27 x;
          x = x * 0x94D049BB133111EB;
          x = x XOR drop_bit 31 x
      in x)"

definition key_addrs :: "flow_key \<Rightarrow> u64" where
  "key_addrs k = push_bit 32 (ucast (fk_src_ip k)) OR ucast (fk_dst_ip k)"

definition key_ports :: "flow_key \<Rightarrow> u64" where
  "key_ports k = push_bit 48 (ucast (fk_src_port k)) OR push_bit 32 (ucast (fk_dst_port k))
     OR push_bit 24 (ucast (fk_protocol k))"

definition flow_hash :: "flow_key \<Rightarrow> u64 \<Rightarrow> u64" where
  "flow_hash k salt =
     (let addrs = key_addrs k; ports = key_ports k in
      mix64 (mix64 (addrs XOR 0x9E3779B97F4A7C15) XOR ports XOR salt))"

definition switch_salt :: "u32 \<Rightarrow> u64 \<Rightarrow> u64" where
  "switch_salt node seed = mix64 (seed XOR (push_bit 1 (ucast node) OR 1))"

definition hash_to_index :: "u64 \<Rightarrow> nat \<Rightarrow> u32" where
  "hash_to_index h n = (let frac = drop_bit 32 h in ucast (drop_bit 32 (frac * of_nat n)))"

section \<open>Routing policies\<close>

datatype RoutingAlgorithm = StaticFirst | Ecmp

definition routing_name :: "RoutingAlgorithm \<Rightarrow> string" where
  "routing_name a = (case a of StaticFirst \<Rightarrow> ''static'' | Ecmp \<Rightarrow> ''ecmp'')"

type_synonym policy = "node_id \<Rightarrow> flow_key \<Rightarrow> port_id list \<Rightarrow> Nanos \<Rightarrow> port_id option"

definition static_first_select :: policy where
  "static_first_select at key cand now = vget cand 0"

definition ecmp_select :: "u64 \<Rightarrow> policy" where
  "ecmp_select seed at key cand now =
     (if length cand = 1 then vget cand 0
      else
        let h = flow_hash key (switch_salt (id_value at) seed) in
        vget cand (unat (hash_to_index h (length cand))))"

section \<open>The mixer is a bijection\<close>

definition unshift :: "nat \<Rightarrow> u64 \<Rightarrow> u64" where
  "unshift s y = y XOR drop_bit s y XOR drop_bit (2 * s) y"

definition unmix64 :: "u64 \<Rightarrow> u64" where
  "unmix64 y = unshift 30 (unshift 27 (unshift 31 y * 0x319642B2D24D8EC3) * 0x96DE1B173F119089)"

lemma drop_bit_word_beyond: "64 \<le> s \<Longrightarrow> drop_bit s (x :: u64) = 0"
  by (intro bit_eqI) (auto simp: bit_drop_bit_eq dest: bit_imp_le_length)

lemma unshift_left: "22 \<le> s \<Longrightarrow> unshift s (x XOR drop_bit s x) = x"
  by (simp add: unshift_def drop_bit_xor drop_bit_word_beyond mult_2 add.assoc[symmetric]
      xor.assoc xor.left_commute)

lemma unshift_right: "22 \<le> s \<Longrightarrow> unshift s x XOR drop_bit s (unshift s x) = x"
  by (simp add: unshift_def drop_bit_xor drop_bit_word_beyond mult_2 add.assoc[symmetric]
      xor.assoc xor.left_commute)

lemma mul_inverses:
  "(x :: u64) * 0xBF58476D1CE4E5B9 * 0x96DE1B173F119089 = x"
  "(x :: u64) * 0x96DE1B173F119089 * 0xBF58476D1CE4E5B9 = x"
  "(x :: u64) * 0x94D049BB133111EB * 0x319642B2D24D8EC3 = x"
  "(x :: u64) * 0x319642B2D24D8EC3 * 0x94D049BB133111EB = x"
proof -
  have c: "(0xBF58476D1CE4E5B9 :: u64) * 0x96DE1B173F119089 = 1"
    "(0x94D049BB133111EB :: u64) * 0x319642B2D24D8EC3 = 1" by simp_all
  have cancel: "a * b = 1 \<Longrightarrow> x * a * b = x" "a * b = 1 \<Longrightarrow> x * b * a = x" for a b :: u64
    by (metis mult.assoc mult.commute mult.right_neutral)+
  show "x * 0xBF58476D1CE4E5B9 * 0x96DE1B173F119089 = x"
    "x * 0x96DE1B173F119089 * 0xBF58476D1CE4E5B9 = x"
    "x * 0x94D049BB133111EB * 0x319642B2D24D8EC3 = x"
    "x * 0x319642B2D24D8EC3 * 0x94D049BB133111EB = x"
    using cancel[OF c(1)] cancel[OF c(2)] by blast+
qed

lemma unmix64_mix64: "unmix64 (mix64 x) = x"
  by (simp add: unmix64_def mix64_def Let_def unshift_left mul_inverses)

lemma mix64_unmix64: "mix64 (unmix64 x) = x"
  by (simp add: unmix64_def mix64_def Let_def unshift_right mul_inverses)

lemma mix64_inject: "mix64 x = mix64 y \<longleftrightarrow> x = y"
  using unmix64_mix64 by metis

lemma xor_inject: "(x :: 'a::len word) XOR a = y XOR a \<longleftrightarrow> x = y"
  by (metis xor.assoc xor.right_neutral xor_self_eq)

lemma xor_inject_left: "a XOR (x :: 'a::len word) = a XOR y \<longleftrightarrow> x = y"
  by (metis xor_inject xor.commute)

section \<open>Injectivity of the hash in each of its inputs\<close>

lemma bit_ucast32: "bit (ucast (x :: u32) :: u64) n \<longleftrightarrow> bit x n"
  by (auto simp: bit_ucast_iff dest: bit_imp_le_length)

lemma bit_ucast16: "bit (ucast (x :: u16) :: u64) n \<longleftrightarrow> bit x n"
  by (auto simp: bit_ucast_iff dest: bit_imp_le_length)

lemma bit_ucast8: "bit (ucast (x :: u8) :: u64) n \<longleftrightarrow> bit x n"
  by (auto simp: bit_ucast_iff dest: bit_imp_le_length)

lemma key_addrs_inject:
  "key_addrs k = key_addrs l \<longleftrightarrow> fk_src_ip k = fk_src_ip l \<and> fk_dst_ip k = fk_dst_ip l"
proof
  assume eq: "key_addrs k = key_addrs l"
  have "bit (fk_dst_ip k) n = bit (fk_dst_ip l) n" if "n < 32" for n
    using arg_cong[OF eq, of "\<lambda>w. bit w n"] that
    by (simp add: key_addrs_def bit_or_iff bit_push_bit_iff bit_ucast32)
  moreover have "bit (fk_src_ip k) n = bit (fk_src_ip l) n" if "n < 32" for n
  proof -
    have "\<not> bit (x :: u32) (32 + n)" for x using bit_imp_le_length[of x "32 + n"] by auto
    then show ?thesis using arg_cong[OF eq, of "\<lambda>w. bit w (32 + n)"] that
      by (simp add: key_addrs_def bit_or_iff bit_push_bit_iff bit_ucast32)
  qed
  ultimately show "fk_src_ip k = fk_src_ip l \<and> fk_dst_ip k = fk_dst_ip l"
    by (auto intro!: bit_word_eqI)
qed (simp add: key_addrs_def)

lemma key_ports_inject:
  "key_ports k = key_ports l \<longleftrightarrow>
     fk_src_port k = fk_src_port l \<and> fk_dst_port k = fk_dst_port l \<and> fk_protocol k = fk_protocol l"
proof
  assume eq: "key_ports k = key_ports l"
  have no16: "\<not> bit (x :: u16) n" if "16 \<le> n" for x n using bit_imp_le_length[of x n] that by auto
  have no8: "\<not> bit (x :: u8) n" if "8 \<le> n" for x n using bit_imp_le_length[of x n] that by auto
  have b: "bit (key_ports j) m \<longleftrightarrow> m < 64 \<and> (48 \<le> m \<and> bit (fk_src_port j) (m - 48)
      \<or> 32 \<le> m \<and> bit (fk_dst_port j) (m - 32) \<or> 24 \<le> m \<and> bit (fk_protocol j) (m - 24))" for j m
    by (auto simp: key_ports_def bit_or_iff bit_push_bit_iff bit_ucast16 bit_ucast8)
  have "bit (fk_src_port k) n = bit (fk_src_port l) n" if "n < 16" for n
    using arg_cong[OF eq, of "\<lambda>w. bit w (48 + n)"] that by (simp add: b no16 no8)
  moreover have "bit (fk_dst_port k) n = bit (fk_dst_port l) n" if "n < 16" for n
    using arg_cong[OF eq, of "\<lambda>w. bit w (32 + n)"] that by (simp add: b no16 no8)
  moreover have "bit (fk_protocol k) n = bit (fk_protocol l) n" if "n < 8" for n
    using arg_cong[OF eq, of "\<lambda>w. bit w (24 + n)"] that by (simp add: b no16 no8)
  ultimately show "fk_src_port k = fk_src_port l \<and> fk_dst_port k = fk_dst_port l \<and> fk_protocol k = fk_protocol l"
    by (auto intro!: bit_word_eqI)
qed (simp add: key_ports_def)

lemma flow_hash_salt_inject: "flow_hash k s = flow_hash k t \<longleftrightarrow> s = t"
  by (simp add: flow_hash_def Let_def mix64_inject xor_inject_left)

lemma flow_hash_ports_inject:
  "key_addrs k = key_addrs l \<Longrightarrow> flow_hash k s = flow_hash l s \<longleftrightarrow> key_ports k = key_ports l"
  by (simp add: flow_hash_def Let_def mix64_inject xor_inject xor_inject_left)

lemma flow_hash_addrs_inject:
  "key_ports k = key_ports l \<Longrightarrow> flow_hash k s = flow_hash l s \<longleftrightarrow> key_addrs k = key_addrs l"
  by (simp add: flow_hash_def Let_def mix64_inject xor_inject)

lemma switch_salt_inject: "switch_salt m seed = switch_salt n seed \<longleftrightarrow> m = n"
proof -
  have "(push_bit 1 (ucast m) OR 1 :: u64) = (push_bit 1 (ucast n) OR 1) \<longleftrightarrow> m = n"
  proof
    assume eq: "(push_bit 1 (ucast m) OR 1 :: u64) = (push_bit 1 (ucast n) OR 1)"
    have b: "bit (push_bit 1 (ucast x) OR 1 :: u64) (Suc i) = bit x i" if "i < 32" for x :: u32 and i
      unfolding bit_or_iff bit_push_bit_iff bit_ucast32 using that by (simp add: bit_1_iff)
    have "bit m i = bit n i" if "i < 32" for i
      using arg_cong[OF eq, of "\<lambda>w. bit w (Suc i)"] unfolding b[OF that] .
    then show "m = n" by (auto intro!: bit_word_eqI)
  qed simp
  then show ?thesis by (simp add: switch_salt_def mix64_inject xor_inject_left)
qed

section \<open>The index map\<close>

lemma hash_to_index_nat:
  assumes "0 < n" "n \<le> 2 ^ 32"
  shows "unat (hash_to_index h n) = unat (drop_bit 32 h) * n div 2 ^ 32"
proof -
  let ?f = "drop_bit 32 h"
  have f: "unat ?f < 2 ^ 32"
    using unat_lt64[of h] by (simp add: unat_drop_bit_eq drop_bit_nat_def div_less_iff_less_mult)
  have prod: "unat ?f * n < 2 ^ 64"
  proof -
    have "unat ?f * n \<le> (2 ^ 32 - 1) * 2 ^ 32" using f assms by (intro mult_le_mono) auto
    then show ?thesis by simp
  qed
  have n: "unat (of_nat n :: u64) = n" using assms by (intro unat_of_nat_small) simp
  have m: "unat (?f * of_nat n) = unat ?f * n" using prod n by (simp add: unat_mult_small)
  have "unat (drop_bit 32 (?f * of_nat n)) = unat ?f * n div 2 ^ 32"
    by (simp add: unat_drop_bit_eq drop_bit_nat_def m)
  moreover have "unat ?f * n div 2 ^ 32 < 2 ^ 32"
    using prod by (simp add: div_less_iff_less_mult)
  ultimately show ?thesis
    by (simp add: hash_to_index_def Let_def unsigned_ucast_eq take_bit_nat_eq_self)
qed

lemma hash_to_index_less:
  assumes "0 < n" "n \<le> 2 ^ 32"
  shows "unat (hash_to_index h n) < n"
proof -
  have "unat (drop_bit 32 h) < 2 ^ 32"
    using unat_lt64[of h] by (simp add: unat_drop_bit_eq drop_bit_nat_def div_less_iff_less_mult)
  then have "unat (drop_bit 32 h) * n < 2 ^ 32 * n" using assms(1) by (intro mult_strict_right_mono) auto
  then show ?thesis by (simp add: hash_to_index_nat[OF assms] div_less_iff_less_mult mult.commute)
qed

text \<open>How many of \<open>K\<close> equally likely fractions land on index \<open>i\<close> of \<open>n\<close>.\<close>

definition ceil_div :: "nat \<Rightarrow> nat \<Rightarrow> nat" where
  "ceil_div a b = (a + b - 1) div b"

lemma ceil_div_le_iff: "0 < b \<Longrightarrow> ceil_div a b \<le> f \<longleftrightarrow> a \<le> f * b"
proof -
  assume b: "0 < b"
  have "ceil_div a b \<le> f \<longleftrightarrow> a + b - 1 < Suc f * b"
    unfolding ceil_div_def using b by (metis div_less_iff_less_mult less_Suc_eq_le)
  also have "\<dots> \<longleftrightarrow> a \<le> f * b" using b by auto
  finally show ?thesis .
qed

lemma lemire_bucket:
  assumes n: "0 < n" and K: "0 < K" and i: "i < n"
  shows "{f. f < K \<and> f * n div K = i} = {ceil_div (i * K) n ..< ceil_div (Suc i * K) n}"
proof -
  have "f < K \<and> f * n div K = i \<longleftrightarrow> ceil_div (i * K) n \<le> f \<and> f < ceil_div (Suc i * K) n" for f
  proof -
    have "f * n div K = i \<longleftrightarrow> i \<le> f * n div K \<and> f * n div K < Suc i" by auto
    also have "\<dots> \<longleftrightarrow> i * K \<le> f * n \<and> f * n < Suc i * K"
      unfolding less_eq_div_iff_mult_less_eq[OF K] div_less_iff_less_mult[OF K] ..
    finally have "f * n div K = i \<longleftrightarrow> i * K \<le> f * n \<and> f * n < Suc i * K" .
    moreover have "f < K" if "f * n < Suc i * K"
    proof -
      have "Suc i * K \<le> n * K" using i by (intro mult_le_mono1) simp
      with that have "f * n < n * K" by (rule less_le_trans)
      then show ?thesis using mult_less_cancel2[of f n K] by (simp only: mult.commute[of n K])
    qed
    ultimately show ?thesis
      using ceil_div_le_iff[OF n, of "i * K" f] ceil_div_le_iff[OF n, of "Suc i * K" f]
      unfolding not_le[symmetric] by blast
  qed
  then show ?thesis unfolding set_eq_iff mem_Collect_eq atLeastLessThan_iff by blast
qed

lemma lemire_even:
  assumes n: "0 < n" and K: "0 < K" and i: "i < n"
  shows "K div n \<le> card {f. f < K \<and> f * n div K = i}"
    "card {f. f < K \<and> f * n div K = i} \<le> K div n + 1"
proof -
  let ?a = "i * K + n - 1"
  have c: "card {f. f < K \<and> f * n div K = i} = (?a + K) div n - ?a div n"
  proof -
    have "Suc i * K + n - 1 = ?a + K" using n by simp
    then show ?thesis
      unfolding lemire_bucket[OF assms] ceil_div_def by (simp only: card_atLeastLessThan)
  qed
  have "?a div n + K div n \<le> (?a + K) div n"
    using div_add1_eq[of ?a K n] by linarith
  moreover have "(?a + K) div n \<le> ?a div n + K div n + 1"
  proof -
    have "(?a mod n + K mod n) div n \<le> 1"
    proof -
      have "?a mod n + K mod n < 2 * n"
        using mod_less_divisor[OF n, of ?a] mod_less_divisor[OF n, of K] by linarith
      then have "(?a mod n + K mod n) div n < 2" by (simp add: div_less_iff_less_mult[OF n])
      then show ?thesis by simp
    qed
    then show ?thesis using div_add1_eq[of ?a K n] by linarith
  qed
  ultimately show "K div n \<le> card {f. f < K \<and> f * n div K = i}"
    "card {f. f < K \<and> f * n div K = i} \<le> K div n + 1"
    using c by linarith+
qed

lemma hash_to_index_fair:
  assumes "n \<le> 2 ^ 32" "i < n"
  shows "card {f. f < 2 ^ 32 \<and> unat (hash_to_index (push_bit 32 (of_nat f)) n) = i}
    \<in> {2 ^ 32 div n, 2 ^ 32 div n + 1}"
proof -
  have frac: "unat (drop_bit 32 (push_bit 32 (of_nat f) :: u64)) = f" if "f < 2 ^ 32" for f :: nat
  proof -
    have u: "unat (of_nat f :: u64) = f" by (rule unat_of_nat_small) (use that in simp)
    then have "f * 2 ^ 32 < 2 ^ 64" using that by simp
    then have "unat (push_bit 32 (of_nat f) :: u64) = f * 2 ^ 32"
      using u by (simp add: push_bit_eq_mult unat_mult_small)
    then show ?thesis by (simp add: unat_drop_bit_eq drop_bit_nat_def)
  qed
  have "{f. f < 2 ^ 32 \<and> unat (hash_to_index (push_bit 32 (of_nat f)) n) = i}
      = {f. f < 2 ^ 32 \<and> f * n div 2 ^ 32 = i}"
    using frac hash_to_index_nat[of n] assms by auto
  then show ?thesis
    using lemire_even[of n "2 ^ 32" i] assms by fastforce
qed

section \<open>The policy contract\<close>

text \<open>
  What \<open>Simulation::on_arrive\<close> relies on: a policy picks one of the candidates it is
  given, whatever the switch, the key and the time.
\<close>

locale routing_policy =
  fixes select :: policy
  assumes select_candidate: "cand \<noteq> [] \<Longrightarrow> length cand \<le> 2 ^ 32 \<Longrightarrow>
    \<exists>p \<in> set cand. select at key cand now = Some p"
begin

lemma select_single: "select at key [p] now = Some p"
  using select_candidate[of "[p]"] by simp

lemma select_SomeD:
  assumes "select at key cand now = Some p" "cand \<noteq> []" "length cand \<le> 2 ^ 32"
  shows "p \<in> set cand"
proof -
  obtain x where "x \<in> set cand" "select at key cand now = Some x"
    using select_candidate[OF assms(2,3)] by blast
  then show ?thesis using assms(1) by simp
qed

end

interpretation static_policy: routing_policy static_first_select
proof unfold_locales
  fix cand :: "port_id list" and at :: node_id and key now
  assume "cand \<noteq> []"
  then show "\<exists>p \<in> set cand. static_first_select at key cand now = Some p"
    by (cases cand) (simp_all add: static_first_select_def vget_def)
qed

interpretation ecmp_policy: routing_policy "ecmp_select seed" for seed
proof unfold_locales
  fix cand :: "port_id list" and at :: node_id and key now
  assume c: "cand \<noteq> []" "length cand \<le> 2 ^ 32"
  let ?i = "unat (hash_to_index (flow_hash key (switch_salt (id_value at) seed)) (length cand))"
  have "?i < length cand" using c by (intro hash_to_index_less) auto
  then show "\<exists>p \<in> set cand. ecmp_select seed at key cand now = Some p"
    using c by (auto simp: ecmp_select_def Let_def fabric_simps)
qed

end
