(* ===== verification/Fabric_Build.thy ===== *)
theory Fabric_Build
  imports Packet_Ring
begin

text \<open>
  \<^verbatim>\<open>model/fabric.hpp\<close> and \<^verbatim>\<open>model/fabric.cpp\<close>: nodes, directed ports, the fabric
  and the two-phase builder.  The lemmas show that \<open>build\<close> never leaves its vectors,
  that the ports of a node are one contiguous run, that ports pair up, and that the
  dense host index is inverse to the host list; \<open>fabric_shape\<close> collects what the other
  components rely on.
\<close>

section \<open>Data\<close>

record link_params =
  lp_rate :: BitsPerSec
  lp_prop_delay_ns :: Nanos
  lp_queue_capacity_pkts :: nat

definition default_link :: link_params where
  "default_link = \<lparr>lp_rate = gbps 100, lp_prop_delay_ns = 100, lp_queue_capacity_pkts = 128\<rparr>"

record node =
  node_first_port :: u32
  node_port_count :: u32
  node_is_host :: bool

record port =
  port_owner :: node_id
  port_peer_node :: node_id
  port_peer_port :: port_id
  port_rate :: BitsPerSec
  port_prop_delay_ns :: Nanos
  port_busy :: bool
  port_in_flight :: packet
  port_queue :: packet_ring
  port_packets_sent :: u64
  port_bytes_sent :: u64
  port_packets_dropped :: u64
  port_bytes_dropped :: u64

definition default_port :: port where
  "default_port = \<lparr>port_owner = id_invalid, port_peer_node = id_invalid,
     port_peer_port = id_invalid, port_rate = 0, port_prop_delay_ns = 0, port_busy = False,
     port_in_flight = default_packet, port_queue = default_ring, port_packets_sent = 0,
     port_bytes_sent = 0, port_packets_dropped = 0, port_bytes_dropped = 0\<rparr>"

record fabric =
  fab_nodes :: "node list"
  fab_ports :: "port list"
  fab_port_ids :: "port_id list"
  fab_hosts :: "node_id list"
  fab_host_index :: "u32 list"

definition node_count :: "fabric \<Rightarrow> nat" where "node_count f = length (fab_nodes f)"
definition port_count :: "fabric \<Rightarrow> nat" where "port_count f = length (fab_ports f)"
definition host_count :: "fabric \<Rightarrow> nat" where "host_count f = length (fab_hosts f)"

definition fabric_node :: "fabric \<Rightarrow> node_id \<Rightarrow> node option" where
  "fabric_node f n = vget (fab_nodes f) (id_index n)"

definition fabric_port :: "fabric \<Rightarrow> port_id \<Rightarrow> port option" where
  "fabric_port f p = vget (fab_ports f) (id_index p)"

definition set_port :: "fabric \<Rightarrow> port_id \<Rightarrow> port \<Rightarrow> fabric option" where
  "set_port f p x = do { ps \<leftarrow> vset (fab_ports f) (id_index p) x; Some (f\<lparr>fab_ports := ps\<rparr>) }"

definition ports_of :: "fabric \<Rightarrow> node_id \<Rightarrow> port_id list option" where
  "ports_of f n = do {
     nd \<leftarrow> vget (fab_nodes f) (id_index n);
     let first = unat (node_first_port nd);
     let count = unat (node_port_count nd);
     assert_that (first + count \<le> length (fab_port_ids f));
     Some (take count (drop first (fab_port_ids f)))
   }"

definition host_index :: "fabric \<Rightarrow> node_id \<Rightarrow> u32 option" where
  "host_index f n = vget (fab_host_index f) (id_index n)"

definition host_at :: "fabric \<Rightarrow> u32 \<Rightarrow> node_id option" where
  "host_at f h = vget (fab_hosts f) (unat h)"

text \<open>\<open>Fabric::reset_state\<close>\<close>

definition reset_port :: "port \<Rightarrow> port" where
  "reset_port p = p\<lparr>port_busy := False, port_in_flight := default_packet,
     port_queue := ring_init (ring_capacity (port_queue p)),
     port_packets_sent := 0, port_bytes_sent := 0, port_packets_dropped := 0,
     port_bytes_dropped := 0\<rparr>"

definition reset_state :: "fabric \<Rightarrow> fabric" where
  "reset_state f = f\<lparr>fab_ports := map reset_port (fab_ports f)\<rparr>"

section \<open>The builder\<close>

record edge =
  edge_a :: node_id
  edge_b :: node_id
  edge_params :: link_params

record fabric_builder =
  fb_is_host :: "u8 list"
  fb_edges :: "edge list"

definition builder_new :: fabric_builder where
  "builder_new = \<lparr>fb_is_host = [], fb_edges = []\<rparr>"

definition add_switch :: "fabric_builder \<Rightarrow> node_id \<times> fabric_builder" where
  "add_switch b = (id_at (length (fb_is_host b)), b\<lparr>fb_is_host := fb_is_host b @ [0]\<rparr>)"

definition add_host :: "fabric_builder \<Rightarrow> node_id \<times> fabric_builder" where
  "add_host b = (id_at (length (fb_is_host b)), b\<lparr>fb_is_host := fb_is_host b @ [1]\<rparr>)"

definition connect :: "node_id \<Rightarrow> node_id \<Rightarrow> link_params \<Rightarrow> fabric_builder \<Rightarrow> fabric_builder option" where
  "connect a b params fb = do {
     assert_that (id_index a < length (fb_is_host fb) \<and> id_index b < length (fb_is_host fb));
     assert_that (a \<noteq> b);
     Some (fb\<lparr>fb_edges := fb_edges fb @ [\<lparr>edge_a = a, edge_b = b, edge_params = params\<rparr>]\<rparr>)
   }"

text \<open>Pass 1: count the ports of every node.\<close>

definition count_edge :: "edge \<Rightarrow> u32 list \<Rightarrow> u32 list option" where
  "count_edge e degree = do {
     da \<leftarrow> vget degree (id_index (edge_a e));
     degree \<leftarrow> vset degree (id_index (edge_a e)) (da + 1);
     db \<leftarrow> vget degree (id_index (edge_b e));
     vset degree (id_index (edge_b e)) (db + 1)
   }"

fun layout_nodes :: "u32 \<Rightarrow> (node \<times> u32) list \<Rightarrow> node list \<times> u32" where
  "layout_nodes running [] = ([], running)"
| "layout_nodes running ((nd, degree) # rest) =
     (case layout_nodes (running + degree) rest of
        (nds, n) \<Rightarrow> (nd\<lparr>node_first_port := running, node_port_count := 0\<rparr> # nds, n))"

text \<open>Pass 2: two directed ports per edge, each in the next free slot of its owner.\<close>

definition claim_slot :: "node_id \<Rightarrow> node list \<Rightarrow> (u32 \<times> node list) option" where
  "claim_slot owner nodes = do {
     nd \<leftarrow> vget nodes (id_index owner);
     let s = node_first_port nd + node_port_count nd;
     nodes \<leftarrow> vset nodes (id_index owner) (nd\<lparr>node_port_count := node_port_count nd + 1\<rparr>);
     Some (s, nodes)
   }"

definition wire_port :: "node_id \<Rightarrow> node_id \<Rightarrow> u32 \<Rightarrow> link_params \<Rightarrow> port \<Rightarrow> port" where
  "wire_port owner peer peer_slot params p = p\<lparr>port_owner := owner, port_peer_node := peer,
     port_peer_port := Id peer_slot, port_rate := lp_rate params,
     port_prop_delay_ns := lp_prop_delay_ns params,
     port_queue := ring_init (lp_queue_capacity_pkts params)\<rparr>"

definition place_edge :: "edge \<Rightarrow> node list \<times> port list \<times> port_id list
    \<Rightarrow> (node list \<times> port list \<times> port_id list) option" where
  "place_edge e st = (case st of (nodes, ports, ids) \<Rightarrow> do {
     (sa, nodes) \<leftarrow> claim_slot (edge_a e) nodes;
     (sb, nodes) \<leftarrow> claim_slot (edge_b e) nodes;
     pa \<leftarrow> vget ports (unat sa);
     ports \<leftarrow> vset ports (unat sa) (wire_port (edge_a e) (edge_b e) sb (edge_params e) pa);
     pb \<leftarrow> vget ports (unat sb);
     ports \<leftarrow> vset ports (unat sb) (wire_port (edge_b e) (edge_a e) sa (edge_params e) pb);
     ids \<leftarrow> vset ids (unat sa) (Id sa);
     ids \<leftarrow> vset ids (unat sb) (Id sb);
     Some (nodes, ports, ids)
   })"

text \<open>Dense host indexing.\<close>

fun index_hosts :: "nat \<Rightarrow> node list \<Rightarrow> node_id list \<Rightarrow> u32 list \<times> node_id list" where
  "index_hosts i [] hosts = ([], hosts)"
| "index_hosts i (nd # nds) hosts =
     (if node_is_host nd
      then case index_hosts (i + 1) nds (hosts @ [id_at i]) of
             (idx, hs) \<Rightarrow> (of_nat (length hosts) # idx, hs)
      else case index_hosts (i + 1) nds hosts of (idx, hs) \<Rightarrow> (kInvalidValue # idx, hs))"

definition build :: "fabric_builder \<Rightarrow> fabric option" where
  "build b = do {
     let n = length (fb_is_host b);
     let nodes = map (\<lambda>h. \<lparr>node_first_port = 0, node_port_count = 0, node_is_host = h \<noteq> 0\<rparr>)
                   (fb_is_host b);
     degree \<leftarrow> fold_opt count_edge (fb_edges b) (replicate n 0);
     let (nodes, running) = layout_nodes 0 (zip nodes degree);
     let total_ports = unat running;
     (nodes, ports, ids) \<leftarrow> fold_opt place_edge (fb_edges b)
        (nodes, replicate total_ports default_port, replicate total_ports id_invalid);
     let (host_idx, hosts) = index_hosts 0 nodes [];
     Some \<lparr>fab_nodes = nodes, fab_ports = ports, fab_port_ids = ids, fab_hosts = hosts,
       fab_host_index = host_idx\<rparr>
   }"

section \<open>Shape of a built fabric\<close>

definition node_run :: "fabric \<Rightarrow> nat \<Rightarrow> nat set" where
  "node_run f n = {unat (node_first_port (fab_nodes f ! n))
     ..< unat (node_first_port (fab_nodes f ! n)) + unat (node_port_count (fab_nodes f ! n))}"

definition peer_index :: "fabric \<Rightarrow> nat \<Rightarrow> nat" where
  "peer_index f p = id_index (port_peer_node (fab_ports f ! p))"

definition ports_wired :: "fabric \<Rightarrow> bool" where
  "ports_wired f \<longleftrightarrow> (\<forall>p < port_count f.
     let x = fab_ports f ! p; q = id_index (port_peer_port x); y = fab_ports f ! q in
     id_index (port_owner x) < node_count f \<and> q < port_count f
     \<and> id_index (port_peer_port y) = p \<and> port_peer_node x = port_owner y
     \<and> port_owner x \<noteq> port_peer_node x
     \<and> port_rate y = port_rate x \<and> port_prop_delay_ns y = port_prop_delay_ns x)"

definition runs_contiguous :: "fabric \<Rightarrow> bool" where
  "runs_contiguous f \<longleftrightarrow> length (fab_port_ids f) = port_count f \<and> port_count f < 2 ^ 32 \<and>
     (\<forall>p < port_count f. fab_port_ids f ! p = id_at p) \<and>
     (\<forall>n < node_count f. unat (node_first_port (fab_nodes f ! n))
          + unat (node_port_count (fab_nodes f ! n)) \<le> port_count f
        \<and> node_run f n = {p. p < port_count f \<and> port_owner (fab_ports f ! p) = id_at n})"

definition hosts_indexed :: "fabric \<Rightarrow> bool" where
  "hosts_indexed f \<longleftrightarrow> length (fab_host_index f) = node_count f \<and> node_count f < 2 ^ 32 \<and>
     (\<forall>h < host_count f. id_index (fab_hosts f ! h) < node_count f
        \<and> node_is_host (fab_nodes f ! id_index (fab_hosts f ! h))
        \<and> unat (fab_host_index f ! id_index (fab_hosts f ! h)) = h) \<and>
     (\<forall>n < node_count f. node_is_host (fab_nodes f ! n) \<longrightarrow>
        unat (fab_host_index f ! n) < host_count f
        \<and> fab_hosts f ! unat (fab_host_index f ! n) = id_at n)"

definition fabric_shape :: "fabric \<Rightarrow> bool" where
  "fabric_shape f \<longleftrightarrow> ports_wired f \<and> runs_contiguous f \<and> hosts_indexed f"


section \<open>The builder is correct\<close>

text \<open>
  The endpoints of the edge list, in the order pass 2 claims their slots: endpoint
  \<open>2 * i\<close> is side \<open>a\<close> of edge \<open>i\<close>, endpoint \<open>2 * i + 1\<close> side \<open>b\<close>.
\<close>

definition builder_inv :: "fabric_builder \<Rightarrow> bool" where
  "builder_inv b \<longleftrightarrow> length (fb_is_host b) < 2 ^ 32 \<and> 2 * length (fb_edges b) < 2 ^ 32 \<and>
     (\<forall>e \<in> set (fb_edges b). id_index (edge_a e) < length (fb_is_host b)
        \<and> id_index (edge_b e) < length (fb_is_host b) \<and> edge_a e \<noteq> edge_b e)"

fun endpoint_keys :: "edge list \<Rightarrow> nat list" where
  "endpoint_keys [] = []"
| "endpoint_keys (e # es) = id_index (edge_a e) # id_index (edge_b e) # endpoint_keys es"

definition endpoint_port :: "edge list \<Rightarrow> nat \<Rightarrow> port" where
  "endpoint_port es j = (let e = es ! (j div 2); ks = endpoint_keys es in
     if even j then wire_port (edge_a e) (edge_b e) (of_nat (slot ks (j + 1))) (edge_params e) default_port
     else wire_port (edge_b e) (edge_a e) (of_nat (slot ks (j - 1))) (edge_params e) default_port)"

lemma length_endpoint_keys [simp]: "length (endpoint_keys es) = 2 * length es"
  by (induction es) auto

lemma endpoint_keys_nth:
  "i < length es \<Longrightarrow> endpoint_keys es ! (2 * i) = id_index (edge_a (es ! i))"
  "i < length es \<Longrightarrow> endpoint_keys es ! Suc (2 * i) = id_index (edge_b (es ! i))"
proof (induction es arbitrary: i)
  case (Cons e es)
  { case 1 then show ?case using Cons by (cases i) auto }
  { case 2 then show ?case using Cons by (cases i) auto }
qed auto

lemma endpoint_keys_bound:
  assumes "builder_inv b" "k \<in> set (endpoint_keys (fb_edges b))"
  shows "k < length (fb_is_host b)"
proof -
  have "\<forall>e \<in> set es. id_index (edge_a e) < n \<and> id_index (edge_b e) < n \<Longrightarrow>
      k \<in> set (endpoint_keys es) \<Longrightarrow> k < n" for es n
    by (induction es) auto
  then show ?thesis using assms by (auto simp: builder_inv_def)
qed

lemma degree_pass:
  assumes "builder_inv b"
  shows "fold_opt count_edge (fb_edges b) (replicate (length (fb_is_host b)) 0)
    = Some (map (\<lambda>k. of_nat (count_list (endpoint_keys (fb_edges b)) k)) [0..<length (fb_is_host b)])"
proof -
  define ks where "ks = endpoint_keys (fb_edges b)"
  define n where "n = length (fb_is_host b)"
  define P where "P i d \<longleftrightarrow> d = map (\<lambda>k. of_nat (count_list (take (2 * i) ks) k) :: u32) [0..<n]" for i d
  have "\<exists>d. fold_opt count_edge (fb_edges b) (replicate n 0) = Some d \<and> P (length (fb_edges b)) d"
  proof (rule fold_opt_invariant)
    show "P 0 (replicate n 0)" by (simp add: P_def list_eq_iff_nth_eq)
  next
    fix i d assume i: "i < length (fb_edges b)" and P: "P i d"
    let ?e = "fb_edges b ! i"
    have e: "id_index (edge_a ?e) < n" "id_index (edge_b ?e) < n"
      using assms i by (auto simp: builder_inv_def n_def)
    have k: "2 * i < length ks" "Suc (2 * i) < length ks" using i by (auto simp: ks_def)
    have ct: "count_list (take (2 * Suc i) ks) x = count_list (take (2 * i) ks) x
        + (if id_index (edge_a ?e) = x then 1 else 0) + (if id_index (edge_b ?e) = x then 1 else 0)" for x
      using count_list_take_Suc[OF k(1)] count_list_take_Suc[OF k(2)] i
      by (simp add: ks_def endpoint_keys_nth)
    define a where "a = id_index (edge_a ?e)"
    define c where "c = id_index (edge_b ?e)"
    define f where "f k = (of_nat (count_list (take (2 * i) ks) k) :: u32)" for k
    have d: "d = map f [0..<n]" using P by (simp add: P_def f_def)
    let ?d1 = "d[a := f a + 1]"
    let ?d2 = "?d1[c := ?d1 ! c + 1]"
    have "count_edge ?e d = Some ?d2"
      using e by (simp add: count_edge_def fabric_simps d a_def[symmetric] c_def[symmetric])
    moreover have "P (Suc i) ?d2"
      unfolding P_def ct a_def[symmetric] c_def[symmetric]
    proof (rule nth_equalityI)
      fix k assume "k < length ?d2"
      then have "k < n" by (simp add: d)
      then show "?d2 ! k = map (\<lambda>x. of_nat (count_list (take (2 * i) ks) x + (if a = x then 1 else 0)
          + (if c = x then 1 else 0))) [0..<n] ! k"
        by (cases "k = c"; cases "k = a") (auto simp: d f_def)
    qed (simp add: d)
    ultimately show "\<exists>d'. count_edge ?e d = Some d' \<and> P (Suc i) d'" by blast
  qed
  then show ?thesis by (simp add: P_def n_def ks_def)
qed

lemma layout_nodes_spec:
  "length ds = length nds \<Longrightarrow> layout_nodes r (zip nds ds) =
     (map (\<lambda>i. (nds ! i)\<lparr>node_first_port := r + sum_list (take i ds), node_port_count := 0\<rparr>) [0..<length nds],
      r + sum_list ds)"
proof (induction nds ds arbitrary: r rule: list_induct2')
  case (4 nd nds d ds)
  then show ?case
    by (simp add: upt_conv_Cons add.assoc comp_def del: upt_Suc flip: map_Suc_upt)
qed auto

lemma sum_counts:
  "sum_list (take i (map (\<lambda>k. of_nat (count_list ks k) :: u32) [0..<n])) = of_nat (first_slot ks i)"
  if "i \<le> n"
  using that
proof (induction i)
  case (Suc i)
  then show ?case by (simp add: take_Suc_conv_app_nth first_slot_Suc)
qed simp

lemma endpoint_port_simps [simp]:
  "port_owner (endpoint_port es j) = (if even j then edge_a (es ! (j div 2)) else edge_b (es ! (j div 2)))"
  "port_peer_node (endpoint_port es j) = (if even j then edge_b (es ! (j div 2)) else edge_a (es ! (j div 2)))"
  "port_peer_port (endpoint_port es j) = Id (of_nat (slot (endpoint_keys es) (if even j then j + 1 else j - 1)))"
  "port_rate (endpoint_port es j) = lp_rate (edge_params (es ! (j div 2)))"
  "port_prop_delay_ns (endpoint_port es j) = lp_prop_delay_ns (edge_params (es ! (j div 2)))"
  "port_queue (endpoint_port es j) = ring_init (lp_queue_capacity_pkts (edge_params (es ! (j div 2))))"
  "port_busy (endpoint_port es j) = False"
  by (simp_all add: endpoint_port_def wire_port_def Let_def default_port_def)

definition laid_node :: "nat list \<Rightarrow> nat \<Rightarrow> u8 \<Rightarrow> nat \<Rightarrow> node" where
  "laid_node ks m h k = \<lparr>node_first_port = of_nat (first_slot ks k),
     node_port_count = of_nat (count_list (take m ks) k), node_is_host = h \<noteq> 0\<rparr>"

definition pass2_inv :: "fabric_builder \<Rightarrow> nat \<Rightarrow> node list \<times> port list \<times> port_id list \<Rightarrow> bool" where
  "pass2_inv b i st \<longleftrightarrow> (case st of (nodes, ports, ids) \<Rightarrow>
     let es = fb_edges b; ks = endpoint_keys es; n = length (fb_is_host b) in
     nodes = map (\<lambda>k. laid_node ks (2 * i) (fb_is_host b ! k) k) [0..<n] \<and>
     length ports = length ks \<and> length ids = length ks \<and>
     (\<forall>j < length ks. ports ! slot ks j = (if j < 2 * i then endpoint_port es j else default_port)) \<and>
     (\<forall>j < 2 * i. ids ! slot ks j = id_at (slot ks j)))"

lemma claim_slot_spec:
  assumes "nodes = map (\<lambda>k. laid_node ks m (hs ! k) k) [0..<n]" "m < length ks" "ks ! m < n"
    "id_index v = ks ! m"
  shows "claim_slot v nodes = Some (of_nat (slot ks m),
    map (\<lambda>k. laid_node ks (Suc m) (hs ! k) k) [0..<n])"
proof -
  let ?k = "ks ! m"
  have "nodes[?k := laid_node ks (Suc m) (hs ! ?k) ?k] = map (\<lambda>k. laid_node ks (Suc m) (hs ! k) k) [0..<n]"
    using assms by (auto simp: list_eq_iff_nth_eq nth_list_update laid_node_def count_list_take_Suc)
  moreover have "(laid_node ks m (hs ! ?k) ?k)\<lparr>node_port_count := node_port_count (laid_node ks m (hs ! ?k) ?k) + 1\<rparr>
      = laid_node ks (Suc m) (hs ! ?k) ?k"
    using assms(2) by (simp add: laid_node_def count_list_take_Suc)
  moreover have "node_first_port (laid_node ks m (hs ! ?k) ?k) + node_port_count (laid_node ks m (hs ! ?k) ?k)
      = of_nat (slot ks m)"
    by (simp add: laid_node_def slot_def)
  ultimately show ?thesis using assms
    by (simp add: claim_slot_def fabric_simps)
qed

lemma place_edge_pass2:
  assumes b: "builder_inv b" and i: "i < length (fb_edges b)" and inv: "pass2_inv b i st"
  shows "\<exists>st'. place_edge (fb_edges b ! i) st = Some st' \<and> pass2_inv b (Suc i) st'"
proof -
  define es where "es = fb_edges b"
  define ks where "ks = endpoint_keys es"
  define n where "n = length (fb_is_host b)"
  define e where "e = es ! i"
  obtain nodes ports ids where st: "st = (nodes, ports, ids)" by (cases st)
  have len: "2 * i < length ks" "Suc (2 * i) < length ks" using i by (auto simp: ks_def es_def)
  have small: "length ks < 2 ^ 32" using b by (simp add: builder_inv_def ks_def es_def)
  have keys: "ks ! (2 * i) = id_index (edge_a e)" "ks ! Suc (2 * i) = id_index (edge_b e)"
    using i by (auto simp: ks_def es_def e_def endpoint_keys_nth)
  have bd: "ks ! (2 * i) < n" "ks ! Suc (2 * i) < n"
    using b i keys by (auto simp: builder_inv_def n_def e_def es_def)
  define sa sb where "sa = slot ks (2 * i)" and "sb = slot ks (Suc (2 * i))"
  have s: "sa < length ks" "sb < length ks" "sa \<noteq> sb"
    using slot_less[OF len(1)] slot_less[OF len(2)] slot_inj[OF len] by (auto simp: sa_def sb_def)
  have us: "unat (of_nat sa :: u32) = sa" "unat (of_nat sb :: u32) = sb"
    using s small by (auto intro!: unat_of_nat_small)
  have nodes: "nodes = map (\<lambda>k. laid_node ks (2 * i) (fb_is_host b ! k) k) [0..<n]"
    and lp: "length ports = length ks" "length ids = length ks"
    and ports: "\<And>j. j < length ks \<Longrightarrow> ports ! slot ks j = (if j < 2 * i then endpoint_port es j else default_port)"
    and ids: "\<And>j. j < 2 * i \<Longrightarrow> ids ! slot ks j = id_at (slot ks j)"
    using inv by (auto simp: pass2_inv_def st Let_def ks_def es_def n_def)
  note c1 = claim_slot_spec[OF nodes len(1) bd(1) keys(1)[symmetric], folded sa_def]
  note c2 = claim_slot_spec[OF refl len(2) bd(2) keys(2)[symmetric], folded sb_def]
  let ?ports = "ports[sa := endpoint_port es (2 * i), sb := endpoint_port es (Suc (2 * i))]"
  let ?ids = "ids[sa := id_at sa, sb := id_at sb]"
  have pa: "ports ! sa = default_port" "ports ! sb = default_port"
    using ports[OF len(1)] ports[OF len(2)] by (auto simp: sa_def sb_def)
  have ends: "wire_port (edge_a e) (edge_b e) (of_nat sb) (edge_params e) default_port = endpoint_port es (2 * i)"
    "wire_port (edge_b e) (edge_a e) (of_nat sa) (edge_params e) default_port = endpoint_port es (Suc (2 * i))"
    by (simp_all add: endpoint_port_def Let_def e_def sa_def sb_def ks_def)
  have "place_edge e st = Some (map (\<lambda>k. laid_node ks (Suc (Suc (2 * i))) (fb_is_host b ! k) k) [0..<n], ?ports, ?ids)"
    using s pa us by (simp add: place_edge_def st c1 c2 fabric_simps lp ends id_at_def)
  moreover have "pass2_inv b (Suc i) (map (\<lambda>k. laid_node ks (Suc (Suc (2 * i))) (fb_is_host b ! k) k) [0..<n], ?ports, ?ids)"
  proof -
    have "?ports ! slot ks j = (if j < 2 * Suc i then endpoint_port es j else default_port)"
      if j: "j < length ks" for j
      using slot_inj[OF j len(1)] slot_inj[OF j len(2)] ports[OF j] s lp
      by (auto simp: sa_def sb_def nth_list_update less_Suc_eq)
    moreover have "?ids ! slot ks j = id_at (slot ks j)" if j: "j < 2 * Suc i" for j
    proof -
      have jl: "j < length ks" using j len by simp
      show ?thesis
        using slot_inj[OF jl len(1)] slot_inj[OF jl len(2)] ids[of j] s lp j
        by (auto simp: sa_def sb_def nth_list_update less_Suc_eq)
    qed
    ultimately have "(\<forall>j < length ks. ?ports ! slot ks j = (if j < 2 * Suc i then endpoint_port es j else default_port))
        \<and> (\<forall>j < 2 * Suc i. ?ids ! slot ks j = id_at (slot ks j))" by blast
    then show ?thesis using lp
      unfolding pass2_inv_def Let_def ks_def[symmetric] es_def[symmetric] n_def[symmetric] prod.case
      by simp
  qed
  ultimately show ?thesis by (auto simp: e_def es_def)
qed

lemma index_hosts_spec:
  "index_hosts i nds hs =
     (map (\<lambda>k. if node_is_host (nds ! k)
           then of_nat (length hs + length (filter (\<lambda>j. node_is_host (nds ! j)) [0..<k]))
           else kInvalidValue) [0..<length nds],
      hs @ map (\<lambda>k. id_at (i + k)) (filter (\<lambda>j. node_is_host (nds ! j)) [0..<length nds]))"
proof (induction nds arbitrary: i hs)
  case (Cons nd nds)
  have up: "[0..<Suc k] = 0 # map Suc [0..<k]" for k
    by (simp add: upt_conv_Cons map_Suc_upt del: upt_Suc)
  show ?case
    unfolding index_hosts.simps Cons.IH
    by (simp add: up filter_map comp_def del: upt_Suc)
qed simp

lemma filter_upt_position:
  assumes "k < n" "H k"
  shows "filter H [0..<n] ! length (filter H [0..<k]) = k"
proof -
  show ?thesis using assms(2) by (simp add: upt_split_at[OF assms(1)] nth_append)
qed

lemma filter_upt_rank:
  assumes "h < length (filter H [0..<n])"
  shows "length (filter H [0..<filter H [0..<n] ! h]) = h"
proof -
  let ?F = "filter H [0..<n]" and ?k = "filter H [0..<n] ! h"
  have k: "?k < n" "H ?k" using nth_mem[OF assms] by auto
  have "length (filter H [0..<?k]) < length ?F"
  proof -
    have "?F = filter H [0..<?k] @ filter H (?k # [Suc ?k..<n])"
      using upt_split_at[OF k(1)] by (metis filter_append)
    then have "length ?F = length (filter H [0..<?k]) + length (filter H (?k # [Suc ?k..<n]))"
      by (metis length_append)
    moreover have "length (filter H (?k # [Suc ?k..<n])) > 0" using k(2) by simp
    ultimately show ?thesis by linarith
  qed
  moreover have "distinct ?F" by simp
  ultimately show ?thesis
    using filter_upt_position[of ?k n H] k assms by (metis nth_eq_iff_index_eq)
qed

lemma build_spec:
  assumes b: "builder_inv b"
  defines "ks \<equiv> endpoint_keys (fb_edges b)" and "n \<equiv> length (fb_is_host b)"
  shows "\<exists>f. build b = Some f
    \<and> fab_nodes f = map (\<lambda>k. laid_node ks (length ks) (fb_is_host b ! k) k) [0..<n]
    \<and> length (fab_ports f) = length ks
    \<and> (\<forall>j < length ks. fab_ports f ! slot ks j = endpoint_port (fb_edges b) j)
    \<and> fab_port_ids f = map id_at [0..<length ks]
    \<and> (fab_host_index f, fab_hosts f) = index_hosts 0 (fab_nodes f) []"
proof -
  let ?es = "fb_edges b" and ?hs = "fb_is_host b"
  define deg where "deg = map (\<lambda>k. of_nat (count_list ks k) :: u32) [0..<n]"
  define nds0 where "nds0 = map (\<lambda>h. \<lparr>node_first_port = 0, node_port_count = 0, node_is_host = h \<noteq> 0\<rparr>) ?hs"
  have small: "length ks < 2 ^ 32" using b by (simp add: builder_inv_def ks_def)
  have deg: "fold_opt count_edge ?es (replicate n 0) = Some deg"
    using degree_pass[OF b] by (simp add: deg_def ks_def n_def)
  have "sum_list deg = of_nat (first_slot ks n)"
    using sum_counts[of n n ks] by (simp add: deg_def)
  moreover have "first_slot ks n = length ks"
    using endpoint_keys_bound[OF b] by (intro first_slot_all) (auto simp: ks_def n_def)
  ultimately have tot: "sum_list deg = of_nat (length ks)" by simp
  let ?nodes0 = "map (\<lambda>k. laid_node ks 0 (?hs ! k) k) [0..<n]"
  have lay: "layout_nodes 0 (zip nds0 deg) = (?nodes0, of_nat (length ks))"
  proof -
    have l: "length deg = length nds0" by (simp add: deg_def nds0_def n_def)
    show ?thesis
      unfolding layout_nodes_spec[OF l]
      using tot sum_counts[of _ n ks, folded deg_def]
      by (simp add: nds0_def n_def[symmetric] laid_node_def)
  qed
  have ul: "unat (of_nat (length ks) :: u32) = length ks" using small by (simp add: unat_of_nat_small)
  let ?st0 = "(?nodes0, replicate (length ks) default_port, replicate (length ks) id_invalid :: port_id list)"
  have "pass2_inv b 0 ?st0"
    unfolding pass2_inv_def Let_def ks_def[symmetric] n_def[symmetric] prod.case
    by (simp add: slot_less)
  then obtain st where st: "fold_opt place_edge ?es ?st0 = Some st" "pass2_inv b (length ?es) st"
    using fold_opt_invariant[of "pass2_inv b" ?st0 ?es place_edge] place_edge_pass2[OF b] by blast
  obtain nodes ports ids where stp: "st = (nodes, ports, ids)" by (cases st)
  have lk: "length ks = 2 * length ?es" by (simp add: ks_def)
  have nodes: "nodes = map (\<lambda>k. laid_node ks (length ks) (?hs ! k) k) [0..<n]"
    and lp: "length ports = length ks" "length ids = length ks"
    and ports: "\<And>j. j < length ks \<Longrightarrow> ports ! slot ks j = endpoint_port ?es j"
    and idsj: "\<And>j. j < length ks \<Longrightarrow> ids ! slot ks j = id_at (slot ks j)"
    using st(2) lk unfolding pass2_inv_def stp Let_def ks_def[symmetric] n_def[symmetric] prod.case
    by auto
  have ids: "ids = map id_at [0..<length ks]"
  proof (rule nth_equalityI)
    fix p assume "p < length ids"
    then obtain j where "j < length ks" "slot ks j = p" using slot_surj[of p ks] lp by auto
    then show "ids ! p = map id_at [0..<length ks] ! p" using idsj[of j] slot_less[of j ks] by auto
  qed (simp add: lp)
  obtain hi hs where h: "index_hosts 0 nodes [] = (hi, hs)" by fastforce
  have "build b = Some \<lparr>fab_nodes = nodes, fab_ports = ports, fab_port_ids = ids, fab_hosts = hs,
       fab_host_index = hi\<rparr>"
    using deg lay st(1) stp h by (simp add: build_def n_def[symmetric] nds0_def[symmetric] ul Let_def)
  then show ?thesis using nodes lp ports ids h by auto
qed

lemma endpoint_owner:
  assumes "j < length (endpoint_keys es)"
  shows "port_owner (endpoint_port es j) = id_at (endpoint_keys es ! j)"
proof (cases "even j")
  case True
  then obtain i where "j = 2 * i" by (auto elim: evenE)
  then show ?thesis using assms endpoint_keys_nth(1)[of i es] by simp
next
  case False
  then obtain i where "j = Suc (2 * i)" by (auto elim: oddE)
  then show ?thesis using assms endpoint_keys_nth(2)[of i es] by simp
qed

definition partner :: "nat \<Rightarrow> nat" where
  "partner j = (if even j then j + 1 else j - 1)"

lemma partner_props:
  assumes "j < 2 * m"
  shows "partner j < 2 * m" "partner (partner j) = j" "partner j div 2 = j div 2"
    "even (partner j) \<longleftrightarrow> odd j"
proof -
  obtain i where "j = 2 * i \<or> j = Suc (2 * i)" by (metis evenE oddE Suc_eq_plus1)
  then show "partner j < 2 * m" "partner (partner j) = j" "partner j div 2 = j div 2"
    "even (partner j) \<longleftrightarrow> odd j"
    using assms by (auto simp: partner_def)
qed

lemma endpoint_peer:
  assumes "j < length (endpoint_keys es)"
  shows "port_peer_node (endpoint_port es j) = port_owner (endpoint_port es (partner j))"
    "port_peer_port (endpoint_port es j) = id_at (slot (endpoint_keys es) (partner j))"
    "port_rate (endpoint_port es (partner j)) = port_rate (endpoint_port es j)"
    "port_prop_delay_ns (endpoint_port es (partner j)) = port_prop_delay_ns (endpoint_port es j)"
  using partner_props[of j "length es"] assms by (auto simp: id_at_def partner_def)

lemma build_shape:
  assumes b: "builder_inv b" and f: "build b = Some f"
  shows "fabric_shape f"
proof -
  define es where "es = fb_edges b"
  define ks where "ks = endpoint_keys es"
  define n where "n = length (fb_is_host b)"
  have nodes: "fab_nodes f = map (\<lambda>k. laid_node ks (length ks) (fb_is_host b ! k) k) [0..<n]"
    and lp: "length (fab_ports f) = length ks"
    and ports: "\<And>j. j < length ks \<Longrightarrow> fab_ports f ! slot ks j = endpoint_port es j"
    and ids: "fab_port_ids f = map id_at [0..<length ks]"
    and hosts: "(fab_host_index f, fab_hosts f) = index_hosts 0 (fab_nodes f) []"
    using build_spec[OF b] f by (auto simp: es_def ks_def n_def)
  have small: "length ks < 2 ^ 32" "n < 2 ^ 32"
    using b by (auto simp: builder_inv_def ks_def es_def n_def)
  have lk: "length ks = 2 * length es" by (simp add: ks_def)
  have kb: "\<And>j. j < length ks \<Longrightarrow> ks ! j < n"
    using endpoint_keys_bound[OF b] by (simp add: ks_def es_def n_def)
  have nc: "node_count f = n" "port_count f = length ks" by (simp_all add: node_count_def port_count_def nodes lp)
  have "ports_wired f"
    unfolding ports_wired_def Let_def nc
  proof (intro allI impI)
    fix p assume "p < length ks"
    then obtain j where j: "j < length ks" "slot ks j = p" using slot_surj by blast
    let ?q = "partner j"
    have q: "?q < length ks" "partner ?q = j" "?q div 2 = j div 2" "even ?q \<longleftrightarrow> odd j"
      using partner_props[of j "length es"] j lk by auto
    have sl: "slot ks j < 2 ^ 32" "slot ks ?q < 2 ^ 32" "ks ! j < 2 ^ 32"
      using slot_less[OF j(1)] slot_less[OF q(1)] kb[OF j(1)] small by linarith+
    have px: "fab_ports f ! p = endpoint_port es j" using ports[OF j(1)] j(2) by simp
    have peer: "id_index (port_peer_port (fab_ports f ! p)) = slot ks ?q"
      unfolding px using endpoint_peer(2)[of j es] j(1) sl by (simp add: ks_def)
    have py: "fab_ports f ! slot ks ?q = endpoint_port es ?q" using ports[OF q(1)] .
    have bk: "id_index (port_peer_port (endpoint_port es ?q)) = p"
      using endpoint_peer(2)[of ?q es] q sl j by (simp add: ks_def)
    have "edge_a (es ! (j div 2)) \<noteq> edge_b (es ! (j div 2))"
      using b j(1) lk by (auto simp: builder_inv_def es_def)
    then have own: "port_owner (endpoint_port es j) \<noteq> port_peer_node (endpoint_port es j)" by auto
    show "id_index (port_owner (fab_ports f ! p)) < n \<and>
      id_index (port_peer_port (fab_ports f ! p)) < length ks \<and>
      id_index (port_peer_port (fab_ports f ! id_index (port_peer_port (fab_ports f ! p)))) = p \<and>
      port_peer_node (fab_ports f ! p) = port_owner (fab_ports f ! id_index (port_peer_port (fab_ports f ! p))) \<and>
      port_owner (fab_ports f ! p) \<noteq> port_peer_node (fab_ports f ! p) \<and>
      port_rate (fab_ports f ! id_index (port_peer_port (fab_ports f ! p))) = port_rate (fab_ports f ! p) \<and>
      port_prop_delay_ns (fab_ports f ! id_index (port_peer_port (fab_ports f ! p)))
        = port_prop_delay_ns (fab_ports f ! p)"
      unfolding peer py px
      using endpoint_owner[of j es] endpoint_peer[of j es] j(1) kb[OF j(1)] sl slot_less[OF q(1)] bk own py
      by (simp add: ks_def del: endpoint_port_simps)
  qed
  moreover have "runs_contiguous f"
    unfolding runs_contiguous_def nc
  proof (intro conjI allI impI)
    fix k assume k: "k < n"
    have u: "unat (of_nat (first_slot ks k) :: u32) = first_slot ks k"
      "unat (of_nat (count_list ks k) :: u32) = count_list ks k"
      using first_slot_le[of ks k] count_le_length[of ks k] small by (auto intro!: unat_of_nat_small)
    have run: "node_run f k = {first_slot ks k ..< first_slot ks (Suc k)}"
      using k u by (simp add: node_run_def nodes laid_node_def first_slot_Suc)
    have "p \<in> node_run f k \<longleftrightarrow> p < length ks \<and> port_owner (fab_ports f ! p) = id_at k" for p
    proof (cases "p < length ks")
      case True
      then obtain j where j: "j < length ks" "slot ks j = p" using slot_surj by blast
      have "port_owner (fab_ports f ! p) = id_at (ks ! j)"
        using ports[OF j(1)] endpoint_owner[of j es] j by (simp add: ks_def)
      then have "port_owner (fab_ports f ! p) = id_at k \<longleftrightarrow> ks ! j = k"
        using kb[OF j(1)] k small by (simp add: id_at_inject)
      also have "\<dots> \<longleftrightarrow> p \<in> node_run f k"
        using slot_bounds[OF j(1)] slot_key_unique[OF j(1), of k] j(2) by (auto simp: run)
      finally show ?thesis using True by simp
    next
      case False
      then show ?thesis using first_slot_le[of ks "Suc k"] by (simp add: run)
    qed
    then show "node_run f k = {p. p < length ks \<and> port_owner (fab_ports f ! p) = id_at k}" by blast
    show "unat (node_first_port (fab_nodes f ! k)) + unat (node_port_count (fab_nodes f ! k)) \<le> length ks"
      using k u first_slot_le[of ks "Suc k"] by (simp add: nodes laid_node_def first_slot_Suc)
  qed (use small ids in auto)
  moreover have "hosts_indexed f"
  proof -
    let ?H = "\<lambda>j. node_is_host (fab_nodes f ! j)"
    have ln: "length (fab_nodes f) = n" by (simp add: nodes)
    have hi: "fab_host_index f = map (\<lambda>k. if ?H k then of_nat (length (filter ?H [0..<k])) else kInvalidValue) [0..<n]"
      and hs: "fab_hosts f = map id_at (filter ?H [0..<n])"
      using hosts by (simp_all add: index_hosts_spec ln)
    have rank: "unat (of_nat (length (filter ?H [0..<k])) :: u32) = length (filter ?H [0..<k])" if "k < n" for k
      using that small length_filter_le[of ?H "[0..<k]"] by (intro unat_of_nat_small) simp
    have hc: "host_count f = length (filter ?H [0..<n])" by (simp add: host_count_def hs)
    show ?thesis
      unfolding hosts_indexed_def nc
    proof (intro conjI allI impI)
      fix h assume h: "h < host_count f"
      let ?k = "filter ?H [0..<n] ! h"
      have k: "?k < n" "?H ?k" using nth_mem[of h "filter ?H [0..<n]"] h by (auto simp: hc)
      have ik: "id_index (fab_hosts f ! h) = ?k" using h k small by (simp add: hs hc)
      show "id_index (fab_hosts f ! h) < n" "node_is_host (fab_nodes f ! id_index (fab_hosts f ! h))"
        using k by (simp_all add: ik)
      show "unat (fab_host_index f ! id_index (fab_hosts f ! h)) = h"
        unfolding ik using k rank[OF k(1)] filter_upt_rank[of h ?H n] h by (simp add: hi hc)
    next
      fix k assume k: "k < n" "?H k"
      have "length (filter ?H [0..<k]) < length (filter ?H [0..<n])"
        using k(2) by (simp add: upt_split_at[OF k(1)])
      then show "unat (fab_host_index f ! k) < host_count f"
        "fab_hosts f ! unat (fab_host_index f ! k) = id_at k"
        using k rank[OF k(1)] filter_upt_position[of k n ?H] by (simp_all add: hi hs hc)
    qed (use small in \<open>simp_all add: hi\<close>)
  qed
  ultimately show ?thesis by (simp add: fabric_shape_def)
qed

end
