(* ===== verification/Route_Table.thy ===== *)
theory Route_Table
  imports Fabric_Build
begin

text \<open>
  \<^verbatim>\<open>routing/route_table.hpp\<close> and \<^verbatim>\<open>routing/route_table.cpp\<close>: the breadth-first
  search from a destination host, the table of equal-cost next hops and its
  compressed-row packing.  The lemmas show that the search returns and computes
  minimum hop counts, that the packed table gives back every cell, that a cell holds
  exactly the ports on minimum-hop paths, and that forwarding can therefore never loop.
  The search loop is a \<^theory_text>\<open>partial_function\<close>; that it returns is proved.
\<close>

section \<open>Breadth-first search\<close>

definition kUnreachable :: u32 where "kUnreachable = 0xFFFFFFFF"

definition bfs_visit_port :: "fabric \<Rightarrow> u32 \<Rightarrow> port_id \<Rightarrow> u32 list \<times> node_id list
    \<Rightarrow> (u32 list \<times> node_id list) option" where
  "bfs_visit_port f depth p st = (case st of (dist, next) \<Rightarrow> do {
     x \<leftarrow> fabric_port f p;
     let v = port_peer_node x;
     dv \<leftarrow> vget dist (id_index v);
     if dv = kUnreachable then do {
       dist \<leftarrow> vset dist (id_index v) depth;
       Some (dist, next @ [v])
     } else Some (dist, next)
   })"

definition bfs_visit_node :: "fabric \<Rightarrow> u32 \<Rightarrow> node_id \<Rightarrow> u32 list \<times> node_id list
    \<Rightarrow> (u32 list \<times> node_id list) option" where
  "bfs_visit_node f depth u st = do { ps \<leftarrow> ports_of f u; fold_opt (bfs_visit_port f depth) ps st }"

partial_function (option) bfs_loop :: "fabric \<Rightarrow> u32 \<Rightarrow> u32 list \<Rightarrow> node_id list \<Rightarrow> u32 list option" where
  "bfs_loop f depth dist frontier =
     (if frontier = [] then Some dist
      else do {
        (dist, next) \<leftarrow> fold_opt (bfs_visit_node f (depth + 1)) frontier (dist, []);
        bfs_loop f (depth + 1) dist next
      })"

declare bfs_loop.simps [code]

definition bfs_distances :: "fabric \<Rightarrow> node_id \<Rightarrow> u32 list option" where
  "bfs_distances f source = do {
     dist \<leftarrow> vset (replicate (node_count f) kUnreachable) (id_index source) 0;
     bfs_loop f 0 dist [source]
   }"

section \<open>The table\<close>

record route_table =
  rt_entries :: "port_id list"
  rt_offsets :: "u32 list"
  rt_num_hosts :: nat

definition next_hop_port :: "fabric \<Rightarrow> u32 list \<Rightarrow> u32 \<Rightarrow> port_id \<Rightarrow> port_id list \<Rightarrow> port_id list option" where
  "next_hop_port f dist du p out = do {
     x \<leftarrow> fabric_port f p;
     dv \<leftarrow> vget dist (id_index (port_peer_node x));
     Some (if dv + 1 = du then out @ [p] else out)
   }"

definition next_hops :: "fabric \<Rightarrow> u32 list \<Rightarrow> nat \<Rightarrow> nat \<Rightarrow> nat \<Rightarrow> port_id list list
    \<Rightarrow> port_id list list option" where
  "next_hops f dist num_hosts h u cells = do {
     du \<leftarrow> vget dist u;
     if du = 0 \<or> du = kUnreachable then Some cells
     else do {
       ps \<leftarrow> ports_of f (id_at u);
       out \<leftarrow> vget cells (u * num_hosts + h);
       out \<leftarrow> fold_opt (next_hop_port f dist du) ps out;
       vset cells (u * num_hosts + h) out
     }
   }"

definition next_hop_column :: "fabric \<Rightarrow> nat \<Rightarrow> port_id list list \<Rightarrow> port_id list list option" where
  "next_hop_column f h cells = do {
     dst \<leftarrow> host_at f (of_nat h);
     dist \<leftarrow> bfs_distances f dst;
     fold_opt (next_hops f dist (host_count f) h) [0..<node_count f] cells
   }"

fun csr_offsets :: "u32 \<Rightarrow> 'a list list \<Rightarrow> u32 list" where
  "csr_offsets running [] = [running]"
| "csr_offsets running (c # cs) = running # csr_offsets (running + of_nat (length c)) cs"

definition build_shortest_path :: "fabric \<Rightarrow> route_table option" where
  "build_shortest_path f = do {
     let num_hosts = host_count f;
     per_cell \<leftarrow> fold_opt (next_hop_column f) [0..<num_hosts] (replicate (node_count f * num_hosts) []);
     Some \<lparr>rt_entries = concat per_cell, rt_offsets = csr_offsets 0 per_cell, rt_num_hosts = num_hosts\<rparr>
   }"

definition candidates :: "route_table \<Rightarrow> node_id \<Rightarrow> u32 \<Rightarrow> port_id list option" where
  "candidates rt at dst_host = do {
     let cell = id_index at * rt_num_hosts rt + unat dst_host;
     b \<leftarrow> vget (rt_offsets rt) cell;
     e \<leftarrow> vget (rt_offsets rt) (cell + 1);
     assert_that (unat b \<le> unat e \<and> unat e \<le> length (rt_entries rt));
     Some (take (unat (e - b)) (drop (unat b) (rt_entries rt)))
   }"

section \<open>Hop counts\<close>

text \<open>Node indices joined by a directed port, and the hop count they define.\<close>

definition links :: "fabric \<Rightarrow> (nat \<times> nat) set" where
  "links f = {(u, v). \<exists>p < port_count f. id_index (port_owner (fab_ports f ! p)) = u \<and> peer_index f p = v}"

definition min_hops :: "(nat \<times> nat) set \<Rightarrow> nat \<Rightarrow> nat \<Rightarrow> nat \<Rightarrow> bool" where
  "min_hops R s v n \<longleftrightarrow> (s, v) \<in> R ^^ n \<and> (\<forall>m < n. (s, v) \<notin> R ^^ m)"

lemma min_hops_unique: "min_hops R s v m \<Longrightarrow> min_hops R s v n \<Longrightarrow> m = n"
  unfolding min_hops_def by (metis linorder_neqE_nat)

lemma min_hops_0 [simp]: "min_hops R s v 0 \<longleftrightarrow> v = s"
  by (auto simp: min_hops_def)

lemma min_hops_exists: "(s, v) \<in> R ^^ n \<Longrightarrow> \<exists>m \<le> n. min_hops R s v m"
proof -
  assume r: "(s, v) \<in> R ^^ n"
  let ?m = "LEAST m. (s, v) \<in> R ^^ m"
  have "(s, v) \<in> R ^^ ?m" using r by (rule LeastI)
  moreover have "?m \<le> n" using r by (rule Least_le)
  moreover have "\<forall>m < ?m. (s, v) \<notin> R ^^ m" using not_less_Least by blast
  ultimately show ?thesis unfolding min_hops_def by blast
qed

lemma min_hops_pred:
  assumes "min_hops R s v (Suc n)"
  shows "\<exists>u. min_hops R s u n \<and> (u, v) \<in> R"
proof -
  obtain u where u: "(s, u) \<in> R ^^ n" "(u, v) \<in> R" using assms by (auto simp: min_hops_def)
  have "(s, u) \<notin> R ^^ m" if "m < n" for m
  proof
    assume "(s, u) \<in> R ^^ m"
    then have "(s, v) \<in> R ^^ Suc m" using u(2) by auto
    moreover have "Suc m < Suc n" using that by simp
    ultimately show False using assms unfolding min_hops_def by blast
  qed
  then show ?thesis using u by (auto simp: min_hops_def)
qed

lemma min_hops_step:
  assumes "min_hops R s u n" "(u, v) \<in> R"
  shows "\<exists>m \<le> Suc n. min_hops R s v m"
  using assms by (intro min_hops_exists) (auto simp: min_hops_def)

lemma min_hops_level:
  assumes "min_hops R s v n" "m \<le> n"
  shows "\<exists>u. min_hops R s u m"
  using assms
proof (induction n arbitrary: v)
  case (Suc n)
  then show ?case using min_hops_pred[OF Suc.prems(1)] by (metis le_SucE)
qed auto

lemma min_hops_bound:
  assumes "\<And>u v. (u, v) \<in> R \<Longrightarrow> v < N" "s < N" "min_hops R s v n"
  shows "n < N"
proof -
  have lt: "u < N" if "min_hops R s u m" for u m
    using that assms(1,2) min_hops_pred by (cases m) (auto, blast)
  define g where "g m = (SOME u. min_hops R s u m)" for m
  have g: "min_hops R s (g m) m" if "m \<le> n" for m
    unfolding g_def using min_hops_level[OF assms(3) that] by (rule someI_ex)
  have "inj_on g {..n}" using g by (metis atMost_iff inj_onI min_hops_unique)
  moreover have "g ` {..n} \<subseteq> {..<N}" using g lt by auto
  ultimately have "card {..n} \<le> card {..<N}" by (metis card_inj_on_le finite_lessThan)
  then show ?thesis by simp
qed

lemma links_bound: "ports_wired f \<Longrightarrow> (u, v) \<in> links f \<Longrightarrow> u < node_count f \<and> v < node_count f"
  unfolding links_def ports_wired_def peer_index_def Let_def by auto

lemma links_sym: "ports_wired f \<Longrightarrow> (u, v) \<in> links f \<Longrightarrow> (v, u) \<in> links f"
proof -
  assume w: "ports_wired f" and "(u, v) \<in> links f"
  then obtain p where p: "p < port_count f" "id_index (port_owner (fab_ports f ! p)) = u" "peer_index f p = v"
    by (auto simp: links_def)
  let ?q = "id_index (port_peer_port (fab_ports f ! p))"
  have q: "?q < port_count f" "id_index (port_peer_port (fab_ports f ! ?q)) = p"
    "port_peer_node (fab_ports f ! p) = port_owner (fab_ports f ! ?q)"
    using w p(1) by (auto simp: ports_wired_def Let_def)
  have "port_peer_node (fab_ports f ! ?q) = port_owner (fab_ports f ! p)"
    using w q(1,2) unfolding ports_wired_def Let_def by metis
  then show ?thesis using p q by (auto simp: links_def peer_index_def intro!: exI[of _ ?q])
qed

lemma relpow_sym:
  assumes "\<And>u v. (u, v) \<in> R \<Longrightarrow> (v, u) \<in> R" "(u, v) \<in> R ^^ n"
  shows "(v, u) \<in> R ^^ n"
  using assms(2)
proof (induction n arbitrary: v)
  case (Suc n)
  then obtain w where "(u, w) \<in> R ^^ n" "(w, v) \<in> R" by auto
  then have "(v, w) \<in> R" "(w, u) \<in> R ^^ n" using Suc assms(1) by auto
  then show ?case by (metis relpow_Suc_I2)
qed simp

section \<open>The search computes minimum hop counts\<close>

definition fabric_ok :: "fabric \<Rightarrow> bool" where
  "fabric_ok f \<longleftrightarrow> fabric_shape f \<and> node_count f < 2 ^ 32 - 1"

lemma fabric_okD:
  assumes "fabric_ok f"
  shows "ports_wired f" "runs_contiguous f" "hosts_indexed f" "node_count f < 2 ^ 32 - 1"
  using assms by (auto simp: fabric_ok_def fabric_shape_def)

lemma node_in_range: "id_index u < node_count f \<Longrightarrow> id_index u < length (fab_nodes f)"
  by (simp add: node_count_def)

lemma ports_of_spec:
  assumes ok: "fabric_ok f" and u: "id_index u < node_count f"
  shows "\<exists>ps. ports_of f u = Some ps \<and> distinct ps \<and> (\<forall>p \<in> set ps. id_index p < port_count f) \<and>
    id_index ` set ps = {p. p < port_count f \<and> port_owner (fab_ports f ! p) = u}"
proof -
  let ?nd = "fab_nodes f ! id_index u"
  let ?b = "unat (node_first_port ?nd)" and ?c = "unat (node_port_count ?nd)"
  note rc = fabric_okD(2)[OF ok]
  have run: "{?b..<?b + ?c} = {p. p < port_count f \<and> port_owner (fab_ports f ! p) = u}"
    using rc u by (auto simp: runs_contiguous_def node_run_def)
  have small: "port_count f < 2 ^ 32" and lids: "length (fab_port_ids f) = port_count f"
    and ids: "\<And>p. p < port_count f \<Longrightarrow> fab_port_ids f ! p = id_at p"
    using rc by (auto simp: runs_contiguous_def)
  have all: "\<And>p. p \<in> {?b..<?b + ?c} \<Longrightarrow> p < port_count f" unfolding run by simp
  have fit: "?b + ?c \<le> port_count f" using rc u by (auto simp: runs_contiguous_def)
  define ps where "ps = take ?c (drop ?b (fab_port_ids f))"
  have ps: "ps = map id_at [?b..<?b + ?c]"
    using fit ids by (auto simp: ps_def lids list_eq_iff_nth_eq)
  have idx: "id_index (id_at p :: port_id) = p" if "p \<in> {?b..<?b + ?c}" for p
    using all[OF that] small by simp
  have img: "id_index ` set ps = {?b..<?b + ?c}"
    unfolding ps set_map image_image set_upt using idx by simp
  have "distinct ps"
    unfolding ps distinct_map using idx by (auto intro!: inj_onI) (metis atLeastLessThan_iff idx)
  moreover have "\<forall>p \<in> set ps. id_index p < port_count f" using img all by (metis imageI)
  moreover have "ports_of f u = Some ps"
    using fit u by (simp add: ports_of_def fabric_simps node_in_range ps_def lids)
  ultimately show ?thesis using img run by auto
qed

text \<open>The state of one search level, after the peers \<open>T\<close> have been seen.\<close>

definition level_inv :: "nat \<Rightarrow> u32 list \<Rightarrow> u32 \<Rightarrow> nat set \<Rightarrow> u32 list \<times> node_id list \<Rightarrow> bool" where
  "level_inv N dist0 dep T st \<longleftrightarrow> (case st of (dist, next) \<Rightarrow> length dist = N \<and>
     (\<forall>v < N. dist ! v = (if dist0 ! v = kUnreachable \<and> v \<in> T then dep else dist0 ! v)) \<and>
     id_index ` set next = {v. v \<in> T \<and> v < N \<and> dist0 ! v = kUnreachable})"

lemma visit_port_inv:
  assumes ok: "fabric_ok f" and p: "id_index p < port_count f" and dep: "dep \<noteq> kUnreachable"
    and J: "level_inv (node_count f) dist0 dep T st"
  shows "\<exists>st'. bfs_visit_port f dep p st = Some st'
    \<and> level_inv (node_count f) dist0 dep (insert (peer_index f (id_index p)) T) st'"
proof -
  let ?v = "port_peer_node (fab_ports f ! id_index p)"
  obtain dist nxt where st: "st = (dist, nxt)" by (cases st)
  have v: "id_index ?v < node_count f"
    using fabric_okD(1)[OF ok] p unfolding ports_wired_def Let_def by metis
  have px: "fabric_port f p = Some (fab_ports f ! id_index p)"
    using p by (simp add: fabric_port_def port_count_def fabric_simps)
  have pi: "peer_index f (id_index p) = id_index ?v" by (simp add: peer_index_def)
  have ld: "length dist = node_count f" using J by (simp add: level_inv_def st)
  show ?thesis
  proof (cases "dist ! id_index ?v = kUnreachable")
    case True
    then have new: "dist0 ! id_index ?v = kUnreachable \<and> id_index ?v \<notin> T"
      using J v dep by (auto simp: level_inv_def st split: if_splits)
    have "bfs_visit_port f dep p st = Some (dist[id_index ?v := dep], nxt @ [?v])"
      using True v by (simp add: bfs_visit_port_def st px fabric_simps ld Let_def)
    moreover have "level_inv (node_count f) dist0 dep (insert (id_index ?v) T)
        (dist[id_index ?v := dep], nxt @ [?v])"
      using J new v by (auto simp: level_inv_def st nth_list_update)
    ultimately show ?thesis by (auto simp: pi)
  next
    case False
    then have "dist0 ! id_index ?v \<noteq> kUnreachable \<or> id_index ?v \<in> T"
      using J v by (auto simp: level_inv_def st split: if_splits)
    then have "level_inv (node_count f) dist0 dep (insert (id_index ?v) T) (dist, nxt)"
      using J by (auto simp: level_inv_def st)
    moreover have "bfs_visit_port f dep p st = Some (dist, nxt)"
      using False v by (simp add: bfs_visit_port_def st px fabric_simps ld Let_def)
    ultimately show ?thesis by (auto simp: pi)
  qed
qed

lemma visit_ports_inv:
  assumes "fabric_ok f" "dep \<noteq> kUnreachable" "\<forall>p \<in> set ps. id_index p < port_count f"
    "level_inv (node_count f) dist0 dep T st"
  shows "\<exists>st'. fold_opt (bfs_visit_port f dep) ps st = Some st'
    \<and> level_inv (node_count f) dist0 dep (T \<union> peer_index f ` id_index ` set ps) st'"
  using assms(3,4)
proof (induction ps arbitrary: T st)
  case (Cons p ps)
  then obtain st1 where "bfs_visit_port f dep p st = Some st1"
    "level_inv (node_count f) dist0 dep (insert (peer_index f (id_index p)) T) st1"
    using visit_port_inv[OF assms(1) _ assms(2)] by (metis list.set_intros(1))
  with Cons show ?case by fastforce
qed auto

lemma visit_node_inv:
  assumes "fabric_ok f" "dep \<noteq> kUnreachable" "id_index u < node_count f"
    "level_inv (node_count f) dist0 dep T st"
  shows "\<exists>st'. bfs_visit_node f dep u st = Some st'
    \<and> level_inv (node_count f) dist0 dep (T \<union> links f `` {id_index u}) st'"
proof -
  obtain ps where ps: "ports_of f u = Some ps" "\<forall>p \<in> set ps. id_index p < port_count f"
    "id_index ` set ps = {p. p < port_count f \<and> port_owner (fab_ports f ! p) = u}"
    using ports_of_spec[OF assms(1,3)] by blast
  have "peer_index f ` id_index ` set ps = links f `` {id_index u}"
    unfolding ps(3) by (auto simp: links_def id_index_inject)
  then show ?thesis
    using visit_ports_inv[OF assms(1,2) ps(2) assms(4)] ps(1) by (simp add: bfs_visit_node_def)
qed

lemma visit_level_inv:
  assumes "fabric_ok f" "dep \<noteq> kUnreachable" "\<forall>u \<in> set us. id_index u < node_count f"
    "level_inv (node_count f) dist0 dep T st"
  shows "\<exists>st'. fold_opt (bfs_visit_node f dep) us st = Some st'
    \<and> level_inv (node_count f) dist0 dep (T \<union> links f `` (id_index ` set us)) st'"
  using assms(3,4)
proof (induction us arbitrary: T st)
  case (Cons u us)
  then obtain st1 where s: "bfs_visit_node f dep u st = Some st1"
    "level_inv (node_count f) dist0 dep (T \<union> links f `` {id_index u}) st1"
    using visit_node_inv[OF assms(1,2)] by (metis list.set_intros(1))
  have "T \<union> links f `` (id_index ` set (u # us))
      = (T \<union> links f `` {id_index u}) \<union> links f `` (id_index ` set us)" by auto
  with Cons.IH[OF _ s(2)] Cons.prems s(1) show ?case by (metis bind.bind_lunit fold_opt.simps(2) list.set_intros(2))
qed auto

text \<open>The state at the head of the outer loop, at depth \<open>d\<close>.\<close>

definition bfs_inv :: "fabric \<Rightarrow> nat \<Rightarrow> nat \<Rightarrow> u32 list \<Rightarrow> node_id list \<Rightarrow> bool" where
  "bfs_inv f s d dist frontier \<longleftrightarrow> length dist = node_count f \<and>
     (\<forall>v < node_count f. \<forall>n \<le> d. min_hops (links f) s v n \<longrightarrow> dist ! v = of_nat n) \<and>
     (\<forall>v < node_count f. (\<nexists>n. n \<le> d \<and> min_hops (links f) s v n) \<longrightarrow> dist ! v = kUnreachable) \<and>
     id_index ` set frontier = {v. v < node_count f \<and> min_hops (links f) s v d}"

lemma of_nat_not_unreachable: "n < 2 ^ 32 - 1 \<Longrightarrow> (of_nat n :: u32) \<noteq> kUnreachable"
  by (simp add: kUnreachable_def word_unat_eq_iff unat_of_nat_small)

lemma bfs_level_step:
  assumes ok: "fabric_ok f" and s: "s < node_count f" and inv: "bfs_inv f s d dist frontier"
    and ne: "frontier \<noteq> []"
  shows "d < node_count f \<and> (\<exists>dist' next.
    fold_opt (bfs_visit_node f (of_nat d + 1)) frontier (dist, []) = Some (dist', next)
    \<and> bfs_inv f s (Suc d) dist' next)"
proof -
  let ?N = "node_count f" and ?R = "links f"
  note w = fabric_okD(1)[OF ok]
  have Rb: "\<And>u v. (u, v) \<in> ?R \<Longrightarrow> v < ?N" using links_bound[OF w] by blast
  obtain x where x: "x \<in> set frontier" using ne by (cases frontier) auto
  then have "id_index x \<in> {v. v < ?N \<and> min_hops ?R s v d}" using inv unfolding bfs_inv_def by blast
  then have "min_hops ?R s (id_index x) d" by simp
  then have dN: "d < ?N" using min_hops_bound[of ?R ?N s "id_index x" d] Rb s by blast
  have N: "?N < 2 ^ 32 - 1" using fabric_okD(4)[OF ok] .
  have small: "of_nat n \<noteq> kUnreachable" if "n \<le> Suc d" for n
    using that dN N by (intro of_nat_not_unreachable) linarith
  have dep: "(of_nat d + 1 :: u32) = of_nat (Suc d)" by simp
  have depne: "(of_nat d + 1 :: u32) \<noteq> kUnreachable" using small[of "Suc d"] by (simp add: dep)
  have fr: "\<forall>u \<in> set frontier. id_index u < ?N" using inv by (auto simp: bfs_inv_def)
  have front: "id_index ` set frontier = {v. v < ?N \<and> min_hops ?R s v d}" using inv by (simp add: bfs_inv_def)
  let ?T = "?R `` (id_index ` set frontier)"
  have "level_inv ?N dist (of_nat d + 1) {} (dist, [])" using inv by (simp add: level_inv_def bfs_inv_def)
  then obtain dist' nxt where st: "fold_opt (bfs_visit_node f (of_nat d + 1)) frontier (dist, []) = Some (dist', nxt)"
    and J: "level_inv ?N dist (of_nat d + 1) ?T (dist', nxt)"
    using visit_level_inv[OF ok depne fr] by (metis Un_empty_left surj_pair)
  have unr: "dist ! v = kUnreachable \<longleftrightarrow> (\<nexists>n. n \<le> d \<and> min_hops ?R s v n)" if "v < ?N" for v
    using inv that small by (auto simp: bfs_inv_def)
  have new: "v \<in> ?T \<and> v < ?N \<and> dist ! v = kUnreachable \<longleftrightarrow> v < ?N \<and> min_hops ?R s v (Suc d)" for v
  proof
    assume a: "v \<in> ?T \<and> v < ?N \<and> dist ! v = kUnreachable"
    then obtain u where "min_hops ?R s u d" "(u, v) \<in> ?R" using front by auto
    then obtain m where "m \<le> Suc d" "min_hops ?R s v m" using min_hops_step by blast
    then show "v < ?N \<and> min_hops ?R s v (Suc d)" using a unr by (metis le_SucE)
  next
    assume a: "v < ?N \<and> min_hops ?R s v (Suc d)"
    then obtain u where u: "min_hops ?R s u d" "(u, v) \<in> ?R" using min_hops_pred by blast
    then have "u \<in> id_index ` set frontier" using front links_bound[OF w u(2)] by simp
    moreover have "dist ! v = kUnreachable"
      using a unr[of v] min_hops_unique[of ?R s v "Suc d"] by force
    ultimately show "v \<in> ?T \<and> v < ?N \<and> dist ! v = kUnreachable" using u(2) a by blast
  qed
  have dv: "dist' ! v = (if min_hops ?R s v (Suc d) then of_nat (Suc d) else dist ! v)" if "v < ?N" for v
    using J new[of v] that by (auto simp: level_inv_def dep)
  have "bfs_inv f s (Suc d) dist' nxt"
    unfolding bfs_inv_def
  proof (intro conjI allI impI)
    show "length dist' = ?N" using J by (simp add: level_inv_def)
    show "id_index ` set nxt = {v. v < ?N \<and> min_hops ?R s v (Suc d)}"
      using J new by (auto simp: level_inv_def)
  next
    fix v n assume v: "v < ?N" and n: "n \<le> Suc d" and m: "min_hops ?R s v n"
    show "dist' ! v = of_nat n"
    proof (cases "n = Suc d")
      case True
      then show ?thesis using dv[OF v] m by simp
    next
      case False
      then have "\<not> min_hops ?R s v (Suc d)" using m min_hops_unique by blast
      moreover have "dist ! v = of_nat n" using inv v m n False by (auto simp: bfs_inv_def)
      ultimately show ?thesis using dv[OF v] by simp
    qed
  next
    fix v assume v: "v < ?N" and none: "\<nexists>n. n \<le> Suc d \<and> min_hops ?R s v n"
    then have "dist ! v = kUnreachable" using unr[OF v] by (meson le_SucI)
    then show "dist' ! v = kUnreachable" using dv[OF v] none by auto
  qed
  then show ?thesis using dN st by blast
qed

definition dist_correct :: "fabric \<Rightarrow> nat \<Rightarrow> u32 list \<Rightarrow> bool" where
  "dist_correct f s dist \<longleftrightarrow> length dist = node_count f \<and>
     (\<forall>v < node_count f. \<forall>n. min_hops (links f) s v n \<longrightarrow> n < node_count f \<and> dist ! v = of_nat n) \<and>
     (\<forall>v < node_count f. (\<nexists>n. min_hops (links f) s v n) \<longrightarrow> dist ! v = kUnreachable)"

lemma bfs_loop_correct:
  assumes ok: "fabric_ok f" and s: "s < node_count f" and inv: "bfs_inv f s d dist frontier"
  shows "\<exists>dist'. bfs_loop f (of_nat d) dist frontier = Some dist' \<and> dist_correct f s dist'"
  using inv
proof (induction "node_count f - d" arbitrary: d dist frontier rule: less_induct)
  case less
  show ?case
  proof (cases "frontier = []")
    case True
    have stop: "n < d" if m: "min_hops (links f) s v n" for v n
    proof (rule ccontr)
      assume "\<not> n < d"
      then obtain u where u: "min_hops (links f) s u d" using min_hops_level[OF m, of d] by (metis not_less)
      have "u < node_count f"
        using u s min_hops_pred links_bound[OF fabric_okD(1)[OF ok]] by (cases d) (auto, blast)
      then have "u \<in> id_index ` set frontier" using less.prems u by (auto simp: bfs_inv_def)
      then show False using True by simp
    qed
    have "dist_correct f s dist"
      using less.prems stop min_hops_bound[OF _ s] links_bound[OF fabric_okD(1)[OF ok]]
      unfolding dist_correct_def bfs_inv_def by (metis less_imp_le)
    then show ?thesis using True by (simp add: bfs_loop.simps)
  next
    case False
    from bfs_level_step[OF ok s less.prems False] obtain dist' nxt where
      d: "d < node_count f" and st: "fold_opt (bfs_visit_node f (of_nat d + 1)) frontier (dist, []) = Some (dist', nxt)"
      and inv': "bfs_inv f s (Suc d) dist' nxt" by blast
    have "\<exists>dist''. bfs_loop f (of_nat (Suc d)) dist' nxt = Some dist'' \<and> dist_correct f s dist''"
      by (rule less.hyps[OF _ inv']) (use d in simp)
    then show ?thesis
      using False st by (subst bfs_loop.simps) (simp add: add.commute)
  qed
qed

lemma bfs_distances_correct:
  assumes ok: "fabric_ok f" and s: "id_index src < node_count f"
  shows "\<exists>dist. bfs_distances f src = Some dist \<and> dist_correct f (id_index src) dist"
proof -
  let ?d = "(replicate (node_count f) kUnreachable)[id_index src := 0]"
  have "bfs_inv f (id_index src) 0 ?d [src]"
    using s by (auto simp: bfs_inv_def nth_list_update)
  then show ?thesis
    using bfs_loop_correct[OF ok s, of 0 ?d "[src]"] s by (simp add: bfs_distances_def fabric_simps)
qed

section \<open>The packed table\<close>

lemma csr_offsets_nth:
  "i \<le> length cs \<Longrightarrow> csr_offsets r cs ! i = r + of_nat (length (concat (take i cs)))"
  "length (csr_offsets r cs) = Suc (length cs)"
proof (induction cs arbitrary: i r)
  case (Cons c cs)
  { case 1 then show ?case using Cons.IH(1) by (cases i) (auto simp: add.assoc) }
  { case 2 then show ?case using Cons.IH(2) by simp }
qed auto

lemma concat_take_Suc: "i < length cs \<Longrightarrow> concat (take (Suc i) cs) = concat (take i cs) @ cs ! i"
  by (simp add: take_Suc_conv_app_nth)

lemma concat_take_le: "length (concat (take i cs)) \<le> length (concat cs)"
  by (metis append_take_drop_id concat_append le_add1 length_append)

lemma csr_slice:
  "i < length cs \<Longrightarrow> take (length (cs ! i)) (drop (length (concat (take i cs))) (concat cs)) = cs ! i"
proof -
  assume i: "i < length cs"
  have "concat cs = concat (take i cs) @ cs ! i @ concat (drop (Suc i) cs)"
    using id_take_nth_drop[OF i] by (metis concat.simps(2) concat_append)
  then show ?thesis by simp
qed

lemma candidates_csr:
  assumes c: "id_index at * H + unat h < length cells" and small: "length (concat cells) < 2 ^ 32"
  shows "candidates \<lparr>rt_entries = concat cells, rt_offsets = csr_offsets 0 cells, rt_num_hosts = H\<rparr> at h
    = Some (cells ! (id_index at * H + unat h))"
proof -
  define c where "c = id_index at * H + unat h"
  let ?b = "length (concat (take c cells))"
  have c: "c < length cells" using c by (simp add: c_def)
  have le: "?b + length (cells ! c) \<le> length (concat cells)"
    using concat_take_le[of "Suc c" cells] concat_take_Suc[OF c] by simp
  define bw :: u32 where "bw = of_nat ?b"
  define ew :: u32 where "ew = of_nat (?b + length (cells ! c))"
  have ub: "unat bw = ?b" "unat ew = ?b + length (cells ! c)"
    unfolding bw_def ew_def by (rule unat_of_nat_small, use le small in simp)+
  have off: "csr_offsets 0 cells ! c = bw" "csr_offsets 0 cells ! Suc c = ew"
    using csr_offsets_nth(1)[of c cells 0] csr_offsets_nth(1)[of "Suc c" cells 0] c
    by (simp_all add: concat_take_Suc bw_def ew_def)
  have "unat (ew - bw) = length (cells ! c)"
    using ub by (simp add: unat_sub_small word_le_nat_alt)
  then show ?thesis
    using c le ub csr_slice[OF c]
    by (simp add: candidates_def Let_def c_def[symmetric] fabric_simps csr_offsets_nth(2) off)
qed

definition cell_ports :: "fabric \<Rightarrow> u32 list \<Rightarrow> nat \<Rightarrow> port_id list" where
  "cell_ports f dist u = (case ports_of f (id_at u) of
     None \<Rightarrow> []
   | Some ps \<Rightarrow> if dist ! u = 0 \<or> dist ! u = kUnreachable then []
       else filter (\<lambda>p. dist ! peer_index f (id_index p) + 1 = dist ! u) ps)"

definition host_dist :: "fabric \<Rightarrow> nat \<Rightarrow> u32 list" where
  "host_dist f h = (case bfs_distances f (fab_hosts f ! h) of Some dist \<Rightarrow> dist | None \<Rightarrow> [])"

lemma peer_in_range:
  "fabric_ok f \<Longrightarrow> p < port_count f \<Longrightarrow> peer_index f p < node_count f"
  using fabric_okD(1)[of f] unfolding ports_wired_def peer_index_def Let_def by metis

lemma host_dist_correct:
  assumes ok: "fabric_ok f" and h: "h < host_count f"
  shows "bfs_distances f (fab_hosts f ! h) = Some (host_dist f h)"
    "dist_correct f (id_index (fab_hosts f ! h)) (host_dist f h)"
proof -
  have "id_index (fab_hosts f ! h) < node_count f"
    using fabric_okD(3)[OF ok] h by (simp add: hosts_indexed_def)
  then obtain dist where "bfs_distances f (fab_hosts f ! h) = Some dist"
    "dist_correct f (id_index (fab_hosts f ! h)) dist"
    using bfs_distances_correct[OF ok] by blast
  then show "bfs_distances f (fab_hosts f ! h) = Some (host_dist f h)"
    "dist_correct f (id_index (fab_hosts f ! h)) (host_dist f h)"
    by (simp_all add: host_dist_def)
qed

lemma next_hop_ports_fold:
  assumes ok: "fabric_ok f" and ps: "\<forall>p \<in> set ps. id_index p < port_count f"
    and len: "length dist = node_count f"
  shows "fold_opt (next_hop_port f dist du) ps out
    = Some (out @ filter (\<lambda>p. dist ! peer_index f (id_index p) + 1 = du) ps)"
  using ps
proof (induction ps arbitrary: out)
  case (Cons p ps)
  have "fabric_port f p = Some (fab_ports f ! id_index p)"
    using Cons.prems by (simp add: fabric_port_def port_count_def fabric_simps)
  then have "next_hop_port f dist du p out
      = Some (if dist ! peer_index f (id_index p) + 1 = du then out @ [p] else out)"
    using peer_in_range[OF ok, of "id_index p"] Cons.prems
    by (simp add: next_hop_port_def fabric_simps len peer_index_def)
  then show ?case using Cons by simp
qed simp

lemma next_hops_spec:
  assumes ok: "fabric_ok f" and u: "u < node_count f" and len: "length dist = node_count f"
    and c: "u * H + h < length cells" "cells ! (u * H + h) = []"
  shows "next_hops f dist H h u cells = Some (cells[u * H + h := cell_ports f dist u])"
proof -
  have uu: "id_index (id_at u :: node_id) = u" using u fabric_okD(4)[OF ok] by simp
  obtain ps where ps: "ports_of f (id_at u) = Some ps" "\<forall>p \<in> set ps. id_index p < port_count f"
    using ports_of_spec[OF ok, of "id_at u"] u uu by auto
  have "cells[u * H + h := []] = cells" using c(2) by (metis list_update_id)
  then show ?thesis
    using u c ps(1) next_hop_ports_fold[OF ok ps(2) len, of "dist ! u" "[]"]
    by (auto simp: next_hops_def cell_ports_def len fabric_simps)
qed

lemma cell_index_inject:
  "h < H \<Longrightarrow> h' < H \<Longrightarrow> u * H + h = u' * H + h' \<longleftrightarrow> u = u' \<and> h = (h' :: nat)"
proof -
  assume h: "h < H" "h' < H"
  have "u = u' \<and> h = h'" if eq: "u * H + h = u' * H + h'"
  proof -
    have "(u * H + h) div H = u" "(u' * H + h') div H = u'" using h by auto
    then show ?thesis using eq by auto
  qed
  then show ?thesis by auto
qed

lemma cell_index_less: "u < N \<Longrightarrow> h < H \<Longrightarrow> u * H + h < N * (H :: nat)"
proof -
  assume "u < N" "h < H"
  then have "u * H + h < Suc u * H" by simp
  also have "\<dots> \<le> N * H" using \<open>u < N\<close> by (intro mult_le_mono1) simp
  finally show ?thesis .
qed

definition table_inv :: "fabric \<Rightarrow> (nat \<Rightarrow> nat \<Rightarrow> bool) \<Rightarrow> port_id list list \<Rightarrow> bool" where
  "table_inv f done cells \<longleftrightarrow> length cells = node_count f * host_count f \<and>
     (\<forall>u < node_count f. \<forall>h < host_count f. cells ! (u * host_count f + h)
        = (if done u h then cell_ports f (host_dist f h) u else []))"

lemma next_hop_column_spec:
  assumes ok: "fabric_ok f" and h: "h < host_count f" and inv: "table_inv f (\<lambda>u h'. h' < h) cells"
  shows "\<exists>cells'. next_hop_column f h cells = Some cells' \<and> table_inv f (\<lambda>u h'. h' < Suc h) cells'"
proof -
  let ?N = "node_count f" and ?H = "host_count f"
  have hc: "?H < 2 ^ 32"
  proof -
    have "inj_on (\<lambda>h. id_index (fab_hosts f ! h)) {..<?H}"
      using fabric_okD(3)[OF ok] unfolding hosts_indexed_def by (intro inj_onI) (metis lessThan_iff)
    then have "card {..<?H} \<le> card {..<?N}"
      using fabric_okD(3)[OF ok] unfolding hosts_indexed_def by (intro card_inj_on_le) auto
    then show ?thesis using fabric_okD(4)[OF ok] by simp
  qed
  have hu: "unat (of_nat h :: u32) = h" using h hc by (intro unat_of_nat_small) simp
  note d = host_dist_correct[OF ok h]
  have len: "length (host_dist f h) = ?N" using d(2) by (simp add: dist_correct_def)
  let ?P = "\<lambda>i. table_inv f (\<lambda>u h'. h' < h \<or> h' = h \<and> u < i)"
  have "\<exists>cells'. fold_opt (next_hops f (host_dist f h) ?H h) [0..<?N] cells = Some cells'
      \<and> ?P (length [0..<?N]) cells'"
  proof (rule fold_opt_invariant)
    show "?P 0 cells" using inv by simp
  next
    fix i c assume i: "i < length [0..<?N]" and P: "?P i c"
    then have iN: "i < ?N" by simp
    have lt: "i * ?H + h < length c" using cell_index_less[OF iN h] P by (simp add: table_inv_def)
    have "c ! (i * ?H + h) = []" using P iN h by (auto simp: table_inv_def)
    then have st: "next_hops f (host_dist f h) ?H h i c = Some (c[i * ?H + h := cell_ports f (host_dist f h) i])"
      using next_hops_spec[OF ok iN len lt] by simp
    have "?P (Suc i) (c[i * ?H + h := cell_ports f (host_dist f h) i])"
      unfolding table_inv_def
    proof (intro conjI allI impI)
      show "length (c[i * ?H + h := cell_ports f (host_dist f h) i]) = ?N * ?H"
        using P by (simp add: table_inv_def)
      fix u h' assume u: "u < ?N" and h': "h' < ?H"
      have "c ! (u * ?H + h') = (if h' < h \<or> h' = h \<and> u < i then cell_ports f (host_dist f h') u else [])"
        using P u h' unfolding table_inv_def by blast
      then show "c[i * ?H + h := cell_ports f (host_dist f h) i] ! (u * ?H + h')
          = (if h' < h \<or> h' = h \<and> u < Suc i then cell_ports f (host_dist f h') u else [])"
        using cell_index_inject[OF h h', of i u] lt by (cases "i = u \<and> h = h'") (auto simp: less_Suc_eq)
    qed
    then show "\<exists>c'. next_hops f (host_dist f h) ?H h ([0..<?N] ! i) c = Some c' \<and> ?P (Suc i) c'"
      using st iN by simp
  qed
  then obtain cells' where c: "fold_opt (next_hops f (host_dist f h) ?H h) [0..<?N] cells = Some cells'" "?P ?N cells'"
    by auto
  have "table_inv f (\<lambda>u h'. h' < Suc h) cells'"
    using c(2) unfolding table_inv_def by (auto simp: less_Suc_eq)
  moreover have "next_hop_column f h cells = Some cells'"
    using c(1) d(1) h by (simp add: next_hop_column_def host_at_def hu fabric_simps host_count_def)
  ultimately show ?thesis by blast
qed

lemma cell_ports_card:
  assumes ok: "fabric_ok f" and u: "u < node_count f"
  shows "length (cell_ports f dist u) \<le> card {p. p < port_count f \<and> id_index (port_owner (fab_ports f ! p)) = u}"
proof -
  have uu: "id_index (id_at u :: node_id) = u" using u fabric_okD(4)[OF ok] by simp
  obtain ps where ps: "ports_of f (id_at u) = Some ps" "distinct ps"
    "id_index ` set ps = {p. p < port_count f \<and> port_owner (fab_ports f ! p) = id_at u}"
    using ports_of_spec[OF ok, of "id_at u"] u uu by auto
  have "length ps = card (set ps)" using ps(2) by (simp add: distinct_card)
  also have "\<dots> = card (id_index ` set ps)" by (metis card_image id_index_inject inj_onI)
  also have "\<dots> = card {p. p < port_count f \<and> id_index (port_owner (fab_ports f ! p)) = u}"
    unfolding ps(3) by (metis id_index_inject uu)
  finally have "length (filter P ps) \<le> card {p. p < port_count f \<and> id_index (port_owner (fab_ports f ! p)) = u}" for P
    by (metis length_filter_le)
  then show ?thesis using ps(1) by (auto simp: cell_ports_def)
qed

lemma table_entries_bound:
  assumes ok: "fabric_ok f" and inv: "table_inv f (\<lambda>u h'. True) cells"
  shows "length (concat cells) \<le> port_count f * host_count f"
proof -
  let ?N = "node_count f" and ?H = "host_count f"
  let ?deg = "\<lambda>u. card {p. p < port_count f \<and> id_index (port_owner (fab_ports f ! p)) = u}"
  have "length (concat cells) = (\<Sum>c < ?N * ?H. length (cells ! c))"
    using inv by (simp add: table_inv_def length_concat sum_list_sum_nth atLeast0LessThan)
  also have "\<dots> = (\<Sum>u < ?N. \<Sum>c = u * ?H..<u * ?H + ?H. length (cells ! c))"
    by (rule sum.nat_group[symmetric])
  also have "\<dots> \<le> (\<Sum>u < ?N. ?H * ?deg u)"
  proof (rule sum_mono)
    fix u assume "u \<in> {..<?N}"
    then have u: "u < ?N" by simp
    have "length (cells ! c) \<le> ?deg u" if c: "c \<in> {u * ?H..<u * ?H + ?H}" for c
    proof -
      obtain h where h: "c = u * ?H + h" "h < ?H" using c by (metis add_less_cancel_left atLeastLessThan_iff le_Suc_ex)
      then show ?thesis using inv u cell_ports_card[OF ok u] by (simp add: table_inv_def)
    qed
    then have "(\<Sum>c = u * ?H..<u * ?H + ?H. length (cells ! c)) \<le> (\<Sum>c = u * ?H..<u * ?H + ?H. ?deg u)"
      by (rule sum_mono)
    then show "(\<Sum>c = u * ?H..<u * ?H + ?H. length (cells ! c)) \<le> ?H * ?deg u" by simp
  qed
  also have "\<dots> = ?H * (\<Sum>u < ?N. ?deg u)" by (simp add: sum_distrib_left)
  also have "(\<Sum>u < ?N. ?deg u) = port_count f"
  proof -
    have "(\<lambda>p. id_index (port_owner (fab_ports f ! p))) ` {..<port_count f} \<subseteq> {..<?N}"
      using fabric_okD(1)[OF ok] unfolding ports_wired_def Let_def by auto
    then have "(\<Sum>u \<in> {..<?N}. \<Sum>p \<in> {p \<in> {..<port_count f}. id_index (port_owner (fab_ports f ! p)) = u}. 1)
        = (\<Sum>p \<in> {..<port_count f}. 1 :: nat)"
      by (intro sum.group) auto
    then show ?thesis by simp
  qed
  finally show ?thesis by (simp add: mult.commute)
qed

lemma build_shortest_path_spec:
  assumes ok: "fabric_ok f" and small: "port_count f * host_count f < 2 ^ 32"
  shows "\<exists>rt. build_shortest_path f = Some rt \<and> (\<forall>at h. id_index at < node_count f \<longrightarrow>
    unat h < host_count f \<longrightarrow> candidates rt at h = Some (cell_ports f (host_dist f (unat h)) (id_index at)))"
proof -
  let ?H = "host_count f" and ?N = "node_count f"
  let ?c0 = "replicate (?N * ?H) [] :: port_id list list"
  have "\<exists>cells. fold_opt (next_hop_column f) [0..<?H] ?c0 = Some cells
      \<and> table_inv f (\<lambda>u h'. h' < length [0..<?H]) cells"
  proof (rule fold_opt_invariant)
    show "table_inv f (\<lambda>u h'. h' < 0) ?c0" by (simp add: table_inv_def cell_index_less)
  next
    fix h c assume "h < length [0..<?H]" "table_inv f (\<lambda>u h'. h' < h) c"
    then show "\<exists>c'. next_hop_column f ([0..<?H] ! h) c = Some c' \<and> table_inv f (\<lambda>u h'. h' < Suc h) c'"
      using next_hop_column_spec[OF ok, of h c] by simp
  qed
  then obtain cells where c: "fold_opt (next_hop_column f) [0..<?H] ?c0 = Some cells"
    and inv: "table_inv f (\<lambda>u h'. True) cells" by (auto simp: table_inv_def)
  have "length (concat cells) < 2 ^ 32" using table_entries_bound[OF ok inv] small by linarith
  then have "candidates \<lparr>rt_entries = concat cells, rt_offsets = csr_offsets 0 cells, rt_num_hosts = ?H\<rparr> at h
      = Some (cell_ports f (host_dist f (unat h)) (id_index at))"
    if "id_index at < ?N" "unat h < ?H" for at h
    using candidates_csr[of at ?H h cells] cell_index_less[OF that] inv that by (simp add: table_inv_def)
  then show ?thesis using c by (simp add: build_shortest_path_def)
qed

section \<open>Every candidate is one hop closer\<close>

text \<open>
  The contract forwarding rests on: a step lowers a rank by exactly one, and a live
  node of positive rank has a step.  No walk along the steps can loop, and every walk
  from a live node reaches rank zero after exactly its rank many steps.
\<close>

locale ranked_steps =
  fixes step :: "'n \<Rightarrow> 'n \<Rightarrow> bool"
    and rank :: "'n \<Rightarrow> nat"
    and live :: "'n \<Rightarrow> bool"
  assumes step_rank: "step u v \<Longrightarrow> Suc (rank v) = rank u"
    and step_live: "step u v \<Longrightarrow> live v"
    and step_exists: "live u \<Longrightarrow> rank u \<noteq> 0 \<Longrightarrow> \<exists>v. step u v"
begin

lemma walk_rank: "(u, v) \<in> {(a, b). step a b} ^^ n \<Longrightarrow> rank v + n = rank u"
proof (induction n arbitrary: v)
  case (Suc n)
  then obtain w where "(u, w) \<in> {(a, b). step a b} ^^ n" "step w v" by auto
  then show ?case using Suc.IH[of w] step_rank[of w v] by simp
qed simp

lemma walk_live: "(u, v) \<in> {(a, b). step a b} ^^ n \<Longrightarrow> live u \<Longrightarrow> live v"
  by (induction n arbitrary: v) (auto dest: step_live)

lemma no_cycle: "(u, u) \<notin> {(a, b). step a b}\<^sup>+"
proof
  assume "(u, u) \<in> {(a, b). step a b}\<^sup>+"
  then obtain n where "n > 0" "(u, u) \<in> {(a, b). step a b} ^^ n" by (metis trancl_power)
  then show False using walk_rank[of u u n] by simp
qed

lemma walk_extends:
  assumes "live u" "(u, v) \<in> {(a, b). step a b} ^^ n" "n < rank u"
  shows "\<exists>w. step v w"
proof -
  have "rank v \<noteq> 0" using walk_rank[OF assms(2)] assms(3) by simp
  then show ?thesis using step_exists walk_live[OF assms(2,1)] by blast
qed

end

definition hop_rank :: "fabric \<Rightarrow> nat \<Rightarrow> nat \<Rightarrow> nat" where
  "hop_rank f h u = unat (host_dist f h ! u)"

definition reaches_host :: "fabric \<Rightarrow> nat \<Rightarrow> nat \<Rightarrow> bool" where
  "reaches_host f h u \<longleftrightarrow> fabric_ok f \<and> h < host_count f \<and> u < node_count f
     \<and> host_dist f h ! u \<noteq> kUnreachable"

definition forwards :: "fabric \<Rightarrow> nat \<Rightarrow> nat \<Rightarrow> nat \<Rightarrow> bool" where
  "forwards f h u v \<longleftrightarrow> reaches_host f h u \<and>
     (\<exists>p \<in> set (cell_ports f (host_dist f h) u). peer_index f (id_index p) = v)"

lemma host_dist_min_hops:
  assumes "fabric_ok f" "h < host_count f" "u < node_count f"
  shows "host_dist f h ! u \<noteq> kUnreachable \<longleftrightarrow> (\<exists>n. min_hops (links f) (id_index (fab_hosts f ! h)) u n)"
    "min_hops (links f) (id_index (fab_hosts f ! h)) u n \<Longrightarrow>
       host_dist f h ! u = of_nat n \<and> unat (host_dist f h ! u) = n \<and> n < 2 ^ 32 - 1"
proof -
  note d = host_dist_correct(2)[OF assms(1,2), unfolded dist_correct_def]
  have N: "node_count f < 2 ^ 32 - 1" using fabric_okD(4)[OF assms(1)] .
  have r: "n < node_count f \<and> host_dist f h ! u = of_nat n"
    if "min_hops (links f) (id_index (fab_hosts f ! h)) u n" for n
    using d assms(3) that by blast
  show "host_dist f h ! u \<noteq> kUnreachable \<longleftrightarrow> (\<exists>n. min_hops (links f) (id_index (fab_hosts f ! h)) u n)"
    using d assms(3) r N of_nat_not_unreachable by (metis order.strict_trans)
  assume "min_hops (links f) (id_index (fab_hosts f ! h)) u n"
  then have n: "n < node_count f" "host_dist f h ! u = of_nat n" using r by auto
  moreover have "unat (of_nat n :: u32) = n" by (rule unat_of_nat_small) (use n N in simp)
  ultimately show "host_dist f h ! u = of_nat n \<and> unat (host_dist f h ! u) = n \<and> n < 2 ^ 32 - 1"
    using N by simp
qed

lemma cell_ports_iff:
  assumes ok: "fabric_ok f" and h: "h < host_count f" and u: "u < node_count f"
  shows "p \<in> set (cell_ports f (host_dist f h) u) \<longleftrightarrow>
    id_index p < port_count f \<and> id_index (port_owner (fab_ports f ! id_index p)) = u \<and>
    (\<exists>n. min_hops (links f) (id_index (fab_hosts f ! h)) u (Suc n) \<and>
         min_hops (links f) (id_index (fab_hosts f ! h)) (peer_index f (id_index p)) n)"
    (is "_ \<longleftrightarrow> ?inr \<and> ?mine \<and> _")
proof -
  let ?d = "host_dist f h" and ?s = "id_index (fab_hosts f ! h)" and ?v = "peer_index f (id_index p)"
  have uu: "id_index (id_at u :: node_id) = u" using u fabric_okD(4)[OF ok] by simp
  obtain ps where ps: "ports_of f (id_at u) = Some ps"
    "id_index ` set ps = {p. p < port_count f \<and> port_owner (fab_ports f ! p) = id_at u}"
    using ports_of_spec[OF ok, of "id_at u"] u uu by auto
  have "p \<in> set ps \<longleftrightarrow> id_index p \<in> id_index ` set ps" by (auto simp: id_index_inject)
  then have "p \<in> set ps \<longleftrightarrow> id_index p < port_count f \<and>
      port_owner (fab_ports f ! id_index p) = id_at u"
    unfolding ps(2) mem_Collect_eq .
  moreover have "port_owner (fab_ports f ! id_index p) = id_at u \<longleftrightarrow>
      id_index (port_owner (fab_ports f ! id_index p)) = u"
    using id_index_inject[of "port_owner (fab_ports f ! id_index p)" "id_at u"] unfolding uu by blast
  ultimately have own: "p \<in> set ps \<longleftrightarrow> (?inr \<and> ?mine)" by blast
  have mem: "p \<in> set (cell_ports f ?d u) \<longleftrightarrow>
      p \<in> set ps \<and> ?d ! u \<noteq> 0 \<and> ?d ! u \<noteq> kUnreachable \<and> ?d ! ?v + 1 = ?d ! u"
    using ps(1) by (auto simp: cell_ports_def)
  have "?d ! u \<noteq> 0 \<and> ?d ! u \<noteq> kUnreachable \<and> ?d ! ?v + 1 = ?d ! u \<longleftrightarrow>
      (\<exists>n. min_hops (links f) ?s u (Suc n) \<and> min_hops (links f) ?s ?v n)" if "?inr \<and> ?mine"
  proof -
    have v: "?v < node_count f" using peer_in_range[OF ok] that by blast
    note mu = host_dist_min_hops[OF ok h u] and mv = host_dist_min_hops[OF ok h v]
    show ?thesis
    proof
      assume a: "?d ! u \<noteq> 0 \<and> ?d ! u \<noteq> kUnreachable \<and> ?d ! ?v + 1 = ?d ! u"
      then obtain n where n: "min_hops (links f) ?s u n" using mu(1) by blast
      have "?d ! ?v \<noteq> kUnreachable"
      proof
        assume "?d ! ?v = kUnreachable"
        then have "?d ! u = 0" using a by (simp add: kUnreachable_def)
        then show False using a by simp
      qed
      then obtain m where m: "min_hops (links f) ?s ?v m" using mv(1) by blast
      have "(of_nat (Suc m) :: u32) = of_nat n" using mu(2)[OF n] mv(2)[OF m] a by (simp add: add.commute)
      moreover have "unat (of_nat (Suc m) :: u32) = Suc m" "unat (of_nat n :: u32) = n"
        by (rule unat_of_nat_small, use mu(2)[OF n] mv(2)[OF m] in simp)+
      ultimately have "n = Suc m" by metis
      then show "\<exists>n. min_hops (links f) ?s u (Suc n) \<and> min_hops (links f) ?s ?v n" using n m by blast
    next
      assume "\<exists>n. min_hops (links f) ?s u (Suc n) \<and> min_hops (links f) ?s ?v n"
      then obtain n where n: "min_hops (links f) ?s u (Suc n)" "min_hops (links f) ?s ?v n" by blast
      have "?d ! u \<noteq> 0" using mu(2)[OF n(1)] by (metis unat_0 nat.distinct(1))
      then show "?d ! u \<noteq> 0 \<and> ?d ! u \<noteq> kUnreachable \<and> ?d ! ?v + 1 = ?d ! u"
        using mu(2)[OF n(1)] mv(2)[OF n(2)] mu(1) n by (simp add: add.commute) blast
    qed
  qed
  then show ?thesis using mem own by blast
qed

lemma hop_ranked: "ranked_steps (forwards f h) (hop_rank f h) (reaches_host f h)"
proof unfold_locales
  fix u v assume "forwards f h u v"
  then obtain p where ok: "fabric_ok f" and h: "h < host_count f" and u: "u < node_count f"
    and p: "p \<in> set (cell_ports f (host_dist f h) u)" "peer_index f (id_index p) = v"
    by (auto simp: forwards_def reaches_host_def)
  obtain n where n: "id_index p < port_count f" "min_hops (links f) (id_index (fab_hosts f ! h)) u (Suc n)"
    "min_hops (links f) (id_index (fab_hosts f ! h)) v n"
    using cell_ports_iff[OF ok h u, of p] p by auto
  have v: "v < node_count f" using peer_in_range[OF ok n(1)] p(2) by simp
  show "Suc (hop_rank f h v) = hop_rank f h u"
    using host_dist_min_hops(2)[OF ok h u n(2)] host_dist_min_hops(2)[OF ok h v n(3)]
    unfolding hop_rank_def by metis
  show "reaches_host f h v"
    using ok h v n(3) host_dist_min_hops(1)[OF ok h v] by (auto simp: reaches_host_def)
next
  fix u assume l: "reaches_host f h u" and r: "hop_rank f h u \<noteq> 0"
  then have ok: "fabric_ok f" and h: "h < host_count f" and u: "u < node_count f"
    by (auto simp: reaches_host_def)
  let ?s = "id_index (fab_hosts f ! h)"
  obtain n where n: "min_hops (links f) ?s u n" using l host_dist_min_hops(1)[OF ok h u] by (auto simp: reaches_host_def)
  then have "hop_rank f h u = n" using host_dist_min_hops(2)[OF ok h u] unfolding hop_rank_def by blast
  then have "n \<noteq> 0" using r by simp
  then obtain m where m: "n = Suc m" by (cases n) auto
  obtain w where w: "min_hops (links f) ?s w m" "(w, u) \<in> links f" using min_hops_pred n m by blast
  have "(u, w) \<in> links f" using links_sym[OF fabric_okD(1)[OF ok] w(2)] .
  then obtain p where p: "p < port_count f" "id_index (port_owner (fab_ports f ! p)) = u" "peer_index f p = w"
    by (auto simp: links_def)
  have pi: "id_index (id_at p :: port_id) = p"
    using p(1) fabric_okD(2)[OF ok] by (simp add: runs_contiguous_def)
  have "id_at p \<in> set (cell_ports f (host_dist f h) u)"
    using cell_ports_iff[OF ok h u, of "id_at p"] pi p w(1) n m by auto
  then show "\<exists>v. forwards f h u v" using l pi p(3) unfolding forwards_def by metis
qed

interpretation hop: ranked_steps "forwards f h" "hop_rank f h" "reaches_host f h" for f h
  by (rule hop_ranked)

text \<open>The steps a packet to host \<open>h\<close> can take by the candidates of a table.\<close>

definition table_step :: "fabric \<Rightarrow> route_table \<Rightarrow> u32 \<Rightarrow> (nat \<times> nat) set" where
  "table_step f rt h = {(u, v). u < node_count f
     \<and> (\<exists>ps p. candidates rt (id_at u) h = Some ps \<and> p \<in> set ps \<and> peer_index f (id_index p) = v)}"

lemma table_step_forwards:
  assumes ok: "fabric_ok f" and h: "unat h < host_count f"
    and rt: "\<forall>at h. id_index at < node_count f \<longrightarrow> unat h < host_count f \<longrightarrow>
      candidates rt at h = Some (cell_ports f (host_dist f (unat h)) (id_index at))"
  shows "table_step f rt h = {(u, v). forwards f (unat h) u v}"
proof -
  have "(u, v) \<in> table_step f rt h \<longleftrightarrow> forwards f (unat h) u v" for u v
  proof (cases "u < node_count f")
    case True
    then have u: "id_index (id_at u :: node_id) = u" using fabric_okD(4)[OF ok] by simp
    have c: "candidates rt (id_at u) h = Some (cell_ports f (host_dist f (unat h)) u)" using rt u True h by metis
    have "host_dist f (unat h) ! u \<noteq> kUnreachable" if "p \<in> set (cell_ports f (host_dist f (unat h)) u)" for p
      using that by (auto simp: cell_ports_def split: option.splits if_splits)
    then show ?thesis using True c ok h by (auto simp: table_step_def forwards_def reaches_host_def)
  qed (simp add: table_step_def forwards_def reaches_host_def)
  then show ?thesis by auto
qed

lemma table_walks:
  assumes ok: "fabric_ok f" and small: "port_count f * host_count f < 2 ^ 32" and h: "unat h < host_count f"
  shows "\<exists>rt. build_shortest_path f = Some rt \<and> (\<forall>u. (u, u) \<notin> (table_step f rt h)\<^sup>+)
    \<and> (\<forall>u n k v. u < node_count f \<longrightarrow> min_hops (links f) (id_index (fab_hosts f ! unat h)) u n \<longrightarrow> (u, v) \<in> table_step f rt h ^^ k \<longrightarrow>
        k \<le> n \<and> (k = n \<longleftrightarrow> v = id_index (fab_hosts f ! unat h))
        \<and> (k < n \<longleftrightarrow> (\<exists>ps p. v < node_count f \<and> candidates rt (id_at v) h = Some ps \<and> p \<in> set ps)))"
proof -
  let ?s = "id_index (fab_hosts f ! unat h)" and ?h = "unat h"
  obtain rt where rt: "build_shortest_path f = Some rt"
    "\<forall>at h. id_index at < node_count f \<longrightarrow> unat h < host_count f \<longrightarrow>
      candidates rt at h = Some (cell_ports f (host_dist f (unat h)) (id_index at))"
    using build_shortest_path_spec[OF ok small] by blast
  note F = table_step_forwards[OF ok h rt(2)]
  have walk: "k \<le> n \<and> (k = n \<longleftrightarrow> v = ?s) \<and> (k < n \<longleftrightarrow> (\<exists>w. forwards f ?h v w))"
    if u: "u < node_count f" and n: "min_hops (links f) ?s u n" and w: "(u, v) \<in> {(a, b). forwards f ?h a b} ^^ k" for u n k v
  proof -
    have live: "reaches_host f ?h u" using ok h u n host_dist_min_hops(1)[OF ok h u] by (auto simp: reaches_host_def)
    have r: "hop_rank f ?h u = n" using host_dist_min_hops(2)[OF ok h u n] unfolding hop_rank_def by blast
    have v: "reaches_host f ?h v" using hop.walk_live[OF w live] .
    then have vN: "v < node_count f" by (simp add: reaches_host_def)
    obtain m where m: "min_hops (links f) ?s v m" using v host_dist_min_hops(1)[OF ok h vN] by (auto simp: reaches_host_def)
    have "hop_rank f ?h v = m" using host_dist_min_hops(2)[OF ok h vN m] unfolding hop_rank_def by blast
    then have mk: "m + k = n" using hop.walk_rank[OF w] r by simp
    have "m = 0 \<longleftrightarrow> v = ?s" using m min_hops_unique[OF m, of 0] by (cases "m = 0") auto
    moreover have "(\<exists>w. forwards f ?h v w) \<longleftrightarrow> m \<noteq> 0"
    proof
      assume "\<exists>w. forwards f ?h v w"
      then obtain x where "forwards f ?h v x" ..
      then have "Suc (hop_rank f ?h x) = hop_rank f ?h v" by (rule ranked_steps.step_rank[OF hop_ranked])
      then show "m \<noteq> 0" using \<open>hop_rank f ?h v = m\<close> by simp
    next
      assume "m \<noteq> 0"
      then show "\<exists>w. forwards f ?h v w" using ranked_steps.step_exists[OF hop_ranked v] \<open>hop_rank f ?h v = m\<close> by simp
    qed
    ultimately show ?thesis using mk by auto
  qed
  have go: "(\<exists>ps p. v < node_count f \<and> candidates rt (id_at v) h = Some ps \<and> p \<in> set ps) \<longleftrightarrow> (\<exists>w. forwards f ?h v w)" for v
    using arg_cong[OF F, of "\<lambda>S. \<exists>w. (v, w) \<in> S"] by (auto simp: table_step_def)
  have "(u, u) \<notin> (table_step f rt h)\<^sup>+" for u unfolding F by (rule hop.no_cycle)
  moreover note walk[folded F go]
  ultimately show ?thesis using rt(1) by blast
qed

end
