(* ===== verification/Simulation.thy ===== *)
theory Simulation
  imports Event_Queue Flow_Hash Route_Table
begin

text \<open>
  \<^verbatim>\<open>core/simulation.hpp\<close> and \<^verbatim>\<open>core/simulation.cpp\<close>: the data of a run and every
  operation of the discrete-event core, by explicit state passing in the option monad.
  The references \<open>tx\<close>, \<open>st\<close>, \<open>r\<close> and \<open>p\<close> of the C++ code are reads of the current
  state followed by a write-back, in the order the code performs them.  The routing
  policy, a template parameter there, is the argument \<open>select\<close> of the run here.
\<close>

section \<open>Data\<close>

record TransportConfig =
  tc_ack_bytes :: Bytes
  tc_rto_ns :: Nanos
  tc_max_attempts :: u8

definition default_transport :: TransportConfig where
  "default_transport = \<lparr>tc_ack_bytes = 64, tc_rto_ns = 0, tc_max_attempts = 8\<rparr>"

record FlowSpec =
  fs_src :: node_id
  fs_dst :: node_id
  fs_size_bytes :: Bytes
  fs_start_ns :: Nanos
  fs_mtu_bytes :: u16
  fs_src_port :: u16
  fs_dst_port :: u16
  fs_protocol :: u8
  fs_window_pkts :: u32
  fs_load_permille :: u32
  fs_depends_on :: flow_id

definition default_flow_spec :: FlowSpec where
  "default_flow_spec = \<lparr>fs_src = id_invalid, fs_dst = id_invalid, fs_size_bytes = 0,
     fs_start_ns = 0, fs_mtu_bytes = 1500, fs_src_port = 0, fs_dst_port = 0, fs_protocol = 6,
     fs_window_pkts = 32, fs_load_permille = 1000, fs_depends_on = id_invalid\<rparr>"

record FlowResult =
  res_start_ns :: Nanos
  res_finish_ns :: Nanos
  res_delivered_bytes :: Bytes
  res_packets_total :: u32
  res_packets_delivered :: u32
  res_packets_dropped :: u32
  res_packets_retransmitted :: u32
  res_complete :: bool
  res_failed :: bool

definition fct_ns :: "FlowResult \<Rightarrow> Nanos" where
  "fct_ns r = res_finish_ns r - res_start_ns r"

record RunStats =
  rs_virtual_end_ns :: Nanos
  rs_events_processed :: u64
  rs_bytes_injected :: Bytes
  rs_bytes_delivered :: Bytes
  rs_bytes_dropped :: Bytes
  rs_ack_bytes_injected :: Bytes
  rs_ack_bytes_delivered :: Bytes
  rs_ack_bytes_dropped :: Bytes
  rs_packets_retransmitted :: u64
  rs_flows_complete :: u32
  rs_flows_incomplete :: u32
  rs_flows_failed :: u32

definition zero_stats :: RunStats where
  "zero_stats = \<lparr>rs_virtual_end_ns = 0, rs_events_processed = 0, rs_bytes_injected = 0,
     rs_bytes_delivered = 0, rs_bytes_dropped = 0, rs_ack_bytes_injected = 0,
     rs_ack_bytes_delivered = 0, rs_ack_bytes_dropped = 0, rs_packets_retransmitted = 0,
     rs_flows_complete = 0, rs_flows_incomplete = 0, rs_flows_failed = 0\<rparr>"

record FlowRoute =
  frt_fwd_key :: flow_key
  frt_rev_key :: flow_key
  frt_dst_host :: u32
  frt_src_host :: u32
  frt_src_nic :: port_id
  frt_dst_nic :: port_id

record FlowTx =
  tx_next_seq :: u32
  tx_in_flight :: u32
  tx_window :: u32
  tx_packets_total :: u32
  tx_acked_count :: u32
  tx_retx_head :: u32
  tx_retx_count :: u32
  tx_period_ns :: Nanos
  tx_next_send_ns :: Nanos
  tx_send_scheduled :: bool
  tx_failed :: bool

definition kDelivered :: u8 where "kDelivered = 1"
definition kAcked :: u8 where "kAcked = 2"
definition kInFlight :: u8 where "kInFlight = 4"

record sim =
  sim_fabric :: fabric
  sim_routes :: route_table
  sim_queue :: event_queue
  sim_transport :: TransportConfig
  sim_specs :: "FlowSpec list"
  sim_froutes :: "FlowRoute list"
  sim_tx :: "FlowTx list"
  sim_results :: "FlowResult list"
  sim_flow_pkt_offset :: "u32 list"
  sim_pkt_state :: "u8 list"
  sim_pkt_attempt :: "u8 list"
  sim_retx_offset :: "u32 list"
  sim_retx_ring :: "u32 list"
  sim_dependents_offset :: "u32 list"
  sim_dependents :: "flow_id list"
  sim_now :: Nanos
  sim_stats :: RunStats

definition sim_new :: "fabric \<Rightarrow> route_table \<Rightarrow> sim" where
  "sim_new f rt = \<lparr>sim_fabric = f, sim_routes = rt, sim_queue = eq_new,
     sim_transport = default_transport, sim_specs = [], sim_froutes = [], sim_tx = [],
     sim_results = [], sim_flow_pkt_offset = [], sim_pkt_state = [], sim_pkt_attempt = [],
     sim_retx_offset = [], sim_retx_ring = [], sim_dependents_offset = [], sim_dependents = [],
     sim_now = 0, sim_stats = zero_stats\<rparr>"

definition set_transport :: "TransportConfig \<Rightarrow> sim \<Rightarrow> sim" where
  "set_transport cfg s = s\<lparr>sim_transport := cfg\<rparr>"

section \<open>Access to the flat per-flow and per-packet arrays\<close>

definition get_tx :: "flow_id \<Rightarrow> sim \<Rightarrow> FlowTx option" where
  "get_tx f s = vget (sim_tx s) (id_index f)"

definition put_tx :: "flow_id \<Rightarrow> FlowTx \<Rightarrow> sim \<Rightarrow> sim option" where
  "put_tx f tx s = do { txs \<leftarrow> vset (sim_tx s) (id_index f) tx; Some (s\<lparr>sim_tx := txs\<rparr>) }"

definition get_result :: "flow_id \<Rightarrow> sim \<Rightarrow> FlowResult option" where
  "get_result f s = vget (sim_results s) (id_index f)"

definition put_result :: "flow_id \<Rightarrow> FlowResult \<Rightarrow> sim \<Rightarrow> sim option" where
  "put_result f r s = do { rs \<leftarrow> vset (sim_results s) (id_index f) r; Some (s\<lparr>sim_results := rs\<rparr>) }"

text \<open>\<open>flow_pkt_offset_[f] + idx\<close>, a 32-bit sum, and the two arrays indexed with it.\<close>

definition pkt_slot :: "flow_id \<Rightarrow> u32 \<Rightarrow> sim \<Rightarrow> nat option" where
  "pkt_slot f idx s = do {
     base \<leftarrow> vget (sim_flow_pkt_offset s) (id_index f);
     Some (unat (base + idx))
   }"

definition put_pkt_state :: "nat \<Rightarrow> u8 \<Rightarrow> sim \<Rightarrow> sim option" where
  "put_pkt_state k st s = do { xs \<leftarrow> vset (sim_pkt_state s) k st; Some (s\<lparr>sim_pkt_state := xs\<rparr>) }"

definition put_port :: "port_id \<Rightarrow> port \<Rightarrow> sim \<Rightarrow> sim option" where
  "put_port p x s = do { f \<leftarrow> set_port (sim_fabric s) p x; Some (s\<lparr>sim_fabric := f\<rparr>) }"

definition push_event :: "event \<Rightarrow> sim \<Rightarrow> sim" where
  "push_event e s = s\<lparr>sim_queue := eq_push e (sim_queue s)\<rparr>"

section \<open>Setting a run up\<close>

definition add_flow :: "FlowSpec \<Rightarrow> sim \<Rightarrow> (flow_id \<times> sim) option" where
  "add_flow spec s = do {
     assert_that (0 < fs_mtu_bytes spec \<and> ucast (fs_mtu_bytes spec) \<le> kMaxPacketBytes);
     assert_that (0 < fs_size_bytes spec);
     ns \<leftarrow> fabric_node (sim_fabric s) (fs_src spec);
     nd \<leftarrow> fabric_node (sim_fabric s) (fs_dst spec);
     assert_that (node_is_host ns \<and> node_is_host nd);
     assert_that (fs_src spec \<noteq> fs_dst spec);
     assert_that (0 < fs_load_permille spec \<and> fs_load_permille spec \<le> 1000);
     assert_that (\<not> id_valid (fs_depends_on spec) \<or>
       id_index (fs_depends_on spec) < length (sim_specs s));
     let fid = id_at (length (sim_specs s));
     let mtu = (ucast (fs_mtu_bytes spec) :: Bytes);
     let packets_total = (ucast ((fs_size_bytes spec + mtu - 1) div mtu) :: u32);
     src_host \<leftarrow> host_index (sim_fabric s) (fs_src spec);
     dst_host \<leftarrow> host_index (sim_fabric s) (fs_dst spec);
     src_ports \<leftarrow> ports_of (sim_fabric s) (fs_src spec);
     src_nic \<leftarrow> vget src_ports 0;
     dst_ports \<leftarrow> ports_of (sim_fabric s) (fs_dst spec);
     dst_nic \<leftarrow> vget dst_ports 0;
     let fr = \<lparr>
       frt_fwd_key = \<lparr>fk_src_ip = src_host, fk_dst_ip = dst_host, fk_src_port = fs_src_port spec,
         fk_dst_port = fs_dst_port spec, fk_protocol = fs_protocol spec\<rparr>,
       frt_rev_key = \<lparr>fk_src_ip = dst_host, fk_dst_ip = src_host, fk_src_port = fs_dst_port spec,
         fk_dst_port = fs_src_port spec, fk_protocol = fs_protocol spec\<rparr>,
       frt_dst_host = dst_host, frt_src_host = src_host,
       frt_src_nic = src_nic, frt_dst_nic = dst_nic\<rparr>;
     let w = min (fs_window_pkts spec) packets_total;
     let window = (if w = 0 then 1 else w);
     let tx = \<lparr>tx_next_seq = 0, tx_in_flight = 0, tx_window = window,
       tx_packets_total = packets_total, tx_acked_count = 0, tx_retx_head = 0, tx_retx_count = 0,
       tx_period_ns = 0, tx_next_send_ns = 0, tx_send_scheduled = False, tx_failed = False\<rparr>;
     let r = \<lparr>res_start_ns = fs_start_ns spec, res_finish_ns = 0, res_delivered_bytes = 0,
       res_packets_total = packets_total, res_packets_delivered = 0, res_packets_dropped = 0,
       res_packets_retransmitted = 0, res_complete = False, res_failed = False\<rparr>;
     Some (fid, s\<lparr>
       sim_specs := sim_specs s @ [spec],
       sim_froutes := sim_froutes s @ [fr],
       sim_tx := sim_tx s @ [tx],
       sim_flow_pkt_offset := sim_flow_pkt_offset s @ [of_nat (length (sim_pkt_state s))],
       sim_pkt_state := sim_pkt_state s @ replicate (unat packets_total) 0,
       sim_pkt_attempt := sim_pkt_attempt s @ replicate (unat packets_total) 0,
       sim_retx_offset := sim_retx_offset s @ [of_nat (length (sim_retx_ring s))],
       sim_retx_ring := sim_retx_ring s @ replicate (unat window) 0,
       sim_results := sim_results s @ [r]\<rparr>)
   }"

text \<open>\<open>build_dependents\<close>: the two counting passes, then the placement of each dependent flow.\<close>

definition count_dependent :: "FlowSpec \<Rightarrow> u32 list \<Rightarrow> u32 list option" where
  "count_dependent spec off =
     (if id_valid (fs_depends_on spec)
      then do {
        c \<leftarrow> vget off (id_index (fs_depends_on spec) + 1);
        vset off (id_index (fs_depends_on spec) + 1) (c + 1)
      }
      else Some off)"

definition accumulate_offset :: "nat \<Rightarrow> u32 list \<Rightarrow> u32 list option" where
  "accumulate_offset i off = do {
     x \<leftarrow> vget off (i + 1);
     y \<leftarrow> vget off i;
     vset off (i + 1) (x + y)
   }"

definition place_dependent :: "FlowSpec list \<Rightarrow> nat \<Rightarrow> flow_id list \<times> u32 list
    \<Rightarrow> (flow_id list \<times> u32 list) option" where
  "place_dependent specs i st = (case st of (deps, cursor) \<Rightarrow> do {
     spec \<leftarrow> vget specs i;
     if id_valid (fs_depends_on spec)
     then do {
       c \<leftarrow> vget cursor (id_index (fs_depends_on spec));
       cursor \<leftarrow> vset cursor (id_index (fs_depends_on spec)) (c + 1);
       deps \<leftarrow> vset deps (unat c) (id_at i);
       Some (deps, cursor)
     }
     else Some (deps, cursor)
   })"

definition build_dependents :: "sim \<Rightarrow> sim option" where
  "build_dependents s = do {
     let n = length (sim_specs s);
     off \<leftarrow> fold_opt count_dependent (sim_specs s) (replicate (n + 1) 0);
     off \<leftarrow> fold_opt accumulate_offset [0..<n] off;
     total \<leftarrow> vget off n;
     (deps, cursor) \<leftarrow> fold_opt (place_dependent (sim_specs s)) [0..<n]
        (replicate (unat total) id_invalid, butlast off);
     Some (s\<lparr>sim_dependents_offset := off, sim_dependents := deps\<rparr>)
   }"

definition pacing_period :: "FlowSpec \<Rightarrow> BitsPerSec \<Rightarrow> Nanos option" where
  "pacing_period spec rate = do {
     ser \<leftarrow> serialization_ns (ucast (fs_mtu_bytes spec)) rate;
     assert_that (fs_load_permille spec \<noteq> 0);
     Some (ser * 1000 div ucast (fs_load_permille spec))
   }"

text \<open>The body of the loop of \<open>begin_run\<close> that resets flow \<open>i\<close>.\<close>

definition reset_flow :: "nat \<Rightarrow> sim \<Rightarrow> sim option" where
  "reset_flow i s = do {
     spec \<leftarrow> vget (sim_specs s) i;
     tx \<leftarrow> vget (sim_tx s) i;
     fr \<leftarrow> vget (sim_froutes s) i;
     nic \<leftarrow> fabric_port (sim_fabric s) (frt_src_nic fr);
     period \<leftarrow> pacing_period spec (port_rate nic);
     r \<leftarrow> vget (sim_results s) i;
     let s = s\<lparr>
       sim_tx := (sim_tx s)[i := tx\<lparr>tx_next_seq := 0, tx_in_flight := 0, tx_acked_count := 0,
         tx_retx_head := 0, tx_retx_count := 0, tx_next_send_ns := 0, tx_send_scheduled := False,
         tx_failed := False, tx_period_ns := period\<rparr>],
       sim_results := (sim_results s)[i := r\<lparr>res_start_ns := fs_start_ns spec, res_finish_ns := 0,
         res_delivered_bytes := 0, res_packets_delivered := 0, res_packets_dropped := 0,
         res_packets_retransmitted := 0, res_complete := False, res_failed := False\<rparr>]\<rparr>;
     Some (if \<not> id_valid (fs_depends_on spec)
           then push_event (ev_inject (fs_start_ns spec) (id_at i)) s else s)
   }"

definition begin_run :: "sim \<Rightarrow> sim option" where
  "begin_run s = do {
     assert_that (0 < tc_rto_ns (sim_transport s));
     assert_that (0 < tc_max_attempts (sim_transport s));
     assert_that (0 < tc_ack_bytes (sim_transport s) \<and> tc_ack_bytes (sim_transport s) \<le> kMaxPacketBytes);
     let s = s\<lparr>
       sim_queue := eq_clear (sim_queue s),
       sim_fabric := reset_state (sim_fabric s),
       sim_now := 0,
       sim_stats := zero_stats,
       sim_pkt_state := map (\<lambda>_. 0) (sim_pkt_state s),
       sim_pkt_attempt := map (\<lambda>_. 0) (sim_pkt_attempt s)\<rparr>;
     s \<leftarrow> build_dependents s;
     fold_opt reset_flow [0..<length (sim_specs s)] s
   }"

definition count_result :: "FlowResult \<Rightarrow> RunStats \<Rightarrow> RunStats" where
  "count_result r st =
     (let st = (if res_complete r then st\<lparr>rs_flows_complete := rs_flows_complete st + 1\<rparr>
                else st\<lparr>rs_flows_incomplete := rs_flows_incomplete st + 1\<rparr>) in
      if res_failed r then st\<lparr>rs_flows_failed := rs_flows_failed st + 1\<rparr> else st)"

definition end_run :: "sim \<Rightarrow> sim" where
  "end_run s = s\<lparr>sim_stats :=
     fold count_result (sim_results s) ((sim_stats s)\<lparr>rs_virtual_end_ns := sim_now s\<rparr>)\<rparr>"

section \<open>Ports\<close>

definition start_tx :: "port_id \<Rightarrow> sim \<Rightarrow> sim option" where
  "start_tx pid s = do {
     p \<leftarrow> fabric_port (sim_fabric s) pid;
     (pkt, ring) \<leftarrow> ring_pop (port_queue p);
     s \<leftarrow> put_port pid (p\<lparr>port_in_flight := pkt, port_queue := ring, port_busy := True\<rparr>) s;
     ser \<leftarrow> serialization_ns (ucast (pkt_bytes pkt)) (port_rate p);
     Some (push_event (ev_tx_complete (sim_now s + ser) pid) s)
   }"

definition enqueue :: "port_id \<Rightarrow> packet \<Rightarrow> sim \<Rightarrow> sim option" where
  "enqueue pid pkt s = do {
     p \<leftarrow> fabric_port (sim_fabric s) pid;
     (accepted, ring) \<leftarrow> ring_try_push pkt (port_queue p);
     if \<not> accepted then do {
       s \<leftarrow> put_port pid (p\<lparr>port_packets_dropped := port_packets_dropped p + 1,
              port_bytes_dropped := port_bytes_dropped p + ucast (pkt_bytes pkt)\<rparr>) s;
       if pkt_kind pkt = Ack
       then Some (s\<lparr>sim_stats := (sim_stats s)\<lparr>rs_ack_bytes_dropped :=
              rs_ack_bytes_dropped (sim_stats s) + ucast (pkt_bytes pkt)\<rparr>\<rparr>)
       else do {
         let s = s\<lparr>sim_stats := (sim_stats s)\<lparr>rs_bytes_dropped :=
              rs_bytes_dropped (sim_stats s) + ucast (pkt_bytes pkt)\<rparr>\<rparr>;
         r \<leftarrow> get_result (pkt_flow pkt) s;
         put_result (pkt_flow pkt) (r\<lparr>res_packets_dropped := res_packets_dropped r + 1\<rparr>) s
       }
     }
     else do {
       s \<leftarrow> put_port pid (p\<lparr>port_queue := ring\<rparr>) s;
       if \<not> port_busy p then start_tx pid s else Some s
     }
   }"

definition on_tx_complete :: "event \<Rightarrow> sim \<Rightarrow> sim option" where
  "on_tx_complete e s = do {
     let pid = ev_port e;
     p \<leftarrow> fabric_port (sim_fabric s) pid;
     let pkt = port_in_flight p;
     let p = p\<lparr>port_packets_sent := port_packets_sent p + 1,
               port_bytes_sent := port_bytes_sent p + ucast (pkt_bytes pkt)\<rparr>;
     s \<leftarrow> put_port pid p s;
     let s = push_event (ev_arrive (sim_now s + port_prop_delay_ns p) pid pkt) s;
     if \<not> ring_empty (port_queue p) then start_tx pid s
     else put_port pid (p\<lparr>port_busy := False\<rparr>) s
   }"

section \<open>The sender\<close>

definition send_packet :: "flow_id \<Rightarrow> u32 \<Rightarrow> sim \<Rightarrow> sim option" where
  "send_packet f idx s = do {
     tx \<leftarrow> get_tx f s;
     spec \<leftarrow> vget (sim_specs s) (id_index f);
     k \<leftarrow> pkt_slot f idx s;
     let mtu = (ucast (fs_mtu_bytes spec) :: Bytes);
     let offset = ucast idx * mtu;
     let remaining = fs_size_bytes spec - offset;
     let bytes = (ucast (if remaining < mtu then remaining else mtu) :: u16);
     attempt \<leftarrow> vget (sim_pkt_attempt s) k;
     s \<leftarrow> (if attempt > 0 then do {
         r \<leftarrow> get_result f s;
         put_result f (r\<lparr>res_packets_retransmitted := res_packets_retransmitted r + 1\<rparr>)
           (s\<lparr>sim_stats := (sim_stats s)\<lparr>rs_packets_retransmitted :=
                rs_packets_retransmitted (sim_stats s) + 1\<rparr>\<rparr>)
       } else Some s);
     st \<leftarrow> vget (sim_pkt_state s) k;
     s \<leftarrow> put_pkt_state k (st OR kInFlight) s;
     s \<leftarrow> put_tx f (tx\<lparr>tx_in_flight := tx_in_flight tx + 1,
            tx_next_send_ns := sim_now s + tx_period_ns tx\<rparr>) s;
     let s = s\<lparr>sim_stats := (sim_stats s)\<lparr>rs_bytes_injected :=
            rs_bytes_injected (sim_stats s) + ucast bytes\<rparr>\<rparr>;
     let s = push_event (ev_timeout (sim_now s + tc_rto_ns (sim_transport s)) f idx attempt) s;
     fr \<leftarrow> vget (sim_froutes s) (id_index f);
     enqueue (frt_src_nic fr) \<lparr>pkt_flow = f, pkt_index = idx, pkt_bytes = bytes, pkt_kind = Data,
       pkt_attempt = attempt\<rparr> s
   }"

text \<open>The inner loop of \<open>try_send\<close>: the next queued retransmission whose ack has not turned up.\<close>

function scan_retx :: "u32 list \<Rightarrow> u8 list \<Rightarrow> u32 \<Rightarrow> u32 \<Rightarrow> FlowTx \<Rightarrow> (u32 option \<times> FlowTx) option" where
  "scan_retx ring pkt_state base rbase tx =
     (if tx_retx_count tx > 0 then do {
        idx \<leftarrow> vget ring (unat (rbase + tx_retx_head tx));
        let tx' = tx\<lparr>tx_retx_head := (if tx_retx_head tx + 1 = tx_window tx then 0
                       else tx_retx_head tx + 1),
                     tx_retx_count := tx_retx_count tx - 1\<rparr>;
        st \<leftarrow> vget pkt_state (unat (base + idx));
        if st AND kAcked = 0 then Some (Some idx, tx')
        else scan_retx ring pkt_state base rbase tx'
      }
      else Some (None, tx))"
  by pat_completeness auto
termination
  by (relation "measure (\<lambda>(ring, pkt_state, base, rbase, tx). unat (tx_retx_count tx))")
     (auto simp: unat_dec word_neq_0_conv unat_gt_0)

declare scan_retx.simps [simp del]

partial_function (option) try_send_loop :: "flow_id \<Rightarrow> u32 \<Rightarrow> u32 \<Rightarrow> sim \<Rightarrow> sim option" where
  "try_send_loop f base rbase s = do {
     tx \<leftarrow> get_tx f s;
     if tx_in_flight tx < tx_window tx then
       if sim_now s < tx_next_send_ns tx then
         (if \<not> tx_send_scheduled tx then do {
            s \<leftarrow> put_tx f (tx\<lparr>tx_send_scheduled := True\<rparr>) s;
            Some (push_event (ev_inject (tx_next_send_ns tx) f) s)
          }
          else Some s)
       else do {
         (found, tx) \<leftarrow> scan_retx (sim_retx_ring s) (sim_pkt_state s) base rbase tx;
         case found of
           Some idx \<Rightarrow> do {
             s \<leftarrow> put_tx f tx s;
             s \<leftarrow> send_packet f idx s;
             try_send_loop f base rbase s
           }
         | None \<Rightarrow>
             if tx_next_seq tx \<ge> tx_packets_total tx then put_tx f tx s
             else do {
               s \<leftarrow> put_tx f (tx\<lparr>tx_next_seq := tx_next_seq tx + 1\<rparr>) s;
               s \<leftarrow> send_packet f (tx_next_seq tx) s;
               try_send_loop f base rbase s
             }
       }
     else Some s
   }"

declare try_send_loop.simps [code]

definition try_send :: "flow_id \<Rightarrow> sim \<Rightarrow> sim option" where
  "try_send f s = do {
     tx \<leftarrow> get_tx f s;
     if tx_failed tx then Some s
     else do {
       base \<leftarrow> vget (sim_flow_pkt_offset s) (id_index f);
       rbase \<leftarrow> vget (sim_retx_offset s) (id_index f);
       try_send_loop f base rbase s
     }
   }"

definition on_inject :: "event \<Rightarrow> sim \<Rightarrow> sim option" where
  "on_inject e s = do {
     let f = ev_flow e;
     tx \<leftarrow> get_tx f s;
     s \<leftarrow> put_tx f (tx\<lparr>tx_send_scheduled := False\<rparr>) s;
     try_send f s
   }"

definition on_ack :: "flow_id \<Rightarrow> u32 \<Rightarrow> sim \<Rightarrow> sim option" where
  "on_ack f idx s = do {
     k \<leftarrow> pkt_slot f idx s;
     st \<leftarrow> vget (sim_pkt_state s) k;
     if st AND kAcked \<noteq> 0 then Some s
     else do {
       let st = st OR kAcked;
       s \<leftarrow> put_pkt_state k st s;
       tx \<leftarrow> get_tx f s;
       let tx = tx\<lparr>tx_acked_count := tx_acked_count tx + 1\<rparr>;
       s \<leftarrow> (if st AND kInFlight \<noteq> 0 then do {
           s \<leftarrow> put_pkt_state k (st AND NOT kInFlight) s;
           put_tx f (tx\<lparr>tx_in_flight := tx_in_flight tx - 1\<rparr>) s
         } else put_tx f tx s);
       try_send f s
     }
   }"

definition on_timeout :: "event \<Rightarrow> sim \<Rightarrow> sim option" where
  "on_timeout e s = do {
     let f = ev_flow e;
     let idx = ev_packet_index e;
     k \<leftarrow> pkt_slot f idx s;
     st \<leftarrow> vget (sim_pkt_state s) k;
     if st AND kAcked \<noteq> 0 then Some s
     else do {
       attempt \<leftarrow> vget (sim_pkt_attempt s) k;
       if attempt \<noteq> ev_attempt e then Some s
       else do {
         tx \<leftarrow> get_tx f s;
         if tx_failed tx then Some s
         else do {
           (tx, s) \<leftarrow> (if st AND kInFlight \<noteq> 0 then do {
               s \<leftarrow> put_pkt_state k (st AND NOT kInFlight) s;
               Some (tx\<lparr>tx_in_flight := tx_in_flight tx - 1\<rparr>, s)
             } else Some (tx, s));
           if (ucast attempt + 1 :: u32) \<ge> ucast (tc_max_attempts (sim_transport s)) then do {
             s \<leftarrow> put_tx f (tx\<lparr>tx_failed := True\<rparr>) s;
             r \<leftarrow> get_result f s;
             put_result f (r\<lparr>res_failed := True\<rparr>) s
           }
           else do {
             att \<leftarrow> vset (sim_pkt_attempt s) k (attempt + 1);
             let s = s\<lparr>sim_pkt_attempt := att\<rparr>;
             rbase \<leftarrow> vget (sim_retx_offset s) (id_index f);
             let t0 = tx_retx_head tx + tx_retx_count tx;
             let tail = (if t0 \<ge> tx_window tx then t0 - tx_window tx else t0);
             ring \<leftarrow> vset (sim_retx_ring s) (unat (rbase + tail)) idx;
             let s = s\<lparr>sim_retx_ring := ring\<rparr>;
             s \<leftarrow> put_tx f (tx\<lparr>tx_retx_count := tx_retx_count tx + 1\<rparr>) s;
             try_send f s
           }
         }
       }
     }
   }"

section \<open>The receiver\<close>

definition release_flow :: "flow_id \<Rightarrow> sim \<Rightarrow> sim option" where
  "release_flow d s = do {
     r \<leftarrow> get_result d s;
     s \<leftarrow> put_result d (r\<lparr>res_start_ns := sim_now s\<rparr>) s;
     tx \<leftarrow> get_tx d s;
     s \<leftarrow> put_tx d (tx\<lparr>tx_next_send_ns := sim_now s\<rparr>) s;
     Some (push_event (ev_inject (sim_now s) d) s)
   }"

text \<open>The loop index of \<open>complete_flow\<close> runs from \<open>begin\<close> to \<open>end\<close>, both 32-bit words.\<close>

definition complete_flow :: "flow_id \<Rightarrow> sim \<Rightarrow> sim option" where
  "complete_flow f s = do {
     r \<leftarrow> get_result f s;
     s \<leftarrow> put_result f (r\<lparr>res_finish_ns := sim_now s, res_complete := True\<rparr>) s;
     first \<leftarrow> vget (sim_dependents_offset s) (id_index f);
     last \<leftarrow> vget (sim_dependents_offset s) (id_index f + 1);
     fold_opt (\<lambda>i s. do { d \<leftarrow> vget (sim_dependents s) i; release_flow d s })
       [unat first..<unat last] s
   }"

definition on_data_arrival :: "flow_id \<Rightarrow> u32 \<Rightarrow> u16 \<Rightarrow> sim \<Rightarrow> sim option" where
  "on_data_arrival f idx bytes s = do {
     k \<leftarrow> pkt_slot f idx s;
     let s = s\<lparr>sim_stats := (sim_stats s)\<lparr>rs_bytes_delivered :=
            rs_bytes_delivered (sim_stats s) + ucast bytes\<rparr>\<rparr>;
     st \<leftarrow> vget (sim_pkt_state s) k;
     s \<leftarrow> (if st AND kDelivered = 0 then do {
         s \<leftarrow> put_pkt_state k (st OR kDelivered) s;
         r \<leftarrow> get_result f s;
         let r = r\<lparr>res_packets_delivered := res_packets_delivered r + 1,
                   res_delivered_bytes := res_delivered_bytes r + ucast bytes\<rparr>;
         s \<leftarrow> put_result f r s;
         if res_packets_delivered r = res_packets_total r then complete_flow f s else Some s
       } else Some s);
     let ack = (ucast (tc_ack_bytes (sim_transport s)) :: u16);
     let s = s\<lparr>sim_stats := (sim_stats s)\<lparr>rs_ack_bytes_injected :=
            rs_ack_bytes_injected (sim_stats s) + ucast ack\<rparr>\<rparr>;
     fr \<leftarrow> vget (sim_froutes s) (id_index f);
     enqueue (frt_dst_nic fr) \<lparr>pkt_flow = f, pkt_index = idx, pkt_bytes = ack, pkt_kind = Ack,
       pkt_attempt = 0\<rparr> s
   }"

definition on_arrive :: "policy \<Rightarrow> event \<Rightarrow> sim \<Rightarrow> sim option" where
  "on_arrive select e s = do {
     p \<leftarrow> fabric_port (sim_fabric s) (ev_port e);
     let at = port_peer_node p;
     let f = ev_flow e;
     let is_ack = (ev_kind e = Ack);
     nd \<leftarrow> fabric_node (sim_fabric s) at;
     if node_is_host nd then do {
       spec \<leftarrow> vget (sim_specs s) (id_index f);
       if is_ack then do {
         assert_that (at = fs_src spec);
         on_ack f (ev_packet_index e) (s\<lparr>sim_stats := (sim_stats s)\<lparr>rs_ack_bytes_delivered :=
           rs_ack_bytes_delivered (sim_stats s) + ucast (ev_bytes e)\<rparr>\<rparr>)
       }
       else do {
         assert_that (at = fs_dst spec);
         on_data_arrival f (ev_packet_index e) (ev_bytes e) s
       }
     }
     else do {
       fr \<leftarrow> vget (sim_froutes s) (id_index f);
       let dst_host = (if is_ack then frt_src_host fr else frt_dst_host fr);
       let key = (if is_ack then frt_rev_key fr else frt_fwd_key fr);
       cand \<leftarrow> candidates (sim_routes s) at dst_host;
       assert_that (cand \<noteq> []);
       out \<leftarrow> select at key cand (sim_now s);
       enqueue out \<lparr>pkt_flow = f, pkt_index = ev_packet_index e, pkt_bytes = ev_bytes e,
         pkt_kind = ev_kind e, pkt_attempt = 0\<rparr> s
     }
   }"

section \<open>The run\<close>

definition handle_event :: "policy \<Rightarrow> event \<Rightarrow> sim \<Rightarrow> sim option" where
  "handle_event select e s = (case ev_type e of
     Inject \<Rightarrow> on_inject e s
   | TxComplete \<Rightarrow> on_tx_complete e s
   | Arrive \<Rightarrow> on_arrive select e s
   | Timeout \<Rightarrow> on_timeout e s)"

text \<open>One turn of the hot loop.\<close>

definition run_step :: "policy \<Rightarrow> sim \<Rightarrow> sim option" where
  "run_step select s = do {
     (e, q) \<leftarrow> eq_pop (sim_queue s);
     assert_that (ev_time e \<ge> sim_now s);
     handle_event select e (s\<lparr>sim_queue := q, sim_now := ev_time e,
       sim_stats := (sim_stats s)\<lparr>rs_events_processed := rs_events_processed (sim_stats s) + 1\<rparr>\<rparr>)
   }"

partial_function (option) run_loop :: "policy \<Rightarrow> sim \<Rightarrow> sim option" where
  "run_loop select s =
     (if eq_empty (sim_queue s) then Some s
      else do { s \<leftarrow> run_step select s; run_loop select s })"

declare run_loop.simps [code]

definition run_sim :: "policy \<Rightarrow> sim \<Rightarrow> (RunStats \<times> sim) option" where
  "run_sim select s = do {
     s \<leftarrow> begin_run s;
     s \<leftarrow> run_loop select s;
     let s = end_run s;
     Some (sim_stats s, s)
   }"

definition run_static :: "sim \<Rightarrow> (RunStats \<times> sim) option" where
  "run_static s = run_sim static_first_select s"

section \<open>The digest\<close>

definition digest_result :: "FlowResult \<Rightarrow> u64 \<Rightarrow> u64" where
  "digest_result r h =
     (let packed = push_bit 32 (ucast (res_packets_delivered r)) OR ucast (res_packets_dropped r);
          flags = push_bit 2 (ucast (res_packets_retransmitted r))
            OR push_bit 1 (of_bool (res_failed r)) OR of_bool (res_complete r);
          h = mix64 (h XOR res_start_ns r);
          h = mix64 (h XOR res_finish_ns r);
          h = mix64 (h XOR res_delivered_bytes r);
          h = mix64 (h XOR packed);
          h = mix64 (h XOR flags) in
      h)"

definition result_digest :: "sim \<Rightarrow> u64" where
  "result_digest s = fold digest_result (sim_results s) 0xCBF29CE484222325"

end
