(* ===== verification/Sim_Network.thy ===== *)
theory Sim_Network
  imports Simulation
begin

text \<open>
  The network layer of \<^verbatim>\<open>core/simulation.cpp\<close> seen from above: the packets the network
  carries as one multiset, whether they wait in a ring, are being clocked out or fly on
  a wire, and the pending events by type.  \<open>enqueue\<close>, \<open>start_tx\<close> and \<open>on_tx_complete\<close>
  are total on a consistent state and are described by what they do to that multiset
  and to the byte ledgers.
\<close>

section \<open>Pending events by type\<close>

abbreviation events :: "sim \<Rightarrow> event multiset" where
  "events s \<equiv> eq_events (sim_queue s)"

definition ev_packet :: "event \<Rightarrow> packet" where
  "ev_packet e = \<lparr>pkt_flow = ev_flow e, pkt_index = ev_packet_index e, pkt_bytes = ev_bytes e,
     pkt_kind = ev_kind e, pkt_attempt = 0\<rparr>"

definition plain :: "packet \<Rightarrow> packet" where "plain k = k\<lparr>pkt_attempt := 0\<rparr>"

lemma plain_simps [simp]:
  "pkt_flow (plain k) = pkt_flow k" "pkt_index (plain k) = pkt_index k"
  "pkt_bytes (plain k) = pkt_bytes k" "pkt_kind (plain k) = pkt_kind k" "plain (plain k) = plain k"
  by (simp_all add: plain_def)

lemma ev_packet_arrive [simp]: "ev_packet (ev_arrive t p k) = plain k"
  by (simp add: ev_packet_def plain_def)

lemma ev_packet_seq [simp]: "ev_packet (e\<lparr>ev_seq := n\<rparr>) = ev_packet e"
  by (simp add: ev_packet_def)

lemma eq_stamp_simps [simp]:
  "ev_time (eq_stamp q e) = ev_time e" "ev_type (eq_stamp q e) = ev_type e"
  "ev_port (eq_stamp q e) = ev_port e" "ev_flow (eq_stamp q e) = ev_flow e"
  "ev_packet_index (eq_stamp q e) = ev_packet_index e" "ev_attempt (eq_stamp q e) = ev_attempt e"
  "ev_packet (eq_stamp q e) = ev_packet e"
  by (simp_all add: eq_stamp_def)

datatype hop = AtPort nat | OnWire nat

definition arrivals :: "event multiset \<Rightarrow> (hop \<times> packet) multiset" where
  "arrivals E = image_mset (\<lambda>e. (OnWire (id_index (ev_port e)), ev_packet e))
     (filter_mset (\<lambda>e. ev_type e = Arrive) E)"

definition timers :: "event multiset \<Rightarrow> (nat \<times> u32 \<times> u8) multiset" where
  "timers E = image_mset (\<lambda>e. (id_index (ev_flow e), ev_packet_index e, ev_attempt e))
     (filter_mset (\<lambda>e. ev_type e = Timeout) E)"

definition injects :: "event multiset \<Rightarrow> (nat \<times> Nanos) multiset" where
  "injects E = image_mset (\<lambda>e. (id_index (ev_flow e), ev_time e))
     (filter_mset (\<lambda>e. ev_type e = Inject) E)"

definition tx_pending :: "event multiset \<Rightarrow> nat multiset" where
  "tx_pending E = image_mset (\<lambda>e. id_index (ev_port e)) (filter_mset (\<lambda>e. ev_type e = TxComplete) E)"

lemmas event_views = arrivals_def timers_def injects_def tx_pending_def

lemma views_add:
  "arrivals (add_mset e E) = (if ev_type e = Arrive
     then add_mset (OnWire (id_index (ev_port e)), ev_packet e) (arrivals E) else arrivals E)"
  "timers (add_mset e E) = (if ev_type e = Timeout
     then add_mset (id_index (ev_flow e), ev_packet_index e, ev_attempt e) (timers E) else timers E)"
  "injects (add_mset e E) = (if ev_type e = Inject
     then add_mset (id_index (ev_flow e), ev_time e) (injects E) else injects E)"
  "tx_pending (add_mset e E) = (if ev_type e = TxComplete
     then add_mset (id_index (ev_port e)) (tx_pending E) else tx_pending E)"
  by (simp_all add: event_views)

lemma views_empty [simp]:
  "arrivals {#} = {#}" "timers {#} = {#}" "injects {#} = {#}" "tx_pending {#} = {#}"
  by (simp_all add: event_views)

lemma push_event_sim [simp]:
  "sim_fabric (push_event e s) = sim_fabric s" "sim_routes (push_event e s) = sim_routes s"
  "sim_transport (push_event e s) = sim_transport s" "sim_specs (push_event e s) = sim_specs s"
  "sim_froutes (push_event e s) = sim_froutes s" "sim_tx (push_event e s) = sim_tx s"
  "sim_results (push_event e s) = sim_results s"
  "sim_flow_pkt_offset (push_event e s) = sim_flow_pkt_offset s"
  "sim_pkt_state (push_event e s) = sim_pkt_state s"
  "sim_pkt_attempt (push_event e s) = sim_pkt_attempt s"
  "sim_retx_offset (push_event e s) = sim_retx_offset s"
  "sim_retx_ring (push_event e s) = sim_retx_ring s"
  "sim_dependents_offset (push_event e s) = sim_dependents_offset s"
  "sim_dependents (push_event e s) = sim_dependents s"
  "sim_now (push_event e s) = sim_now s" "sim_stats (push_event e s) = sim_stats s"
  "sim_queue (push_event e s) = eq_push e (sim_queue s)"
  by (simp_all add: push_event_def)

section \<open>The packets in the network\<close>

definition port_load :: "nat \<Rightarrow> port \<Rightarrow> (hop \<times> packet) multiset" where
  "port_load i p = image_mset (\<lambda>k. (AtPort i, plain k))
     (mset (ring_list (port_queue p)) + (if port_busy p then {#port_in_flight p#} else {#}))"

definition fabric_load :: "fabric \<Rightarrow> (hop \<times> packet) multiset" where
  "fabric_load f = (\<Sum>i<port_count f. port_load i (fab_ports f ! i))"

definition carried :: "sim \<Rightarrow> (hop \<times> packet) multiset" where
  "carried s = fabric_load (sim_fabric s) + arrivals (events s)"

abbreviation put_fab :: "nat \<Rightarrow> port \<Rightarrow> fabric \<Rightarrow> fabric" where
  "put_fab i p f \<equiv> f\<lparr>fab_ports := (fab_ports f)[i := p]\<rparr>"

lemma port_count_put [simp]: "port_count (put_fab i p f) = port_count f"
  by (simp add: port_count_def)

lemma fabric_load_update:
  assumes "i < port_count f"
  shows "fabric_load (put_fab i p f) + port_load i (fab_ports f ! i) = fabric_load f + port_load i p"
proof -
  have s: "(\<Sum>j<port_count f. g j) = g i + (\<Sum>j\<in>{..<port_count f} - {i}. g j)"
    for g :: "nat \<Rightarrow> (hop \<times> packet) multiset"
    using assms by (simp add: sum.remove)
  have "(\<Sum>j\<in>{..<port_count f} - {i}. port_load j ((fab_ports f)[i := p] ! j))
      = (\<Sum>j\<in>{..<port_count f} - {i}. port_load j (fab_ports f ! j))"
    by (rule sum.cong) auto
  moreover have "fab_ports (put_fab i p f) ! i = p"
    using assms by (simp add: port_count_def)
  ultimately show ?thesis
    using s[of "\<lambda>j. port_load j (fab_ports (put_fab i p f) ! j)"] s[of "\<lambda>j. port_load j (fab_ports f ! j)"]
    unfolding fabric_load_def port_count_put by simp
qed

lemma fabric_load_add:
  assumes "i < port_count f" "port_load i p = port_load i (fab_ports f ! i) + M"
  shows "fabric_load (put_fab i p f) = fabric_load f + M"
  using fabric_load_update[OF assms(1), of p] assms(2) by simp

lemma fabric_load_same:
  assumes "i < port_count f" "port_load i p = port_load i (fab_ports f ! i)"
  shows "fabric_load (put_fab i p f) = fabric_load f"
  using fabric_load_update[OF assms(1), of p] assms(2) by simp

section \<open>The fixed part of the fabric\<close>

lemma reset_state_simps [simp]:
  "fab_nodes (reset_state f) = fab_nodes f" "fab_port_ids (reset_state f) = fab_port_ids f"
  "fab_hosts (reset_state f) = fab_hosts f" "fab_host_index (reset_state f) = fab_host_index f"
  "fab_ports (reset_state f) = map reset_port (fab_ports f)"
  "node_count (reset_state f) = node_count f" "port_count (reset_state f) = port_count f"
  "host_count (reset_state f) = host_count f"
  by (simp_all add: reset_state_def node_count_def port_count_def host_count_def)

lemma reset_port_simps [simp]:
  "port_owner (reset_port p) = port_owner p" "port_peer_node (reset_port p) = port_peer_node p"
  "port_rate (reset_port p) = port_rate p" "port_prop_delay_ns (reset_port p) = port_prop_delay_ns p"
  "port_peer_port (reset_port p) = port_peer_port p"
  by (simp_all add: reset_port_def)

lemma ring_capacity_init [simp]: "ring_capacity (ring_init n) = n"
  by (simp add: ring_init_def)

lemma reset_port_idem [simp]: "reset_port (reset_port p) = reset_port p"
  by (simp add: reset_port_def)

lemma reset_state_idem [simp]: "reset_state (reset_state f) = reset_state f"
  by (simp add: reset_state_def comp_def)

lemma reset_state_put:
  assumes "i < port_count f" "reset_port p = reset_port (fab_ports f ! i)"
  shows "reset_state (put_fab i p f) = reset_state f"
proof -
  have "(map reset_port (fab_ports f))[i := reset_port (fab_ports f ! i)] = map reset_port (fab_ports f)"
    using assms(1) by (simp flip: map_update)
  then show ?thesis using assms(2) by (simp add: reset_state_def map_update)
qed

text \<open>Reading the fixed fields of a port through the reset fabric.\<close>

lemma frozen_port:
  assumes "reset_state f = F"
  shows "port_count f = port_count F" "node_count f = node_count F" "fab_nodes f = fab_nodes F"
    "fab_port_ids f = fab_port_ids F" "fab_hosts f = fab_hosts F" "fab_host_index f = fab_host_index F"
    "i < port_count F \<Longrightarrow> port_owner (fab_ports f ! i) = port_owner (fab_ports F ! i)"
    "i < port_count F \<Longrightarrow> port_peer_node (fab_ports f ! i) = port_peer_node (fab_ports F ! i)"
    "i < port_count F \<Longrightarrow> port_rate (fab_ports f ! i) = port_rate (fab_ports F ! i)"
    "i < port_count F \<Longrightarrow> port_prop_delay_ns (fab_ports f ! i) = port_prop_delay_ns (fab_ports F ! i)"
  unfolding assms[symmetric] by (simp_all add: port_count_def)

section \<open>Consistency of ports and events\<close>

definition port_ok :: "port \<Rightarrow> bool" where
  "port_ok p \<longleftrightarrow> ring_inv (port_queue p) \<and> (\<not> port_busy p \<longrightarrow> ring_list (port_queue p) = [])"

text \<open>
  Every busy port has exactly one completion pending and no other port has one.
  \<open>J\<close> is the pending multiset, a parameter because \<open>on_tx_complete\<close> runs after its own
  event has been popped.
\<close>

definition ports_ok :: "fabric \<Rightarrow> nat multiset \<Rightarrow> bool" where
  "ports_ok f J \<longleftrightarrow> (\<forall>i < port_count f. port_ok (fab_ports f ! i)
       \<and> count J i = of_bool (port_busy (fab_ports f ! i)))
     \<and> (\<forall>i \<in># J. i < port_count f)"

definition rates_ok :: "fabric \<Rightarrow> bool" where
  "rates_ok f \<longleftrightarrow> (\<forall>i < port_count f. port_rate (fab_ports f ! i) \<noteq> 0)"

definition net_inv :: "sim \<Rightarrow> bool" where
  "net_inv s \<longleftrightarrow> eq_inv (sim_queue s) \<and> ports_ok (sim_fabric s) (tx_pending (events s))
     \<and> rates_ok (sim_fabric s)"

lemma ports_okD:
  assumes "ports_ok f J" "i < port_count f"
  shows "ring_inv (port_queue (fab_ports f ! i))" "\<not> port_busy (fab_ports f ! i) \<Longrightarrow> ring_list (port_queue (fab_ports f ! i)) = []"
    "count J i = of_bool (port_busy (fab_ports f ! i))"
  using assms by (auto simp: ports_ok_def port_ok_def)

lemma ports_ok_put:
  assumes "ports_ok f J" "i < port_count f" "port_ok p" "\<forall>j. j \<noteq> i \<longrightarrow> count J' j = count J j"
    "count J' i = of_bool (port_busy p)"
  shows "ports_ok (put_fab i p f) J'"
proof -
  have "j < port_count f" if "j \<in># J'" for j
    using assms that by (cases "j = i") (auto simp: ports_ok_def simp flip: count_greater_zero_iff)
  moreover have "count J' j = of_bool (port_busy ((fab_ports f)[i := p] ! j)) \<and> port_ok ((fab_ports f)[i := p] ! j)"
    if "j < port_count f" for j
    using assms that by (cases "j = i") (auto simp: ports_ok_def port_count_def)
  ultimately show ?thesis by (auto simp: ports_ok_def)
qed

lemma rates_ok_put:
  assumes "rates_ok f" "port_rate p = port_rate (fab_ports f ! i)"
  shows "rates_ok (put_fab i p f)"
proof -
  have "port_rate ((fab_ports f)[i := p] ! j) \<noteq> 0" if "j < port_count f" for j
    using assms that by (cases "j = i") (simp_all add: rates_ok_def port_count_def)
  then show ?thesis by (simp add: rates_ok_def)
qed

section \<open>Ledgers\<close>

definition bytes_in :: "PacketKind \<Rightarrow> (hop \<times> packet) multiset \<Rightarrow> u64" where
  "bytes_in kd M = (\<Sum>(h, k)\<in>#M. if pkt_kind k = kd then ucast (pkt_bytes k) else 0)"

lemma bytes_in_simps [simp]:
  "bytes_in kd {#} = 0"
  "bytes_in kd (add_mset (h, k) M) = (if pkt_kind k = kd then ucast (pkt_bytes k) else 0) + bytes_in kd M"
  "bytes_in kd (M + N) = bytes_in kd M + bytes_in kd N"
  by (simp_all add: bytes_in_def)

fun injected :: "PacketKind \<Rightarrow> RunStats \<Rightarrow> u64" where
  "injected Data st = rs_bytes_injected st" | "injected Ack st = rs_ack_bytes_injected st"

fun delivered :: "PacketKind \<Rightarrow> RunStats \<Rightarrow> u64" where
  "delivered Data st = rs_bytes_delivered st" | "delivered Ack st = rs_ack_bytes_delivered st"

fun dropped :: "PacketKind \<Rightarrow> RunStats \<Rightarrow> u64" where
  "dropped Data st = rs_bytes_dropped st" | "dropped Ack st = rs_ack_bytes_dropped st"

lemma kind_cases: "kd \<noteq> Data \<Longrightarrow> kd = Ack" "kd \<noteq> Ack \<Longrightarrow> kd = Data"
  by (cases kd; simp)+

lemma ledger_eqs:
  "injected kd st = (if kd = Data then rs_bytes_injected st else rs_ack_bytes_injected st)"
  "delivered kd st = (if kd = Data then rs_bytes_delivered st else rs_ack_bytes_delivered st)"
  "dropped kd st = (if kd = Data then rs_bytes_dropped st else rs_ack_bytes_dropped st)"
  by (cases kd; simp)+

text \<open>Bytes that were injected and are neither delivered, nor dropped, nor in the network: none.\<close>

definition unaccounted :: "PacketKind \<Rightarrow> sim \<Rightarrow> u64" where
  "unaccounted kd s = injected kd (sim_stats s) - delivered kd (sim_stats s)
     - dropped kd (sim_stats s) - bytes_in kd (carried s)"

section \<open>What a network operation leaves alone\<close>

definition res_core :: "FlowResult \<Rightarrow> FlowResult" where
  "res_core r = r\<lparr>res_packets_dropped := 0, res_packets_retransmitted := 0\<rparr>"

definition net_frame :: "sim \<Rightarrow> sim \<Rightarrow> bool" where
  "net_frame s s' \<longleftrightarrow> (\<exists>fab q st res.
     s' = s\<lparr>sim_fabric := fab, sim_queue := q, sim_stats := st, sim_results := res\<rparr>
     \<and> reset_state fab = reset_state (sim_fabric s)
     \<and> timers (eq_events q) = timers (events s) \<and> injects (eq_events q) = injects (events s)
     \<and> map res_core res = map res_core (sim_results s)
     \<and> rs_events_processed st = rs_events_processed (sim_stats s))"

lemma net_frameI:
  assumes "s' = s\<lparr>sim_fabric := fab, sim_queue := q, sim_stats := st, sim_results := res\<rparr>"
    "reset_state fab = reset_state (sim_fabric s)"
    "timers (eq_events q) = timers (events s)" "injects (eq_events q) = injects (events s)"
    "map res_core res = map res_core (sim_results s)"
    "rs_events_processed st = rs_events_processed (sim_stats s)"
  shows "net_frame s s'"
  unfolding net_frame_def using assms by blast

lemma net_frameD:
  assumes "net_frame s s'"
  shows "reset_state (sim_fabric s') = reset_state (sim_fabric s)" "sim_routes s' = sim_routes s"
    "sim_transport s' = sim_transport s" "sim_specs s' = sim_specs s" "sim_froutes s' = sim_froutes s"
    "sim_tx s' = sim_tx s" "map res_core (sim_results s') = map res_core (sim_results s)"
    "sim_flow_pkt_offset s' = sim_flow_pkt_offset s" "sim_pkt_state s' = sim_pkt_state s"
    "sim_pkt_attempt s' = sim_pkt_attempt s" "sim_retx_offset s' = sim_retx_offset s"
    "sim_retx_ring s' = sim_retx_ring s" "sim_dependents_offset s' = sim_dependents_offset s"
    "sim_dependents s' = sim_dependents s" "sim_now s' = sim_now s"
    "timers (events s') = timers (events s)" "injects (events s') = injects (events s)"
    "rs_events_processed (sim_stats s') = rs_events_processed (sim_stats s)"
  using assms unfolding net_frame_def by auto

lemma map_update_same:
  "i < length xs \<Longrightarrow> f x = f (xs ! i) \<Longrightarrow> map f (xs[i := x]) = map f xs"
  by (metis list_update_id map_update)

lemma put_port_Some:
  "id_index pid < port_count (sim_fabric s) \<Longrightarrow>
   put_port pid p s = Some (s\<lparr>sim_fabric := put_fab (id_index pid) p (sim_fabric s)\<rparr>)"
  by (simp add: put_port_def set_port_def port_count_def fabric_simps)

lemma fabric_port_Some:
  "id_index pid < port_count f \<Longrightarrow> fabric_port f pid = Some (fab_ports f ! id_index pid)"
  by (simp add: fabric_port_def port_count_def fabric_simps)

lemma put_fab_twice [simp]: "put_fab i p (put_fab i q f) = put_fab i p f"
  by simp

lemma fab_ports_put_nth [simp]: "i < port_count f \<Longrightarrow> (fab_ports f)[i := p] ! i = p"
  by (simp add: port_count_def)

section \<open>Transmission\<close>

lemma start_tx_spec:
  assumes i: "id_index pid < port_count (sim_fabric s)"
    and p: "p = fab_ports (sim_fabric s) ! id_index pid"
    and inv: "ring_inv (port_queue p)" "ring_list (port_queue p) = k # ks" and rate: "port_rate p \<noteq> 0"
  shows "\<exists>ring ser. ring_inv ring \<and> ring_list ring = ks \<and> ring_capacity ring = ring_capacity (port_queue p)
    \<and> serialization_ns (ucast (pkt_bytes k)) (port_rate p) = Some ser
    \<and> start_tx pid s = Some (push_event (ev_tx_complete (sim_now s + ser) pid)
        (s\<lparr>sim_fabric := put_fab (id_index pid)
           (p\<lparr>port_in_flight := k, port_queue := ring, port_busy := True\<rparr>) (sim_fabric s)\<rparr>))"
proof -
  obtain ring where r: "ring_pop (port_queue p) = Some (k, ring)" "ring_inv ring" "ring_list ring = ks"
    "ring_capacity ring = ring_capacity (port_queue p)"
    using ring.pop_cons[OF inv] by blast
  obtain ser where ser: "serialization_ns (ucast (pkt_bytes k)) (port_rate p) = Some ser"
    using rate by (simp add: serialization_ns_def)
  have "start_tx pid s = Some (push_event (ev_tx_complete (sim_now s + ser) pid)
        (s\<lparr>sim_fabric := put_fab (id_index pid)
           (p\<lparr>port_in_flight := k, port_queue := ring, port_busy := True\<rparr>) (sim_fabric s)\<rparr>))"
    using i p r(1) ser by (simp add: start_tx_def fabric_port_Some put_port_Some)
  then show ?thesis using r ser by blast
qed

text \<open>A packet enters a port: dropped at the tail, queued behind others, or sent at once.\<close>

lemma enqueue_cases [consumes 4, case_names drop wait send]:
  assumes net: "net_inv s" and i: "id_index pid < port_count (sim_fabric s)"
    and flow: "id_index (pkt_flow k) < length (sim_results s)"
    and p: "p = fab_ports (sim_fabric s) ! id_index pid"
  obtains
    (drop) st res where "enqueue pid k s = Some (s\<lparr>sim_fabric := put_fab (id_index pid)
          (p\<lparr>port_packets_dropped := port_packets_dropped p + 1,
             port_bytes_dropped := port_bytes_dropped p + ucast (pkt_bytes k)\<rparr>) (sim_fabric s),
          sim_stats := st, sim_results := res\<rparr>)"
      "\<And>kd. injected kd st = injected kd (sim_stats s)" "\<And>kd. delivered kd st = delivered kd (sim_stats s)"
      "\<And>kd. dropped kd st = dropped kd (sim_stats s) + (if pkt_kind k = kd then ucast (pkt_bytes k) else 0)"
      "rs_events_processed st = rs_events_processed (sim_stats s)"
      "map res_core res = map res_core (sim_results s)"
      "length (ring_list (port_queue p)) = ring_capacity (port_queue p)"
  | (wait) ring where "enqueue pid k s = Some (s\<lparr>sim_fabric := put_fab (id_index pid)
          (p\<lparr>port_queue := ring\<rparr>) (sim_fabric s)\<rparr>)" "port_busy p"
      "ring_inv ring" "ring_list ring = ring_list (port_queue p) @ [k]"
      "ring_capacity ring = ring_capacity (port_queue p)"
  | (send) ring ser where "enqueue pid k s = Some (push_event (ev_tx_complete (sim_now s + ser) pid)
          (s\<lparr>sim_fabric := put_fab (id_index pid)
             (p\<lparr>port_in_flight := k, port_queue := ring, port_busy := True\<rparr>) (sim_fabric s)\<rparr>))"
      "\<not> port_busy p" "ring_inv ring" "ring_list ring = []" "ring_list (port_queue p) = []"
      "ring_capacity ring = ring_capacity (port_queue p)"
      "serialization_ns (ucast (pkt_bytes k)) (port_rate p) = Some ser"
proof -
  have ri: "ring_inv (port_queue p)" and idle: "\<not> port_busy p \<Longrightarrow> ring_list (port_queue p) = []"
    and rate: "port_rate p \<noteq> 0"
    using net i unfolding p net_inv_def by (auto dest: ports_okD simp: rates_ok_def)
  note ev = fabric_port_Some[OF i, folded p]
  show thesis
  proof (rule ring.push_cases[OF ri, of k])
    assume full: "length (ring_list (port_queue p)) = ring_capacity (port_queue p)"
      "ring_try_push k (port_queue p) = Some (False, port_queue p)"
    let ?r = "sim_results s ! id_index (pkt_flow k)"
    show thesis
    proof (cases "pkt_kind k")
      case Data
      have "map res_core ((sim_results s)[id_index (pkt_flow k) :=
          ?r\<lparr>res_packets_dropped := res_packets_dropped ?r + 1\<rparr>]) = map res_core (sim_results s)"
        by (rule map_update_same[OF flow]) (simp add: res_core_def)
      then show thesis
        using Data full flow
        by (intro drop[where st = "(sim_stats s)\<lparr>rs_bytes_dropped := rs_bytes_dropped (sim_stats s) + ucast (pkt_bytes k)\<rparr>"
              and res = "(sim_results s)[id_index (pkt_flow k) := ?r\<lparr>res_packets_dropped := res_packets_dropped ?r + 1\<rparr>]"])
           (auto simp: enqueue_def ev put_port_Some[OF i] get_result_def put_result_def fabric_simps
              ledger_eqs)
    next
      case Ack
      then show thesis
        using full
        by (intro drop[where st = "(sim_stats s)\<lparr>rs_ack_bytes_dropped := rs_ack_bytes_dropped (sim_stats s) + ucast (pkt_bytes k)\<rparr>"
              and res = "sim_results s"])
           (auto simp: enqueue_def ev put_port_Some[OF i] ledger_eqs dest: kind_cases)
    qed
  next
    fix ring assume room: "length (ring_list (port_queue p)) < ring_capacity (port_queue p)"
      "ring_try_push k (port_queue p) = Some (True, ring)" "ring_inv ring"
      "ring_list ring = ring_list (port_queue p) @ [k]"
      "ring_capacity ring = ring_capacity (port_queue p)"
    show thesis
    proof (cases "port_busy p")
      case True
      then show thesis using room by (intro wait[of ring]) (simp_all add: enqueue_def ev put_port_Some[OF i])
    next
      case False
      let ?s = "s\<lparr>sim_fabric := put_fab (id_index pid) (p\<lparr>port_queue := ring\<rparr>) (sim_fabric s)\<rparr>"
      have enq: "enqueue pid k s = start_tx pid ?s"
        using False room by (simp add: enqueue_def ev put_port_Some[OF i])
      obtain ring2 ser where st: "ring_inv ring2" "ring_list ring2 = []" "ring_capacity ring2 = ring_capacity ring"
        "serialization_ns (ucast (pkt_bytes k)) (port_rate p) = Some ser"
        "start_tx pid ?s = Some (push_event (ev_tx_complete (sim_now ?s + ser) pid)
          (?s\<lparr>sim_fabric := put_fab (id_index pid)
           (p\<lparr>port_queue := ring\<rparr>\<lparr>port_in_flight := k, port_queue := ring2, port_busy := True\<rparr>) (sim_fabric ?s)\<rparr>))"
        using start_tx_spec[of pid ?s "p\<lparr>port_queue := ring\<rparr>" k "[]"] i room rate idle[OF False] by auto
      show thesis
        by (rule send[of ser ring2]) (use st enq room False idle in simp_all)
    qed
  qed
qed

section \<open>Effects on the carried packets\<close>

text \<open>
  All pending events lie between now and a horizon; a delay bound \<open>D\<close> covers every
  serialisation and propagation of the fabric.
\<close>

definition delays_ok :: "fabric \<Rightarrow> nat \<Rightarrow> bool" where
  "delays_ok f D \<longleftrightarrow> (\<forall>i < port_count f. unat (port_prop_delay_ns (fab_ports f ! i)) \<le> D
     \<and> (\<forall>b t. serialization_ns (ucast (b :: u16)) (port_rate (fab_ports f ! i)) = Some t \<longrightarrow> unat t \<le> D))"

definition timed :: "sim \<Rightarrow> nat \<Rightarrow> bool" where
  "timed s H \<longleftrightarrow> (\<forall>e \<in># events s. sim_now s \<le> ev_time e \<and> unat (ev_time e) \<le> H)"

lemma later_time:
  assumes "unat now + D \<le> H" "H < 2 ^ 64" "unat d \<le> D"
  shows "(now :: u64) \<le> now + d" "unat (now + d) \<le> H"
proof -
  have "unat (now + d) = unat now + unat d"
    by (rule unat_add_small) (use assms in simp)
  then show "now \<le> now + d" "unat (now + d) \<le> H"
    using assms by (simp_all add: word_le_nat_alt)
qed

lemma timed_push:
  assumes "eq_inv (sim_queue s)" "timed s H" "sim_now s \<le> ev_time e" "unat (ev_time e) \<le> H"
  shows "timed (push_event e s) H"
  using assms evq.push_items[of "sim_queue s" e] by (auto simp: timed_def)

lemma net_inv_fabric_push:
  assumes "eq_inv q" "ports_ok f (tx_pending (eq_events (eq_push e q)))" "rates_ok f"
  shows "eq_inv (eq_push e q)" "ports_ok f (tx_pending (eq_events (eq_push e q)))" "rates_ok f"
  using assms evq.push_invar by auto

lemma events_push [simp]:
  "eq_inv (sim_queue s) \<Longrightarrow> events (push_event e s) = add_mset (eq_stamp (sim_queue s) e) (events s)"
  by (simp add: evq.push_items)

lemma enqueue_effect:
  assumes net: "net_inv s" and i: "id_index pid < port_count (sim_fabric s)"
    and flow: "id_index (pkt_flow k) < length (sim_results s)"
  obtains s' where "enqueue pid k s = Some s'" "net_inv s'" "net_frame s s'"
    "carried s' \<subseteq># add_mset (AtPort (id_index pid), plain k) (carried s)"
    "\<And>kd. unaccounted kd s' = unaccounted kd s - (if pkt_kind k = kd then ucast (pkt_bytes k) else 0)"
    "\<And>kd. injected kd (sim_stats s') = injected kd (sim_stats s)"
    "\<And>D H. delays_ok (sim_fabric s) D \<Longrightarrow> unat (sim_now s) + D \<le> H \<Longrightarrow> H < 2 ^ 64 \<Longrightarrow>
       timed s H \<Longrightarrow> timed s' H"
proof -
  let ?i = "id_index pid" and ?f = "sim_fabric s"
  define p where "p = fab_ports ?f ! ?i"
  have q: "eq_inv (sim_queue s)" and po: "ports_ok ?f (tx_pending (events s))" and ra: "rates_ok ?f"
    using net by (auto simp: net_inv_def)
  have pok: "port_ok p" and cnt: "count (tx_pending (events s)) ?i = of_bool (port_busy p)"
    using po i unfolding p_def ports_ok_def by auto
  from net i flow p_def show thesis
  proof (cases rule: enqueue_cases)
    case (drop st res)
    let ?p = "p\<lparr>port_packets_dropped := port_packets_dropped p + 1,
             port_bytes_dropped := port_bytes_dropped p + ucast (pkt_bytes k)\<rparr>"
    let ?s = "s\<lparr>sim_fabric := put_fab ?i ?p ?f, sim_stats := st, sim_results := res\<rparr>"
    have c: "carried ?s = carried s"
      using fabric_load_same[OF i, of ?p] unfolding carried_def by (simp add: port_load_def p_def)
    have "net_inv ?s"
      using q ports_ok_put[OF po i, of ?p "tx_pending (events s)"] pok cnt rates_ok_put[OF ra, of ?p ?i]
      by (simp add: net_inv_def port_ok_def p_def)
    moreover have "net_frame s ?s"
      by (rule net_frameI[where fab = "put_fab ?i ?p ?f" and q = "sim_queue s" and st = st and res = res])
         (use drop(5,6) i in \<open>simp_all add: reset_state_put reset_port_def p_def\<close>)
    ultimately show thesis
      using drop by (intro that[of ?s]) (auto simp: c unaccounted_def timed_def)
  next
    case (wait ring)
    let ?p = "p\<lparr>port_queue := ring\<rparr>"
    let ?s = "s\<lparr>sim_fabric := put_fab ?i ?p ?f\<rparr>"
    have c: "carried ?s = add_mset (AtPort ?i, plain k) (carried s)"
      using fabric_load_add[OF i, of ?p "{#(AtPort ?i, plain k)#}"] wait(4) unfolding carried_def
      by (simp add: port_load_def p_def)
    have "net_inv ?s"
      using q ports_ok_put[OF po i, of ?p "tx_pending (events s)"] wait(2,3) cnt rates_ok_put[OF ra, of ?p ?i]
      by (simp add: net_inv_def port_ok_def p_def)
    moreover have "net_frame s ?s"
      by (rule net_frameI[where fab = "put_fab ?i ?p ?f" and q = "sim_queue s" and st = "sim_stats s"
            and res = "sim_results s"])
         (use wait(5) i in \<open>simp_all add: reset_state_put reset_port_def p_def\<close>)
    ultimately show thesis
      using wait(1) by (intro that[of ?s]) (auto simp: c unaccounted_def timed_def)
  next
    case (send ring ser)
    let ?p = "p\<lparr>port_in_flight := k, port_queue := ring, port_busy := True\<rparr>"
    let ?e = "ev_tx_complete (sim_now s + ser) pid"
    let ?s = "push_event ?e (s\<lparr>sim_fabric := put_fab ?i ?p ?f\<rparr>)"
    have E: "events ?s = add_mset (eq_stamp (sim_queue s) ?e) (events s)"
      using q by (simp add: evq.push_items)
    have c: "carried ?s = add_mset (AtPort ?i, plain k) (carried s)"
      using fabric_load_add[OF i, of ?p "{#(AtPort ?i, plain k)#}"] send(2,4,5) unfolding carried_def E
      by (simp add: port_load_def p_def views_add)
    have "ports_ok (put_fab ?i ?p ?f) (add_mset ?i (tx_pending (events s)))"
      by (rule ports_ok_put[OF po i]) (use send(2,3) cnt in \<open>auto simp: port_ok_def\<close>)
    then have "net_inv ?s"
      using q rates_ok_put[OF ra, of ?p ?i] by (simp add: net_inv_def evq.push_invar evq.push_items views_add p_def)
    moreover have "net_frame s ?s"
      by (rule net_frameI[where fab = "put_fab ?i ?p ?f" and q = "eq_push ?e (sim_queue s)" and st = "sim_stats s"
            and res = "sim_results s"])
         (use send(6) i q in \<open>simp_all add: reset_state_put reset_port_def p_def evq.push_items views_add push_event_def\<close>)
    moreover have "timed ?s H" if "delays_ok ?f D" "unat (sim_now s) + D \<le> H" "H < 2 ^ 64" "timed s H" for D H
    proof -
      have "unat ser \<le> D" using that(1) i send(7) unfolding delays_ok_def p_def by blast
      then have "sim_now s \<le> sim_now s + ser" "unat (sim_now s + ser) \<le> H"
        using later_time[OF that(2,3)] by auto
      then show ?thesis using that(4) q by (intro timed_push) (auto simp: timed_def)
    qed
    ultimately show thesis
      using send(1) by (intro that[of ?s]) (auto simp: c unaccounted_def)
  qed
qed

text \<open>The port whose completion event was just popped hands its packet to the wire.\<close>

lemma on_tx_complete_effect:
  assumes q: "eq_inv (sim_queue s)" and ra: "rates_ok (sim_fabric s)"
    and i: "id_index (ev_port e) < port_count (sim_fabric s)"
    and po: "ports_ok (sim_fabric s) (add_mset (id_index (ev_port e)) (tx_pending (events s)))"
  obtains s' k where "on_tx_complete e s = Some s'" "net_inv s'" "net_frame s s'"
    "add_mset (AtPort (id_index (ev_port e)), k) (carried s')
       = add_mset (OnWire (id_index (ev_port e)), k) (carried s)"
    "(AtPort (id_index (ev_port e)), k) \<in># carried s"
    "\<And>kd. unaccounted kd s' = unaccounted kd s"
    "\<And>kd. injected kd (sim_stats s') = injected kd (sim_stats s)"
    "\<And>D H. delays_ok (sim_fabric s) D \<Longrightarrow> unat (sim_now s) + D \<le> H \<Longrightarrow> H < 2 ^ 64 \<Longrightarrow>
       timed s H \<Longrightarrow> timed s' H"
proof -
  define i where "i = id_index (ev_port e)"
  define f where "f = sim_fabric s"
  define p where "p = fab_ports f ! i"
  define k where "k = port_in_flight p"
  note i = i[folded i_def f_def] and po = po[folded i_def f_def] and ra = ra[folded f_def]
  have ri: "ring_inv (port_queue p)" and busy: "port_busy p" and cnt: "count (tx_pending (events s)) i = 0"
    using ports_okD[OF po i] unfolding p_def by (cases "port_busy (fab_ports f ! i)"; simp)+
  define p1 where "p1 = p\<lparr>port_packets_sent := port_packets_sent p + 1,
             port_bytes_sent := port_bytes_sent p + ucast (pkt_bytes k)\<rparr>"
  define a where "a = ev_arrive (sim_now s + port_prop_delay_ns p) (ev_port e) k"
  define s1 where "s1 = push_event a (s\<lparr>sim_fabric := put_fab i p1 f\<rparr>)"
  have i1: "i < port_count (sim_fabric s1)" using i by (simp add: s1_def)
  have p1: "fab_ports (sim_fabric s1) ! i = p1" using i by (simp add: s1_def)
  have E1: "events s1 = add_mset (eq_stamp (sim_queue s) a) (events s)"
    using q by (simp add: s1_def evq.push_items)
  have q1: "eq_inv (sim_queue s1)" using q by (simp add: s1_def evq.push_invar)
  have in_load: "(AtPort i, plain k) \<in># port_load i p" using busy by (simp add: port_load_def k_def)
  have sub: "port_load i p \<subseteq># fabric_load f"
    using i sum.remove[of "{..<port_count f}" i "\<lambda>j. port_load j (fab_ports f ! j)"]
    by (simp add: fabric_load_def p_def)
  have mem: "(AtPort i, plain k) \<in># carried s"
    using mset_subset_eqD[OF sub in_load] by (simp add: carried_def f_def)
  have c1: "arrivals (events s1) = add_mset (OnWire i, plain k) (arrivals (events s))"
    by (simp add: E1 views_add a_def i_def)
  have t1: "timed s1 H" if "delays_ok f D" "unat (sim_now s) + D \<le> H" "H < 2 ^ 64" "timed s H" for D H
  proof -
    have "unat (port_prop_delay_ns p) \<le> D" using that(1) i by (simp add: delays_ok_def p_def)
    then have "sim_now s \<le> sim_now s + port_prop_delay_ns p"
      "unat (sim_now s + port_prop_delay_ns p) \<le> H"
      using later_time[OF that(2,3)] by auto
    then show ?thesis using that(4) q unfolding s1_def
      by (intro timed_push) (auto simp: timed_def a_def)
  qed
  have run: "on_tx_complete e s = (if ring_list (port_queue p) \<noteq> [] then start_tx (ev_port e) s1
      else put_port (ev_port e) (p1\<lparr>port_busy := False\<rparr>) s1)"
    using i fabric_port_Some[of "ev_port e" f] put_port_Some[of "ev_port e" s p1]
      length_ring_list[of "port_queue p"]
    by (auto simp: on_tx_complete_def Let_def s1_def a_def p1_def p_def k_def i_def f_def ring_empty_def
        simp del: length_ring_list)
  show thesis
  proof (cases "ring_list (port_queue p)")
    case Nil
    let ?p = "p1\<lparr>port_busy := False\<rparr>"
    let ?s = "s1\<lparr>sim_fabric := put_fab i ?p f\<rparr>"
    have r: "on_tx_complete e s = Some ?s"
      using run Nil i1 put_port_Some[of "ev_port e" s1 ?p] by (simp add: i_def s1_def)
    have "add_mset (AtPort i, plain k) (fabric_load (put_fab i ?p f)) = fabric_load f"
      using fabric_load_update[OF i, of ?p] Nil busy by (simp add: port_load_def p1_def k_def flip: p_def)
    then have c: "add_mset (AtPort i, plain k) (carried ?s) = add_mset (OnWire i, plain k) (carried s)"
      by (simp add: carried_def c1 flip: f_def)
    have "ports_ok (put_fab i ?p f) (tx_pending (events s1))"
      by (rule ports_ok_put[OF po i]) (use Nil ri cnt in \<open>auto simp: port_ok_def p1_def E1 views_add a_def\<close>)
    then have "net_inv ?s"
      using q1 rates_ok_put[OF ra, of ?p i] by (simp add: net_inv_def p1_def p_def)
    moreover have "net_frame s ?s"
      by (rule net_frameI[where fab = "put_fab i ?p f" and q = "sim_queue s1" and st = "sim_stats s"
            and res = "sim_results s"])
         (use i in \<open>simp_all add: reset_state_put reset_port_def p1_def p_def E1 views_add a_def
            s1_def push_event_def f_def q evq.push_items\<close>)
    moreover have "unaccounted kd ?s = unaccounted kd s" for kd
      using arg_cong[OF c, of "bytes_in kd"] by (simp add: unaccounted_def s1_def)
    moreover have "injected kd (sim_stats ?s) = injected kd (sim_stats s)" for kd
      by (simp add: s1_def)
    moreover have "timed ?s H = timed s1 H" for H by (simp add: timed_def)
    ultimately show thesis
      using r c mem t1 that[of ?s "plain k"] unfolding i_def f_def by auto
  next
    case (Cons x xs)
    obtain ring ser where st: "ring_inv ring" "ring_list ring = xs" "ring_capacity ring = ring_capacity (port_queue p)"
      "serialization_ns (ucast (pkt_bytes x)) (port_rate p) = Some ser"
      "start_tx (ev_port e) s1 = Some (push_event (ev_tx_complete (sim_now s1 + ser) (ev_port e))
        (s1\<lparr>sim_fabric := put_fab i
           (p1\<lparr>port_in_flight := x, port_queue := ring, port_busy := True\<rparr>) (sim_fabric s1)\<rparr>))"
      using start_tx_spec[of "ev_port e" s1 p1 x xs] i1 p1 ri Cons ra i
      by (auto simp: i_def p1_def rates_ok_def p_def)
    let ?p = "p1\<lparr>port_in_flight := x, port_queue := ring, port_busy := True\<rparr>"
    let ?e = "ev_tx_complete (sim_now s + ser) (ev_port e)"
    let ?s = "push_event ?e (s1\<lparr>sim_fabric := put_fab i ?p f\<rparr>)"
    have r: "on_tx_complete e s = Some ?s"
      using run Cons st(5) by (simp add: s1_def)
    have E: "events ?s = add_mset (eq_stamp (sim_queue s1) ?e) (events s1)"
      using q1 by (simp add: evq.push_items)
    have "add_mset (AtPort i, plain k) (fabric_load (put_fab i ?p f)) = fabric_load f"
      using fabric_load_update[OF i, of ?p] Cons busy st(2) by (simp add: port_load_def k_def flip: p_def)
    then have c: "add_mset (AtPort i, plain k) (carried ?s) = add_mset (OnWire i, plain k) (carried s)"
      unfolding carried_def E by (simp add: views_add c1 flip: f_def)
    have "ports_ok (put_fab i ?p f) (add_mset i (tx_pending (events s1)))"
      by (rule ports_ok_put[OF po i]) (use st(1) cnt in \<open>auto simp: port_ok_def p1_def E1 views_add a_def\<close>)
    then have "net_inv ?s"
      using q1 rates_ok_put[OF ra, of ?p i] unfolding net_inv_def E
      by (simp add: p1_def p_def views_add i_def evq.push_invar)
    moreover have "net_frame s ?s"
      by (rule net_frameI[where fab = "put_fab i ?p f" and q = "eq_push ?e (sim_queue s1)" and st = "sim_stats s"
            and res = "sim_results s"])
         (use i st(3) q1 in \<open>simp_all add: reset_state_put reset_port_def p1_def p_def E1 views_add a_def
            s1_def push_event_def f_def q evq.push_items evq.push_invar\<close>)
    moreover have "unaccounted kd ?s = unaccounted kd s" for kd
      using arg_cong[OF c, of "bytes_in kd"] by (simp add: unaccounted_def s1_def)
    moreover have "injected kd (sim_stats ?s) = injected kd (sim_stats s)" for kd
      by (simp add: s1_def)
    moreover have "timed ?s H" if h: "delays_ok f D" "unat (sim_now s) + D \<le> H" "H < 2 ^ 64" "timed s H" for D H
    proof -
      have "unat ser \<le> D" using h(1) i st(4) unfolding delays_ok_def p_def by blast
      then have "sim_now s \<le> sim_now s + ser" "unat (sim_now s + ser) \<le> H"
        using later_time[OF h(2,3)] by auto
      then show ?thesis using t1[OF h] q1 by (intro timed_push) (auto simp: timed_def s1_def)
    qed
    ultimately show thesis
      using r c mem that[of ?s "plain k"] unfolding i_def f_def by auto
  qed
qed

end
