(* ===== verification/Sim_Routes.thy ===== *)
theory Sim_Routes
  imports Sim_Network
begin

text \<open>
  What the run relies on from the fabric and its route table, and what it gets: a packet
  that sits on a port towards its destination host stays on such ports, never passes
  through another host, and is one hop closer after every hop.
\<close>

definition routes_ok :: "fabric \<Rightarrow> route_table \<Rightarrow> bool" where
  "routes_ok F rt \<longleftrightarrow> (\<forall>at h. id_index at < node_count F \<longrightarrow> unat h < host_count F \<longrightarrow>
     candidates rt at h = Some (cell_ports F (host_dist F (unat h)) (id_index at)))"

definition hosts_single :: "fabric \<Rightarrow> bool" where
  "hosts_single F \<longleftrightarrow> (\<forall>h < host_count F.
     node_port_count (fab_nodes F ! id_index (fab_hosts F ! h)) = 1)"

definition all_reachable :: "fabric \<Rightarrow> bool" where
  "all_reachable F \<longleftrightarrow> (\<forall>h < host_count F. \<forall>u < node_count F. host_dist F h ! u \<noteq> kUnreachable)"

definition fabric_ready :: "fabric \<Rightarrow> route_table \<Rightarrow> bool" where
  "fabric_ready F rt \<longleftrightarrow> fabric_ok F \<and> rates_ok F \<and> hosts_single F \<and> all_reachable F \<and> routes_ok F rt
     \<and> port_count F * host_count F < 2 ^ 32"

lemma build_routes_ok:
  assumes "fabric_ok F" "port_count F * host_count F < 2 ^ 32" "build_shortest_path F = Some rt"
  shows "routes_ok F rt"
  using build_shortest_path_spec[OF assms(1,2)] assms(3) by (auto simp: routes_ok_def)

abbreviation owner_index :: "fabric \<Rightarrow> nat \<Rightarrow> nat" where
  "owner_index F p \<equiv> id_index (port_owner (fab_ports F ! p))"

definition on_route :: "fabric \<Rightarrow> nat \<Rightarrow> nat \<Rightarrow> bool" where
  "on_route F h p \<longleftrightarrow> h < host_count F \<and> p < port_count F
     \<and> id_at p \<in> set (cell_ports F (host_dist F h) (owner_index F p))"

lemma port_small: "fabric_ok F \<Longrightarrow> p < port_count F \<Longrightarrow> p < 2 ^ 32"
  using fabric_okD(2)[of F] by (auto simp: runs_contiguous_def)

lemma wiredD:
  assumes "fabric_ok F" "p < port_count F"
  shows "owner_index F p < node_count F" "id_index (port_peer_port (fab_ports F ! p)) < port_count F"
    "owner_index F (id_index (port_peer_port (fab_ports F ! p))) = peer_index F p"
    "peer_index F (id_index (port_peer_port (fab_ports F ! p))) = owner_index F p"
    "peer_index F p < node_count F"
proof -
  let ?q = "id_index (port_peer_port (fab_ports F ! p))"
  note w = fabric_okD(1)[OF assms(1), unfolded ports_wired_def Let_def, rule_format]
  from w[OF assms(2)] have q: "owner_index F p < node_count F" "?q < port_count F"
    "id_index (port_peer_port (fab_ports F ! ?q)) = p"
    "port_peer_node (fab_ports F ! p) = port_owner (fab_ports F ! ?q)" by auto
  from w[OF q(2)] q(3) have "port_peer_node (fab_ports F ! ?q) = port_owner (fab_ports F ! p)" by simp
  then show "owner_index F p < node_count F" "?q < port_count F"
    "owner_index F ?q = peer_index F p" "peer_index F ?q = owner_index F p"
    using q by (simp_all add: peer_index_def)
  show "peer_index F p < node_count F" using peer_in_range assms by blast
qed

lemma on_route_forwards:
  assumes "fabric_ready F rt" "on_route F h p"
  shows "forwards F h (owner_index F p) (peer_index F p)"
proof -
  have ok: "fabric_ok F" and p: "p < port_count F" "h < host_count F"
    "id_at p \<in> set (cell_ports F (host_dist F h) (owner_index F p))"
    using assms by (auto simp: fabric_ready_def on_route_def)
  have "id_index (id_at p :: port_id) = p" using port_small[OF ok p(1)] by simp
  then show ?thesis
    using p assms(1) wiredD(1)[OF ok p(1)]
    by (auto simp: forwards_def reaches_host_def fabric_ready_def all_reachable_def intro!: bexI[of _ "id_at p"])
qed

lemma on_route_rank:
  assumes "fabric_ready F rt" "on_route F h p"
  shows "hop_rank F h (owner_index F p) = Suc (hop_rank F h (peer_index F p))"
  using hop.step_rank[OF on_route_forwards[OF assms]] by simp

lemma reaches_all:
  "fabric_ready F rt \<Longrightarrow> h < host_count F \<Longrightarrow> u < node_count F \<Longrightarrow> reaches_host F h u"
  by (auto simp: fabric_ready_def reaches_host_def all_reachable_def)

lemma rank_min_hops:
  assumes "fabric_ready F rt" "h < host_count F" "u < node_count F"
  shows "min_hops (links F) (id_index (fab_hosts F ! h)) u (hop_rank F h u)"
proof -
  have ok: "fabric_ok F" using assms(1) by (simp add: fabric_ready_def)
  have "host_dist F h ! u \<noteq> kUnreachable" using reaches_all[OF assms] by (simp add: reaches_host_def)
  then obtain n where n: "min_hops (links F) (id_index (fab_hosts F ! h)) u n"
    using host_dist_min_hops(1)[OF ok assms(2,3)] by blast
  moreover have "hop_rank F h u = n"
    using host_dist_min_hops(2)[OF ok assms(2,3) n] unfolding hop_rank_def by blast
  ultimately show ?thesis by simp
qed

lemma rank_0_iff:
  assumes "fabric_ready F rt" "h < host_count F" "u < node_count F"
  shows "hop_rank F h u = 0 \<longleftrightarrow> u = id_index (fab_hosts F ! h)"
proof
  assume "hop_rank F h u = 0"
  then show "u = id_index (fab_hosts F ! h)" using rank_min_hops[OF assms] by simp
next
  assume "u = id_index (fab_hosts F ! h)"
  then have "min_hops (links F) (id_index (fab_hosts F ! h)) u 0" by simp
  then show "hop_rank F h u = 0" using rank_min_hops[OF assms] min_hops_unique by blast
qed

lemma rank_less:
  assumes "fabric_ready F rt" "h < host_count F" "u < node_count F"
  shows "hop_rank F h u < node_count F"
proof (rule min_hops_bound[OF _ _ rank_min_hops[OF assms]])
  have ok: "fabric_ok F" using assms(1) by (simp add: fabric_ready_def)
  show "\<And>u v. (u, v) \<in> links F \<Longrightarrow> v < node_count F"
    using links_bound[OF fabric_okD(1)[OF ok]] by blast
  show "id_index (fab_hosts F ! h) < node_count F"
    using fabric_okD(3)[OF ok] assms(2) by (simp add: hosts_indexed_def)
qed

text \<open>A host owns exactly one port.\<close>

lemma host_port_unique:
  assumes "fabric_ready F rt" "v < node_count F" "node_is_host (fab_nodes F ! v)"
    "p < port_count F" "owner_index F p = v" "q < port_count F" "owner_index F q = v"
  shows "p = q"
proof -
  have ok: "fabric_ok F" and single: "hosts_single F" using assms(1) by (auto simp: fabric_ready_def)
  let ?h = "unat (fab_host_index F ! v)"
  have h: "?h < host_count F" "fab_hosts F ! ?h = id_at v"
    using fabric_okD(3)[OF ok] assms(2,3) by (auto simp: hosts_indexed_def)
  have "v < 2 ^ 32" using fabric_okD(4)[OF ok] assms(2) by simp
  then have "node_port_count (fab_nodes F ! v) = 1"
    using single h unfolding hosts_single_def by fastforce
  then have run: "node_run F v = {unat (node_first_port (fab_nodes F ! v))}"
    by (auto simp: node_run_def)
  have "node_run F v = {p. p < port_count F \<and> port_owner (fab_ports F ! p) = id_at v}"
    using fabric_okD(2)[OF ok] assms(2) by (simp add: runs_contiguous_def)
  moreover have "port_owner (fab_ports F ! p) = id_at v" "port_owner (fab_ports F ! q) = id_at v"
    using assms(5,7) by (auto simp flip: assms(5))
      (metis assms(5) assms(7) id_at_index)
  ultimately have "p \<in> node_run F v" "q \<in> node_run F v" using assms(4,6) by auto
  then show ?thesis using run by simp
qed

text \<open>Arriving at a host means arriving home.\<close>

lemma route_home:
  assumes ready: "fabric_ready F rt" and r: "on_route F h p"
    and host: "node_is_host (fab_nodes F ! peer_index F p)"
  shows "port_peer_node (fab_ports F ! p) = fab_hosts F ! h"
proof (rule ccontr)
  assume ne: "port_peer_node (fab_ports F ! p) \<noteq> fab_hosts F ! h"
  have ok: "fabric_ok F" and h: "h < host_count F" and p: "p < port_count F"
    using ready r by (auto simp: fabric_ready_def on_route_def)
  let ?v = "peer_index F p" and ?q = "id_index (port_peer_port (fab_ports F ! p))"
  note w = wiredD[OF ok p]
  have "?v \<noteq> id_index (fab_hosts F ! h)" using ne by (simp add: peer_index_def id_index_inject)
  then have "hop_rank F h ?v \<noteq> 0" using rank_0_iff[OF ready h w(5)] by simp
  then obtain x where "forwards F h ?v x"
    using hop.step_exists[OF reaches_all[OF ready h w(5)]] by blast
  then obtain c where c: "c \<in> set (cell_ports F (host_dist F h) ?v)" "peer_index F (id_index c) = x"
    by (auto simp: forwards_def)
  have own: "id_index c < port_count F" "owner_index F (id_index c) = ?v"
    using cell_ports_iff[OF ok h w(5), of c] c(1) by auto
  have "id_index c = ?q" by (rule host_port_unique[OF ready w(5) host own w(2) w(3)])
  then have "x = owner_index F p" using c(2) w(4) by simp
  then have "hop_rank F h ?v = Suc (hop_rank F h (owner_index F p))"
    using hop.step_rank[OF \<open>forwards F h ?v x\<close>] by simp
  then show False using on_route_rank[OF ready r] by simp
qed

text \<open>Arriving at a switch, there is a next hop and every candidate is one.\<close>

lemma candidates_on_route:
  assumes ready: "fabric_ready F rt" and h: "h < host_count F" and u: "u < node_count F"
    and c: "c \<in> set (cell_ports F (host_dist F h) u)"
  shows "on_route F h (id_index c)" "owner_index F (id_index c) = u"
proof -
  have ok: "fabric_ok F" using ready by (simp add: fabric_ready_def)
  have "id_index c < port_count F" "owner_index F (id_index c) = u"
    using cell_ports_iff[OF ok h u, of c] c by auto
  then show "on_route F h (id_index c)" "owner_index F (id_index c) = u"
    using h c by (simp_all add: on_route_def)
qed

lemma route_step:
  assumes ready: "fabric_ready F rt" and r: "on_route F (unat h) p"
    and switch: "\<not> node_is_host (fab_nodes F ! peer_index F p)"
  shows "\<exists>cand. candidates rt (port_peer_node (fab_ports F ! p)) h = Some cand \<and> cand \<noteq> []
    \<and> length cand \<le> 2 ^ 32
    \<and> (\<forall>c \<in> set cand. on_route F (unat h) (id_index c) \<and> owner_index F (id_index c) = peer_index F p)"
proof -
  have ok: "fabric_ok F" and h: "unat h < host_count F" and p: "p < port_count F"
    using ready r by (auto simp: fabric_ready_def on_route_def)
  let ?v = "peer_index F p"
  have v: "?v < node_count F" using wiredD(5)[OF ok p] .
  have "node_is_host (fab_nodes F ! id_index (fab_hosts F ! unat h))"
    using fabric_okD(3)[OF ok] h by (simp add: hosts_indexed_def)
  then have "?v \<noteq> id_index (fab_hosts F ! unat h)" using switch by metis
  then have "hop_rank F (unat h) ?v \<noteq> 0" using rank_0_iff[OF ready h v] by simp
  then obtain x where "forwards F (unat h) ?v x"
    using hop.step_exists[OF reaches_all[OF ready h v]] by blast
  then have ne: "cell_ports F (host_dist F (unat h)) ?v \<noteq> []" by (auto simp: forwards_def)
  have "length (cell_ports F (host_dist F (unat h)) ?v) \<le> card {p. p < port_count F \<and> owner_index F p = ?v}"
    using cell_ports_card[OF ok v] .
  also have "\<dots> \<le> card {..<port_count F}" by (rule card_mono) auto
  also have "\<dots> < 2 ^ 32" using fabric_okD(2)[OF ok] by (simp add: runs_contiguous_def)
  finally have "length (cell_ports F (host_dist F (unat h)) ?v) \<le> 2 ^ 32" by simp
  moreover have "candidates rt (port_peer_node (fab_ports F ! p)) h = Some (cell_ports F (host_dist F (unat h)) ?v)"
    using ready h v by (simp add: fabric_ready_def routes_ok_def peer_index_def)
  ultimately show ?thesis using ne candidates_on_route[OF ready h v] by blast
qed

text \<open>The port of a host is on the route to every other host.\<close>

lemma route_nic:
  assumes ready: "fabric_ready F rt" and h: "h < host_count F" and u: "id_index u < node_count F"
    and host: "node_is_host (fab_nodes F ! id_index u)" and ne: "u \<noteq> fab_hosts F ! h"
  shows "\<exists>nic rest. ports_of F u = Some (nic # rest) \<and> on_route F h (id_index nic)
    \<and> owner_index F (id_index nic) = id_index u"
proof -
  have ok: "fabric_ok F" using ready by (simp add: fabric_ready_def)
  obtain ps where ps: "ports_of F u = Some ps" "\<forall>p \<in> set ps. id_index p < port_count F"
    "id_index ` set ps = {p. p < port_count F \<and> port_owner (fab_ports F ! p) = u}"
    using ports_of_spec[OF ok u] by blast
  have "id_index u \<noteq> id_index (fab_hosts F ! h)" using ne by (simp add: id_index_inject)
  then have "hop_rank F h (id_index u) \<noteq> 0" using rank_0_iff[OF ready h u] by simp
  then obtain x where "forwards F h (id_index u) x"
    using hop.step_exists[OF reaches_all[OF ready h u]] by blast
  then obtain c where c: "c \<in> set (cell_ports F (host_dist F h) (id_index u))"
    by (auto simp: forwards_def)
  note cr = candidates_on_route[OF ready h u c]
  have cp: "id_index c < port_count F" using cr(1) by (simp add: on_route_def)
  then have "port_owner (fab_ports F ! id_index c) = u" using cr(2) id_index_inject by blast
  then have "id_index c \<in> id_index ` set ps" using ps(3) cp by blast
  then have "ps \<noteq> []" by auto
  then obtain nic rest where nr: "ps = nic # rest" by (cases ps) auto
  have "id_index nic \<in> id_index ` set ps" using nr by simp
  then have n: "id_index nic < port_count F" "port_owner (fab_ports F ! id_index nic) = u"
    unfolding ps(3) by auto
  have "id_index nic = id_index c" by (rule host_port_unique[OF ready u host]) (use n cp cr(2) in auto)
  then have "nic = c" by (simp add: id_index_inject)
  then show ?thesis using ps(1) nr cr by blast
qed

end
