(* ===== verification/Sim_Setup.thy ===== *)
theory Sim_Setup
  imports Sim_Routes
begin

text \<open>
  The part of a \<open>Simulation\<close> that a run never changes (fabric shape, routes, flow specs,
  array layout), the conditions on it that \<open>add_flow\<close> establishes, and the per-flow and
  per-packet views of the flat arrays: \<open>pst s i\<close> and \<open>att s i\<close> are the state byte and the
  attempt counter of each packet of flow \<open>i\<close>, \<open>retx s i\<close> the packets of flow \<open>i\<close> that
  await retransmission, oldest first.
\<close>

section \<open>The fixed part\<close>

abbreviation frozen :: "sim \<Rightarrow> fabric" where "frozen s \<equiv> reset_state (sim_fabric s)"

definition wins :: "sim \<Rightarrow> u32 list" where "wins s = map tx_window (sim_tx s)"
definition tots :: "sim \<Rightarrow> u32 list" where "tots s = map tx_packets_total (sim_tx s)"
definition periods :: "sim \<Rightarrow> Nanos list" where "periods s = map tx_period_ns (sim_tx s)"

definition fixed where
  "fixed s = (frozen s, sim_routes s, sim_transport s, sim_specs s, sim_froutes s, wins s, tots s,
     map res_packets_total (sim_results s), sim_flow_pkt_offset s, length (sim_pkt_state s),
     length (sim_pkt_attempt s), sim_retx_offset s, length (sim_retx_ring s))"

definition psum :: "u32 list \<Rightarrow> nat \<Rightarrow> nat" where
  "psum ws i = sum_list (take i (map unat ws))"

definition packets_of :: "FlowSpec \<Rightarrow> nat" where
  "packets_of spec = ceil_div (unat (fs_size_bytes spec)) (unat (fs_mtu_bytes spec))"

definition flow_shape :: "fabric \<Rightarrow> nat \<Rightarrow> FlowSpec \<Rightarrow> FlowRoute \<Rightarrow> u32 \<Rightarrow> u32 \<Rightarrow> bool" where
  "flow_shape F i spec fr w tot \<longleftrightarrow>
     0 < fs_mtu_bytes spec \<and> unat (fs_mtu_bytes spec) \<le> 9216 \<and> 0 < fs_size_bytes spec
     \<and> 0 < fs_load_permille spec \<and> fs_load_permille spec \<le> 1000
     \<and> unat tot = packets_of spec \<and> 0 < tot \<and> 0 < w \<and> w \<le> tot
     \<and> (id_valid (fs_depends_on spec) \<longrightarrow> id_index (fs_depends_on spec) < i)
     \<and> unat (frt_src_host fr) < host_count F \<and> fab_hosts F ! unat (frt_src_host fr) = fs_src spec
     \<and> unat (frt_dst_host fr) < host_count F \<and> fab_hosts F ! unat (frt_dst_host fr) = fs_dst spec
     \<and> owner_index F (id_index (frt_src_nic fr)) = id_index (fs_src spec)
     \<and> owner_index F (id_index (frt_dst_nic fr)) = id_index (fs_dst spec)
     \<and> on_route F (unat (frt_dst_host fr)) (id_index (frt_src_nic fr))
     \<and> on_route F (unat (frt_src_host fr)) (id_index (frt_dst_nic fr))"

definition setup_ok :: "sim \<Rightarrow> bool" where
  "setup_ok s \<longleftrightarrow> fabric_ready (frozen s) (sim_routes s)
     \<and> length (sim_specs s) < 2 ^ 32 - 1
     \<and> length (sim_froutes s) = length (sim_specs s)
     \<and> length (wins s) = length (sim_specs s) \<and> length (tots s) = length (sim_specs s)
     \<and> map res_packets_total (sim_results s) = tots s
     \<and> sim_flow_pkt_offset s = map (\<lambda>i. of_nat (psum (tots s) i)) [0..<length (sim_specs s)]
     \<and> sum_list (map unat (tots s)) < 2 ^ 32
     \<and> length (sim_pkt_state s) = sum_list (map unat (tots s))
     \<and> length (sim_pkt_attempt s) = sum_list (map unat (tots s))
     \<and> sim_retx_offset s = map (\<lambda>i. of_nat (psum (wins s) i)) [0..<length (sim_specs s)]
     \<and> sum_list (map unat (wins s)) < 2 ^ 31
     \<and> length (sim_retx_ring s) = sum_list (map unat (wins s))
     \<and> (\<forall>i < length (sim_specs s). flow_shape (frozen s) i (sim_specs s ! i) (sim_froutes s ! i)
          (wins s ! i) (tots s ! i))"

lemma setup_ok_cong: "fixed s' = fixed s \<Longrightarrow> setup_ok s' \<longleftrightarrow> setup_ok s"
  by (simp add: fixed_def setup_ok_def)

lemma setupD:
  assumes "fixed s' = fixed s"
  shows "frozen s' = frozen s" "sim_routes s' = sim_routes s" "sim_transport s' = sim_transport s"
    "sim_specs s' = sim_specs s" "sim_froutes s' = sim_froutes s" "wins s' = wins s" "tots s' = tots s"
    "sim_flow_pkt_offset s' = sim_flow_pkt_offset s" "sim_retx_offset s' = sim_retx_offset s"
  using assms by (simp_all add: fixed_def)

abbreviation nflows :: "sim \<Rightarrow> nat" where "nflows s \<equiv> length (sim_specs s)"

lemma setup_okD:
  assumes "setup_ok s"
  shows "fabric_ready (frozen s) (sim_routes s)" "nflows s < 2 ^ 32 - 1"
    "length (sim_froutes s) = nflows s" "length (sim_tx s) = nflows s"
    "length (wins s) = nflows s" "length (tots s) = nflows s"
    "length (sim_results s) = nflows s" "length (sim_flow_pkt_offset s) = nflows s"
    "length (sim_retx_offset s) = nflows s"
    "length (sim_pkt_state s) = sum_list (map unat (tots s))"
    "length (sim_pkt_attempt s) = sum_list (map unat (tots s))"
    "length (sim_retx_ring s) = sum_list (map unat (wins s))"
    "sum_list (map unat (tots s)) < 2 ^ 32" "sum_list (map unat (wins s)) < 2 ^ 31"
    "i < nflows s \<Longrightarrow> flow_shape (frozen s) i (sim_specs s ! i) (sim_froutes s ! i) (wins s ! i) (tots s ! i)"
    "i < nflows s \<Longrightarrow> res_packets_total (sim_results s ! i) = tots s ! i"
    "i < nflows s \<Longrightarrow> tx_window (sim_tx s ! i) = wins s ! i"
    "i < nflows s \<Longrightarrow> tx_packets_total (sim_tx s ! i) = tots s ! i"
proof -
  show L: "length (sim_tx s) = nflows s" using assms by (simp add: setup_ok_def wins_def)
  have r: "map res_packets_total (sim_results s) = tots s" using assms by (simp add: setup_ok_def)
  have "length (sim_results s) = length (tots s)" using arg_cong[OF r, of length] by simp
  then show R: "length (sim_results s) = nflows s" using assms by (simp add: setup_ok_def)
  show "i < nflows s \<Longrightarrow> res_packets_total (sim_results s ! i) = tots s ! i"
    using R by (simp flip: r)
  show "i < nflows s \<Longrightarrow> tx_window (sim_tx s ! i) = wins s ! i"
    "i < nflows s \<Longrightarrow> tx_packets_total (sim_tx s ! i) = tots s ! i"
    using L by (simp_all add: wins_def tots_def)
qed (use assms in \<open>auto simp: setup_ok_def\<close>)

section \<open>Views of the flat arrays\<close>

definition pkt_pos :: "sim \<Rightarrow> nat \<Rightarrow> u32 \<Rightarrow> nat" where
  "pkt_pos s i idx = psum (tots s) i + unat idx"

definition pst :: "sim \<Rightarrow> nat \<Rightarrow> u32 \<Rightarrow> u8" where
  "pst s i = (\<lambda>idx. if idx < tots s ! i then sim_pkt_state s ! pkt_pos s i idx else 0)"

definition att :: "sim \<Rightarrow> nat \<Rightarrow> u32 \<Rightarrow> u8" where
  "att s i = (\<lambda>idx. if idx < tots s ! i then sim_pkt_attempt s ! pkt_pos s i idx else 0)"

definition retx_buf :: "sim \<Rightarrow> nat \<Rightarrow> u32 list" where
  "retx_buf s i = drop (psum (wins s) i) (sim_retx_ring s)"

definition retx_list :: "u32 list \<Rightarrow> FlowTx \<Rightarrow> u32 list" where
  "retx_list buf tx = circ buf (unat (tx_window tx)) (unat (tx_retx_head tx)) (unat (tx_retx_count tx))"

definition retx :: "sim \<Rightarrow> nat \<Rightarrow> u32 list" where
  "retx s i = retx_list (retx_buf s i) (sim_tx s ! i)"

lemma psum_in:
  assumes "i < length ws" "x < ws ! i"
  shows "psum ws i + unat x < sum_list (map unat ws)"
  unfolding psum_def by (rule slice_in) (use assms in \<open>auto simp: word_less_nat_alt\<close>)

lemma psum_inject:
  assumes "i < length ws" "x < ws ! i" "j < length ws" "y < ws ! j" "psum ws i + unat x = psum ws j + unat y"
  shows "i = j \<and> x = y"
proof -
  have "i = j \<and> unat x = unat y"
    by (rule slice_inject[of i "map unat ws" _ j]) (use assms in \<open>auto simp: word_less_nat_alt psum_def\<close>)
  then show ?thesis by (simp add: word_unat_eq_iff)
qed

lemma word_slot:
  assumes "i < length ws" "x < ws ! i" "sum_list (map unat ws) < 2 ^ 32"
  shows "unat (of_nat (psum ws i) + x :: u32) = psum ws i + unat x"
proof -
  have lt: "psum ws i + unat x < 2 ^ 32" using psum_in[OF assms(1,2)] assms(3) by simp
  then have "unat (of_nat (psum ws i) :: u32) = psum ws i" by (intro unat_of_nat_small) simp
  moreover have "unat (of_nat (psum ws i) + x :: u32) = unat (of_nat (psum ws i) :: u32) + unat x"
    by (rule unat_add_small) (use lt calculation in simp)
  ultimately show ?thesis by simp
qed

lemma pkt_pos_less:
  "setup_ok s \<Longrightarrow> i < nflows s \<Longrightarrow> idx < tots s ! i \<Longrightarrow> pkt_pos s i idx < sum_list (map unat (tots s))"
  using psum_in[of i "tots s" idx] by (simp add: pkt_pos_def setup_okD)

lemma pkt_pos_inject:
  "setup_ok s \<Longrightarrow> i < nflows s \<Longrightarrow> idx < tots s ! i \<Longrightarrow> j < nflows s \<Longrightarrow> idy < tots s ! j \<Longrightarrow>
   pkt_pos s i idx = pkt_pos s j idy \<longleftrightarrow> i = j \<and> idx = idy"
  using psum_inject[of i "tots s" idx j idy] by (auto simp: pkt_pos_def setup_okD)

lemma base_slot:
  assumes "setup_ok s" "i < nflows s"
  shows "vget (sim_flow_pkt_offset s) i = Some (of_nat (psum (tots s) i))"
    "idx < tots s ! i \<Longrightarrow> unat (of_nat (psum (tots s) i) + idx :: u32) = pkt_pos s i idx"
  using assms word_slot[of i "tots s" idx]
  by (simp_all add: setup_ok_def vget_def pkt_pos_def)

lemma pkt_slot_Some:
  assumes "setup_ok s" "id_index f < nflows s" "idx < tots s ! id_index f"
  shows "pkt_slot f idx s = Some (pkt_pos s (id_index f) idx)"
  using base_slot[OF assms(1,2)] assms(3) by (simp add: pkt_slot_def)

lemma read_pkt:
  assumes "setup_ok s" "i < nflows s" "idx < tots s ! i"
  shows "vget (sim_pkt_state s) (pkt_pos s i idx) = Some (pst s i idx)"
    "vget (sim_pkt_attempt s) (pkt_pos s i idx) = Some (att s i idx)"
  using pkt_pos_less[OF assms] assms by (simp_all add: vget_def setup_okD pst_def att_def)

lemma get_tx_Some: "setup_ok s \<Longrightarrow> id_index f < nflows s \<Longrightarrow> get_tx f s = Some (sim_tx s ! id_index f)"
  by (simp add: get_tx_def fabric_simps setup_okD)

lemma put_tx_Some: "setup_ok s \<Longrightarrow> id_index f < nflows s \<Longrightarrow>
  put_tx f tx s = Some (s\<lparr>sim_tx := (sim_tx s)[id_index f := tx]\<rparr>)"
  by (simp add: put_tx_def fabric_simps setup_okD)

lemma get_result_Some: "setup_ok s \<Longrightarrow> id_index f < nflows s \<Longrightarrow>
  get_result f s = Some (sim_results s ! id_index f)"
  by (simp add: get_result_def fabric_simps setup_okD)

lemma put_result_Some: "setup_ok s \<Longrightarrow> id_index f < nflows s \<Longrightarrow>
  put_result f r s = Some (s\<lparr>sim_results := (sim_results s)[id_index f := r]\<rparr>)"
  by (simp add: put_result_def fabric_simps setup_okD)

lemma put_pkt_state_Some: "setup_ok s \<Longrightarrow> i < nflows s \<Longrightarrow> idx < tots s ! i \<Longrightarrow>
  put_pkt_state (pkt_pos s i idx) st s = Some (s\<lparr>sim_pkt_state := (sim_pkt_state s)[pkt_pos s i idx := st]\<rparr>)"
  using pkt_pos_less[of s i idx] by (simp add: put_pkt_state_def fabric_simps setup_okD)

lemmas flow_reads = pkt_slot_Some read_pkt get_tx_Some put_tx_Some get_result_Some put_result_Some
  put_pkt_state_Some

section \<open>Views after an update\<close>

definition same_arrays :: "sim \<Rightarrow> sim \<Rightarrow> bool" where
  "same_arrays s s' \<longleftrightarrow> sim_pkt_state s' = sim_pkt_state s \<and> sim_pkt_attempt s' = sim_pkt_attempt s
     \<and> sim_retx_ring s' = sim_retx_ring s"

lemma views_cong:
  assumes "fixed s' = fixed s" "same_arrays s s'"
  shows "pst s' = pst s" "att s' = att s" "retx_buf s' = retx_buf s"
  using setupD[OF assms(1)] assms(2)
  by (simp_all add: same_arrays_def pst_def att_def retx_buf_def pkt_pos_def fun_eq_iff)

lemma setup_put_tx:
  assumes "i < length (sim_tx s)" "tx_window tx = tx_window (sim_tx s ! i)"
    "tx_packets_total tx = tx_packets_total (sim_tx s ! i)"
  shows "fixed (s\<lparr>sim_tx := (sim_tx s)[i := tx]\<rparr>) = fixed s"
  using assms by (simp add: fixed_def wins_def tots_def map_update_same)

lemma setup_put_result:
  assumes "i < length (sim_results s)" "res_packets_total r = res_packets_total (sim_results s ! i)"
  shows "fixed (s\<lparr>sim_results := (sim_results s)[i := r]\<rparr>) = fixed s"
  using assms by (simp add: fixed_def wins_def tots_def map_update_same)

lemma setup_others [simp]:
  "fixed (s\<lparr>sim_queue := q\<rparr>) = fixed s" "fixed (s\<lparr>sim_stats := st\<rparr>) = fixed s"
  "fixed (s\<lparr>sim_now := t\<rparr>) = fixed s" "fixed (push_event e s) = fixed s"
  "fixed (s\<lparr>sim_pkt_state := (sim_pkt_state s)[k := v]\<rparr>) = fixed s"
  "fixed (s\<lparr>sim_pkt_attempt := (sim_pkt_attempt s)[k := a]\<rparr>) = fixed s"
  "fixed (s\<lparr>sim_retx_ring := (sim_retx_ring s)[k := x]\<rparr>) = fixed s"
  by (simp_all add: fixed_def wins_def tots_def)

lemma setup_frame: "net_frame s s' \<Longrightarrow> fixed s' = fixed s"
proof -
  assume a: "net_frame s s'"
  have "res_packets_total = res_packets_total \<circ> res_core" by (auto simp: res_core_def)
  then have "map res_packets_total (sim_results s') = map res_packets_total (sim_results s)"
    using net_frameD(7)[OF a] by (metis list.map_comp)
  then show ?thesis using net_frameD[OF a] by (simp add: fixed_def wins_def tots_def)
qed

lemma pst_update:
  assumes "setup_ok s" "i < nflows s" "idx < tots s ! i" "j < nflows s"
  shows "pst (s\<lparr>sim_pkt_state := (sim_pkt_state s)[pkt_pos s i idx := v]\<rparr>) j
    = (if j = i then (pst s i)(idx := v) else pst s j)"
proof
  let ?s = "s\<lparr>sim_pkt_state := (sim_pkt_state s)[pkt_pos s i idx := v]\<rparr>"
  fix idy
  have e: "tots ?s = tots s" "pkt_pos ?s = pkt_pos s" by (simp_all add: tots_def pkt_pos_def fun_eq_iff)
  show "pst ?s j idy = (if j = i then (pst s i)(idx := v) else pst s j) idy"
  proof (cases "idy < tots s ! j")
    case True
    then show ?thesis
      using pkt_pos_inject[OF assms(1-4) True] pkt_pos_less[OF assms(1-3)] assms
      by (auto simp: pst_def e setup_okD nth_list_update)
  next
    case False
    then show ?thesis using assms by (auto simp: pst_def e)
  qed
qed

lemma att_update:
  assumes "setup_ok s" "i < nflows s" "idx < tots s ! i" "j < nflows s"
  shows "att (s\<lparr>sim_pkt_attempt := (sim_pkt_attempt s)[pkt_pos s i idx := v]\<rparr>) j
    = (if j = i then (att s i)(idx := v) else att s j)"
proof
  let ?s = "s\<lparr>sim_pkt_attempt := (sim_pkt_attempt s)[pkt_pos s i idx := v]\<rparr>"
  fix idy
  have e: "tots ?s = tots s" "pkt_pos ?s = pkt_pos s" by (simp_all add: tots_def pkt_pos_def fun_eq_iff)
  show "att ?s j idy = (if j = i then (att s i)(idx := v) else att s j) idy"
  proof (cases "idy < tots s ! j")
    case True
    then show ?thesis
      using pkt_pos_inject[OF assms(1-4) True] pkt_pos_less[OF assms(1-3)] assms
      by (auto simp: att_def e setup_okD nth_list_update)
  next
    case False
    then show ?thesis using assms by (auto simp: att_def e)
  qed
qed

end
