(* ===== verification/Sample_Fabric.thy ===== *)
theory Sample_Fabric
  imports Sim_Setup
begin

text \<open>
  The smallest fabric with a switch: two hosts on one switch, as the builder makes it, its
  route table, and the facts that let the properties be applied to it.  Everything here is
  a concrete input, nothing of it is part of the model.
\<close>

definition sample_link :: link_params where
  "sample_link = \<lparr>lp_rate = 8000000000, lp_prop_delay_ns = 5, lp_queue_capacity_pkts = 2\<rparr>"

definition sample_builder :: fabric_builder where
  "sample_builder = \<lparr>fb_is_host = [0, 1, 1],
     fb_edges = [\<lparr>edge_a = Id 1, edge_b = Id 0, edge_params = sample_link\<rparr>,
                 \<lparr>edge_a = Id 2, edge_b = Id 0, edge_params = sample_link\<rparr>]\<rparr>"

definition sample_port :: "nat \<Rightarrow> nat \<Rightarrow> nat \<Rightarrow> port" where
  "sample_port u v q = default_port\<lparr>port_owner := id_at u, port_peer_node := id_at v,
     port_peer_port := id_at q, port_rate := lp_rate sample_link,
     port_prop_delay_ns := lp_prop_delay_ns sample_link,
     port_queue := ring_init (lp_queue_capacity_pkts sample_link)\<rparr>"

definition sample_fabric :: fabric where
  "sample_fabric = \<lparr>
     fab_nodes = [\<lparr>node_first_port = 0, node_port_count = 2, node_is_host = False\<rparr>,
       \<lparr>node_first_port = 2, node_port_count = 1, node_is_host = True\<rparr>,
       \<lparr>node_first_port = 3, node_port_count = 1, node_is_host = True\<rparr>],
     fab_ports = [sample_port 0 1 2, sample_port 0 2 3, sample_port 1 0 0, sample_port 2 0 1],
     fab_port_ids = [Id 0, Id 1, Id 2, Id 3],
     fab_hosts = [Id 1, Id 2],
     fab_host_index = [kInvalidValue, 0, 1]\<rparr>"

definition sample_routes :: route_table where
  "sample_routes = \<lparr>rt_entries = [Id 0, Id 1, Id 2, Id 3],
     rt_offsets = [0, 1, 2, 2, 3, 4, 4], rt_num_hosts = 2\<rparr>"

lemma sample_builder_inv: "builder_inv sample_builder"
  by (simp add: builder_inv_def sample_builder_def id_index_def)

lemma sample_build: "build sample_builder = Some sample_fabric"
  by code_simp

lemma sample_table: "build_shortest_path sample_fabric = Some sample_routes"
  by code_simp

lemma sample_shape: "fabric_ok sample_fabric"
  using build_shape[OF sample_builder_inv sample_build]
  by (simp add: fabric_ok_def node_count_def sample_fabric_def)

lemma sample_counts: "node_count sample_fabric = 3" "port_count sample_fabric = 4" "host_count sample_fabric = 2"
  by (simp_all add: node_count_def port_count_def host_count_def sample_fabric_def)

lemma sample_dist: "host_dist sample_fabric 0 = [1, 0, 2]" "host_dist sample_fabric 1 = [1, 2, 0]"
  by code_simp+

lemma sample_ready: "fabric_ready sample_fabric sample_routes"
proof -
  have all: "(\<forall>h < (2 :: nat). P h) \<longleftrightarrow> P 0 \<and> P 1" "(\<forall>u < (3 :: nat). P u) \<longleftrightarrow> P 0 \<and> P 1 \<and> P 2" for P
    by (auto simp: numeral_2_eq_2 numeral_3_eq_3 less_Suc_eq)
  have "routes_ok sample_fabric sample_routes"
    by (rule build_routes_ok[OF sample_shape _ sample_table]) (simp add: sample_counts)
  moreover have "all_reachable sample_fabric"
    by (simp add: all_reachable_def sample_counts all sample_dist[simplified] kUnreachable_def)
  moreover have "hosts_single sample_fabric"
    unfolding hosts_single_def sample_counts all by (simp add: sample_fabric_def id_index_def)
  moreover have "rates_ok sample_fabric"
    by (auto simp: rates_ok_def port_count_def sample_fabric_def sample_port_def sample_link_def less_Suc_eq)
  ultimately show ?thesis
    using sample_shape by (simp add: fabric_ready_def sample_counts)
qed

end
