(* ===== verification/Sim_Sender.thy ===== *)
theory Sim_Sender
  imports Sim_Setup
begin

text \<open>
  The sender side of the transport: the invariant that ties the window counters, the
  state bytes, the retransmission ring and the pending timers of one flow together, and
  the proof that \<open>try_send\<close> returns and preserves it.
\<close>

section \<open>State bits\<close>

lemma flag_bits [simp]:
  "bit kDelivered n = (n = 0)" "bit kAcked n = (n = 1)" "bit kInFlight n = (n = 2)"
proof -
  have "bit (2 ^ k :: u8) n = (n = k)" if "k < 8" for k
    using that by (auto simp: bit_simps)
  from this[of 0] this[of 1] this[of 2] show
    "bit kDelivered n = (n = 0)" "bit kAcked n = (n = 1)" "bit kInFlight n = (n = 2)"
    by (simp_all add: kDelivered_def kAcked_def kInFlight_def)
qed

lemma flag_tests [simp]:
  "(st AND kDelivered = 0) = (\<not> bit st 0)" "(st AND kAcked = 0) = (\<not> bit st 1)"
  "(st AND kInFlight = 0) = (\<not> bit st 2)"
proof -
  have *: "(st AND m = 0) = (\<forall>n. bit st n \<longrightarrow> \<not> bit m n)" for m
    using bit_eq_iff[of "st AND m" 0] bit_imp_le_length[of st] by (auto simp: bit_and_iff)
  show "(st AND kDelivered = 0) = (\<not> bit st 0)"
    using *[of kDelivered, unfolded flag_bits] by metis
  show "(st AND kAcked = 0) = (\<not> bit st 1)"
    using *[of kAcked, unfolded flag_bits] by metis
  show "(st AND kInFlight = 0) = (\<not> bit st 2)"
    using *[of kInFlight, unfolded flag_bits] by metis
qed

lemma flag_ops [simp]:
  "bit (st OR kInFlight) n = (bit st n \<or> n = 2)" "bit (st OR kAcked) n = (bit st n \<or> n = 1)"
  "bit (st OR kDelivered) n = (bit st n \<or> n = 0)"
  "bit (st AND NOT kInFlight) n = (bit st n \<and> n \<noteq> 2)"
  by (auto simp: bit_or_iff bit_and_iff bit_not_iff dest: bit_imp_le_length)

section \<open>The invariant of one sender\<close>

definition sender_ok :: "nat \<Rightarrow> FlowTx \<Rightarrow> (u32 \<Rightarrow> u8) \<Rightarrow> (u32 \<Rightarrow> u8) \<Rightarrow> u32 list
    \<Rightarrow> (u32 \<times> u8) multiset \<Rightarrow> bool" where
  "sender_ok M tx st at R T \<longleftrightarrow>
     tx_next_seq tx \<le> tx_packets_total tx \<and> tx_retx_head tx < tx_window tx
     \<and> unat (tx_in_flight tx) = card {idx. bit (st idx) 2}
     \<and> unat (tx_in_flight tx) + length R \<le> unat (tx_window tx)
     \<and> distinct R
     \<and> (\<forall>idx. tx_next_seq tx \<le> idx \<longrightarrow> st idx = 0 \<and> at idx = 0 \<and> idx \<notin> set R \<and> (\<forall>a. (idx, a) \<notin># T))
     \<and> (\<forall>idx. idx \<in> set R \<longrightarrow> \<not> bit (st idx) 2 \<and> (idx, at idx) \<notin># T)
     \<and> (\<forall>idx. bit (st idx) 1 \<longrightarrow> \<not> bit (st idx) 2)
     \<and> (\<forall>idx < tx_next_seq tx. unat (at idx) < M)
     \<and> (\<forall>idx a. (idx, a) \<in># T \<longrightarrow> a \<le> at idx)
     \<and> (\<not> tx_failed tx \<longrightarrow> (\<forall>idx < tx_next_seq tx. \<not> bit (st idx) 1 \<longrightarrow>
          (bit (st idx) 2 \<longleftrightarrow> idx \<notin> set R) \<and> count T (idx, at idx) = of_bool (bit (st idx) 2)))"

lemma sender_okD:
  assumes "sender_ok M tx st at R T"
  shows "tx_next_seq tx \<le> tx_packets_total tx" "tx_retx_head tx < tx_window tx"
    "unat (tx_in_flight tx) = card {idx. bit (st idx) 2}"
    "unat (tx_in_flight tx) + length R \<le> unat (tx_window tx)" "distinct R"
    "tx_next_seq tx \<le> idx \<Longrightarrow> st idx = 0 \<and> at idx = 0 \<and> idx \<notin> set R \<and> (idx, a) \<notin># T"
    "idx \<in> set R \<Longrightarrow> \<not> bit (st idx) 2" "idx \<in> set R \<Longrightarrow> (idx, at idx) \<notin># T"
    "bit (st idx) 1 \<Longrightarrow> \<not> bit (st idx) 2"
    "idx < tx_next_seq tx \<Longrightarrow> unat (at idx) < M"
    "(idx, a) \<in># T \<Longrightarrow> a \<le> at idx"
    "\<not> tx_failed tx \<Longrightarrow> idx < tx_next_seq tx \<Longrightarrow> \<not> bit (st idx) 1 \<Longrightarrow> bit (st idx) 2 \<longleftrightarrow> idx \<notin> set R"
    "\<not> tx_failed tx \<Longrightarrow> idx < tx_next_seq tx \<Longrightarrow> \<not> bit (st idx) 1 \<Longrightarrow>
       count T (idx, at idx) = of_bool (bit (st idx) 2)"
  using assms unfolding sender_ok_def by blast+

lemma sender_ok_in_ring: "sender_ok M tx st at R T \<Longrightarrow> idx \<in> set R \<Longrightarrow> idx < tx_next_seq tx"
  using sender_okD(6)[of M tx st at R T idx] by (meson not_le)

text \<open>Only these fields of the sender record matter to the invariant.\<close>

lemma sender_ok_fields:
  assumes "sender_ok M tx st at R T" "tx_next_seq tx' = tx_next_seq tx"
    "tx_packets_total tx' = tx_packets_total tx" "tx_window tx' = tx_window tx"
    "tx_in_flight tx' = tx_in_flight tx" "tx_failed tx' = tx_failed tx" "tx_retx_head tx' < tx_window tx"
  shows "sender_ok M tx' st at R T"
  using assms unfolding sender_ok_def by simp

lemma card_flag_insert:
  fixes st :: "u32 \<Rightarrow> u8"
  assumes "\<not> bit (st x) 2" "bit v 2"
  shows "card {idx. bit ((st(x := v)) idx) 2} = Suc (card {idx. bit (st idx) 2})"
proof -
  have "{idx. bit ((st(x := v)) idx) 2} = insert x {idx. bit (st idx) 2}" using assms by auto
  then show ?thesis using assms by simp
qed

lemma card_flag_remove:
  fixes st :: "u32 \<Rightarrow> u8"
  assumes "bit (st x) 2" "\<not> bit v 2"
  shows "Suc (card {idx. bit ((st(x := v)) idx) 2}) = card {idx. bit (st idx) 2}"
proof -
  have "{idx. bit (st idx) 2} = insert x {idx. bit ((st(x := v)) idx) 2}" using assms by auto
  moreover have "x \<notin> {idx. bit ((st(x := v)) idx) 2}" using assms by simp
  ultimately show ?thesis by simp
qed

lemma card_flag_same:
  fixes st :: "u32 \<Rightarrow> u8"
  assumes "bit (st x) 2 = bit v 2"
  shows "card {idx. bit ((st(x := v)) idx) 2} = card {idx. bit (st idx) 2}"
  using assms by (intro arg_cong[where f = card]) auto

lemma inc_in_flight:
  assumes "sender_ok M tx st at R T" "tx_in_flight tx < tx_window tx"
  shows "unat (tx_in_flight tx + 1) = Suc (unat (tx_in_flight tx))"
  using assms(2) by (rule unat_inc)

text \<open>Acknowledged packets leave the ring without a transmission.\<close>

lemma sender_ok_drop_acked:
  assumes ok: "sender_ok M tx st at (A @ R) T" and A: "\<forall>idx \<in> set A. bit (st idx) 1"
  shows "sender_ok M tx st at R T"
  unfolding sender_ok_def
proof (intro conjI allI impI)
  fix idx assume "\<not> tx_failed tx" "idx < tx_next_seq tx" "\<not> bit (st idx) 1"
  then show "bit (st idx) 2 \<longleftrightarrow> idx \<notin> set R"
    using sender_okD(12)[OF ok, of idx] A by auto
qed (use sender_okD[OF ok] in auto)

text \<open>A retransmission, and the first transmission of the next packet.\<close>

lemma sender_ok_send_retx:
  assumes ok: "sender_ok M tx st at (x # R) T" and w: "tx_in_flight tx < tx_window tx"
    and x: "\<not> bit (st x) 1"
    and tx': "tx' = tx\<lparr>tx_in_flight := tx_in_flight tx + 1, tx_next_send_ns := t\<rparr>"
  shows "sender_ok M tx' (st(x := st x OR kInFlight)) at R (add_mset (x, at x) T)"
proof -
  note D = sender_okD[OF ok]
  have xs: "x < tx_next_seq tx" using sender_ok_in_ring[OF ok] by simp
  have x2: "\<not> bit (st x) 2" using D(7)[of x] by simp
  show ?thesis
    unfolding sender_ok_def
  proof (intro conjI allI impI)
    show "unat (tx_in_flight tx') = card {idx. bit ((st(x := st x OR kInFlight)) idx) 2}"
      using card_flag_insert[of st x "st x OR kInFlight"] x2 inc_in_flight[OF ok w] D(3) by (simp add: tx')
    show "unat (tx_in_flight tx') + length R \<le> unat (tx_window tx')"
      using inc_in_flight[OF ok w] D(4) by (simp add: tx')
    fix idx assume "tx_next_seq tx' \<le> idx"
    then have "tx_next_seq tx \<le> idx" "idx \<noteq> x" using xs by (auto simp: tx')
    then show "(st(x := st x OR kInFlight)) idx = 0" "at idx = 0" "idx \<notin> set R"
      and "(idx, a) \<notin># add_mset (x, at x) T" for a
      using D(6)[of idx] by auto
  next
    fix idx assume "idx \<in> set R"
    then show "\<not> bit ((st(x := st x OR kInFlight)) idx) 2" "(idx, at idx) \<notin># add_mset (x, at x) T"
      using D(5) D(7,8)[of idx] by auto
  next
    fix idx assume "\<not> tx_failed tx'" "idx < tx_next_seq tx'" "\<not> bit ((st(x := st x OR kInFlight)) idx) 1"
    then have "\<not> tx_failed tx" "idx < tx_next_seq tx" "\<not> bit (st idx) 1" using x by (auto simp: tx' split: if_splits)
    then show "bit ((st(x := st x OR kInFlight)) idx) 2 \<longleftrightarrow> idx \<notin> set R"
      "count (add_mset (x, at x) T) (idx, at idx) = of_bool (bit ((st(x := st x OR kInFlight)) idx) 2)"
      using D(12,13)[of idx] D(5,8) by (auto simp: not_in_iff)
  qed (use D x in \<open>auto simp: tx'\<close>)
qed

lemma sender_ok_send_new:
  assumes ok: "sender_ok M tx st at [] T" and w: "tx_in_flight tx < tx_window tx"
    and x: "x = tx_next_seq tx" "x < tx_packets_total tx" and M: "0 < M"
    and tx': "tx' = tx\<lparr>tx_next_seq := x + 1, tx_in_flight := tx_in_flight tx + 1, tx_next_send_ns := t\<rparr>"
  shows "sender_ok M tx' (st(x := st x OR kInFlight)) at [] (add_mset (x, at x) T)"
proof -
  note D = sender_okD[OF ok]
  have sx: "st x = 0" "at x = 0" and Tx: "(x, a) \<notin># T" for a using D(6)[of x] x(1) by auto
  have le: "idx < x + 1 \<longleftrightarrow> idx \<le> x" "x + 1 \<le> idx \<longleftrightarrow> x < idx" for idx
    using unat_inc[OF x(2)] by (auto simp: word_less_nat_alt word_le_nat_alt)
  show ?thesis
    unfolding sender_ok_def
  proof (intro conjI allI impI)
    show "unat (tx_in_flight tx') = card {idx. bit ((st(x := st x OR kInFlight)) idx) 2}"
      using card_flag_insert[of st x "st x OR kInFlight"] sx inc_in_flight[OF ok w] D(3) by (simp add: tx')
    show "unat (tx_in_flight tx') + length [] \<le> unat (tx_window tx')"
      using inc_in_flight[OF ok w] w by (simp add: tx' word_less_nat_alt)
    show "tx_next_seq tx' \<le> tx_packets_total tx'"
      using x(2) unat_inc[OF x(2)] by (simp add: tx' word_less_nat_alt word_le_nat_alt)
    fix idx assume "tx_next_seq tx' \<le> idx"
    then have "x < idx" by (simp add: tx' le)
    then have "tx_next_seq tx \<le> idx" "idx \<noteq> x" using x(1) by auto
    then show "(st(x := st x OR kInFlight)) idx = 0" "at idx = 0" "idx \<notin> set []"
      and "(idx, a) \<notin># add_mset (x, at x) T" for a
      using D(6)[of idx] by auto
  next
    fix idx assume "idx < tx_next_seq tx'"
    then have "idx = x \<or> idx < x" by (auto simp: tx' le)
    then show "unat (at idx) < M" using D(10)[of idx] sx M x(1) by auto
  next
    fix idx assume a: "\<not> tx_failed tx'" "idx < tx_next_seq tx'" "\<not> bit ((st(x := st x OR kInFlight)) idx) 1"
    then have "idx = x \<or> idx < x" "\<not> tx_failed tx" by (auto simp: tx' le)
    then show "bit ((st(x := st x OR kInFlight)) idx) 2 \<longleftrightarrow> idx \<notin> set []"
      "count (add_mset (x, at x) T) (idx, at idx) = of_bool (bit ((st(x := st x OR kInFlight)) idx) 2)"
      using D(12,13)[of idx] Tx a(3) x(1) by (auto simp: not_in_iff)
  qed (use D sx x(1) in \<open>auto simp: tx'\<close>)
qed

section \<open>What a sender operation leaves alone\<close>

definition flow_timers :: "sim \<Rightarrow> nat \<Rightarrow> (u32 \<times> u8) multiset" where
  "flow_timers s i = image_mset snd (filter_mset (\<lambda>t. fst t = i) (timers (events s)))"

definition flow_injects :: "sim \<Rightarrow> nat \<Rightarrow> Nanos multiset" where
  "flow_injects s i = image_mset snd (filter_mset (\<lambda>t. fst t = i) (injects (events s)))"

text \<open>Bytes of packet \<open>idx\<close>, as \<open>send_packet\<close> computes them, and the packet it builds.\<close>

definition payload :: "FlowSpec \<Rightarrow> u32 \<Rightarrow> u16" where
  "payload spec idx = (let mtu = (ucast (fs_mtu_bytes spec) :: Bytes);
     remaining = fs_size_bytes spec - ucast idx * mtu in
     ucast (if remaining < mtu then remaining else mtu))"

definition data_packet :: "sim \<Rightarrow> nat \<Rightarrow> u32 \<Rightarrow> packet" where
  "data_packet s i idx = \<lparr>pkt_flow = id_at i, pkt_index = idx,
     pkt_bytes = payload (sim_specs s ! i) idx, pkt_kind = Data, pkt_attempt = 0\<rparr>"

definition sent_packets :: "sim \<Rightarrow> nat \<Rightarrow> (hop \<times> packet) set" where
  "sent_packets s i = {(AtPort (id_index (frt_src_nic (sim_froutes s ! i))), data_packet s i idx) | idx.
     idx < tx_next_seq (sim_tx s ! i)}"

definition run_delays :: "sim \<Rightarrow> nat \<Rightarrow> bool" where
  "run_delays s D \<longleftrightarrow> delays_ok (frozen s) D \<and> unat (tc_rto_ns (sim_transport s)) \<le> D
     \<and> (\<forall>p \<in> set (periods s). unat p \<le> D)"

definition run_timed :: "sim \<Rightarrow> nat \<Rightarrow> bool" where
  "run_timed s H \<longleftrightarrow> timed s H \<and> (\<forall>tx \<in> set (sim_tx s). unat (tx_next_send_ns tx) \<le> H)"

definition keeps_time :: "sim \<Rightarrow> sim \<Rightarrow> bool" where
  "keeps_time s s' \<longleftrightarrow> (\<forall>D H. run_delays s D \<longrightarrow> unat (sim_now s) + D \<le> H \<longrightarrow> H < 2 ^ 64 \<longrightarrow>
     run_timed s H \<longrightarrow> run_timed s' H)"

lemma keeps_timeD:
  "keeps_time s s' \<Longrightarrow> run_delays s D \<Longrightarrow> unat (sim_now s) + D \<le> H \<Longrightarrow> H < 2 ^ 64 \<Longrightarrow> run_timed s H \<Longrightarrow>
   run_timed s' H"
  by (auto simp: keeps_time_def)

definition common_frame :: "sim \<Rightarrow> sim \<Rightarrow> bool" where
  "common_frame s s' \<longleftrightarrow> fixed s' = fixed s \<and> periods s' = periods s \<and> sim_now s' = sim_now s
     \<and> sim_dependents_offset s' = sim_dependents_offset s \<and> sim_dependents s' = sim_dependents s
     \<and> rs_events_processed (sim_stats s') = rs_events_processed (sim_stats s)
     \<and> (\<forall>kd. unaccounted kd s' = unaccounted kd s)"

definition others_frame :: "nat \<Rightarrow> sim \<Rightarrow> sim \<Rightarrow> bool" where
  "others_frame i s s' \<longleftrightarrow> (\<forall>j < nflows s. j \<noteq> i \<longrightarrow> sim_tx s' ! j = sim_tx s ! j \<and> pst s' j = pst s j
     \<and> att s' j = att s j \<and> retx s' j = retx s j \<and> flow_timers s' j = flow_timers s j
     \<and> flow_injects s' j = flow_injects s j)
     \<and> (\<forall>t \<in># timers (events s'). t \<in># timers (events s) \<or> fst t = i)
     \<and> (\<forall>t \<in># injects (events s'). t \<in># injects (events s) \<or> fst t = i \<and> sim_now s \<le> snd t)"

definition sender_frame :: "nat \<Rightarrow> sim \<Rightarrow> sim \<Rightarrow> bool" where
  "sender_frame i s s' \<longleftrightarrow> common_frame s s' \<and> others_frame i s s' \<and> keeps_time s s'
     \<and> map res_core (sim_results s') = map res_core (sim_results s)
     \<and> (\<forall>idx n. n \<noteq> 2 \<longrightarrow> bit (pst s' i idx) n = bit (pst s i idx) n)
     \<and> tx_next_seq (sim_tx s ! i) \<le> tx_next_seq (sim_tx s' ! i)
     \<and> tx_failed (sim_tx s' ! i) = tx_failed (sim_tx s ! i)
     \<and> (\<forall>x \<in># carried s'. x \<in># carried s \<or> x \<in> sent_packets s' i)"

lemma common_frame_refl [simp]: "common_frame s s"
  by (simp add: common_frame_def)

lemma common_frame_trans: "common_frame s s1 \<Longrightarrow> common_frame s1 s2 \<Longrightarrow> common_frame s s2"
  by (simp add: common_frame_def)

lemma others_frame_refl [simp]: "others_frame i s s"
  by (simp add: others_frame_def)

lemma fixed_nflows: "fixed s' = fixed s \<Longrightarrow> nflows s' = nflows s"
  using setupD(4)[of s' s] by simp

lemma others_frame_trans:
  assumes "nflows s1 = nflows s" "sim_now s1 = sim_now s" "others_frame i s s1" "others_frame i s1 s2"
  shows "others_frame i s s2"
  unfolding others_frame_def
proof (intro conjI)
  note a = assms(3)[unfolded others_frame_def] and b = assms(4)[unfolded others_frame_def assms(2)]
  show "\<forall>j < nflows s. j \<noteq> i \<longrightarrow> sim_tx s2 ! j = sim_tx s ! j \<and> pst s2 j = pst s j
     \<and> att s2 j = att s j \<and> retx s2 j = retx s j \<and> flow_timers s2 j = flow_timers s j
     \<and> flow_injects s2 j = flow_injects s j"
    using conjunct1[OF a] conjunct1[OF b] assms(1) by simp
  show "\<forall>t \<in># timers (events s2). t \<in># timers (events s) \<or> fst t = i"
    using conjunct2[OF a] conjunct2[OF b] by blast
  show "\<forall>t \<in># injects (events s2). t \<in># injects (events s) \<or> fst t = i \<and> sim_now s \<le> snd t"
    using conjunct2[OF a] conjunct2[OF b] by blast
qed

lemma keeps_time_refl [simp]: "keeps_time s s"
  by (simp add: keeps_time_def)

lemma run_delays_cong:
  "fixed s' = fixed s \<Longrightarrow> periods s' = periods s \<Longrightarrow> run_delays s' D \<longleftrightarrow> run_delays s D"
  using setupD(1,3)[of s' s] by (simp add: run_delays_def)

lemma keeps_time_trans:
  assumes "common_frame s s1" "keeps_time s s1" "keeps_time s1 s2"
  shows "keeps_time s s2"
  unfolding keeps_time_def
proof (intro allI impI)
  fix D H assume a: "run_delays s D" "unat (sim_now s) + D \<le> H" "H < 2 ^ 64" "run_timed s H"
  have "fixed s1 = fixed s" "periods s1 = periods s" "sim_now s1 = sim_now s"
    using assms(1) by (simp_all add: common_frame_def)
  then have "run_delays s1 D" "unat (sim_now s1) + D \<le> H"
    using a run_delays_cong[of s1 s D] by simp_all
  then show "run_timed s2 H"
    using keeps_timeD[OF assms(3) _ _ a(3) keeps_timeD[OF assms(2) a]] by blast
qed

lemma data_packet_cong: "fixed s' = fixed s \<Longrightarrow> data_packet s' i idx = data_packet s i idx"
  using setupD(4)[of s' s] by (simp add: data_packet_def)

lemma sent_packets_mono:
  "fixed s' = fixed s \<Longrightarrow> tx_next_seq (sim_tx s ! i) \<le> tx_next_seq (sim_tx s' ! i) \<Longrightarrow>
   sent_packets s i \<subseteq> sent_packets s' i"
  using data_packet_cong[of s' s i] setupD(5)[of s' s]
  by (auto simp: sent_packets_def intro: less_le_trans)

lemma sender_frame_refl [simp]: "sender_frame i s s"
  by (simp add: sender_frame_def)

lemma sender_frame_trans:
  assumes "sender_frame i s s1" "sender_frame i s1 s2"
  shows "sender_frame i s s2"
proof -
  have c: "common_frame s s1" "common_frame s1 s2" using assms by (auto simp: sender_frame_def)
  then have f: "fixed s1 = fixed s" "fixed s2 = fixed s1" by (auto simp: common_frame_def)
  have n: "sim_now s1 = sim_now s" using c by (simp add: common_frame_def)
  have m: "tx_next_seq (sim_tx s1 ! i) \<le> tx_next_seq (sim_tx s2 ! i)"
    using assms by (simp add: sender_frame_def)
  have "\<forall>x \<in># carried s2. x \<in># carried s \<or> x \<in> sent_packets s2 i"
    using assms sent_packets_mono[OF f(2) m] by (auto simp: sender_frame_def)
  then show ?thesis
    using assms common_frame_trans[OF c] others_frame_trans[OF fixed_nflows[OF f(1)] n]
      keeps_time_trans[OF c(1)] by (auto simp: sender_frame_def)
qed

lemma delays_frozen: "delays_ok (frozen s) D = delays_ok (sim_fabric s) D"
  by (simp add: delays_ok_def port_count_def)

lemma net_inv_ports: "setup_ok s \<Longrightarrow> port_count (sim_fabric s) = port_count (frozen s)"
  by simp

section \<open>Sending one packet\<close>

lemma flow_index_at: "setup_ok s \<Longrightarrow> i < nflows s \<Longrightarrow> id_index (id_at i :: flow_id) = i"
  using setup_okD(2)[of s] by simp

lemma nic_in_range:
  assumes "setup_ok s" "i < nflows s"
  shows "id_index (frt_src_nic (sim_froutes s ! i)) < port_count (sim_fabric s)"
    "id_index (frt_dst_nic (sim_froutes s ! i)) < port_count (sim_fabric s)"
  using setup_okD(15)[OF assms] by (auto simp: flow_shape_def on_route_def)

lemma flow_views_add:
  "flow_timers s' i = (if fst t = i then {#snd t#} else {#}) + flow_timers s i"
  if "timers (events s') = add_mset t (timers (events s))"
  using that by (simp add: flow_timers_def)

definition sent_state :: "sim \<Rightarrow> nat \<Rightarrow> u32 \<Rightarrow> sim \<Rightarrow> bool" where
  "sent_state s i idx s' \<longleftrightarrow> net_inv s' \<and> common_frame s s' \<and> keeps_time s s'
     \<and> map res_core (sim_results s') = map res_core (sim_results s)
     \<and> sim_tx s' = (sim_tx s)[i := (sim_tx s ! i)\<lparr>tx_in_flight := tx_in_flight (sim_tx s ! i) + 1,
          tx_next_send_ns := sim_now s + tx_period_ns (sim_tx s ! i)\<rparr>]
     \<and> (\<forall>j < nflows s. pst s' j = (if j = i then (pst s i)(idx := pst s i idx OR kInFlight) else pst s j))
     \<and> att s' = att s \<and> retx_buf s' = retx_buf s
     \<and> timers (events s') = add_mset (i, idx, att s i idx) (timers (events s))
     \<and> injects (events s') = injects (events s)
     \<and> carried s' \<subseteq># add_mset (AtPort (id_index (frt_src_nic (sim_froutes s ! i))), data_packet s i idx)
          (carried s)"

lemma run_timed_frame:
  "run_timed s H \<Longrightarrow> timed s' H \<Longrightarrow> sim_tx s' = sim_tx s \<Longrightarrow> run_timed s' H"
  by (simp add: run_timed_def)

lemma send_packet_spec:
  assumes ok: "setup_ok s" and net: "net_inv s" and i: "id_index f = i" "i < nflows s"
    and idx: "idx < tots s ! i"
  shows "\<exists>s'. send_packet f idx s = Some s' \<and> sent_state s i idx s'"
proof -
  define tx where "tx = sim_tx s ! i"
  define tx' where "tx' = tx\<lparr>tx_in_flight := tx_in_flight tx + 1, tx_next_send_ns := sim_now s + tx_period_ns tx\<rparr>"
  define k where "k = pkt_pos s i idx"
  define a where "a = att s i idx"
  define b where "b = payload (sim_specs s ! i) idx"
  define pk where "pk = \<lparr>pkt_flow = f, pkt_index = idx, pkt_bytes = b, pkt_kind = Data, pkt_attempt = a\<rparr>"
  define e where "e = ev_timeout (sim_now s + tc_rto_ns (sim_transport s)) f idx a"
  define res1 where "res1 = (if a > 0 then (sim_results s)[i := (sim_results s ! i)\<lparr>res_packets_retransmitted :=
      res_packets_retransmitted (sim_results s ! i) + 1\<rparr>] else sim_results s)"
  define st1 where "st1 = (if a > 0 then (sim_stats s)\<lparr>rs_packets_retransmitted :=
                rs_packets_retransmitted (sim_stats s) + 1\<rparr> else sim_stats s)"
  define st2 where "st2 = st1\<lparr>rs_bytes_injected := rs_bytes_injected (sim_stats s) + ucast b\<rparr>"
  define s1 where "s1 = s\<lparr>sim_results := res1,
     sim_pkt_state := (sim_pkt_state s)[k := pst s i idx OR kInFlight], sim_tx := (sim_tx s)[i := tx'],
     sim_stats := st2\<rparr>"
  define s2 where "s2 = push_event e s1"
  have fi: "f = id_at i" using i(1) id_at_index[of f] by simp
  have lens: "i < length (sim_tx s)" "i < length (sim_results s)" "i < length (sim_froutes s)"
    "k < length (sim_pkt_state s)" "k < length (sim_pkt_attempt s)"
    using setup_okD(3,4,7)[OF ok] i pkt_pos_less[OF ok i(2) idx] setup_okD(10,11)[OF ok]
    by (simp_all add: k_def)
  have attk: "sim_pkt_attempt s ! k = a" and pstk: "sim_pkt_state s ! k = pst s i idx"
    using idx by (simp_all add: a_def k_def att_def pst_def)
  have run: "send_packet f idx s = enqueue (frt_src_nic (sim_froutes s ! i)) pk s2"
    using i idx lens pkt_slot_Some[OF ok, of f idx] attk pstk
    by (cases "a > 0")
       (simp_all add: send_packet_def get_tx_def get_result_def put_result_def put_tx_def put_pkt_state_def
        fabric_simps s2_def s1_def e_def pk_def res1_def st1_def st2_def tx'_def tx_def b_def[unfolded payload_def Let_def]
        k_def[symmetric] push_event_def Let_def del: if_split split del: if_split)
  have fx1: "fixed s1 = fixed s"
  proof -
    have "res_packets_total (res1 ! i) = res_packets_total (sim_results s ! i)" if "i < length (sim_results s)"
      using that by (simp add: res1_def)
    moreover have "map res_packets_total res1 = map res_packets_total (sim_results s)"
      using lens(2) by (auto simp: res1_def intro: map_update_same)
    ultimately show ?thesis
      using lens by (simp add: fixed_def s1_def wins_def tots_def map_update_same tx'_def tx_def)
  qed
  have fx2: "fixed s2 = fixed s" using fx1 by (simp add: s2_def)
  have ok2: "setup_ok s2" using setup_ok_cong[OF fx2] ok by simp
  have q: "eq_inv (sim_queue s)" using net by (simp add: net_inv_def)
  have E: "events s2 = add_mset (eq_stamp (sim_queue s) e) (events s)"
    using q by (simp add: s2_def s1_def evq.push_items)
  have net2: "net_inv s2"
    using net unfolding net_inv_def E by (simp add: s2_def s1_def e_def views_add evq.push_invar)
  have nic: "id_index (frt_src_nic (sim_froutes s ! i)) < port_count (sim_fabric s2)"
    using nic_in_range(1)[OF ok i(2)] by (simp add: s2_def s1_def)
  have flow: "id_index (pkt_flow pk) < length (sim_results s2)"
    using lens i by (simp add: pk_def s2_def s1_def res1_def)
  obtain s' where s': "enqueue (frt_src_nic (sim_froutes s ! i)) pk s2 = Some s'" "net_inv s'" "net_frame s2 s'"
    "carried s' \<subseteq># add_mset (AtPort (id_index (frt_src_nic (sim_froutes s ! i))), plain pk) (carried s2)"
    "\<And>kd. unaccounted kd s' = unaccounted kd s2 - (if pkt_kind pk = kd then ucast (pkt_bytes pk) else 0)"
    "\<And>D H. delays_ok (sim_fabric s2) D \<Longrightarrow> unat (sim_now s2) + D \<le> H \<Longrightarrow> H < 2 ^ 64 \<Longrightarrow>
       timed s2 H \<Longrightarrow> timed s' H"
    using enqueue_effect[OF net2 nic flow] by metis
  note fr = net_frameD[OF s'(3)]
  have c2: "carried s2 = carried s"
    unfolding carried_def E by (simp add: views_add e_def s2_def s1_def)
  have pl: "plain pk = data_packet s i idx" by (simp add: pk_def plain_def data_packet_def b_def fi)
  have fx: "fixed s' = fixed s" using setup_frame[OF s'(3)] fx2 by simp
  have sa: "same_arrays s2 s'" using fr by (simp add: same_arrays_def)
  have V: "pst s' = pst s2" "att s' = att s2" "retx_buf s' = retx_buf s2"
    using views_cong[OF setup_frame[OF s'(3)] sa] by auto
  let ?sp = "s\<lparr>sim_pkt_state := (sim_pkt_state s)[k := pst s i idx OR kInFlight]\<rparr>"
  have fxp: "fixed s2 = fixed ?sp" using fx2 by simp
  have sap: "same_arrays ?sp s2" by (simp add: same_arrays_def s2_def s1_def)
  have "pst s2 = pst ?sp" using views_cong(1)[OF fxp sap] .
  then have P: "pst s' j = (if j = i then (pst s i)(idx := pst s i idx OR kInFlight) else pst s j)"
    if "j < nflows s" for j
    using pst_update[OF ok i(2) idx that, of "pst s i idx OR kInFlight"] V(1) by (simp add: k_def)
  have A: "att s' = att s" "retx_buf s' = retx_buf s"
    using V setupD[OF fx2] by (simp_all add: att_def retx_buf_def pkt_pos_def s2_def s1_def fun_eq_iff)
  have per: "periods s' = periods s"
    using fr(6) lens by (simp add: periods_def s2_def s1_def map_update_same tx'_def tx_def)
  have dr: "map res_core (sim_results s') = map res_core (sim_results s)"
    using fr(7) lens by (auto simp: s2_def s1_def res1_def res_core_def intro!: map_update_same)
  have un: "unaccounted kd s' = unaccounted kd s" for kd
  proof -
    have "unaccounted kd s2 = unaccounted kd s + (if Data = kd then ucast b else 0)"
      unfolding unaccounted_def c2 by (simp add: s2_def s1_def st2_def st1_def ledger_eqs)
    then show ?thesis using s'(5)[of kd] by (simp add: pk_def)
  qed
  have cf: "common_frame s s'"
    unfolding common_frame_def using fx per un fr by (simp add: s2_def s1_def st2_def st1_def)
  have kt: "keeps_time s s'"
    unfolding keeps_time_def
  proof (intro allI impI)
    fix D H assume a: "run_delays s D" "unat (sim_now s) + D \<le> H" "H < 2 ^ 64" "run_timed s H"
    have "tx_period_ns tx \<in> set (periods s)" using lens by (auto simp: periods_def tx_def)
    then have p: "unat (tx_period_ns tx) \<le> D" and r: "unat (tc_rto_ns (sim_transport s)) \<le> D"
      using a(1) by (auto simp: run_delays_def)
    note l1 = later_time[OF a(2,3) p] and l2 = later_time[OF a(2,3) r]
    have q1: "eq_inv (sim_queue s1)" using q by (simp add: s1_def)
    have "timed s1 H" using a(4) by (simp add: timed_def s1_def run_timed_def)
    then have "timed s2 H" unfolding s2_def by (rule timed_push[OF q1]) (use l2 in \<open>simp_all add: e_def s1_def\<close>)
    moreover have "delays_ok (sim_fabric s2) D"
      using a(1) delays_frozen[of s] by (simp add: run_delays_def s2_def s1_def)
    moreover have "unat (sim_now s2) + D \<le> H" using a(2) by (simp add: s2_def s1_def)
    ultimately have "timed s' H" using s'(6) a(3) by blast
    moreover have "\<forall>x \<in> set (sim_tx s'). unat (tx_next_send_ns x) \<le> H"
      using a(4) l1(2) fr(6) set_update_subset_insert[of "sim_tx s" i tx']
      by (auto simp: run_timed_def s2_def s1_def tx'_def)
    ultimately show "run_timed s' H" by (simp add: run_timed_def)
  qed
  have tm: "timers (events s') = add_mset (i, idx, a) (timers (events s))"
    "injects (events s') = injects (events s)"
    unfolding fr(16,17) E by (simp_all add: views_add e_def i(1))
  have tx: "sim_tx s' = (sim_tx s)[i := tx']" using fr(6) by (simp add: s2_def s1_def)
  have ca: "carried s' \<subseteq># add_mset (AtPort (id_index (frt_src_nic (sim_froutes s ! i))), data_packet s i idx)
      (carried s)" using s'(4) unfolding pl c2 .
  have "sent_state s i idx s'"
    unfolding sent_state_def using s'(2) cf kt dr P A tm tx ca
    unfolding tx'_def tx_def a_def by blast
  then show ?thesis using run s'(1) by auto
qed

end
