(* ===== verification/Sim_Window.thy ===== *)
theory Sim_Window
  imports Sim_Sender
begin

text \<open>
  \<open>try_send\<close> as a whole: the scan of the retransmission ring, the window loop and its
  termination, the pacing gate, and the potential that pays for everything a sender can
  still cause.  \<open>on_inject\<close>, \<open>on_ack\<close> and \<open>on_timeout\<close> rest on the one lemma about
  \<open>try_send\<close> at the end.
\<close>

section \<open>Scanning the retransmission ring\<close>

lemma retx_list_pop:
  assumes "tx_retx_head tx < tx_window tx" "0 < tx_retx_count tx"
    "tx' = tx\<lparr>tx_retx_head := (if tx_retx_head tx + 1 = tx_window tx then 0 else tx_retx_head tx + 1),
       tx_retx_count := tx_retx_count tx - 1\<rparr>"
  shows "retx_list buf tx = buf ! unat (tx_retx_head tx) # retx_list buf tx'" "tx_retx_head tx' < tx_window tx'"
proof -
  let ?h = "unat (tx_retx_head tx)" and ?c = "unat (tx_window tx)" and ?n = "unat (tx_retx_count tx)"
  have h: "?h < ?c" using assms(1) by (simp add: word_less_nat_alt)
  have n: "0 < ?n" using assms(2) by (simp add: unat_gt_0)
  have inc: "unat (tx_retx_head tx + 1) = Suc ?h" using unat_inc[OF assms(1)] .
  have hd: "unat (tx_retx_head tx') = (?h + 1) mod ?c"
  proof (cases "tx_retx_head tx + 1 = tx_window tx")
    case True
    then have "Suc ?h = ?c" using inc by simp
    then show ?thesis using True assms(3) by simp
  next
    case False
    then have "Suc ?h \<noteq> ?c" using inc by (metis word_unat_eq_iff)
    then show ?thesis using False assms(3) inc h by simp
  qed
  have "unat (tx_retx_count tx') = ?n - 1"
    using unat_dec[of "tx_retx_count tx"] assms(2,3) by (simp add: word_neq_0_conv)
  then show "retx_list buf tx = buf ! ?h # retx_list buf tx'"
    using circ_pop[OF n h, of buf] hd assms(3) by (simp add: retx_list_def)
  have "(?h + 1) mod ?c < ?c" using h by simp
  then show "tx_retx_head tx' < tx_window tx'" using hd assms(3) by (simp add: word_less_nat_alt)
qed

lemma length_retx_list [simp]: "length (retx_list buf tx) = unat (tx_retx_count tx)"
  by (simp add: retx_list_def)

lemma retx_head_slot:
  assumes "setup_ok s" "i < nflows s" "x < wins s ! i"
  shows "unat (of_nat (psum (wins s) i) + x :: u32) = psum (wins s) i + unat x"
    "psum (wins s) i + unat x < length (sim_retx_ring s)"
    "sim_retx_ring s ! (psum (wins s) i + unat x) = retx_buf s i ! unat x"
proof -
  show "unat (of_nat (psum (wins s) i) + x :: u32) = psum (wins s) i + unat x"
    by (rule word_slot[OF _ assms(3)]) (use assms(2) setup_okD(5,14)[OF assms(1)] in simp_all)
  show l: "psum (wins s) i + unat x < length (sim_retx_ring s)"
    using psum_in[of i "wins s" x] assms by (simp add: setup_okD)
  then show "sim_retx_ring s ! (psum (wins s) i + unat x) = retx_buf s i ! unat x"
    by (simp add: retx_buf_def)
qed

lemma scan_retx_spec:
  assumes ok: "setup_ok s" and i: "i < nflows s"
    and "tx_window tx = wins s ! i" "tx_retx_head tx < tx_window tx"
    and "\<forall>x \<in> set (retx_list (retx_buf s i) tx). x < tots s ! i"
  shows "\<exists>A found h c. scan_retx (sim_retx_ring s) (sim_pkt_state s) (of_nat (psum (tots s) i))
        (of_nat (psum (wins s) i)) tx = Some (found, tx\<lparr>tx_retx_head := h, tx_retx_count := c\<rparr>)
    \<and> h < tx_window tx \<and> (\<forall>x \<in> set A. bit (pst s i x) 1)
    \<and> (case found of None \<Rightarrow> retx_list (retx_buf s i) tx = A \<and> c = 0
       | Some x \<Rightarrow> retx_list (retx_buf s i) tx
           = A @ x # retx_list (retx_buf s i) (tx\<lparr>tx_retx_head := h, tx_retx_count := c\<rparr>)
           \<and> \<not> bit (pst s i x) 1)"
  using assms(3-5)
proof (induction "unat (tx_retx_count tx)" arbitrary: tx)
  case 0
  then have "tx_retx_count tx = 0" by (metis unat_eq_0)
  then show ?case
    using 0 by (intro exI[of _ "[]"] exI[of _ None] exI[of _ "tx_retx_head tx"] exI[of _ 0])
      (simp add: scan_retx.simps retx_list_def)
next
  case (Suc n)
  then have pos: "0 < tx_retx_count tx" unfolding word_less_nat_alt by simp
  define tx1 where "tx1 = tx\<lparr>tx_retx_head := (if tx_retx_head tx + 1 = tx_window tx then 0 else tx_retx_head tx + 1),
       tx_retx_count := tx_retx_count tx - 1\<rparr>"
  define x where "x = retx_buf s i ! unat (tx_retx_head tx)"
  note pop = retx_list_pop[OF Suc.prems(2) pos tx1_def]
  have x: "x < tots s ! i" using Suc.prems(3) pop(1) by (simp add: x_def)
  have h: "tx_retx_head tx < wins s ! i" using Suc.prems(1,2) by simp
  note hs = retx_head_slot[OF ok i h]
  have rd: "vget (sim_retx_ring s) (unat (of_nat (psum (wins s) i) + tx_retx_head tx)) = Some x"
    using hs by (simp add: vget_def x_def)
  have st: "vget (sim_pkt_state s) (unat (of_nat (psum (tots s) i) + x)) = Some (pst s i x)"
    using base_slot(2)[OF ok i x] read_pkt(1)[OF ok i x] by simp
  let ?scan = "scan_retx (sim_retx_ring s) (sim_pkt_state s) (of_nat (psum (tots s) i)) (of_nat (psum (wins s) i))"
  have step: "?scan tx = (if bit (pst s i x) 1 then ?scan tx1 else Some (Some x, tx1))"
    using pos rd st by (subst scan_retx.simps) (simp add: tx1_def Let_def)
  show ?case
  proof (cases "bit (pst s i x) 1")
    case False
    then show ?thesis
      using step pop by (intro exI[of _ "[]"] exI[of _ "Some x"] exI[of _ "tx_retx_head tx1"]
          exI[of _ "tx_retx_count tx1"]) (simp add: tx1_def x_def)
  next
    case True
    have n: "n = unat (tx_retx_count tx1)"
      using Suc.hyps(2) unat_dec[of "tx_retx_count tx"] pos by (simp add: tx1_def word_neq_0_conv)
    obtain A found h c where r: "?scan tx1 = Some (found, tx1\<lparr>tx_retx_head := h, tx_retx_count := c\<rparr>)"
      "h < tx_window tx1" "\<forall>x \<in> set A. bit (pst s i x) 1"
      "case found of None \<Rightarrow> retx_list (retx_buf s i) tx1 = A \<and> c = 0
       | Some x \<Rightarrow> retx_list (retx_buf s i) tx1
           = A @ x # retx_list (retx_buf s i) (tx1\<lparr>tx_retx_head := h, tx_retx_count := c\<rparr>)
           \<and> \<not> bit (pst s i x) 1"
      using Suc.hyps(1)[OF n] pop Suc.prems by (auto simp: tx1_def)
    have "tx1\<lparr>tx_retx_head := h, tx_retx_count := c\<rparr> = tx\<lparr>tx_retx_head := h, tx_retx_count := c\<rparr>"
      by (simp add: tx1_def)
    then show ?thesis
      using step True r pop(1) by (intro exI[of _ "x # A"] exI[of _ found] exI[of _ h] exI[of _ c])
        (auto simp: tx1_def x_def split: option.splits)
  qed
qed

section \<open>The potential of a run\<close>

text \<open>Attempts flow \<open>i\<close> can still make.\<close>

definition attempts_left :: "nat \<Rightarrow> FlowTx \<Rightarrow> (u32 \<Rightarrow> u8) \<Rightarrow> u32 list \<Rightarrow> u32 \<Rightarrow> nat" where
  "attempts_left M tx at R idx = M - unat (at idx) - of_bool (idx < tx_next_seq tx \<and> idx \<notin> set R)"

definition sends_left :: "nat \<Rightarrow> FlowTx \<Rightarrow> (u32 \<Rightarrow> u8) \<Rightarrow> u32 list \<Rightarrow> nat" where
  "sends_left M tx at R = (\<Sum>idx | idx < tx_packets_total tx. attempts_left M tx at R idx)"

lemma sends_left_le:
  assumes "tx_packets_total tx' = tx_packets_total tx"
    "\<And>idx. idx < tx_packets_total tx \<Longrightarrow> attempts_left M tx' at' R' idx \<le> attempts_left M tx at R idx"
  shows "sends_left M tx' at' R' \<le> sends_left M tx at R"
  unfolding sends_left_def assms(1) by (rule sum_mono) (use assms(2) in simp)

lemma sends_left_less:
  assumes "tx_packets_total tx' = tx_packets_total tx"
    "\<And>idx. idx < tx_packets_total tx \<Longrightarrow> attempts_left M tx' at' R' idx \<le> attempts_left M tx at R idx"
    "x < tx_packets_total tx" "attempts_left M tx' at' R' x < attempts_left M tx at R x"
  shows "Suc (sends_left M tx' at' R') \<le> sends_left M tx at R"
  unfolding sends_left_def assms(1) Suc_le_eq
  by (rule sum_strict_mono_ex1) (use assms in auto)

lemma sends_left_drop:
  assumes "\<forall>idx. at' idx = at idx" "set R' \<subseteq> set R" "tx_packets_total tx' = tx_packets_total tx"
    "tx_next_seq tx' = tx_next_seq tx"
  shows "sends_left M tx' at' R' \<le> sends_left M tx at R"
  by (rule sends_left_le) (use assms in \<open>auto simp: attempts_left_def\<close>)

lemma sends_left_retx:
  assumes ok: "sender_ok M tx st at (A @ x # R) T"
    and tx': "tx_packets_total tx' = tx_packets_total tx" "tx_next_seq tx' = tx_next_seq tx"
  shows "Suc (sends_left M tx' at R) \<le> sends_left M tx at (A @ x # R)"
proof (rule sends_left_less[OF tx'(1)])
  have x: "x < tx_next_seq tx" using sender_ok_in_ring[OF ok] by simp
  then show "x < tx_packets_total tx" using sender_okD(1)[OF ok] by simp
  have "unat (at x) < M" using sender_okD(10)[OF ok x] .
  then show "attempts_left M tx' at R x < attempts_left M tx at (A @ x # R) x"
    using x tx'(2) sender_okD(5)[OF ok] by (simp add: attempts_left_def)
qed (use tx' in \<open>auto simp: attempts_left_def\<close>)

lemma sends_left_new:
  assumes ok: "sender_ok M tx st at R T" and x: "x = tx_next_seq tx" "x < tx_packets_total tx" and M: "0 < M"
    and tx': "tx_packets_total tx' = tx_packets_total tx" "tx_next_seq tx' = x + 1" and R: "set R' \<subseteq> set R"
  shows "Suc (sends_left M tx' at R') \<le> sends_left M tx at R"
proof (rule sends_left_less[OF tx'(1)])
  have less: "idx < x + 1 \<longleftrightarrow> idx = x \<or> idx < x" for idx
    using unat_inc[OF x(2)] by (auto simp: word_less_nat_alt word_unat_eq_iff)
  show "x < tx_packets_total tx" by (rule x(2))
  have "at x = 0" "x \<notin> set R" using sender_okD(6)[OF ok, of x] x(1) by auto
  then show "attempts_left M tx' at R' x < attempts_left M tx at R x"
    using x(1) M tx'(2) less[of x] R by (auto simp: attempts_left_def)
  fix idx assume "idx < tx_packets_total tx"
  show "attempts_left M tx' at R' idx \<le> attempts_left M tx at R idx"
    using x(1) tx'(2) less[of idx] R by (auto simp: attempts_left_def)
qed

text \<open>A pending injection weighs two while the pacing gate is still shut at its time.\<close>

definition inject_weight :: "Nanos \<Rightarrow> Nanos multiset \<Rightarrow> nat" where
  "inject_weight due I = (\<Sum>t\<in>#I. if t < due then 2 else 1)"

lemma inject_weight_bounds: "size I \<le> inject_weight due I" "inject_weight due I \<le> 2 * size I"
  unfolding inject_weight_def by (induction I) auto

lemma inject_weight_add [simp]:
  "inject_weight due (add_mset t I) = (if t < due then 2 else 1) + inject_weight due I"
  "inject_weight due {#} = 0"
  by (simp_all add: inject_weight_def)

definition max_tries :: "sim \<Rightarrow> nat" where
  "max_tries s = unat (tc_max_attempts (sim_transport s))"

definition dest_host :: "sim \<Rightarrow> packet \<Rightarrow> nat" where
  "dest_host s k = (let fr = sim_froutes s ! id_index (pkt_flow k) in
     unat (if pkt_kind k = Ack then frt_src_host fr else frt_dst_host fr))"

definition diameter :: "sim \<Rightarrow> nat" where "diameter s = node_count (frozen s)"

fun hop_left :: "fabric \<Rightarrow> nat \<Rightarrow> hop \<Rightarrow> nat" where
  "hop_left F h (AtPort p) = 2 * hop_rank F h (owner_index F p)"
| "hop_left F h (OnWire p) = 2 * hop_rank F h (owner_index F p) - 1"

definition packet_weight :: "sim \<Rightarrow> hop \<times> packet \<Rightarrow> nat" where
  "packet_weight s x = hop_left (frozen s) (dest_host s (snd x)) (fst x)
     + (if pkt_kind (snd x) = Data then 2 * diameter s + 1 else 1)"

definition send_weight :: "sim \<Rightarrow> nat" where "send_weight s = 4 * diameter s + 6"

definition flow_weight :: "sim \<Rightarrow> nat \<Rightarrow> nat" where
  "flow_weight s i = send_weight s * sends_left (max_tries s) (sim_tx s ! i) (att s i) (retx s i)
     + inject_weight (tx_next_send_ns (sim_tx s ! i)) (flow_injects s i)"

definition waiting :: "sim \<Rightarrow> nat \<Rightarrow> bool" where
  "waiting s i \<longleftrightarrow> id_valid (fs_depends_on (sim_specs s ! i))
     \<and> \<not> res_complete (sim_results s ! id_index (fs_depends_on (sim_specs s ! i)))"

definition potential :: "sim \<Rightarrow> nat" where
  "potential s = (\<Sum>i<nflows s. flow_weight s i + of_bool (waiting s i)) + 2 * size (timers (events s))
     + (\<Sum>x\<in>#carried s. packet_weight s x)"

section \<open>One transmission\<close>

definition sender_at :: "sim \<Rightarrow> nat \<Rightarrow> bool" where
  "sender_at s i \<longleftrightarrow> sender_ok (max_tries s) (sim_tx s ! i) (pst s i) (att s i) (retx s i) (flow_timers s i)
     \<and> size (flow_injects s i) \<le> 1 + of_bool (tx_send_scheduled (sim_tx s ! i))
     \<and> (tx_send_scheduled (sim_tx s ! i) \<longrightarrow> flow_injects s i \<noteq> {#})"

definition sender_idle :: "sim \<Rightarrow> nat \<Rightarrow> bool" where
  "sender_idle s i \<longleftrightarrow> tx_failed (sim_tx s ! i) \<or> flow_injects s i \<noteq> {#}
     \<or> tx_in_flight (sim_tx s ! i) = tx_window (sim_tx s ! i)
     \<or> retx s i = [] \<and> tx_next_seq (sim_tx s ! i) = tx_packets_total (sim_tx s ! i)"

definition net_weight :: "sim \<Rightarrow> nat" where
  "net_weight s = 2 * size (timers (events s)) + (\<Sum>x\<in>#carried s. packet_weight s x)"

lemma potential_split:
  assumes "i < nflows s"
  shows "potential s = flow_weight s i + (\<Sum>j\<in>{..<nflows s} - {i}. flow_weight s j)
    + (\<Sum>j<nflows s. of_bool (waiting s j)) + net_weight s"
  using assms by (simp add: potential_def net_weight_def sum.distrib sum.remove[of "{..<nflows s}" i "flow_weight s"])

lemma fixed_weights:
  assumes "fixed s' = fixed s"
  shows "max_tries s' = max_tries s" "diameter s' = diameter s" "send_weight s' = send_weight s"
    "packet_weight s' = packet_weight s" "dest_host s' = dest_host s"
proof -
  note f = setupD[OF assms]
  show d: "max_tries s' = max_tries s" "diameter s' = diameter s"
    using f by (simp_all add: max_tries_def diameter_def)
  then show "send_weight s' = send_weight s" by (simp add: send_weight_def)
  show h: "dest_host s' = dest_host s" using f by (simp add: dest_host_def fun_eq_iff)
  then show "packet_weight s' = packet_weight s" using f d by (simp add: packet_weight_def fun_eq_iff)
qed

lemma waiting_cong:
  assumes "fixed s' = fixed s" "map res_core (sim_results s') = map res_core (sim_results s)"
    "setup_ok s" "j < nflows s"
  shows "waiting s' j = waiting s j"
proof -
  let ?d = "id_index (fs_depends_on (sim_specs s ! j))"
  have L: "length (sim_results s) = nflows s" using setup_okD(7)[OF assms(3)] .
  have "res_complete (sim_results s' ! d) = res_complete (sim_results s ! d)" if "d < nflows s" for d
  proof -
    have "d < length (sim_results s')" using that L map_eq_imp_length_eq[OF assms(2)] by simp
    then have "res_core (sim_results s' ! d) = res_core (sim_results s ! d)"
      using arg_cong[OF assms(2), of "\<lambda>xs. xs ! d"] that L by simp
    then have "res_complete (res_core (sim_results s' ! d)) = res_complete (res_core (sim_results s ! d))"
      by (rule arg_cong)
    then show ?thesis by (simp add: res_core_def)
  qed
  moreover have "id_valid (fs_depends_on (sim_specs s ! j)) \<longrightarrow> ?d < nflows s"
    using setup_okD(15)[OF assms(3,4)] assms(4) by (auto simp: flow_shape_def)
  ultimately show ?thesis using setupD(4)[OF assms(1)] by (auto simp: waiting_def)
qed

lemma potential_change:
  assumes ok: "setup_ok s" and i: "i < nflows s" and fx: "fixed s' = fixed s"
    and o: "others_frame i s s'" and r: "\<And>j. j < nflows s \<Longrightarrow> waiting s' j = waiting s j"
    and d: "flow_weight s' i + net_weight s' + a \<le> flow_weight s i + net_weight s + b"
  shows "potential s' + a \<le> potential s + b"
proof -
  have n: "nflows s' = nflows s" using fixed_nflows[OF fx] .
  have "(\<Sum>j\<in>{..<nflows s} - {i}. flow_weight s' j) = (\<Sum>j\<in>{..<nflows s} - {i}. flow_weight s j)"
  proof (rule sum.cong)
    fix j assume "j \<in> {..<nflows s} - {i}"
    then show "flow_weight s' j = flow_weight s j"
      using o fixed_weights[OF fx] by (simp add: flow_weight_def others_frame_def)
  qed simp
  moreover have "(\<Sum>j<nflows s. of_bool (waiting s' j) :: nat) = (\<Sum>j<nflows s. of_bool (waiting s j))"
    by (rule sum.cong) (use r in auto)
  ultimately show ?thesis
    using potential_split[OF i] potential_split[of i s'] i n d by simp
qed

lemma hop_left_bound:
  assumes "fabric_ready F rt" "on_route F h p"
  shows "hop_left F h (AtPort p) \<le> 2 * node_count F" "Suc (hop_left F h (OnWire p)) = hop_left F h (AtPort p)"
    "hop_left F h (AtPort p) = 2 * hop_rank F h (peer_index F p) + 2"
proof -
  have "h < host_count F" "p < port_count F" "fabric_ok F"
    using assms by (auto simp: on_route_def fabric_ready_def)
  then have "hop_rank F h (owner_index F p) < node_count F"
    using rank_less[OF assms(1)] wiredD(1) by blast
  then show "hop_left F h (AtPort p) \<le> 2 * node_count F" by simp
  show "Suc (hop_left F h (OnWire p)) = hop_left F h (AtPort p)"
    "hop_left F h (AtPort p) = 2 * hop_rank F h (peer_index F p) + 2"
    using on_route_rank[OF assms] by simp_all
qed

lemma data_packet_weight:
  assumes "setup_ok s" "i < nflows s"
  shows "packet_weight s (AtPort (id_index (frt_src_nic (sim_froutes s ! i))), data_packet s i idx)
    \<le> 4 * diameter s + 1"
proof -
  let ?fr = "sim_froutes s ! i"
  have "on_route (frozen s) (unat (frt_dst_host ?fr)) (id_index (frt_src_nic ?fr))"
    using setup_okD(15)[OF assms] by (simp add: flow_shape_def)
  from hop_left_bound(1)[OF setup_okD(1)[OF assms(1)] this] show ?thesis
    using flow_index_at[OF assms]
    by (simp add: packet_weight_def data_packet_def dest_host_def diameter_def)
qed

lemma sum_mset_subset: "A \<subseteq># add_mset x B \<Longrightarrow> (\<Sum>y\<in>#A. f y) \<le> f x + (\<Sum>y\<in>#B. (f y :: nat))"
proof -
  assume "A \<subseteq># add_mset x B"
  then have "(\<Sum>y\<in>#A. f y) \<le> (\<Sum>y\<in>#add_mset x B. f y)"
    by (metis image_mset_subseteq_mono subset_mset.add_diff_inverse le_add1 sum_mset.union)
  then show ?thesis by simp
qed

lemma flow_timers_cong:
  "timers (events s') = timers (events s) \<Longrightarrow> flow_timers s' = flow_timers s"
  "injects (events s') = injects (events s) \<Longrightarrow> flow_injects s' = flow_injects s"
  by (simp_all add: flow_timers_def flow_injects_def fun_eq_iff)

lemma transmit:
  assumes ok: "setup_ok s" and net: "net_inv s" and i: "id_index f = i" "i < nflows s"
    and snd: "sender_at s i" and tx: "tx = sim_tx s ! i"
    and idx: "idx < tx_next_seq tx1" "tx_next_seq tx1 \<le> tx_packets_total tx" "tx_next_seq tx \<le> tx_next_seq tx1"
    and same: "tx_window tx1 = tx_window tx" "tx_packets_total tx1 = tx_packets_total tx"
      "tx_period_ns tx1 = tx_period_ns tx" "tx_send_scheduled tx1 = tx_send_scheduled tx"
      "tx_next_send_ns tx1 = tx_next_send_ns tx" "tx_failed tx1 = tx_failed tx"
    and sok: "\<And>t. sender_ok (max_tries s) (tx1\<lparr>tx_in_flight := tx_in_flight tx1 + 1, tx_next_send_ns := t\<rparr>)
        ((pst s i)(idx := pst s i idx OR kInFlight)) (att s i) (retx_list (retx_buf s i) tx1)
        (add_mset (idx, att s i idx) (flow_timers s i))"
    and left: "Suc (sends_left (max_tries s) tx1 (att s i) (retx_list (retx_buf s i) tx1))
        \<le> sends_left (max_tries s) tx (att s i) (retx s i)"
  shows "\<exists>s1 s'. put_tx f tx1 s = Some s1 \<and> send_packet f idx s1 = Some s' \<and> net_inv s' \<and> sender_frame i s s'
    \<and> sender_at s' i \<and> tx_in_flight (sim_tx s' ! i) = tx_in_flight tx1 + 1
    \<and> tx_window (sim_tx s' ! i) = tx_window tx \<and> tx_failed (sim_tx s' ! i) = tx_failed tx1
    \<and> Suc (potential s') \<le> potential s"
proof -
  define s1 where "s1 = s\<lparr>sim_tx := (sim_tx s)[i := tx1]\<rparr>"
  have L: "i < length (sim_tx s)" using setup_okD(4)[OF ok] i by simp
  have p1: "put_tx f tx1 s = Some s1" using put_tx_Some[OF ok, of f tx1] i by (simp add: s1_def)
  have fx1: "fixed s1 = fixed s" using setup_put_tx[OF L] same tx by (simp add: s1_def)
  have ok1: "setup_ok s1" using setup_ok_cong[OF fx1] ok by simp
  have net1: "net_inv s1" using net by (simp add: net_inv_def s1_def)
  have n1: "nflows s1 = nflows s" using fixed_nflows[OF fx1] .
  have tot: "tots s ! i = tx_packets_total tx" using L tx by (simp add: tots_def)
  have id1: "idx < tots s1 ! i" using idx tot setupD(7)[OF fx1] by simp
  have V1: "pst s1 = pst s" "att s1 = att s" "retx_buf s1 = retx_buf s"
    using views_cong[OF fx1, of] by (simp_all add: same_arrays_def s1_def)
  have E1: "events s1 = events s" "sim_now s1 = sim_now s" "carried s1 = carried s"
    by (simp_all add: s1_def carried_def)
  obtain s' where r: "send_packet f idx s1 = Some s'" and S: "sent_state s1 i idx s'"
    using send_packet_spec[OF ok1 net1 i(1) _ id1] i n1 by auto
  note S = S[unfolded sent_state_def]
  have net': "net_inv s'" and cf1: "common_frame s1 s'" and kt1: "keeps_time s1 s'"
    and rc1: "map res_core (sim_results s') = map res_core (sim_results s1)"
    and A': "att s' = att s1" "retx_buf s' = retx_buf s1"
    and T': "timers (events s') = add_mset (i, idx, att s1 i idx) (timers (events s1))"
    and I': "injects (events s') = injects (events s1)" using S by blast+
  define tx' where "tx' = tx1\<lparr>tx_in_flight := tx_in_flight tx1 + 1, tx_next_send_ns := sim_now s + tx_period_ns tx1\<rparr>"
  have tx1: "sim_tx s1 ! i = tx1" using L by (simp add: s1_def)
  have TX: "sim_tx s' = (sim_tx s)[i := tx']"
    using S tx1 by (simp add: s1_def tx'_def)
  then have tx': "sim_tx s' ! i = tx'" using L by simp
  have P': "pst s' i = (pst s i)(idx := pst s i idx OR kInFlight)"
    "j < nflows s \<Longrightarrow> j \<noteq> i \<Longrightarrow> pst s' j = pst s j" for j
    using S i n1 V1 by simp_all
  have fx: "fixed s' = fixed s" using cf1 fx1 by (simp add: common_frame_def)
  have FT: "flow_timers s' j = (if i = j then {#(idx, att s i idx)#} else {#}) + flow_timers s j" for j
    using T' V1(2) E1(1) by (simp add: flow_timers_def)
  have FI: "flow_injects s' = flow_injects s" using flow_timers_cong(2)[of s' s] I' E1(1) by simp
  have R': "retx s' i = retx_list (retx_buf s i) tx1"
    using A'(2) V1(3) by (simp add: retx_def tx' retx_list_def tx'_def)
  have oth: "sim_tx s' ! j = sim_tx s ! j" if "j \<noteq> i" for j using that TX by simp
  have OF: "others_frame i s s'"
    unfolding others_frame_def using P'(2) A' V1 FT FI oth T' I' E1(1)
    by (auto simp: retx_def)
  have un: "unaccounted kd s1 = unaccounted kd s" for kd
    unfolding unaccounted_def E1(3) by (simp add: s1_def)
  have per: "periods s1 = periods s"
    using L tx same(3) by (simp add: periods_def s1_def map_update_same)
  have CF: "common_frame s s'"
    by (rule common_frame_trans[OF _ cf1]) (simp add: common_frame_def fx1 un per, simp add: s1_def)
  have kt: "keeps_time s s1"
  proof -
    have "run_timed s1 H" if "run_timed s H" for H
    proof -
      have "unat (tx_next_send_ns tx1) \<le> H" using that L same(5) tx by (auto simp: run_timed_def)
      then show ?thesis
        using that set_update_subset_insert[of "sim_tx s" i tx1]
        by (auto simp: run_timed_def s1_def timed_def)
    qed
    then show ?thesis by (simp add: keeps_time_def)
  qed
  have cf01: "common_frame s s1" by (simp add: common_frame_def fx1 un per, simp add: s1_def)
  have KT: "keeps_time s s'" by (rule keeps_time_trans[OF cf01 kt kt1])
  have RC: "map res_core (sim_results s') = map res_core (sim_results s)" using rc1 by (simp add: s1_def)
  have nic: "sim_froutes s1 = sim_froutes s" "data_packet s1 i idx = data_packet s i idx"
    using data_packet_cong[OF fx1] by (simp_all add: s1_def)
  have C: "carried s' \<subseteq># add_mset (AtPort (id_index (frt_src_nic (sim_froutes s ! i))), data_packet s i idx)
      (carried s)" using S E1(3) nic by simp
  have SP: "x \<in># carried s \<or> x \<in> sent_packets s' i" if "x \<in># carried s'" for x
  proof -
    have "x \<in># carried s \<or> x = (AtPort (id_index (frt_src_nic (sim_froutes s ! i))), data_packet s i idx)"
      using mset_subset_eqD[OF C that] by auto
    then show ?thesis
      using idx(1) tx' data_packet_cong[OF fx] setupD(5)[OF fx] by (auto simp: sent_packets_def tx'_def)
  qed
  have fr: "sender_frame i s s'"
    unfolding sender_frame_def using CF OF KT RC SP P'(1) tx' tx idx(3) same(6) by (auto simp: tx'_def)
  have sat: "sender_at s' i"
    using snd sok[of "sim_now s + tx_period_ns tx1"] same(4) tx
    unfolding sender_at_def tx' R' P'(1) FI fixed_weights(1)[OF fx]
    using A'(1) V1(2) FT[of i] by (simp add: tx'_def)
  have "Suc (potential s') \<le> potential s"
  proof -
    let ?M = "max_tries s" and ?W = "send_weight s"
    define L0 where "L0 = sends_left ?M tx (att s i) (retx s i)"
    define L1 where "L1 = sends_left ?M tx1 (att s i) (retx_list (retx_buf s i) tx1)"
    have L: "Suc L1 \<le> L0" using left by (simp add: L0_def L1_def)
    have sl: "sends_left ?M tx' (att s i) (retx_list (retx_buf s i) tx1) = L1"
      by (simp add: L1_def sends_left_def attempts_left_def tx'_def)
    have "inject_weight (tx_next_send_ns tx') (flow_injects s i) \<le> inject_weight (tx_next_send_ns tx) (flow_injects s i) + 2"
    proof -
      have "size (flow_injects s i) \<le> 2" using snd
        by (cases "tx_send_scheduled (sim_tx s ! i)") (auto simp: sender_at_def)
      then show ?thesis
        using inject_weight_bounds[where I = "flow_injects s i" and due = "tx_next_send_ns tx"]
          inject_weight_bounds[where I = "flow_injects s i" and due = "tx_next_send_ns tx'"] by linarith
    qed
    then have fw: "flow_weight s' i + ?W \<le> flow_weight s i + 2"
      using mult_le_mono2[OF L, of ?W] A'(1) V1(2)
      unfolding flow_weight_def tx' R' FI fixed_weights[OF fx] tx[symmetric] by (simp add: sl L0_def)
    have "(\<Sum>x\<in>#carried s'. packet_weight s x) \<le> 4 * diameter s + 1 + (\<Sum>x\<in>#carried s. packet_weight s x)"
      using sum_mset_subset[OF C, of "packet_weight s"] data_packet_weight[OF ok i(2), of idx] by linarith
    then have "net_weight s' \<le> net_weight s + 4 * diameter s + 3"
      using T' E1(1) unfolding net_weight_def fixed_weights[OF fx] by simp
    then show ?thesis
      using potential_change[OF ok i(2) fx OF waiting_cong[OF fx RC ok], of 1 0] fw unfolding send_weight_def by simp
  qed
  then show ?thesis
    using p1 r net' fr sat tx' same(1) by (intro exI[of _ s1] exI[of _ s']) (simp add: tx'_def)
qed

section \<open>The window loop\<close>

text \<open>What every call of \<open>try_send\<close> guarantees, \<open>g\<close> being the weight of an event it may add.\<close>

definition send_done :: "sim \<Rightarrow> nat \<Rightarrow> sim \<Rightarrow> nat \<Rightarrow> bool" where
  "send_done s i s' g \<longleftrightarrow> net_inv s' \<and> sender_frame i s s' \<and> sender_at s' i \<and> sender_idle s' i
     \<and> potential s' \<le> potential s + g"

lemma put_tx_frame:
  assumes ok: "setup_ok s" and net: "net_inv s" and i: "i < nflows s" and tx: "tx = sim_tx s ! i"
    and same: "tx_window tx1 = tx_window tx" "tx_packets_total tx1 = tx_packets_total tx"
      "tx_period_ns tx1 = tx_period_ns tx" "tx_next_send_ns tx1 = tx_next_send_ns tx"
      "tx_next_seq tx1 = tx_next_seq tx" "tx_failed tx1 = tx_failed tx"
    and s1: "s1 = s\<lparr>sim_tx := (sim_tx s)[i := tx1]\<rparr>"
  shows "net_inv s1" "sender_frame i s s1" "sim_tx s1 ! i = tx1" "pst s1 = pst s" "att s1 = att s"
    "retx_buf s1 = retx_buf s" "flow_timers s1 = flow_timers s" "flow_injects s1 = flow_injects s"
    "fixed s1 = fixed s" "net_weight s1 = net_weight s" "timers (events s1) = timers (events s)"
proof -
  have L: "i < length (sim_tx s)" using setup_okD(4)[OF ok] i by simp
  show fx: "fixed s1 = fixed s" using setup_put_tx[OF L] same tx by (simp add: s1)
  show V: "pst s1 = pst s" "att s1 = att s" "retx_buf s1 = retx_buf s"
    using views_cong[OF fx] by (simp_all add: same_arrays_def s1)
  show "net_inv s1" using net by (simp add: net_inv_def s1)
  show n: "sim_tx s1 ! i = tx1" using L by (simp add: s1)
  show F: "flow_timers s1 = flow_timers s" "flow_injects s1 = flow_injects s"
    "timers (events s1) = timers (events s)"
    using flow_timers_cong[of s1 s] by (simp_all add: s1)
  have ca: "carried s1 = carried s" by (simp add: s1 carried_def)
  then show "net_weight s1 = net_weight s"
    using fixed_weights(4)[OF fx] by (simp add: net_weight_def s1)
  have "unaccounted kd s1 = unaccounted kd s" for kd
    unfolding unaccounted_def ca by (simp add: s1)
  moreover have "periods s1 = periods s"
    using L same(3) tx by (simp add: periods_def s1 map_update_same)
  ultimately have cf: "common_frame s s1" by (simp add: common_frame_def fx, simp add: s1)
  have "run_timed s1 H" if "run_timed s H" for H
  proof -
    have "unat (tx_next_send_ns tx1) \<le> H" using that L same(4) tx by (auto simp: run_timed_def)
    then show ?thesis
      using that set_update_subset_insert[of "sim_tx s" i tx1] by (auto simp: run_timed_def s1 timed_def)
  qed
  then have kt: "keeps_time s s1" by (simp add: keeps_time_def)
  have "others_frame i s s1"
    unfolding others_frame_def using V F by (simp add: retx_def s1)
  then show "sender_frame i s s1"
    unfolding sender_frame_def using cf kt V n ca tx same(5,6) by (simp add: s1)
qed

lemma frame_setup: "sender_frame i s s1 \<Longrightarrow> setup_ok s \<Longrightarrow> setup_ok s1 \<and> nflows s1 = nflows s"
  using setup_ok_cong[of s1 s] fixed_nflows[of s1 s] by (auto simp: sender_frame_def common_frame_def)

lemma frame_potential:
  assumes "setup_ok s" "i < nflows s" "sender_frame i s s1"
    "flow_weight s1 i + net_weight s1 + a \<le> flow_weight s i + net_weight s + b"
  shows "potential s1 + a \<le> potential s + b"
proof (rule potential_change[OF assms(1,2) _ _ _ assms(4)])
  show fx: "fixed s1 = fixed s" using assms(3) by (simp add: sender_frame_def common_frame_def)
  show "others_frame i s s1" using assms(3) by (simp add: sender_frame_def)
  fix j assume "j < nflows s"
  then show "waiting s1 j = waiting s j"
    using waiting_cong[OF fx _ assms(1)] assms(3) by (simp add: sender_frame_def)
qed

lemma try_send_loop_spec:
  assumes "setup_ok s" "net_inv s" "id_index f = i" "i < nflows s" "sender_at s i" "0 < max_tries s"
    "\<not> tx_failed (sim_tx s ! i)"
  shows "\<exists>s'. try_send_loop f (of_nat (psum (tots s) i)) (of_nat (psum (wins s) i)) s = Some s'
    \<and> send_done s i s' (of_bool (sim_now s < tx_next_send_ns (sim_tx s ! i)))"
  using assms
proof (induction "unat (tx_window (sim_tx s ! i)) - unat (tx_in_flight (sim_tx s ! i))" arbitrary: s rule: less_induct)
  case less
  define tx where "tx = sim_tx s ! i"
  note ok = less.prems(1) and net = less.prems(2) and fi = less.prems(3) and i = less.prems(4)
    and snd = less.prems(5) and nf = less.prems(7)[folded tx_def]
  let ?loop = "try_send_loop f (of_nat (psum (tots s) i)) (of_nat (psum (wins s) i))"
  let ?g = "of_bool (sim_now s < tx_next_send_ns tx) :: nat"
  have get: "get_tx f s = Some tx" using get_tx_Some[OF ok, of f] fi i by (simp add: tx_def)
  have L: "i < length (sim_tx s)" using setup_okD(4)[OF ok] i by simp
  have so: "sender_ok (max_tries s) tx (pst s i) (att s i) (retx s i) (flow_timers s i)"
    using snd by (simp add: sender_at_def tx_def)
  have win: "tx_window tx = wins s ! i" and tot: "tx_packets_total tx = tots s ! i"
    using setup_okD(17,18)[OF ok i] by (simp_all add: tx_def)
  consider (full) "\<not> tx_in_flight tx < tx_window tx"
    | (gate) "tx_in_flight tx < tx_window tx" "sim_now s < tx_next_send_ns tx"
    | (go) "tx_in_flight tx < tx_window tx" "\<not> sim_now s < tx_next_send_ns tx" by blast
  then show ?case
  proof cases
    case full
    then have "tx_in_flight tx = tx_window tx"
      using sender_okD(4)[OF so] by (simp add: word_less_nat_alt word_unat_eq_iff)
    then have "send_done s i s ?g"
      using net snd by (simp add: send_done_def sender_idle_def tx_def)
    then show ?thesis using full get by (subst try_send_loop.simps) (auto simp: tx_def)
  next
    case gate
    show ?thesis
    proof (cases "tx_send_scheduled tx")
      case True
      then have "send_done s i s ?g"
        using net snd by (simp add: send_done_def sender_idle_def sender_at_def tx_def)
      then show ?thesis using gate get True by (subst try_send_loop.simps) (auto simp: tx_def)
    next
      case False
      define tx1 where "tx1 = tx\<lparr>tx_send_scheduled := True\<rparr>"
      define s1 where "s1 = s\<lparr>sim_tx := (sim_tx s)[i := tx1]\<rparr>"
      define e where "e = ev_inject (tx_next_send_ns tx) f"
      define s2 where "s2 = push_event e s1"
      have P: "net_inv s1" "sender_frame i s s1" "sim_tx s1 ! i = tx1" "pst s1 = pst s" "att s1 = att s"
        "retx_buf s1 = retx_buf s" "flow_timers s1 = flow_timers s" "flow_injects s1 = flow_injects s"
        "fixed s1 = fixed s" "net_weight s1 = net_weight s"
        by (rule put_tx_frame[OF ok net i tx_def _ _ _ _ _ _ s1_def]; simp add: tx1_def)+
      have run: "?loop s = Some s2"
        using gate get False put_tx_Some[OF ok, of f tx1] fi i
        by (subst try_send_loop.simps) (simp add: s2_def s1_def e_def tx1_def)
      have q: "eq_inv (sim_queue s1)" using P(1) by (simp add: net_inv_def)
      have E: "events s2 = add_mset (eq_stamp (sim_queue s1) e) (events s1)"
        using q by (simp add: s2_def evq.push_items)
      have N: "net_inv s2" using P(1) q unfolding net_inv_def E by (simp add: s2_def views_add e_def evq.push_invar)
      have fx: "fixed s2 = fixed s1" by (simp add: s2_def)
      have V: "pst s2 = pst s1" "att s2 = att s1" "retx_buf s2 = retx_buf s1"
        using views_cong[OF fx] by (simp_all add: same_arrays_def s2_def)
      have tx2: "sim_tx s2 = sim_tx s1" by (simp add: s2_def)
      have T: "timers (events s2) = timers (events s1)" unfolding E by (simp add: views_add e_def)
      have I: "injects (events s2) = add_mset (i, tx_next_send_ns tx) (injects (events s1))"
        unfolding E by (simp add: views_add e_def fi)
      have FI: "flow_injects s2 j = (if i = j then {#tx_next_send_ns tx#} else {#}) + flow_injects s1 j" for j
        using I by (simp add: flow_injects_def)
      have FT: "flow_timers s2 = flow_timers s1" using flow_timers_cong(1)[OF T] .
      have ca: "carried s2 = carried s1" unfolding carried_def E by (simp add: views_add e_def s2_def)
      have "unaccounted kd s2 = unaccounted kd s1" for kd
        unfolding unaccounted_def ca by (simp add: s2_def)
      then have CF: "common_frame s1 s2"
        by (simp add: common_frame_def fx) (simp add: s2_def periods_def)
      have KT: "keeps_time s1 s2"
        unfolding keeps_time_def
      proof (intro allI impI)
        fix D H assume "run_timed s1 H"
        moreover have "unat (tx_next_send_ns tx) \<le> H"
          using calculation P(3) L nth_mem[of i "sim_tx s1"] by (auto simp: run_timed_def tx1_def s1_def)
        moreover have "sim_now s1 \<le> tx_next_send_ns tx" using gate(2) by (simp add: s1_def)
        ultimately have "timed s2 H" unfolding s2_def by (intro timed_push[OF q]) (auto simp: run_timed_def e_def)
        then show "run_timed s2 H" using \<open>run_timed s1 H\<close> tx2 by (simp add: run_timed_def)
      qed
      have nw1: "sim_now s1 \<le> tx_next_send_ns tx" using gate(2) by (simp add: s1_def)
      have "sender_frame i s1 s2"
        unfolding sender_frame_def others_frame_def
        using CF KT V tx2 T I FI FT ca nw1 by (simp add: retx_def s2_def)
      then have F: "sender_frame i s s2" using sender_frame_trans[OF P(2)] by blast
      have R: "retx s2 i = retx s i" using V P(3,6) tx2 by (simp add: retx_def retx_list_def tx1_def tx_def)
      have fx0: "fixed s2 = fixed s" using fx P(9) by simp
      have so2: "sender_ok (max_tries s2) (sim_tx s2 ! i) (pst s2 i) (att s2 i) (retx s2 i) (flow_timers s2 i)"
        unfolding fixed_weights(1)[OF fx0] R V P(4,5) FT P(7)
        by (rule sender_ok_fields[OF so]) (simp_all add: tx2 P(3) tx1_def sender_okD(2)[OF so])
      have "size (flow_injects s i) \<le> 1" using snd False by (simp add: sender_at_def tx_def)
      then have sa: "sender_at s2 i" using so2 FI[of i] P(8) by (simp add: sender_at_def tx2 P(3) tx1_def)
      have nw: "net_weight s2 = net_weight s1"
        using T ca fixed_weights(4)[OF fx] by (simp add: net_weight_def)
      have "sends_left (max_tries s) tx1 (att s i) (retx s i) = sends_left (max_tries s) tx (att s i) (retx s i)"
        by (simp add: sends_left_def attempts_left_def tx1_def)
      then have "flow_weight s2 i = flow_weight s i + 1"
        unfolding flow_weight_def fixed_weights[OF fx0] R V P(4,5) FI P(8) tx2 P(3) tx_def[symmetric]
        by (simp add: tx1_def)
      then have "potential s2 \<le> potential s + 1"
        using frame_potential[OF ok i F, of 0 1] nw P(10) by simp
      then have "send_done s i s2 ?g"
        using N F sa FI[of i] gate(2) by (simp add: send_done_def sender_idle_def)
      then show ?thesis using run by (auto simp: tx_def)
    qed
  next
    case go
    have Rin: "\<forall>x \<in> set (retx_list (retx_buf s i) tx). x < tots s ! i"
      using sender_ok_in_ring[OF so] sender_okD(1)[OF so] tot
      by (metis retx_def tx_def less_le_trans)
    obtain A found h c where sc: "scan_retx (sim_retx_ring s) (sim_pkt_state s) (of_nat (psum (tots s) i))
        (of_nat (psum (wins s) i)) tx = Some (found, tx\<lparr>tx_retx_head := h, tx_retx_count := c\<rparr>)"
      "h < tx_window tx" "\<forall>x \<in> set A. bit (pst s i x) 1"
      "case found of None \<Rightarrow> retx_list (retx_buf s i) tx = A \<and> c = 0
       | Some x \<Rightarrow> retx_list (retx_buf s i) tx
           = A @ x # retx_list (retx_buf s i) (tx\<lparr>tx_retx_head := h, tx_retx_count := c\<rparr>)
           \<and> \<not> bit (pst s i x) 1"
      using scan_retx_spec[OF ok i win sender_okD(2)[OF so] Rin] by blast
    define txs where "txs = tx\<lparr>tx_retx_head := h, tx_retx_count := c\<rparr>"
    have R: "retx s i = retx_list (retx_buf s i) tx" by (simp add: retx_def tx_def)
    have again: "\<exists>s'. ?loop s2 = Some s' \<and> send_done s i s' ?g"
      if s2: "net_inv s2" "sender_frame i s s2" "sender_at s2 i" "tx_in_flight (sim_tx s2 ! i) = tx_in_flight tx + 1"
        "tx_window (sim_tx s2 ! i) = tx_window tx" "\<not> tx_failed (sim_tx s2 ! i)" "Suc (potential s2) \<le> potential s" for s2
    proof -
      have fx2: "fixed s2 = fixed s" using s2(2) by (simp add: sender_frame_def common_frame_def)
      have b: "tots s2 = tots s" "wins s2 = wins s" using setupD[OF fx2] by simp_all
      have m: "unat (tx_window (sim_tx s2 ! i)) - unat (tx_in_flight (sim_tx s2 ! i))
          < unat (tx_window (sim_tx s ! i)) - unat (tx_in_flight (sim_tx s ! i))"
        using s2(4,5) unat_inc[OF go(1)] go(1) by (simp add: tx_def[symmetric] word_less_nat_alt)
      obtain s' where "?loop s2 = Some s'"
        "send_done s2 i s' (of_bool (sim_now s2 < tx_next_send_ns (sim_tx s2 ! i)))"
        using less.hyps[OF m] frame_setup[OF s2(2) ok] s2(1,3,6) fi i less.prems(6) fixed_weights(1)[OF fx2] b
        by auto
      moreover have "potential s2 + of_bool (sim_now s2 < tx_next_send_ns (sim_tx s2 ! i)) \<le> potential s"
        using s2(7) by simp
      ultimately show ?thesis
        using sender_frame_trans[OF s2(2)] unfolding send_done_def by (metis le_trans trans_le_add1 add_le_mono1)
    qed
    show ?thesis
    proof (cases found)
      case (Some x)
      have Rx: "retx s i = A @ x # retx_list (retx_buf s i) txs" and x1: "\<not> bit (pst s i x) 1"
        using sc(4) Some R by (auto simp: txs_def)
      have so': "sender_ok (max_tries s) txs (pst s i) (att s i) (x # retx_list (retx_buf s i) txs) (flow_timers s i)"
        by (rule sender_ok_fields[OF sender_ok_drop_acked[OF so[unfolded Rx] sc(3)]]) (use sc(2) in \<open>simp_all add: txs_def\<close>)
      have xs: "x < tx_next_seq txs" using sender_ok_in_ring[OF so'] by simp
      have "\<exists>s1 s2. put_tx f txs s = Some s1 \<and> send_packet f x s1 = Some s2 \<and> net_inv s2 \<and> sender_frame i s s2
        \<and> sender_at s2 i \<and> tx_in_flight (sim_tx s2 ! i) = tx_in_flight txs + 1
        \<and> tx_window (sim_tx s2 ! i) = tx_window tx \<and> tx_failed (sim_tx s2 ! i) = tx_failed txs
        \<and> Suc (potential s2) \<le> potential s"
      proof (rule transmit[OF ok net fi i snd tx_def xs])
        show "tx_next_seq txs \<le> tx_packets_total tx" using sender_okD(1)[OF so] by (simp add: txs_def)
        show "Suc (sends_left (max_tries s) txs (att s i) (retx_list (retx_buf s i) txs))
          \<le> sends_left (max_tries s) tx (att s i) (retx s i)"
          unfolding Rx by (rule sends_left_retx[OF so[unfolded Rx]]) (simp_all add: txs_def)
        show "sender_ok (max_tries s) (txs\<lparr>tx_in_flight := tx_in_flight txs + 1, tx_next_send_ns := t\<rparr>)
          ((pst s i)(x := pst s i x OR kInFlight)) (att s i) (retx_list (retx_buf s i) txs)
          (add_mset (x, att s i x) (flow_timers s i))" for t
          by (rule sender_ok_send_retx[OF so' _ x1 refl]) (use go(1) in \<open>simp add: txs_def\<close>)
      qed (simp_all add: txs_def)
      then obtain s1 s2 where s12: "put_tx f txs s = Some s1" "send_packet f x s1 = Some s2" "net_inv s2"
        "sender_frame i s s2" "sender_at s2 i" "tx_in_flight (sim_tx s2 ! i) = tx_in_flight txs + 1"
        "tx_window (sim_tx s2 ! i) = tx_window tx" "tx_failed (sim_tx s2 ! i) = tx_failed txs"
        "Suc (potential s2) \<le> potential s" by blast
      have "?loop s = ?loop s2"
        using go get sc(1) Some s12(1,2) by (subst try_send_loop.simps) (simp add: txs_def[symmetric])
      then show ?thesis
        using again[OF s12(3-5) _ s12(7) _ s12(9)] s12(6,8) nf by (simp add: txs_def tx_def[symmetric])
    next
      case None
      have RA: "retx s i = A" "c = 0" using sc(4) None R by simp_all
      have R0: "retx_list buf txs = []" for buf by (simp add: txs_def RA(2) retx_list_def)
      have so': "sender_ok (max_tries s) txs (pst s i) (att s i) [] (flow_timers s i)"
        by (rule sender_ok_fields[OF sender_ok_drop_acked[of _ _ _ _ A "[]"]])
           (use so RA sc(2,3) in \<open>simp_all add: txs_def\<close>)
      show ?thesis
      proof (cases "tx_next_seq tx \<ge> tx_packets_total tx")
        case True
        define s1 where "s1 = s\<lparr>sim_tx := (sim_tx s)[i := txs]\<rparr>"
        have P: "net_inv s1" "sender_frame i s s1" "sim_tx s1 ! i = txs" "pst s1 = pst s" "att s1 = att s"
          "retx_buf s1 = retx_buf s" "flow_timers s1 = flow_timers s" "flow_injects s1 = flow_injects s"
          "fixed s1 = fixed s" "net_weight s1 = net_weight s"
          by (rule put_tx_frame[OF ok net i tx_def _ _ _ _ _ _ s1_def]; simp add: txs_def)+
        have run: "?loop s = Some s1"
          using go get sc(1) None True put_tx_Some[OF ok, of f txs] fi i
          by (subst try_send_loop.simps) (simp add: txs_def s1_def)
        have R1: "retx s1 i = []" using R0 P(3) by (simp add: retx_def)
        have "sender_at s1 i"
          using so' snd unfolding sender_at_def R1 P(3-5,7,8) fixed_weights(1)[OF P(9)]
          by (simp add: txs_def tx_def)
        moreover have "sender_idle s1 i"
          using True sender_okD(1)[OF so] R1 P(3) by (simp add: sender_idle_def txs_def)
        moreover have "potential s1 \<le> potential s"
        proof -
          have "sends_left (max_tries s) txs (att s i) [] \<le> sends_left (max_tries s) tx (att s i) (retx s i)"
            by (rule sends_left_drop) (simp_all add: txs_def)
          then have "flow_weight s1 i \<le> flow_weight s i"
            unfolding flow_weight_def fixed_weights[OF P(9)] R1 P(3,5,8) tx_def[symmetric]
            by (simp add: txs_def)
          then show ?thesis using frame_potential[OF ok i P(2), of 0 0] P(10) by simp
        qed
        ultimately have "send_done s i s1 ?g" using P(1,2) by (simp add: send_done_def)
        then show ?thesis using run by (auto simp: tx_def)
      next
        case False
        define x where "x = tx_next_seq tx"
        define txn where "txn = txs\<lparr>tx_next_seq := x + 1\<rparr>"
        have xt: "x < tx_packets_total tx" using False by (simp add: x_def)
        have inc: "unat (x + 1) = Suc (unat x)" using unat_inc[OF xt] .
        have "\<exists>s1 s2. put_tx f txn s = Some s1 \<and> send_packet f x s1 = Some s2 \<and> net_inv s2 \<and> sender_frame i s s2
          \<and> sender_at s2 i \<and> tx_in_flight (sim_tx s2 ! i) = tx_in_flight txn + 1
          \<and> tx_window (sim_tx s2 ! i) = tx_window tx \<and> tx_failed (sim_tx s2 ! i) = tx_failed txn
          \<and> Suc (potential s2) \<le> potential s"
        proof (rule transmit[OF ok net fi i snd tx_def])
          show "x < tx_next_seq txn" "tx_next_seq txn \<le> tx_packets_total tx" "tx_next_seq tx \<le> tx_next_seq txn"
            using inc xt by (simp_all add: txn_def x_def word_less_nat_alt word_le_nat_alt)
          have Rn: "retx_list (retx_buf s i) txn = []" by (simp add: txn_def txs_def RA(2) retx_list_def)
          show "Suc (sends_left (max_tries s) txn (att s i) (retx_list (retx_buf s i) txn))
            \<le> sends_left (max_tries s) tx (att s i) (retx s i)"
            unfolding Rn
            by (rule sends_left_new[OF so x_def xt less.prems(6)]) (simp_all add: txn_def txs_def)
          show "sender_ok (max_tries s) (txn\<lparr>tx_in_flight := tx_in_flight txn + 1, tx_next_send_ns := t\<rparr>)
            ((pst s i)(x := pst s i x OR kInFlight)) (att s i) (retx_list (retx_buf s i) txn)
            (add_mset (x, att s i x) (flow_timers s i))" for t
            unfolding Rn
            by (rule sender_ok_send_new[OF so' _ _ _ less.prems(6)])
               (use go(1) xt in \<open>simp_all add: txn_def txs_def x_def\<close>)
        qed (simp_all add: txn_def txs_def)
        then obtain s1 s2 where s12: "put_tx f txn s = Some s1" "send_packet f x s1 = Some s2" "net_inv s2"
          "sender_frame i s s2" "sender_at s2 i" "tx_in_flight (sim_tx s2 ! i) = tx_in_flight txn + 1"
          "tx_window (sim_tx s2 ! i) = tx_window tx" "tx_failed (sim_tx s2 ! i) = tx_failed txn"
          "Suc (potential s2) \<le> potential s" by blast
        have "?loop s = ?loop s2"
          using go get sc(1) None False s12(1,2)
          by (subst try_send_loop.simps) (simp add: txs_def txn_def x_def)
        then show ?thesis
          using again[OF s12(3-5) _ s12(7) _ s12(9)] s12(6,8) nf by (simp add: txn_def txs_def tx_def[symmetric])
      qed
    qed
  qed
qed

lemma try_send_spec:
  assumes "setup_ok s" "net_inv s" "id_index f = i" "i < nflows s" "sender_at s i" "0 < max_tries s"
  shows "\<exists>s'. try_send f s = Some s' \<and> send_done s i s' (of_bool (sim_now s < tx_next_send_ns (sim_tx s ! i)))"
proof (cases "tx_failed (sim_tx s ! i)")
  case True
  then have "send_done s i s (of_bool (sim_now s < tx_next_send_ns (sim_tx s ! i)))"
    using assms by (simp add: send_done_def sender_idle_def)
  then show ?thesis using True get_tx_Some[OF assms(1), of f] assms(3,4) by (auto simp: try_send_def)
next
  case False
  have "vget (sim_retx_offset s) i = Some (of_nat (psum (wins s) i))"
    using assms(1,4) by (simp add: setup_ok_def vget_def)
  then have "try_send f s = try_send_loop f (of_nat (psum (tots s) i)) (of_nat (psum (wins s) i)) s"
    using False get_tx_Some[OF assms(1), of f] assms(3,4) base_slot(1)[OF assms(1,4)]
    by (simp add: try_send_def)
  then show ?thesis using try_send_loop_spec[OF assms False] by simp
qed

end
