(* ===== verification/Sim_Invariant.thy ===== *)
theory Sim_Invariant
  imports Sim_Window
begin

text \<open>
  The invariant of the whole run: sender and receiver of every flow, release of
  dependent flows, validity of every packet in the network and every pending event, and
  the byte ledgers.  The two rules at the end carry it over \<open>try_send\<close> and \<open>enqueue\<close>;
  every handler ends in one of these.
\<close>

section \<open>The receiver and the release of a flow\<close>

definition receiver_ok :: "FlowResult \<Rightarrow> FlowSpec \<Rightarrow> (u32 \<Rightarrow> u8) \<Rightarrow> bool" where
  "receiver_ok r spec st \<longleftrightarrow>
     unat (res_packets_delivered r) = card {idx. bit (st idx) 0}
     \<and> res_delivered_bytes r = (\<Sum>idx | bit (st idx) 0. ucast (payload spec idx))
     \<and> (res_complete r \<longleftrightarrow> res_packets_delivered r = res_packets_total r)
     \<and> (\<forall>idx. bit (st idx) 1 \<longrightarrow> bit (st idx) 0)"

text \<open>When the flow may start, and when its completion-time clock started.\<close>

definition clock_ok :: "sim \<Rightarrow> nat \<Rightarrow> bool" where
  "clock_ok s i \<longleftrightarrow> (let r = sim_results s ! i; spec = sim_specs s ! i; d = id_index (fs_depends_on spec) in
     (waiting s i \<longrightarrow> tx_next_seq (sim_tx s ! i) = 0 \<and> flow_injects s i = {#}
        \<and> \<not> tx_send_scheduled (sim_tx s ! i))
     \<and> (\<forall>t \<in># flow_injects s i. res_start_ns r \<le> t)
     \<and> (tx_next_seq (sim_tx s ! i) \<noteq> 0 \<longrightarrow> res_start_ns r \<le> sim_now s)
     \<and> (res_complete r \<longrightarrow> res_start_ns r \<le> res_finish_ns r \<and> res_finish_ns r \<le> sim_now s)
     \<and> (\<not> id_valid (fs_depends_on spec) \<longrightarrow> res_start_ns r = fs_start_ns spec)
     \<and> (id_valid (fs_depends_on spec) \<and> \<not> waiting s i \<longrightarrow>
          res_start_ns r = res_finish_ns (sim_results s ! d))
     \<and> res_failed r = tx_failed (sim_tx s ! i))"

definition flow_inv :: "sim \<Rightarrow> nat \<Rightarrow> bool" where
  "flow_inv s i \<longleftrightarrow> sender_at s i \<and> receiver_ok (sim_results s ! i) (sim_specs s ! i) (pst s i) \<and> clock_ok s i"

section \<open>The dependency arrays\<close>

definition dependents_of :: "sim \<Rightarrow> nat \<Rightarrow> flow_id list" where
  "dependents_of s i = (let b = unat (sim_dependents_offset s ! i); e = unat (sim_dependents_offset s ! Suc i) in
     map ((!) (sim_dependents s)) [b..<e])"

definition dependents_ok :: "sim \<Rightarrow> bool" where
  "dependents_ok s \<longleftrightarrow> length (sim_dependents_offset s) = Suc (nflows s)
     \<and> (\<forall>i < nflows s. unat (sim_dependents_offset s ! Suc i) \<le> length (sim_dependents s)
          \<and> distinct (dependents_of s i)
          \<and> id_index ` set (dependents_of s i) = {d. d < nflows s \<and> id_valid (fs_depends_on (sim_specs s ! d))
               \<and> id_index (fs_depends_on (sim_specs s ! d)) = i})"

section \<open>Packets\<close>

definition hop_port :: "hop \<Rightarrow> nat" where
  "hop_port h = (case h of AtPort p \<Rightarrow> p | OnWire p \<Rightarrow> p)"

lemma hop_port_simps [simp]: "hop_port (AtPort p) = p" "hop_port (OnWire p) = p"
  by (simp_all add: hop_port_def)

definition packet_ok :: "sim \<Rightarrow> hop \<times> packet \<Rightarrow> bool" where
  "packet_ok s x \<longleftrightarrow> (let k = snd x; i = id_index (pkt_flow k) in
     i < nflows s \<and> pkt_index k < tx_next_seq (sim_tx s ! i)
     \<and> on_route (frozen s) (dest_host s k) (hop_port (fst x)) \<and> pkt_attempt k = 0
     \<and> (pkt_kind k = Data \<longrightarrow> pkt_bytes k = payload (sim_specs s ! i) (pkt_index k))
     \<and> (pkt_kind k = Ack \<longrightarrow> pkt_bytes k = ucast (tc_ack_bytes (sim_transport s))
          \<and> bit (pst s i (pkt_index k)) 0))"

lemma packet_ok_mono:
  assumes "packet_ok s x" "fixed s' = fixed s"
    "\<And>i. i < nflows s \<Longrightarrow> tx_next_seq (sim_tx s ! i) \<le> tx_next_seq (sim_tx s' ! i)"
    "\<And>i idx. i < nflows s \<Longrightarrow> bit (pst s i idx) 0 \<Longrightarrow> bit (pst s' i idx) 0"
  shows "packet_ok s' x"
  using assms setupD[OF assms(2)] fixed_weights(5)[OF assms(2)]
  by (auto simp: packet_ok_def Let_def intro: less_le_trans)

section \<open>The invariant\<close>

text \<open>
  \<open>E\<close> are the flows whose sender may be owed a call of \<open>try_send\<close>, \<open>B\<close> the bytes of
  each kind that a handler has taken out of the network and not yet booked.
\<close>

definition run_inv :: "nat set \<Rightarrow> (PacketKind \<Rightarrow> u64) \<Rightarrow> sim \<Rightarrow> bool" where
  "run_inv E B s \<longleftrightarrow> setup_ok s \<and> 0 < max_tries s \<and> dependents_ok s \<and> net_inv s
     \<and> (\<forall>i < nflows s. flow_inv s i)
     \<and> (\<forall>i < nflows s. i \<notin> E \<longrightarrow> sender_idle s i \<or> waiting s i)
     \<and> (\<forall>t \<in># timers (events s). fst t < nflows s) \<and> (\<forall>t \<in># injects (events s). fst t < nflows s)
     \<and> (\<forall>x \<in># carried s. packet_ok s x)
     \<and> (\<forall>kd. unaccounted kd s = B kd)"

text \<open>Everything but the consistency of ports and completions, which \<open>on_tx_complete\<close> restores itself.\<close>

definition run_core :: "nat set \<Rightarrow> (PacketKind \<Rightarrow> u64) \<Rightarrow> sim \<Rightarrow> bool" where
  "run_core E B s \<longleftrightarrow> setup_ok s \<and> 0 < max_tries s \<and> dependents_ok s
     \<and> (\<forall>i < nflows s. flow_inv s i)
     \<and> (\<forall>i < nflows s. i \<notin> E \<longrightarrow> sender_idle s i \<or> waiting s i)
     \<and> (\<forall>t \<in># timers (events s). fst t < nflows s) \<and> (\<forall>t \<in># injects (events s). fst t < nflows s)
     \<and> (\<forall>x \<in># carried s. packet_ok s x)
     \<and> (\<forall>kd. unaccounted kd s = B kd)"

lemma run_inv_core: "run_inv E B s \<longleftrightarrow> run_core E B s \<and> net_inv s"
  by (auto simp: run_inv_def run_core_def)

lemma run_coreD:
  assumes "run_core E B s"
  shows "setup_ok s" "0 < max_tries s" "dependents_ok s"
    "i < nflows s \<Longrightarrow> flow_inv s i" "i < nflows s \<Longrightarrow> i \<notin> E \<Longrightarrow> sender_idle s i \<or> waiting s i"
    "t \<in># timers (events s) \<Longrightarrow> fst t < nflows s" "u \<in># injects (events s) \<Longrightarrow> fst u < nflows s"
    "x \<in># carried s \<Longrightarrow> packet_ok s x" "unaccounted kd s = B kd"
  using assms by (auto simp: run_core_def)

abbreviation sim_inv :: "sim \<Rightarrow> bool" where "sim_inv \<equiv> run_inv {} (\<lambda>_. 0)"

lemma run_invD:
  assumes "run_inv E B s"
  shows "setup_ok s" "0 < max_tries s" "dependents_ok s" "net_inv s"
    "i < nflows s \<Longrightarrow> flow_inv s i" "i < nflows s \<Longrightarrow> i \<notin> E \<Longrightarrow> sender_idle s i \<or> waiting s i"
    "t \<in># timers (events s) \<Longrightarrow> fst t < nflows s" "u \<in># injects (events s) \<Longrightarrow> fst u < nflows s"
    "x \<in># carried s \<Longrightarrow> packet_ok s x" "unaccounted kd s = B kd"
  using assms by (auto simp: run_inv_def)

lemma flow_invD:
  assumes "flow_inv s i"
  shows "sender_at s i" "receiver_ok (sim_results s ! i) (sim_specs s ! i) (pst s i)" "clock_ok s i"
  using assms by (auto simp: flow_inv_def)

text \<open>The result record of a flow up to the two counters that nothing depends on.\<close>

lemma core_eq:
  assumes "map res_core rs' = map res_core rs" "i < length rs"
  shows "res_core (rs' ! i) = res_core (rs ! i)"
  using assms by (metis length_map nth_map)

lemma core_fields:
  assumes "res_core r' = res_core r"
  shows "res_start_ns r' = res_start_ns r" "res_finish_ns r' = res_finish_ns r"
    "res_delivered_bytes r' = res_delivered_bytes r" "res_packets_total r' = res_packets_total r"
    "res_packets_delivered r' = res_packets_delivered r" "res_complete r' = res_complete r"
    "res_failed r' = res_failed r"
  using arg_cong[OF assms, of res_start_ns] arg_cong[OF assms, of res_finish_ns]
    arg_cong[OF assms, of res_delivered_bytes] arg_cong[OF assms, of res_packets_total]
    arg_cong[OF assms, of res_packets_delivered] arg_cong[OF assms, of res_complete]
    arg_cong[OF assms, of res_failed]
  by (simp_all add: res_core_def)

lemma receiver_ok_cong:
  assumes "res_core r' = res_core r" "\<And>idx. bit (st' idx) 0 = bit (st idx) 0"
    "\<And>idx. bit (st' idx) 1 = bit (st idx) 1"
  shows "receiver_ok r' spec st' = receiver_ok r spec st"
  unfolding receiver_ok_def core_fields[OF assms(1)] assms(2,3) ..

text \<open>A flow whose views did not change keeps its invariant.\<close>

lemma clock_ok_cong:
  assumes "fixed s' = fixed s" "setup_ok s" "i < nflows s"
    "map res_core (sim_results s') = map res_core (sim_results s)" "sim_now s' = sim_now s"
    "sim_tx s' ! i = sim_tx s ! i" "flow_injects s' i = flow_injects s i"
  shows "clock_ok s' i = clock_ok s i"
proof -
  have L: "length (sim_results s) = nflows s" using setup_okD(7)[OF assms(2)] .
  note c = core_fields[OF core_eq[OF assms(4)], unfolded L]
  have d: "id_valid (fs_depends_on (sim_specs s ! i)) \<longrightarrow> id_index (fs_depends_on (sim_specs s ! i)) < nflows s"
    using setup_okD(15)[OF assms(2,3)] assms(3) by (auto simp: flow_shape_def)
  show ?thesis
    using waiting_cong[OF assms(1,4,2,3)] c[OF assms(3)] c[of "id_index (fs_depends_on (sim_specs s ! i))"] d
      setupD(4)[OF assms(1)] assms(5-7)
    unfolding clock_ok_def Let_def by auto
qed

lemma flow_inv_cong:
  assumes "fixed s' = fixed s" "setup_ok s" "i < nflows s"
    "map res_core (sim_results s') = map res_core (sim_results s)" "sim_now s' = sim_now s"
    "sim_tx s' ! i = sim_tx s ! i" "pst s' i = pst s i" "att s' i = att s i" "retx s' i = retx s i"
    "flow_timers s' i = flow_timers s i" "flow_injects s' i = flow_injects s i"
  shows "flow_inv s' i = flow_inv s i" "sender_idle s' i = sender_idle s i" "waiting s' i = waiting s i"
proof -
  have L: "i < length (sim_results s)" using setup_okD(7)[OF assms(2)] assms(3) by simp
  show "flow_inv s' i = flow_inv s i"
    using clock_ok_cong[OF assms(1-6,11)] receiver_ok_cong[OF core_eq[OF assms(4) L]]
      setupD(4)[OF assms(1)] fixed_weights(1)[OF assms(1)] assms(6-11)
    unfolding flow_inv_def sender_at_def by simp
  show "sender_idle s' i = sender_idle s i" using assms(6,9,11) by (simp add: sender_idle_def)
  show "waiting s' i = waiting s i" using waiting_cong[OF assms(1,4,2,3)] .
qed

lemma dependents_ok_cong:
  "sim_dependents_offset s' = sim_dependents_offset s \<Longrightarrow> sim_dependents s' = sim_dependents s \<Longrightarrow>
   sim_specs s' = sim_specs s \<Longrightarrow> dependents_ok s' = dependents_ok s"
  by (simp add: dependents_ok_def dependents_of_def)

section \<open>The invariant after \<open>try_send\<close>\<close>

lemma send_done_inv:
  assumes inv: "run_inv {i} B s" and i: "i < nflows s" and nw: "\<not> waiting s i"
    and start: "res_start_ns (sim_results s ! i) \<le> sim_now s"
    and d: "send_done s i s' g"
  shows "run_inv {} B s'"
proof -
  note I = run_invD[OF inv]
  have net: "net_inv s'" and fr: "sender_frame i s s'" and sat: "sender_at s' i" and idle: "sender_idle s' i"
    using d by (auto simp: send_done_def)
  have cf: "common_frame s s'" and of: "others_frame i s s'"
    and rc: "map res_core (sim_results s') = map res_core (sim_results s)"
    and bits: "\<And>idx n. n \<noteq> 2 \<Longrightarrow> bit (pst s' i idx) n = bit (pst s i idx) n"
    and seq: "tx_next_seq (sim_tx s ! i) \<le> tx_next_seq (sim_tx s' ! i)"
    and car: "\<And>x. x \<in># carried s' \<Longrightarrow> x \<in># carried s \<or> x \<in> sent_packets s' i"
    using fr by (auto simp: sender_frame_def)
  have fx: "fixed s' = fixed s" and now: "sim_now s' = sim_now s" using cf by (auto simp: common_frame_def)
  have n: "nflows s' = nflows s" using fixed_nflows[OF fx] .
  have ok': "setup_ok s'" using setup_ok_cong[OF fx] I(1) by simp
  have other: "sim_tx s' ! j = sim_tx s ! j" "pst s' j = pst s j" "att s' j = att s j" "retx s' j = retx s j"
    "flow_timers s' j = flow_timers s j" "flow_injects s' j = flow_injects s j" if "j < nflows s" "j \<noteq> i" for j
    using of that by (auto simp: others_frame_def)
  note oc = flow_inv_cong[OF fx I(1) _ rc now other]
  have L: "i < length (sim_results s)" using setup_okD(7)[OF I(1)] i by simp
  note core = core_eq[OF rc L]
  have Fi: "flow_inv s i" using I(5)[OF i] .
  have rec: "receiver_ok (sim_results s' ! i) (sim_specs s' ! i) (pst s' i)"
    using flow_invD(2)[OF Fi] receiver_ok_cong[OF core bits bits] setupD(4)[OF fx] by simp
  have nw': "\<not> waiting s' i" using waiting_cong[OF fx rc I(1) i] nw by simp
  have inj: "res_start_ns (sim_results s ! i) \<le> t" if t: "t \<in># flow_injects s' i" for t
  proof -
    have "(i, t) \<in># injects (events s')" using t by (auto simp: flow_injects_def)
    then have "(i, t) \<in># injects (events s) \<or> sim_now s \<le> t" using of by (auto simp: others_frame_def)
    then show ?thesis
    proof
      assume "(i, t) \<in># injects (events s)"
      then have "t \<in># flow_injects s i" by (force simp: flow_injects_def)
      then show ?thesis using flow_invD(3)[OF Fi] by (auto simp: clock_ok_def Let_def)
    qed (use start in simp)
  qed
  have d: "id_valid (fs_depends_on (sim_specs s ! i)) \<longrightarrow> id_index (fs_depends_on (sim_specs s ! i)) < nflows s"
    using setup_okD(15)[OF I(1) i] i by (auto simp: flow_shape_def)
  have fail: "tx_failed (sim_tx s' ! i) = tx_failed (sim_tx s ! i)" using fr by (simp add: sender_frame_def)
  have clk: "clock_ok s' i"
    using flow_invD(3)[OF Fi] nw nw' inj start d core_fields[OF core] setupD(4)[OF fx] now
      core_fields[OF core_eq[OF rc, of "id_index (fs_depends_on (sim_specs s ! i))"]] setup_okD(7)[OF I(1)] fail
    unfolding clock_ok_def Let_def by auto
  have Fi': "flow_inv s' i" using sat rec clk by (simp add: flow_inv_def)
  have seqs: "tx_next_seq (sim_tx s ! j) \<le> tx_next_seq (sim_tx s' ! j)" if "j < nflows s" for j
    using seq other(1)[OF that] by (cases "j = i") auto
  have del: "bit (pst s' j idx) 0 = bit (pst s j idx) 0" if "j < nflows s" for j idx
    using bits other(2)[OF that] by (cases "j = i") auto
  have pk: "packet_ok s' x" if x: "x \<in># carried s'" for x
    using car[OF x]
  proof
    assume "x \<in># carried s"
    then show ?thesis using packet_ok_mono[OF I(9) fx seqs] del by blast
  next
    assume "x \<in> sent_packets s' i"
    then show ?thesis
      using i n flow_index_at[OF ok', of i] setup_okD(15)[OF ok', of i]
      by (auto simp: sent_packets_def packet_ok_def data_packet_def dest_host_def flow_shape_def)
  qed
  show ?thesis
    unfolding run_inv_def
  proof (intro conjI allI impI ballI)
    show "setup_ok s'" "net_inv s'" by (rule ok', rule net)
    show "0 < max_tries s'" using I(2) fixed_weights(1)[OF fx] by simp
    show "dependents_ok s'"
      using I(3) dependents_ok_cong[of s' s] cf setupD(4)[OF fx] by (auto simp: common_frame_def)
    show "flow_inv s' j" if "j < nflows s'" for j
      using oc(1)[of j] that n I(5) Fi' by (cases "j = i") auto
    show "sender_idle s' j \<or> waiting s' j" if "j < nflows s'" for j
      using oc(2,3)[of j] that n I(6)[of j] idle by (cases "j = i") auto
    show "fst t < nflows s'" if "t \<in># timers (events s')" for t
      using that of I(7)[of t] i n by (auto simp: others_frame_def)
    show "fst t < nflows s'" if "t \<in># injects (events s')" for t
      using that of I(8)[of t] i n by (auto simp: others_frame_def)
    show "packet_ok s' x" if "x \<in># carried s'" for x using pk[OF that] .
    show "unaccounted kd s' = B kd" for kd using I(10) cf by (auto simp: common_frame_def)
  qed
qed

section \<open>The invariant after \<open>enqueue\<close>\<close>

definition quiet :: "sim \<Rightarrow> sim \<Rightarrow> bool" where
  "quiet s s' \<longleftrightarrow> fixed s' = fixed s \<and> periods s' = periods s \<and> sim_now s' = sim_now s \<and> keeps_time s s'
     \<and> rs_events_processed (sim_stats s') = rs_events_processed (sim_stats s)"

lemma quiet_refl [simp]: "quiet s s" by (simp add: quiet_def)

lemma quiet_trans:
  assumes "quiet s s1" "quiet s1 s2"
  shows "quiet s s2"
proof -
  have "keeps_time s s2"
    unfolding keeps_time_def
  proof (intro allI impI)
    fix D H assume a: "run_delays s D" "unat (sim_now s) + D \<le> H" "H < 2 ^ 64" "run_timed s H"
    have "run_delays s1 D" "unat (sim_now s1) + D \<le> H" "run_timed s1 H"
      using a assms(1) run_delays_cong[of s1 s D] keeps_timeD[OF _ a] by (auto simp: quiet_def)
    then show "run_timed s2 H"
      using assms(2) a(3) unfolding quiet_def by (metis keeps_timeD)
  qed
  then show ?thesis using assms by (simp add: quiet_def)
qed

lemma quiet_send: "send_done s i s' g \<Longrightarrow> quiet s s'"
  by (simp add: send_done_def sender_frame_def common_frame_def quiet_def)

lemma potential_net:
  assumes ok: "setup_ok s" and fr: "net_frame s s'" and d: "net_weight s' + a \<le> net_weight s + b"
  shows "potential s' + a \<le> potential s + b"
proof -
  note f = net_frameD[OF fr] and fx = setup_frame[OF fr]
  have n: "nflows s' = nflows s" using fixed_nflows[OF fx] .
  have V: "att s' = att s" "retx_buf s' = retx_buf s"
    using views_cong[OF fx] f by (simp_all add: same_arrays_def)
  have "flow_weight s' j = flow_weight s j" for j
    unfolding flow_weight_def retx_def V f(6) flow_timers_cong(2)[OF f(17)] fixed_weights[OF fx] ..
  moreover have "waiting s' j = waiting s j" if "j < nflows s" for j
    using waiting_cong[OF fx f(7) ok that] .
  ultimately show ?thesis using d n by (simp add: potential_def net_weight_def)
qed

lemma net_frame_inv:
  assumes inv: "run_core E B s" and fr: "net_frame s s'" and net: "net_inv s'"
    and pk: "\<And>x. x \<in># carried s' \<Longrightarrow> packet_ok s x" and un: "\<And>kd. unaccounted kd s' = B' kd"
  shows "run_inv E B' s'"
proof -
  note I = run_coreD[OF inv]
  note f = net_frameD[OF fr] and fx = setup_frame[OF fr]
  have n: "nflows s' = nflows s" using fixed_nflows[OF fx] .
  have V: "pst s' = pst s" "att s' = att s" "retx_buf s' = retx_buf s"
    using views_cong[OF fx] f by (simp_all add: same_arrays_def)
  have R: "retx s' = retx s" using V f(6) by (simp add: retx_def fun_eq_iff)
  note T = flow_timers_cong(1)[OF f(16)] flow_timers_cong(2)[OF f(17)]
  have oc: "flow_inv s' j = flow_inv s j" "sender_idle s' j = sender_idle s j" "waiting s' j = waiting s j"
    if "j < nflows s" for j
    by (rule flow_inv_cong[OF fx I(1) that f(7) f(15)]; simp add: f V R T)+
  show ?thesis
    unfolding run_inv_def
  proof (intro conjI allI impI ballI)
    show "setup_ok s'" using setup_ok_cong[OF fx] I(1) by simp
    show "net_inv s'" by (rule net)
    show "0 < max_tries s'" using I(2) fixed_weights(1)[OF fx] by simp
    show "dependents_ok s'" using I(3) dependents_ok_cong[of s' s] f by simp
    show "flow_inv s' j" if "j < nflows s'" for j using oc(1)[of j] that n I(4) by simp
    show "sender_idle s' j \<or> waiting s' j" if "j < nflows s'" "j \<notin> E" for j
      using oc(2,3)[of j] that n I(5)[of j] by simp
    show "fst t < nflows s'" if "t \<in># timers (events s')" for t using that I(6)[of t] n f by simp
    show "fst t < nflows s'" if "t \<in># injects (events s')" for t using that I(7)[of t] n f by simp
    show "packet_ok s' x" if "x \<in># carried s'" for x
      using packet_ok_mono[OF pk[OF that] fx] f V by simp
    show "unaccounted kd s' = B' kd" for kd by (rule un)
  qed
qed

definition packet_bytes :: "packet \<Rightarrow> PacketKind \<Rightarrow> u64" where
  "packet_bytes k kd = (if pkt_kind k = kd then ucast (pkt_bytes k) else 0)"

lemma run_timed_net: "net_frame s s' \<Longrightarrow> run_timed s H \<Longrightarrow> timed s' H \<Longrightarrow> run_timed s' H"
  using net_frameD(6)[of s s'] by (simp add: run_timed_def)

lemma quiet_net:
  assumes "net_frame s s'"
    "\<And>D H. delays_ok (sim_fabric s) D \<Longrightarrow> unat (sim_now s) + D \<le> H \<Longrightarrow> H < 2 ^ 64 \<Longrightarrow> timed s H \<Longrightarrow> timed s' H"
  shows "quiet s s'"
proof -
  have "keeps_time s s'"
    unfolding keeps_time_def
  proof (intro allI impI)
    fix D H assume a: "run_delays s D" "unat (sim_now s) + D \<le> H" "H < 2 ^ 64" "run_timed s H"
    have "delays_ok (sim_fabric s) D" "timed s H"
      using a(1,4) delays_frozen[of s] by (simp_all add: run_delays_def run_timed_def)
    then have "timed s' H" using assms(2) a(2,3) by blast
    then show "run_timed s' H" using run_timed_net[OF assms(1) a(4)] by simp
  qed
  then show ?thesis
    using net_frameD[OF assms(1)] setup_frame[OF assms(1)] by (simp add: quiet_def periods_def)
qed

lemma packet_ok_flow: "packet_ok s (h, k) \<Longrightarrow> id_index (pkt_flow k) < nflows s"
  by (simp add: packet_ok_def Let_def)

lemma packet_ok_plain: "packet_ok s (h, k) \<Longrightarrow> plain k = k"
  by (simp add: packet_ok_def Let_def plain_def)

lemma enqueue_inv:
  assumes inv: "run_inv E (packet_bytes k) s" and pid: "id_index pid = p" and pk: "packet_ok s (AtPort p, k)"
  shows "\<exists>s'. enqueue pid k s = Some s' \<and> run_inv E (\<lambda>_. 0) s' \<and> quiet s s'
    \<and> potential s' \<le> potential s + packet_weight s (AtPort p, k)"
proof -
  note I = run_invD[OF inv]
  have p: "id_index pid < port_count (sim_fabric s)"
    using pk pid by (simp add: packet_ok_def Let_def on_route_def)
  have f: "id_index (pkt_flow k) < length (sim_results s)"
    using packet_ok_flow[OF pk] setup_okD(7)[OF I(1)] by simp
  have pl: "plain k = k" using packet_ok_plain[OF pk] .
  obtain s' where s': "enqueue pid k s = Some s'" "net_inv s'" "net_frame s s'"
    "carried s' \<subseteq># add_mset (AtPort p, k) (carried s)"
    "\<And>kd. unaccounted kd s' = unaccounted kd s - (if pkt_kind k = kd then ucast (pkt_bytes k) else 0)"
    "\<And>D H. delays_ok (sim_fabric s) D \<Longrightarrow> unat (sim_now s) + D \<le> H \<Longrightarrow> H < 2 ^ 64 \<Longrightarrow>
       timed s H \<Longrightarrow> timed s' H"
    using enqueue_effect[OF I(4) p f] pid pl by metis
  have "run_inv E (\<lambda>_. 0) s'"
  proof (rule net_frame_inv[OF _ s'(3,2)])
    show "run_core E (packet_bytes k) s" using inv by (simp add: run_inv_core)
  next
    fix x assume "x \<in># carried s'"
    then have "x = (AtPort p, k) \<or> x \<in># carried s" using mset_subset_eqD[OF s'(4)] by auto
    then show "packet_ok s x" using pk I(9)[of x] by blast
  qed (use s'(5) I(10) in \<open>simp add: packet_bytes_def\<close>)
  moreover have "quiet s s'" by (rule quiet_net[OF s'(3,6)])
  moreover have "potential s' + 0 \<le> potential s + packet_weight s (AtPort p, k)"
    by (rule potential_net[OF I(1) s'(3)])
       (use sum_mset_subset[OF s'(4), of "packet_weight s"] net_frameD(16)[OF s'(3)]
          fixed_weights(4)[OF setup_frame[OF s'(3)]] in \<open>simp add: net_weight_def\<close>)
  ultimately show ?thesis using s'(1) by auto
qed

end
