(* ===== verification/Sim_Handlers.thy ===== *)
theory Sim_Handlers
  imports Sim_Invariant
begin

text \<open>
  The event handlers: each returns, keeps the invariant of the run and spends at least
  one unit of potential.
\<close>

section \<open>The sender invariant under acknowledgement and timeout\<close>

lemma in_flight_dec:
  assumes "sender_ok M tx st at R T" "bit (st x) 2"
  shows "unat (tx_in_flight tx - 1) = unat (tx_in_flight tx) - 1" "0 < unat (tx_in_flight tx)"
proof -
  have "card {idx. bit (st idx) 2} \<noteq> 0" using assms(2) by auto
  then have nz: "unat (tx_in_flight tx) \<noteq> 0" using sender_okD(3)[OF assms(1)] by simp
  then have ne: "tx_in_flight tx \<noteq> 0" by auto
  show "unat (tx_in_flight tx - 1) = unat (tx_in_flight tx) - 1" by (rule unat_dec[OF ne])
  show "0 < unat (tx_in_flight tx)" using nz by simp
qed

text \<open>Clearing the in-flight bit of one packet, with the counter following.\<close>

lemma clear_in_flight:
  assumes ok: "sender_ok M tx st at R T" and v: "\<not> bit v 2"
    and n: "n = (if bit (st x) 2 then tx_in_flight tx - 1 else tx_in_flight tx)"
  shows "unat n = card {idx. bit ((st(x := v)) idx) 2}" "unat n \<le> unat (tx_in_flight tx)"
    "bit (st x) 2 \<Longrightarrow> Suc (unat n) = unat (tx_in_flight tx)"
proof -
  have "unat n = card {idx. bit ((st(x := v)) idx) 2} \<and> unat n \<le> unat (tx_in_flight tx)
    \<and> (bit (st x) 2 \<longrightarrow> Suc (unat n) = unat (tx_in_flight tx))"
  proof (cases "bit (st x) 2")
    case True
    then show ?thesis
      using card_flag_remove[of st x v] v in_flight_dec[OF ok True] sender_okD(3)[OF ok] n by simp
  next
    case False
    then show ?thesis using card_flag_same[of st x v] v sender_okD(3)[OF ok] n by simp
  qed
  then show "unat n = card {idx. bit ((st(x := v)) idx) 2}" "unat n \<le> unat (tx_in_flight tx)"
    "bit (st x) 2 \<Longrightarrow> Suc (unat n) = unat (tx_in_flight tx)" by simp_all
qed

lemma sender_ok_ack:
  assumes ok: "sender_ok M tx st at R T" and x: "x < tx_next_seq tx" and v: "bit v 1" "\<not> bit v 2"
    and n: "n = (if bit (st x) 2 then tx_in_flight tx - 1 else tx_in_flight tx)"
  shows "sender_ok M (tx\<lparr>tx_acked_count := c, tx_in_flight := n\<rparr>) (st(x := v)) at R T"
proof -
  note D = sender_okD[OF ok] and C = clear_in_flight[OF ok v(2) n]
  show ?thesis
    unfolding sender_ok_def
  proof (intro conjI allI impI)
    fix idx assume a: "\<not> tx_failed (tx\<lparr>tx_acked_count := c, tx_in_flight := n\<rparr>)"
      "idx < tx_next_seq (tx\<lparr>tx_acked_count := c, tx_in_flight := n\<rparr>)" "\<not> bit ((st(x := v)) idx) 1"
    then have "idx \<noteq> x" using v by auto
    then show "bit ((st(x := v)) idx) 2 \<longleftrightarrow> idx \<notin> set R"
      "count T (idx, at idx) = of_bool (bit ((st(x := v)) idx) 2)"
      using a D(12,13)[of idx] by simp_all
  qed (use D C v x in \<open>auto split: if_splits\<close>)
qed

text \<open>A timer that fires without effect.\<close>

lemma sender_ok_stale:
  assumes ok: "sender_ok M tx st at R (add_mset (x, a) T)"
    and stale: "bit (st x) 1 \<or> a \<noteq> at x \<or> tx_failed tx"
  shows "sender_ok M tx st at R T"
proof -
  note D = sender_okD[OF ok]
  show ?thesis
    unfolding sender_ok_def
  proof (intro conjI allI impI)
    fix idx assume "\<not> tx_failed tx" "idx < tx_next_seq tx" "\<not> bit (st idx) 1"
    then show "bit (st idx) 2 \<longleftrightarrow> idx \<notin> set R" "count T (idx, at idx) = of_bool (bit (st idx) 2)"
      using D(12,13)[of idx] stale by (auto split: if_splits)
  qed (use D in auto)
qed

lemma sender_ok_live_timer:
  assumes ok: "sender_ok M tx st at R (add_mset (x, at x) T)" and live: "\<not> bit (st x) 1" "\<not> tx_failed tx"
  shows "x < tx_next_seq tx" "bit (st x) 2" "x \<notin> set R" "(x, at x) \<notin># T"
proof -
  note D = sender_okD[OF ok]
  show x: "x < tx_next_seq tx" using D(6)[of x "at x"] by (meson not_le union_single_eq_member)
  have c: "Suc (count T (x, at x)) = of_bool (bit (st x) 2)" using D(13)[OF live(2) x live(1)] by simp
  then show b: "bit (st x) 2" by (cases "bit (st x) 2") simp_all
  then show "(x, at x) \<notin># T" using c by (simp add: not_in_iff)
  show "x \<notin> set R" using D(7)[of x] b by blast
qed

lemma sender_ok_fail:
  assumes ok: "sender_ok M tx st at R (add_mset (x, a) T)" and x: "x < tx_next_seq tx" and v: "\<not> bit v 2"
    and n: "n = (if bit (st x) 2 then tx_in_flight tx - 1 else tx_in_flight tx)"
  shows "sender_ok M (tx\<lparr>tx_in_flight := n, tx_failed := True\<rparr>) (st(x := v)) at R T"
proof -
  note D = sender_okD[OF ok] and C = clear_in_flight[OF ok v n]
  show ?thesis
    unfolding sender_ok_def
    by (intro conjI allI impI) (use D C v x in \<open>auto split: if_splits\<close>)
qed

lemma sender_ok_timeout:
  assumes ok: "sender_ok M tx st at R (add_mset (x, at x) T)" and live: "\<not> bit (st x) 1" "\<not> tx_failed tx"
    and v: "\<not> bit v 2" "\<not> bit v 1" and M: "Suc (unat (at x)) < M" "M < 256"
  shows "sender_ok M (tx\<lparr>tx_in_flight := tx_in_flight tx - 1, tx_retx_count := c\<rparr>)
      (st(x := v)) (at(x := at x + 1)) (R @ [x]) T"
proof -
  note D = sender_okD[OF ok] and L = sender_ok_live_timer[OF ok live]
  note C = clear_in_flight[OF ok v(1), of "tx_in_flight tx - 1" x]
  have C: "unat (tx_in_flight tx - 1) = card {idx. bit ((st(x := v)) idx) 2}"
    "Suc (unat (tx_in_flight tx - 1)) = unat (tx_in_flight tx)" using C L(2) by simp_all
  have a1: "unat (at x + 1) = Suc (unat (at x))"
  proof -
    have "unat (at x) + unat (1 :: u8) < 2 ^ LENGTH(8)" using M by simp
    then show ?thesis using unat_add_small[of "at x" 1] by simp
  qed
  then have gt: "at x < at x + 1" by (simp add: word_less_nat_alt)
  have new: "(x, at x + 1) \<notin># T" using D(11)[of x "at x + 1"] gt by force
  show ?thesis
    unfolding sender_ok_def
  proof (intro conjI allI impI)
    fix idx assume a: "\<not> tx_failed (tx\<lparr>tx_in_flight := tx_in_flight tx - 1, tx_retx_count := c\<rparr>)"
      "idx < tx_next_seq (tx\<lparr>tx_in_flight := tx_in_flight tx - 1, tx_retx_count := c\<rparr>)"
      "\<not> bit ((st(x := v)) idx) 1"
    show "bit ((st(x := v)) idx) 2 \<longleftrightarrow> idx \<notin> set (R @ [x])"
      "count T (idx, (at(x := at x + 1)) idx) = of_bool (bit ((st(x := v)) idx) 2)"
      using a D(12,13)[of idx] v new by (cases "idx = x"; simp add: not_in_iff)+
  next
    fix idx a assume "(idx, a) \<in># T"
    then have "a \<le> at idx" using D(11)[of idx a] by simp
    then show "a \<le> (at(x := at x + 1)) idx" using gt by auto
  qed (use D L C v a1 M new in auto)
qed

section \<open>The state after the event has been popped\<close>

definition popped :: "event \<Rightarrow> sim \<Rightarrow> sim \<Rightarrow> bool" where
  "popped e s0 s \<longleftrightarrow> (\<exists>q st. s = s0\<lparr>sim_queue := q, sim_now := ev_time e, sim_stats := st\<rparr>
     \<and> eq_inv q \<and> events s0 = add_mset e (eq_events q) \<and> sim_now s0 \<le> ev_time e)"

lemma poppedD:
  assumes "popped e s0 s"
  shows "fixed s = fixed s0" "periods s = periods s0" "sim_tx s = sim_tx s0" "sim_results s = sim_results s0"
    "pst s = pst s0" "att s = att s0" "retx_buf s = retx_buf s0" "retx s = retx s0"
    "sim_fabric s = sim_fabric s0" "sim_specs s = sim_specs s0"
    "sim_dependents_offset s = sim_dependents_offset s0" "sim_dependents s = sim_dependents s0"
    "events s0 = add_mset e (events s)" "sim_now s = ev_time e" "sim_now s0 \<le> sim_now s" "eq_inv (sim_queue s)"
proof -
  obtain q st where s: "s = s0\<lparr>sim_queue := q, sim_now := ev_time e, sim_stats := st\<rparr>" "eq_inv q"
    "events s0 = add_mset e (eq_events q)" "sim_now s0 \<le> ev_time e"
    using assms by (auto simp: popped_def)
  show fx: "fixed s = fixed s0" using s(1) by simp
  show V: "pst s = pst s0" "att s = att s0" "retx_buf s = retx_buf s0"
    using views_cong[OF fx] s(1) by (simp_all add: same_arrays_def)
  show "retx s = retx s0" using V s(1) by (simp add: retx_def fun_eq_iff)
qed (use assms in \<open>auto simp: popped_def periods_def\<close>)

lemma popped_events:
  assumes "popped e s0 s"
  shows "arrivals (events s0) = (if ev_type e = Arrive
      then add_mset (OnWire (id_index (ev_port e)), ev_packet e) (arrivals (events s)) else arrivals (events s))"
    "timers (events s0) = (if ev_type e = Timeout
      then add_mset (id_index (ev_flow e), ev_packet_index e, ev_attempt e) (timers (events s)) else timers (events s))"
    "injects (events s0) = (if ev_type e = Inject
      then add_mset (id_index (ev_flow e), ev_time e) (injects (events s)) else injects (events s))"
    "tx_pending (events s0) = (if ev_type e = TxComplete
      then add_mset (id_index (ev_port e)) (tx_pending (events s)) else tx_pending (events s))"
    "carried s0 = (if ev_type e = Arrive
      then add_mset (OnWire (id_index (ev_port e)), ev_packet e) (carried s) else carried s)"
  unfolding poppedD(13)[OF assms] carried_def poppedD(9)[OF assms] by (simp_all add: views_add)

lemma popped_flow_views:
  assumes "popped e s0 s"
  shows "flow_timers s0 j = (if ev_type e = Timeout \<and> id_index (ev_flow e) = j
      then add_mset (ev_packet_index e, ev_attempt e) (flow_timers s j) else flow_timers s j)"
    "flow_injects s0 j = (if ev_type e = Inject \<and> id_index (ev_flow e) = j
      then add_mset (ev_time e) (flow_injects s j) else flow_injects s j)"
  using popped_events[OF assms] by (simp_all add: flow_timers_def flow_injects_def)

lemma popped_net:
  assumes "popped e s0 s" "net_inv s0" "ev_type e \<noteq> TxComplete"
  shows "net_inv s"
  using assms popped_events(4)[OF assms(1)] poppedD(9,16)[OF assms(1)] by (simp add: net_inv_def)

lemma popped_setup: "sim_inv s0 \<Longrightarrow> popped e s0 s \<Longrightarrow> setup_ok s \<and> nflows s = nflows s0 \<and> max_tries s = max_tries s0"
  using setup_ok_cong[of s s0] poppedD(1,10)[of e s0 s] fixed_weights(1)[of s s0] by (auto simp: run_inv_def)

text \<open>A flow whose own events were not touched is as before, only later.\<close>

lemma popped_flow:
  assumes "popped e s0 s" "flow_inv s0 j" "ev_type e \<in> {Inject, Timeout} \<longrightarrow> id_index (ev_flow e) \<noteq> j"
  shows "flow_inv s j" "sender_idle s j = sender_idle s0 j" "waiting s j = waiting s0 j"
proof -
  note P = poppedD[OF assms(1)]
  have V: "flow_timers s j = flow_timers s0 j" "flow_injects s j = flow_injects s0 j"
    using popped_flow_views[OF assms(1), of j] assms(3) by auto
  show w: "waiting s j = waiting s0 j" using P by (simp add: waiting_def)
  have "clock_ok s j"
    using flow_invD(3)[OF assms(2)] w P(15) unfolding clock_ok_def Let_def V P(3,4,10) by auto
  then show "flow_inv s j"
    using assms(2) fixed_weights(1)[OF P(1)] unfolding flow_inv_def sender_at_def V P(3-6,8,10) by simp
  show "sender_idle s j = sender_idle s0 j" unfolding sender_idle_def V P ..
qed

text \<open>The handler then changes the state of flow \<open>i\<close> only.\<close>

definition flow_change :: "nat \<Rightarrow> sim \<Rightarrow> sim \<Rightarrow> bool" where
  "flow_change i s s1 \<longleftrightarrow> fixed s1 = fixed s \<and> periods s1 = periods s
     \<and> sim_dependents_offset s1 = sim_dependents_offset s \<and> sim_dependents s1 = sim_dependents s
     \<and> sim_fabric s1 = sim_fabric s \<and> sim_queue s1 = sim_queue s \<and> sim_now s1 = sim_now s
     \<and> sim_stats s1 = sim_stats s
     \<and> (\<forall>j < nflows s. j \<noteq> i \<longrightarrow> sim_tx s1 ! j = sim_tx s ! j \<and> pst s1 j = pst s j \<and> att s1 j = att s j
          \<and> retx s1 j = retx s j \<and> sim_results s1 ! j = sim_results s ! j)
     \<and> (\<forall>idx. bit (pst s1 i idx) 0 = bit (pst s i idx) 0)
     \<and> tx_next_seq (sim_tx s1 ! i) = tx_next_seq (sim_tx s ! i)
     \<and> tx_next_send_ns (sim_tx s1 ! i) = tx_next_send_ns (sim_tx s ! i)
     \<and> res_complete (sim_results s1 ! i) = res_complete (sim_results s ! i)
     \<and> res_finish_ns (sim_results s1 ! i) = res_finish_ns (sim_results s ! i)
     \<and> res_start_ns (sim_results s1 ! i) = res_start_ns (sim_results s ! i)"

lemma flow_change_refl [simp]: "flow_change i s s"
  by (simp add: flow_change_def)

lemma flow_changeD:
  assumes "flow_change i s s1" "setup_ok s"
  shows "fixed s1 = fixed s" "nflows s1 = nflows s" "events s1 = events s" "carried s1 = carried s"
    "flow_timers s1 = flow_timers s" "flow_injects s1 = flow_injects s" "unaccounted kd s1 = unaccounted kd s"
    "j < nflows s \<Longrightarrow> res_complete (sim_results s1 ! j) = res_complete (sim_results s ! j)"
    "j < nflows s \<Longrightarrow> res_finish_ns (sim_results s1 ! j) = res_finish_ns (sim_results s ! j)"
    "j < nflows s \<Longrightarrow> waiting s1 j = waiting s j"
    "net_inv s1 = net_inv s" "dependents_ok s1 = dependents_ok s"
proof -
  show fx: "fixed s1 = fixed s" using assms by (simp add: flow_change_def)
  show "nflows s1 = nflows s" using fixed_nflows[OF fx] .
  show E: "events s1 = events s" and C: "carried s1 = carried s"
    using assms by (simp_all add: flow_change_def carried_def)
  show "flow_timers s1 = flow_timers s" "flow_injects s1 = flow_injects s"
    using flow_timers_cong[of s1 s] E by simp_all
  show "unaccounted kd s1 = unaccounted kd s" using C assms by (simp add: unaccounted_def flow_change_def)
  show c: "res_complete (sim_results s1 ! j) = res_complete (sim_results s ! j)"
    "res_finish_ns (sim_results s1 ! j) = res_finish_ns (sim_results s ! j)" if "j < nflows s" for j
    using assms that by (cases "j = i"; simp add: flow_change_def)+
  show "j < nflows s \<Longrightarrow> waiting s1 j = waiting s j"
    using c setup_okD(15)[OF assms(2), of j] setupD(4)[OF fx] by (auto simp: waiting_def flow_shape_def)
  show "net_inv s1 = net_inv s" using assms by (simp add: net_inv_def flow_change_def)
  show "dependents_ok s1 = dependents_ok s"
    using dependents_ok_cong[of s1 s] assms setupD(4)[OF fx] by (simp add: flow_change_def)
qed

lemma flow_change_other:
  assumes "flow_change i s s1" "setup_ok s" "j < nflows s" "j \<noteq> i"
  shows "flow_inv s1 j = flow_inv s j" "sender_idle s1 j = sender_idle s j"
proof -
  note D = flow_changeD[OF assms(1,2)]
  have o: "sim_tx s1 ! j = sim_tx s ! j" "pst s1 j = pst s j" "att s1 j = att s j" "retx s1 j = retx s j"
    "sim_results s1 ! j = sim_results s ! j" "sim_now s1 = sim_now s"
    using assms by (simp_all add: flow_change_def)
  have d: "id_valid (fs_depends_on (sim_specs s ! j)) \<longrightarrow> id_index (fs_depends_on (sim_specs s ! j)) < nflows s"
    using setup_okD(15)[OF assms(2,3)] assms(3) by (auto simp: flow_shape_def)
  have "clock_ok s1 j = clock_ok s j"
    using d D(9) D(10)[OF assms(3)] unfolding clock_ok_def Let_def D(6) o setupD(4)[OF D(1)] by auto
  then show "flow_inv s1 j = flow_inv s j"
    unfolding flow_inv_def sender_at_def D(5,6) o setupD(4)[OF D(1)] fixed_weights(1)[OF D(1)] by simp
  show "sender_idle s1 j = sender_idle s j" by (simp add: sender_idle_def o D(6))
qed

lemma change_core:
  assumes inv: "sim_inv s0" and pop: "popped e s0 s" and ch: "flow_change i s s1" and i: "i < nflows s0"
    and ty: "ev_type e \<in> {Inject, Timeout} \<longrightarrow> id_index (ev_flow e) = i"
    and fi: "flow_inv s1 i" and B: "\<And>kd. unaccounted kd s = B kd"
  shows "run_core {i} B s1"
proof -
  note I = run_invD[OF inv] and P = poppedD[OF pop]
  have n: "nflows s = nflows s0" using P(10) by simp
  have ok: "setup_ok s" using setup_ok_cong[OF P(1)] I(1) by simp
  note D = flow_changeD[OF ch ok]
  have oth: "flow_inv s1 j" "sender_idle s1 j \<or> waiting s1 j" if "j < nflows s0" "j \<noteq> i" for j
  proof -
    have t: "ev_type e \<in> {Inject, Timeout} \<longrightarrow> id_index (ev_flow e) \<noteq> j" using ty that by auto
    note pf = popped_flow[OF pop I(5)[OF that(1)] t]
    note fo = flow_change_other[OF ch ok, of j]
    show "flow_inv s1 j" using pf(1) fo(1) that n by simp
    show "sender_idle s1 j \<or> waiting s1 j"
      using pf(2,3) fo(2) D(10)[of j] I(6)[OF that(1)] that n by simp
  qed
  have T: "t \<in># timers (events s0)" if "t \<in># timers (events s1)" for t
    using that popped_events(2)[OF pop] D(3) by (auto split: if_splits)
  have J: "t \<in># injects (events s0)" if "t \<in># injects (events s1)" for t
    using that popped_events(3)[OF pop] D(3) by (auto split: if_splits)
  have C: "x \<in># carried s0" if "x \<in># carried s1" for x
    using that popped_events(5)[OF pop] D(4) by (auto split: if_splits)
  have fx: "fixed s1 = fixed s0" using D(1) P(1) by simp
  have seq: "tx_next_seq (sim_tx s1 ! j) = tx_next_seq (sim_tx s0 ! j)"
    and del: "bit (pst s0 j idx) 0 \<Longrightarrow> bit (pst s1 j idx) 0" if "j < nflows s0" for j idx
    using ch that P(3,5) n by (cases "j = i"; auto simp: flow_change_def)+
  show ?thesis
    unfolding run_core_def
  proof (intro conjI allI impI ballI)
    show "setup_ok s1" using setup_ok_cong[OF fx] I(1) by simp
    show "0 < max_tries s1" using fixed_weights(1)[OF fx] I(2) by simp
    show "dependents_ok s1" using D(12) I(3) dependents_ok_cong[of s s0] P by simp
    show "flow_inv s1 j" if "j < nflows s1" for j
      using oth(1)[of j] fi that n D(2) by (cases "j = i") auto
    show "sender_idle s1 j \<or> waiting s1 j" if "j < nflows s1" "j \<notin> {i}" for j
      using oth(2)[of j] that n D(2) by auto
    show "fst t < nflows s1" if "t \<in># timers (events s1)" for t using I(7)[OF T[OF that]] n D(2) by simp
    show "fst t < nflows s1" if "t \<in># injects (events s1)" for t using I(8)[OF J[OF that]] n D(2) by simp
    show "packet_ok s1 x" if "x \<in># carried s1" for x
      by (rule packet_ok_mono[OF I(9)[OF C[OF that]] fx]) (use seq del in auto)
    show "unaccounted kd s1 = B kd" for kd using D(7) B by simp
  qed
qed

lemma change_inv:
  assumes inv: "sim_inv s0" and pop: "popped e s0 s" and ch: "flow_change i s s1" and i: "i < nflows s0"
    and ty: "ev_type e \<noteq> TxComplete" "ev_type e \<in> {Inject, Timeout} \<longrightarrow> id_index (ev_flow e) = i"
    and fi: "flow_inv s1 i" and B: "\<And>kd. unaccounted kd s = B kd"
  shows "run_inv {i} B s1"
proof -
  have "net_inv s1"
    using flow_changeD(11)[OF ch] popped_setup[OF inv pop] popped_net[OF pop run_invD(4)[OF inv] ty(1)] by simp
  then show ?thesis using change_core[OF inv pop ch i ty(2) fi B] by (simp add: run_inv_core)
qed

lemma run_inv_idle:
  "run_inv {i} B s \<Longrightarrow> i < nflows s \<longrightarrow> sender_idle s i \<or> waiting s i \<Longrightarrow> run_inv {} B s"
  unfolding run_inv_def by auto

lemma run_inv_exempt: "run_inv {} B s \<Longrightarrow> run_inv {i} B s"
  unfolding run_inv_def by auto

lemma change_potential:
  assumes inv: "sim_inv s0" and pop: "popped e s0 s" and ch: "flow_change i s s1" and i: "i < nflows s0"
    and ty: "ev_type e \<in> {Inject, Timeout} \<longrightarrow> id_index (ev_flow e) = i"
    and d: "flow_weight s1 i + net_weight s1 + a \<le> flow_weight s0 i + net_weight s0 + b"
  shows "potential s1 + a \<le> potential s0 + b"
proof -
  note I = run_invD[OF inv] and P = poppedD[OF pop]
  have n: "nflows s = nflows s0" using P(10) by simp
  have ok: "setup_ok s" using setup_ok_cong[OF P(1)] I(1) by simp
  note D = flow_changeD[OF ch ok]
  have fx: "fixed s1 = fixed s0" using D(1) P(1) by simp
  show ?thesis
  proof (rule potential_change[OF I(1) i fx _ _ d])
    have oth: "sim_tx s1 ! j = sim_tx s0 ! j" "pst s1 j = pst s0 j" "att s1 j = att s0 j" "retx s1 j = retx s0 j"
      if "j < nflows s0" "j \<noteq> i" for j
      using ch that n P by (simp_all add: flow_change_def)
    have fl: "flow_timers s1 j = flow_timers s0 j" "flow_injects s1 j = flow_injects s0 j"
      if "j \<noteq> i" for j
      using D(5,6) popped_flow_views[OF pop, of j] ty that by auto
    have T: "t \<in># timers (events s0)" if "t \<in># timers (events s1)" for t
      using that popped_events(2)[OF pop] D(3) by (auto split: if_splits)
    have J: "t \<in># injects (events s0)" if "t \<in># injects (events s1)" for t
      using that popped_events(3)[OF pop] D(3) by (auto split: if_splits)
    show "others_frame i s0 s1"
      unfolding others_frame_def using oth fl T J by auto
    show "waiting s1 j = waiting s0 j" if "j < nflows s0" for j
      using D(10)[of j] that n P by (simp add: waiting_def)
  qed
qed

section \<open>Injection\<close>

definition handled :: "sim \<Rightarrow> sim \<Rightarrow> sim \<Rightarrow> bool" where
  "handled s0 s s' \<longleftrightarrow> sim_inv s' \<and> quiet s s' \<and> Suc (potential s') \<le> potential s0"

lemma quiet_frame: "sender_frame i s s' \<Longrightarrow> quiet s s'"
  by (simp add: sender_frame_def common_frame_def quiet_def)

text \<open>
  A sender handler changes the state of its flow and then either returns or calls \<open>try_send\<close>
  in a state that is ready for it.
\<close>

definition ready_to_send :: "nat \<Rightarrow> sim \<Rightarrow> sim \<Rightarrow> sim \<Rightarrow> bool" where
  "ready_to_send i s0 s s1 \<longleftrightarrow> run_inv {i} (\<lambda>_. 0) s1 \<and> i < nflows s1 \<and> \<not> waiting s1 i
     \<and> res_start_ns (sim_results s1 ! i) \<le> sim_now s1 \<and> quiet s s1 \<and> flow_change i s s1
     \<and> potential s1 + 1 + of_bool (sim_now s1 < tx_next_send_ns (sim_tx s1 ! i)) \<le> potential s0"

definition sender_op :: "flow_id \<Rightarrow> sim \<Rightarrow> sim \<Rightarrow> sim option \<Rightarrow> bool" where
  "sender_op f s0 s r \<longleftrightarrow> (\<exists>s1. r = Some s1 \<and> flow_change (id_index f) s s1 \<and> handled s0 s s1)
     \<or> (\<exists>s1. r = try_send f s1 \<and> ready_to_send (id_index f) s0 s s1)"

lemma sender_op_return: "flow_change (id_index f) s s1 \<Longrightarrow> handled s0 s s1 \<Longrightarrow> sender_op f s0 s (Some s1)"
  by (simp add: sender_op_def)

lemma sender_op_send: "ready_to_send (id_index f) s0 s s1 \<Longrightarrow> sender_op f s0 s (try_send f s1)"
  by (auto simp: sender_op_def)

lemma finish_send:
  assumes r: "ready_to_send (id_index f) s0 s s1"
  shows "\<exists>s'. try_send f s1 = Some s' \<and> handled s0 s s'
    \<and> send_done s1 (id_index f) s' (of_bool (sim_now s1 < tx_next_send_ns (sim_tx s1 ! id_index f)))"
proof -
  let ?i = "id_index f"
  have inv: "run_inv {?i} (\<lambda>_. 0) s1" and i: "?i < nflows s1" and nw: "\<not> waiting s1 ?i"
    and start: "res_start_ns (sim_results s1 ! ?i) \<le> sim_now s1" and q: "quiet s s1"
    and pot: "potential s1 + 1 + of_bool (sim_now s1 < tx_next_send_ns (sim_tx s1 ! ?i)) \<le> potential s0"
    using r by (auto simp: ready_to_send_def)
  note I = run_invD[OF inv]
  obtain s' where s': "try_send f s1 = Some s'"
    "send_done s1 ?i s' (of_bool (sim_now s1 < tx_next_send_ns (sim_tx s1 ! ?i)))"
    using try_send_spec[OF I(1,4) refl i flow_invD(1)[OF I(5)[OF i]] I(2)] by blast
  have "sim_inv s'" by (rule send_done_inv[OF inv i nw start s'(2)])
  moreover have "quiet s s'" using quiet_trans[OF q quiet_send[OF s'(2)]] .
  moreover have "Suc (potential s') \<le> potential s0" using s'(2) pot by (simp add: send_done_def)
  ultimately show ?thesis using s' by (auto simp: handled_def)
qed

lemma sender_op_handled:
  assumes "sender_op f s0 s r"
  shows "\<exists>s'. r = Some s' \<and> handled s0 s s'"
  using assms finish_send unfolding sender_op_def by metis

lemma retx_same:
  assumes "retx_buf s1 = retx_buf s" "sim_tx s1 = (sim_tx s)[i := tx1]" "i < length (sim_tx s)"
    "tx_window tx1 = tx_window (sim_tx s ! i)" "tx_retx_head tx1 = tx_retx_head (sim_tx s ! i)"
    "tx_retx_count tx1 = tx_retx_count (sim_tx s ! i)"
  shows "retx s1 j = retx s j"
  unfolding retx_def assms(1,2) using assms(3-) by (cases "j = i") (simp_all add: retx_list_def)

lemma on_inject_op:
  assumes inv: "sim_inv s0" and pop: "popped e s0 s" and ty: "ev_type e = Inject"
    and un: "\<And>kd. unaccounted kd s = 0"
  shows "sender_op (ev_flow e) s0 s (on_inject e s)"
proof -
  note I = run_invD[OF inv] and P = poppedD[OF pop]
  define f where "f = ev_flow e"
  define i where "i = id_index f"
  define tx where "tx = sim_tx s ! i"
  define tx1 where "tx1 = tx\<lparr>tx_send_scheduled := False\<rparr>"
  define s1 where "s1 = s\<lparr>sim_tx := (sim_tx s)[i := tx1]\<rparr>"
  have ok: "setup_ok s" and n: "nflows s = nflows s0" and M: "max_tries s = max_tries s0"
    using popped_setup[OF inv pop] by auto
  have inj0: "flow_injects s0 i = add_mset (ev_time e) (flow_injects s i)"
    and tim0: "flow_timers s0 i = flow_timers s i"
    using popped_flow_views[OF pop, of i] ty by (simp_all add: i_def f_def)
  have "(i, ev_time e) \<in># injects (events s0)" using popped_events(3)[OF pop] ty by (simp add: i_def f_def)
  then have i: "i < nflows s0" using I(8) by fastforce
  have net: "net_inv s" using popped_net[OF pop I(4)] ty by simp
  have PF: "sender_frame i s s1" "sim_tx s1 ! i = tx1" "pst s1 = pst s" "att s1 = att s"
    "retx_buf s1 = retx_buf s" "flow_timers s1 = flow_timers s" "flow_injects s1 = flow_injects s"
    "fixed s1 = fixed s" "net_weight s1 = net_weight s"
    by (rule put_tx_frame[OF ok net _ tx_def _ _ _ _ _ _ s1_def]; use i n in \<open>simp add: tx1_def\<close>)+
  have run: "on_inject e s = try_send f s1"
    using get_tx_Some[OF ok, of f] put_tx_Some[OF ok, of f tx1] i n
    by (simp add: on_inject_def f_def[symmetric] i_def[symmetric] tx_def tx1_def s1_def)
  have R: "retx s1 j = retx s j" for j
    by (rule retx_same[OF PF(5), of i tx1]) (use i n setup_okD(4)[OF ok] in \<open>simp_all add: s1_def tx1_def tx_def\<close>)
  have ch: "flow_change i s s1"
    using PF R by (simp add: flow_change_def s1_def sender_frame_def common_frame_def tx1_def tx_def)
  have F0: "flow_inv s0 i" using I(5)[OF i] .
  have nw0: "\<not> waiting s0 i" using flow_invD(3)[OF F0] inj0 by (auto simp: clock_ok_def Let_def)
  have nw1: "\<not> waiting s1 i" using nw0 flow_changeD(10)[OF ch ok] i n P by (simp add: waiting_def)
  have res1: "sim_results s1 = sim_results s0" using P(4) by (simp add: s1_def)
  have now1: "sim_now s1 = ev_time e" using P(14) by (simp add: s1_def)
  have start: "res_start_ns (sim_results s1 ! i) \<le> sim_now s1"
    using flow_invD(3)[OF F0] inj0 by (auto simp: clock_ok_def Let_def res1 now1)
  have M1: "max_tries s1 = max_tries s0" using fixed_weights(1)[OF PF(8)] M by simp
  have fi: "flow_inv s1 i"
  proof -
    have "size (flow_injects s i) \<le> 1"
      using flow_invD(1)[OF F0] inj0 by (cases "tx_send_scheduled (sim_tx s0 ! i)") (auto simp: sender_at_def)
    moreover have "sender_ok (max_tries s1) tx1 (pst s1 i) (att s1 i) (retx s1 i) (flow_timers s1 i)"
    proof (rule sender_ok_fields)
      show so: "sender_ok (max_tries s1) tx (pst s1 i) (att s1 i) (retx s1 i) (flow_timers s1 i)"
        using flow_invD(1)[OF F0] tim0 unfolding sender_at_def M1 PF(3,4,6) R P(5,6,8) tx_def P(3) by simp
      show "tx_retx_head tx1 < tx_window tx" using sender_okD(2)[OF so] by (simp add: tx1_def)
    qed (simp_all add: tx1_def)
    ultimately have "sender_at s1 i" by (simp add: sender_at_def PF(2,7)) (simp add: tx1_def)
    moreover have "clock_ok s1 i"
      using flow_invD(3)[OF F0] nw0 nw1 P(15) start now1 inj0 unfolding clock_ok_def Let_def
      by (auto simp: PF(2,7) tx1_def tx_def P(3) res1 setupD(4)[OF PF(8)] P(10) s1_def[THEN arg_cong[where f = sim_now]])
    moreover have "receiver_ok (sim_results s1 ! i) (sim_specs s1 ! i) (pst s1 i)"
      using flow_invD(2)[OF F0] by (simp add: res1 PF(3) P(5) setupD(4)[OF PF(8)] P(10))
    ultimately show ?thesis by (simp add: flow_inv_def)
  qed
  have inv1: "run_inv {i} (\<lambda>_. 0) s1"
    by (rule change_inv[OF inv pop ch i _ _ fi]) (use ty un in \<open>simp_all add: i_def f_def\<close>)
  have "sends_left (max_tries s) tx1 (att s i) (retx s i) = sends_left (max_tries s) tx (att s i) (retx s i)"
    by (simp add: sends_left_def attempts_left_def tx1_def)
  then have "flow_weight s1 i + 1 + of_bool (ev_time e < tx_next_send_ns tx) = flow_weight s0 i"
    using fixed_weights(3)[OF PF(8)] fixed_weights(3)[OF P(1)] unfolding flow_weight_def M1 PF(2,4,7) R inj0
    by (simp add: M P(6,8) tx_def P(3)) (simp add: tx1_def tx_def P(3))
  moreover have "net_weight s = net_weight s0"
    using popped_events[OF pop] ty fixed_weights(4)[OF P(1)] by (simp add: net_weight_def)
  ultimately have "potential s1 + (1 + of_bool (ev_time e < tx_next_send_ns tx)) \<le> potential s0 + 0"
    using PF(9) by (intro change_potential[OF inv pop ch i]) (use ty in \<open>simp_all add: i_def f_def\<close>)
  then have pot: "potential s1 + 1 + of_bool (sim_now s1 < tx_next_send_ns (sim_tx s1 ! i)) \<le> potential s0"
    using now1 PF(2) by (simp add: tx1_def)
  have "ready_to_send i s0 s s1"
    using inv1 nw1 start quiet_frame[OF PF(1)] ch pot i n fixed_nflows[OF PF(8)] by (simp add: ready_to_send_def)
  then show ?thesis unfolding run using sender_op_send[of f] by (simp add: i_def f_def)
qed

section \<open>Timeout\<close>

lemma view_congs:
  assumes "fixed s' = fixed s"
  shows "sim_pkt_state s' = sim_pkt_state s \<Longrightarrow> pst s' = pst s"
    "sim_pkt_attempt s' = sim_pkt_attempt s \<Longrightarrow> att s' = att s"
    "sim_retx_ring s' = sim_retx_ring s \<Longrightarrow> retx_buf s' = retx_buf s"
  using setupD[OF assms] by (simp_all add: pst_def att_def retx_buf_def pkt_pos_def fun_eq_iff)

lemma window_bound:
  assumes "setup_ok s" "i < nflows s"
  shows "unat (wins s ! i) < 2 ^ 31" "0 < unat (wins s ! i)" "psum (wins s) i + unat (wins s ! i) \<le> length (sim_retx_ring s)"
proof -
  have "unat (wins s ! i) \<in> set (map unat (wins s))" using assms setup_okD(5) by auto
  then have "unat (wins s ! i) \<le> sum_list (map unat (wins s))" by (rule member_le_sum_list) simp
  then show "unat (wins s ! i) < 2 ^ 31" using setup_okD(14)[OF assms(1)] by simp
  show "0 < unat (wins s ! i)" using setup_okD(15)[OF assms] by (simp add: flow_shape_def word_less_nat_alt)
  have "psum (wins s) i + unat (wins s ! i) = sum_list (take (Suc i) (map unat (wins s)))"
    using assms setup_okD(5)[OF assms(1)] by (simp add: psum_def take_Suc_conv_app_nth)
  also have "\<dots> \<le> sum_list (map unat (wins s))"
    using sum_take_le[of "Suc i" "length (wins s)" "map unat (wins s)"] assms setup_okD(5)[OF assms(1)] by simp
  finally show "psum (wins s) i + unat (wins s ! i) \<le> length (sim_retx_ring s)"
    using setup_okD(12)[OF assms(1)] by simp
qed

text \<open>The slot behind the last waiting packet of the ring, computed without division.\<close>

lemma ring_tail:
  assumes "(h :: u32) < w" "c < w" "unat w < 2 ^ 31"
  shows "unat (if h + c \<ge> w then h + c - w else h + c) = (unat h + unat c) mod unat w"
    "(if h + c \<ge> w then h + c - w else h + c) < w"
proof -
  have l: "unat h < unat w" "unat c < unat w" using assms by (simp_all add: word_less_nat_alt)
  have s: "unat (h + c) = unat h + unat c" by (rule unat_add_small) (use l assms(3) in simp)
  show m: "unat (if h + c \<ge> w then h + c - w else h + c) = (unat h + unat c) mod unat w"
    using wrap_mod[of "unat h + unat c" "unat w"] l s
    by (cases "unat w \<le> unat h + unat c") (simp_all add: word_le_nat_alt unat_sub_small)
  show "(if h + c \<ge> w then h + c - w else h + c) < w"
    using m l by (simp add: word_less_nat_alt)
qed

lemma retx_push:
  assumes ok: "setup_ok s" and i: "i < nflows s" and tx: "tx = sim_tx s ! i"
    and h: "tx_retx_head tx < tx_window tx" and c: "tx_retx_count tx < tx_window tx"
    and tail: "tail = (let t0 = tx_retx_head tx + tx_retx_count tx in
        if t0 \<ge> tx_window tx then t0 - tx_window tx else t0)"
    and s1: "sim_retx_ring s1 = (sim_retx_ring s)[psum (wins s) i + unat tail := x]" "fixed s1 = fixed s"
      "sim_tx s1 = (sim_tx s)[i := tx1]"
    and tx1: "tx_window tx1 = tx_window tx" "tx_retx_head tx1 = tx_retx_head tx"
      "tx_retx_count tx1 = tx_retx_count tx + 1"
  shows "unat (of_nat (psum (wins s) i) + tail :: u32) = psum (wins s) i + unat tail"
    "psum (wins s) i + unat tail < length (sim_retx_ring s)"
    "retx s1 i = retx s i @ [x]" "j < nflows s \<Longrightarrow> j \<noteq> i \<Longrightarrow> retx s1 j = retx s j"
proof -
  have w: "tx_window tx = wins s ! i" using setup_okD(17)[OF ok i] tx by simp
  note b = window_bound[OF ok i]
  note t = ring_tail[OF h c, unfolded w, OF b(1), folded w]
  have tl: "unat tail = (unat (tx_retx_head tx) + unat (tx_retx_count tx)) mod unat (wins s ! i)" "tail < wins s ! i"
    using t w by (simp_all add: tail Let_def)
  note hs = retx_head_slot[OF ok i tl(2)]
  show "unat (of_nat (psum (wins s) i) + tail :: u32) = psum (wins s) i + unat tail" by (rule hs(1))
  show "psum (wins s) i + unat tail < length (sim_retx_ring s)" by (rule hs(2))
  have W: "wins s1 = wins s" using setupD(6)[OF s1(2)] .
  have L: "i < length (sim_tx s)" using setup_okD(4)[OF ok] i by simp
  have buf: "retx_buf s1 i = (retx_buf s i)[unat tail := x]"
    unfolding retx_buf_def W s1(1) by (simp add: drop_update_swap)
  have len: "unat (wins s ! i) \<le> length (retx_buf s i)" using b(3) by (simp add: retx_buf_def)
  have cnt: "unat (tx_retx_count tx + 1) = Suc (unat (tx_retx_count tx))" by (rule unat_inc[OF c])
  show "retx s1 i = retx s i @ [x]"
    using circ_push[of "unat (tx_retx_head tx)" "unat (wins s ! i)" "unat (tx_retx_count tx)" "retx_buf s i" x]
      h c w len tl(1) L
    unfolding retx_def retx_list_def buf by (simp add: s1(3) tx1 cnt tx[symmetric] word_less_nat_alt)
  assume j: "j < nflows s" "j \<noteq> i"
  note bj = window_bound[OF ok j(1)]
  have wj: "tx_window (sim_tx s ! j) = wins s ! j" using setup_okD(17)[OF ok j(1)] .
  show "retx s1 j = retx s j"
    unfolding retx_def retx_list_def s1(3) nth_list_update_neq[OF j(2)[symmetric]] wj
  proof (rule circ_cong)
    fix k assume k: "k < unat (wins s ! j)"
    have "psum (wins s) j + k \<noteq> psum (wins s) i + unat tail"
      using slice_inject[of j "map unat (wins s)" k i "unat tail"] k j i tl(2) setup_okD(5)[OF ok]
      by (auto simp: psum_def word_less_nat_alt)
    then show "retx_buf s1 j ! k = retx_buf s j ! k"
      using bj(3) k unfolding retx_buf_def W s1(1) by simp
  qed (rule bj(2))
qed

lemma stale_timer:
  assumes inv: "sim_inv s0" and pop: "popped e s0 s" and ty: "ev_type e = Timeout"
    and un: "\<And>kd. unaccounted kd s = 0" and i: "i = id_index (ev_flow e)"
    and stale: "bit (pst s i (ev_packet_index e)) 1 \<or> ev_attempt e \<noteq> att s i (ev_packet_index e)
      \<or> tx_failed (sim_tx s ! i)"
  shows "handled s0 s s"
proof -
  note I = run_invD[OF inv] and P = poppedD[OF pop]
  have n: "nflows s = nflows s0" and M: "max_tries s = max_tries s0"
    using popped_setup[OF inv pop] by auto
  have "(i, ev_packet_index e, ev_attempt e) \<in># timers (events s0)"
    using popped_events(2)[OF pop] ty by (simp add: i)
  then have in_n: "i < nflows s0" using I(7) by fastforce
  have F0: "flow_inv s0 i" using I(5)[OF in_n] .
  have inj: "flow_injects s i = flow_injects s0 i"
    and tim0: "flow_timers s0 i = add_mset (ev_packet_index e, ev_attempt e) (flow_timers s i)"
    using popped_flow_views[OF pop, of i] ty by (simp_all add: i)
  have w: "waiting s i = waiting s0 i" using P by (simp add: waiting_def)
  have "sender_at s i"
    using flow_invD(1)[OF F0] sender_ok_stale stale tim0
    unfolding sender_at_def inj M P(3,5,6,8) by metis
  moreover have "clock_ok s i"
    using flow_invD(3)[OF F0] w P(15) unfolding clock_ok_def Let_def inj P(3,4,10) by auto
  ultimately have fi: "flow_inv s i" using flow_invD(2)[OF F0] by (simp add: flow_inv_def P)
  have "run_inv {i} (\<lambda>_. 0) s"
    by (rule change_inv[OF inv pop flow_change_refl in_n _ _ fi]) (use ty un in \<open>simp_all add: i\<close>)
  moreover have "sender_idle s i \<or> waiting s i"
    using I(6)[OF in_n] w by (simp add: sender_idle_def inj P(3,8))
  ultimately have "sim_inv s" using run_inv_idle by blast
  moreover have "potential s + 1 \<le> potential s0 + 0"
  proof (rule change_potential[OF inv pop flow_change_refl in_n])
    show "flow_weight s i + net_weight s + 1 \<le> flow_weight s0 i + net_weight s0 + 0"
      using popped_events[OF pop] ty fixed_weights[OF P(1)]
      by (simp add: net_weight_def flow_weight_def inj P(3,6,8))
  qed (use i in simp)
  ultimately show ?thesis by (simp add: handled_def)
qed

end
