(* ===== verification/Sim_Timeout.thy ===== *)
theory Sim_Timeout
  imports Sim_Handlers
begin

text \<open>\<open>on_timeout\<close>: a live timer either fails the flow or queues a retransmission.\<close>

lemma attempts_exhausted:
  "((ucast (a :: u8) + 1 :: u32) \<ge> ucast (m :: u8)) = (unat m \<le> Suc (unat a))"
proof -
  have a: "unat (ucast a :: u32) = unat a" "unat (ucast m :: u32) = unat m"
    by (rule unat_ucast_up_eq; simp)+
  have "unat (ucast a + 1 :: u32) = Suc (unat a)"
  proof -
    have "unat (ucast a :: u32) + unat (1 :: u32) < 2 ^ LENGTH(32)" using unat_lt8[of a] a by simp
    then show ?thesis using unat_add_small[of "ucast a :: u32" 1] a by simp
  qed
  then show ?thesis using a by (simp add: word_le_nat_alt)
qed

lemma max_tries_small: "max_tries s < 256"
  using unat_lt8[of "tc_max_attempts (sim_transport s)"] by (simp add: max_tries_def)

lemma sends_left_timeout:
  assumes "x < tx_next_seq tx" "x \<notin> set R" "at' x = at x + 1" "unat (at x + 1) = Suc (unat (at x))"
    "\<forall>y. y \<noteq> x \<longrightarrow> at' y = at y" "tx_packets_total tx' = tx_packets_total tx" "tx_next_seq tx' = tx_next_seq tx"
  shows "sends_left M tx' at' (R @ [x]) = sends_left M tx at R"
  unfolding sends_left_def assms(6)
proof (rule sum.cong)
  fix idx
  show "attempts_left M tx' at' (R @ [x]) idx = attempts_left M tx at R idx"
    using assms by (cases "idx = x") (auto simp: attempts_left_def)
qed simp

text \<open>A timer of a packet that is neither acknowledged nor superseded, of a flow that has not failed.\<close>

definition live_timeout :: "sim \<Rightarrow> event \<Rightarrow> sim \<Rightarrow> nat \<Rightarrow> u32 \<Rightarrow> bool" where
  "live_timeout s0 e s i idx \<longleftrightarrow> sim_inv s0 \<and> popped e s0 s \<and> ev_type e = Timeout
     \<and> (\<forall>kd. unaccounted kd s = 0) \<and> i = id_index (ev_flow e) \<and> idx = ev_packet_index e
     \<and> \<not> bit (pst s i idx) 1 \<and> att s i idx = ev_attempt e \<and> \<not> tx_failed (sim_tx s ! i)"

lemma live_timeoutD:
  assumes "live_timeout s0 e s i idx"
  shows "sim_inv s0" "popped e s0 s" "ev_type e = Timeout" "unaccounted kd s = 0" "i = id_index (ev_flow e)"
    "idx = ev_packet_index e" "\<not> bit (pst s i idx) 1" "ev_attempt e = att s i idx" "\<not> tx_failed (sim_tx s ! i)"
  using assms unfolding live_timeout_def by (elim conjE; simp only:)+

lemma live_base:
  assumes "live_timeout s0 e s i idx"
  shows "i < nflows s" "nflows s = nflows s0" "setup_ok s" "max_tries s = max_tries s0" "net_inv s"
    "flow_inv s0 i" "net_weight s + 2 = net_weight s0" "flow_injects s i = flow_injects s0 i"
    "flow_timers s0 i = add_mset (idx, att s i idx) (flow_timers s i)"
proof -
  note L = live_timeoutD[OF assms]
  show "setup_ok s" "max_tries s = max_tries s0" and n: "nflows s = nflows s0"
    using popped_setup[OF L(1,2)] by auto
  have "(i, idx, att s i idx) \<in># timers (events s0)"
    using popped_events(2)[OF L(2)] L by simp
  then show i: "i < nflows s" using run_invD(7)[OF L(1)] n by fastforce
  show "net_inv s" using popped_net[OF L(2) run_invD(4)[OF L(1)]] L(3) by simp
  show "flow_inv s0 i" using run_invD(5)[OF L(1)] i n by simp
  show "net_weight s + 2 = net_weight s0"
    using popped_events[OF L(2)] L(3) fixed_weights[OF poppedD(1)[OF L(2)]] by (simp add: net_weight_def)
  show "flow_injects s i = flow_injects s0 i"
    "flow_timers s0 i = add_mset (idx, att s i idx) (flow_timers s i)"
    using popped_flow_views[OF L(2), of i] L by simp_all
qed

lemma live_sender:
  assumes "live_timeout s0 e s i idx"
  shows "sender_ok (max_tries s) (sim_tx s ! i) (pst s i) (att s i) (retx s i)
      (add_mset (idx, att s i idx) (flow_timers s i))"
    "idx < tx_next_seq (sim_tx s ! i)" "bit (pst s i idx) 2" "idx \<notin> set (retx s i)"
    "(idx, att s i idx) \<notin># flow_timers s i" "idx < tots s ! i"
proof -
  note L = live_timeoutD[OF assms] and B = live_base[OF assms]
  show S: "sender_ok (max_tries s) (sim_tx s ! i) (pst s i) (att s i) (retx s i)
      (add_mset (idx, att s i idx) (flow_timers s i))"
    using flow_invD(1)[OF B(6)] B(4,9) poppedD[OF L(2)] by (simp add: sender_at_def)
  show t: "idx < tx_next_seq (sim_tx s ! i)" "bit (pst s i idx) 2" "idx \<notin> set (retx s i)"
    "(idx, att s i idx) \<notin># flow_timers s i"
    using sender_ok_live_timer[OF S L(7,9)] by simp_all
  show "idx < tots s ! i" using t(1) sender_okD(1)[OF S] setup_okD(18)[OF B(3,1)] by simp
qed

lemma live_started:
  assumes "live_timeout s0 e s i idx"
  shows "\<not> waiting s0 i" "\<not> waiting s i" "res_start_ns (sim_results s ! i) \<le> sim_now s"
proof -
  note L = live_timeoutD[OF assms] and P = poppedD[OF live_timeoutD(2)[OF assms]]
  have c: "clock_ok s0 i" using flow_invD(3)[OF live_base(6)[OF assms]] .
  have ne: "tx_next_seq (sim_tx s0 ! i) \<noteq> 0" using live_sender(2)[OF assms] P(3) by auto
  show w: "\<not> waiting s0 i" using c ne by (auto simp: clock_ok_def Let_def)
  then show "\<not> waiting s i" using P by (simp add: waiting_def)
  have "res_start_ns (sim_results s0 ! i) \<le> sim_now s0" using c ne by (simp add: clock_ok_def Let_def)
  then show "res_start_ns (sim_results s ! i) \<le> sim_now s" using P(4,15) by (metis order_trans)
qed

lemma live_lengths:
  assumes "live_timeout s0 e s i idx"
  shows "i < length (sim_tx s)" "i < length (sim_results s)" "pkt_pos s i idx < length (sim_pkt_state s)"
    "pkt_pos s i idx < length (sim_pkt_attempt s)"
  using live_base(1,3)[OF assms] live_sender(6)[OF assms] pkt_pos_less[of s i idx]
    setup_okD(4,7,10,11)[OF live_base(3)[OF assms]] by simp_all

text \<open>The clock and the receiver of the flow do not notice either outcome.\<close>

lemma live_flow_inv:
  assumes lt: "live_timeout s0 e s i idx"
    and sat: "sender_at s1 i" and fx: "fixed s1 = fixed s" "sim_now s1 = sim_now s" "flow_injects s1 = flow_injects s"
    and pst: "pst s1 i = (pst s i)(idx := pst s i idx AND NOT kInFlight)"
    and seq: "tx_next_seq (sim_tx s1 ! i) = tx_next_seq (sim_tx s ! i)"
    and rs: "\<And>j. j < nflows s \<Longrightarrow> j \<noteq> i \<Longrightarrow> sim_results s1 ! j = sim_results s ! j"
      "sim_results s1 ! i = (sim_results s ! i)\<lparr>res_failed := tx_failed (sim_tx s1 ! i)\<rparr>"
  shows "flow_inv s1 i"
proof -
  note L = live_timeoutD[OF lt] and B = live_base[OF lt] and P = poppedD[OF live_timeoutD(2)[OF lt]]
  have d: "id_valid (fs_depends_on (sim_specs s ! i)) \<longrightarrow> id_index (fs_depends_on (sim_specs s ! i)) < i"
    using setup_okD(15)[OF B(3,1)] by (auto simp: flow_shape_def)
  have w: "\<not> waiting s1 i"
    using live_started(2)[OF lt] d rs(1) B(1) setupD(4)[OF fx(1)] by (auto simp: waiting_def)
  have "clock_ok s1 i"
    using flow_invD(3)[OF B(6)] live_started[OF lt] w d rs(1) B(1) P(15) B(8)
    unfolding clock_ok_def Let_def fx(3) seq rs(2) by (auto simp: setupD(4)[OF fx(1)] fx(2) P)
  moreover have "receiver_ok (sim_results s1 ! i) (sim_specs s1 ! i) (pst s1 i)"
  proof -
    have "receiver_ok (sim_results s ! i) (sim_specs s ! i) (pst s i)"
      using flow_invD(2)[OF B(6)] by (simp add: P)
    moreover have "receiver_ok (sim_results s1 ! i) spec (pst s1 i) = receiver_ok (sim_results s ! i) spec (pst s1 i)"
      for spec by (simp add: rs(2) receiver_ok_def)
    moreover have "receiver_ok (sim_results s ! i) spec (pst s1 i) = receiver_ok (sim_results s ! i) spec (pst s i)"
      for spec by (rule receiver_ok_cong) (auto simp: pst)
    ultimately show ?thesis by (simp add: setupD(4)[OF fx(1)])
  qed
  ultimately show ?thesis using sat by (simp add: flow_inv_def)
qed

text \<open>Out of attempts: the flow fails.\<close>

lemma live_fail:
  assumes lt: "live_timeout s0 e s i idx"
    and s1: "s1 = s\<lparr>sim_pkt_state := (sim_pkt_state s)[pkt_pos s i idx := pst s i idx AND NOT kInFlight],
      sim_tx := (sim_tx s)[i := (sim_tx s ! i)\<lparr>tx_in_flight := tx_in_flight (sim_tx s ! i) - 1, tx_failed := True\<rparr>],
      sim_results := (sim_results s)[i := (sim_results s ! i)\<lparr>res_failed := True\<rparr>]\<rparr>"
  shows "handled s0 s s1 \<and> flow_change i s s1"
proof -
  note L = live_timeoutD[OF lt] and B = live_base[OF lt] and S = live_sender[OF lt] and N = live_lengths[OF lt]
  note P = poppedD[OF L(2)]
  define tx where "tx = sim_tx s ! i"
  define tx1 where "tx1 = tx\<lparr>tx_in_flight := tx_in_flight tx - 1, tx_failed := True\<rparr>"
  define v where "v = pst s i idx AND NOT kInFlight"
  have tx1: "sim_tx s1 = (sim_tx s)[i := tx1]" by (simp add: s1 tx1_def tx_def)
  have fx: "fixed s1 = fixed s"
    using N by (simp add: fixed_def s1 wins_def tots_def map_update_same)
  let ?p = "s\<lparr>sim_pkt_state := (sim_pkt_state s)[pkt_pos s i idx := v]\<rparr>"
  have "pst s1 = pst ?p" by (rule view_congs(1)) (use fx in \<open>simp_all add: s1 v_def\<close>)
  then have pst1: "pst s1 j = (if j = i then (pst s i)(idx := v) else pst s j)" if "j < nflows s" for j
    using pst_update[OF B(3,1) S(6) that, of v] by simp
  have att1: "att s1 = att s" and buf1: "retx_buf s1 = retx_buf s"
    using view_congs(2,3)[OF fx] by (simp_all add: s1)
  have R: "retx s1 j = retx s j" for j
    by (rule retx_same[OF buf1 tx1 N(1)]) (simp_all add: tx1_def tx_def)
  have V: "flow_timers s1 = flow_timers s" "flow_injects s1 = flow_injects s"
    using flow_timers_cong[of s1 s] by (simp_all add: s1)
  have per: "periods s1 = periods s" using N by (simp add: periods_def s1 map_update_same)
  have ch: "flow_change i s s1"
    unfolding flow_change_def using fx per pst1 att1 R N B(1) by (auto simp: s1 v_def)
  have s1i: "sim_tx s1 ! i = tx1" using tx1 N by simp
  have "sender_ok (max_tries s) tx1 ((pst s i)(idx := v)) (att s i) (retx s i) (flow_timers s i)"
    unfolding tx1_def by (rule sender_ok_fail[OF S(1)[folded tx_def] S(2)[folded tx_def]]) (use S(3) in \<open>simp_all add: v_def\<close>)
  moreover have "size (flow_injects s i) \<le> 1 + of_bool (tx_send_scheduled tx)
      \<and> (tx_send_scheduled tx \<longrightarrow> flow_injects s i \<noteq> {#})"
    using flow_invD(1)[OF B(6)] by (simp add: sender_at_def B(8) tx_def P)
  ultimately have sat: "sender_at s1 i"
    using pst1[OF B(1)] att1 fixed_weights(1)[OF fx] by (simp add: sender_at_def s1i R V tx1_def)
  have fi: "flow_inv s1 i"
    by (rule live_flow_inv[OF lt sat fx _ V(2)]) (use pst1[OF B(1)] N s1i in \<open>simp_all add: v_def s1 tx1_def tx_def\<close>)
  have "run_inv {i} (\<lambda>_. 0) s1"
    by (rule change_inv[OF L(1,2) ch _ _ _ fi]) (use L B(1,2) in simp_all)
  then have "sim_inv s1" by (rule run_inv_idle) (simp add: sender_idle_def s1i tx1_def)
  moreover have "quiet s s1"
  proof -
    have "run_timed s1 H" if "run_timed s H" for H
    proof -
      have "unat (tx_next_send_ns tx1) \<le> H" using that N by (simp add: run_timed_def tx1_def tx_def)
      then show ?thesis
        using that set_update_subset_insert[of "sim_tx s" i tx1] unfolding run_timed_def tx1
        by (auto simp: timed_def s1)
    qed
    then show ?thesis using fx per by (simp add: quiet_def keeps_time_def) (simp add: s1)
  qed
  moreover have "potential s1 + 1 \<le> potential s0 + 0"
  proof (rule change_potential[OF L(1,2) ch])
    have "sends_left M tx1 (att s i) (retx s i) = sends_left M tx (att s i) (retx s i)" for M
      by (simp add: sends_left_def attempts_left_def tx1_def)
    then have "flow_weight s1 i = flow_weight s0 i"
      using fixed_weights[OF fx] fixed_weights[OF P(1)]
      unfolding flow_weight_def s1i att1 R V B(8) by (simp add: tx1_def tx_def P)
    moreover have "net_weight s1 = net_weight s"
      using fixed_weights(4)[OF fx] by (simp add: net_weight_def s1 carried_def)
    ultimately show "flow_weight s1 i + net_weight s1 + 1 \<le> flow_weight s0 i + net_weight s0 + 0"
      using B(7) by simp
  qed (use L B in simp_all)
  ultimately show ?thesis using ch by (simp add: handled_def)
qed

text \<open>Another attempt: the packet joins the retransmission ring.\<close>

lemma live_retry:
  assumes lt: "live_timeout s0 e s i idx" and M: "Suc (unat (att s i idx)) < max_tries s"
    and tail: "tail = (let t0 = tx_retx_head tx + tx_retx_count tx in
        if t0 \<ge> tx_window tx then t0 - tx_window tx else t0)"
    and tx: "tx = sim_tx s ! i"
    and s1: "s1 = s\<lparr>sim_pkt_state := (sim_pkt_state s)[pkt_pos s i idx := pst s i idx AND NOT kInFlight],
      sim_pkt_attempt := (sim_pkt_attempt s)[pkt_pos s i idx := att s i idx + 1],
      sim_retx_ring := (sim_retx_ring s)[psum (wins s) i + unat tail := idx],
      sim_tx := (sim_tx s)[i := tx\<lparr>tx_in_flight := tx_in_flight tx - 1, tx_retx_count := tx_retx_count tx + 1\<rparr>]\<rparr>"
  shows "unat (of_nat (psum (wins s) i) + tail :: u32) = psum (wins s) i + unat tail"
    "psum (wins s) i + unat tail < length (sim_retx_ring s)"
    "ready_to_send i s0 s s1"
proof -
  note L = live_timeoutD[OF lt] and B = live_base[OF lt] and S = live_sender[OF lt] and N = live_lengths[OF lt]
  note P = poppedD[OF L(2)]
  define tx1 where "tx1 = tx\<lparr>tx_in_flight := tx_in_flight tx - 1, tx_retx_count := tx_retx_count tx + 1\<rparr>"
  define v where "v = pst s i idx AND NOT kInFlight"
  note so = S(1)[folded tx]
  have inc: "unat (att s i idx + 1) = Suc (unat (att s i idx))"
  proof -
    have "unat (att s i idx) + unat (1 :: u8) < 2 ^ LENGTH(8)" using M max_tries_small[of s] by simp
    then show ?thesis using unat_add_small[of "att s i idx" 1] by simp
  qed
  have tx1: "sim_tx s1 = (sim_tx s)[i := tx1]" by (simp add: s1 tx1_def)
  have fx: "fixed s1 = fixed s"
    using N by (simp add: fixed_def s1 wins_def tots_def map_update_same tx)
  have h: "tx_retx_head tx < tx_window tx" using sender_okD(2)[OF so] .
  have c: "tx_retx_count tx < tx_window tx"
  proof -
    have "0 < unat (tx_in_flight tx)" using in_flight_dec(2)[OF so S(3)] .
    then have "length (retx s i) < unat (tx_window tx)" using sender_okD(4)[OF so] by linarith
    then show ?thesis by (simp add: retx_def tx word_less_nat_alt)
  qed
  note push = retx_push[OF B(3,1) tx h c tail, of s1 idx tx1, OF _ fx tx1]
  have ring1: "sim_retx_ring s1 = (sim_retx_ring s)[psum (wins s) i + unat tail := idx]" by (simp add: s1)
  have t3: "tx_window tx1 = tx_window tx" "tx_retx_head tx1 = tx_retx_head tx"
    "tx_retx_count tx1 = tx_retx_count tx + 1" by (simp_all add: tx1_def)
  note push = push[OF ring1 t3]
  show "unat (of_nat (psum (wins s) i) + tail :: u32) = psum (wins s) i + unat tail"
    "psum (wins s) i + unat tail < length (sim_retx_ring s)" by (rule push(1), rule push(2))
  let ?p = "s\<lparr>sim_pkt_state := (sim_pkt_state s)[pkt_pos s i idx := v]\<rparr>"
  let ?a = "s\<lparr>sim_pkt_attempt := (sim_pkt_attempt s)[pkt_pos s i idx := att s i idx + 1]\<rparr>"
  have "pst s1 = pst ?p" by (rule view_congs(1)) (use fx in \<open>simp_all add: s1 v_def\<close>)
  then have pst1: "pst s1 j = (if j = i then (pst s i)(idx := v) else pst s j)" if "j < nflows s" for j
    using pst_update[OF B(3,1) S(6) that, of v] by simp
  have "att s1 = att ?a" by (rule view_congs(2)) (use fx in \<open>simp_all add: s1\<close>)
  then have att1: "att s1 j = (if j = i then (att s i)(idx := att s i idx + 1) else att s j)" if "j < nflows s" for j
    using att_update[OF B(3,1) S(6) that, of "att s i idx + 1"] by simp
  have V: "flow_timers s1 = flow_timers s" "flow_injects s1 = flow_injects s"
    using flow_timers_cong[of s1 s] by (simp_all add: s1)
  have per: "periods s1 = periods s" using N by (simp add: periods_def s1 map_update_same tx)
  have ch: "flow_change i s s1"
    unfolding flow_change_def using fx per pst1 att1 push(4) N B(1) by (auto simp: s1 v_def tx)
  have s1i: "sim_tx s1 ! i = tx1" using tx1 N by simp
  have "sender_ok (max_tries s) tx1 ((pst s i)(idx := v)) ((att s i)(idx := att s i idx + 1)) (retx s i @ [idx])
      (flow_timers s i)"
    unfolding tx1_def
    by (rule sender_ok_timeout[OF so _ _ _ _ M max_tries_small]) (use L in \<open>simp_all add: v_def tx\<close>)
  moreover have "size (flow_injects s i) \<le> 1 + of_bool (tx_send_scheduled tx)
      \<and> (tx_send_scheduled tx \<longrightarrow> flow_injects s i \<noteq> {#})"
    using flow_invD(1)[OF B(6)] by (simp add: sender_at_def B(8) tx P)
  ultimately have sat: "sender_at s1 i"
    using pst1[OF B(1)] att1[OF B(1)] push(3) fixed_weights(1)[OF fx] by (simp add: sender_at_def s1i V tx1_def)
  have fi: "flow_inv s1 i"
    by (rule live_flow_inv[OF lt sat fx _ V(2)])
       (use pst1[OF B(1)] N s1i L(9) flow_invD(3)[OF B(6)] in \<open>simp_all add: v_def s1 tx1_def tx clock_ok_def Let_def P\<close>)
  have inv1: "run_inv {i} (\<lambda>_. 0) s1"
    by (rule change_inv[OF L(1,2) ch _ _ _ fi]) (use L B(1,2) in simp_all)
  have q: "quiet s s1"
  proof -
    have "run_timed s1 H" if "run_timed s H" for H
    proof -
      have "unat (tx_next_send_ns tx1) \<le> H" using that N by (simp add: run_timed_def tx1_def tx)
      then show ?thesis
        using that set_update_subset_insert[of "sim_tx s" i tx1] unfolding run_timed_def tx1
        by (auto simp: timed_def s1)
    qed
    then show ?thesis using fx per by (simp add: quiet_def keeps_time_def) (simp add: s1)
  qed
  have "potential s1 + 2 \<le> potential s0 + 0"
  proof (rule change_potential[OF L(1,2) ch])
    have "sends_left K tx1 ((att s i)(idx := att s i idx + 1)) (retx s i @ [idx]) = sends_left K tx (att s i) (retx s i)" for K
      by (rule sends_left_timeout[OF S(2)[folded tx] S(4)]) (use inc in \<open>simp_all add: tx1_def\<close>)
    then have "flow_weight s1 i = flow_weight s0 i"
      using fixed_weights[OF fx] fixed_weights[OF P(1)]
      unfolding flow_weight_def s1i att1[OF B(1)] push(3) V B(8) by (simp add: tx P) (simp add: tx1_def tx P)
    moreover have "net_weight s1 = net_weight s"
      using fixed_weights(4)[OF fx] by (simp add: net_weight_def s1 carried_def)
    ultimately show "flow_weight s1 i + net_weight s1 + 2 \<le> flow_weight s0 i + net_weight s0 + 0"
      using B(7) by simp
  qed (use L B in simp_all)
  then have pot: "potential s1 + 1 + of_bool (sim_now s1 < tx_next_send_ns (sim_tx s1 ! i)) \<le> potential s0" by simp
  show "ready_to_send i s0 s s1"
    unfolding ready_to_send_def
  proof (intro conjI)
    show "i < nflows s1" using fixed_nflows[OF fx] B(1) by simp
    show "\<not> waiting s1 i" using flow_changeD(10)[OF ch B(3,1)] live_started(2)[OF lt] by simp
    show "res_start_ns (sim_results s1 ! i) \<le> sim_now s1" using live_started(3)[OF lt] by (simp add: s1)
  qed (rule inv1 q ch pot)+
qed

lemma on_timeout_op:
  assumes inv: "sim_inv s0" and pop: "popped e s0 s" and ty: "ev_type e = Timeout"
    and un: "\<And>kd. unaccounted kd s = 0"
  shows "sender_op (ev_flow e) s0 s (on_timeout e s)"
proof -
  note I = run_invD[OF inv] and P = poppedD[OF pop]
  define f where "f = ev_flow e"
  define i where "i = id_index f"
  define idx where "idx = ev_packet_index e"
  have ok: "setup_ok s" and n: "nflows s = nflows s0" and M: "max_tries s = max_tries s0"
    using popped_setup[OF inv pop] by auto
  have tm: "(i, idx, ev_attempt e) \<in># timers (events s0)"
    using popped_events(2)[OF pop] ty by (simp add: i_def f_def idx_def)
  then have i: "i < nflows s" using I(7) n by fastforce
  have "(idx, ev_attempt e) \<in># flow_timers s0 i" using tm by (force simp: flow_timers_def)
  moreover have "sender_ok (max_tries s0) (sim_tx s0 ! i) (pst s0 i) (att s0 i) (retx s0 i) (flow_timers s0 i)"
    using flow_invD(1)[OF I(5)] i n by (simp add: sender_at_def)
  ultimately have "idx < tx_next_seq (sim_tx s ! i)" "tx_next_seq (sim_tx s ! i) \<le> tx_packets_total (sim_tx s ! i)"
    using sender_okD(1,6) P(3) by (metis not_le)+
  then have ix: "idx < tots s ! i" using setup_okD(18)[OF ok i] by simp
  define k where "k = pkt_pos s i idx"
  have slot: "pkt_slot f idx s = Some k" using pkt_slot_Some[OF ok] i ix by (simp add: k_def i_def)
  note rd = read_pkt[OF ok i ix, folded k_def]
  have gt: "get_tx f s = Some (sim_tx s ! i)" using get_tx_Some[OF ok] i by (simp add: i_def)
  have unf: "on_timeout e s = (if bit (pst s i idx) 1 \<or> att s i idx \<noteq> ev_attempt e \<or> tx_failed (sim_tx s ! i)
      then Some s else on_timeout e s)"
    using slot rd gt unfolding on_timeout_def Let_def f_def[symmetric] idx_def[symmetric] by auto
  show ?thesis
  proof (cases "bit (pst s i idx) 1 \<or> att s i idx \<noteq> ev_attempt e \<or> tx_failed (sim_tx s ! i)")
    case True
    have "handled s0 s s"
      by (rule stale_timer[OF inv pop ty un, of i]) (use True in \<open>auto simp: i_def f_def idx_def\<close>)
    then show ?thesis using unf True sender_op_return[of "ev_flow e" s s s0] by (simp split: if_splits)
  next
    case False
    then have lt: "live_timeout s0 e s i idx"
      using inv pop ty un by (auto simp: live_timeout_def i_def f_def idx_def)
    note N = live_lengths[OF lt, folded k_def] and S = live_sender[OF lt]
    define tx where "tx = sim_tx s ! i"
    have L: "i < length (sim_retx_offset s)" using setup_okD(9)[OF ok] i by simp
    have rb: "vget (sim_retx_offset s) i = Some (of_nat (psum (wins s) i))"
      using ok i by (simp add: setup_ok_def vget_def)
    have idf: "id_index f = i" by (simp add: i_def)
    show ?thesis
    proof (cases "max_tries s \<le> Suc (unat (att s i idx))")
      case True
      have "on_timeout e s = Some (s\<lparr>sim_pkt_state := (sim_pkt_state s)[pkt_pos s i idx := pst s i idx AND NOT kInFlight],
        sim_tx := (sim_tx s)[i := (sim_tx s ! i)\<lparr>tx_in_flight := tx_in_flight (sim_tx s ! i) - 1, tx_failed := True\<rparr>],
        sim_results := (sim_results s)[i := (sim_results s ! i)\<lparr>res_failed := True\<rparr>]\<rparr>)"
        using slot rd gt False True S(3) N unfolding on_timeout_def Let_def f_def[symmetric] idx_def[symmetric]
        by (simp add: attempts_exhausted max_tries_def put_pkt_state_def put_tx_def get_result_def put_result_def
            fabric_simps idf k_def)
      then show ?thesis using live_fail[OF lt refl] by (simp add: sender_op_return i_def f_def)
    next
      case F2: False
      define tail where "tail = (let t0 = tx_retx_head tx + tx_retx_count tx in
        if t0 \<ge> tx_window tx then t0 - tx_window tx else t0)"
      have M2: "Suc (unat (att s i idx)) < max_tries s" using F2 by simp
      note R = live_retry[OF lt M2 tail_def tx_def refl]
      have "on_timeout e s = try_send f (s\<lparr>sim_pkt_state := (sim_pkt_state s)[pkt_pos s i idx := pst s i idx AND NOT kInFlight],
        sim_pkt_attempt := (sim_pkt_attempt s)[pkt_pos s i idx := att s i idx + 1],
        sim_retx_ring := (sim_retx_ring s)[psum (wins s) i + unat tail := idx],
        sim_tx := (sim_tx s)[i := tx\<lparr>tx_in_flight := tx_in_flight tx - 1, tx_retx_count := tx_retx_count tx + 1\<rparr>]\<rparr>)"
        using slot rd gt False F2 S(3) N rb R(1,2) unfolding on_timeout_def Let_def f_def[symmetric] idx_def[symmetric]
        by (simp add: attempts_exhausted max_tries_def put_pkt_state_def put_tx_def
            fabric_simps idf k_def tx_def[symmetric] tail_def[unfolded Let_def, symmetric] split del: if_split
            cong: if_cong)
      then show ?thesis using sender_op_send[of f] R(3) by (simp add: f_def i_def)
    qed
  qed
qed

end
