(* ===== verification/Sim_Receive.thy ===== *)
theory Sim_Receive
  imports Sim_Timeout
begin

text \<open>
  The handlers of packets: the end of a transmission, the arrival at a switch, of an ack
  at the source and of data at the destination, where the flow may complete and release
  the flows that wait for it.
\<close>

section \<open>Events that touch no sender\<close>

lemma popped_core:
  assumes inv: "sim_inv s0" and pop: "popped e s0 s" and ty: "ev_type e \<notin> {Inject, Timeout}"
    and B: "\<And>kd. unaccounted kd s = B kd"
  shows "run_core {} B s"
proof -
  note I = run_invD[OF inv] and P = poppedD[OF pop] and V = popped_events[OF pop]
  have n: "nflows s = nflows s0" using P(10) by simp
  have pf: "flow_inv s j" "sender_idle s j = sender_idle s0 j" "waiting s j = waiting s0 j" if "j < nflows s0" for j
    using popped_flow[OF pop I(5)[OF that]] ty by auto
  show ?thesis
    unfolding run_core_def
  proof (intro conjI allI impI ballI)
    show "setup_ok s" "0 < max_tries s" using popped_setup[OF inv pop] I(2) by auto
    show "dependents_ok s" using I(3) dependents_ok_cong[of s s0] P by simp
    show "flow_inv s j" if "j < nflows s" for j using pf(1) that n by simp
    show "sender_idle s j \<or> waiting s j" if "j < nflows s" for j using pf(2,3) I(6) that n by simp
    show "fst t < nflows s" if "t \<in># timers (events s)" for t using I(7)[of t] V(2) ty that n by simp
    show "fst t < nflows s" if "t \<in># injects (events s)" for t using I(8)[of t] V(3) ty that n by simp
    show "packet_ok s x" if "x \<in># carried s" for x
    proof (rule packet_ok_mono[OF _ P(1)])
      show "packet_ok s0 x" using I(9)[of x] V(5) that by simp
    qed (use P in auto)
  qed (rule B)
qed

lemma popped_potential:
  assumes inv: "sim_inv s0" and pop: "popped e s0 s" and ty: "ev_type e \<notin> {Inject, Timeout}"
  shows "potential s0 = potential s + (if ev_type e = Arrive
      then packet_weight s (OnWire (id_index (ev_port e)), ev_packet e) else 0)"
proof -
  note P = poppedD[OF pop] and V = popped_events[OF pop]
  note W = fixed_weights[OF P(1)]
  have "flow_weight s j = flow_weight s0 j" for j
    using popped_flow_views[OF pop, of j] ty unfolding flow_weight_def W P(3,6,8) by auto
  moreover have "waiting s j = waiting s0 j" for j using P by (simp add: waiting_def)
  ultimately show ?thesis
    using V(2,5) ty W(4) P(10) by (simp add: potential_def)
qed

lemma on_tx_complete_step:
  assumes inv: "sim_inv s0" and pop: "popped e s0 s" and ty: "ev_type e = TxComplete"
    and un: "\<And>kd. unaccounted kd s = 0"
  shows "\<exists>s'. on_tx_complete e s = Some s' \<and> handled s0 s s'"
proof -
  note I = run_invD[OF inv] and P = poppedD[OF pop] and V = popped_events[OF pop]
  let ?i = "id_index (ev_port e)"
  have net0: "ports_ok (sim_fabric s) (add_mset ?i (tx_pending (events s)))" "rates_ok (sim_fabric s)"
    using I(4) V(4) ty P(9) by (simp_all add: net_inv_def)
  then have i: "?i < port_count (sim_fabric s)" by (auto simp: ports_ok_def)
  obtain s' k where s': "on_tx_complete e s = Some s'" "net_inv s'" "net_frame s s'"
    "add_mset (AtPort ?i, k) (carried s') = add_mset (OnWire ?i, k) (carried s)"
    "(AtPort ?i, k) \<in># carried s" "\<And>kd. unaccounted kd s' = unaccounted kd s"
    "\<And>D H. delays_ok (sim_fabric s) D \<Longrightarrow> unat (sim_now s) + D \<le> H \<Longrightarrow> H < 2 ^ 64 \<Longrightarrow>
       timed s H \<Longrightarrow> timed s' H"
    using on_tx_complete_effect[OF P(16) net0(2) i net0(1)] by metis
  have core: "run_core {} (\<lambda>_. 0) s" using popped_core[OF inv pop] ty un by simp
  note C = run_coreD[OF core]
  have at: "packet_ok s (AtPort ?i, k)" using C(8)[OF s'(5)] .
  then have wire: "packet_ok s (OnWire ?i, k)" by (simp add: packet_ok_def)
  have mem: "x = (OnWire ?i, k) \<or> x \<in># carried s" if "x \<in># carried s'" for x
  proof -
    have "x \<in># add_mset (AtPort ?i, k) (carried s')" using that by simp
    then show ?thesis unfolding s'(4) by auto
  qed
  have "sim_inv s'"
  proof (rule net_frame_inv[OF core s'(3,2)])
    show "packet_ok s x" if "x \<in># carried s'" for x using mem[OF that] wire C(8)[of x] by blast
  qed (simp add: s'(6) un)
  moreover have "quiet s s'" by (rule quiet_net[OF s'(3,7)])
  moreover have "potential s' + 1 \<le> potential s + 0"
  proof (rule potential_net[OF C(1) s'(3)])
    have "on_route (frozen s) (dest_host s k) ?i" using at by (simp add: packet_ok_def Let_def)
    from hop_left_bound(2,3)[OF setup_okD(1)[OF C(1)] this]
    have w: "packet_weight s (AtPort ?i, k) = Suc (packet_weight s (OnWire ?i, k))"
      by (simp add: packet_weight_def)
    have "packet_weight s (AtPort ?i, k) + (\<Sum>x\<in>#carried s'. packet_weight s x)
        = packet_weight s (OnWire ?i, k) + (\<Sum>x\<in>#carried s. packet_weight s x)"
      using arg_cong[OF s'(4), of "\<lambda>M. \<Sum>x\<in>#M. packet_weight s x"] by simp
    then show "net_weight s' + 1 \<le> net_weight s + 0"
      using w net_frameD(16)[OF s'(3)] fixed_weights(4)[OF setup_frame[OF s'(3)]] by (simp add: net_weight_def)
  qed
  moreover have "potential s0 = potential s" using popped_potential[OF inv pop] ty by simp
  ultimately show ?thesis using s'(1) by (auto simp: handled_def)
qed

section \<open>Arrivals\<close>

text \<open>What is known of the packet of an \<open>Arrive\<close> event once it has been popped.\<close>

lemma arrived:
  assumes inv: "sim_inv s0" and pop: "popped e s0 s" and ty: "ev_type e = Arrive"
  shows "packet_ok s (OnWire (id_index (ev_port e)), ev_packet e)"
    "id_index (ev_port e) < port_count (sim_fabric s)"
    "fabric_port (sim_fabric s) (ev_port e) = Some (fab_ports (sim_fabric s) ! id_index (ev_port e))"
    "port_peer_node (fab_ports (sim_fabric s) ! id_index (ev_port e))
      = port_peer_node (fab_ports (frozen s) ! id_index (ev_port e))"
    "fabric_node (sim_fabric s) (port_peer_node (fab_ports (sim_fabric s) ! id_index (ev_port e)))
      = Some (fab_nodes (frozen s) ! peer_index (frozen s) (id_index (ev_port e)))"
    "net_inv s"
proof -
  note I = run_invD[OF inv] and P = poppedD[OF pop] and V = popped_events[OF pop]
  let ?p = "id_index (ev_port e)"
  have ok: "setup_ok s" using popped_setup[OF inv pop] by simp
  have "packet_ok s0 (OnWire ?p, ev_packet e)" using I(9) V(5) ty by simp
  then show pk: "packet_ok s (OnWire ?p, ev_packet e)"
    by (rule packet_ok_mono[OF _ P(1)]) (use P in auto)
  then have p: "?p < port_count (frozen s)" by (simp add: packet_ok_def Let_def on_route_def)
  then show p': "?p < port_count (sim_fabric s)" by simp
  then show "fabric_port (sim_fabric s) (ev_port e) = Some (fab_ports (sim_fabric s) ! ?p)"
    by (rule fabric_port_Some)
  show eq: "port_peer_node (fab_ports (sim_fabric s) ! ?p) = port_peer_node (fab_ports (frozen s) ! ?p)"
    using frozen_port(8)[OF refl p] .
  have "fabric_ok (frozen s)" using setup_okD(1)[OF ok] by (simp add: fabric_ready_def)
  from wiredD(5)[OF this p] have "peer_index (frozen s) ?p < length (fab_nodes (sim_fabric s))"
    by (simp add: node_count_def)
  then show "fabric_node (sim_fabric s) (port_peer_node (fab_ports (sim_fabric s) ! ?p))
      = Some (fab_nodes (frozen s) ! peer_index (frozen s) ?p)"
    unfolding eq by (simp add: fabric_node_def peer_index_def fabric_simps)
  show "net_inv s" using popped_net[OF pop I(4)] ty by simp
qed

text \<open>At a switch the packet moves on to the port that the policy selects, one hop closer.\<close>

definition forwarded :: "event \<Rightarrow> sim \<Rightarrow> sim \<Rightarrow> bool" where
  "forwarded e s s' \<longleftrightarrow> (\<exists>out. enqueue out (ev_packet e) s = Some s' \<and> packet_ok s (AtPort (id_index out), ev_packet e)
     \<and> owner_index (frozen s) (id_index out) = peer_index (frozen s) (id_index (ev_port e)))"

lemma arrive_switch_step:
  assumes inv: "sim_inv s0" and pop: "popped e s0 s" and ty: "ev_type e = Arrive"
    and un: "\<And>kd. unaccounted kd s = packet_bytes (ev_packet e) kd" and pol: "routing_policy select"
    and switch: "\<not> node_is_host (fab_nodes (frozen s) ! peer_index (frozen s) (id_index (ev_port e)))"
  shows "\<exists>s'. on_arrive select e s = Some s' \<and> handled s0 s s' \<and> forwarded e s s'"
proof -
  define k where "k = ev_packet e"
  define p where "p = id_index (ev_port e)"
  define i where "i = id_index (ev_flow e)"
  define fr where "fr = sim_froutes s ! i"
  note A = arrived[OF inv pop ty, folded k_def p_def]
  have core: "run_core {} (packet_bytes k) s" using popped_core[OF inv pop] ty un by (simp add: k_def)
  note C = run_coreD[OF core]
  have ri: "run_inv {} (packet_bytes k) s" using core A(6) by (simp add: run_inv_core)
  define h where "h = (if ev_kind e = Ack then frt_src_host fr else frt_dst_host fr)"
  have i: "i < nflows s" and route: "on_route (frozen s) (unat h) p"
    using A(1) by (auto simp: packet_ok_def Let_def k_def ev_packet_def i_def dest_host_def h_def fr_def)
  obtain cand where cand: "candidates (sim_routes s) (port_peer_node (fab_ports (frozen s) ! p)) h = Some cand"
    "cand \<noteq> []" "length cand \<le> 2 ^ 32"
    "\<forall>c \<in> set cand. on_route (frozen s) (unat h) (id_index c) \<and> owner_index (frozen s) (id_index c) = peer_index (frozen s) p"
    using route_step[OF setup_okD(1)[OF C(1)] route] switch by (auto simp: p_def)
  define key where "key = (if ev_kind e = Ack then frt_rev_key fr else frt_fwd_key fr)"
  obtain out where out: "out \<in> set cand" "select (port_peer_node (fab_ports (frozen s) ! p)) key cand (sim_now s) = Some out"
    using routing_policy.select_candidate[OF pol cand(2,3)] by blast
  have run: "on_arrive select e s = enqueue out k s"
    using A(3-5) switch cand(1,2) out(2) i setup_okD(3)[OF C(1)]
    by (simp add: on_arrive_def p_def[symmetric] i_def[symmetric] fr_def[symmetric] h_def[symmetric]
        key_def[symmetric] k_def ev_packet_def Let_def fabric_simps cong: if_cong)
  have ro: "on_route (frozen s) (dest_host s k) (id_index out)"
    using cand(4) out(1) unfolding h_def fr_def i_def
    by (simp add: dest_host_def k_def ev_packet_def Let_def)
  have pk: "packet_ok s (AtPort (id_index out), k)"
    using A(1) ro by (simp add: packet_ok_def Let_def)
  obtain s' where s': "enqueue out k s = Some s'" "sim_inv s'" "quiet s s'"
    "potential s' \<le> potential s + packet_weight s (AtPort (id_index out), k)"
    using enqueue_inv[OF ri refl pk] by blast
  have "packet_weight s (OnWire p, k) = Suc (packet_weight s (AtPort (id_index out), k))"
  proof -
    have "on_route (frozen s) (dest_host s k) p" using A(1) by (simp add: packet_ok_def Let_def)
    moreover have "owner_index (frozen s) (id_index out) = peer_index (frozen s) p" using cand(4) out(1) by simp
    ultimately show ?thesis
      using hop_left_bound(2,3)[OF setup_okD(1)[OF C(1)]] unfolding packet_weight_def by simp
  qed
  then have "Suc (potential s') \<le> potential s0"
    using popped_potential[OF inv pop] ty s'(4) by (simp add: k_def p_def)
  moreover have "forwarded e s s'"
    using s'(1) pk cand(4) out(1) unfolding forwarded_def k_def p_def by blast
  ultimately show ?thesis using run s' by (auto simp: handled_def)
qed

text \<open>Booking a delivered packet keeps the event popped.\<close>

lemma popped_stats:
  "popped e s0 s \<Longrightarrow> popped e s0 (s\<lparr>sim_stats := st\<rparr>)"
  unfolding popped_def by fastforce

lemma quiet_stats:
  assumes "rs_events_processed st = rs_events_processed (sim_stats s)"
  shows "quiet s (s\<lparr>sim_stats := st\<rparr>)"
  using assms by (simp add: quiet_def periods_def keeps_time_def run_timed_def timed_def)

lemma packet_weight_wire:
  assumes "setup_ok s" "packet_ok s (OnWire p, k)"
  shows "(if pkt_kind k = Data then 2 * diameter s + 2 else 2) \<le> packet_weight s (OnWire p, k)"
proof -
  have "on_route (frozen s) (dest_host s k) p" using assms(2) by (simp add: packet_ok_def Let_def)
  from hop_left_bound(2,3)[OF setup_okD(1)[OF assms(1)] this] show ?thesis
    by (simp add: packet_weight_def)
qed

text \<open>A sent packet belongs to a flow that has started.\<close>

lemma started:
  assumes inv: "sim_inv s0" and i: "i < nflows s0" and x: "(x :: u32) < tx_next_seq (sim_tx s0 ! i)"
  shows "\<not> waiting s0 i" "res_start_ns (sim_results s0 ! i) \<le> sim_now s0"
    "x < tots s0 ! i" "tx_next_seq (sim_tx s0 ! i) \<noteq> 0"
proof -
  note I = run_invD[OF inv]
  show nz: "tx_next_seq (sim_tx s0 ! i) \<noteq> 0" using x by auto
  note c = flow_invD(3)[OF I(5)[OF i], unfolded clock_ok_def Let_def]
  show "\<not> waiting s0 i" "res_start_ns (sim_results s0 ! i) \<le> sim_now s0" using c nz by auto
  have "tx_next_seq (sim_tx s0 ! i) \<le> tots s0 ! i"
    using flow_invD(1)[OF I(5)[OF i]] sender_okD(1) setup_okD(18)[OF I(1) i] unfolding sender_at_def by metis
  then show "x < tots s0 ! i" using x by simp
qed

lemma on_ack_op:
  assumes inv: "sim_inv s0" and pop: "popped e s0 s" and ty: "ev_type e = Arrive"
    and kind: "ev_kind e = Ack" and un: "\<And>kd. unaccounted kd s = 0"
  shows "sender_op (ev_flow e) s0 s (on_ack (ev_flow e) (ev_packet_index e) s)"
proof -
  note I = run_invD[OF inv] and P = poppedD[OF pop] and V = popped_events[OF pop]
  define f where "f = ev_flow e"
  define i where "i = id_index f"
  define x where "x = ev_packet_index e"
  define st where "st = pst s i x"
  define tx where "tx = sim_tx s ! i"
  have ok: "setup_ok s" and n: "nflows s = nflows s0" and M: "max_tries s = max_tries s0"
    using popped_setup[OF inv pop] by auto
  note A = arrived[OF inv pop ty]
  have i: "i < nflows s" and seq: "x < tx_next_seq tx" and del: "bit st 0"
    using A(1) kind by (auto simp: packet_ok_def Let_def ev_packet_def i_def f_def x_def tx_def st_def)
  have i0: "i < nflows s0" using i n by simp
  note S = started[OF inv i0, of x, folded P(3), folded tx_def, OF seq]
  have idx: "x < tots s ! i" using S(3) setupD(7)[OF P(1)] by simp
  have F0: "flow_inv s0 i" using I(5)[OF i0] .
  note reads = flow_reads[OF ok]
  have w2: "2 \<le> packet_weight s (OnWire (id_index (ev_port e)), ev_packet e)"
    using packet_weight_wire[OF ok A(1)] kind by (simp add: ev_packet_def)
  have pot0: "potential s + 2 \<le> potential s0" using popped_potential[OF inv pop] ty w2 by simp
  show ?thesis
  proof (cases "bit st 1")
    case True
    then have "on_ack f x s = Some s"
      using reads(1)[of f x] reads(2)[OF i idx] i idx
      by (simp add: on_ack_def i_def[symmetric] st_def[symmetric])
    moreover have "sim_inv s"
      using popped_core[OF inv pop] ty un A(6) by (simp add: run_inv_core)
    ultimately show ?thesis using pot0 by (simp add: sender_op_return handled_def f_def x_def)
  next
    case False
    define v where "v = (if bit st 2 then (st OR kAcked) AND NOT kInFlight else st OR kAcked)"
    define m where "m = (if bit st 2 then tx_in_flight tx - 1 else tx_in_flight tx)"
    define tx1 where "tx1 = tx\<lparr>tx_acked_count := tx_acked_count tx + 1, tx_in_flight := m\<rparr>"
    define sp where "sp = s\<lparr>sim_pkt_state := (sim_pkt_state s)[pkt_pos s i x := v]\<rparr>"
    define s1 where "s1 = sp\<lparr>sim_tx := (sim_tx s)[i := tx1]\<rparr>"
    have vb: "bit v 1" "\<not> bit v 2" "bit v 0 = bit st 0" using False by (auto simp: v_def)
    have oksp: "setup_ok (s\<lparr>sim_pkt_state := (sim_pkt_state s)[pkt_pos s i x := w]\<rparr>)" for w
      using setup_ok_cong[OF setup_others(5)[of s "pkt_pos s i x" w]] ok by simp
    have pos: "pkt_pos (s\<lparr>sim_pkt_state := ps\<rparr>) i x = pkt_pos s i x" for ps
      by (simp add: pkt_pos_def tots_def)
    have totsp: "tots (s\<lparr>sim_pkt_state := ps\<rparr>) = tots s" for ps by (simp add: tots_def)
    have run: "on_ack f x s = try_send f s1"
      using reads(1)[of f x] reads(2)[OF i idx] reads(8)[OF i idx] i idx False
        get_tx_Some[OF oksp, where f = f] put_tx_Some[OF oksp, where f = f]
        put_pkt_state_Some[OF oksp, where i = i and idx = x] pos
      by (cases "bit st 2")
         (simp_all add: on_ack_def i_def[symmetric] st_def[symmetric] tx_def[symmetric] Let_def totsp
            s1_def sp_def tx1_def m_def v_def)
    have L: "i < length (sim_tx s)" using setup_okD(4)[OF ok] i by simp
    have fxp: "fixed sp = fixed s" by (simp add: sp_def)
    have fx: "fixed s1 = fixed s"
      using setup_put_tx[of i sp tx1] L fxp by (simp add: s1_def sp_def tx1_def tx_def)
    have TX: "sim_tx s1 = (sim_tx s)[i := tx1]" "sim_tx s1 ! i = tx1" using L by (simp_all add: s1_def sp_def)
    have ST: "pst s1 j = (if j = i then (pst s i)(x := v) else pst s j)" if "j < nflows s" for j
      using pst_update[OF ok i idx that, of v] view_congs(1)[of s1 sp] fx fxp
      by (simp add: s1_def sp_def)
    have V1: "att s1 = att s" "retx_buf s1 = retx_buf s"
      using view_congs(2,3)[OF fx] by (simp_all add: s1_def sp_def)
    have R: "retx s1 j = retx s j" for j
      by (rule retx_same[OF V1(2) TX(1) L]) (simp_all add: tx1_def tx_def)
    have per: "periods s1 = periods s" using L by (simp add: periods_def TX(1) map_update_same tx1_def tx_def)
    have ch: "flow_change i s s1"
      unfolding flow_change_def using fx per ST[OF i] ST TX V1 R vb(3) st_def
      by (auto simp: s1_def sp_def tx1_def tx_def)
    note D = flow_changeD[OF ch ok]
    have M1: "max_tries s1 = max_tries s0" using fixed_weights(1)[OF fx] M by simp
    have FV: "flow_timers s1 i = flow_timers s0 i" "flow_injects s1 i = flow_injects s0 i"
      using popped_flow_views[OF pop, of i] ty D(5,6) by simp_all
    have res1: "sim_results s1 = sim_results s0" and now1: "sim_now s1 = sim_now s"
      using P(4) by (simp_all add: s1_def sp_def)
    have nw1: "\<not> waiting s1 i" using S(1) D(10)[OF i] P by (simp add: waiting_def)
    have start: "res_start_ns (sim_results s1 ! i) \<le> sim_now s1" using S(2) P(15) res1 now1 by simp
    have fi: "flow_inv s1 i"
    proof -
      have "sender_ok (max_tries s1) tx1 (pst s1 i) (att s1 i) (retx s1 i) (flow_timers s1 i)"
        using sender_ok_ack[where x = x and v = v and n = m and tx = tx and st = "pst s i", OF _ seq vb(1,2)]
          m_def[unfolded st_def] flow_invD(1)[OF F0] ST[OF i]
        unfolding sender_at_def M1 FV V1 R by (simp add: tx1_def tx_def P(3,5,6,8))
      then have "sender_at s1 i"
        using flow_invD(1)[OF F0] unfolding sender_at_def FV TX(2) by (simp add: tx1_def tx_def P(3))
      moreover have "clock_ok s1 i"
        using flow_invD(3)[OF F0] nw1 S(1) P(15) unfolding clock_ok_def Let_def FV TX(2) res1 now1
        by (auto simp: tx1_def tx_def P(3,10) setupD(4)[OF fx])
      moreover have "receiver_ok (sim_results s1 ! i) (sim_specs s1 ! i) (pst s1 i)"
      proof -
        have "bit (pst s1 i idy) 0 = bit (pst s0 i idy) 0" for idy
          using ST[OF i] vb(3) by (simp add: st_def P(5))
        moreover have "bit (pst s1 i idy) 1 \<longrightarrow> bit (pst s0 i idy) 0" for idy
          using ST[OF i] flow_invD(2)[OF F0] del by (simp add: st_def P(5) receiver_ok_def)
        ultimately show ?thesis
          using flow_invD(2)[OF F0] by (simp add: receiver_ok_def res1 setupD(4)[OF fx] P(10))
      qed
      ultimately show ?thesis by (simp add: flow_inv_def)
    qed
    have inv1: "run_inv {i} (\<lambda>_. 0) s1"
      by (rule change_inv[OF inv pop ch i0 _ _ fi]) (use ty un in simp_all)
    have "sends_left (max_tries s) tx1 (att s i) (retx s i) = sends_left (max_tries s) tx (att s i) (retx s i)"
      by (simp add: sends_left_def attempts_left_def tx1_def)
    then have "flow_weight s1 i = flow_weight s0 i"
      using fixed_weights(3)[OF fx] fixed_weights(3)[OF P(1)] unfolding flow_weight_def M1 TX(2) V1 R FV
      by (simp add: M P(6,8) tx_def P(3)) (simp add: tx1_def tx_def P(3))
    moreover have "net_weight s1 + 2 \<le> net_weight s0"
      using V ty w2 fixed_weights(4)[OF P(1)] fixed_weights(4)[OF fx] D(3,4) by (simp add: net_weight_def)
    ultimately have "potential s1 + 2 \<le> potential s0 + 0"
      by (intro change_potential[OF inv pop ch i0]) (use ty in simp_all)
    then have pot: "potential s1 + 1 + of_bool (sim_now s1 < tx_next_send_ns (sim_tx s1 ! i)) \<le> potential s0"
      by simp
    have q: "quiet s s1"
    proof -
      have "run_timed s1 H" if "run_timed s H" for H
        using that L set_update_subset_insert[of "sim_tx s" i tx1]
        by (auto simp: run_timed_def timed_def TX(1) D(3) now1 tx1_def tx_def dest!: set_mp)
      then show ?thesis using fx per by (simp add: quiet_def keeps_time_def s1_def sp_def)
    qed
    have "ready_to_send i s0 s s1" using inv1 nw1 start q ch pot i D(2) by (simp add: ready_to_send_def)
    then show ?thesis
      unfolding run[unfolded f_def x_def] by (intro sender_op_send) (simp add: i_def f_def)
  qed
qed

end
