(* ===== verification/Sim_Complete.thy ===== *)
theory Sim_Complete
  imports Sim_Receive
begin

text \<open>
  Data at its destination: the packet is booked once, the last one completes the flow,
  completion releases the flows that wait for it, and every copy is acknowledged.
\<close>

section \<open>Releasing a set of flows\<close>

definition released :: "nat set \<Rightarrow> sim \<Rightarrow> sim \<Rightarrow> bool" where
  "released R s s' \<longleftrightarrow> fixed s' = fixed s \<and> periods s' = periods s \<and> sim_now s' = sim_now s
     \<and> sim_stats s' = sim_stats s \<and> sim_fabric s' = sim_fabric s
     \<and> sim_dependents_offset s' = sim_dependents_offset s \<and> sim_dependents s' = sim_dependents s
     \<and> same_arrays s s' \<and> eq_inv (sim_queue s')
     \<and> arrivals (events s') = arrivals (events s) \<and> timers (events s') = timers (events s)
     \<and> tx_pending (events s') = tx_pending (events s)
     \<and> injects (events s') = injects (events s) + image_mset (\<lambda>d. (d, sim_now s)) (mset_set R)
     \<and> (\<forall>j < nflows s. sim_tx s' ! j = (if j \<in> R then (sim_tx s ! j)\<lparr>tx_next_send_ns := sim_now s\<rparr> else sim_tx s ! j)
          \<and> sim_results s' ! j = (if j \<in> R then (sim_results s ! j)\<lparr>res_start_ns := sim_now s\<rparr> else sim_results s ! j))
     \<and> (\<forall>e \<in># events s'. e \<in># events s \<or> ev_type e = Inject) \<and> keeps_time s s'"

lemma released_refl: "eq_inv (sim_queue s) \<Longrightarrow> released {} s s"
  by (simp add: released_def same_arrays_def)

lemma release_one:
  assumes ok: "setup_ok s" and q: "eq_inv (sim_queue s)" and d: "id_index d < nflows s"
  shows "\<exists>s'. release_flow d s = Some s' \<and> released {id_index d} s s'"
proof -
  define i where "i = id_index d"
  define r where "r = (sim_results s ! i)\<lparr>res_start_ns := sim_now s\<rparr>"
  define tx where "tx = (sim_tx s ! i)\<lparr>tx_next_send_ns := sim_now s\<rparr>"
  define s1 where "s1 = s\<lparr>sim_results := (sim_results s)[i := r]\<rparr>"
  define s2 where "s2 = s1\<lparr>sim_tx := (sim_tx s)[i := tx]\<rparr>"
  define s' where "s' = push_event (ev_inject (sim_now s) d) s2"
  have L: "i < length (sim_results s)" "i < length (sim_tx s)"
    using setup_okD(4,7)[OF ok] d by (simp_all add: i_def)
  have f1: "fixed s1 = fixed s" using setup_put_result[OF L(1)] by (simp add: s1_def r_def)
  have f2: "fixed s2 = fixed s1" using setup_put_tx[of i s1 tx] L by (simp add: s2_def s1_def tx_def)
  have ok1: "setup_ok s1" using setup_ok_cong[OF f1] ok by simp
  have n1: "id_index d < nflows s1" using d by (simp add: s1_def)
  have run: "release_flow d s = Some s'"
    using get_result_Some[OF ok d] put_result_Some[OF ok d] get_tx_Some[OF ok1 n1] put_tx_Some[OF ok1 n1]
    by (simp add: release_flow_def s'_def s2_def s1_def r_def tx_def i_def)
  have E: "events s' = add_mset (eq_stamp (sim_queue s) (ev_inject (sim_now s) d)) (events s)"
    using q by (simp add: s'_def s2_def s1_def evq.push_items)
  have "keeps_time s s'"
    unfolding keeps_time_def
  proof (intro allI impI)
    fix D H assume h: "unat (sim_now s) + D \<le> H" "run_timed s H"
    have t: "timed s' H" using h E by (auto simp: run_timed_def timed_def s'_def s2_def s1_def)
    have "unat (tx_next_send_ns x) \<le> H" if "x \<in> set ((sim_tx s)[i := tx])" for x
    proof -
      have "x = tx \<or> x \<in> set (sim_tx s)" using set_update_subset_insert[of "sim_tx s" i tx] that by blast
      then show ?thesis using h by (auto simp: run_timed_def tx_def)
    qed
    then show "run_timed s' H" using t by (simp add: run_timed_def s'_def s2_def)
  qed
  moreover have "eq_inv (sim_queue s')" using q by (simp add: s'_def s2_def s1_def push_event_def evq.push_invar)
  ultimately have "released {i} s s'"
    using f1 f2 L E unfolding released_def
    by (auto simp: s'_def s2_def s1_def periods_def same_arrays_def views_add map_update_same tx_def r_def i_def)
  then show ?thesis using run by (auto simp: i_def)
qed

lemma released_trans:
  assumes "released A s s1" "released {d} s1 s2" "d \<notin> A" "finite A"
  shows "released (insert d A) s s2"
proof -
  note a = assms(1)[unfolded released_def] and b = assms(2)[unfolded released_def]
  have n: "nflows s1 = nflows s" using a fixed_nflows by blast
  have f: "fixed s1 = fixed s" "periods s1 = periods s" "sim_now s1 = sim_now s" using a by blast+
  have "keeps_time s s2"
    unfolding keeps_time_def
  proof (intro allI impI)
    fix D H assume h: "run_delays s D" "unat (sim_now s) + D \<le> H" "H < 2 ^ 64" "run_timed s H"
    then have "run_timed s1 H" using a keeps_timeD by blast
    then show "run_timed s2 H"
      using b keeps_timeD[of s1 s2 D H] run_delays_cong[OF f(1,2), of D] h f(3) by simp
  qed
  then show ?thesis
    using a b n assms(3,4) unfolding released_def same_arrays_def by auto
qed

lemma release_list:
  assumes "setup_ok s" "eq_inv (sim_queue s)" "\<forall>d \<in> set ds. id_index d < nflows s" "distinct ds"
  shows "\<exists>s'. fold_opt release_flow ds s = Some s' \<and> released (id_index ` set ds) s s'"
  using assms(3,4)
proof (induction ds rule: rev_induct)
  case Nil
  then show ?case using released_refl[OF assms(2)] by simp
next
  case (snoc d ds)
  then obtain s1 where s1: "fold_opt release_flow ds s = Some s1" "released (id_index ` set ds) s s1" by auto
  then have f: "fixed s1 = fixed s" "eq_inv (sim_queue s1)" by (auto simp: released_def)
  have "setup_ok s1" "id_index d < nflows s1"
    using setup_ok_cong[OF f(1)] assms(1) fixed_nflows[OF f(1)] snoc.prems by simp_all
  then obtain s2 where s2: "release_flow d s1 = Some s2" "released {id_index d} s1 s2"
    using release_one f(2) by blast
  have "id_index d \<notin> id_index ` set ds" using snoc.prems by (auto simp: id_index_inject)
  then have "released (insert (id_index d) (id_index ` set ds)) s s2"
    by (intro released_trans[OF s1(2) s2(2)]) auto
  then show ?case using s1(1) s2(1) by (simp add: fold_opt_append)
qed

lemma fold_opt_indexed:
  assumes "\<forall>i \<in> set is. i < length xs"
  shows "fold_opt (\<lambda>i s. do { d \<leftarrow> vget xs i; g d s }) is s = fold_opt g (map ((!) xs) is) s"
  using assms by (induction "is" arbitrary: s) (simp_all add: vget_in cong: Option.bind_cong)

section \<open>A packet delivered for the first time\<close>

lemma sender_ok_deliver:
  assumes ok: "sender_ok M tx st at R T" and x: "x < tx_next_seq tx"
    and v: "bit v 1 = bit (st x) 1" "bit v 2 = bit (st x) 2"
  shows "sender_ok M tx (st(x := v)) at R T"
proof -
  note D = sender_okD[OF ok]
  have "card {idx. bit ((st(x := v)) idx) 2} = card {idx. bit (st idx) 2}"
    by (rule card_flag_same) (simp add: v)
  then show ?thesis
    unfolding sender_ok_def
    by (intro conjI allI impI) (use D v x in \<open>auto split: if_splits\<close>)
qed

definition first_delivery :: "sim \<Rightarrow> FlowResult \<Rightarrow> u16 \<Rightarrow> FlowResult" where
  "first_delivery s r b = (let r = r\<lparr>res_packets_delivered := res_packets_delivered r + 1,
       res_delivered_bytes := res_delivered_bytes r + ucast b\<rparr> in
     if res_packets_delivered r = res_packets_total r
     then r\<lparr>res_finish_ns := sim_now s, res_complete := True\<rparr> else r)"

definition freed :: "sim \<Rightarrow> nat \<Rightarrow> nat set" where
  "freed s i = {d. d < nflows s \<and> id_valid (fs_depends_on (sim_specs s ! d))
     \<and> id_index (fs_depends_on (sim_specs s ! d)) = i}"

definition delivered_to :: "nat \<Rightarrow> u32 \<Rightarrow> u16 \<Rightarrow> sim \<Rightarrow> sim \<Rightarrow> bool" where
  "delivered_to i x b s s' \<longleftrightarrow> (\<exists>sR. fixed sR = fixed s
     \<and> sR = s\<lparr>sim_pkt_state := (sim_pkt_state s)[pkt_pos s i x := pst s i x OR kDelivered],
              sim_results := (sim_results s)[i := first_delivery s (sim_results s ! i) b]\<rparr>
     \<and> released (if res_complete (first_delivery s (sim_results s ! i) b) then freed s i else {}) sR s')"

lemma card_word_less: "card {idx. idx < (t :: 'a::len word)} = unat t"
proof -
  have "unat ` {idx. idx < t} = {..<unat t}"
  proof (intro equalityI subsetI)
    fix n assume n: "n \<in> {..<unat t}"
    then have "n < 2 ^ LENGTH('a)" by (meson lessThan_iff less_trans unsigned_less)
    then have u: "unat (of_nat n :: 'a word) = n" by (rule unat_of_nat_small)
    then have "(of_nat n :: 'a word) < t" using n by (simp add: word_less_nat_alt)
    then show "n \<in> unat ` {idx. idx < t}" using u by (intro image_eqI[of _ _ "of_nat n"]) auto
  qed (auto simp: word_less_nat_alt)
  moreover have "inj_on unat {idx. idx < t}" by (simp add: inj_on_def word_unat_eq_iff)
  ultimately show ?thesis by (metis card_image card_lessThan)
qed

text \<open>The receiver before and after: the new packet was missing, so the flow was not complete.\<close>

lemma receiver_missing:
  assumes inv: "flow_inv s i" and ok: "setup_ok s" and i: "i < nflows s"
    and x: "x < tots s ! i" "\<not> bit (pst s i x) 0"
  shows "\<not> res_complete (sim_results s ! i)"
    "unat (res_packets_delivered (sim_results s ! i) + 1) = Suc (card {idx. bit (pst s i idx) 0})"
proof -
  let ?r = "sim_results s ! i"
  note rec = flow_invD(2)[OF inv, unfolded receiver_ok_def]
  have tot: "res_packets_total ?r = tots s ! i" using setup_okD(16)[OF ok i] .
  have "{idx. bit (pst s i idx) 0} \<subseteq> {idx. idx < tots s ! i} - {x}"
    using x by (auto simp: pst_def)
  then have "card {idx. bit (pst s i idx) 0} \<le> card ({idx. idx < tots s ! i} - {x})"
    by (intro card_mono) auto
  also have "\<dots> = unat (tots s ! i) - 1" using x(1) card_word_less[of "tots s ! i"] by (subst card_Diff_singleton) auto
  finally have c: "card {idx. bit (pst s i idx) 0} < unat (tots s ! i)"
    using x(1) by (auto simp: word_less_nat_alt)
  then have lt: "res_packets_delivered ?r < tots s ! i" using rec by (simp add: word_less_nat_alt)
  then show "\<not> res_complete ?r" using rec tot by auto
  show "unat (res_packets_delivered ?r + 1) = Suc (card {idx. bit (pst s i idx) 0})"
    using unat_inc[OF lt] rec by simp
qed

lemma receiver_deliver:
  assumes rec: "receiver_ok r spec st" and new: "\<not> bit (st x) 0"
    and c: "unat (res_packets_delivered r + 1) = Suc (card {idx. bit (st idx) 0})" "\<not> res_complete r"
  shows "receiver_ok (first_delivery s r (payload spec x)) spec (st(x := st x OR kDelivered))"
proof -
  let ?st = "st(x := st x OR kDelivered)"
  have S: "{idx. bit (?st idx) 0} = insert x {idx. bit (st idx) 0}" by auto
  have "card {idx. bit (?st idx) 0} = Suc (card {idx. bit (st idx) 0})" unfolding S using new by simp
  moreover have "(\<Sum>idx | bit (?st idx) 0. ucast (payload spec idx) :: u64)
      = ucast (payload spec x) + (\<Sum>idx | bit (st idx) 0. ucast (payload spec idx))"
    unfolding S using new by simp
  ultimately show ?thesis
    using rec c by (auto simp: receiver_ok_def first_delivery_def Let_def add.commute)
qed

lemma freed_bounds:
  assumes "setup_ok s" "d \<in> freed s i"
  shows "d < nflows s" "i < d"
  using assms setup_okD(15)[OF assms(1), of d] by (auto simp: freed_def flow_shape_def)

lemma flow_injects_add:
  assumes "injects (events s') = injects (events s) + image_mset (\<lambda>d. (d, t)) (mset_set R)" "finite R"
  shows "flow_injects s' j = flow_injects s j + (if j \<in> R then {#t#} else {#})"
proof -
  have "image_mset snd (filter_mset (\<lambda>t. fst t = j) (image_mset (\<lambda>d. (d, t)) (mset_set R)))
      = image_mset (\<lambda>d. t) (filter_mset (\<lambda>d. d = j) (mset_set R))"
    by (simp add: filter_mset_image_mset image_mset.compositionality comp_def)
  also have "filter_mset (\<lambda>d. d = j) (mset_set R) = (if j \<in> R then {#j#} else {#})"
    using assms(2) by (auto simp: multiset_eq_iff)
  finally show ?thesis by (simp add: flow_injects_def assms(1))
qed

lemma delivered_views:
  assumes D: "delivered_to i x b s s'" and ok: "setup_ok s" and i: "i < nflows s" and idx: "x < tots s ! i"
    and r2: "r2 = first_delivery s (sim_results s ! i) b"
    and R: "R = (if res_complete r2 then freed s i else {})"
  shows "fixed s' = fixed s" "periods s' = periods s" "sim_now s' = sim_now s" "sim_stats s' = sim_stats s"
    "sim_fabric s' = sim_fabric s" "sim_dependents_offset s' = sim_dependents_offset s"
    "sim_dependents s' = sim_dependents s" "eq_inv (sim_queue s')" "carried s' = carried s"
    "timers (events s') = timers (events s)" "tx_pending (events s') = tx_pending (events s)"
    "injects (events s') = injects (events s) + image_mset (\<lambda>d. (d, sim_now s)) (mset_set R)"
    "flow_timers s' = flow_timers s"
    "flow_injects s' j = flow_injects s j + (if j \<in> R then {#sim_now s#} else {#})"
    "j < nflows s \<Longrightarrow> pst s' j = (if j = i then (pst s i)(x := pst s i x OR kDelivered) else pst s j)"
    "att s' = att s" "j < nflows s \<Longrightarrow> retx s' j = retx s j"
    "j < nflows s \<Longrightarrow> sim_tx s' ! j = (if j \<in> R then (sim_tx s ! j)\<lparr>tx_next_send_ns := sim_now s\<rparr> else sim_tx s ! j)"
    "j < nflows s \<Longrightarrow> sim_results s' ! j = (if j = i then r2
       else if j \<in> R then (sim_results s ! j)\<lparr>res_start_ns := sim_now s\<rparr> else sim_results s ! j)"
    "keeps_time s s'" "\<forall>e \<in># events s'. e \<in># events s \<or> ev_type e = Inject"
proof -
  define sP where "sP = s\<lparr>sim_pkt_state := (sim_pkt_state s)[pkt_pos s i x := pst s i x OR kDelivered]\<rparr>"
  define sR where "sR = sP\<lparr>sim_results := (sim_results s)[i := r2]\<rparr>"
  have fR: "fixed sR = fixed s" and rel: "released R sR s'"
    using D R by (auto simp: delivered_to_def sR_def sP_def r2)
  note rl = rel[unfolded released_def]
  have fP: "fixed sP = fixed s" by (simp add: sP_def)
  have S: "sim_now sR = sim_now s" "sim_stats sR = sim_stats s" "sim_fabric sR = sim_fabric s"
    "periods sR = periods s" "sim_tx sR = sim_tx s" "events sR = events s" "sim_queue sR = sim_queue s"
    "sim_specs sR = sim_specs s" "sim_results sR = (sim_results s)[i := r2]"
    "sim_dependents_offset sR = sim_dependents_offset s" "sim_dependents sR = sim_dependents s"
    by (simp_all add: sR_def sP_def periods_def)
  show fx: "fixed s' = fixed s" using rl fR by simp
  show "\<forall>e \<in># events s'. e \<in># events s \<or> ev_type e = Inject" using rl S by simp
  show "periods s' = periods s" "sim_now s' = sim_now s" "sim_stats s' = sim_stats s"
    "sim_fabric s' = sim_fabric s" "sim_dependents_offset s' = sim_dependents_offset s"
    "sim_dependents s' = sim_dependents s" "eq_inv (sim_queue s')"
    "timers (events s') = timers (events s)" "tx_pending (events s') = tx_pending (events s)"
    "injects (events s') = injects (events s) + image_mset (\<lambda>d. (d, sim_now s)) (mset_set R)"
    using rl S by simp_all
  then show "flow_timers s' = flow_timers s" using flow_timers_cong(1)[of s' s] by simp
  show "carried s' = carried s" using rl S by (simp add: carried_def)
  have finR: "finite R" by (simp add: R freed_def)
  show "flow_injects s' j = flow_injects s j + (if j \<in> R then {#sim_now s#} else {#})"
    by (rule flow_injects_add[OF _ finR]) (use rl S in simp)
  have V: "pst s' = pst sR" "att s' = att sR" "retx_buf s' = retx_buf sR"
    using views_cong[of s' sR] rl by simp_all
  have "att sR = att s" "retx_buf sR = retx_buf s"
    using view_congs(2,3)[OF fR] by (simp_all add: sR_def sP_def)
  then have B: "retx_buf s' = retx_buf s" and A: "att s' = att s" using V by simp_all
  show "att s' = att s" by (rule A)
  have "pst sR = pst sP" using view_congs(1)[of sR sP] fR fP by (simp add: sR_def)
  then show "j < nflows s \<Longrightarrow> pst s' j = (if j = i then (pst s i)(x := pst s i x OR kDelivered) else pst s j)"
    using pst_update[OF ok i idx, of j] V(1) by (simp add: sP_def)
  show "j < nflows s \<Longrightarrow> sim_tx s' ! j = (if j \<in> R then (sim_tx s ! j)\<lparr>tx_next_send_ns := sim_now s\<rparr> else sim_tx s ! j)"
    using rl S by simp
  then show "j < nflows s \<Longrightarrow> retx s' j = retx s j" by (simp add: retx_def B retx_list_def)
  have iR: "i \<notin> R" using freed_bounds[OF ok, of i i] by (auto simp: R split: if_splits)
  show "j < nflows s \<Longrightarrow> sim_results s' ! j = (if j = i then r2
       else if j \<in> R then (sim_results s ! j)\<lparr>res_start_ns := sim_now s\<rparr> else sim_results s ! j)"
    using rl S iR i setup_okD(7)[OF ok] by (auto simp: nth_list_update)
  have "keeps_time sR s'" using rl by simp
  moreover have "run_timed sR H = run_timed s H" for H using S by (simp add: run_timed_def timed_def)
  moreover have "run_delays sR D = run_delays s D" for D using run_delays_cong[OF fR S(4)] .
  ultimately show "keeps_time s s'" using S(1) unfolding keeps_time_def by simp
qed

lemma first_delivery_fields [simp]:
  "res_start_ns (first_delivery s r b) = res_start_ns r"
  "res_failed (first_delivery s r b) = res_failed r"
  "res_packets_total (first_delivery s r b) = res_packets_total r"
  by (simp_all add: first_delivery_def Let_def)

lemma first_delivery_complete:
  assumes "\<not> res_complete r"
  shows "res_complete (first_delivery s r b) \<Longrightarrow> res_finish_ns (first_delivery s r b) = sim_now s"
    "\<not> res_complete (first_delivery s r b) \<Longrightarrow> res_finish_ns (first_delivery s r b) = res_finish_ns r"
  using assms by (auto simp: first_delivery_def Let_def split: if_splits)

text \<open>A flow that waits has not sent anything and received nothing.\<close>

lemma waiting_blank:
  assumes "sim_inv s" "j < nflows s" "waiting s j"
  shows "tx_next_seq (sim_tx s ! j) = 0" "flow_injects s j = {#}" "\<not> tx_send_scheduled (sim_tx s ! j)"
    "\<not> res_complete (sim_results s ! j)"
proof -
  note I = run_invD[OF assms(1)]
  note F = flow_invD[OF I(5)[OF assms(2)]]
  show z: "tx_next_seq (sim_tx s ! j) = 0" "flow_injects s j = {#}" "\<not> tx_send_scheduled (sim_tx s ! j)"
    using F(3) assms(3) by (auto simp: clock_ok_def Let_def)
  have "pst s j idx = 0" for idx
    using sender_okD(6)[of "max_tries s" "sim_tx s ! j"] F(1) z(1) by (auto simp: sender_at_def)
  then have "res_packets_delivered (sim_results s ! j) = 0"
    using F(2) by (simp add: receiver_ok_def unat_eq_0)
  moreover have "res_packets_total (sim_results s ! j) \<noteq> 0"
    using setup_okD(15,16)[OF I(1) assms(2)] by (auto simp: flow_shape_def)
  ultimately show "\<not> res_complete (sim_results s ! j)" using F(2) by (auto simp: receiver_ok_def)
qed

lemma freed_waiting:
  "setup_ok s \<Longrightarrow> \<not> res_complete (sim_results s ! i) \<Longrightarrow> j \<in> freed s i \<Longrightarrow> waiting s j"
  by (auto simp: freed_def waiting_def)

lemma delivered_waiting:
  assumes D: "delivered_to i x b s s'" and ok: "setup_ok s" and i: "i < nflows s" and idx: "x < tots s ! i"
    and nc: "\<not> res_complete (sim_results s ! i)" and j: "j < nflows s"
    and r2: "r2 = first_delivery s (sim_results s ! i) b" and R: "R = (if res_complete r2 then freed s i else {})"
  shows "waiting s' j \<longleftrightarrow> waiting s j \<and> j \<notin> R"
proof -
  note V = delivered_views[OF D ok i idx r2 R]
  let ?d = "id_index (fs_depends_on (sim_specs s ! j))"
  have "id_valid (fs_depends_on (sim_specs s ! j)) \<longrightarrow> ?d < nflows s"
    using setup_okD(15)[OF ok j] j by (auto simp: flow_shape_def)
  then show ?thesis
    using V(19)[of ?d] nc j setupD(4)[OF V(1)] by (auto simp: waiting_def R freed_def split: if_splits)
qed

lemma delivered_flow:
  assumes inv: "sim_inv s" and D: "delivered_to i x b s s'" and i: "i < nflows s"
    and x: "x < tx_next_seq (sim_tx s ! i)" "\<not> bit (pst s i x) 0" and b: "b = payload (sim_specs s ! i) x"
    and j: "j < nflows s"
  shows "flow_inv s' j" "sender_idle s' j \<or> waiting s' j"
    "flow_weight s' j + of_bool (waiting s' j) = flow_weight s j + of_bool (waiting s j)"
proof -
  note I = run_invD[OF inv]
  have ok: "setup_ok s" using I(1) .
  define r2 where "r2 = first_delivery s (sim_results s ! i) b"
  define R where "R = (if res_complete r2 then freed s i else {})"
  note st = started[OF inv i x(1)]
  note V = delivered_views[OF D ok i st(3) r2_def R_def]
  have Fi: "flow_inv s i" using I(5)[OF i] .
  note miss = receiver_missing[OF Fi ok i st(3) x(2)]
  note W = delivered_waiting[OF D ok i st(3) miss(1) _ r2_def R_def]
  note fw = fixed_weights[OF V(1)] and sp = setupD(4)[OF V(1)]
  have iR: "i \<notin> R" using freed_bounds[OF ok, of i i] by (auto simp: R_def split: if_splits)
  note fc = first_delivery_complete[OF miss(1), of s b, folded r2_def]
  have Rw: "waiting s d" if "d \<in> R" for d
    using freed_waiting[OF ok miss(1), of d] that by (auto simp: R_def split: if_splits)
  have dep: "id_valid (fs_depends_on (sim_specs s ! j)) \<longrightarrow> id_index (fs_depends_on (sim_specs s ! j)) < nflows s"
    using setup_okD(15)[OF ok j] j by (auto simp: flow_shape_def)
  note FJ = flow_invD[OF I(5)[OF j]]
  have "flow_inv s' j \<and> (sender_idle s' j \<or> waiting s' j)
      \<and> flow_weight s' j + of_bool (waiting s' j) = flow_weight s j + of_bool (waiting s j)"
  proof (cases "j \<in> R")
    case True
    have ji: "j \<noteq> i" using True iR by auto
    have full: "res_complete r2" "j \<in> freed s i" using True by (auto simp: R_def split: if_splits)
    note wb = waiting_blank[OF inv j Rw[OF True]]
    have nw: "\<not> waiting s' j" using W[OF j] True by simp
    have inj: "flow_injects s' j = {#sim_now s#}" using V(14)[of j] True wb(2) by simp
    have tx: "sim_tx s' ! j = (sim_tx s ! j)\<lparr>tx_next_send_ns := sim_now s\<rparr>" using V(18)[OF j] True by simp
    have res: "sim_results s' ! j = (sim_results s ! j)\<lparr>res_start_ns := sim_now s\<rparr>" using V(19)[OF j] True ji by simp
    have so: "sender_ok (max_tries s) (sim_tx s ! j) (pst s j) (att s j) (retx s j) (flow_timers s j)"
      using FJ(1) by (simp add: sender_at_def)
    have "sender_ok (max_tries s') (sim_tx s' ! j) (pst s' j) (att s' j) (retx s' j) (flow_timers s' j)"
      unfolding fw(1) V(13,16) V(17)[OF j] V(15)[OF j] tx using ji
      by (simp, intro sender_ok_fields[OF so]) (use sender_okD(2)[OF so] in simp_all)
    then have sa: "sender_at s' j" using wb(3) unfolding sender_at_def inj tx by simp
    have rec: "receiver_ok (sim_results s' ! j) (sim_specs s' ! j) (pst s' j)"
      using FJ(2) ji unfolding receiver_ok_def res V(15)[OF j] sp by simp
    have "res_finish_ns (sim_results s' ! i) = sim_now s" using V(19)[OF i] fc(1) full(1) by simp
    then have "clock_ok s' j"
      using FJ(3) wb nw full(2) unfolding clock_ok_def Let_def inj tx res V(3) sp
      by (auto simp: freed_def)
    then have "flow_inv s' j" using sa rec by (simp add: flow_inv_def)
    moreover have "sender_idle s' j" by (simp add: sender_idle_def inj)
    moreover have "flow_weight s' j + of_bool (waiting s' j) = flow_weight s j + of_bool (waiting s j)"
    proof -
      have "sends_left (max_tries s) (sim_tx s' ! j) (att s j) (retx s j)
          = sends_left (max_tries s) (sim_tx s ! j) (att s j) (retx s j)"
        by (simp add: sends_left_def attempts_left_def tx)
      then show ?thesis
        unfolding flow_weight_def fw(1,3) V(16) V(17)[OF j] inj wb(2) using nw Rw[OF True] by (simp add: tx)
    qed
    ultimately show ?thesis by blast
  next
    case False
    have tx: "sim_tx s' ! j = sim_tx s ! j" using V(18)[OF j] False by simp
    have inj: "flow_injects s' j = flow_injects s j" using V(14)[of j] False by simp
    have w: "waiting s' j = waiting s j" using W[OF j] False by simp
    have fin: "res_finish_ns (sim_results s' ! d) = res_finish_ns (sim_results s ! d)" if "d < nflows s" "d \<noteq> i" for d
      using V(19)[OF that(1)] that by simp
    have fw': "flow_weight s' j = flow_weight s j"
      unfolding flow_weight_def fw(1,3) V(16) V(17)[OF j] inj tx ..
    have idle: "sender_idle s' j = sender_idle s j" unfolding sender_idle_def tx inj V(17)[OF j] ..
    have sa: "sender_at s' j"
    proof -
      have "sender_ok (max_tries s) (sim_tx s ! j) (pst s' j) (att s j) (retx s j) (flow_timers s j)"
      proof (cases "j = i")
        case True
        then show ?thesis
          using FJ(1) sender_ok_deliver[of "max_tries s" "sim_tx s ! i", OF _ x(1)]
          unfolding V(15)[OF j] by (simp add: sender_at_def)
      qed (use FJ(1) V(15)[OF j] in \<open>simp add: sender_at_def\<close>)
      then show ?thesis
        using FJ(1) unfolding sender_at_def fw(1) V(13,16) V(17)[OF j] tx inj by simp
    qed
    have depi: "res_finish_ns (sim_results s' ! id_index (fs_depends_on (sim_specs s ! j)))
        = res_finish_ns (sim_results s ! id_index (fs_depends_on (sim_specs s ! j)))"
      if "id_valid (fs_depends_on (sim_specs s ! j))"
    proof (cases "id_index (fs_depends_on (sim_specs s ! j)) = i")
      case True
      then have "\<not> res_complete r2" using False that j by (auto simp: R_def freed_def split: if_splits)
      then show ?thesis using True V(19)[OF i] fc(2) by simp
    qed (use fin dep that in simp)
    have "flow_inv s' j"
    proof (cases "j = i")
      case True
      have res: "sim_results s' ! i = r2" using V(19)[OF i] by simp
      have "receiver_ok (sim_results s' ! i) (sim_specs s' ! i) (pst s' i)"
        unfolding res sp V(15)[OF i] r2_def b
        using receiver_deliver[OF flow_invD(2)[OF Fi] x(2) miss(2,1)] by simp
      moreover have "clock_ok s' i"
        using FJ(3) w depi st(1,2) fc miss(1) unfolding True clock_ok_def Let_def sp inj[unfolded True]
          tx[unfolded True] res V(3) r2_def[symmetric]
        by (auto simp: r2_def)
      ultimately show ?thesis using sa True by (simp add: flow_inv_def)
    next
      case ji: False
      have res: "sim_results s' ! j = sim_results s ! j" using V(19)[OF j] ji False by simp
      have "clock_ok s' j"
        using FJ(3) w depi unfolding clock_ok_def Let_def sp inj tx res V(3) by auto
      then show ?thesis using sa FJ(2) ji V(15)[OF j] by (simp add: flow_inv_def res sp)
    qed
    then show ?thesis using fw' w idle I(6)[OF j] by simp
  qed
  then show "flow_inv s' j" "sender_idle s' j \<or> waiting s' j"
    "flow_weight s' j + of_bool (waiting s' j) = flow_weight s j + of_bool (waiting s j)" by blast+
qed

lemma delivered_inv:
  assumes inv: "sim_inv s" and D: "delivered_to i x b s s'" and i: "i < nflows s"
    and x: "x < tx_next_seq (sim_tx s ! i)" "\<not> bit (pst s i x) 0" and b: "b = payload (sim_specs s ! i) x"
  shows "sim_inv s'" "quiet s s'" "potential s' = potential s"
    "bit (pst s' i x) 0" "tx_next_seq (sim_tx s' ! i) = tx_next_seq (sim_tx s ! i)"
proof -
  note I = run_invD[OF inv]
  define r2 where "r2 = first_delivery s (sim_results s ! i) b"
  define R where "R = (if res_complete r2 then freed s i else {})"
  note st = started[OF inv i x(1)]
  note V = delivered_views[OF D I(1) i st(3) r2_def R_def]
  note F = delivered_flow[OF inv D i x b]
  note fw = fixed_weights[OF V(1)]
  have n: "nflows s' = nflows s" using fixed_nflows[OF V(1)] .
  have seq: "tx_next_seq (sim_tx s' ! j) = tx_next_seq (sim_tx s ! j)" if "j < nflows s" for j
    using V(18)[OF that] by simp
  show "tx_next_seq (sim_tx s' ! i) = tx_next_seq (sim_tx s ! i)" using seq[OF i] .
  show "bit (pst s' i x) 0" using V(15)[OF i] by simp
  show "sim_inv s'"
    unfolding run_inv_def
  proof (intro conjI allI impI ballI)
    show "setup_ok s'" using setup_ok_cong[OF V(1)] I(1) by simp
    show "0 < max_tries s'" using I(2) fw(1) by simp
    show "dependents_ok s'" using I(3) dependents_ok_cong[of s' s] V(6,7) setupD(4)[OF V(1)] by simp
    show "net_inv s'" using I(4) V(5,8,11) by (simp add: net_inv_def)
    show "flow_inv s' j" if "j < nflows s'" for j using F(1) that n by simp
    show "sender_idle s' j \<or> waiting s' j" if "j < nflows s'" for j using F(2) that n by simp
    show "fst t < nflows s'" if "t \<in># timers (events s')" for t using I(7)[of t] that V(10) n by simp
    show "fst t < nflows s'" if "t \<in># injects (events s')" for t
    proof -
      have "finite R" "\<And>d. d \<in> R \<Longrightarrow> d < nflows s" by (auto simp: R_def freed_def split: if_splits)
      then show ?thesis using that I(8)[of t] V(12) n by auto
    qed
    show "packet_ok s' y" if "y \<in># carried s'" for y
      by (rule packet_ok_mono[OF _ V(1)]) (use I(9)[of y] that V(9,15) seq in \<open>auto split: if_splits\<close>)
    show "unaccounted kd s' = 0" for kd using I(10)[of kd] V(4,9) by (simp add: unaccounted_def)
  qed
  show "quiet s s'" using V(1-4,20) by (simp add: quiet_def)
  have "(\<Sum>j<nflows s. flow_weight s' j + of_bool (waiting s' j))
      = (\<Sum>j<nflows s. flow_weight s j + of_bool (waiting s j))"
    by (rule sum.cong) (use F(3) in simp_all)
  then show "potential s' = potential s" unfolding potential_def V(9,10) fw(4) n by simp
qed

section \<open>Bookkeeping of delivered and injected bytes\<close>

lemma stats_frame:
  "rs_events_processed st = rs_events_processed (sim_stats s) \<Longrightarrow> net_frame s (s\<lparr>sim_stats := st\<rparr>)"
  by (rule net_frameI[where fab = "sim_fabric s" and q = "sim_queue s" and st = st and res = "sim_results s"])
     simp_all

lemma stats_inv:
  assumes inv: "run_inv E B s" and st: "rs_events_processed st = rs_events_processed (sim_stats s)"
    and un: "\<And>kd. unaccounted kd (s\<lparr>sim_stats := st\<rparr>) = B' kd"
  shows "run_inv E B' (s\<lparr>sim_stats := st\<rparr>)" "potential (s\<lparr>sim_stats := st\<rparr>) = potential s"
proof -
  let ?s = "s\<lparr>sim_stats := st\<rparr>"
  have c: "carried ?s = carried s" by (simp add: carried_def)
  show "run_inv E B' ?s"
  proof (rule net_frame_inv[OF _ stats_frame[OF st] _ _ un])
    show "run_core E B s" "net_inv ?s" using inv by (auto simp: run_inv_core net_inv_def)
    show "packet_ok s y" if "y \<in># carried ?s" for y using that run_invD(9)[OF inv] c by simp
  qed
  have "fixed ?s = fixed s" by simp
  note fw = fixed_weights[OF this]
  have "flow_weight ?s j = flow_weight s j" "waiting ?s j = waiting s j" for j
    using flow_timers_cong[of ?s s] view_congs[of ?s s]
    by (simp_all add: flow_weight_def fw retx_def waiting_def)
  then show "potential ?s = potential s" by (simp add: potential_def c fw)
qed

section \<open>The destination host\<close>

lemma ack_injection:
  assumes inv: "sim_inv s" and i: "i = id_index f" "i < nflows s"
    and x: "x < tx_next_seq (sim_tx s ! i)" "bit (pst s i x) 0"
  defines "ack \<equiv> ucast (tc_ack_bytes (sim_transport s)) :: u16"
  shows "\<exists>s'. enqueue (frt_dst_nic (sim_froutes s ! i))
      \<lparr>pkt_flow = f, pkt_index = x, pkt_bytes = ack, pkt_kind = Ack, pkt_attempt = 0\<rparr>
      (s\<lparr>sim_stats := (sim_stats s)\<lparr>rs_ack_bytes_injected := rs_ack_bytes_injected (sim_stats s) + ucast ack\<rparr>\<rparr>)
    = Some s' \<and> sim_inv s' \<and> quiet s s' \<and> potential s' \<le> potential s + (2 * diameter s + 1)"
proof -
  note I = run_invD[OF inv]
  define k where "k = \<lparr>pkt_flow = f, pkt_index = x, pkt_bytes = ack, pkt_kind = Ack, pkt_attempt = 0\<rparr>"
  define st where "st = (sim_stats s)\<lparr>rs_ack_bytes_injected := rs_ack_bytes_injected (sim_stats s) + ucast ack\<rparr>"
  define s1 where "s1 = s\<lparr>sim_stats := st\<rparr>"
  have ev: "rs_events_processed st = rs_events_processed (sim_stats s)" by (simp add: st_def)
  have c1: "carried s1 = carried s" by (simp add: carried_def s1_def)
  have un: "unaccounted kd s1 = packet_bytes k kd" for kd
    using I(10)[of kd] c1
    by (cases kd) (auto simp: unaccounted_def packet_bytes_def k_def s1_def st_def ledger_eqs algebra_simps)
  note S = stats_inv[OF inv ev un[unfolded s1_def], folded s1_def]
  have fx: "fixed s1 = fixed s" by (simp add: s1_def)
  define nic where "nic = frt_dst_nic (sim_froutes s ! i)"
  have shape: "on_route (frozen s) (unat (frt_src_host (sim_froutes s ! i))) (id_index nic)"
    using setup_okD(15)[OF I(1) i(2)] by (simp add: flow_shape_def nic_def)
  have pst1: "pst s1 = pst s" using view_congs(1)[OF fx] by (simp add: s1_def)
  have pk: "packet_ok s1 (AtPort (id_index nic), k)"
    using shape i x pst1 unfolding packet_ok_def Let_def fixed_weights(5)[OF fx]
    by (simp add: k_def dest_host_def ack_def s1_def)
  obtain s' where s': "enqueue nic k s1 = Some s'" "sim_inv s'" "quiet s1 s'"
    "potential s' \<le> potential s1 + packet_weight s1 (AtPort (id_index nic), k)"
    using enqueue_inv[OF S(1) refl pk] by blast
  have "quiet s s'" using quiet_trans[OF quiet_stats[OF ev, folded s1_def] s'(3)] .
  moreover have "packet_weight s1 (AtPort (id_index nic), k) \<le> 2 * diameter s + 1"
    using hop_left_bound(1)[OF setup_okD(1)[OF I(1)] shape] i
    unfolding fixed_weights(4)[OF fx] by (simp add: packet_weight_def k_def dest_host_def diameter_def)
  ultimately show ?thesis
    using s' S(2) unfolding k_def nic_def s1_def st_def by auto
qed

text \<open>Booking a delivered packet, and completing the flow when it was the last.\<close>

lemma complete_released:
  assumes ok: "setup_ok s" and q: "eq_inv (sim_queue s)" and dep: "dependents_ok s" and f: "id_index f < nflows s"
  defines "r \<equiv> (sim_results s ! id_index f)\<lparr>res_finish_ns := sim_now s, res_complete := True\<rparr>"
  defines "s1 \<equiv> s\<lparr>sim_results := (sim_results s)[id_index f := r]\<rparr>"
  shows "\<exists>s'. complete_flow f s = Some s' \<and> released (freed s (id_index f)) s1 s'"
proof -
  let ?i = "id_index f"
  note dp = dep[unfolded dependents_ok_def]
  define b where "b = unat (sim_dependents_offset s ! ?i)"
  define e where "e = unat (sim_dependents_offset s ! Suc ?i)"
  have L: "?i < length (sim_results s)" using setup_okD(7)[OF ok] f by simp
  have fx: "fixed s1 = fixed s" using setup_put_result[OF L] by (simp add: s1_def r_def)
  have ds: "dependents_of s ?i = map ((!) (sim_dependents s)) [b..<e]"
    by (simp add: dependents_of_def Let_def b_def e_def)
  have e: "e \<le> length (sim_dependents s)" using dp f by (simp add: e_def)
  have set: "id_index ` set (dependents_of s ?i) = freed s ?i" and dist: "distinct (dependents_of s ?i)"
    using dp f by (auto simp: freed_def)
  have small: "\<forall>d \<in> set (dependents_of s ?i). id_index d < nflows s1"
  proof
    fix d assume "d \<in> set (dependents_of s ?i)"
    then have "id_index d \<in> freed s ?i" using set by blast
    then show "id_index d < nflows s1" by (simp add: freed_def s1_def)
  qed
  have sd: "sim_dependents s1 = sim_dependents s" by (simp add: s1_def)
  have only: "fold_opt (\<lambda>i s. do { d \<leftarrow> vget (sim_dependents s) i; release_flow d s }) [b..<e] s1
      = fold_opt release_flow (dependents_of s ?i) s1"
  proof -
    have keep: "release_flow d t = Some t' \<Longrightarrow> sim_dependents t' = sim_dependents t" for d t t'
      by (auto simp: release_flow_def get_result_def put_result_def get_tx_def put_tx_def checked_iffs)
    have "fold_opt (\<lambda>i s. do { d \<leftarrow> vget (sim_dependents s) i; release_flow d s }) is t
        = fold_opt (\<lambda>i s. do { d \<leftarrow> vget (sim_dependents s1) i; release_flow d s }) is t"
      if "sim_dependents t = sim_dependents s1" for "is" t
      using that
    proof (induction "is" arbitrary: t)
      case (Cons a "is")
      then show ?case using keep by (auto intro!: Option.bind_cong simp: bind_eq_Some_conv)
    qed simp
    then show ?thesis
      unfolding ds using fold_opt_indexed[of "[b..<e]" "sim_dependents s" release_flow s1] e sd by simp
  qed
  obtain s' where s': "fold_opt release_flow (dependents_of s ?i) s1 = Some s'"
    "released (id_index ` set (dependents_of s ?i)) s1 s'"
    using release_list[OF _ _ small dist] setup_ok_cong[OF fx] ok q by (auto simp: s1_def)
  have "complete_flow f s = Some s'"
    using get_result_Some[OF ok f] put_result_Some[OF ok f] s'(1) only dp f
    by (simp add: complete_flow_def s1_def r_def b_def e_def fabric_simps)
  then show ?thesis using s'(2) set by auto
qed

lemma first_delivery_step:
  assumes inv: "sim_inv s" and i: "i = id_index f" "i < nflows s"
    and x: "x < tots s ! i" "\<not> bit (pst s i x) 0" and k: "k = pkt_pos s i x"
    and nc: "\<not> res_complete (sim_results s ! i)"
  shows "\<exists>s'. (do {
       s \<leftarrow> put_pkt_state k (pst s i x OR kDelivered) s;
       r \<leftarrow> get_result f s;
       let r = r\<lparr>res_packets_delivered := res_packets_delivered r + 1,
                 res_delivered_bytes := res_delivered_bytes r + ucast b\<rparr>;
       s \<leftarrow> put_result f r s;
       if res_packets_delivered r = res_packets_total r then complete_flow f s else Some s
     }) = Some s' \<and> delivered_to i x b s s'"
proof -
  note I = run_invD[OF inv]
  define sP where "sP = s\<lparr>sim_pkt_state := (sim_pkt_state s)[k := pst s i x OR kDelivered]\<rparr>"
  define r1 where "r1 = (sim_results s ! i)\<lparr>
     res_packets_delivered := res_packets_delivered (sim_results s ! i) + 1,
     res_delivered_bytes := res_delivered_bytes (sim_results s ! i) + ucast b\<rparr>"
  define s1 where "s1 = sP\<lparr>sim_results := (sim_results s)[i := r1]\<rparr>"
  define r2 where "r2 = first_delivery s (sim_results s ! i) b"
  define sR where "sR = sP\<lparr>sim_results := (sim_results s)[i := r2]\<rparr>"
  have L: "i < length (sim_results s)" using setup_okD(7)[OF I(1)] i by simp
  have fP: "fixed sP = fixed s" by (simp add: sP_def)
  have okP: "setup_ok sP" "nflows sP = nflows s" using setup_ok_cong[OF fP] I(1) fixed_nflows[OF fP] by simp_all
  have LP: "i < length (sim_results sP)" "sim_results sP = sim_results s" using L by (simp_all add: sP_def)
  have f1: "fixed s1 = fixed s"
    using setup_put_result[OF LP(1), of r1] fP LP(2) by (simp add: s1_def r1_def)
  have fR: "fixed sR = fixed s"
    using setup_put_result[OF LP(1), of r2] fP LP(2) by (simp add: sR_def r2_def)
  have ok1: "setup_ok s1" "nflows s1 = nflows s" using setup_ok_cong[OF f1] I(1) fixed_nflows[OF f1] by simp_all
  have run: "(do {
       s \<leftarrow> put_pkt_state k (pst s i x OR kDelivered) s;
       r \<leftarrow> get_result f s;
       let r = r\<lparr>res_packets_delivered := res_packets_delivered r + 1,
                 res_delivered_bytes := res_delivered_bytes r + ucast b\<rparr>;
       s \<leftarrow> put_result f r s;
       if res_packets_delivered r = res_packets_total r then complete_flow f s else Some s
     }) = (if res_packets_delivered r1 = res_packets_total r1 then complete_flow f s1 else Some s1)"
  proof -
    have "put_pkt_state k (pst s i x OR kDelivered) s = Some sP"
      using put_pkt_state_Some[OF I(1) i(2) x(1)] by (simp add: k sP_def)
    moreover have "get_result f sP = Some (sim_results s ! i)"
      using get_result_Some[OF okP(1), of f] okP(2) i LP(2) by simp
    moreover have "put_result f r1 sP = Some s1"
      using put_result_Some[OF okP(1), of f r1] okP(2) i LP(2) by (simp add: s1_def)
    ultimately show ?thesis by (simp add: Let_def r1_def)
  qed
  have q: "eq_inv (sim_queue s1)" "eq_inv (sim_queue sR)"
    using I(4) by (simp_all add: net_inv_def s1_def sR_def sP_def)
  have sR_eq: "sR = s\<lparr>sim_pkt_state := (sim_pkt_state s)[pkt_pos s i x := pst s i x OR kDelivered],
              sim_results := (sim_results s)[i := first_delivery s (sim_results s ! i) b]\<rparr>"
    by (simp add: sR_def sP_def r2_def k)
  show ?thesis
  proof (cases "res_packets_delivered r1 = res_packets_total r1")
    case True
    then have r2': "r2 = r1\<lparr>res_finish_ns := sim_now s, res_complete := True\<rparr>"
      by (simp add: r2_def first_delivery_def r1_def Let_def)
    have dep: "dependents_ok s1" using I(3) dependents_ok_cong[of s1 s] by (simp add: s1_def sP_def)
    obtain s' where s': "complete_flow f s1 = Some s'"
      "released (freed s1 i) (s1\<lparr>sim_results := (sim_results s1)[i := (sim_results s1 ! i)\<lparr>res_finish_ns := sim_now s1,
          res_complete := True\<rparr>]\<rparr>) s'"
      using complete_released[OF ok1(1) q(1) dep] i ok1(2) by auto
    have "s1\<lparr>sim_results := (sim_results s1)[i := (sim_results s1 ! i)\<lparr>res_finish_ns := sim_now s1,
          res_complete := True\<rparr>]\<rparr> = sR"
      using L by (simp add: s1_def sR_def r2' sP_def)
    moreover have "freed s1 i = freed s i" by (simp add: freed_def s1_def sP_def)
    ultimately have "released (freed s i) sR s'" using s'(2) by simp
    moreover have "res_complete r2" by (simp add: r2')
    ultimately have "delivered_to i x b s s'"
      using fR sR_eq unfolding delivered_to_def by (intro exI[of _ sR]) (simp add: r2_def)
    then show ?thesis using run True s'(1) by simp
  next
    case False
    then have r2': "r2 = r1" by (simp add: r2_def first_delivery_def r1_def Let_def)
    then have "s1 = sR" by (simp add: s1_def sR_def)
    moreover have "\<not> res_complete r2" using nc by (simp add: r2' r1_def)
    ultimately have "delivered_to i x b s s1"
      using fR sR_eq released_refl[OF q(2)] unfolding delivered_to_def by (intro exI[of _ sR]) (simp add: r2_def)
    then show ?thesis using run False by simp
  qed
qed

text \<open>
  The arrival in its three parts: the bytes are booked, the packet is delivered if it is new,
  and an ack enters the network.
\<close>

definition received :: "event \<Rightarrow> sim \<Rightarrow> sim \<Rightarrow> bool" where
  "received e s s' \<longleftrightarrow> (\<exists>st sB. let i = id_index (ev_flow e); x = ev_packet_index e; sA = s\<lparr>sim_stats := st\<rparr> in
     sim_inv sA \<and> sim_inv sB \<and> i < nflows s \<and> x < tots s ! i \<and> x < tx_next_seq (sim_tx s ! i)
     \<and> (sB = sA \<or> \<not> bit (pst s i x) 0 \<and> delivered_to i x (ev_bytes e) sA sB) \<and> bit (pst sB i x) 0
     \<and> (\<exists>k st2. pkt_kind k = Ack \<and> pkt_flow k = ev_flow e \<and> pkt_index k = x
          \<and> pkt_bytes k = ucast (tc_ack_bytes (sim_transport s))
          \<and> enqueue (frt_dst_nic (sim_froutes s ! i)) k (sB\<lparr>sim_stats := st2\<rparr>) = Some s'))"

lemma on_data_arrival_step:
  assumes inv: "sim_inv s0" and pop: "popped e s0 s" and ty: "ev_type e = Arrive"
    and kind: "ev_kind e = Data" and un: "\<And>kd. unaccounted kd s = packet_bytes (ev_packet e) kd"
  shows "\<exists>s'. on_data_arrival (ev_flow e) (ev_packet_index e) (ev_bytes e) s = Some s' \<and> handled s0 s s'
    \<and> received e s s'"
proof -
  note P = poppedD[OF pop] and A = arrived[OF inv pop ty]
  define f where "f = ev_flow e"
  define i where "i = id_index f"
  define x where "x = ev_packet_index e"
  define b where "b = ev_bytes e"
  define st where "st = (sim_stats s)\<lparr>rs_bytes_delivered := rs_bytes_delivered (sim_stats s) + ucast b\<rparr>"
  define sA where "sA = s\<lparr>sim_stats := st\<rparr>"
  have ok: "setup_ok s" and n: "nflows s = nflows s0" using popped_setup[OF inv pop] by auto
  have i: "i < nflows s" and seq: "x < tx_next_seq (sim_tx s ! i)" and bytes: "b = payload (sim_specs s ! i) x"
    using A(1) kind by (auto simp: packet_ok_def Let_def ev_packet_def i_def f_def x_def b_def)
  have i0: "i < nflows s0" using i n by simp
  note S = started[OF inv i0, of x, folded P(3), OF seq]
  have idx: "x < tots s ! i" using S(3) setupD(7)[OF P(1)] by simp
  have core: "run_inv {} (packet_bytes (ev_packet e)) s"
    using popped_core[OF inv pop] ty un A(6) by (simp add: run_inv_core)
  have ev: "rs_events_processed st = rs_events_processed (sim_stats s)" by (simp add: st_def)
  have cA: "carried sA = carried s" by (simp add: carried_def sA_def)
  have unA: "unaccounted kd sA = 0" for kd
    using un[of kd] cA kind
    by (cases kd) (auto simp: unaccounted_def packet_bytes_def ev_packet_def sA_def st_def b_def ledger_eqs algebra_simps)
  note SA = stats_inv[OF core ev unA[unfolded sA_def], folded sA_def]
  have fA: "fixed sA = fixed s" by (simp add: sA_def)
  have pA: "pst sA = pst s" using view_congs(1)[OF fA] by (simp add: sA_def)
  have tA: "tots sA = tots s" using setupD(7)[OF fA] .
  have okA: "setup_ok sA" and iA: "i < nflows sA" "x < tx_next_seq (sim_tx sA ! i)" "x < tots sA ! i"
    using SA(1) i seq idx tA by (auto simp: run_inv_def sA_def)
  have qA: "quiet s sA" using quiet_stats[OF ev] by (simp add: sA_def)
  have slot: "pkt_slot f x s = Some (pkt_pos s i x)" "pkt_pos sA i x = pkt_pos s i x"
    using pkt_slot_Some[OF ok, of f x] i idx tA by (simp_all add: i_def pkt_pos_def)
  have rd: "vget (sim_pkt_state sA) (pkt_pos s i x) = Some (pst sA i x)"
    using read_pkt(1)[OF okA iA(1,3)] slot(2) by simp
  define deliver where "deliver = (if pst sA i x AND kDelivered = 0 then do {
       s \<leftarrow> put_pkt_state (pkt_pos s i x) (pst sA i x OR kDelivered) sA;
       r \<leftarrow> get_result f s;
       let r = r\<lparr>res_packets_delivered := res_packets_delivered r + 1,
                 res_delivered_bytes := res_delivered_bytes r + ucast b\<rparr>;
       s \<leftarrow> put_result f r s;
       if res_packets_delivered r = res_packets_total r then complete_flow f s else Some s
     } else Some sA)"
  have "\<exists>sB. deliver = Some sB \<and> sim_inv sB \<and> quiet sA sB \<and> potential sB = potential sA
      \<and> bit (pst sB i x) 0 \<and> x < tx_next_seq (sim_tx sB ! i) \<and> fixed sB = fixed sA
      \<and> (sB = sA \<or> \<not> bit (pst s i x) 0 \<and> delivered_to i x b sA sB)"
  proof (cases "bit (pst sA i x) 0")
    case True
    then show ?thesis using SA(1) iA(2) by (simp add: deliver_def)
  next
    case False
    have "\<not> res_complete (sim_results sA ! i)"
      by (rule receiver_missing(1)[OF run_invD(5)[OF SA(1) iA(1)] okA iA(1,3) False])
    from first_delivery_step[OF SA(1) i_def iA(1,3) False slot(2)[symmetric] this, of b]
    obtain sB where sB: "deliver = Some sB" "delivered_to i x b sA sB"
      using False by (auto simp: deliver_def)
    have b': "b = payload (sim_specs sA ! i) x" using bytes by (simp add: sA_def)
    note D = delivered_inv[OF SA(1) sB(2) iA(1,2) False b']
    have "fixed sB = fixed sA" using D(2) by (simp add: quiet_def)
    then show ?thesis using sB D iA(2) False pA by simp
  qed
  then obtain sB where sB: "deliver = Some sB" "sim_inv sB" "quiet sA sB" "potential sB = potential sA"
    "bit (pst sB i x) 0" "x < tx_next_seq (sim_tx sB ! i)" "fixed sB = fixed sA"
    "sB = sA \<or> \<not> bit (pst s i x) 0 \<and> delivered_to i x b sA sB" by blast
  have nB: "nflows sB = nflows sA" using fixed_nflows[OF sB(7)] .
  have iB: "i < nflows sB" using iA(1) nB by simp
  obtain s' where s': "enqueue (frt_dst_nic (sim_froutes sB ! i))
      \<lparr>pkt_flow = f, pkt_index = x, pkt_bytes = ucast (tc_ack_bytes (sim_transport sB)), pkt_kind = Ack, pkt_attempt = 0\<rparr>
      (sB\<lparr>sim_stats := (sim_stats sB)\<lparr>rs_ack_bytes_injected := rs_ack_bytes_injected (sim_stats sB)
         + ucast (ucast (tc_ack_bytes (sim_transport sB)) :: u16)\<rparr>\<rparr>) = Some s'"
    "sim_inv s'" "quiet sB s'" "potential s' \<le> potential sB + (2 * diameter sB + 1)"
    using ack_injection[OF sB(2) i_def iB sB(6,5)] by blast
  have fr: "vget (sim_froutes sB) i = Some (sim_froutes sB ! i)"
    using setup_okD(3)[OF run_invD(1)[OF sB(2)]] iB by (simp add: vget_def)
  have "on_data_arrival f x b s = Some s'"
  proof -
    have "on_data_arrival f x b s = do {
       s \<leftarrow> deliver;
       let ack = (ucast (tc_ack_bytes (sim_transport s)) :: u16);
       let s = s\<lparr>sim_stats := (sim_stats s)\<lparr>rs_ack_bytes_injected :=
              rs_ack_bytes_injected (sim_stats s) + ucast ack\<rparr>\<rparr>;
       fr \<leftarrow> vget (sim_froutes s) (id_index f);
       enqueue (frt_dst_nic fr) \<lparr>pkt_flow = f, pkt_index = x, pkt_bytes = ack, pkt_kind = Ack,
         pkt_attempt = 0\<rparr> s }"
      using slot(1) rd unfolding on_data_arrival_def sA_def st_def deliver_def by (simp add: Let_def)
    then show ?thesis using sB(1) s'(1) fr by (simp add: Let_def i_def)
  qed
  moreover have "quiet s s'" using quiet_trans[OF quiet_trans[OF qA sB(3)] s'(3)] .
  moreover have "Suc (potential s') \<le> potential s0"
  proof -
    have "diameter sB = diameter s" using fixed_weights(2)[of sB sA] fixed_weights(2)[of sA s] sB(7) fA by simp
    moreover have "2 * diameter s + 2 \<le> packet_weight s (OnWire (id_index (ev_port e)), ev_packet e)"
      using packet_weight_wire[OF ok A(1)] kind by (simp add: ev_packet_def)
    ultimately show ?thesis
      using popped_potential[OF inv pop] ty s'(4) sB(4) SA(2) by simp
  qed
  moreover have "received e s s'"
  proof -
    have "sim_froutes sB = sim_froutes s" "sim_transport sB = sim_transport s"
      using setupD(3,5)[OF sB(7)] by (simp_all add: sA_def)
    then have "\<exists>k st2. pkt_kind k = Ack \<and> pkt_flow k = f \<and> pkt_index k = x \<and> pkt_bytes k = ucast (tc_ack_bytes (sim_transport s))
        \<and> enqueue (frt_dst_nic (sim_froutes s ! i)) k (sB\<lparr>sim_stats := st2\<rparr>) = Some s'"
      using s'(1) by (metis packet.select_convs(1,2,3,4))
    then show ?thesis
      using SA(1) sB(2,5,8) i idx seq
      unfolding received_def Let_def f_def[symmetric] i_def[symmetric] x_def[symmetric] b_def[symmetric]
      by (intro exI[of _ st] exI[of _ sB]) (simp add: sA_def[symmetric])
  qed
  ultimately show ?thesis using s'(2) by (auto simp: handled_def f_def x_def b_def)
qed

end
