(* ===== verification/Sim_Run.thy ===== *)
theory Sim_Run
  imports Sim_Complete
begin

text \<open>
  The hot loop: every event is handled, the invariant of the run is kept, the potential
  falls with every event, so the loop returns; and what holds once the queue is empty.
\<close>

section \<open>Arrivals at a host\<close>

lemma handled_from:
  "quiet s sA \<Longrightarrow> handled s0 sA s' \<Longrightarrow> handled s0 s s'"
  using quiet_trans by (auto simp: handled_def)

text \<open>
  The three arrivals: at a switch the packet is forwarded, data at its destination is received,
  an ack at the source is a sender operation.
\<close>

definition at_home :: "event \<Rightarrow> sim \<Rightarrow> bool" where
  "at_home e s \<longleftrightarrow> ev_kind e = Data \<and> packet_ok s (OnWire (id_index (ev_port e)), ev_packet e)
     \<and> port_peer_node (fab_ports (frozen s) ! id_index (ev_port e)) = fab_hosts (frozen s) ! dest_host s (ev_packet e)"

definition arrival_op :: "event \<Rightarrow> sim \<Rightarrow> sim \<Rightarrow> sim option \<Rightarrow> bool" where
  "arrival_op e s0 s r \<longleftrightarrow> (\<exists>s'. r = Some s' \<and> handled s0 s s' \<and> (forwarded e s s' \<or> at_home e s \<and> received e s s'))
     \<or> (\<exists>st. quiet s (s\<lparr>sim_stats := st\<rparr>) \<and> sender_op (ev_flow e) s0 (s\<lparr>sim_stats := st\<rparr>) r
          \<and> ev_kind e = Ack \<and> r = on_ack (ev_flow e) (ev_packet_index e) (s\<lparr>sim_stats := st\<rparr>))"

lemma arrival_op_handled: "arrival_op e s0 s r \<Longrightarrow> \<exists>s'. r = Some s' \<and> handled s0 s s'"
  using sender_op_handled handled_from unfolding arrival_op_def by metis

lemma on_arrive_op:
  assumes inv: "sim_inv s0" and pop: "popped e s0 s" and ty: "ev_type e = Arrive"
    and un: "\<And>kd. unaccounted kd s = packet_bytes (ev_packet e) kd" and pol: "routing_policy select"
  shows "arrival_op e s0 s (on_arrive select e s)"
proof (cases "node_is_host (fab_nodes (frozen s) ! peer_index (frozen s) (id_index (ev_port e)))")
  case False
  then show ?thesis using arrive_switch_step[OF inv pop ty un pol] unfolding arrival_op_def by blast
next
  case host: True
  define p where "p = id_index (ev_port e)"
  define i where "i = id_index (ev_flow e)"
  note A = arrived[OF inv pop ty, folded p_def]
  have ok: "setup_ok s" using popped_setup[OF inv pop] by simp
  have i: "i < nflows s" and route: "on_route (frozen s) (dest_host s (ev_packet e)) p"
    using A(1) by (auto simp: packet_ok_def Let_def ev_packet_def i_def)
  have home: "port_peer_node (fab_ports (frozen s) ! p) = fab_hosts (frozen s) ! dest_host s (ev_packet e)"
    using route_home[OF setup_okD(1)[OF ok] route] host by (simp add: p_def)
  have shape: "fab_hosts (frozen s) ! unat (frt_src_host (sim_froutes s ! i)) = fs_src (sim_specs s ! i)"
    "fab_hosts (frozen s) ! unat (frt_dst_host (sim_froutes s ! i)) = fs_dst (sim_specs s ! i)"
    using setup_okD(15)[OF ok i] by (auto simp: flow_shape_def)
  have spec: "vget (sim_specs s) i = Some (sim_specs s ! i)" using i by (simp add: vget_def)
  note pre = A(3,5)
  show ?thesis
  proof (cases "ev_kind e = Ack")
    case True
    define st where "st = (sim_stats s)\<lparr>rs_ack_bytes_delivered :=
      rs_ack_bytes_delivered (sim_stats s) + ucast (ev_bytes e)\<rparr>"
    define sA where "sA = s\<lparr>sim_stats := st\<rparr>"
    have src: "port_peer_node (fab_ports (sim_fabric s) ! p) = fs_src (sim_specs s ! i)"
      using home shape(1) A(4) True by (simp add: dest_host_def ev_packet_def i_def Let_def)
    have run: "on_arrive select e s = on_ack (ev_flow e) (ev_packet_index e) sA"
      using pre host spec True src
      by (simp add: on_arrive_def p_def[symmetric] i_def[symmetric] sA_def st_def fabric_simps Let_def)
    have cA: "carried sA = carried s" by (simp add: carried_def sA_def)
    have unA: "unaccounted kd sA = 0" for kd
      using un[of kd] cA True
      by (cases kd) (auto simp: unaccounted_def packet_bytes_def ev_packet_def sA_def st_def ledger_eqs algebra_simps)
    have "sender_op (ev_flow e) s0 sA (on_ack (ev_flow e) (ev_packet_index e) sA)"
      by (rule on_ack_op[OF inv popped_stats[OF pop, of st, folded sA_def] ty True unA])
    moreover have "quiet s sA" using quiet_stats[of st s] by (simp add: sA_def st_def)
    ultimately show ?thesis
      unfolding arrival_op_def run by (intro disjI2 exI[of _ st] conjI) (simp_all add: sA_def True)
  next
    case False
    then have kind: "ev_kind e = Data" using kind_cases by blast
    have dst: "port_peer_node (fab_ports (sim_fabric s) ! p) = fs_dst (sim_specs s ! i)"
      using home shape(2) A(4) False by (simp add: dest_host_def ev_packet_def i_def Let_def)
    have run: "on_arrive select e s = on_data_arrival (ev_flow e) (ev_packet_index e) (ev_bytes e) s"
      using pre host spec False dst
      by (simp add: on_arrive_def p_def[symmetric] i_def[symmetric] fabric_simps Let_def)
    have "at_home e s" using kind A(1) home by (simp add: at_home_def p_def)
    then show ?thesis using on_data_arrival_step[OF inv pop ty kind un] run by (auto simp: arrival_op_def)
  qed
qed

section \<open>One turn of the loop\<close>

lemma handle_event_step:
  assumes inv: "sim_inv s0" and pop: "popped e s0 s" and pol: "routing_policy select"
    and un: "\<And>kd. unaccounted kd s = (if ev_type e = Arrive then packet_bytes (ev_packet e) kd else 0)"
  shows "\<exists>s'. handle_event select e s = Some s' \<and> handled s0 s s'"
proof (cases "ev_type e")
  case Inject
  then show ?thesis using sender_op_handled[OF on_inject_op[OF inv pop]] un by (simp add: handle_event_def)
next
  case TxComplete
  then show ?thesis using on_tx_complete_step[OF inv pop] un by (simp add: handle_event_def)
next
  case Arrive
  then show ?thesis using arrival_op_handled[OF on_arrive_op[OF inv pop _ _ pol]] un by (simp add: handle_event_def)
next
  case Timeout
  then show ?thesis using sender_op_handled[OF on_timeout_op[OF inv pop]] un by (simp add: handle_event_def)
qed

definition stepped :: "sim \<Rightarrow> sim \<Rightarrow> bool" where
  "stepped s s' \<longleftrightarrow> sim_inv s' \<and> fixed s' = fixed s \<and> periods s' = periods s \<and> sim_now s \<le> sim_now s'
     \<and> rs_events_processed (sim_stats s') = rs_events_processed (sim_stats s) + 1
     \<and> Suc (potential s') \<le> potential s"

text \<open>The event of a turn has been popped and not yet handled.\<close>

definition turn :: "event \<Rightarrow> sim \<Rightarrow> sim \<Rightarrow> bool" where
  "turn e s s1 \<longleftrightarrow> popped e s s1 \<and> rs_events_processed (sim_stats s1) = rs_events_processed (sim_stats s) + 1
     \<and> (\<forall>y \<in># events s1. ev_time e \<le> ev_time y)
     \<and> (\<forall>kd. unaccounted kd s1 = (if ev_type e = Arrive then packet_bytes (ev_packet e) kd else 0))"

lemma run_step_turn:
  assumes inv: "sim_inv s" and ne: "\<not> eq_empty (sim_queue s)" and H: "run_timed s H"
  shows "\<exists>e s1. run_step select s = handle_event select e s1 \<and> turn e s s1 \<and> unat (ev_time e) \<le> H"
proof -
  note I = run_invD[OF inv]
  have q: "eq_inv (sim_queue s)" using I(4) by (simp add: net_inv_def)
  obtain e Q where e: "eq_pop (sim_queue s) = Some (e, Q)" "eq_inv Q" "events s = add_mset e (eq_events Q)"
    "\<forall>y \<in># eq_events Q. event_key e \<le> event_key y"
    using evq.pop_some[OF q] ne by (auto simp: eq_empty_iff)
  have t: "sim_now s \<le> ev_time e" "unat (ev_time e) \<le> H" using H e(3) by (auto simp: run_timed_def timed_def)
  define s1 where "s1 = s\<lparr>sim_queue := Q, sim_now := ev_time e,
    sim_stats := (sim_stats s)\<lparr>rs_events_processed := rs_events_processed (sim_stats s) + 1\<rparr>\<rparr>"
  have pop: "popped e s s1" using e t(1) by (auto simp: popped_def s1_def)
  note V = popped_events[OF pop]
  have "unaccounted kd s1 = (if ev_type e = Arrive then packet_bytes (ev_packet e) kd else 0)" for kd
  proof -
    have "bytes_in kd (carried s) = (if ev_type e = Arrive then packet_bytes (ev_packet e) kd else 0) + bytes_in kd (carried s1)"
      using V(5) by (simp add: packet_bytes_def)
    then show ?thesis
      using I(10)[of kd] by (simp add: unaccounted_def s1_def ledger_eqs) (auto simp: algebra_simps)
  qed
  moreover have "ev_time e \<le> ev_time y" if "y \<in># eq_events Q" for y
    using e(4) that by (auto simp: event_key_def less_eq_prod_def)
  ultimately have "turn e s s1" using pop by (simp add: turn_def s1_def)
  moreover have "run_step select s = handle_event select e s1"
    using e(1) t(1) by (simp add: run_step_def s1_def fabric_simps)
  ultimately show ?thesis using t(2) by blast
qed

lemma run_step_ok:
  assumes inv: "sim_inv s" and pol: "routing_policy select" and ne: "\<not> eq_empty (sim_queue s)"
    and D: "run_delays s D" and H: "run_timed s H"
  shows "\<exists>s'. run_step select s = Some s' \<and> stepped s s' \<and> (H + D < 2 ^ 64 \<longrightarrow> run_timed s' (H + D))"
proof -
  obtain e s1 where run: "run_step select s = handle_event select e s1" and tn: "turn e s s1" "unat (ev_time e) \<le> H"
    using run_step_turn[OF inv ne H] by blast
  have pop: "popped e s s1" and un: "\<And>kd. unaccounted kd s1 = (if ev_type e = Arrive then packet_bytes (ev_packet e) kd else 0)"
    and ev: "rs_events_processed (sim_stats s1) = rs_events_processed (sim_stats s) + 1"
    and late: "\<And>y. y \<in># events s1 \<Longrightarrow> ev_time e \<le> ev_time y"
    using tn(1) by (auto simp: turn_def)
  note P = poppedD[OF pop]
  obtain s' where s': "handle_event select e s1 = Some s'" "sim_inv s'" "quiet s1 s'" "Suc (potential s') \<le> potential s"
    using handle_event_step[OF inv pop pol un] by (auto simp: handled_def)
  have "stepped s s'"
    using s'(2-4) P(1,2,15) ev unfolding stepped_def quiet_def by simp
  moreover have "run_timed s' (H + D)" if room: "H + D < 2 ^ 64"
  proof -
    have "timed s1 (H + D)"
      using H late P(13,14) by (auto simp: timed_def run_timed_def trans_le_add1)
    then have "run_timed s1 (H + D)" using H by (auto simp: run_timed_def P(3) trans_le_add1)
    then show ?thesis
      using keeps_timeD[of s1 s' D "H + D"] s'(3) run_delays_cong[OF P(1,2), of D] D tn(2) room P(14)
      by (simp add: quiet_def)
  qed
  ultimately show ?thesis using run s'(1) by simp
qed

text \<open>The potential is a bound on the number of events still to be processed.\<close>

definition ran :: "sim \<Rightarrow> sim \<Rightarrow> bool" where
  "ran s s' \<longleftrightarrow> sim_inv s' \<and> eq_empty (sim_queue s') \<and> fixed s' = fixed s \<and> periods s' = periods s
     \<and> sim_now s \<le> sim_now s'
     \<and> (\<exists>n \<le> potential s. rs_events_processed (sim_stats s') = rs_events_processed (sim_stats s) + of_nat n)"

lemma run_loop_ok:
  assumes "sim_inv s" "routing_policy select" "run_delays s D" "run_timed s H" "H + potential s * D < 2 ^ 64"
  shows "\<exists>s'. run_loop select s = Some s' \<and> ran s s'"
  using assms(1,3-5)
proof (induction "potential s" arbitrary: s H rule: less_induct)
  case less
  show ?case
  proof (cases "eq_empty (sim_queue s)")
    case True
    then have "run_loop select s = Some s" by (simp add: run_loop.simps)
    moreover have "ran s s" using less.prems True by (auto simp: ran_def intro!: exI[of _ 0])
    ultimately show ?thesis by blast
  next
    case False
    have ge: "potential s \<noteq> 0"
    proof
      assume z: "potential s = 0"
      show False
        using run_step_ok[OF less.prems(1) assms(2) False less.prems(2,3)] z by (auto simp: stepped_def)
    qed
    then obtain m where m: "potential s = Suc m" by (cases "potential s") auto
    have "H + D < 2 ^ 64" using less.prems(4) m by simp
    then obtain s1 where s1: "run_step select s = Some s1" "stepped s s1" "run_timed s1 (H + D)"
      using run_step_ok[OF less.prems(1) assms(2) False less.prems(2,3)] by blast
    note st = s1(2)[unfolded stepped_def]
    have "(H + D) + potential s1 * D < 2 ^ 64"
    proof -
      have "potential s1 * D \<le> m * D" using st m by (intro mult_le_mono1) simp
      moreover have "H + (D + m * D) < 2 ^ 64" using less.prems(4) m by simp
      ultimately show ?thesis by linarith
    qed
    then obtain s' where s': "run_loop select s1 = Some s'" "ran s1 s'"
      using less.hyps[of s1 "H + D"] st run_delays_cong[of s1 s D] less.prems(2) s1(3) by auto
    have "run_loop select s = Some s'" using False s1(1) s'(1) by (subst run_loop.simps) simp
    moreover have "ran s s'"
    proof -
      obtain n where n: "n \<le> potential s1" "rs_events_processed (sim_stats s') = rs_events_processed (sim_stats s1) + of_nat n"
        using s'(2) by (auto simp: ran_def)
      then have "rs_events_processed (sim_stats s') = rs_events_processed (sim_stats s) + of_nat (Suc n)" "Suc n \<le> potential s"
        using st by (simp_all add: algebra_simps)
      then show ?thesis using s'(2) st unfolding ran_def by (auto intro: order_trans)
    qed
    ultimately show ?thesis by blast
  qed
qed

section \<open>When the queue has drained\<close>

lemma drained_carried:
  assumes inv: "sim_inv s" and e: "eq_empty (sim_queue s)"
  shows "carried s = {#}" "events s = {#}"
proof -
  show E: "events s = {#}" using e by (simp add: eq_empty_iff)
  have po: "ports_ok (sim_fabric s) {#}" using run_invD(4)[OF inv] E by (simp add: net_inv_def)
  have "port_load i (fab_ports (sim_fabric s) ! i) = {#}" if "i < port_count (sim_fabric s)" for i
    using ports_okD[OF po that] by (simp add: port_load_def)
  then show "carried s = {#}" by (simp add: carried_def fabric_load_def E)
qed

lemma drained_conserved:
  assumes "sim_inv s" "eq_empty (sim_queue s)"
  shows "injected kd (sim_stats s) = delivered kd (sim_stats s) + dropped kd (sim_stats s)"
  using run_invD(10)[OF assms(1), of kd] drained_carried(1)[OF assms]
  by (simp add: unaccounted_def algebra_simps)

lemma drained_flow:
  assumes inv: "sim_inv s" and e: "eq_empty (sim_queue s)" and i: "i < nflows s"
  shows "res_complete (sim_results s ! i) \<or> res_failed (sim_results s ! i) \<or> waiting s i"
proof (rule ccontr)
  assume n: "\<not> (res_complete (sim_results s ! i) \<or> res_failed (sim_results s ! i) \<or> waiting s i)"
  note I = run_invD[OF inv] and F = flow_invD[OF run_invD(5)[OF inv i]]
  have E: "events s = {#}" using drained_carried[OF inv e] by simp
  have T: "flow_timers s i = {#}" "flow_injects s i = {#}" by (simp_all add: flow_timers_def flow_injects_def E)
  have nf: "\<not> tx_failed (sim_tx s ! i)" using F(3) n by (simp add: clock_ok_def Let_def)
  define tx where "tx = sim_tx s ! i"
  have so: "sender_ok (max_tries s) tx (pst s i) (att s i) (retx s i) {#}"
    using F(1) T by (simp add: sender_at_def tx_def)
  note D = sender_okD[OF so]
  have b2: "\<not> bit (pst s i idx) 2" for idx
    using D(6)[of idx] D(9)[of idx] D(13)[of idx] nf by (cases "idx < tx_next_seq tx") (auto simp: tx_def not_less)
  have tot: "tx_packets_total tx = tots s ! i" "res_packets_total (sim_results s ! i) = tots s ! i"
    and w: "tx_window tx = wins s ! i"
    using setup_okD(16-18)[OF I(1) i] by (simp_all add: tx_def)
  have "unat (tx_in_flight tx) = 0" using D(3) b2 by simp
  then have "tx_in_flight tx \<noteq> tx_window tx"
    using window_bound(2)[OF I(1) i] w by auto
  then have fin: "retx s i = []" "tx_next_seq tx = tots s ! i"
    using I(6)[OF i] n nf T tot by (auto simp: sender_idle_def tx_def)
  have acked: "bit (pst s i idx) 1" if "idx < tots s ! i" for idx
    using D(12)[of idx] nf that fin b2 by (auto simp: tx_def)
  have "{idx. bit (pst s i idx) 0} = {idx. idx < tots s ! i}"
    using F(2) acked by (auto simp: receiver_ok_def pst_def split: if_splits)
  then have "unat (res_packets_delivered (sim_results s ! i)) = unat (tots s ! i)"
    using F(2) card_word_less[of "tots s ! i"] by (simp add: receiver_ok_def)
  then show False using F(2) n tot by (simp add: receiver_ok_def word_unat_eq_iff)
qed

section \<open>The bytes of a complete flow\<close>

lemma payload_last:
  assumes m: "0 < fs_mtu_bytes spec" and i: "unat idx < packets_of spec"
    and n: "packets_of spec < 2 ^ 32"
  shows "unat (payload spec idx) = min (unat (fs_mtu_bytes spec)) (unat (fs_size_bytes spec) - unat idx * unat (fs_mtu_bytes spec))"
    "unat idx * unat (fs_mtu_bytes spec) < unat (fs_size_bytes spec)"
proof -
  define mtu where "mtu = unat (fs_mtu_bytes spec)"
  define sz where "sz = unat (fs_size_bytes spec)"
  have mtu: "0 < mtu" "mtu < 2 ^ 16" using m unat_lt16[of "fs_mtu_bytes spec"]
    by (simp_all add: mtu_def word_less_nat_alt)
  have "\<not> ceil_div sz mtu \<le> unat idx" using i by (simp add: packets_of_def sz_def mtu_def)
  then show lt: "unat idx * unat (fs_mtu_bytes spec) < unat (fs_size_bytes spec)"
    using ceil_div_le_iff[OF mtu(1), of sz "unat idx"] by (simp add: sz_def mtu_def)
  let ?m = "ucast (fs_mtu_bytes spec) :: u64" and ?i = "ucast idx :: u64"
  have um: "unat ?m = mtu" "unat ?i = unat idx" by (simp_all add: mtu_def unat_ucast_up_eq)
  have "unat idx * mtu < 2 ^ 64"
    using lt unat_lt64[of "fs_size_bytes spec"] by (simp add: mtu_def)
  then have off: "unat (?i * ?m) = unat idx * mtu" using um by (subst unat_mult_small) simp_all
  have "?i * ?m \<le> fs_size_bytes spec" using lt off by (simp add: word_le_nat_alt mtu_def)
  then have rem: "unat (fs_size_bytes spec - ?i * ?m) = sz - unat idx * mtu"
    using off by (simp add: unat_sub_small sz_def)
  define v where "v = (if fs_size_bytes spec - ?i * ?m < ?m then fs_size_bytes spec - ?i * ?m else ?m)"
  have v: "unat v = min mtu (sz - unat idx * mtu)" using rem um by (auto simp: v_def word_less_nat_alt)
  have "unat (ucast v :: u16) = unat v"
    using v mtu by (simp add: unsigned_ucast_eq take_bit_nat_eq_self)
  moreover have "payload spec idx = ucast v" by (simp add: payload_def v_def Let_def)
  ultimately show "unat (payload spec idx) = min (unat (fs_mtu_bytes spec)) (unat (fs_size_bytes spec) - unat idx * unat (fs_mtu_bytes spec))"
    using v by (simp add: mtu_def sz_def)
qed

lemma chunk_sum: "(\<Sum>k<m. min c (n - k * c)) = min (m * c) (n :: nat)"
  by (induction m) (auto simp: min_def algebra_simps)

lemma sum_words: "(\<Sum>idx | idx < (t :: u32). f (unat idx)) = (\<Sum>k<unat t. f k)"
proof (rule sum.reindex_bij_betw[symmetric, THEN sym])
  show "bij_betw unat {idx. idx < t} {..<unat t}"
    unfolding bij_betw_def
  proof
    show inj: "inj_on unat {idx. idx < t}" by (simp add: inj_on_def word_unat_eq_iff)
    have "unat ` {idx. idx < t} \<subseteq> {..<unat t}" by (auto simp: word_less_nat_alt)
    moreover have "card (unat ` {idx. idx < t}) = card {..<unat t}"
      using card_image[OF inj] card_word_less[of t] by simp
    ultimately show "unat ` {idx. idx < t} = {..<unat t}" by (simp add: card_subset_eq)
  qed
qed

lemma payload_total:
  assumes m: "0 < fs_mtu_bytes spec" and t: "unat (t :: u32) = packets_of spec"
  shows "(\<Sum>idx | idx < t. ucast (payload spec idx)) = fs_size_bytes spec"
proof -
  define mtu where "mtu = unat (fs_mtu_bytes spec)"
  define sz where "sz = unat (fs_size_bytes spec)"
  have n: "packets_of spec < 2 ^ 32" using t unat_lt32[of t] by simp
  have mtu: "0 < mtu" using m by (simp add: mtu_def word_less_nat_alt)
  have "(\<Sum>idx | idx < t. ucast (payload spec idx) :: u64)
      = (\<Sum>idx | idx < t. of_nat (min mtu (sz - unat idx * mtu)))"
  proof (rule sum.cong)
    fix idx assume "idx \<in> {idx. idx < t}"
    then have "unat idx < packets_of spec" using t by (simp add: word_less_nat_alt)
    then have "unat (payload spec idx) = min mtu (sz - unat idx * mtu)"
      using payload_last(1)[OF m _ n] by (simp add: mtu_def sz_def)
    moreover have "(ucast (payload spec idx) :: u64) = of_nat (unat (payload spec idx))"
      by (simp add: word_unat_eq_iff unat_ucast_up_eq unat_of_nat_small less_trans[OF unat_lt16])
    ultimately show "(ucast (payload spec idx) :: u64) = of_nat (min mtu (sz - unat idx * mtu))" by simp
  qed simp
  also have "\<dots> = (\<Sum>k<unat t. of_nat (min mtu (sz - k * mtu)))"
    by (rule sum_words[of "\<lambda>k. of_nat (min mtu (sz - k * mtu))"])
  also have "\<dots> = of_nat (min (unat t * mtu) sz)" by (simp add: chunk_sum flip: of_nat_sum)
  also have "min (unat t * mtu) sz = sz"
    using ceil_div_le_iff[OF mtu, of sz "unat t"] t by (simp add: packets_of_def sz_def mtu_def)
  finally show ?thesis by (simp add: sz_def)
qed

lemma complete_bytes:
  assumes inv: "sim_inv s" and i: "i < nflows s" and c: "res_complete (sim_results s ! i)"
  shows "res_delivered_bytes (sim_results s ! i) = fs_size_bytes (sim_specs s ! i)"
    "res_packets_delivered (sim_results s ! i) = res_packets_total (sim_results s ! i)"
proof -
  note I = run_invD[OF inv] and F = flow_invD[OF run_invD(5)[OF inv i]]
  note rec = F(2)[unfolded receiver_ok_def] and shape = setup_okD(15)[OF I(1) i]
  have tot: "res_packets_total (sim_results s ! i) = tots s ! i" using setup_okD(16)[OF I(1) i] .
  show "res_packets_delivered (sim_results s ! i) = res_packets_total (sim_results s ! i)" using rec c by simp
  then have "card {idx. bit (pst s i idx) 0} = card {idx. idx < tots s ! i}"
    using rec tot card_word_less[of "tots s ! i"] by simp
  moreover have "{idx. bit (pst s i idx) 0} \<subseteq> {idx. idx < tots s ! i}" by (auto simp: pst_def split: if_splits)
  ultimately have "{idx. bit (pst s i idx) 0} = {idx. idx < tots s ! i}"
    by (intro card_subset_eq) simp_all
  then show "res_delivered_bytes (sim_results s ! i) = fs_size_bytes (sim_specs s ! i)"
    using rec payload_total[of "sim_specs s ! i" "tots s ! i"] shape by (simp add: flow_shape_def)
qed

end
