(* ===== verification/Sim_Dependents.thy ===== *)
theory Sim_Dependents
  imports Sim_Invariant
begin

text \<open>
  \<open>build_dependents\<close> is a counting sort: the flows that wait for flow \<open>i\<close> end up, each
  exactly once, in the run of \<open>dependents_\<close> between the offsets \<open>i\<close> and \<open>i + 1\<close>.
\<close>

definition waiters :: "FlowSpec list \<Rightarrow> nat \<Rightarrow> nat list" where
  "waiters specs i = filter (\<lambda>k. id_valid (fs_depends_on (specs ! k))) [0..<i]"

definition waiter_keys :: "FlowSpec list \<Rightarrow> nat \<Rightarrow> nat list" where
  "waiter_keys specs i = map (\<lambda>k. id_index (fs_depends_on (specs ! k))) (waiters specs i)"

definition depends_earlier :: "FlowSpec list \<Rightarrow> bool" where
  "depends_earlier specs \<longleftrightarrow> (\<forall>i < length specs. id_valid (fs_depends_on (specs ! i)) \<longrightarrow>
     id_index (fs_depends_on (specs ! i)) < i)"

lemma waiters_Suc:
  "waiters specs (Suc i) = (if id_valid (fs_depends_on (specs ! i)) then waiters specs i @ [i] else waiters specs i)"
  by (simp add: waiters_def)

lemma waiter_keys_Suc:
  "waiter_keys specs (Suc i) = (if id_valid (fs_depends_on (specs ! i))
     then waiter_keys specs i @ [id_index (fs_depends_on (specs ! i))] else waiter_keys specs i)"
  by (simp add: waiter_keys_def waiters_Suc)

lemma length_waiter_keys [simp]: "length (waiter_keys specs i) = length (waiters specs i)"
  by (simp add: waiter_keys_def)

lemma waiters_prefix:
  assumes "i \<le> n"
  shows "take (length (waiters specs i)) (waiters specs n) = waiters specs i"
proof -
  have "[0..<n] = [0..<i] @ [i..<n]" using assms by (metis le0 upt_add_eq_append le_add_diff_inverse)
  then show ?thesis by (simp add: waiters_def)
qed

lemma waiter_keys_prefix:
  "i \<le> n \<Longrightarrow> take (length (waiters specs i)) (waiter_keys specs n) = waiter_keys specs i"
  using waiters_prefix[of i n specs] by (simp add: waiter_keys_def take_map)

lemma waiters_bound: "length (waiters specs i) \<le> i"
  using length_filter_le[of _ "[0..<i]"] by (simp add: waiters_def)

lemma waiters_strict:
  assumes "i < n" "id_valid (fs_depends_on (specs ! i))"
  shows "length (waiters specs i) < length (waiters specs n)" "waiters specs n ! length (waiters specs i) = i"
    "waiter_keys specs n ! length (waiters specs i) = id_index (fs_depends_on (specs ! i))"
proof -
  have p: "take (length (waiters specs (Suc i))) (waiters specs n) = waiters specs i @ [i]"
    using waiters_prefix[of "Suc i" n specs] assms by (simp add: waiters_Suc)
  have l: "length (waiters specs (Suc i)) = Suc (length (waiters specs i))" using assms by (simp add: waiters_Suc)
  show lt: "length (waiters specs i) < length (waiters specs n)"
    using arg_cong[OF p, of length] l by simp
  show nth: "waiters specs n ! length (waiters specs i) = i"
    using arg_cong[OF p, of "\<lambda>xs. xs ! length (waiters specs i)"] l by (simp add: nth_append)
  show "waiter_keys specs n ! length (waiters specs i) = id_index (fs_depends_on (specs ! i))"
    using nth lt by (simp add: waiter_keys_def)
qed

section \<open>The three passes\<close>

lemma count_pass:
  assumes dep: "depends_earlier specs"
  shows "\<exists>off. fold_opt count_dependent specs (replicate (length specs + 1) 0) = Some off
    \<and> length off = Suc (length specs) \<and> off ! 0 = 0
    \<and> (\<forall>k < length specs. off ! Suc k = of_nat (count_list (waiter_keys specs (length specs)) k))"
proof -
  let ?P = "\<lambda>i off. length off = Suc (length specs) \<and> off ! 0 = (0 :: u32)
    \<and> (\<forall>k < length specs. off ! Suc k = of_nat (count_list (waiter_keys specs i) k))"
  show ?thesis
  proof (rule fold_opt_invariant[where P = ?P])
    show "?P 0 (replicate (length specs + 1) 0)"
      by (simp add: waiter_keys_def waiters_def del: replicate_Suc)
  next
    fix i off assume i: "i < length specs" and P: "?P i off"
    show "\<exists>off'. count_dependent (specs ! i) off = Some off' \<and> ?P (Suc i) off'"
    proof (cases "id_valid (fs_depends_on (specs ! i))")
      case True
      then have "id_index (fs_depends_on (specs ! i)) < length specs" using dep i by (auto simp: depends_earlier_def)
      then show ?thesis
        using True P by (auto simp: count_dependent_def fabric_simps waiter_keys_Suc nth_list_update add.commute)
    qed (use P in \<open>simp add: count_dependent_def waiter_keys_Suc\<close>)
  qed
qed

lemma offset_pass:
  assumes off: "length off = Suc n" "off ! 0 = (0 :: u32)" "\<forall>k < n. off ! Suc k = of_nat (count_list ks k)"
  shows "\<exists>off'. fold_opt accumulate_offset [0..<n] off = Some off' \<and> length off' = Suc n
    \<and> (\<forall>k \<le> n. off' ! k = of_nat (first_slot ks k))"
proof -
  let ?Q = "\<lambda>i off. length off = Suc n \<and> (\<forall>k \<le> i. off ! k = (of_nat (first_slot ks k) :: u32))
    \<and> (\<forall>k. i \<le> k \<and> k < n \<longrightarrow> off ! Suc k = of_nat (count_list ks k))"
  have "\<exists>off'. fold_opt accumulate_offset [0..<n] off = Some off' \<and> ?Q (length [0..<n]) off'"
  proof (rule fold_opt_invariant[where P = ?Q])
    show "?Q 0 off" using off by simp
  next
    fix i o1 assume i: "i < length [0..<n]" and Q: "?Q i o1"
    have "accumulate_offset ([0..<n] ! i) o1 = Some (o1[Suc i := of_nat (first_slot ks (Suc i))])"
      using i Q by (simp add: accumulate_offset_def fabric_simps first_slot_Suc add.commute)
    moreover have "?Q (Suc i) (o1[Suc i := of_nat (first_slot ks (Suc i))])"
      using i Q by (auto simp: nth_list_update le_Suc_eq)
    ultimately show "\<exists>off'. accumulate_offset ([0..<n] ! i) o1 = Some off' \<and> ?Q (Suc i) off'" by blast
  qed
  then show ?thesis by auto
qed

lemma place_pass:
  assumes dep: "depends_earlier specs" and n: "length specs < 2 ^ 32"
  defines "ks \<equiv> waiter_keys specs (length specs)"
  assumes cur: "length cursor = length specs" "\<forall>k < length specs. cursor ! k = of_nat (first_slot ks k)"
    and d0: "length deps0 = length ks"
  shows "\<exists>deps cursor'. fold_opt (place_dependent specs) [0..<length specs] (deps0, cursor) = Some (deps, cursor')
    \<and> length deps = length ks \<and> (\<forall>j < length ks. deps ! slot ks j = id_at (waiters specs (length specs) ! j))"
proof -
  let ?n = "length specs"
  let ?R = "\<lambda>i st. length (fst st) = length ks \<and> length (snd st) = ?n
    \<and> (\<forall>k < ?n. snd st ! k = (of_nat (first_slot ks k + count_list (waiter_keys specs i) k) :: u32))
    \<and> (\<forall>j < length (waiters specs i). fst st ! slot ks j = (id_at (waiters specs ?n ! j) :: flow_id))"
  have "\<exists>st. fold_opt (place_dependent specs) [0..<?n] (deps0, cursor) = Some st \<and> ?R (length [0..<?n]) st"
  proof (rule fold_opt_invariant[where P = ?R])
    show "?R 0 (deps0, cursor)" using cur d0 by (simp add: waiter_keys_def waiters_def)
  next
    fix i st assume i: "i < length [0..<?n]" and R: "?R i st"
    then have i: "i < ?n" by simp
    obtain deps c where st: "st = (deps, c)" by (cases st)
    show "\<exists>st'. place_dependent specs ([0..<?n] ! i) st = Some st' \<and> ?R (Suc i) st'"
    proof (cases "id_valid (fs_depends_on (specs ! i))")
      case False
      then show ?thesis
        using i R st by (simp add: place_dependent_def fabric_simps waiter_keys_Suc waiters_Suc)
    next
      case True
      define d where "d = id_index (fs_depends_on (specs ! i))"
      define j where "j = length (waiters specs i)"
      have dn: "d < ?n" using dep True i by (auto simp: depends_earlier_def d_def)
      note w = waiters_strict[OF i True, folded j_def d_def]
      have j: "j < length ks" "ks ! j = d" using w by (simp_all add: ks_def)
      have sl: "slot ks j = first_slot ks d + count_list (waiter_keys specs i) d"
        using waiter_keys_prefix[of i ?n specs] i j(2) by (simp add: slot_def j_def ks_def)
      have "slot ks j < 2 ^ 32"
        using slot_less[OF j(1)] waiters_bound[of specs ?n] n by (simp add: ks_def)
      then have u: "unat (c ! d) = slot ks j"
        using R dn st sl by (simp add: unat_of_nat_small del: of_nat_add)
      have run: "place_dependent specs ([0..<?n] ! i) st = Some (deps[slot ks j := id_at i], c[d := c ! d + 1])"
        using i True R st dn u slot_less[OF j(1)]
        by (simp add: place_dependent_def fabric_simps d_def[symmetric])
      have "deps[slot ks j := id_at i] ! slot ks m = id_at (waiters specs ?n ! m)"
        if m: "m < length (waiters specs (Suc i))" for m
      proof (cases "m = j")
        case True
        then show ?thesis using slot_less[OF j(1)] R st w(2) by simp
      next
        case False
        then have "m < j" using m True by (simp add: waiters_Suc \<open>id_valid _\<close> j_def)
        then have "slot ks m \<noteq> slot ks j" using slot_inj[of m ks j] j(1) by auto
        then show ?thesis using R st \<open>m < j\<close> by (simp add: j_def)
      qed
      moreover have "c[d := c ! d + 1] ! k = of_nat (first_slot ks k + count_list (waiter_keys specs (Suc i)) k)"
        if "k < ?n" for k
        using R st that True by (auto simp: waiter_keys_Suc nth_list_update d_def[symmetric] add.commute)
      ultimately show ?thesis using run R st by simp
    qed
  qed
  then show ?thesis using d0 by (auto simp: ks_def)
qed

lemma build_dependents_ok:
  assumes dep: "depends_earlier (sim_specs s)" and n: "nflows s < 2 ^ 32"
  shows "\<exists>off deps. build_dependents s = Some (s\<lparr>sim_dependents_offset := off, sim_dependents := deps\<rparr>)
    \<and> dependents_ok (s\<lparr>sim_dependents_offset := off, sim_dependents := deps\<rparr>)"
proof -
  define specs where "specs = sim_specs s"
  define n where "n = length specs"
  define ks where "ks = waiter_keys specs n"
  define ws where "ws = waiters specs n"
  have dep: "depends_earlier specs" and n32: "n < 2 ^ 32" using assms by (simp_all add: specs_def n_def)
  have lk: "length ks = length ws" "length ks < 2 ^ 32"
    using waiters_bound[of specs n] n32 by (simp_all add: ks_def ws_def)
  obtain o1 where o1: "fold_opt count_dependent specs (replicate (n + 1) 0) = Some o1" "length o1 = Suc n"
    "o1 ! 0 = 0" "\<forall>k < n. o1 ! Suc k = of_nat (count_list ks k)"
    using count_pass[OF dep] by (auto simp: n_def ks_def)
  obtain off where off: "fold_opt accumulate_offset [0..<n] o1 = Some off" "length off = Suc n"
    "\<forall>k \<le> n. off ! k = of_nat (first_slot ks k)"
    using offset_pass[OF o1(2-4)] by blast
  have uo: "unat (off ! k) = first_slot ks k" if "k \<le> n" for k
    using off(3) that first_slot_le[of ks k] lk(2) by (simp add: unat_of_nat_small)
  have kb: "\<forall>x \<in> set ks. x < n"
    using dep by (auto simp: ks_def waiter_keys_def waiters_def depends_earlier_def n_def intro: less_trans)
  have tot: "unat (off ! n) = length ks" using uo[of n] first_slot_all[OF kb] by simp
  obtain deps c where pl: "fold_opt (place_dependent specs) [0..<n]
      (replicate (unat (off ! n)) id_invalid, butlast off) = Some (deps, c)"
    "length deps = length ks" "\<forall>j < length ks. deps ! slot ks j = id_at (ws ! j)"
    using place_pass[OF dep, of "butlast off" "replicate (unat (off ! n)) id_invalid"] off n32 tot
    by (auto simp: n_def ks_def ws_def nth_butlast)
  let ?s = "s\<lparr>sim_dependents_offset := off, sim_dependents := deps\<rparr>"
  have "build_dependents s = Some ?s"
    using o1(1) off(1,2) pl(1) by (simp add: build_dependents_def fabric_simps flip: specs_def n_def)
  moreover have "dependents_ok ?s"
    unfolding dependents_ok_def
  proof (intro conjI allI impI)
    show "length (sim_dependents_offset ?s) = Suc (nflows ?s)" using off(2) by (simp add: n_def specs_def)
  next
    fix i assume i0: "i < nflows ?s"
    then have i: "i < n" by (simp add: n_def specs_def)
    have de: "dependents_of ?s i = map ((!) deps) [first_slot ks i..<first_slot ks (Suc i)]"
      using uo[of i] uo[of "Suc i"] i by (simp add: dependents_of_def Let_def)
    have len: "first_slot ks (Suc i) \<le> length ks" by (rule first_slot_le)
    show "unat (sim_dependents_offset ?s ! Suc i) \<le> length (sim_dependents ?s)"
      using uo[of "Suc i"] i pl(2) len by simp
    have at: "\<exists>j < length ks. p = slot ks j \<and> ks ! j = i \<and> deps ! p = id_at (ws ! j)"
      if p: "first_slot ks i \<le> p" "p < first_slot ks (Suc i)" for p
    proof -
      obtain j where j: "j < length ks" "slot ks j = p" using slot_surj[of p ks] p(2) len by (meson less_le_trans)
      then show ?thesis using slot_key_unique[OF j(1), of i] p pl(3) by auto
    qed
    have wsj: "ws ! j < n" "id_valid (fs_depends_on (specs ! (ws ! j)))"
      "ks ! j = id_index (fs_depends_on (specs ! (ws ! j)))" if "j < length ks" for j
      using that nth_mem[of j ws] lk(1) by (auto simp: ws_def waiters_def ks_def waiter_keys_def)
    have idx: "id_index (id_at (ws ! j) :: flow_id) = ws ! j" if "j < length ks" for j
      using wsj(1)[OF that] n32 by simp
    have dws: "distinct ws" by (simp add: ws_def waiters_def)
    show "distinct (dependents_of ?s i)"
      unfolding de distinct_map
    proof
      show "inj_on ((!) deps) (set [first_slot ks i..<first_slot ks (Suc i)])"
      proof (rule inj_onI)
        fix p q assume pq: "p \<in> set [first_slot ks i..<first_slot ks (Suc i)]"
          "q \<in> set [first_slot ks i..<first_slot ks (Suc i)]" "deps ! p = deps ! q"
        then obtain j m where jm: "j < length ks" "p = slot ks j" "deps ! p = id_at (ws ! j)"
          "m < length ks" "q = slot ks m" "deps ! q = id_at (ws ! m)"
          using at[of p] at[of q] by auto
        then have "ws ! j = ws ! m" using idx[of j] idx[of m] pq(3) by metis
        then have "j = m" using dws jm(1,4) lk(1) by (simp add: nth_eq_iff_index_eq)
        then show "p = q" using jm by simp
      qed
    qed simp
    show "id_index ` set (dependents_of ?s i) = {d. d < nflows ?s \<and> id_valid (fs_depends_on (sim_specs ?s ! d))
        \<and> id_index (fs_depends_on (sim_specs ?s ! d)) = i}" (is "?L = ?R")
    proof (intro equalityI subsetI)
      fix d assume "d \<in> ?L"
      then obtain p where p: "first_slot ks i \<le> p" "p < first_slot ks (Suc i)" "d = id_index (deps ! p)"
        unfolding de by auto
      obtain j where "j < length ks" "ks ! j = i" "deps ! p = id_at (ws ! j)" using at[OF p(1,2)] by blast
      then show "d \<in> ?R" using p(3) wsj[of j] idx[of j] by (simp add: n_def specs_def)
    next
      fix d assume "d \<in> ?R"
      then have d: "d < n" "id_valid (fs_depends_on (specs ! d))" "id_index (fs_depends_on (specs ! d)) = i"
        by (simp_all add: n_def specs_def)
      define j where "j = length (waiters specs d)"
      have w: "j < length ks" "ws ! j = d" "ks ! j = i"
        using waiters_strict[OF d(1,2)] d(3) by (simp_all add: j_def ks_def ws_def)
      have "deps ! slot ks j = id_at d" using pl(3) w by simp
      moreover have "slot ks j \<in> set [first_slot ks i..<first_slot ks (Suc i)]" using slot_bounds[OF w(1)] w(3) by simp
      ultimately show "d \<in> ?L"
        unfolding de using d(1) n32 by (auto intro!: image_eqI[of _ _ "deps ! slot ks j"])
    qed
  qed
  ultimately show ?thesis by blast
qed

end
