(* ===== verification/Sim_Begin.thy ===== *)
theory Sim_Begin
  imports Sim_Run Sim_Dependents
begin

text \<open>
  \<open>begin_run\<close> brings any simulation whose flows are well formed into the invariant of the
  run, whatever an earlier run left behind, and the potential of the state it returns is
  a closed formula of the flows: the budget of the run.
\<close>

section \<open>The state a run starts from\<close>

definition transport_ok :: "sim \<Rightarrow> bool" where
  "transport_ok s \<longleftrightarrow> 0 < tc_rto_ns (sim_transport s) \<and> 0 < tc_max_attempts (sim_transport s)
     \<and> 0 < tc_ack_bytes (sim_transport s) \<and> tc_ack_bytes (sim_transport s) \<le> kMaxPacketBytes"

definition flow_period :: "sim \<Rightarrow> nat \<Rightarrow> Nanos option" where
  "flow_period s i = pacing_period (sim_specs s ! i)
     (port_rate (fab_ports (frozen s) ! id_index (frt_src_nic (sim_froutes s ! i))))"

definition blank_tx :: "sim \<Rightarrow> nat \<Rightarrow> Nanos \<Rightarrow> FlowTx" where
  "blank_tx s i p = \<lparr>tx_next_seq = 0, tx_in_flight = 0, tx_window = wins s ! i, tx_packets_total = tots s ! i,
     tx_acked_count = 0, tx_retx_head = 0, tx_retx_count = 0, tx_period_ns = p, tx_next_send_ns = 0,
     tx_send_scheduled = False, tx_failed = False\<rparr>"

definition blank_result :: "sim \<Rightarrow> nat \<Rightarrow> FlowResult" where
  "blank_result s i = \<lparr>res_start_ns = fs_start_ns (sim_specs s ! i), res_finish_ns = 0, res_delivered_bytes = 0,
     res_packets_total = tots s ! i, res_packets_delivered = 0, res_packets_dropped = 0,
     res_packets_retransmitted = 0, res_complete = False, res_failed = False\<rparr>"

definition starters :: "sim \<Rightarrow> nat \<Rightarrow> (nat \<times> Nanos) multiset" where
  "starters s i = image_mset (\<lambda>k. (k, fs_start_ns (sim_specs s ! k)))
     (mset (filter (\<lambda>k. \<not> id_valid (fs_depends_on (sim_specs s ! k))) [0..<i]))"

text \<open>Flows below \<open>i\<close> have been reset, the others are as they were.\<close>

definition reset_upto :: "sim \<Rightarrow> nat \<Rightarrow> sim \<Rightarrow> bool" where
  "reset_upto s i t \<longleftrightarrow> fixed t = fixed s \<and> sim_fabric t = frozen s \<and> sim_now t = 0 \<and> sim_stats t = zero_stats
     \<and> (\<forall>v \<in> set (sim_pkt_state t). v = 0) \<and> (\<forall>v \<in> set (sim_pkt_attempt t). v = 0) \<and> dependents_ok t
     \<and> eq_inv (sim_queue t) \<and> arrivals (events t) = {#} \<and> timers (events t) = {#} \<and> tx_pending (events t) = {#}
     \<and> injects (events t) = starters s i
     \<and> (\<forall>k < i. \<exists>p. flow_period s k = Some p \<and> sim_tx t ! k = blank_tx s k p \<and> sim_results t ! k = blank_result s k)"

lemma flow_period_Some:
  assumes "setup_ok s" "i < nflows s"
  shows "\<exists>p. flow_period s i = Some p"
proof -
  have nic: "id_index (frt_src_nic (sim_froutes s ! i)) < port_count (frozen s)"
    using nic_in_range(1)[OF assms] by simp
  have "rates_ok (frozen s)" using setup_okD(1)[OF assms(1)] by (simp add: fabric_ready_def)
  then have "port_rate (fab_ports (frozen s) ! id_index (frt_src_nic (sim_froutes s ! i))) \<noteq> 0"
    using nic by (simp add: rates_ok_def)
  moreover have "fs_load_permille (sim_specs s ! i) \<noteq> 0"
    using setup_okD(15)[OF assms] by (auto simp: flow_shape_def)
  ultimately show ?thesis
    by (simp add: flow_period_def pacing_period_def serialization_ns_def fabric_simps)
qed

lemma starters_Suc:
  "starters s (Suc i) = (if id_valid (fs_depends_on (sim_specs s ! i)) then starters s i
     else add_mset (i, fs_start_ns (sim_specs s ! i)) (starters s i))"
  by (simp add: starters_def)

lemma reset_flow_step:
  assumes ok: "setup_ok s" and i: "i < nflows s" and t: "reset_upto s i t"
  shows "\<exists>t'. reset_flow i t = Some t' \<and> reset_upto s (Suc i) t'"
proof -
  note R = t[unfolded reset_upto_def]
  have fx: "fixed t = fixed s" using R by simp
  have okt: "setup_ok t" and n: "nflows t = nflows s" using setup_ok_cong[OF fx] ok fixed_nflows[OF fx] by simp_all
  note S = setupD[OF fx]
  obtain p where p: "flow_period s i = Some p" using flow_period_Some[OF ok i] by blast
  define tx where "tx = (sim_tx t ! i)\<lparr>tx_next_seq := 0, tx_in_flight := 0, tx_acked_count := 0,
         tx_retx_head := 0, tx_retx_count := 0, tx_next_send_ns := 0, tx_send_scheduled := False,
         tx_failed := False, tx_period_ns := p\<rparr>"
  define r where "r = (sim_results t ! i)\<lparr>res_start_ns := fs_start_ns (sim_specs s ! i), res_finish_ns := 0,
         res_delivered_bytes := 0, res_packets_delivered := 0, res_packets_dropped := 0,
         res_packets_retransmitted := 0, res_complete := False, res_failed := False\<rparr>"
  have L: "i < length (sim_tx t)" "i < length (sim_results t)" using setup_okD(4,7)[OF okt] i n by simp_all
  have tx: "tx = blank_tx s i p"
    using setup_okD(17,18)[OF okt, of i] i n S(6,7) by (simp add: tx_def blank_tx_def)
  have r: "r = blank_result s i"
    using setup_okD(16)[OF okt, of i] i n S(7) by (simp add: r_def blank_result_def)
  define t1 where "t1 = t\<lparr>sim_tx := (sim_tx t)[i := tx], sim_results := (sim_results t)[i := r]\<rparr>"
  define t' where "t' = (if \<not> id_valid (fs_depends_on (sim_specs s ! i))
     then push_event (ev_inject (fs_start_ns (sim_specs s ! i)) (id_at i)) t1 else t1)"
  have nic: "id_index (frt_src_nic (sim_froutes s ! i)) < port_count (sim_fabric t)"
    using nic_in_range(1)[OF ok i] R by simp
  have per: "pacing_period (sim_specs s ! i)
      (port_rate (fab_ports (sim_fabric t) ! id_index (frt_src_nic (sim_froutes s ! i)))) = Some p"
    using p R by (simp add: flow_period_def)
  have run: "reset_flow i t = Some t'"
    using i n L S(4,5) setup_okD(3)[OF ok] fabric_port_Some[OF nic] per
    by (simp add: reset_flow_def fabric_simps t'_def t1_def tx_def r_def Let_def)
  have f1: "fixed t1 = fixed t"
    using L unfolding t1_def tx_def r_def fixed_def wins_def tots_def by (simp add: map_update_same)
  have fx': "fixed t' = fixed s" using f1 fx by (simp add: t'_def)
  have q: "eq_inv (sim_queue t1)" "events t1 = events t" using R by (simp_all add: t1_def)
  have E: "events t' = (if \<not> id_valid (fs_depends_on (sim_specs s ! i))
     then add_mset (eq_stamp (sim_queue t1) (ev_inject (fs_start_ns (sim_specs s ! i)) (id_at i))) (events t) else events t)"
    using q by (simp add: t'_def evq.push_items)
  have ii: "id_index (id_at i :: flow_id) = i" using flow_index_at[OF ok i] .
  have dep: "dependents_ok t'" using R dependents_ok_cong[of t' t] by (simp add: t'_def t1_def)
  have "reset_upto s (Suc i) t'"
    unfolding reset_upto_def
  proof (intro conjI)
    show "eq_inv (sim_queue t')" using q(1) by (simp add: t'_def push_event_def evq.push_invar)
    show "injects (events t') = starters s (Suc i)"
      using R ii by (simp add: E views_add starters_Suc)
    show "\<forall>k<Suc i. \<exists>p. flow_period s k = Some p \<and> sim_tx t' ! k = blank_tx s k p \<and> sim_results t' ! k = blank_result s k"
      using R p tx r L by (auto simp: t'_def t1_def less_Suc_eq)
  qed (use R fx' dep E in \<open>auto simp: t'_def t1_def views_add\<close>)
  then show ?thesis using run by blast
qed

lemma begin_run_reset:
  assumes ok: "setup_ok s" and tr: "transport_ok s"
  shows "\<exists>t. begin_run s = Some t \<and> reset_upto s (nflows s) t"
proof -
  define s1 where "s1 = s\<lparr>sim_queue := eq_clear (sim_queue s), sim_fabric := reset_state (sim_fabric s),
       sim_now := 0, sim_stats := zero_stats, sim_pkt_state := map (\<lambda>_. 0) (sim_pkt_state s),
       sim_pkt_attempt := map (\<lambda>_. 0) (sim_pkt_attempt s)\<rparr>"
  have dep: "depends_earlier (sim_specs s1)"
    using setup_okD(15)[OF ok] by (auto simp: depends_earlier_def s1_def flow_shape_def)
  have n: "nflows s1 < 2 ^ 32" using setup_okD(2)[OF ok] by (simp add: s1_def)
  obtain off deps where b: "build_dependents s1 = Some (s1\<lparr>sim_dependents_offset := off, sim_dependents := deps\<rparr>)"
    "dependents_ok (s1\<lparr>sim_dependents_offset := off, sim_dependents := deps\<rparr>)"
    using build_dependents_ok[OF dep n] by blast
  let ?s2 = "s1\<lparr>sim_dependents_offset := off, sim_dependents := deps\<rparr>"
  have "reset_upto s 0 ?s2"
    using b(2) by (auto simp: reset_upto_def s1_def fixed_def wins_def tots_def starters_def)
  then have "\<exists>t. fold_opt reset_flow [0..<nflows s] ?s2 = Some t \<and> reset_upto s (length [0..<nflows s]) t"
    by (intro fold_opt_invariant[where P = "reset_upto s"]) (use reset_flow_step[OF ok] in auto)
  moreover have "begin_run s = fold_opt reset_flow [0..<nflows s] ?s2"
    using tr b(1) by (simp add: begin_run_def transport_ok_def fabric_simps s1_def Let_def)
  ultimately show ?thesis by simp
qed

section \<open>It satisfies the invariant\<close>

lemma blank_fields [simp]:
  "tx_next_seq (blank_tx s i p) = 0" "tx_in_flight (blank_tx s i p) = 0" "tx_window (blank_tx s i p) = wins s ! i"
  "tx_packets_total (blank_tx s i p) = tots s ! i" "tx_retx_head (blank_tx s i p) = 0"
  "tx_retx_count (blank_tx s i p) = 0" "tx_period_ns (blank_tx s i p) = p" "tx_next_send_ns (blank_tx s i p) = 0"
  "\<not> tx_send_scheduled (blank_tx s i p)" "\<not> tx_failed (blank_tx s i p)"
  "res_start_ns (blank_result s i) = fs_start_ns (sim_specs s ! i)" "res_delivered_bytes (blank_result s i) = 0"
  "res_packets_total (blank_result s i) = tots s ! i" "res_packets_delivered (blank_result s i) = 0"
  "\<not> res_complete (blank_result s i)" "\<not> res_failed (blank_result s i)"
  by (simp_all add: blank_tx_def blank_result_def)

lemma starters_flow:
  assumes "i < n"
  shows "image_mset snd (filter_mset (\<lambda>t. fst t = i) (starters s n))
    = (if id_valid (fs_depends_on (sim_specs s ! i)) then {#} else {#fs_start_ns (sim_specs s ! i)#})"
proof -
  define g where "g m = image_mset snd (filter_mset (\<lambda>t. fst t = i) (starters s m))" for m
  have g: "g 0 = {#}" "g (Suc m) = (if id_valid (fs_depends_on (sim_specs s ! m)) \<or> m \<noteq> i then g m
      else add_mset (fs_start_ns (sim_specs s ! i)) (g m))" for m
    unfolding g_def starters_Suc by (simp add: starters_def, cases "m = i", simp_all)
  have "g m = (if id_valid (fs_depends_on (sim_specs s ! i)) \<or> m \<le> i then {#}
      else {#fs_start_ns (sim_specs s ! i)#})" for m
  proof (induction m)
    case (Suc m)
    then show ?case by (cases "m = i") (simp_all add: g le_Suc_eq)
  qed (simp add: g)
  then show ?thesis using assms by (simp add: g_def[symmetric])
qed

text \<open>What is known of every flow, and of the network, in the state a run starts from.\<close>

lemma reset_views:
  assumes ok: "setup_ok s" and t: "reset_upto s (nflows s) t"
  shows "setup_ok t" "nflows t = nflows s" "carried t = {#}" "flow_timers t i = {#}"
    "i < nflows s \<Longrightarrow> flow_injects t i = (if id_valid (fs_depends_on (sim_specs s ! i)) then {#}
       else {#fs_start_ns (sim_specs s ! i)#})"
    "i < nflows s \<Longrightarrow> pst t i = (\<lambda>_. 0)" "i < nflows s \<Longrightarrow> att t i = (\<lambda>_. 0)" "i < nflows s \<Longrightarrow> retx t i = []"
    "i < nflows s \<Longrightarrow> \<exists>p. flow_period s i = Some p \<and> sim_tx t ! i = blank_tx s i p"
    "i < nflows s \<Longrightarrow> sim_results t ! i = blank_result s i"
    "i < nflows s \<Longrightarrow> waiting t i = id_valid (fs_depends_on (sim_specs s ! i))"
    "net_inv t"
proof -
  note R = t[unfolded reset_upto_def]
  have fx: "fixed t = fixed s" using R by simp
  show okt: "setup_ok t" and n: "nflows t = nflows s" using setup_ok_cong[OF fx] ok fixed_nflows[OF fx] by simp_all
  have "port_load k (fab_ports (frozen s) ! k) = {#}" if "k < port_count (frozen s)" for k
    using that by (simp add: port_load_def port_count_def reset_port_def)
  then show "carried t = {#}" using R by (simp add: carried_def fabric_load_def)
  show "flow_timers t i = {#}" using R by (simp add: flow_timers_def)
  show "i < nflows s \<Longrightarrow> flow_injects t i = (if id_valid (fs_depends_on (sim_specs s ! i)) then {#}
       else {#fs_start_ns (sim_specs s ! i)#})"
    using R starters_flow[of i "nflows s" s] by (simp add: flow_injects_def)
  have z: "xs ! k = 0" if "\<forall>v \<in> set xs. v = (0 :: u8)" "k < length xs" for xs k using that by (metis nth_mem)
  have L: "length (sim_pkt_state t) = sum_list (map unat (tots t))" "length (sim_pkt_attempt t) = sum_list (map unat (tots t))"
    using setup_okD(10,11)[OF okt] by simp_all
  show "i < nflows s \<Longrightarrow> pst t i = (\<lambda>_. 0)"
    using z[of "sim_pkt_state t"] pkt_pos_less[OF okt, of i] R L n by (auto simp: pst_def)
  show "i < nflows s \<Longrightarrow> att t i = (\<lambda>_. 0)"
    using z[of "sim_pkt_attempt t"] pkt_pos_less[OF okt, of i] R L n by (auto simp: att_def)
  have each: "\<exists>p. flow_period s i = Some p \<and> sim_tx t ! i = blank_tx s i p \<and> sim_results t ! i = blank_result s i"
    if "i < nflows s" for i
    using R that by blast
  then show "i < nflows s \<Longrightarrow> \<exists>p. flow_period s i = Some p \<and> sim_tx t ! i = blank_tx s i p"
    "i < nflows s \<Longrightarrow> sim_results t ! i = blank_result s i" by blast+
  show "i < nflows s \<Longrightarrow> retx t i = []"
    using each[of i] by (auto simp: retx_def retx_list_def circ_def)
  have dep: "id_valid (fs_depends_on (sim_specs s ! i)) \<longrightarrow> id_index (fs_depends_on (sim_specs s ! i)) < nflows s" if "i < nflows s"
    using setup_okD(15)[OF ok that] that by (auto simp: flow_shape_def)
  show "i < nflows s \<Longrightarrow> waiting t i = id_valid (fs_depends_on (sim_specs s ! i))"
    using dep each[of "id_index (fs_depends_on (sim_specs s ! i))"] setupD(4)[OF fx] by (auto simp: waiting_def)
  have "ports_ok (frozen s) {#}"
    by (auto simp: ports_ok_def port_ok_def port_count_def reset_port_def)
  moreover have "rates_ok (frozen s)" using setup_okD(1)[OF ok] by (simp add: fabric_ready_def)
  ultimately show "net_inv t" using R by (simp add: net_inv_def)
qed

lemma reset_inv:
  assumes ok: "setup_ok s" and tr: "transport_ok s" and t: "reset_upto s (nflows s) t"
  shows "sim_inv t"
proof -
  note R = t[unfolded reset_upto_def] and V = reset_views[OF ok t]
  have fx: "fixed t = fixed s" using R by simp
  note S = setupD[OF fx]
  have M: "0 < max_tries t" using tr S(3) by (simp add: max_tries_def transport_ok_def word_less_nat_alt)
  have F: "flow_inv t i" if i: "i < nflows s" for i
  proof -
    obtain p where p: "sim_tx t ! i = blank_tx s i p" using V(9)[OF i] by blast
    note b = p V(6,7,8,10,11)[OF i] V(5)[OF i] V(4)[of i]
    have shape: "flow_shape (frozen s) i (sim_specs s ! i) (sim_froutes s ! i) (wins s ! i) (tots s ! i)"
      by (rule setup_okD(15)[OF ok i])
    have "sender_ok (max_tries t) (blank_tx s i p) (\<lambda>_. 0) (\<lambda>_. 0) [] {#}"
      using M shape by (auto simp: sender_ok_def flow_shape_def)
    then have "sender_at t i" by (simp add: sender_at_def b)
    moreover have "receiver_ok (sim_results t ! i) (sim_specs t ! i) (pst t i)"
      using shape by (auto simp: receiver_ok_def b flow_shape_def)
    moreover have "clock_ok t i" by (simp add: clock_ok_def Let_def b S(4))
    ultimately show ?thesis by (simp add: flow_inv_def)
  qed
  show ?thesis
    unfolding run_inv_def
  proof (intro conjI allI impI ballI)
    show "sender_idle t i \<or> waiting t i" if "i < nflows t" for i
      using V(5,11)[of i] that V(2) by (cases "id_valid (fs_depends_on (sim_specs s ! i))") (simp_all add: sender_idle_def)
    show "fst u < nflows t" if "u \<in># injects (events t)" for u
      using that R V(2) by (auto simp: starters_def)
    show "unaccounted kd t = 0" for kd
      using R by (simp add: unaccounted_def V(3) ledger_eqs zero_stats_def)
  qed (use V R M F in auto)
qed

text \<open>How many events a run can take: every packet sent \<open>max_attempts\<close> times, each copy and its
  ack crossing the whole fabric, plus one wake-up per flow.\<close>

definition run_budget :: "sim \<Rightarrow> nat" where
  "run_budget s = (\<Sum>i<nflows s. send_weight s * (max_tries s * unat (tots s ! i)) + 1)"

lemma reset_potential:
  assumes ok: "setup_ok s" and t: "reset_upto s (nflows s) t"
  shows "potential t = run_budget s"
proof -
  note R = t[unfolded reset_upto_def] and V = reset_views[OF ok t]
  have fx: "fixed t = fixed s" using R by simp
  note W = fixed_weights[OF fx]
  have "flow_weight t i + of_bool (waiting t i) = send_weight s * (max_tries s * unat (tots s ! i)) + 1"
    if i: "i < nflows s" for i
  proof -
    obtain p where p: "sim_tx t ! i = blank_tx s i p" using V(9)[OF i] by blast
    have "sends_left (max_tries s) (blank_tx s i p) (\<lambda>_. 0) [] = max_tries s * unat (tots s ! i)"
      using card_word_less[of "tots s ! i"] by (simp add: sends_left_def attempts_left_def)
    then show ?thesis
      using V(5,11)[OF i] by (simp add: flow_weight_def W V(7,8)[OF i] p)
  qed
  then show ?thesis
    using R unfolding potential_def run_budget_def V(2,3) by simp
qed

text \<open>A bound on every delay a run can add to the clock.\<close>

definition delay_bound :: "sim \<Rightarrow> nat \<Rightarrow> bool" where
  "delay_bound s D \<longleftrightarrow> delays_ok (frozen s) D \<and> unat (tc_rto_ns (sim_transport s)) \<le> D
     \<and> (\<forall>i < nflows s. \<forall>p. flow_period s i = Some p \<longrightarrow> unat p \<le> D)"

definition starts_by :: "sim \<Rightarrow> nat \<Rightarrow> bool" where
  "starts_by s H \<longleftrightarrow> (\<forall>i < nflows s. unat (fs_start_ns (sim_specs s ! i)) \<le> H)"

lemma reset_timing:
  assumes ok: "setup_ok s" and t: "reset_upto s (nflows s) t"
  shows "delay_bound s D \<Longrightarrow> run_delays t D" "starts_by s H \<Longrightarrow> run_timed t H"
proof -
  note R = t[unfolded reset_upto_def] and V = reset_views[OF ok t]
  have fx: "fixed t = fixed s" using R by simp
  note S = setupD[OF fx]
  have L: "length (sim_tx t) = nflows s" using setup_okD(4)[OF V(1)] V(2) by simp
  show "run_delays t D" if D: "delay_bound s D"
  proof -
    have "unat p \<le> D" if p: "p \<in> set (periods t)" for p
    proof -
      obtain x where "x \<in> set (sim_tx t)" "p = tx_period_ns x" using p by (auto simp: periods_def)
      then obtain i where i: "i < nflows s" "p = tx_period_ns (sim_tx t ! i)"
        using L by (metis in_set_conv_nth)
      then show ?thesis using V(9)[OF i(1)] D by (auto simp: delay_bound_def)
    qed
    then show ?thesis using D S by (simp add: run_delays_def delay_bound_def)
  qed
  show "run_timed t H" if H: "starts_by s H"
  proof -
    have "unat (ev_time e) \<le> H" if e: "e \<in># events t" for e
    proof -
      have "ev_type e = Inject"
      proof (cases "ev_type e")
        case TxComplete
        then have "id_index (ev_port e) \<in># tx_pending (events t)" using e by (auto simp: tx_pending_def)
        then show ?thesis using R by simp
      next
        case Arrive
        then have "(OnWire (id_index (ev_port e)), ev_packet e) \<in># arrivals (events t)" using e by (auto simp: arrivals_def)
        then show ?thesis using R by simp
      next
        case Timeout
        then have "(id_index (ev_flow e), ev_packet_index e, ev_attempt e) \<in># timers (events t)" using e by (auto simp: timers_def)
        then show ?thesis using R by simp
      qed
      then have "(id_index (ev_flow e), ev_time e) \<in># injects (events t)" using e by (auto simp: injects_def)
      then show ?thesis using R H by (auto simp: starters_def starts_by_def)
    qed
    moreover have "unat (tx_next_send_ns x) \<le> H" if x: "x \<in> set (sim_tx t)" for x
    proof -
      obtain i where "i < nflows s" "x = sim_tx t ! i" using x L by (metis in_set_conv_nth)
      then show ?thesis using V(9)[of i] by auto
    qed
    ultimately show ?thesis using R by (simp add: run_timed_def timed_def)
  qed
qed

end
