(* ===== verification/Sim_Books.thy ===== *)
theory Sim_Books
  imports Simulation
begin

text \<open>
  Ledgers that every operation of the run keeps, whatever the flows and the fabric are: the
  retransmissions of the flows add up to those of the run, the bytes dropped at the ports
  to the bytes dropped in the run, and the flow counters stay as \<open>begin_run\<close> left them
  until \<open>end_run\<close> sets them.
\<close>

section \<open>The ledgers\<close>

definition retransmits :: "sim \<Rightarrow> u32" where
  "retransmits s = sum_list (map res_packets_retransmitted (sim_results s))"

definition port_drops :: "sim \<Rightarrow> u64" where
  "port_drops s = sum_list (map port_bytes_dropped (fab_ports (sim_fabric s)))"

definition books where
  "books s = (let st = sim_stats s in (rs_flows_complete st, rs_flows_incomplete st, rs_flows_failed st,
     ucast (rs_packets_retransmitted st) - retransmits s,
     rs_bytes_dropped st + rs_ack_bytes_dropped st - port_drops s))"

lemma ucast_inc: "(ucast (x + 1 :: u64) :: u32) = ucast x + 1"
proof -
  have "unat (x + 1) mod 2 ^ 32 = (unat x mod 2 ^ 32 + 1) mod 2 ^ 32"
    by (simp add: unat_word_ariths mod_mod_cancel mod_simps)
  then show ?thesis
    by (simp add: word_unat_eq_iff unat_word_ariths unsigned_ucast_eq take_bit_eq_mod)
qed

lemma books_others [simp]:
  "books (s\<lparr>sim_tx := tx\<rparr>) = books s" "books (s\<lparr>sim_queue := q\<rparr>) = books s"
  "books (s\<lparr>sim_now := t\<rparr>) = books s" "books (s\<lparr>sim_pkt_state := ps\<rparr>) = books s"
  "books (s\<lparr>sim_pkt_attempt := ps\<rparr>) = books s" "books (s\<lparr>sim_retx_ring := rr\<rparr>) = books s"
  "books (push_event e s) = books s"
  "books (s\<lparr>sim_stats := (sim_stats s)\<lparr>rs_events_processed := n\<rparr>\<rparr>) = books s"
  "books (s\<lparr>sim_stats := (sim_stats s)\<lparr>rs_bytes_injected := b\<rparr>\<rparr>) = books s"
  "books (s\<lparr>sim_stats := (sim_stats s)\<lparr>rs_bytes_delivered := b\<rparr>\<rparr>) = books s"
  "books (s\<lparr>sim_stats := (sim_stats s)\<lparr>rs_ack_bytes_injected := b\<rparr>\<rparr>) = books s"
  "books (s\<lparr>sim_stats := (sim_stats s)\<lparr>rs_ack_bytes_delivered := b\<rparr>\<rparr>) = books s"
  by (simp_all add: books_def retransmits_def port_drops_def Let_def push_event_def)

lemma books_put_tx [simp]: "put_tx f tx s = Some s' \<Longrightarrow> books s' = books s"
  by (auto simp: put_tx_def checked_iffs)

lemma books_put_pkt_state [simp]: "put_pkt_state k v s = Some s' \<Longrightarrow> books s' = books s"
  by (auto simp: put_pkt_state_def checked_iffs)

lemma books_put_result:
  assumes "put_result f r s = Some s'" "get_result f s = Some r0"
    "res_packets_retransmitted r = res_packets_retransmitted r0"
  shows "books s' = books s"
  using assms
  by (auto simp: put_result_def get_result_def checked_iffs books_def retransmits_def port_drops_def Let_def sum_list_update_group)

lemma books_put_port:
  assumes "put_port f p s = Some s'" "fabric_port (sim_fabric s) f = Some p0"
    "port_bytes_dropped p = port_bytes_dropped p0"
  shows "books s' = books s"
  using assms
  by (auto simp: put_port_def set_port_def fabric_port_def checked_iffs books_def retransmits_def port_drops_def Let_def sum_list_update_group)

lemma bind_SomeE:
  assumes "Option.bind m k = Some y"
  obtains x where "m = Some x" "k x = Some y"
  using assms by (cases m) auto

section \<open>Every operation keeps them\<close>

lemma books_start_tx: "start_tx pid s = Some s' \<Longrightarrow> books s' = books s"
  by (auto simp: start_tx_def checked_iffs split: prod.splits dest!: books_put_port)

lemma books_enqueue:
  assumes "enqueue pid pkt s = Some s'"
  shows "books s' = books s"
proof -
  obtain p acc ring where p: "fabric_port (sim_fabric s) pid = Some p"
    "ring_try_push pkt (port_queue p) = Some (acc, ring)"
    using assms by (auto simp: enqueue_def checked_iffs)
  show ?thesis
  proof (cases acc)
    case True
    then obtain s1 where s1: "put_port pid (p\<lparr>port_queue := ring\<rparr>) s = Some s1"
      "(if \<not> port_busy p then start_tx pid s1 else Some s1) = Some s'"
      using assms p True by (auto simp: enqueue_def bind_eq_Some_conv)
    have "books s1 = books s" by (rule books_put_port[OF s1(1) p(1)]) simp
    then show ?thesis using s1(2) books_start_tx[of pid s1 s'] by (cases "port_busy p") simp_all
  next
    case False
    define s1 where "s1 = s\<lparr>sim_fabric := (sim_fabric s)\<lparr>fab_ports := (fab_ports (sim_fabric s))[id_index pid :=
      p\<lparr>port_packets_dropped := port_packets_dropped p + 1,
        port_bytes_dropped := port_bytes_dropped p + ucast (pkt_bytes pkt)\<rparr>]\<rparr>\<rparr>"
    have put: "put_port pid (p\<lparr>port_packets_dropped := port_packets_dropped p + 1,
        port_bytes_dropped := port_bytes_dropped p + ucast (pkt_bytes pkt)\<rparr>) s = Some s1"
      using p(1) by (auto simp: put_port_def set_port_def fabric_port_def checked_iffs s1_def)
    have d: "port_drops s1 = port_drops s + ucast (pkt_bytes pkt)"
      using p(1) by (auto simp: s1_def port_drops_def fabric_port_def checked_iffs sum_list_update_group)
    have r: "retransmits s1 = retransmits s" "sim_stats s1 = sim_stats s" by (simp_all add: retransmits_def s1_def)
    have b: "books (s1\<lparr>sim_stats := (sim_stats s1)\<lparr>rs_ack_bytes_dropped := rs_ack_bytes_dropped (sim_stats s1) + ucast (pkt_bytes pkt)\<rparr>\<rparr>) = books s"
      "books (s1\<lparr>sim_stats := (sim_stats s1)\<lparr>rs_bytes_dropped := rs_bytes_dropped (sim_stats s1) + ucast (pkt_bytes pkt)\<rparr>\<rparr>) = books s"
      using d r by (simp_all add: books_def Let_def retransmits_def port_drops_def)
    show ?thesis
    proof (cases "pkt_kind pkt = Ack")
      case True
      then show ?thesis using assms p put False b(1) by (simp add: enqueue_def)
    next
      case kind: False
      obtain r0 where "get_result (pkt_flow pkt) (s1\<lparr>sim_stats := (sim_stats s1)\<lparr>rs_bytes_dropped :=
            rs_bytes_dropped (sim_stats s1) + ucast (pkt_bytes pkt)\<rparr>\<rparr>) = Some r0"
        "put_result (pkt_flow pkt) (r0\<lparr>res_packets_dropped := res_packets_dropped r0 + 1\<rparr>)
          (s1\<lparr>sim_stats := (sim_stats s1)\<lparr>rs_bytes_dropped := rs_bytes_dropped (sim_stats s1) + ucast (pkt_bytes pkt)\<rparr>\<rparr>) = Some s'"
        using assms p put False kind by (auto simp: enqueue_def Let_def checked_iffs)
      then show ?thesis using books_put_result b(2) by fastforce
    qed
  qed
qed

lemma books_on_tx_complete:
  assumes "on_tx_complete e s = Some s'"
  shows "books s' = books s"
proof -
  define pid where "pid = ev_port e"
  obtain p where p: "fabric_port (sim_fabric s) pid = Some p"
    using assms by (auto simp: on_tx_complete_def Let_def bind_eq_Some_conv pid_def)
  define p1 where "p1 = p\<lparr>port_packets_sent := port_packets_sent p + 1,
    port_bytes_sent := port_bytes_sent p + ucast (pkt_bytes (port_in_flight p))\<rparr>"
  obtain s1 where s1: "put_port pid p1 s = Some s1"
    using assms p by (auto simp: on_tx_complete_def Let_def bind_eq_Some_conv p1_def pid_def)
  define s2 where "s2 = push_event (ev_arrive (sim_now s1 + port_prop_delay_ns p1) pid (port_in_flight p)) s1"
  have run: "(if ring_empty (port_queue p1) then put_port pid (p1\<lparr>port_busy := False\<rparr>) s2 else start_tx pid s2) = Some s'"
    using assms p s1 by (simp add: on_tx_complete_def Let_def s2_def p1_def pid_def split: if_splits)
  have b: "books s2 = books s" unfolding s2_def using books_put_port[OF s1 p] by (simp add: p1_def)
  have p2: "fabric_port (sim_fabric s2) pid = Some p1"
    using s1 by (auto simp: put_port_def set_port_def fabric_port_def checked_iffs s2_def push_event_def)
  show ?thesis
    using run b books_start_tx[of pid s2 s'] books_put_port[OF _ p2, of "p1\<lparr>port_busy := False\<rparr>" s']
    by (cases "ring_empty (port_queue p1)") simp_all
qed

lemma books_send_packet:
  assumes "send_packet f idx s = Some s'"
  shows "books s' = books s"
proof -
  obtain tx spec k attempt s1 where tx: "get_tx f s = Some tx" "vget (sim_specs s) (id_index f) = Some spec"
    "pkt_slot f idx s = Some k" "vget (sim_pkt_attempt s) k = Some attempt"
    and s1: "(if attempt > 0 then do {
         r \<leftarrow> get_result f s;
         put_result f (r\<lparr>res_packets_retransmitted := res_packets_retransmitted r + 1\<rparr>)
           (s\<lparr>sim_stats := (sim_stats s)\<lparr>rs_packets_retransmitted :=
                rs_packets_retransmitted (sim_stats s) + 1\<rparr>\<rparr>)
       } else Some s) = Some s1"
    using assms by (auto simp: send_packet_def Let_def bind_eq_Some_conv)
  have b1: "books s1 = books s"
  proof (cases "attempt > 0")
    case True
    then obtain r where r: "id_index f < length (sim_results s)" "r = sim_results s ! id_index f"
      "s1 = s\<lparr>sim_stats := (sim_stats s)\<lparr>rs_packets_retransmitted := rs_packets_retransmitted (sim_stats s) + 1\<rparr>,
        sim_results := (sim_results s)[id_index f := r\<lparr>res_packets_retransmitted := res_packets_retransmitted r + 1\<rparr>]\<rparr>"
      using s1 by (auto simp: get_result_def put_result_def checked_iffs)
    then show ?thesis
      by (simp add: books_def Let_def retransmits_def port_drops_def sum_list_update_group ucast_inc)
  qed (use s1 in simp)
  show ?thesis
    using assms tx s1 b1 by (auto simp: send_packet_def Let_def bind_eq_Some_conv dest!: books_enqueue books_put_tx books_put_pkt_state)
qed

lemma books_try_send_loop:
  assumes "try_send_loop f base rbase s = Some s'"
  shows "books s' = books s"
proof (rule try_send_loop.raw_induct[where P = "\<lambda>f base rbase s s'. books s' = books s", OF _ assms])
  fix loop f base rbase s s'
  assume ih: "\<And>f base rbase s s'. loop f base rbase s = Some s' \<Longrightarrow> books s' = books s"
    and run: "do {
     tx \<leftarrow> get_tx f s;
     if tx_in_flight tx < tx_window tx then
       if sim_now s < tx_next_send_ns tx then
         (if \<not> tx_send_scheduled tx then do {
            s \<leftarrow> put_tx f (tx\<lparr>tx_send_scheduled := True\<rparr>) s;
            Some (push_event (ev_inject (tx_next_send_ns tx) f) s)
          }
          else Some s)
       else do {
         (found, tx) \<leftarrow> scan_retx (sim_retx_ring s) (sim_pkt_state s) base rbase tx;
         case found of
           Some idx \<Rightarrow> do {
             s \<leftarrow> put_tx f tx s;
             s \<leftarrow> send_packet f idx s;
             loop f base rbase s
           }
         | None \<Rightarrow>
             if tx_next_seq tx \<ge> tx_packets_total tx then put_tx f tx s
             else do {
               s \<leftarrow> put_tx f (tx\<lparr>tx_next_seq := tx_next_seq tx + 1\<rparr>) s;
               s \<leftarrow> send_packet f (tx_next_seq tx) s;
               loop f base rbase s
             }
       }
     else Some s
   } = Some s'"
  show "books s' = books s"
    using run
    by (auto simp: bind_eq_Some_conv split: if_splits option.splits prod.splits
        dest!: books_put_tx books_send_packet ih)
qed

lemma books_try_send: "try_send f s = Some s' \<Longrightarrow> books s' = books s"
  by (auto simp: try_send_def bind_eq_Some_conv split: if_splits dest!: books_try_send_loop)

lemma books_on_inject: "on_inject e s = Some s' \<Longrightarrow> books s' = books s"
  by (auto simp: on_inject_def Let_def bind_eq_Some_conv dest!: books_try_send books_put_tx)

lemma books_on_ack: "on_ack f idx s = Some s' \<Longrightarrow> books s' = books s"
  by (auto simp: on_ack_def Let_def bind_eq_Some_conv split: if_splits
      dest!: books_try_send books_put_tx books_put_pkt_state)

lemma books_on_timeout:
  assumes "on_timeout e s = Some s'"
  shows "books s' = books s"
proof -
  define f where "f = ev_flow e"
  define idx where "idx = ev_packet_index e"
  obtain k st where k: "pkt_slot f idx s = Some k" "vget (sim_pkt_state s) k = Some st"
    using assms by (auto simp: on_timeout_def Let_def bind_eq_Some_conv f_def idx_def)
  show ?thesis
  proof (cases "st AND kAcked \<noteq> 0")
    case acked: False
    obtain attempt where a: "vget (sim_pkt_attempt s) k = Some attempt"
      using assms k acked by (auto simp: on_timeout_def Let_def bind_eq_Some_conv f_def idx_def)
    show ?thesis
    proof (cases "attempt \<noteq> ev_attempt e")
      case same: False
      obtain tx where tx: "get_tx f s = Some tx"
        using assms k acked a same by (auto simp: on_timeout_def Let_def bind_eq_Some_conv f_def idx_def)
      show ?thesis
      proof (cases "tx_failed tx")
        case alive: False
        define freed where "freed = (if st AND kInFlight \<noteq> 0 then do {
               s \<leftarrow> put_pkt_state k (st AND NOT kInFlight) s;
               Some (tx\<lparr>tx_in_flight := tx_in_flight tx - 1\<rparr>, s)
             } else Some (tx, s))"
        define expire where "expire = (\<lambda>(tx, s). if (ucast attempt + 1 :: u32) \<ge> ucast (tc_max_attempts (sim_transport s)) then do {
             s \<leftarrow> put_tx f (tx\<lparr>tx_failed := True\<rparr>) s;
             r \<leftarrow> get_result f s;
             put_result f (r\<lparr>res_failed := True\<rparr>) s
           }
           else do {
             att \<leftarrow> vset (sim_pkt_attempt s) k (attempt + 1);
             let s = s\<lparr>sim_pkt_attempt := att\<rparr>;
             rbase \<leftarrow> vget (sim_retx_offset s) (id_index f);
             let t0 = tx_retx_head tx + tx_retx_count tx;
             let tail = (if t0 \<ge> tx_window tx then t0 - tx_window tx else t0);
             ring \<leftarrow> vset (sim_retx_ring s) (unat (rbase + tail)) idx;
             let s = s\<lparr>sim_retx_ring := ring\<rparr>;
             s \<leftarrow> put_tx f (tx\<lparr>tx_retx_count := tx_retx_count tx + 1\<rparr>) s;
             try_send f s
           })"
        have run: "Option.bind freed expire = Some s'"
          using assms[unfolded on_timeout_def Let_def, folded f_def idx_def] k acked a same tx alive
          unfolding freed_def expire_def Let_def by simp
        obtain tx1 s1 where f1: "freed = Some (tx1, s1)" using run by (cases freed) auto
        have b1: "books s1 = books s"
          using f1 by (auto simp: freed_def bind_eq_Some_conv split: if_splits)
        have "books s2 = books s1" if ex: "expire (tx1, s1) = Some s2" for s2
        proof (cases "(ucast attempt + 1 :: u32) \<ge> ucast (tc_max_attempts (sim_transport s1))")
          case True
          then show ?thesis using ex by (auto simp: expire_def bind_eq_Some_conv books_put_result dest: books_put_tx)
        next
          case False
          obtain att ring tx2 s2' where
            "put_tx f tx2 (s1\<lparr>sim_pkt_attempt := att, sim_retx_ring := ring\<rparr>) = Some s2'" "try_send f s2' = Some s2"
            using ex False unfolding expire_def Let_def by (simp del: not_le) (elim bind_SomeE, blast)
          then show ?thesis using books_try_send books_put_tx by fastforce
        qed
        then show ?thesis using run f1 b1 by simp
      qed (use assms k acked a same tx in \<open>simp add: on_timeout_def Let_def f_def idx_def\<close>)
    qed (use assms k acked a in \<open>simp add: on_timeout_def Let_def f_def idx_def\<close>)
  qed (use assms k in \<open>simp add: on_timeout_def Let_def f_def idx_def\<close>)
qed

lemma books_release_flow: "release_flow d s = Some s' \<Longrightarrow> books s' = books s"
  by (auto simp: release_flow_def bind_eq_Some_conv dest!: books_put_tx)
    (use books_put_result in fastforce)

lemma books_complete_flow:
  assumes "complete_flow f s = Some s'"
  shows "books s' = books s"
proof -
  obtain r s1 first last where r: "get_result f s = Some r"
    and s1: "put_result f (r\<lparr>res_finish_ns := sim_now s, res_complete := True\<rparr>) s = Some s1"
    and fo: "fold_opt (\<lambda>i s. do { d \<leftarrow> vget (sim_dependents s) i; release_flow d s }) [unat (first :: u32)..<unat (last :: u32)] s1 = Some s'"
    using assms unfolding complete_flow_def by (elim bind_SomeE) blast
  have "books s' = books s1"
    by (rule fold_opt_preserves[OF fo, where P = "\<lambda>s. books s = books s1"])
      (auto simp: bind_eq_Some_conv books_release_flow)
  then show ?thesis using books_put_result[OF s1 r] by simp
qed

lemma books_on_data_arrival:
  assumes "on_data_arrival f idx bytes s = Some s'"
  shows "books s' = books s"
proof -
  define sA where "sA = s\<lparr>sim_stats := (sim_stats s)\<lparr>rs_bytes_delivered := rs_bytes_delivered (sim_stats s) + ucast bytes\<rparr>\<rparr>"
  obtain k st sB fr where "pkt_slot f idx s = Some k" "vget (sim_pkt_state sA) k = Some st"
    and B: "(if st AND kDelivered = 0 then do {
         s \<leftarrow> put_pkt_state k (st OR kDelivered) sA;
         r \<leftarrow> get_result f s;
         s \<leftarrow> put_result f (r\<lparr>res_packets_delivered := res_packets_delivered r + 1,
                   res_delivered_bytes := res_delivered_bytes r + ucast bytes\<rparr>) s;
         if res_packets_delivered (r\<lparr>res_packets_delivered := res_packets_delivered r + 1,
               res_delivered_bytes := res_delivered_bytes r + ucast bytes\<rparr>)
           = res_packets_total (r\<lparr>res_packets_delivered := res_packets_delivered r + 1,
               res_delivered_bytes := res_delivered_bytes r + ucast bytes\<rparr>)
         then complete_flow f s else Some s
       } else Some sA) = Some sB"
    and run: "enqueue (frt_dst_nic (fr :: FlowRoute)) \<lparr>pkt_flow = f, pkt_index = idx,
        pkt_bytes = ucast (tc_ack_bytes (sim_transport sB)), pkt_kind = Ack, pkt_attempt = 0\<rparr>
      (sB\<lparr>sim_stats := (sim_stats sB)\<lparr>rs_ack_bytes_injected :=
         rs_ack_bytes_injected (sim_stats sB) + ucast (ucast (tc_ack_bytes (sim_transport sB)) :: u16)\<rparr>\<rparr>) = Some s'"
    using assms[unfolded on_data_arrival_def Let_def, folded sA_def] by (elim bind_SomeE) blast
  have "books sB = books sA"
    using B by (auto simp: Let_def bind_eq_Some_conv split: if_splits dest!: books_complete_flow books_put_pkt_state)
      (use books_put_result in fastforce)+
  moreover have "books s' = books sB"
    using books_enqueue[OF run] by simp
  ultimately show ?thesis by (simp add: sA_def)
qed

lemma books_on_arrive: "on_arrive select e s = Some s' \<Longrightarrow> books s' = books s"
  by (auto simp: on_arrive_def Let_def bind_eq_Some_conv split: if_splits
      dest!: books_enqueue books_on_ack books_on_data_arrival)

lemma books_handle_event: "handle_event select e s = Some s' \<Longrightarrow> books s' = books s"
  by (cases "ev_type e") (auto simp: handle_event_def
      dest: books_on_inject books_on_tx_complete books_on_arrive books_on_timeout)

lemma books_run_step:
  assumes "run_step select s = Some s'"
  shows "books s' = books s"
proof -
  obtain e q where "handle_event select e (s\<lparr>sim_queue := q, sim_now := ev_time e,
       sim_stats := (sim_stats s)\<lparr>rs_events_processed := rs_events_processed (sim_stats s) + 1\<rparr>\<rparr>) = Some s'"
    using assms by (auto simp: run_step_def bind_eq_Some_conv)
  then have "books s' = books (s\<lparr>sim_queue := q, sim_now := ev_time e,
       sim_stats := (sim_stats s)\<lparr>rs_events_processed := rs_events_processed (sim_stats s) + 1\<rparr>\<rparr>)"
    by (rule books_handle_event)
  then show ?thesis by (simp add: books_def retransmits_def port_drops_def Let_def)
qed

lemma books_run_loop:
  assumes "run_loop select s = Some s'"
  shows "books s' = books s"
proof (rule run_loop.raw_induct[where P = "\<lambda>select s s'. books s' = books s", OF _ assms])
  fix loop select s s'
  assume ih: "\<And>select s s'. loop select s = Some s' \<Longrightarrow> books s' = books s"
    and run: "(if eq_empty (sim_queue s) then Some s
      else do { s \<leftarrow> run_step select s; loop select s }) = Some s'"
  show "books s' = books s"
    using run by (auto simp: bind_eq_Some_conv split: if_splits dest!: books_run_step ih)
qed

end
