(* ===== verification/Sim_Result.thy ===== *)
theory Sim_Result
  imports Sim_Begin Sim_Books
begin

text \<open>
  A whole run: \<open>begin_run\<close>, the hot loop and \<open>end_run\<close> composed.  The run returns within its
  budget of events, and what it returns is settled: every flow is complete, failed, or
  waits on a flow that is not complete; the ledgers balance; the counters of \<open>end_run\<close>
  count the results.
\<close>

section \<open>The composed run\<close>

definition run_ready :: "sim \<Rightarrow> nat \<Rightarrow> nat \<Rightarrow> bool" where
  "run_ready s D H \<longleftrightarrow> setup_ok s \<and> transport_ok s \<and> delay_bound s D \<and> starts_by s H
     \<and> H + run_budget s * D < 2 ^ 64"

definition settled :: "sim \<Rightarrow> sim \<Rightarrow> bool" where
  "settled s s' \<longleftrightarrow> sim_inv s' \<and> eq_empty (sim_queue s') \<and> fixed s' = fixed s
     \<and> unat (rs_events_processed (sim_stats s')) \<le> run_budget s \<and> books s' = (0, 0, 0, 0, 0)"

lemma reset_books:
  assumes ok: "setup_ok s" and t: "reset_upto s (nflows s) t"
  shows "books t = (0, 0, 0, 0, 0)"
proof -
  note R = t[unfolded reset_upto_def] and V = reset_views[OF ok t]
  have L: "length (sim_results t) = nflows s" using setup_okD(7)[OF V(1)] V(2) by simp
  have "res_packets_retransmitted r = 0" if "r \<in> set (sim_results t)" for r
    using that L V(10) by (auto simp: in_set_conv_nth blank_result_def)
  then have "map res_packets_retransmitted (sim_results t) = map (\<lambda>_. 0) (sim_results t)" by simp
  then have "retransmits t = sum_list (map (\<lambda>_. 0) (sim_results t))" unfolding retransmits_def by (rule arg_cong)
  then have "retransmits t = 0" by simp
  moreover have "port_drops t = 0"
    using R unfolding port_drops_def by (simp add: reset_state_def reset_port_def sum_list_0 comp_def)
  ultimately show ?thesis using R by (simp add: books_def zero_stats_def)
qed

lemma delay_positive: "run_ready s D H \<Longrightarrow> 0 < D"
  by (auto simp: run_ready_def delay_bound_def transport_ok_def word_less_nat_alt)

lemma run_sim_ok:
  assumes r: "run_ready s D H" and pol: "routing_policy select"
  shows "\<exists>s'. run_sim select s = Some (sim_stats (end_run s'), end_run s') \<and> settled s s'"
proof -
  have ok: "setup_ok s" and tr: "transport_ok s" and B: "H + run_budget s * D < 2 ^ 64"
    using r by (simp_all add: run_ready_def)
  obtain t where t: "begin_run s = Some t" "reset_upto s (nflows s) t"
    using begin_run_reset[OF ok tr] by blast
  note R = t(2)[unfolded reset_upto_def]
  have I: "sim_inv t" by (rule reset_inv[OF ok tr t(2)])
  have pot: "potential t = run_budget s" by (rule reset_potential[OF ok t(2)])
  have tm: "run_delays t D" "run_timed t H"
    using r reset_timing[OF ok t(2)] by (simp_all add: run_ready_def)
  obtain s' where s': "run_loop select t = Some s'" "ran t s'"
    using run_loop_ok[OF I pol tm] B pot by auto
  then obtain n where n: "n \<le> run_budget s" "rs_events_processed (sim_stats s') = of_nat n"
    using R pot by (auto simp: ran_def zero_stats_def)
  have "n * 1 \<le> run_budget s * D" using n(1) delay_positive[OF r] by (intro mult_le_mono) simp_all
  then have "n < 2 ^ 64" using B by simp
  then have "unat (rs_events_processed (sim_stats s')) \<le> run_budget s"
    using n by (simp add: unat_of_nat_small)
  moreover have "books s' = (0, 0, 0, 0, 0)"
    using books_run_loop[OF s'(1)] reset_books[OF ok t(2)] by simp
  ultimately have "settled s s'" using s'(2) R by (simp add: settled_def ran_def)
  then show ?thesis using t(1) s'(1) by (auto simp: run_sim_def Let_def)
qed

lemma run_sim_settled:
  assumes "run_ready s D H" "routing_policy select" "run_sim select s = Some (st, s')"
  obtains u where "s' = end_run u" "st = sim_stats (end_run u)" "settled s u"
  using run_sim_ok[OF assms(1,2)] assms(3) by auto

section \<open>The counters of \<open>end_run\<close>\<close>

lemma fold_count_result:
  "rs_flows_complete (fold count_result rs st) = rs_flows_complete st + of_nat (length (filter res_complete rs))"
  "rs_flows_incomplete (fold count_result rs st) = rs_flows_incomplete st + of_nat (length (filter (\<lambda>r. \<not> res_complete r) rs))"
  "rs_flows_failed (fold count_result rs st) = rs_flows_failed st + of_nat (length (filter res_failed rs))"
  "rs_virtual_end_ns (fold count_result rs st) = rs_virtual_end_ns st"
  "rs_events_processed (fold count_result rs st) = rs_events_processed st"
  "rs_packets_retransmitted (fold count_result rs st) = rs_packets_retransmitted st"
  "injected kd (fold count_result rs st) = injected kd st"
  "delivered kd (fold count_result rs st) = delivered kd st"
  "dropped kd (fold count_result rs st) = dropped kd st"
  by (induction rs arbitrary: st)
    (simp_all add: count_result_def Let_def ledger_eqs algebra_simps)

lemma end_run_fields [simp]:
  "sim_results (end_run s) = sim_results s" "sim_tx (end_run s) = sim_tx s" "sim_specs (end_run s) = sim_specs s"
  "sim_now (end_run s) = sim_now s" "sim_fabric (end_run s) = sim_fabric s" "sim_queue (end_run s) = sim_queue s"
  "fixed (end_run s) = fixed s"
  by (simp_all add: end_run_def)

section \<open>A settled run\<close>

lemma settledD:
  assumes "settled s s'"
  shows "sim_inv s'" "eq_empty (sim_queue s')" "fixed s' = fixed s" "sim_specs s' = sim_specs s"
    "length (sim_results s') = nflows s"
proof -
  show f: "fixed s' = fixed s" and "sim_inv s'" "eq_empty (sim_queue s')"
    using assms by (simp_all add: settled_def)
  show "sim_specs s' = sim_specs s" using setupD(4)[OF f] .
  then show "length (sim_results s') = nflows s"
    using setup_okD(7)[OF run_invD(1)[OF \<open>sim_inv s'\<close>]] by simp
qed

lemma settled_flow:
  assumes "settled s s'" "i < nflows s"
  shows "res_complete (sim_results s' ! i) \<or> res_failed (sim_results s' ! i)
    \<or> id_valid (fs_depends_on (sim_specs s ! i)) \<and> \<not> res_complete (sim_results s' ! id_index (fs_depends_on (sim_specs s ! i)))"
  using drained_flow[of s' i] settledD[OF assms(1)] assms(2) by (simp add: waiting_def)

text \<open>Only a failed flow can leave a flow incomplete: follow the dependencies down to it.\<close>

lemma settled_blocked:
  assumes "settled s s'" "i < nflows s" "\<not> res_complete (sim_results s' ! i)"
  shows "\<exists>j \<le> i. res_failed (sim_results s' ! j) \<and> \<not> res_complete (sim_results s' ! j)"
  using assms(2,3)
proof (induction i rule: less_induct)
  case (less i)
  show ?case
  proof (cases "res_failed (sim_results s' ! i)")
    case False
    define d where "d = id_index (fs_depends_on (sim_specs s ! i))"
    have d: "id_valid (fs_depends_on (sim_specs s ! i))" "\<not> res_complete (sim_results s' ! d)"
      using settled_flow[OF assms(1) less.prems(1)] less.prems(2) False by (simp_all add: d_def)
    have "flow_shape (frozen s') i (sim_specs s' ! i) (sim_froutes s' ! i) (wins s' ! i) (tots s' ! i)"
      using setup_okD(15)[OF run_invD(1)[OF settledD(1)[OF assms(1)]], of i] settledD(4)[OF assms(1)] less.prems(1) by simp
    then have "d < i" using d(1) settledD(4)[OF assms(1)] by (auto simp: flow_shape_def d_def)
    then show ?thesis using less.IH[of d] less.prems(1) d(2) by (meson le_trans less_imp_le less_trans)
  qed (use less.prems in auto)
qed

lemma settled_clock:
  assumes "settled s s'" "i < nflows s"
  shows "res_complete (sim_results s' ! i) \<longrightarrow> res_start_ns (sim_results s' ! i) \<le> res_finish_ns (sim_results s' ! i)
      \<and> res_finish_ns (sim_results s' ! i) \<le> sim_now s'"
    "\<not> id_valid (fs_depends_on (sim_specs s ! i)) \<longrightarrow> res_start_ns (sim_results s' ! i) = fs_start_ns (sim_specs s ! i)"
    "id_valid (fs_depends_on (sim_specs s ! i)) \<longrightarrow> res_complete (sim_results s' ! id_index (fs_depends_on (sim_specs s ! i)))
      \<longrightarrow> res_start_ns (sim_results s' ! i) = res_finish_ns (sim_results s' ! id_index (fs_depends_on (sim_specs s ! i)))"
proof -
  have "clock_ok s' i" using flow_invD(3)[OF run_invD(5)] settledD[OF assms(1)] assms(2) by simp
  then show "res_complete (sim_results s' ! i) \<longrightarrow> res_start_ns (sim_results s' ! i) \<le> res_finish_ns (sim_results s' ! i)
      \<and> res_finish_ns (sim_results s' ! i) \<le> sim_now s'"
    "\<not> id_valid (fs_depends_on (sim_specs s ! i)) \<longrightarrow> res_start_ns (sim_results s' ! i) = fs_start_ns (sim_specs s ! i)"
    "id_valid (fs_depends_on (sim_specs s ! i)) \<longrightarrow> res_complete (sim_results s' ! id_index (fs_depends_on (sim_specs s ! i)))
      \<longrightarrow> res_start_ns (sim_results s' ! i) = res_finish_ns (sim_results s' ! id_index (fs_depends_on (sim_specs s ! i)))"
    using settledD(4)[OF assms(1)] by (auto simp: clock_ok_def Let_def waiting_def)
qed

lemma settled_bytes:
  assumes "settled s s'" "i < nflows s" "res_complete (sim_results s' ! i)"
  shows "res_delivered_bytes (sim_results s' ! i) = fs_size_bytes (sim_specs s ! i)"
    "res_packets_delivered (sim_results s' ! i) = res_packets_total (sim_results s' ! i)"
  using complete_bytes[of s' i] settledD[OF assms(1)] assms(2,3) by simp_all

lemma settled_ledger:
  assumes "settled s s'"
  shows "injected kd (sim_stats (end_run s')) = delivered kd (sim_stats (end_run s')) + dropped kd (sim_stats (end_run s'))"
proof -
  have "injected kd (sim_stats s') = delivered kd (sim_stats s') + dropped kd (sim_stats s')"
    by (rule drained_conserved) (use settledD[OF assms] in simp_all)
  then show ?thesis unfolding end_run_def by (simp add: fold_count_result) (cases kd, simp_all)
qed

lemma settled_counts:
  assumes "settled s s'"
  shows "unat (rs_flows_complete (sim_stats (end_run s'))) = length (filter res_complete (sim_results s'))"
    "unat (rs_flows_incomplete (sim_stats (end_run s'))) = length (filter (\<lambda>r. \<not> res_complete r) (sim_results s'))"
    "unat (rs_flows_failed (sim_stats (end_run s'))) = length (filter res_failed (sim_results s'))"
    "rs_virtual_end_ns (sim_stats (end_run s')) = sim_now s'"
    "unat (rs_events_processed (sim_stats (end_run s'))) \<le> run_budget s"
proof -
  have z: "rs_flows_complete (sim_stats s') = 0" "rs_flows_incomplete (sim_stats s') = 0" "rs_flows_failed (sim_stats s') = 0"
    using assms by (simp_all add: settled_def books_def Let_def)
  have n: "length (sim_results s') < 2 ^ 32"
    using setup_okD(2,7)[OF run_invD(1)[OF settledD(1)[OF assms]]] by simp
  have c: "unat (of_nat (length (filter P (sim_results s'))) :: u32) = length (filter P (sim_results s'))" for P
    using le_less_trans[OF length_filter_le[of P "sim_results s'"] n] by (intro unat_of_nat_small) simp
  show "unat (rs_flows_complete (sim_stats (end_run s'))) = length (filter res_complete (sim_results s'))"
    "unat (rs_flows_incomplete (sim_stats (end_run s'))) = length (filter (\<lambda>r. \<not> res_complete r) (sim_results s'))"
    "unat (rs_flows_failed (sim_stats (end_run s'))) = length (filter res_failed (sim_results s'))"
    by (simp_all add: end_run_def fold_count_result z c)
  show "rs_virtual_end_ns (sim_stats (end_run s')) = sim_now s'"
    by (simp add: end_run_def fold_count_result)
  show "unat (rs_events_processed (sim_stats (end_run s'))) \<le> run_budget s"
    using assms by (simp add: end_run_def fold_count_result settled_def)
qed

text \<open>The two ledgers of \<open>books\<close>, as equations of the statistics that the run returns.\<close>

lemma settled_books:
  assumes "settled s s'"
  shows "ucast (rs_packets_retransmitted (sim_stats (end_run s'))) = retransmits s'"
    "rs_bytes_dropped (sim_stats (end_run s')) + rs_ack_bytes_dropped (sim_stats (end_run s')) = port_drops s'"
proof -
  have b: "ucast (rs_packets_retransmitted (sim_stats s')) - retransmits s' = 0"
    "rs_bytes_dropped (sim_stats s') + rs_ack_bytes_dropped (sim_stats s') - port_drops s' = 0"
    using assms by (simp_all add: settled_def books_def Let_def)
  show "ucast (rs_packets_retransmitted (sim_stats (end_run s'))) = retransmits s'"
    using b(1) by (simp add: end_run_def fold_count_result)
  have "dropped kd (sim_stats (end_run s')) = dropped kd (sim_stats s')" for kd
    unfolding end_run_def by (simp add: fold_count_result) (cases kd, simp_all)
  from this[of Data] this[of Ack]
  show "rs_bytes_dropped (sim_stats (end_run s')) + rs_ack_bytes_dropped (sim_stats (end_run s')) = port_drops s'"
    using b(2) by simp
qed

end
