(* ===== verification/Sim_Flows.thy ===== *)
theory Sim_Flows
  imports Sim_Result
begin

text \<open>
  \<open>add_flow\<close>: which specifications it accepts, and that it keeps the conditions on flows,
  routes and flat arrays that a run needs, so that any simulation made of a ready fabric
  and accepted flows is ready to run.
\<close>

definition spec_accepted :: "sim \<Rightarrow> FlowSpec \<Rightarrow> bool" where
  "spec_accepted s spec \<longleftrightarrow> 0 < fs_mtu_bytes spec \<and> unat (fs_mtu_bytes spec) \<le> 9216 \<and> 0 < fs_size_bytes spec
     \<and> id_index (fs_src spec) < node_count (sim_fabric s) \<and> id_index (fs_dst spec) < node_count (sim_fabric s)
     \<and> node_is_host (fab_nodes (sim_fabric s) ! id_index (fs_src spec))
     \<and> node_is_host (fab_nodes (sim_fabric s) ! id_index (fs_dst spec))
     \<and> fs_src spec \<noteq> fs_dst spec \<and> 0 < fs_load_permille spec \<and> fs_load_permille spec \<le> 1000
     \<and> (id_valid (fs_depends_on spec) \<longrightarrow> id_index (fs_depends_on spec) < nflows s)"

definition window_of :: "FlowSpec \<Rightarrow> nat" where
  "window_of spec = max 1 (min (unat (fs_window_pkts spec)) (packets_of spec))"

definition spec_fits :: "sim \<Rightarrow> FlowSpec \<Rightarrow> bool" where
  "spec_fits s spec \<longleftrightarrow> nflows s + 1 < 2 ^ 32 - 1
     \<and> sum_list (map unat (tots s)) + packets_of spec < 2 ^ 32
     \<and> sum_list (map unat (wins s)) + window_of spec < 2 ^ 31"

lemma packets_total_exact:
  assumes m: "0 < fs_mtu_bytes spec" and n: "packets_of spec < 2 ^ 32"
  shows "unat (ucast ((fs_size_bytes spec + ucast (fs_mtu_bytes spec) - 1) div ucast (fs_mtu_bytes spec)) :: u32) = packets_of spec"
proof -
  define mtu where "mtu = unat (fs_mtu_bytes spec)"
  define sz where "sz = unat (fs_size_bytes spec)"
  let ?m = "ucast (fs_mtu_bytes spec) :: u64"
  have mtu: "0 < mtu" "mtu < 2 ^ 16" using m unat_lt16[of "fs_mtu_bytes spec"]
    by (simp_all add: mtu_def word_less_nat_alt)
  have um: "unat ?m = mtu" by (simp add: mtu_def unat_ucast_up_eq)
  have "sz \<le> packets_of spec * mtu"
    using ceil_div_le_iff[OF mtu(1), of sz "packets_of spec"] by (simp add: packets_of_def sz_def mtu_def)
  also have "\<dots> \<le> 2 ^ 32 * 2 ^ 16" using n mtu(2) by (intro mult_le_mono) simp_all
  finally have room: "sz + mtu < 2 ^ 64" using mtu(2) by simp
  have a: "unat (fs_size_bytes spec + ?m) = sz + mtu"
    using room um by (subst unat_add_small) (simp_all add: sz_def)
  have "unat (fs_size_bytes spec + ?m - 1) = sz + mtu - 1"
    using a mtu(1) by (subst unat_sub_small) (simp_all add: word_le_nat_alt)
  then have "unat ((fs_size_bytes spec + ?m - 1) div ?m) = packets_of spec"
    using um by (simp add: unat_div packets_of_def ceil_div_def sz_def mtu_def)
  then show ?thesis using n by (simp add: unsigned_ucast_eq take_bit_nat_eq_self)
qed

lemma packets_positive: "0 < fs_mtu_bytes spec \<Longrightarrow> 0 < fs_size_bytes spec \<Longrightarrow> 0 < packets_of spec"
  by (simp add: packets_of_def ceil_div_def word_less_nat_alt div_greater_zero_iff)

text \<open>What \<open>add_flow\<close> appends.\<close>

definition flow_added :: "sim \<Rightarrow> FlowSpec \<Rightarrow> sim \<Rightarrow> bool" where
  "flow_added s spec s' \<longleftrightarrow> frozen s' = frozen s \<and> sim_routes s' = sim_routes s \<and> sim_transport s' = sim_transport s
     \<and> sim_specs s' = sim_specs s @ [spec]
     \<and> (\<exists>fr w tot. sim_froutes s' = sim_froutes s @ [fr] \<and> wins s' = wins s @ [w] \<and> tots s' = tots s @ [tot]
          \<and> unat w = window_of spec \<and> unat tot = packets_of spec
          \<and> flow_shape (frozen s) (nflows s) spec fr w tot)"

lemma psum_append: "i \<le> length ws \<Longrightarrow> psum (ws @ vs) i = psum ws i"
  by (simp add: psum_def)

lemma psum_all: "psum ws (length ws) = sum_list (map unat ws)"
  by (simp add: psum_def)

lemma add_flow_ok:
  assumes ok: "setup_ok s" and acc: "spec_accepted s spec" and fits: "spec_fits s spec"
  shows "\<exists>s'. add_flow spec s = Some (id_at (nflows s), s') \<and> setup_ok s' \<and> flow_added s spec s'"
proof -
  note A = acc[unfolded spec_accepted_def] and F = fits[unfolded spec_fits_def]
  note S = ok[unfolded setup_ok_def]
  have ready: "fabric_ready (frozen s) (sim_routes s)" using S by simp
  have fo: "fabric_ok (frozen s)" using ready by (simp add: fabric_ready_def)
  note hx = fabric_okD(3)[OF fo, unfolded hosts_indexed_def]
  define F' where "F' = sim_fabric s"
  have hosts: "\<exists>h. host_index F' u = Some h \<and> unat h < host_count (frozen s) \<and> fab_hosts (frozen s) ! unat h = u"
    if "id_index u < node_count F'" "node_is_host (fab_nodes F' ! id_index u)" for u
    using hx that by (auto simp: host_index_def fabric_simps F'_def intro!: exI[of _ "fab_host_index (sim_fabric s) ! id_index u"])
  obtain hs where hs: "host_index F' (fs_src spec) = Some hs" "unat hs < host_count (frozen s)"
    "fab_hosts (frozen s) ! unat hs = fs_src spec" using hosts[of "fs_src spec"] A by (auto simp: F'_def)
  obtain hd' where hd': "host_index F' (fs_dst spec) = Some hd'" "unat hd' < host_count (frozen s)"
    "fab_hosts (frozen s) ! unat hd' = fs_dst spec" using hosts[of "fs_dst spec"] A by (auto simp: F'_def)
  have po: "ports_of (frozen s) u = ports_of F' u" for u by (simp add: ports_of_def F'_def)
  obtain n1 r1 where n1: "ports_of F' (fs_src spec) = Some (n1 # r1)" "on_route (frozen s) (unat hd') (id_index n1)"
    "owner_index (frozen s) (id_index n1) = id_index (fs_src spec)"
    using route_nic[OF ready hd'(2), of "fs_src spec"] A hd'(3) unfolding po F'_def by auto
  obtain n2 r2 where n2: "ports_of F' (fs_dst spec) = Some (n2 # r2)" "on_route (frozen s) (unat hs) (id_index n2)"
    "owner_index (frozen s) (id_index n2) = id_index (fs_dst spec)"
    using route_nic[OF ready hs(2), of "fs_dst spec"] A hs(3) unfolding po F'_def by auto
  define tot where "tot = (ucast ((fs_size_bytes spec + ucast (fs_mtu_bytes spec) - 1) div ucast (fs_mtu_bytes spec)) :: u32)"
  define w0 where "w0 = min (fs_window_pkts spec) tot"
  define w where "w = (if w0 = 0 then 1 else w0)"
  have tot: "unat tot = packets_of spec"
    unfolding tot_def by (rule packets_total_exact) (use A F in simp_all)
  have tp: "0 < tot" using packets_positive[of spec] A tot by (simp add: word_less_nat_alt)
  have w: "unat w = window_of spec" "0 < w" "w \<le> tot"
    using tot tp by (auto simp: w_def w0_def window_of_def min_def max_def word_less_nat_alt word_le_nat_alt word_unat_eq_iff)
  define fr where "fr = \<lparr>frt_fwd_key = \<lparr>fk_src_ip = hs, fk_dst_ip = hd', fk_src_port = fs_src_port spec,
         fk_dst_port = fs_dst_port spec, fk_protocol = fs_protocol spec\<rparr>,
       frt_rev_key = \<lparr>fk_src_ip = hd', fk_dst_ip = hs, fk_src_port = fs_dst_port spec,
         fk_dst_port = fs_src_port spec, fk_protocol = fs_protocol spec\<rparr>,
       frt_dst_host = hd', frt_src_host = hs, frt_src_nic = n1, frt_dst_nic = n2\<rparr>"
  define tx where "tx = \<lparr>tx_next_seq = 0, tx_in_flight = 0, tx_window = w,
       tx_packets_total = tot, tx_acked_count = 0, tx_retx_head = 0, tx_retx_count = 0,
       tx_period_ns = 0, tx_next_send_ns = 0, tx_send_scheduled = False, tx_failed = False\<rparr>"
  define r where "r = \<lparr>res_start_ns = fs_start_ns spec, res_finish_ns = 0, res_delivered_bytes = 0,
       res_packets_total = tot, res_packets_delivered = 0, res_packets_dropped = 0,
       res_packets_retransmitted = 0, res_complete = False, res_failed = False\<rparr>"
  define s' where "s' = s\<lparr>
       sim_specs := sim_specs s @ [spec],
       sim_froutes := sim_froutes s @ [fr],
       sim_tx := sim_tx s @ [tx],
       sim_flow_pkt_offset := sim_flow_pkt_offset s @ [of_nat (length (sim_pkt_state s))],
       sim_pkt_state := sim_pkt_state s @ replicate (unat tot) 0,
       sim_pkt_attempt := sim_pkt_attempt s @ replicate (unat tot) 0,
       sim_retx_offset := sim_retx_offset s @ [of_nat (length (sim_retx_ring s))],
       sim_retx_ring := sim_retx_ring s @ replicate (unat w) 0,
       sim_results := sim_results s @ [r]\<rparr>"
  have "id_index (fs_src spec) < length (fab_nodes F')" "id_index (fs_dst spec) < length (fab_nodes F')"
    using A by (simp_all add: node_count_def F'_def)
  moreover have "(ucast (fs_mtu_bytes spec) :: u64) \<le> kMaxPacketBytes"
    using A by (simp add: kMaxPacketBytes_def word_le_nat_alt unat_ucast_up_eq)
  ultimately have run: "add_flow spec s = Some (id_at (nflows s), s')"
    using A hs(1) hd'(1) n1(1) n2(1) unfolding F'_def[symmetric]
    by (simp add: add_flow_def fabric_node_def fabric_simps F'_def[symmetric] tot_def[symmetric] Let_def
        w0_def[symmetric] fr_def tx_def r_def w_def s'_def)
  have shape: "flow_shape (frozen s) (nflows s) spec fr w tot"
    using A tot tp w hs hd' n1(2,3) n2(2,3) by (simp add: flow_shape_def fr_def)
  have V: "wins s' = wins s @ [w]" "tots s' = tots s @ [tot]"
    by (simp_all add: wins_def tots_def s'_def tx_def)
  have L: "length (wins s) = nflows s" "length (tots s) = nflows s" "length (sim_froutes s) = nflows s"
    using S by simp_all
  have off: "map (\<lambda>i. of_nat (psum (ws @ [x]) i) :: u32) [0..<Suc (length ws)]
      = map (\<lambda>i. of_nat (psum ws i)) [0..<length ws] @ [of_nat (sum_list (map unat ws))]" for ws x
    by (simp add: psum_append psum_all cong: map_cong)
  have "setup_ok s'"
    unfolding setup_ok_def V
  proof (intro conjI allI impI)
    show "sim_flow_pkt_offset s' = map (\<lambda>i. of_nat (psum (tots s @ [tot]) i)) [0..<length (sim_specs s')]"
      using off[of "tots s" tot] S by (simp add: s'_def L)
    show "sim_retx_offset s' = map (\<lambda>i. of_nat (psum (wins s @ [w]) i)) [0..<length (sim_specs s')]"
      using off[of "wins s" w] S by (simp add: s'_def L)
    show "flow_shape (frozen s') i (sim_specs s' ! i) (sim_froutes s' ! i) ((wins s @ [w]) ! i) ((tots s @ [tot]) ! i)"
      if "i < length (sim_specs s')" for i
      using that shape S by (auto simp: s'_def nth_append L less_Suc_eq)
  qed (use S F w(1) tot in \<open>simp_all add: s'_def L r_def\<close>)
  moreover have "flow_added s spec s'"
    unfolding flow_added_def V using shape w(1) tot by (auto simp: s'_def)
  ultimately show ?thesis using run by blast
qed

text \<open>The assertions are the whole error behaviour: what they reject is not added, and nothing else is rejected.\<close>

lemma add_flow_rejects:
  assumes "\<not> spec_accepted s spec"
  shows "add_flow spec s = None"
proof (rule ccontr)
  assume "add_flow spec s \<noteq> None"
  then obtain x where "add_flow spec s = Some x" by auto
  then have "spec_accepted s spec"
    by (auto simp: add_flow_def Let_def checked_iffs fabric_node_def spec_accepted_def node_count_def
        kMaxPacketBytes_def word_le_nat_alt unat_ucast_up_eq)
  then show False using assms by simp
qed

lemma setup_new:
  assumes "fabric_ready (reset_state f) rt"
  shows "setup_ok (sim_new f rt)"
  using assms by (simp add: setup_ok_def sim_new_def wins_def tots_def)

lemma setup_transport: "setup_ok (set_transport cfg s) \<longleftrightarrow> setup_ok s"
  by (simp add: set_transport_def setup_ok_def wins_def tots_def)

section \<open>Adding a list of flows\<close>

definition add_flows :: "FlowSpec list \<Rightarrow> sim \<Rightarrow> sim option" where
  "add_flows = fold_opt (\<lambda>spec s. do { (_, s') \<leftarrow> add_flow spec s; Some s' })"

end
