(* ===== verification/Sim_Reach.thy ===== *)
theory Sim_Reach
  imports Sim_Flows
begin

text \<open>
  The states a run passes through, as an inductive relation, and what holds in every one of
  them: the invariant of the run, so that no step ever fails, windows are respected and no
  byte is lost from the books.
\<close>

inductive reaches :: "policy \<Rightarrow> sim \<Rightarrow> sim \<Rightarrow> bool" for select s where
  reach_begin: "begin_run s = Some t \<Longrightarrow> reaches select s t"
| reach_step: "reaches select s u \<Longrightarrow> \<not> eq_empty (sim_queue u) \<Longrightarrow> run_step select u = Some v \<Longrightarrow>
    reaches select s v"

inductive_cases reaches_cases: "reaches select s u"

lemma begin_run_inv:
  assumes "run_ready s D H" "begin_run s = Some t"
  shows "sim_inv t" "fixed t = fixed s" "run_delays t D" "run_timed t H" "potential t = run_budget s"
proof -
  have ok: "setup_ok s" and tr: "transport_ok s" using assms(1) by (simp_all add: run_ready_def)
  then have r: "reset_upto s (nflows s) t" using begin_run_reset[OF ok tr] assms(2) by auto
  show "sim_inv t" "potential t = run_budget s"
    by (rule reset_inv[OF ok tr r], rule reset_potential[OF ok r])
  show "fixed t = fixed s" using r by (simp add: reset_upto_def)
  show "run_delays t D" "run_timed t H" using assms(1) reset_timing[OF ok r] by (simp_all add: run_ready_def)
qed

lemma reach_inv:
  assumes "reaches select s u" "run_ready s D H" "routing_policy select"
  shows "sim_inv u \<and> fixed u = fixed s \<and> run_delays u D
    \<and> (\<exists>n. run_timed u (H + n * D) \<and> n + potential u \<le> run_budget s)"
  using assms(1)
proof induction
  case (reach_begin t)
  note B = begin_run_inv[OF assms(2) reach_begin]
  have "run_timed t (H + 0 * D) \<and> 0 + potential t \<le> run_budget s" using B by simp
  then show ?case using B by blast
next
  case (reach_step u v)
  then obtain n where n: "run_timed u (H + n * D)" "n + potential u \<le> run_budget s" and
    u: "sim_inv u" "fixed u = fixed s" "run_delays u D" by blast
  have st: "stepped u v" and tm: "H + n * D + D < 2 ^ 64 \<longrightarrow> run_timed v (H + n * D + D)"
    using run_step_ok[OF u(1) assms(3) reach_step.hyps(2) u(3) n(1)] reach_step.hyps(3) by auto
  note st = st[unfolded stepped_def]
  have "Suc n * D \<le> run_budget s * D" using st n(2) by (intro mult_le_mono1) simp
  then have "H + n * D + D < 2 ^ 64" using assms(2) by (simp add: run_ready_def)
  then have "run_timed v (H + Suc n * D)" using tm by (simp add: algebra_simps)
  moreover have "Suc n + potential v \<le> run_budget s" using st n(2) by simp
  moreover have "run_delays v D" using st u(3) run_delays_cong[of v u D] by simp
  ultimately show ?case using st u(2) by (intro conjI exI[of _ "Suc n"]) simp_all
qed

lemma reach_sim_inv: "reaches select s u \<Longrightarrow> run_ready s D H \<Longrightarrow> routing_policy select \<Longrightarrow> sim_inv u"
  using reach_inv by blast

lemma reach_nflows: "reaches select s u \<Longrightarrow> run_ready s D H \<Longrightarrow> routing_policy select \<Longrightarrow> nflows u = nflows s"
  using reach_inv fixed_nflows by metis

text \<open>No assertion fails, no index is out of range, no division is by zero: the next step exists.\<close>

lemma reach_progress:
  assumes "reaches select s u" "run_ready s D H" "routing_policy select" "\<not> eq_empty (sim_queue u)"
  shows "\<exists>v. run_step select u = Some v \<and> reaches select s v \<and> sim_now u \<le> sim_now v
    \<and> potential v < potential u"
proof -
  obtain n where "sim_inv u" "run_delays u D" "run_timed u (H + n * D)"
    using reach_inv[OF assms(1-3)] by blast
  then obtain v where "run_step select u = Some v" "stepped u v"
    using run_step_ok assms(3,4) by blast
  then show ?thesis using assms(1,4) reach_step by (auto simp: stepped_def)
qed

lemma reach_window:
  assumes "reaches select s u" "run_ready s D H" "routing_policy select" "i < nflows s"
  shows "unat (tx_in_flight (sim_tx u ! i)) + length (retx u i) \<le> unat (tx_window (sim_tx u ! i))"
    "unat (tx_in_flight (sim_tx u ! i)) = card {idx. bit (pst u i idx) 2}"
    "tx_next_seq (sim_tx u ! i) \<le> tx_packets_total (sim_tx u ! i)" "distinct (retx u i)"
    "bit (pst u i idx) 1 \<Longrightarrow> bit (pst u i idx) 0 \<and> \<not> bit (pst u i idx) 2"
proof -
  have "flow_inv u i" using run_invD(5)[OF reach_sim_inv[OF assms(1-3)]] assms(4) reach_nflows[OF assms(1-3)] by simp
  note F = flow_invD[OF this]
  note S = sender_okD[OF F(1)[unfolded sender_at_def, THEN conjunct1]]
  show "unat (tx_in_flight (sim_tx u ! i)) + length (retx u i) \<le> unat (tx_window (sim_tx u ! i))"
    "unat (tx_in_flight (sim_tx u ! i)) = card {idx. bit (pst u i idx) 2}"
    "tx_next_seq (sim_tx u ! i) \<le> tx_packets_total (sim_tx u ! i)" "distinct (retx u i)"
    using S(1,3-5) by simp_all
  show "bit (pst u i idx) 1 \<Longrightarrow> bit (pst u i idx) 0 \<and> \<not> bit (pst u i idx) 2"
    using S(9)[of idx] F(2) by (simp add: receiver_ok_def)
qed

lemma reach_conserved:
  assumes "reaches select s u" "run_ready s D H" "routing_policy select"
  shows "injected kd (sim_stats u) = delivered kd (sim_stats u) + dropped kd (sim_stats u) + bytes_in kd (carried u)"
  using run_invD(10)[OF reach_sim_inv[OF assms], of kd] by (simp add: unaccounted_def algebra_simps)

lemma reach_ports:
  assumes "reaches select s u" "run_ready s D H" "routing_policy select" "i < port_count (sim_fabric u)"
  shows "length (ring_list (port_queue (fab_ports (sim_fabric u) ! i))) \<le> ring_capacity (port_queue (fab_ports (sim_fabric u) ! i))"
    "count (tx_pending (events u)) i = of_bool (port_busy (fab_ports (sim_fabric u) ! i))"
    "\<not> port_busy (fab_ports (sim_fabric u) ! i) \<Longrightarrow> ring_list (port_queue (fab_ports (sim_fabric u) ! i)) = []"
proof -
  have "ports_ok (sim_fabric u) (tx_pending (events u))"
    using run_invD(4)[OF reach_sim_inv[OF assms(1-3)]] by (simp add: net_inv_def)
  note P = ports_okD[OF this assms(4)]
  show "length (ring_list (port_queue (fab_ports (sim_fabric u) ! i))) \<le> ring_capacity (port_queue (fab_ports (sim_fabric u) ! i))"
    using P(1) by (simp add: ring_inv_def)
  show "count (tx_pending (events u)) i = of_bool (port_busy (fab_ports (sim_fabric u) ! i))"
    "\<not> port_busy (fab_ports (sim_fabric u) ! i) \<Longrightarrow> ring_list (port_queue (fab_ports (sim_fabric u) ! i)) = []"
    using P(2,3) by auto
qed

end
