(* ===== verification/Sample_Run.thy ===== *)
theory Sample_Run
  imports Sample_Fabric Sim_Reach
begin

text \<open>
  Two flows over the sample fabric, the second waiting on the first, and the facts that let
  the properties of a run be applied to them.  Concrete inputs only.
\<close>

definition sample_spec :: "nat \<Rightarrow> FlowSpec" where
  "sample_spec k = (if k = 0
     then default_flow_spec\<lparr>fs_src := Id 1, fs_dst := Id 2, fs_size_bytes := 2500, fs_window_pkts := 2\<rparr>
     else default_flow_spec\<lparr>fs_src := Id 2, fs_dst := Id 1, fs_size_bytes := 100, fs_depends_on := Id 0\<rparr>)"

definition sample_blank :: sim where
  "sample_blank = set_transport (default_transport\<lparr>tc_rto_ns := 100000\<rparr>) (sim_new sample_fabric sample_routes)"

definition sample_one :: sim where
  "sample_one = snd (the (add_flow (sample_spec 0) sample_blank))"

definition sample_sim :: sim where
  "sample_sim = snd (the (add_flow (sample_spec 1) sample_one))"

lemma sample_frozen: "reset_state sample_fabric = sample_fabric"
  by code_simp

lemma sample_blank_ok: "setup_ok sample_blank"
  unfolding sample_blank_def setup_transport by (rule setup_new) (simp add: sample_frozen sample_ready)

lemma sample_specs [simp]:
  "fs_src (sample_spec 0) = Id 1" "fs_dst (sample_spec 0) = Id 2" "fs_size_bytes (sample_spec 0) = 2500"
  "fs_start_ns (sample_spec 0) = 0" "fs_mtu_bytes (sample_spec 0) = 1500" "fs_window_pkts (sample_spec 0) = 2"
  "fs_load_permille (sample_spec 0) = 1000" "fs_depends_on (sample_spec 0) = id_invalid"
  "fs_src (sample_spec (Suc 0)) = Id 2" "fs_dst (sample_spec (Suc 0)) = Id 1" "fs_size_bytes (sample_spec (Suc 0)) = 100"
  "fs_start_ns (sample_spec (Suc 0)) = 0" "fs_mtu_bytes (sample_spec (Suc 0)) = 1500" "fs_window_pkts (sample_spec (Suc 0)) = 32"
  "fs_load_permille (sample_spec (Suc 0)) = 1000" "fs_depends_on (sample_spec (Suc 0)) = Id 0"
  by (simp_all add: sample_spec_def default_flow_spec_def)

lemma sample_packets: "packets_of (sample_spec 0) = 2" "packets_of (sample_spec (Suc 0)) = 1"
  by (simp_all add: packets_of_def ceil_div_def)

lemma sample_one_accepts: "spec_accepted sample_blank (sample_spec 0)" "spec_fits sample_blank (sample_spec 0)"
proof -
  have f: "sim_fabric sample_blank = sample_fabric" "nflows sample_blank = 0" "tots sample_blank = []" "wins sample_blank = []"
    by (simp_all add: sample_blank_def set_transport_def sim_new_def tots_def wins_def)
  then show "spec_accepted sample_blank (sample_spec 0)"
    by (simp add: spec_accepted_def node_count_def id_index_def sample_fabric_def id_valid_def id_invalid_def)
  show "spec_fits sample_blank (sample_spec 0)"
    by (simp add: spec_fits_def f window_of_def sample_packets)
qed

lemma sample_one_ok: "setup_ok sample_one" "flow_added sample_blank (sample_spec 0) sample_one"
  using add_flow_ok[OF sample_blank_ok sample_one_accepts] by (auto simp: sample_one_def)

lemma sample_sim_accepts: "spec_accepted sample_one (sample_spec 1)" "spec_fits sample_one (sample_spec 1)"
proof -
  have f: "sim_fabric sample_one = sample_fabric" "nflows sample_one = 1" "tots sample_one = [2]" "wins sample_one = [2]"
    by code_simp+
  then show "spec_accepted sample_one (sample_spec 1)"
    by (simp add: spec_accepted_def node_count_def id_index_def sample_fabric_def id_valid_def)
  show "spec_fits sample_one (sample_spec 1)"
    by (simp add: spec_fits_def f window_of_def sample_packets)
qed

lemma sample_sim_ok: "setup_ok sample_sim" "flow_added sample_one (sample_spec 1) sample_sim"
  using add_flow_ok[OF sample_one_ok(1) sample_sim_accepts] by (auto simp: sample_sim_def)

lemma sample_sim_transport: "transport_ok sample_sim" "sim_transport sample_sim = default_transport\<lparr>tc_rto_ns := 100000\<rparr>"
  by code_simp+

lemma sample_sim_frozen: "frozen sample_sim = sample_fabric"
  using sample_sim_ok(2) sample_one_ok(2)
  by (simp add: flow_added_def sample_blank_def set_transport_def sim_new_def sample_frozen)

lemma sample_sim_specs: "sim_specs sample_sim = [sample_spec 0, sample_spec 1]" "nflows sample_sim = 2"
  using sample_sim_ok(2) sample_one_ok(2)
  by (simp_all add: flow_added_def sample_blank_def set_transport_def sim_new_def)

lemma sample_delays: "delay_bound sample_sim 100000"
proof -
  have ser: "unat t \<le> 100000" if "serialization_ns (ucast (b :: u16)) 8000000000 = Some t" for b t
  proof -
    have b: "unat (ucast b :: u64) = unat b" by (simp add: unat_ucast_up_eq)
    have "unat (ucast b * 8 * 1000000000 :: u64) = unat b * 8000000000"
      using unat_lt16[of b] b by (simp add: unat_mult_small)
    then have "unat t = unat b * 8000000000 div 8000000000"
      using that by (auto simp: serialization_ns_def kBitsPerByte_def kNanosPerSec_def unat_div split: if_splits)
    then show ?thesis using unat_lt16[of b] by simp
  qed
  have "list_all (\<lambda>p. port_rate p = 8000000000 \<and> port_prop_delay_ns p = 5) (fab_ports sample_fabric)"
    by code_simp
  then have "port_rate (fab_ports sample_fabric ! i) = 8000000000 \<and> unat (port_prop_delay_ns (fab_ports sample_fabric ! i)) \<le> 100000"
    if "i < port_count sample_fabric" for i
    using that unfolding list_all_length port_count_def by simp
  then have "delays_ok (frozen sample_sim) 100000"
    using ser by (simp add: delays_ok_def sample_sim_frozen)
  moreover have "flow_period sample_sim 0 = Some 1500" "flow_period sample_sim 1 = Some 1500" by code_simp+
  then have "\<forall>i < nflows sample_sim. \<forall>p. flow_period sample_sim i = Some p \<longrightarrow> unat p \<le> 100000"
    by (auto simp: sample_sim_specs less_Suc_eq)
  ultimately show ?thesis by (simp add: delay_bound_def sample_sim_transport(2))
qed

lemma sample_budget: "run_budget sample_sim = 434"
  by code_simp

lemma sample_run_ready: "run_ready sample_sim 100000 0"
proof -
  have "starts_by sample_sim 0" by (auto simp: starts_by_def sample_sim_specs less_Suc_eq)
  then show ?thesis
    using sample_sim_ok(1) sample_sim_transport(1) sample_delays by (simp add: run_ready_def sample_budget)
qed

section \<open>What the run of the sample returns\<close>

definition sample_end :: sim where
  "sample_end = snd (the (run_sim static_first_select sample_sim))"

lemma sample_results: "map (\<lambda>r. (res_start_ns r, res_finish_ns r, res_delivered_bytes r, res_complete r, res_failed r)) (sim_results sample_end)
    = [(0, 4010, 2500, True, False), (4010, 4284, 100, True, False)]"
  by code_simp

lemma sample_end_run: "run_sim static_first_select sample_sim = Some (sim_stats sample_end, sample_end)"
  using run_sim_ok[OF sample_run_ready static_policy.routing_policy_axioms] by (auto simp: sample_end_def)

lemma sample_complete: "res_complete (sim_results sample_end ! 0)" "res_complete (sim_results sample_end ! 1)"
proof -
  have "map res_complete (sim_results sample_end) = [True, True]"
    using arg_cong[OF sample_results, of "map (\<lambda>t. fst (snd (snd (snd t))))"] by (simp add: comp_def)
  then obtain a b where "sim_results sample_end = [a, b]" "res_complete a" "res_complete b"
    by (cases "sim_results sample_end" rule: remdups_adj.cases) auto
  then show "res_complete (sim_results sample_end ! 0)" "res_complete (sim_results sample_end ! 1)" by simp_all
qed

lemma sample_begin: "\<exists>u. begin_run sample_sim = Some u \<and> \<not> eq_empty (sim_queue u)"
proof -
  have "begin_run sample_sim \<noteq> None \<and> \<not> eq_empty (sim_queue (the (begin_run sample_sim)))" by code_simp
  then show ?thesis by auto
qed

text \<open>The same flows under a timeout so short that the first one gives up: it fails, and the second never starts.\<close>

definition starved_sim :: sim where
  "starved_sim = set_transport \<lparr>tc_ack_bytes = 64, tc_rto_ns = 1, tc_max_attempts = 1\<rparr> sample_sim"

definition starved_end :: sim where
  "starved_end = snd (the (run_sim static_first_select starved_sim))"

lemma starved_specs: "sim_specs starved_sim = [sample_spec 0, sample_spec 1]"
  using sample_sim_specs by (simp add: starved_sim_def set_transport_def)

lemma starved_run_ready: "run_ready starved_sim 100000 0"
proof -
  have "setup_ok starved_sim" using sample_sim_ok(1) by (simp add: starved_sim_def setup_transport)
  moreover have "transport_ok starved_sim" by code_simp
  moreover have "flow_period starved_sim = flow_period sample_sim"
    by (simp add: fun_eq_iff flow_period_def starved_sim_def set_transport_def)
  then have "delay_bound starved_sim 100000"
    using sample_delays by (simp add: delay_bound_def) (simp add: starved_sim_def set_transport_def)
  moreover have "starts_by starved_sim 0"
    using sample_run_ready by (simp add: run_ready_def starts_by_def starved_sim_def set_transport_def)
  moreover have "run_budget starved_sim = 56" by code_simp
  ultimately show ?thesis by (simp add: run_ready_def)
qed

lemma starved_results: "map (\<lambda>r. (res_delivered_bytes r, res_complete r, res_failed r)) (sim_results starved_end)
    = [(1500, False, True), (0, False, False)]"
  by code_simp

lemma starved_end_run: "run_sim static_first_select starved_sim = Some (sim_stats starved_end, starved_end)"
  using run_sim_ok[OF starved_run_ready static_policy.routing_policy_axioms] by (auto simp: starved_end_def)

lemma starved_incomplete: "\<not> res_complete (sim_results starved_end ! 1)"
proof -
  have "map res_complete (sim_results starved_end) = [False, False]"
    using arg_cong[OF starved_results, of "map (\<lambda>t. fst (snd t))"] by (simp add: comp_def)
  then obtain a b where "sim_results starved_end = [a, b]" "\<not> res_complete a" "\<not> res_complete b"
    by (cases "sim_results starved_end" rule: remdups_adj.cases) auto
  then show ?thesis by simp
qed

end
