(* ===== verification/Fabric_Links.thy ===== *)
theory Fabric_Links
  imports Sim_Routes
begin

text \<open>
  From an edge list to the conditions a run needs of its fabric: the links of a built fabric
  are its edges, the degree of a node is the number of its edges, and distances are known
  once a level function is: zero at the destination, one lower over some link everywhere else.
\<close>

section \<open>What the builder makes of the edges\<close>

definition builder_links :: "fabric_builder \<Rightarrow> (nat \<times> nat) set" where
  "builder_links b = (\<Union>e \<in> set (fb_edges b). {(id_index (edge_a e), id_index (edge_b e)),
     (id_index (edge_b e), id_index (edge_a e))})"

lemma build_facts:
  assumes b: "builder_inv b" and f: "build b = Some f"
  defines "ks \<equiv> endpoint_keys (fb_edges b)" and "n \<equiv> length (fb_is_host b)"
  shows "fab_nodes f = map (\<lambda>k. laid_node ks (length ks) (fb_is_host b ! k) k) [0..<n]"
    "port_count f = length ks" "node_count f = n"
    "\<And>j. j < length ks \<Longrightarrow> fab_ports f ! slot ks j = endpoint_port (fb_edges b) j"
    "fab_hosts f = map id_at (filter (\<lambda>k. fb_is_host b ! k \<noteq> 0) [0..<n])"
proof -
  show nodes: "fab_nodes f = map (\<lambda>k. laid_node ks (length ks) (fb_is_host b ! k) k) [0..<n]"
    and "port_count f = length ks"
    and "\<And>j. j < length ks \<Longrightarrow> fab_ports f ! slot ks j = endpoint_port (fb_edges b) j"
    using build_spec[OF b] f by (auto simp: ks_def n_def port_count_def)
  then show "node_count f = n" by (simp add: node_count_def)
  have "(fab_host_index f, fab_hosts f) = index_hosts 0 (fab_nodes f) []"
    using build_spec[OF b] f by auto
  then have "fab_hosts f = map id_at (filter (\<lambda>k. node_is_host (fab_nodes f ! k)) [0..<n])"
    by (simp add: index_hosts_spec nodes)
  also have "filter (\<lambda>k. node_is_host (fab_nodes f ! k)) [0..<n] = filter (\<lambda>k. fb_is_host b ! k \<noteq> 0) [0..<n]"
    by (rule filter_cong) (auto simp: nodes laid_node_def)
  finally show "fab_hosts f = map id_at (filter (\<lambda>k. fb_is_host b ! k \<noteq> 0) [0..<n])" .
qed

lemma build_port_edge:
  assumes b: "builder_inv b" and f: "build b = Some f" and p: "p < port_count f"
  obtains j where "j < 2 * length (fb_edges b)" "slot (endpoint_keys (fb_edges b)) j = p"
    "fab_ports f ! p = endpoint_port (fb_edges b) j" "fb_edges b ! (j div 2) \<in> set (fb_edges b)"
proof -
  obtain j where j: "j < length (endpoint_keys (fb_edges b))" "slot (endpoint_keys (fb_edges b)) j = p"
    using slot_surj p build_facts(2)[OF b f] by metis
  then show ?thesis using that[of j] build_facts(4)[OF b f j(1)] by auto
qed

lemma build_links:
  assumes b: "builder_inv b" and f: "build b = Some f"
  shows "links f = builder_links b"
proof (intro equalityI subsetI)
  fix x assume "x \<in> links f"
  then obtain p where p: "p < port_count f" "x = (id_index (port_owner (fab_ports f ! p)), peer_index f p)"
    by (auto simp: links_def)
  obtain j where j: "fab_ports f ! p = endpoint_port (fb_edges b) j" "fb_edges b ! (j div 2) \<in> set (fb_edges b)"
    by (rule build_port_edge[OF b f p(1)])
  then show "x \<in> builder_links b" using p(2) by (auto simp: builder_links_def peer_index_def)
next
  let ?ks = "endpoint_keys (fb_edges b)"
  fix x assume "x \<in> builder_links b"
  then obtain e where e: "e \<in> set (fb_edges b)"
    "x \<in> {(id_index (edge_a e), id_index (edge_b e)), (id_index (edge_b e), id_index (edge_a e))}"
    by (auto simp: builder_links_def)
  obtain i where i: "i < length (fb_edges b)" "fb_edges b ! i = e" using e(1) by (auto simp: in_set_conv_nth)
  define j where "j = (if x = (id_index (edge_a e), id_index (edge_b e)) then 2 * i else Suc (2 * i))"
  have j: "j < length ?ks" "j div 2 = i" using i(1) by (auto simp: j_def)
  have "slot ?ks j < port_count f" using slot_less[OF j(1)] build_facts(2)[OF b f] by simp
  moreover have "x = (id_index (port_owner (fab_ports f ! slot ?ks j)), peer_index f (slot ?ks j))"
    using build_facts(4)[OF b f j(1)] e(2) i(2) j(2) by (auto simp: peer_index_def j_def)
  ultimately show "x \<in> links f" by (auto simp: links_def)
qed

lemma build_rates:
  assumes "builder_inv b" "build b = Some f" "\<forall>e \<in> set (fb_edges b). lp_rate (edge_params e) \<noteq> 0"
  shows "rates_ok f"
  unfolding rates_ok_def
proof (intro allI impI)
  fix p assume "p < port_count f"
  then obtain j where "fab_ports f ! p = endpoint_port (fb_edges b) j" "fb_edges b ! (j div 2) \<in> set (fb_edges b)"
    using build_port_edge[OF assms(1,2)] by metis
  then show "port_rate (fab_ports f ! p) \<noteq> 0" using assms(3) by simp
qed

lemma build_degree:
  assumes "builder_inv b" "build b = Some f" "k < length (fb_is_host b)"
  shows "node_port_count (fab_nodes f ! k) = of_nat (count_list (endpoint_keys (fb_edges b)) k)"
    "node_is_host (fab_nodes f ! k) \<longleftrightarrow> fb_is_host b ! k \<noteq> 0"
  using build_facts(1)[OF assms(1,2)] assms(3) by (simp_all add: laid_node_def)

text \<open>A fresh fabric is already in its reset state.\<close>

lemma reset_endpoint: "reset_port (endpoint_port es j) = endpoint_port es j"
  by (simp add: endpoint_port_def wire_port_def reset_port_def Let_def default_port_def ring_init_def)

lemma build_reset:
  assumes "builder_inv b" "build b = Some f"
  shows "reset_state f = f"
proof -
  have "reset_port p = p" if p: "p \<in> set (fab_ports f)" for p
  proof -
    obtain i where "i < port_count f" "fab_ports f ! i = p" using p by (auto simp: in_set_conv_nth port_count_def)
    then show ?thesis using build_port_edge[OF assms] reset_endpoint by metis
  qed
  then have "map reset_port (fab_ports f) = fab_ports f" by (simp add: map_idI)
  then show ?thesis by (simp add: reset_state_def)
qed

section \<open>Distances from levels\<close>

lemma levels_min_hops:
  fixes lev :: "nat \<Rightarrow> nat"
  assumes s: "lev s = 0" "\<And>v. v \<in> V \<Longrightarrow> lev v = 0 \<Longrightarrow> v = s"
    and up: "\<And>u v. (u, v) \<in> R \<Longrightarrow> lev v \<le> Suc (lev u)"
    and down: "\<And>v. v \<in> V \<Longrightarrow> 0 < lev v \<Longrightarrow> \<exists>u \<in> V. (u, v) \<in> R \<and> lev v = Suc (lev u)"
    and v: "v \<in> V"
  shows "min_hops R s v (lev v)"
proof -
  have far: "lev w \<le> m" if "(s, w) \<in> R ^^ m" for w m
    using that
  proof (induction m arbitrary: w)
    case (Suc m)
    then obtain u where "(s, u) \<in> R ^^ m" "(u, w) \<in> R" by auto
    then show ?case using Suc.IH[of u] up[of u w] by linarith
  qed (simp add: s)
  have "(s, w) \<in> R ^^ lev w" if "w \<in> V" for w
    using that
  proof (induction "lev w" arbitrary: w)
    case 0
    then show ?case using s(2)[of w] by simp
  next
    case (Suc m)
    then obtain u where u: "u \<in> V" "(u, w) \<in> R" "lev w = Suc (lev u)" using down[of w] by auto
    then have "(s, u) \<in> R ^^ m" using Suc.hyps(1)[of u] Suc.hyps(2) by simp
    then show ?case using u(2) Suc.hyps(2) by (metis relpow_Suc_I)
  qed
  then show ?thesis using far v unfolding min_hops_def by (meson leD)
qed

text \<open>
  The same through an injective numbering \<open>ix\<close> of abstract nodes, which is how the
  topologies number theirs.
\<close>

lemma levels_min_hops_image:
  fixes lev :: "'a \<Rightarrow> nat"
  assumes R: "R = (\<lambda>(u, v). (ix u, ix v)) ` adj" and adj: "\<And>u v. (u, v) \<in> adj \<Longrightarrow> u \<in> V \<and> v \<in> V"
    and inj: "inj_on ix V" and s: "s \<in> V" "lev s = 0" "\<And>v. v \<in> V \<Longrightarrow> lev v = 0 \<Longrightarrow> v = s"
    and up: "\<And>u v. (u, v) \<in> adj \<Longrightarrow> lev v \<le> Suc (lev u)"
    and down: "\<And>v. v \<in> V \<Longrightarrow> 0 < lev v \<Longrightarrow> \<exists>u. (u, v) \<in> adj \<and> lev v = Suc (lev u)"
    and v: "v \<in> V"
  shows "min_hops R (ix s) (ix v) (lev v)"
proof -
  define g where "g = (\<lambda>n. lev (inv_into V ix n))"
  have g: "g (ix u) = lev u" if "u \<in> V" for u using inv_into_f_f[OF inj that] by (simp add: g_def)
  have "min_hops R (ix s) (ix v) (g (ix v))"
  proof (rule levels_min_hops[where V = "ix ` V"])
    show "g (ix s) = 0" using g[OF s(1)] s(2) by simp
    show "w = ix s" if w: "w \<in> ix ` V" "g w = 0" for w
    proof -
      obtain x where x: "x \<in> V" "w = ix x" using w(1) by blast
      then show ?thesis using s(3)[OF x(1)] g[OF x(1)] w(2) by simp
    qed
    show "g w \<le> Suc (g u)" if e: "(u, w) \<in> R" for u w
    proof -
      obtain x y where xy: "(x, y) \<in> adj" "u = ix x" "w = ix y" using e R by auto
      then show ?thesis using adj[OF xy(1)] up[OF xy(1)] g by simp
    qed
    show "\<exists>u \<in> ix ` V. (u, w) \<in> R \<and> g w = Suc (g u)" if w: "w \<in> ix ` V" "0 < g w" for w
    proof -
      obtain x where x: "x \<in> V" "w = ix x" using w(1) by blast
      then obtain u where u: "(u, x) \<in> adj" "lev x = Suc (lev u)" using down[of x] w(2) g by auto
      then show ?thesis using adj[OF u(1)] x g R by (intro bexI[of _ "ix u"]) auto
    qed
    show "ix v \<in> ix ` V" using v by simp
  qed
  then show ?thesis using g[OF v] by simp
qed

lemma reachable_from_hops:
  assumes ok: "fabric_ok F" and all: "\<And>h u. h < host_count F \<Longrightarrow> u < node_count F \<Longrightarrow>
    \<exists>n. min_hops (links F) (id_index (fab_hosts F ! h)) u n"
  shows "all_reachable F"
  unfolding all_reachable_def
proof (intro allI impI)
  fix h u assume h: "h < host_count F" and u: "u < node_count F"
  show "host_dist F h ! u \<noteq> kUnreachable"
    using all[OF h u] host_dist_min_hops(1)[OF ok h u] by simp
qed

text \<open>Everything a run needs of a fabric, from its edge list.\<close>

lemma build_ready:
  assumes b: "builder_inv b" "length (fb_is_host b) < 2 ^ 32 - 1" and f: "build b = Some f"
    and rates: "\<forall>e \<in> set (fb_edges b). lp_rate (edge_params e) \<noteq> 0"
    and single: "\<And>k. k < length (fb_is_host b) \<Longrightarrow> fb_is_host b ! k \<noteq> 0 \<Longrightarrow> count_list (endpoint_keys (fb_edges b)) k = 1"
    and hops: "\<And>k u. k < length (fb_is_host b) \<Longrightarrow> fb_is_host b ! k \<noteq> 0 \<Longrightarrow> u < length (fb_is_host b) \<Longrightarrow>
      \<exists>n. min_hops (builder_links b) k u n"
    and size: "2 * length (fb_edges b) * length (filter (\<lambda>h. h \<noteq> 0) (fb_is_host b)) < 2 ^ 32"
  shows "\<exists>rt. build_shortest_path f = Some rt \<and> fabric_ready f rt \<and> reset_state f = f"
proof -
  note F = build_facts[OF b(1) f]
  have n: "node_count f = length (fb_is_host b)" using F(3) .
  have ok: "fabric_ok f" using build_shape[OF b(1) f] b(2) n by (simp add: fabric_ok_def)
  have "filter (\<lambda>k. fb_is_host b ! k \<noteq> 0) [0..<length (fb_is_host b)] = filter (\<lambda>k. ((\<lambda>h. h \<noteq> 0) \<circ> (!) (fb_is_host b)) k) [0..<length (fb_is_host b)]"
    by simp
  then have "length (filter (\<lambda>k. fb_is_host b ! k \<noteq> 0) [0..<length (fb_is_host b)])
      = length (filter (\<lambda>h. h \<noteq> 0) (map ((!) (fb_is_host b)) [0..<length (fb_is_host b)]))"
    by (simp add: filter_map comp_def)
  then have "host_count f = length (filter (\<lambda>h. h \<noteq> 0) (fb_is_host b))" by (simp add: host_count_def F(5) map_nth)
  then have size': "port_count f * host_count f < 2 ^ 32" using size F(2) by simp
  obtain rt where rt: "build_shortest_path f = Some rt" using build_shortest_path_spec[OF ok size'] by blast
  have host: "id_index (fab_hosts f ! h) < length (fb_is_host b) \<and> fb_is_host b ! id_index (fab_hosts f ! h) \<noteq> 0"
    if "h < host_count f" for h
    using fabric_okD(3)[OF ok] that build_degree(2)[OF b(1) f] n by (auto simp: hosts_indexed_def)
  have "hosts_single f"
    unfolding hosts_single_def
  proof (intro allI impI)
    fix h assume "h < host_count f"
    from host[OF this] show "node_port_count (fab_nodes f ! id_index (fab_hosts f ! h)) = 1"
      using build_degree(1)[OF b(1) f] single by simp
  qed
  moreover have "all_reachable f"
    by (rule reachable_from_hops[OF ok]) (use host hops n build_links[OF b(1) f] in simp)
  ultimately have "fabric_ready f rt"
    using ok build_rates[OF b(1) f rates] build_routes_ok[OF ok size' rt] size' by (simp add: fabric_ready_def)
  then show ?thesis using rt build_reset[OF b(1) f] by blast
qed

end
