(* ===== verification/Topology.thy ===== *)
theory Topology
  imports Fabric_Links
begin

text \<open>
  What the two topology builders share: loops that only append nodes and edges to a
  builder, and fabrics made of a block of switches followed by a block of hosts, each host
  with a single edge.
\<close>

section \<open>Appending to a builder\<close>

definition grow :: "u8 list \<Rightarrow> edge list \<Rightarrow> fabric_builder \<Rightarrow> fabric_builder" where
  "grow hs es b = b\<lparr>fb_is_host := fb_is_host b @ hs, fb_edges := fb_edges b @ es\<rparr>"

lemma grow_simps [simp]:
  "fb_is_host (grow hs es b) = fb_is_host b @ hs" "fb_edges (grow hs es b) = fb_edges b @ es"
  "grow [] [] b = b" "grow hs2 es2 (grow hs1 es1 b) = grow (hs1 @ hs2) (es1 @ es2) b"
  by (simp_all add: grow_def)

lemma fold_grow:
  assumes "\<And>i. i < length xs \<Longrightarrow>
    f (xs ! i) (grow (concat (map hs [0..<i])) (concat (map es [0..<i])) b)
      = Some (grow (concat (map hs [0..<i]) @ hs i) (concat (map es [0..<i]) @ es i) b)"
  shows "fold_opt f xs b = Some (grow (concat (map hs [0..<length xs])) (concat (map es [0..<length xs])) b)"
proof -
  let ?P = "\<lambda>i t. t = grow (concat (map hs [0..<i])) (concat (map es [0..<i])) b"
  have "\<exists>t. fold_opt f xs b = Some t \<and> ?P (length xs) t"
    by (rule fold_opt_invariant[where P = ?P]) (use assms in simp_all)
  then show ?thesis by simp
qed

definition joins :: "node_id \<Rightarrow> node_id \<Rightarrow> link_params \<Rightarrow> edge" where
  "joins a b params = \<lparr>edge_a = a, edge_b = b, edge_params = params\<rparr>"

lemma joins_simps [simp]: "edge_a (joins a b p) = a" "edge_b (joins a b p) = b" "edge_params (joins a b p) = p"
  by (simp_all add: joins_def)

lemma connect_grow:
  assumes "id_index a < length (fb_is_host fb)" "id_index b < length (fb_is_host fb)" "a \<noteq> b"
  shows "connect a b params fb = Some (grow [] [joins a b params] fb)"
  using assms by (simp add: connect_def fabric_simps grow_def joins_def)

text \<open>A loop of \<open>connect\<close>s.\<close>

lemma fold_connect:
  assumes "\<And>x. x \<in> set xs \<Longrightarrow> id_index (a x) < length (fb_is_host fb) \<and> id_index (c x) < length (fb_is_host fb) \<and> a x \<noteq> c x"
  shows "fold_opt (\<lambda>x. connect (a x) (c x) p) xs fb = Some (grow [] (map (\<lambda>x. joins (a x) (c x) p) xs) fb)"
  using assms
proof (induction xs arbitrary: fb)
  case (Cons x xs)
  have "connect (a x) (c x) p fb = Some (grow [] [joins (a x) (c x) p] fb)"
    by (rule connect_grow) (use Cons.prems[of x] in simp_all)
  moreover have "fold_opt (\<lambda>x. connect (a x) (c x) p) xs (grow [] [joins (a x) (c x) p] fb)
      = Some (grow [] (map (\<lambda>x. joins (a x) (c x) p) xs) (grow [] [joins (a x) (c x) p] fb))"
    by (rule Cons.IH) (use Cons.prems in simp)
  ultimately show ?case by simp
qed simp

text \<open>A loop whose body only adds edges.\<close>

lemma fold_wire:
  assumes "\<And>x b'. x \<in> set xs \<Longrightarrow> fb_is_host b' = fb_is_host b \<Longrightarrow> f x b' = Some (grow [] (es x) b')"
  shows "fold_opt f xs b = Some (grow [] (concat (map es xs)) b)"
  using assms
proof (induction xs arbitrary: b)
  case (Cons x xs)
  have "fold_opt f xs (grow [] (es x) b) = Some (grow [] (concat (map es xs)) (grow [] (es x) b))"
    by (rule Cons.IH) (use Cons.prems in simp)
  then show ?case using Cons.prems[of x b] by simp
qed simp

lemma concat_const_nil [simp]: "concat (map (\<lambda>_. []) xs) = []"
  by (induction xs) auto

lemma concat_replicates: "concat (map (\<lambda>_. replicate m x) [0..<n]) = replicate (n * m) x"
  by (induction n) (simp_all add: replicate_add[symmetric] add.commute)

lemma concat_singletons: "concat (map (\<lambda>i. [g i]) xs) = map g xs"
  by (induction xs) auto

lemma upt_offset: "map (\<lambda>i. b + i) [0..<n] = [b..<b + n]"
  by (rule nth_equalityI) simp_all

lemma rows_upt: "concat (map (\<lambda>l. map (\<lambda>i. b + (l * n + i)) [0..<n]) [0..<m]) = [b..<b + m * n]"
proof (induction m)
  case (Suc m)
  have "map (\<lambda>i. b + (m * n + i)) [0..<n] = [b + m * n..<b + m * n + n]"
    using upt_offset[of "b + m * n" n] by (simp add: add.assoc)
  then show ?case
    using Suc upt_add_eq_append[of b "b + m * n" n] by (simp add: add.assoc add.commute[of n])
qed simp

lemma row_index_inject:
  assumes "i < (n :: nat)" "j < n" "a * n + i = b * n + j"
  shows "a = b \<and> i = j"
proof -
  have "a = (a * n + i) div n" "i = (a * n + i) mod n" using assms(1) by simp_all
  then show ?thesis using assms(2,3) by simp
qed

lemma row_index_less: "a < m \<Longrightarrow> i < n \<Longrightarrow> a * n + i < m * (n :: nat)"
proof -
  assume "a < m" "i < n"
  then have "Suc a * n \<le> m * n" "a * n + i < Suc a * n" by (simp_all only: mult_le_mono1 Suc_leI) simp
  then show ?thesis by linarith
qed

text \<open>
  An edge list that follows a relation \<open>up\<close> between abstract nodes, numbered by \<open>ix\<close>, makes
  exactly the links of that relation, in both directions.
\<close>

lemma links_image:
  assumes ix: "\<And>u. V u \<Longrightarrow> id_index (id_at (ix u) :: node_id) = ix u"
    and sound: "\<And>e. e \<in> set (fb_edges b) \<Longrightarrow> \<exists>u v p. e = joins (id_at (ix u)) (id_at (ix v)) p \<and> V u \<and> V v \<and> up u v"
    and full: "\<And>u v. V u \<Longrightarrow> V v \<Longrightarrow> up u v \<Longrightarrow> \<exists>p. joins (id_at (ix u)) (id_at (ix v)) p \<in> set (fb_edges b)"
  shows "builder_links b = (\<lambda>(u, v). (ix u, ix v)) ` {(u, v). V u \<and> V v \<and> (up u v \<or> up v u)}"
proof (intro equalityI subsetI)
  fix x assume "x \<in> builder_links b"
  then obtain e where e: "e \<in> set (fb_edges b)"
    "x \<in> {(id_index (edge_a e), id_index (edge_b e)), (id_index (edge_b e), id_index (edge_a e))}"
    by (auto simp: builder_links_def)
  obtain u v p where uv: "e = joins (id_at (ix u)) (id_at (ix v)) p" "V u" "V v" "up u v" using sound[OF e(1)] by blast
  then have "x = (ix u, ix v) \<or> x = (ix v, ix u)" using e(2) ix[OF uv(2)] ix[OF uv(3)] by auto
  then show "x \<in> (\<lambda>(u, v). (ix u, ix v)) ` {(u, v). V u \<and> V v \<and> (up u v \<or> up v u)}" using uv by auto
next
  fix x assume "x \<in> (\<lambda>(u, v). (ix u, ix v)) ` {(u, v). V u \<and> V v \<and> (up u v \<or> up v u)}"
  then obtain u v where uv: "V u" "V v" "up u v" "x = (ix u, ix v) \<or> x = (ix v, ix u)" by auto
  obtain p where p: "joins (id_at (ix u)) (id_at (ix v)) p \<in> set (fb_edges b)" using full[OF uv(1-3)] by blast
  show "x \<in> builder_links b"
    unfolding builder_links_def by (rule UN_I[OF p]) (use uv ix[OF uv(1)] ix[OF uv(2)] in auto)
qed

section \<open>Degrees\<close>

lemma endpoint_keys_append: "endpoint_keys (xs @ ys) = endpoint_keys xs @ endpoint_keys ys"
  by (induction xs) auto

lemma endpoint_keys_count:
  "count_list (endpoint_keys es) k = count_list (map (\<lambda>e. id_index (edge_a e)) es) k
     + count_list (map (\<lambda>e. id_index (edge_b e)) es) k"
  by (induction es) auto

lemma count_none: "(\<And>x. x \<in> set xs \<Longrightarrow> x \<noteq> k) \<Longrightarrow> count_list xs k = 0"
  by (induction xs) auto

lemma count_upt: "m \<le> k \<Longrightarrow> k < n \<Longrightarrow> count_list [m..<n] k = 1"
proof -
  assume "m \<le> k" "k < n"
  then have "[m..<n] = [m..<k] @ k # [Suc k..<n]"
    by (metis le_add_diff_inverse less_imp_le upt_add_eq_append upt_conv_Cons)
  then show ?thesis by (simp add: count_none)
qed

text \<open>A fabric of \<open>base\<close> switches and \<open>n\<close> hosts: a mesh between switches, and one edge per host.\<close>

definition tiered :: "nat \<Rightarrow> nat \<Rightarrow> edge list \<Rightarrow> edge list \<Rightarrow> fabric_builder \<Rightarrow> bool" where
  "tiered base n mesh drops b \<longleftrightarrow> fb_is_host b = replicate base 0 @ replicate n 1 \<and> fb_edges b = mesh @ drops
     \<and> base + n < 2 ^ 32 - 1 \<and> 2 * (length mesh + n) < 2 ^ 32
     \<and> (\<forall>e \<in> set mesh. id_index (edge_a e) < base \<and> id_index (edge_b e) < base \<and> edge_a e \<noteq> edge_b e)
     \<and> (\<forall>e \<in> set drops. id_index (edge_b e) < base)
     \<and> map (\<lambda>e. id_index (edge_a e)) drops = [base..<base + n]"

lemma tiered_drop:
  assumes "tiered base n mesh drops b" "e \<in> set drops"
  shows "base \<le> id_index (edge_a e)" "id_index (edge_a e) < base + n" "id_index (edge_b e) < base"
proof -
  have m: "map (\<lambda>e. id_index (edge_a e)) drops = [base..<base + n]" using assms(1) by (simp add: tiered_def)
  have "id_index (edge_a e) \<in> set (map (\<lambda>e. id_index (edge_a e)) drops)" using assms(2) by simp
  then have "id_index (edge_a e) \<in> {base..<base + n}" unfolding m by simp
  then show "base \<le> id_index (edge_a e)" "id_index (edge_a e) < base + n" by simp_all
  show "id_index (edge_b e) < base" using assms by (simp add: tiered_def)
qed

lemma tiered_facts:
  assumes t: "tiered base n mesh drops b"
  shows "builder_inv b" "length (fb_is_host b) = base + n" "length (fb_is_host b) < 2 ^ 32 - 1"
    "k < base + n \<Longrightarrow> fb_is_host b ! k \<noteq> 0 \<longleftrightarrow> base \<le> k"
    "length (fb_edges b) = length mesh + n" "length (filter (\<lambda>h. h \<noteq> 0) (fb_is_host b)) = n"
    "base \<le> k \<Longrightarrow> k < base + n \<Longrightarrow> count_list (endpoint_keys (fb_edges b)) k = 1"
proof -
  note T = t[unfolded tiered_def]
  have len: "length drops = n" using T by (metis add_diff_cancel_left' length_map length_upt)
  show "length (fb_is_host b) = base + n" "length (fb_is_host b) < 2 ^ 32 - 1"
    "length (fb_edges b) = length mesh + n" "length (filter (\<lambda>h. h \<noteq> 0) (fb_is_host b)) = n"
    using T len by (simp_all add: filter_replicate)
  show "k < base + n \<Longrightarrow> fb_is_host b ! k \<noteq> 0 \<longleftrightarrow> base \<le> k"
    using T by (auto simp: nth_append)
  show "builder_inv b"
    unfolding builder_inv_def
  proof (intro conjI ballI)
    fix e assume "e \<in> set (fb_edges b)"
    then consider "e \<in> set mesh" | "e \<in> set drops" using T by auto
    then have "id_index (edge_a e) < base + n \<and> id_index (edge_b e) < base + n \<and> edge_a e \<noteq> edge_b e"
    proof cases
      case 1
      then show ?thesis using T by fastforce
    next
      case 2
      then show ?thesis using tiered_drop[OF t 2] by auto
    qed
    then show "id_index (edge_a e) < length (fb_is_host b)" "id_index (edge_b e) < length (fb_is_host b)" "edge_a e \<noteq> edge_b e"
      using T by auto
  qed (use T len in simp_all)
  show "count_list (endpoint_keys (fb_edges b)) k = 1" if k: "base \<le> k" "k < base + n"
  proof -
    have z: "count_list (map (\<lambda>e. id_index (edge_a e)) mesh) k = 0" "count_list (map (\<lambda>e. id_index (edge_b e)) mesh) k = 0"
      "count_list (map (\<lambda>e. id_index (edge_b e)) drops) k = 0"
      by (rule count_none, use T k in fastforce)+
    have "count_list (map (\<lambda>e. id_index (edge_a e)) drops) k = 1"
      using T count_upt[of base k "base + n"] k by metis
    then show ?thesis using T z by (simp add: endpoint_keys_count endpoint_keys_append)
  qed
qed

lemma tiered_hosts:
  assumes t: "tiered base n mesh drops b" and f: "build b = Some f"
  shows "node_count f = base + n" "host_count f = n" "port_count f = 2 * (length mesh + n)"
    "fab_hosts f = map id_at [base..<base + n]" "links f = builder_links b"
    "h < n \<Longrightarrow> id_index (fab_hosts f ! h) = base + h"
proof -
  note F = build_facts[OF tiered_facts(1)[OF t] f] and S = tiered_facts[OF t]
  show "node_count f = base + n" using F(3) S(2) by simp
  show "port_count f = 2 * (length mesh + n)" using F(2) S(5) by simp
  show "links f = builder_links b" by (rule build_links[OF S(1) f])
  have "filter (\<lambda>k. fb_is_host b ! k \<noteq> 0) [0..<base + n] = filter (\<lambda>k. base \<le> k) [0..<base + n]"
    by (rule filter_cong) (use S(4) in auto)
  also have "\<dots> = [base..<base + n]" by (induction n) auto
  finally show hs: "fab_hosts f = map id_at [base..<base + n]" using F(5) S(2) by simp
  then show "host_count f = n" by (simp add: host_count_def)
  show "id_index (fab_hosts f ! h) = base + h" if "h < n"
    using that hs t by (simp add: tiered_def)
qed

lemma tiered_ready:
  assumes t: "tiered base n mesh drops b" and size: "2 * (length mesh + n) * n < 2 ^ 32"
    and rates: "\<forall>e \<in> set mesh \<union> set drops. lp_rate (edge_params e) \<noteq> 0"
    and hops: "\<And>h u. h < n \<Longrightarrow> u < base + n \<Longrightarrow> \<exists>d. min_hops (builder_links b) (base + h) u d"
    and f: "build b = Some f"
  shows "\<exists>rt. build_shortest_path f = Some rt \<and> fabric_ready f rt \<and> reset_state f = f"
proof (rule build_ready[OF _ _ f])
  note S = tiered_facts[OF t]
  show "builder_inv b" "length (fb_is_host b) < 2 ^ 32 - 1" by (rule S(1), rule S(3))
  show "\<forall>e \<in> set (fb_edges b). lp_rate (edge_params e) \<noteq> 0" using t rates by (auto simp: tiered_def)
  show "2 * length (fb_edges b) * length (filter (\<lambda>h. h \<noteq> 0) (fb_is_host b)) < 2 ^ 32"
    using size S(5,6) by simp
  fix k assume k: "k < length (fb_is_host b)" "fb_is_host b ! k \<noteq> 0"
  then have k': "base \<le> k" "k < base + n" using S(2,4) by auto
  show "count_list (endpoint_keys (fb_edges b)) k = 1" by (rule S(7)[OF k'])
  show "\<exists>d. min_hops (builder_links b) k u d" if "u < length (fb_is_host b)" for u
    using hops[of "k - base" u] k' that S(2) by simp
qed

end
