(* ===== verification/Leaf_Spine.thy ===== *)
theory Leaf_Spine
  imports Topology
begin

text \<open>
  \<^verbatim>\<open>topology/leaf_spine.hpp\<close> and \<^verbatim>\<open>topology/leaf_spine.cpp\<close>: the two-tier fabric, spines
  first, then leaves, then the hosts grouped by leaf; and the hop counts between its hosts.
\<close>

section \<open>The code\<close>

record LeafSpineConfig =
  ls_spine_count :: u32
  ls_leaf_count :: u32
  ls_hosts_per_leaf :: u32
  ls_host_link :: link_params
  ls_fabric_link :: link_params

definition default_leaf_spine :: LeafSpineConfig where
  "default_leaf_spine = \<lparr>ls_spine_count = 2, ls_leaf_count = 2, ls_hosts_per_leaf = 4,
     ls_host_link = default_link, ls_fabric_link = default_link\<rparr>"

definition kLeafSpineCrossLeafHops :: u32 where "kLeafSpineCrossLeafHops = 4"
definition kLeafSpineSameLeafHops :: u32 where "kLeafSpineSameLeafHops = 2"

text \<open>The loops that fill the vectors \<open>spines\<close> and \<open>leaves\<close>.\<close>

definition push_switches :: "nat \<Rightarrow> fabric_builder \<Rightarrow> node_id list \<times> fabric_builder" where
  "push_switches n b = fold (\<lambda>_ (ids, b). let (sw, b) = add_switch b in (ids @ [sw], b)) [0..<n] ([], b)"

definition attach_host :: "node_id \<Rightarrow> link_params \<Rightarrow> fabric_builder \<Rightarrow> fabric_builder option" where
  "attach_host leaf params b = (let (host, b) = add_host b in connect host leaf params b)"

definition build_leaf_spine :: "LeafSpineConfig \<Rightarrow> fabric option" where
  "build_leaf_spine cfg = do {
     assert_that (0 < ls_spine_count cfg \<and> 0 < ls_leaf_count cfg \<and> 0 < ls_hosts_per_leaf cfg);
     let (spines, b) = push_switches (unat (ls_spine_count cfg)) builder_new;
     let (leaves, b) = push_switches (unat (ls_leaf_count cfg)) b;
     b \<leftarrow> fold_opt (\<lambda>leaf. fold_opt (\<lambda>spine. connect leaf spine (ls_fabric_link cfg)) spines) leaves b;
     b \<leftarrow> fold_opt (\<lambda>leaf. fold_opt (\<lambda>_. attach_host leaf (ls_host_link cfg))
            [0..<unat (ls_hosts_per_leaf cfg)]) leaves b;
     build b
   }"

section \<open>The edges it makes\<close>

definition ls_mesh :: "nat \<Rightarrow> nat \<Rightarrow> link_params \<Rightarrow> edge list" where
  "ls_mesh S L p = concat (map (\<lambda>l. map (\<lambda>s. joins (id_at (S + l)) (id_at s) p) [0..<S]) [0..<L])"

definition ls_drops :: "nat \<Rightarrow> nat \<Rightarrow> nat \<Rightarrow> link_params \<Rightarrow> edge list" where
  "ls_drops S L H p = concat (map (\<lambda>l. map (\<lambda>i. joins (id_at (S + L + (l * H + i))) (id_at (S + l)) p) [0..<H]) [0..<L])"

definition ls_builder :: "nat \<Rightarrow> nat \<Rightarrow> nat \<Rightarrow> link_params \<Rightarrow> link_params \<Rightarrow> fabric_builder" where
  "ls_builder S L H hp fp = \<lparr>fb_is_host = replicate (S + L) 0 @ replicate (L * H) 1,
     fb_edges = ls_mesh S L fp @ ls_drops S L H hp\<rparr>"

lemma push_switches_grow:
  "push_switches n b = (map (\<lambda>i. id_at (length (fb_is_host b) + i)) [0..<n], grow (replicate n 0) [] b)"
  unfolding push_switches_def
  by (induction n) (simp_all add: add_switch_def grow_def replicate_append_same)

lemma ls_mesh_mem: "e \<in> set (ls_mesh S L p) \<longleftrightarrow> (\<exists>l < L. \<exists>s < S. e = joins (id_at (S + l)) (id_at s) p)"
  unfolding ls_mesh_def by (simp add: image_iff) (simp add: Bex_def)

lemma ls_drops_mem: "e \<in> set (ls_drops S L H p) \<longleftrightarrow>
    (\<exists>l < L. \<exists>i < H. e = joins (id_at (S + L + (l * H + i))) (id_at (S + l)) p)"
  unfolding ls_drops_def by (simp add: image_iff) (simp add: Bex_def)

lemma length_ls_mesh: "length (ls_mesh S L p) = L * S"
  by (simp add: ls_mesh_def length_concat comp_def sum_list_triv)

lemma attach_hosts_grow:
  assumes "length (fb_is_host b) + n < 2 ^ 32" "id_index leaf < length (fb_is_host b)"
  shows "fold_opt (\<lambda>_. attach_host leaf p) [0..<n] b
    = Some (grow (replicate n 1) (map (\<lambda>i. joins (id_at (length (fb_is_host b) + i)) leaf p) [0..<n]) b)"
proof -
  have "attach_host leaf p (grow (replicate i 1) es b)
      = Some (grow (replicate i 1 @ [1]) (es @ [joins (id_at (length (fb_is_host b) + i)) leaf p]) b)" if "i < n" for i es
  proof -
    have i: "id_index (id_at (length (fb_is_host b) + i) :: node_id) = length (fb_is_host b) + i"
      using that assms(1) by simp
    then have "id_at (length (fb_is_host b) + i) \<noteq> leaf" using assms(2) by auto
    then show ?thesis
      using i assms(2)
      by (simp add: attach_host_def add_host_def connect_def fabric_simps grow_def joins_def)
  qed
  then show ?thesis
    using fold_grow[of "[0..<n]" "\<lambda>_. attach_host leaf p" "\<lambda>_. [1]"
        "\<lambda>i. [joins (id_at (length (fb_is_host b) + i)) leaf p]" b]
    by (simp add: concat_singletons map_replicate_const)
qed

lemma build_leaf_spine_builder:
  assumes pos: "0 < ls_spine_count cfg" "0 < ls_leaf_count cfg" "0 < ls_hosts_per_leaf cfg"
    and S: "S = unat (ls_spine_count cfg)" and L: "L = unat (ls_leaf_count cfg)" and H: "H = unat (ls_hosts_per_leaf cfg)"
    and small: "S + L + L * H < 2 ^ 32"
  shows "build_leaf_spine cfg = build (ls_builder S L H (ls_host_link cfg) (ls_fabric_link cfg))"
proof -
  let ?fp = "ls_fabric_link cfg" and ?hp = "ls_host_link cfg"
  define b1 where "b1 = grow (replicate (S + L) 0) [] builder_new"
  have n1: "length (fb_is_host b1) = S + L" by (simp add: b1_def builder_new_def)
  let ?leaves = "map (\<lambda>i. id_at (S + i) :: node_id) [0..<L]" and ?spines = "map (\<lambda>i. id_at i :: node_id) [0..<S]"
  have ix: "id_index (id_at (S + l) :: node_id) = S + l" if "l < L" for l using small that by simp
  have ixs: "id_index (id_at s :: node_id) = s" if "s < S" for s using small that by simp
  have "fold_opt (\<lambda>leaf. fold_opt (\<lambda>spine. connect leaf spine ?fp) ?spines) ?leaves b1
    = Some (grow (concat (map (\<lambda>_. []) [0..<length ?leaves]))
        (concat (map (\<lambda>l. map (\<lambda>s. joins (id_at (S + l)) (id_at s) ?fp) [0..<S]) [0..<length ?leaves])) b1)"
  proof (rule fold_grow)
    fix i assume i: "i < length ?leaves"
    have "fold_opt (\<lambda>spine. connect (?leaves ! i) spine ?fp) ?spines (grow [] es b1)
      = Some (grow [] (map (\<lambda>x. joins (?leaves ! i) x ?fp) ?spines) (grow [] es b1))" for es
    proof (rule fold_connect)
      fix x assume "x \<in> set ?spines"
      then obtain s where "s < S" "x = id_at s" by auto
      then show "id_index (?leaves ! i) < length (fb_is_host (grow [] es b1)) \<and>
        id_index x < length (fb_is_host (grow [] es b1)) \<and> ?leaves ! i \<noteq> x"
        using i ix[of i] ixs[of s] by (auto simp: n1)
    qed
    then show "fold_opt (\<lambda>spine. connect (?leaves ! i) spine ?fp) ?spines
        (grow (concat (map (\<lambda>_. []) [0..<i])) (concat (map (\<lambda>l. map (\<lambda>s. joins (id_at (S + l)) (id_at s) ?fp) [0..<S]) [0..<i])) b1)
      = Some (grow (concat (map (\<lambda>_. []) [0..<i]) @ []) (concat (map (\<lambda>l. map (\<lambda>s. joins (id_at (S + l)) (id_at s) ?fp) [0..<S]) [0..<i])
          @ map (\<lambda>s. joins (id_at (S + i)) (id_at s) ?fp) [0..<S]) b1)"
      using i by (simp add: comp_def)
  qed
  then have mesh: "fold_opt (\<lambda>leaf. fold_opt (\<lambda>spine. connect leaf spine ?fp) ?spines) ?leaves b1 = Some (grow [] (ls_mesh S L ?fp) b1)"
    by (simp add: ls_mesh_def)
  define b2 where "b2 = grow [] (ls_mesh S L ?fp) b1"
  have n2: "length (fb_is_host b2) = S + L" by (simp add: b2_def n1)
  have "fold_opt (\<lambda>leaf. fold_opt (\<lambda>_. attach_host leaf ?hp) [0..<H]) ?leaves b2
    = Some (grow (concat (map (\<lambda>_. replicate H 1) [0..<length ?leaves]))
        (concat (map (\<lambda>l. map (\<lambda>i. joins (id_at (S + L + (l * H + i))) (id_at (S + l)) ?hp) [0..<H]) [0..<length ?leaves])) b2)"
  proof (rule fold_grow)
    fix i assume i: "i < length ?leaves"
    let ?hs = "concat (map (\<lambda>_. replicate H (1 :: u8)) [0..<i])"
      and ?es = "concat (map (\<lambda>l. map (\<lambda>i. joins (id_at (S + L + (l * H + i))) (id_at (S + l)) ?hp) [0..<H]) [0..<i])"
    have len: "length (fb_is_host (grow ?hs ?es b2)) = S + L + i * H" by (simp add: concat_replicates n2)
    have "Suc i * H \<le> L * H" using i by (intro mult_le_mono1) simp
    then have room: "S + L + i * H + H < 2 ^ 32" using small by simp
    have li: "?leaves ! i = id_at (S + i)" "id_index (id_at (S + i) :: node_id) = S + i" using i ix[of i] by simp_all
    show "fold_opt (\<lambda>_. attach_host (?leaves ! i) ?hp) [0..<H] (grow ?hs ?es b2)
      = Some (grow (?hs @ replicate H 1) (?es @ map (\<lambda>k. joins (id_at (S + L + (i * H + k))) (id_at (S + i)) ?hp) [0..<H]) b2)"
      using attach_hosts_grow[of "grow ?hs ?es b2" H "id_at (S + i)" ?hp] room i li
      by (simp only: len) (simp add: add.assoc)
  qed
  then have drops: "fold_opt (\<lambda>leaf. fold_opt (\<lambda>_. attach_host leaf ?hp) [0..<H]) ?leaves b2
      = Some (grow (replicate (L * H) 1) (ls_drops S L H ?hp) b2)"
    by (simp add: ls_drops_def concat_replicates)
  have "grow (replicate (L * H) 1) (ls_drops S L H ?hp) b2 = ls_builder S L H ?hp ?fp"
    by (simp add: ls_builder_def b2_def b1_def builder_new_def grow_def)
  moreover have "push_switches S builder_new = (?spines, grow (replicate S 0) [] builder_new)"
    "push_switches L (grow (replicate S 0) [] builder_new) = (?leaves, b1)"
    by (simp_all add: push_switches_grow b1_def builder_new_def replicate_add)
  ultimately show ?thesis
    using pos mesh drops
    by (simp add: build_leaf_spine_def fabric_simps S[symmetric] L[symmetric] H[symmetric] b2_def)
qed

section \<open>Its nodes, links and levels\<close>

datatype ls_node = Spine nat | Leaf nat | Leaf_Host nat nat

fun ls_index :: "nat \<Rightarrow> nat \<Rightarrow> nat \<Rightarrow> ls_node \<Rightarrow> nat" where
  "ls_index S L H (Spine i) = i"
| "ls_index S L H (Leaf l) = S + l"
| "ls_index S L H (Leaf_Host l i) = S + L + (l * H + i)"

fun ls_valid :: "nat \<Rightarrow> nat \<Rightarrow> nat \<Rightarrow> ls_node \<Rightarrow> bool" where
  "ls_valid S L H (Spine i) \<longleftrightarrow> i < S"
| "ls_valid S L H (Leaf l) \<longleftrightarrow> l < L"
| "ls_valid S L H (Leaf_Host l i) \<longleftrightarrow> l < L \<and> i < H"

fun ls_up :: "ls_node \<Rightarrow> ls_node \<Rightarrow> bool" where
  "ls_up (Leaf l) (Spine i) \<longleftrightarrow> True"
| "ls_up (Leaf_Host l i) (Leaf l') \<longleftrightarrow> l = l'"
| "ls_up _ _ \<longleftrightarrow> False"

definition ls_links :: "nat \<Rightarrow> nat \<Rightarrow> nat \<Rightarrow> (ls_node \<times> ls_node) set" where
  "ls_links S L H = {(u, v). ls_valid S L H u \<and> ls_valid S L H v \<and> (ls_up u v \<or> ls_up v u)}"

fun ls_level :: "nat \<Rightarrow> nat \<Rightarrow> ls_node \<Rightarrow> nat" where
  "ls_level d j (Spine i) = 2"
| "ls_level d j (Leaf l) = (if l = d then 1 else 3)"
| "ls_level d j (Leaf_Host l i) = (if l = d then if i = j then 0 else 2 else 4)"

lemma ls_index_inj: "inj_on (ls_index S L H) {u. ls_valid S L H u}"
proof (rule inj_onI, clarsimp)
  fix u v assume "ls_valid S L H u" "ls_valid S L H v" "ls_index S L H u = ls_index S L H v"
  then show "u = v"
    by (cases u; cases v) (auto dest: row_index_inject simp: add.assoc)
qed

lemma ls_index_less: "ls_valid S L H u \<Longrightarrow> ls_index S L H u < S + L + L * H"
  by (cases u) (auto simp: row_index_less)

lemma ls_index_surj:
  assumes "n < S + L + L * H"
  shows "\<exists>u. ls_valid S L H u \<and> ls_index S L H u = n"
proof -
  consider "n < S" | "S \<le> n" "n < S + L" | "S + L \<le> n" by linarith
  then show ?thesis
  proof cases
    case 1
    then show ?thesis by (intro exI[of _ "Spine n"]) simp
  next
    case 2
    then show ?thesis by (intro exI[of _ "Leaf (n - S)"]) auto
  next
    case 3
    define h where "h = n - (S + L)"
    have h: "h < L * H" "n = S + L + h" using 3 assms by (auto simp: h_def)
    then have "0 < H" by (cases H) auto
    then have "h div H < L" "h mod H < H" using h(1) by (simp_all add: less_mult_imp_div_less)
    then show ?thesis using h(2) by (intro exI[of _ "Leaf_Host (h div H) (h mod H)"]) simp
  qed
qed

text \<open>The edges of the builder are exactly these links.\<close>

lemma ls_builder_links:
  assumes small: "S + L + L * H < 2 ^ 32"
  shows "builder_links (ls_builder S L H hp fp) = (\<lambda>(u, v). (ls_index S L H u, ls_index S L H v)) ` ls_links S L H"
  unfolding ls_links_def
proof (rule links_image)
  show "id_index (id_at (ls_index S L H u) :: node_id) = ls_index S L H u" if "ls_valid S L H u" for u
    using ls_index_less[OF that] small by simp
  fix e assume "e \<in> set (fb_edges (ls_builder S L H hp fp))"
  then consider l s where "l < L" "s < S" "e = joins (id_at (S + l)) (id_at s) fp"
    | l i where "l < L" "i < H" "e = joins (id_at (S + L + (l * H + i))) (id_at (S + l)) hp"
    by (auto simp: ls_builder_def ls_mesh_mem ls_drops_mem)
  then show "\<exists>u v p. e = joins (id_at (ls_index S L H u)) (id_at (ls_index S L H v)) p
      \<and> ls_valid S L H u \<and> ls_valid S L H v \<and> ls_up u v"
  proof cases
    case 1
    then show ?thesis by (intro exI[of _ "Leaf l"] exI[of _ "Spine s"] exI[of _ fp]) simp
  next
    case 2
    then show ?thesis by (intro exI[of _ "Leaf_Host l i"] exI[of _ "Leaf l"] exI[of _ hp]) simp
  qed
next
  fix u v assume uv: "ls_valid S L H u" "ls_valid S L H v" "ls_up u v"
  then consider l s where "u = Leaf l" "v = Spine s" | l i where "u = Leaf_Host l i" "v = Leaf l"
    by (cases u; cases v) auto
  then show "\<exists>p. joins (id_at (ls_index S L H u)) (id_at (ls_index S L H v)) p \<in> set (fb_edges (ls_builder S L H hp fp))"
  proof cases
    case 1
    then have "joins (id_at (S + l)) (id_at s) fp \<in> set (ls_mesh S L fp)"
      unfolding ls_mesh_mem using uv(1,2) by auto
    then show ?thesis using 1 by (auto simp: ls_builder_def)
  next
    case 2
    then have "joins (id_at (S + L + (l * H + i))) (id_at (S + l)) hp \<in> set (ls_drops S L H hp)"
      unfolding ls_drops_mem using uv(1) by auto
    then show ?thesis using 2 by (auto simp: ls_builder_def)
  qed
qed

lemma ls_level_hops:
  assumes small: "S + L + L * H < 2 ^ 32" and S: "0 < S" and d: "d < L" "j < H" and v: "ls_valid S L H v"
  shows "min_hops (builder_links (ls_builder S L H hp fp)) (S + L + (d * H + j)) (ls_index S L H v) (ls_level d j v)"
proof -
  have "min_hops (builder_links (ls_builder S L H hp fp)) (ls_index S L H (Leaf_Host d j)) (ls_index S L H v) (ls_level d j v)"
  proof (rule levels_min_hops_image[OF ls_builder_links[OF small] _ ls_index_inj])
    show "\<And>u v. (u, v) \<in> ls_links S L H \<Longrightarrow> u \<in> {u. ls_valid S L H u} \<and> v \<in> {u. ls_valid S L H u}"
      by (auto simp: ls_links_def)
    show "Leaf_Host d j \<in> {u. ls_valid S L H u}" "v \<in> {u. ls_valid S L H u}" "ls_level d j (Leaf_Host d j) = 0"
      using d v by simp_all
    show "w = Leaf_Host d j" if "ls_level d j w = 0" for w using that by (cases w) (auto split: if_splits)
    show "ls_level d j w \<le> Suc (ls_level d j u)" if "(u, w) \<in> ls_links S L H" for u w
      using that by (cases u; cases w) (auto simp: ls_links_def)
    show "\<exists>u. (u, w) \<in> ls_links S L H \<and> ls_level d j w = Suc (ls_level d j u)"
      if w: "w \<in> {u. ls_valid S L H u}" "0 < ls_level d j w" for w
    proof (cases w)
      case (Spine s)
      then show ?thesis using w d by (intro exI[of _ "Leaf d"]) (simp add: ls_links_def)
    next
      case (Leaf l)
      then show ?thesis
        using w d S by (intro exI[of _ "if l = d then Leaf_Host d j else Spine 0"]) (simp add: ls_links_def)
    next
      case (Leaf_Host l i)
      then show ?thesis using w d by (intro exI[of _ "Leaf l"]) (auto simp: ls_links_def split: if_splits)
    qed
  qed
  then show ?thesis by simp
qed

section \<open>The fabric it builds\<close>

lemma length_ls_drops: "length (ls_drops S L H p) = L * H"
  by (simp add: ls_drops_def length_concat comp_def sum_list_triv)

lemma ls_tiered:
  assumes small: "S + L + L * H < 2 ^ 32 - 1" "2 * (L * S + L * H) < 2 ^ 32"
  shows "tiered (S + L) (L * H) (ls_mesh S L fp) (ls_drops S L H hp) (ls_builder S L H hp fp)"
proof -
  have ix: "id_index (id_at n :: node_id) = n" if "n < S + L + L * H" for n using that small by simp
  have "map (\<lambda>e. id_index (edge_a e)) (ls_drops S L H hp)
      = concat (map (\<lambda>l. map (\<lambda>i. S + L + (l * H + i)) [0..<H]) [0..<L])"
    unfolding ls_drops_def map_concat list.map_comp
    by (intro arg_cong[where f = concat] map_cong refl) (use ix row_index_less in simp)
  then have keys: "map (\<lambda>e. id_index (edge_a e)) (ls_drops S L H hp) = [S + L..<S + L + L * H]"
    by (simp add: rows_upt)
  have "id_index (edge_a e) < S + L \<and> id_index (edge_b e) < S + L \<and> edge_a e \<noteq> edge_b e" if e: "e \<in> set (ls_mesh S L fp)" for e
  proof -
    obtain l s where "l < L" "s < S" "e = joins (id_at (S + l)) (id_at s) fp" using e by (auto simp: ls_mesh_mem)
    then show ?thesis using ix[of "S + l"] ix[of s] by (auto dest: arg_cong[of _ _ id_index])
  qed
  moreover have "id_index (edge_b e) < S + L" if e: "e \<in> set (ls_drops S L H hp)" for e
  proof -
    obtain l i where "l < L" "e = joins (id_at (S + L + (l * H + i))) (id_at (S + l)) hp" using e by (auto simp: ls_drops_mem)
    then show ?thesis using ix[of "S + l"] by simp
  qed
  ultimately show ?thesis
    using small keys length_ls_mesh[of S L fp] by (simp add: tiered_def ls_builder_def)
qed

definition leaf_spine_fits :: "LeafSpineConfig \<Rightarrow> bool" where
  "leaf_spine_fits cfg \<longleftrightarrow> (let S = unat (ls_spine_count cfg); L = unat (ls_leaf_count cfg); H = unat (ls_hosts_per_leaf cfg) in
     0 < S \<and> 0 < L \<and> 0 < H \<and> S + L + L * H < 2 ^ 32 - 1 \<and> 2 * (L * S + L * H) * (L * H) < 2 ^ 32
     \<and> lp_rate (ls_host_link cfg) \<noteq> 0 \<and> lp_rate (ls_fabric_link cfg) \<noteq> 0)"

lemma leaf_spine_ok:
  assumes fits: "leaf_spine_fits cfg"
    and S: "S = unat (ls_spine_count cfg)" and L: "L = unat (ls_leaf_count cfg)" and H: "H = unat (ls_hosts_per_leaf cfg)"
  shows "\<exists>f rt. build_leaf_spine cfg = Some f \<and> build_shortest_path f = Some rt \<and> fabric_ready f rt \<and> reset_state f = f
    \<and> node_count f = S + L + L * H \<and> host_count f = L * H \<and> port_count f = 2 * (L * S + L * H)
    \<and> (\<forall>h < L * H. \<forall>g < L * H. min_hops (links f) (id_index (fab_hosts f ! h)) (id_index (fab_hosts f ! g))
         (if g = h then 0 else if g div H = h div H then 2 else 4))"
proof -
  let ?b = "ls_builder S L H (ls_host_link cfg) (ls_fabric_link cfg)"
  note F = fits[unfolded leaf_spine_fits_def Let_def, folded S L H]
  have LH: "1 \<le> L * H" using F by (simp add: Suc_le_eq)
  have "2 * (L * S + L * H) * 1 \<le> 2 * (L * S + L * H) * (L * H)" using LH by (intro mult_le_mono2)
  moreover have "2 * (L * S + L * H) * (L * H) < 2 ^ 32" using F by blast
  ultimately have small: "S + L + L * H < 2 ^ 32 - 1" "2 * (L * S + L * H) < 2 ^ 32"
    using F by (blast, linarith)
  have small': "S + L + L * H < 2 ^ 32" using small(1) by simp
  note T = ls_tiered[OF small, of "ls_fabric_link cfg" "ls_host_link cfg"]
  have run: "build_leaf_spine cfg = build ?b"
    by (rule build_leaf_spine_builder[OF _ _ _ S L H small']) (use F S L H in \<open>simp_all add: word_less_nat_alt\<close>)
  obtain f where f: "build ?b = Some f" using build_spec[OF tiered_facts(1)[OF T]] by blast
  note Ho = tiered_hosts[OF T f]
  have hops: "\<exists>v. ls_valid S L H v \<and> ls_index S L H v = u \<and>
      min_hops (builder_links ?b) (S + L + h) u (ls_level (h div H) (h mod H) v)" if h: "h < L * H" and u: "u < S + L + L * H" for h u
  proof -
    have d: "h div H < L" "h mod H < H" "h div H * H + h mod H = h" using h F by (simp_all add: less_mult_imp_div_less)
    obtain v where "ls_valid S L H v" "ls_index S L H v = u" using ls_index_surj[OF u] by blast
    then show ?thesis using ls_level_hops[OF small' _ d(1,2), of v "ls_host_link cfg" "ls_fabric_link cfg"] F d(3) by auto
  qed
  have "\<forall>e \<in> set (ls_mesh S L (ls_fabric_link cfg)) \<union> set (ls_drops S L H (ls_host_link cfg)). lp_rate (edge_params e) \<noteq> 0"
    using F by (auto simp: ls_mesh_mem ls_drops_mem)
  then obtain rt where rt: "build_shortest_path f = Some rt" "fabric_ready f rt" "reset_state f = f"
    using tiered_ready[OF T _ _ _ f] F hops length_ls_mesh[of S L "ls_fabric_link cfg"] by metis
  have "min_hops (links f) (id_index (fab_hosts f ! h)) (id_index (fab_hosts f ! g))
      (if g = h then 0 else if g div H = h div H then 2 else 4)" if h: "h < L * H" and g: "g < L * H" for h g
  proof -
    obtain v where v: "ls_valid S L H v" "ls_index S L H v = S + L + g"
      "min_hops (builder_links ?b) (S + L + h) (S + L + g) (ls_level (h div H) (h mod H) v)"
      using hops[OF h, of "S + L + g"] g by auto
    have "ls_valid S L H (Leaf_Host (g div H) (g mod H))" using g F by (simp add: less_mult_imp_div_less)
    then have "v = Leaf_Host (g div H) (g mod H)"
      using v(1,2) ls_index_inj[of S L H] by (auto simp: inj_on_def)
    moreover have "g = h \<longleftrightarrow> g div H = h div H \<and> g mod H = h mod H" by (metis div_mult_mod_eq)
    ultimately show ?thesis using v(3) Ho(5) Ho(6)[OF h] Ho(6)[OF g] by auto
  qed
  then show ?thesis using run f rt Ho(1-3) by (auto simp: length_ls_mesh)
qed

end
