(* ===== verification/Random_Stream.thy ===== *)
theory Random_Stream
  imports Fabric_Prelude
begin

text \<open>
  \<^verbatim>\<open>workload/rng.hpp\<close>: the named random streams and their unbiased bounded draw.  The
  engine \<^verbatim>\<open>std::mt19937_64\<close> is the one the C++ standard fixes bit by bit; its state is
  the list of the last 312 words.  The rejection loop of \<open>below64\<close> may in principle not
  end, so it is a partial function, and its lemmas say exactly when it returns.
\<close>

section \<open>The engine of the standard library\<close>

type_synonym mt = "u64 list"

primrec mt_fill :: "nat \<Rightarrow> u64 \<Rightarrow> u64 \<Rightarrow> mt" where
  "mt_fill 0 i x = []"
| "mt_fill (Suc n) i x = x # mt_fill n (i + 1) (6364136223846793005 * (x XOR drop_bit 62 x) + i)"

definition mt_new :: "u64 \<Rightarrow> mt" where
  "mt_new seed = mt_fill 312 1 seed"

definition mt_temper :: "u64 \<Rightarrow> u64" where
  "mt_temper y0 = (
     let y1 = y0 XOR (drop_bit 29 y0 AND 0x5555555555555555);
         y2 = y1 XOR (push_bit 17 y1 AND 0x71D67FFFEDA60000);
         y3 = y2 XOR (push_bit 37 y2 AND 0xFFF7EEE000000000)
     in y3 XOR drop_bit 43 y3)"

definition mt_twist :: "u64 \<Rightarrow> u64 \<Rightarrow> u64 \<Rightarrow> u64" where
  "mt_twist x0 x1 xm = (
     let y = (x0 AND 0xFFFFFFFF80000000) OR (x1 AND 0x7FFFFFFF)
     in xm XOR drop_bit 1 y XOR (if bit y 0 then 0xB5026F5AA96619E9 else 0))"

definition mt_next :: "mt \<Rightarrow> u64 \<times> mt" where
  "mt_next xs = (let x = mt_twist (xs ! 0) (xs ! 1) (xs ! 156) in (mt_temper x, tl xs @ [x]))"

text \<open>The first outputs read only the front of the seeded state, which is all a check has to compute.\<close>

lemma length_mt_fill [simp]: "length (mt_fill n i x) = n"
  by (induction n arbitrary: i x) simp_all

lemma mt_fill_nth: "j < n \<Longrightarrow> j < m \<Longrightarrow> mt_fill n i x ! j = mt_fill m i x ! j"
proof (induction n arbitrary: i x j m)
  case (Suc n)
  obtain m' where m: "m = Suc m'" using Suc.prems(2) by (cases m) simp_all
  show ?case
  proof (cases j)
    case (Suc j')
    then show ?thesis using Suc.IH[of j' m'] Suc.prems by (simp add: m)
  qed (simp add: m)
qed simp

lemma mt_reference_output: "fst (mt_next (mt_new 5489)) = 14514284786278117030"
proof -
  have "fst (mt_next (mt_new 5489)) = fst (mt_next (mt_fill 157 1 5489))"
    using mt_fill_nth[of 0 312 157 1 5489] mt_fill_nth[of 1 312 157 1 5489] mt_fill_nth[of 156 312 157 1 5489]
    by (simp add: mt_next_def mt_new_def Let_def)
  also have "\<dots> = 14514284786278117030" by code_simp
  finally show ?thesis .
qed

section \<open>The code\<close>

definition kStreamPermutation :: u64 where "kStreamPermutation = 1"
definition kStreamPorts :: u64 where "kStreamPorts = 2"
definition kStreamStartTimes :: u64 where "kStreamStartTimes = 3"
definition kStreamTenant :: u64 where "kStreamTenant = 4"

definition splitmix :: "u64 \<Rightarrow> u64" where
  "splitmix x0 = (
     let x1 = x0 + 0x9E3779B97F4A7C15;
         x2 = (x1 XOR drop_bit 30 x1) * 0xBF58476D1CE4E5B9;
         x3 = (x2 XOR drop_bit 27 x2) * 0x94D049BB133111EB
     in x3 XOR drop_bit 31 x3)"

record RandomStream =
  gen :: mt

definition stream_new :: "u64 \<Rightarrow> u64 \<Rightarrow> RandomStream" where
  "stream_new seed nm = \<lparr>gen = mt_new (splitmix (seed XOR splitmix nm))\<rparr>"

definition next_draw :: "RandomStream \<Rightarrow> u64 \<times> RandomStream" where
  "next_draw g = (let (r, e) = mt_next (gen g) in (r, g\<lparr>gen := e\<rparr>))"

partial_function (option) draw_until :: "u64 \<Rightarrow> u64 \<Rightarrow> RandomStream \<Rightarrow> (u64 \<times> RandomStream) option" where
  [code]: "draw_until reject_below r g =
     (if r < reject_below then (let (r', g') = next_draw g in draw_until reject_below r' g') else Some (r, g))"

definition below64 :: "u64 \<Rightarrow> RandomStream \<Rightarrow> (u64 \<times> RandomStream) option" where
  "below64 n g = (
     if n \<le> 1 then Some (0, g)
     else do {
       let reject_below = (0 - n) mod n;
       let (r, g) = next_draw g;
       (r, g) \<leftarrow> draw_until reject_below r g;
       Some (r mod n, g)
     })"

definition below :: "u32 \<Rightarrow> RandomStream \<Rightarrow> (u32 \<times> RandomStream) option" where
  "below n g = do { (r, g) \<leftarrow> below64 (ucast n) g; Some (ucast r, g) }"

text \<open>The ephemeral source port that both workload generators draw.\<close>

definition draw_port :: "RandomStream \<Rightarrow> (u16 \<times> RandomStream) option" where
  "draw_port g = do { (r, g) \<leftarrow> below 63488 g; Some (ucast (1024 + r), g) }"

section \<open>When a bounded draw returns, and what\<close>

primrec stream_at :: "nat \<Rightarrow> RandomStream \<Rightarrow> RandomStream" where
  "stream_at 0 g = g"
| "stream_at (Suc i) g = stream_at i (snd (next_draw g))"

definition draw :: "RandomStream \<Rightarrow> nat \<Rightarrow> u64" where
  "draw g i = fst (next_draw (stream_at i g))"

definition rejected_below :: "u64 \<Rightarrow> u64" where
  "rejected_below n = (0 - n) mod n"

lemma stream_at_add: "stream_at (i + j) g = stream_at j (stream_at i g)"
  by (induction i arbitrary: g) simp_all

lemma draw_stream_at: "draw (stream_at i g) j = draw g (i + j)"
  by (simp add: draw_def stream_at_add)

lemma draw_shift: "draw (snd (next_draw g)) i = draw g (Suc i)"
  by (simp add: draw_def)

lemma draw_0: "fst (next_draw g) = draw g 0"
  by (simp add: draw_def)

lemma draw_until_first:
  assumes "t \<le> draw g k" "\<And>i. i < k \<Longrightarrow> draw g i < t"
  shows "draw_until t (draw g 0) (snd (next_draw g)) = Some (draw g k, stream_at (Suc k) g)"
  using assms
proof (induction k arbitrary: g)
  case 0
  then have "\<not> draw g 0 < t" by (simp add: not_less)
  then show ?case by (subst draw_until.simps) simp
next
  case (Suc k)
  let ?g = "snd (next_draw g)"
  note shift = draw_shift[of g]
  have "draw_until t (draw ?g 0) (snd (next_draw ?g)) = Some (draw ?g k, stream_at (Suc k) ?g)"
    by (rule Suc.IH) (use Suc.prems in \<open>simp_all add: shift\<close>)
  moreover have "draw g 0 < t" using Suc.prems(2) by simp
  ultimately show ?case
    by (subst draw_until.simps) (simp add: case_prod_beta draw_0 shift)
qed

lemma draw_until_stops:
  assumes "draw_until t r g = Some (y, g')"
  shows "t \<le> r \<or> (\<exists>i. t \<le> draw g i)"
proof (rule draw_until.raw_induct[where P = "\<lambda>t r g z. t \<le> r \<or> (\<exists>i. t \<le> draw g i)", OF _ assms])
  fix step t r g z
  assume IH: "\<And>t r g z. step t r g = Some z \<Longrightarrow> t \<le> r \<or> (\<exists>i. t \<le> draw g i)"
    and run: "(if r < t then (let (r', g') = next_draw g in step t r' g') else Some (r, g)) = Some z"
  show "t \<le> r \<or> (\<exists>i. t \<le> draw g i)"
  proof (cases "r < t")
    case True
    then have "step t (draw g 0) (snd (next_draw g)) = Some z" using run by (simp add: case_prod_beta draw_0)
    then have "t \<le> draw g 0 \<or> (\<exists>i. t \<le> draw (snd (next_draw g)) i)" by (rule IH)
    then show ?thesis unfolding draw_shift by blast
  qed (simp add: not_less)
qed

text \<open>The draw returns the first output that is not rejected, and diverges when there is none.\<close>

lemma below64_eq:
  assumes n: "1 < n"
  shows "below64 n g = (if \<exists>i. rejected_below n \<le> draw g i
    then (let k = LEAST i. rejected_below n \<le> draw g i in Some (draw g k mod n, stream_at (Suc k) g)) else None)"
proof -
  let ?P = "\<lambda>i. rejected_below n \<le> draw g i"
  have run: "below64 n g = do { (r, g') \<leftarrow> draw_until (rejected_below n) (draw g 0) (snd (next_draw g)); Some (r mod n, g') }"
    using n[unfolded not_le[symmetric]] by (simp add: below64_def case_prod_beta draw_0 rejected_below_def)
  show ?thesis
  proof (cases "\<exists>i. ?P i")
    case True
    have "?P (LEAST i. ?P i)" using True by (rule LeastI_ex)
    moreover have "draw g i < rejected_below n" if "i < (LEAST i. ?P i)" for i
      using not_less_Least[OF that] by simp
    ultimately have "draw_until (rejected_below n) (draw g 0) (snd (next_draw g))
        = Some (draw g (LEAST i. ?P i), stream_at (Suc (LEAST i. ?P i)) g)" by (rule draw_until_first)
    then show ?thesis unfolding run Let_def using True by simp
  next
    case False
    have "draw_until (rejected_below n) (draw g 0) (snd (next_draw g)) = None"
    proof (rule ccontr)
      assume "draw_until (rejected_below n) (draw g 0) (snd (next_draw g)) \<noteq> None"
      then obtain y g' where "draw_until (rejected_below n) (draw g 0) (snd (next_draw g)) = Some (y, g')" by auto
      then have "?P 0 \<or> (\<exists>i. rejected_below n \<le> draw (snd (next_draw g)) i)" by (rule draw_until_stops)
      then show False using False unfolding draw_shift by blast
    qed
    then show ?thesis using False run by simp
  qed
qed

section \<open>The draw is unbiased\<close>

lemma rejected_below_nat: "0 < n \<Longrightarrow> unat (rejected_below n) = 2 ^ 64 mod unat n"
proof -
  assume n: "0 < n"
  have "(of_nat (2 ^ 64 - unat n) :: u64) = of_nat (2 ^ 64) - of_nat (unat n)"
    using unat_lt64[of n] by (intro of_nat_diff) simp
  then have "0 - n = of_nat (2 ^ 64 - unat n)" by simp
  then have "unat (0 - n) = 2 ^ 64 - unat n"
    using n by (simp add: unat_of_nat_small word_less_nat_alt del: of_nat_diff)
  moreover have "(2 ^ 64 - unat n) mod unat n = 2 ^ 64 mod unat n"
    using unat_lt64[of n] le_mod_geq[of "unat n" "2 ^ 64"] by simp
  ultimately show ?thesis by (simp add: rejected_below_def unat_mod)
qed

lemma multiples_in_interval:
  fixes n :: nat
  assumes k: "k < n"
  shows "card {r. N mod n \<le> r \<and> r < N \<and> r mod n = k} = N div n"
proof -
  define o' where "o' = (if k < N mod n then 1 else 0 :: nat)"
  have n: "0 < n" using k by simp
  have low: "N mod n < n" using n by simp
  have dec: "N = N div n * n + N mod n" by simp
  have "{r. N mod n \<le> r \<and> r < N \<and> r mod n = k} = (\<lambda>q. (q + o') * n + k) ` {..<N div n}" (is "?A = ?B")
  proof
    show "?A \<subseteq> ?B"
    proof
      fix r assume r: "r \<in> ?A"
      have rd: "r = r div n * n + k" using r div_mult_mod_eq[of r n] by simp
      have lo: "o' \<le> r div n"
      proof (cases "k < N mod n")
        case True
        then have "k < r" using r by simp
        then have "0 < r div n" using rd by (cases "r div n") auto
        then show ?thesis by (simp add: o'_def)
      qed (simp add: o'_def)
      have "r div n - o' < N div n"
      proof (cases "k < N mod n")
        case True
        have "r div n \<le> N div n" using r by (intro div_le_mono) simp
        then show ?thesis using True lo by (simp add: o'_def)
      next
        case False
        have "r < N" using r by simp
        then have "r div n * n < N div n * n" using rd dec False by linarith
        then show ?thesis using n False by (simp add: o'_def)
      qed
      then show "r \<in> ?B" using rd lo by (intro image_eqI[of _ _ "r div n - o'"]) auto
    qed
    show "?B \<subseteq> ?A"
    proof
      fix r assume "r \<in> ?B"
      then obtain q where q: "q < N div n" "r = (q + o') * n + k" by auto
      have "(q + 1) * n \<le> N div n * n" using q(1) by (intro mult_le_mono) simp_all
      then have "q * n + n \<le> N div n * n" by simp
      then have "r < N \<and> N mod n \<le> r"
        using q(2) k dec low by (cases "k < N mod n") (simp only: o'_def if_True if_False distrib_right, linarith)+
      moreover have "r mod n = k" using q(2) k by simp
      ultimately show "r \<in> ?A" by simp
    qed
  qed
  moreover have "inj_on (\<lambda>q. (q + o') * n + k) {..<N div n}" using n by (auto simp: inj_on_def)
  ultimately show ?thesis by (simp add: card_image)
qed

lemma accepted_evenly:
  assumes n: "1 < n" and k: "k < n"
  shows "card {r. rejected_below n \<le> r \<and> r mod n = k} = 2 ^ 64 div unat n"
proof -
  have n0: "0 < n" using n by (simp add: word_less_nat_alt)
  have "bij_betw unat {r. rejected_below n \<le> r \<and> r mod n = k}
      {r. 2 ^ 64 mod unat n \<le> r \<and> r < 2 ^ 64 \<and> r mod unat n = unat k}"
  proof (rule bij_betwI')
    fix y :: nat assume y: "y \<in> {r. 2 ^ 64 mod unat n \<le> r \<and> r < 2 ^ 64 \<and> r mod unat n = unat k}"
    have u: "unat (of_nat y :: u64) = y" using y by (simp add: unat_of_nat_small)
    then have "(of_nat y :: u64) \<in> {r. rejected_below n \<le> r \<and> r mod n = k}"
      using y rejected_below_nat[OF n0] by (simp add: word_le_nat_alt word_unat_eq_iff unat_mod)
    then show "\<exists>x\<in>{r. rejected_below n \<le> r \<and> r mod n = k}. y = unat x" using u by force
  next
    fix x y :: u64
    show "unat x = unat y \<longleftrightarrow> x = y" by (simp add: word_unat_eq_iff)
  qed (use rejected_below_nat[OF n0] unat_lt64 in \<open>auto simp: word_le_nat_alt unat_mod\<close>)
  then have "card {r. rejected_below n \<le> r \<and> r mod n = k}
      = card {r. 2 ^ 64 mod unat n \<le> r \<and> r < 2 ^ 64 \<and> r mod unat n = unat k}"
    by (rule bij_betw_same_card)
  also have "\<dots> = 2 ^ 64 div unat n"
    by (rule multiples_in_interval) (use k in \<open>simp add: word_less_nat_alt\<close>)
  finally show ?thesis .
qed

text \<open>The outputs of the engine on which the draw returns \<open>k\<close>; the others make it draw again.\<close>

definition outputs_for :: "u64 \<Rightarrow> u64 \<Rightarrow> u64 set" where
  "outputs_for n k = {r. 2 ^ 64 mod unat n \<le> unat r \<and> r mod n = k}"

lemma below64_class:
  assumes n: "1 < n"
  shows "below64 n g = Some (k, g') \<longleftrightarrow> (\<exists>j. g' = stream_at (Suc j) g \<and> draw g j \<in> outputs_for n k
    \<and> (\<forall>i<j. \<forall>v. draw g i \<notin> outputs_for n v))"
proof -
  have n0: "0 < n" using n by (simp add: word_less_nat_alt)
  have acc: "rejected_below n \<le> r \<longleftrightarrow> 2 ^ 64 mod unat n \<le> unat r" for r
    using rejected_below_nat[OF n0] by (simp add: word_le_nat_alt)
  let ?P = "\<lambda>i. rejected_below n \<le> draw g i"
  have o: "draw g i \<in> outputs_for n v \<longleftrightarrow> ?P i \<and> draw g i mod n = v" for i v
    by (simp add: outputs_for_def acc)
  have first: "(\<forall>i<j. \<forall>v. draw g i \<notin> outputs_for n v) \<longleftrightarrow> (\<forall>i<j. \<not> ?P i)" for j by (auto simp: o)
  have least: "?P j \<and> (\<forall>i<j. \<not> ?P i) \<longleftrightarrow> (\<exists>i. ?P i) \<and> j = (LEAST i. ?P i)" for j
    by (metis (mono_tags, lifting) LeastI_ex Least_equality not_less not_less_Least)
  have "below64 n g = Some (k, g') \<longleftrightarrow> (\<exists>i. ?P i) \<and> (\<exists>j. j = (LEAST i. ?P i) \<and> k = draw g j mod n \<and> g' = stream_at (Suc j) g)"
    unfolding below64_eq[OF n] by (auto simp: Let_def simp del: stream_at.simps)
  also have "\<dots> \<longleftrightarrow> (\<exists>j. (?P j \<and> (\<forall>i<j. \<not> ?P i)) \<and> k = draw g j mod n \<and> g' = stream_at (Suc j) g)"
    unfolding least by blast
  finally show ?thesis unfolding o first by blast
qed

lemma outputs_for_evenly:
  assumes "1 < n" "k < n"
  shows "card (outputs_for n k) = 2 ^ 64 div unat n"
proof -
  have "0 < n" using assms(1) by (simp add: word_less_nat_alt)
  then have "outputs_for n k = {r. rejected_below n \<le> r \<and> r mod n = k}"
    using rejected_below_nat[of n] by (simp add: outputs_for_def word_le_nat_alt)
  then show ?thesis using accepted_evenly[OF assms] by simp
qed

section \<open>Streams that keep yielding\<close>

text \<open>
  The stream has \<open>m\<close> further outputs of at least \<open>t\<close>.  The first \<open>m\<close> draws that reject only
  below \<open>t\<close> then return.
\<close>

definition yields :: "u64 \<Rightarrow> nat \<Rightarrow> RandomStream \<Rightarrow> bool" where
  "yields t m g \<longleftrightarrow> (\<exists>L. m \<le> card {i. i < L \<and> t \<le> draw g i})"

lemma yields_front: "(\<And>i. i < m \<Longrightarrow> t \<le> draw g i) \<Longrightarrow> yields t m g"
proof -
  assume "\<And>i. i < m \<Longrightarrow> t \<le> draw g i"
  then have "{i. i < m \<and> t \<le> draw g i} = {..<m}" by auto
  then show ?thesis unfolding yields_def by (intro exI[of _ m]) simp
qed

lemma yields_0 [simp]: "yields t 0 g"
  by (simp add: yields_def)

lemma yields_less: "yields t n g \<Longrightarrow> m \<le> n \<Longrightarrow> yields t m g"
  unfolding yields_def by (meson le_trans)

lemma rejected_below_small: "0 < n \<Longrightarrow> rejected_below n < n" "0 < n \<Longrightarrow> unat (rejected_below n) < 2 ^ 63"
proof -
  assume n: "0 < n"
  then have u: "0 < unat n" by (simp add: word_less_nat_alt)
  show "rejected_below n < n" using n u by (simp add: word_less_nat_alt rejected_below_nat)
  have "(2 :: nat) ^ 64 mod unat n < 2 ^ 63"
  proof (cases "unat n \<le> 2 ^ 63")
    case True
    then show ?thesis using u mod_less_divisor[of "unat n" "2 ^ 64"] by linarith
  next
    case False
    then have "(2 :: nat) ^ 64 mod unat n = 2 ^ 64 - unat n"
      using unat_lt64[of n] by (simp add: le_mod_geq)
    then show ?thesis using False by simp
  qed
  then show "unat (rejected_below n) < 2 ^ 63" using n by (simp add: rejected_below_nat)
qed

lemma below64_yields:
  assumes y: "yields t (Suc m) g" and t: "rejected_below n \<le> t"
  shows "\<exists>r g'. below64 n g = Some (r, g') \<and> (1 < n \<longrightarrow> r < n) \<and> (n \<le> 1 \<longrightarrow> r = 0) \<and> yields t m g'"
proof (cases "1 < n")
  case True
  let ?P = "\<lambda>i. rejected_below n \<le> draw g i"
  obtain L where L: "Suc m \<le> card {i. i < L \<and> t \<le> draw g i}" using y by (auto simp: yields_def)
  then have "{i. i < L \<and> t \<le> draw g i} \<noteq> {}" by (metis card.empty not_less_eq_eq zero_le)
  then obtain i where "t \<le> draw g i" by blast
  then have ex: "?P i" using t by simp
  define k where "k = (LEAST i. ?P i)"
  have first: "k \<le> j" if "t \<le> draw g j" for j
    unfolding k_def by (rule Least_le) (use that t in simp)
  let ?S = "{i. i < L \<and> t \<le> draw (stream_at (Suc k) g) i}"
  have "{i. i < L \<and> t \<le> draw g i} \<subseteq> insert k ((\<lambda>i. Suc k + i) ` ?S)"
  proof
    fix j assume j: "j \<in> {i. i < L \<and> t \<le> draw g i}"
    then have "k \<le> j" using first by simp
    show "j \<in> insert k ((\<lambda>i. Suc k + i) ` ?S)"
    proof (cases "j = k")
      case False
      then have e: "j = Suc k + (j - Suc k)" using \<open>k \<le> j\<close> by simp
      have "t \<le> draw (stream_at (Suc k) g) (j - Suc k)" unfolding draw_stream_at using j e by simp
      moreover have "j - Suc k < L" using j e by simp
      ultimately have "j - Suc k \<in> ?S" by blast
      then show ?thesis using e by blast
    qed simp
  qed
  then have "card {i. i < L \<and> t \<le> draw g i} \<le> card (insert k ((\<lambda>i. Suc k + i) ` ?S))"
    by (intro card_mono) simp_all
  also have "\<dots> \<le> Suc (card ((\<lambda>i. Suc k + i) ` ?S))" by (rule card_insert_le_m1) simp_all
  also have "\<dots> \<le> Suc (card ?S)" by (simp add: card_image_le)
  finally have "m \<le> card ?S" using L by simp
  then have "yields t m (stream_at (Suc k) g)" unfolding yields_def by blast
  moreover have "below64 n g = Some (draw g k mod n, stream_at (Suc k) g)"
    using below64_eq[OF True, of g] ex by (auto simp: k_def Let_def)
  moreover have "draw g k mod n < n" using True by (intro word_mod_less_divisor) (simp add: word_less_nat_alt)
  ultimately show ?thesis using True by (auto simp: not_le)
next
  case False
  then have "n \<le> 1" by simp
  then show ?thesis using False yields_less[OF y, of m] by (simp add: below64_def)
qed

text \<open>
  What a workload generator needs of a draw: it returns a value under the bound it is
  given, and leaves the stream good for one draw fewer.
\<close>

locale bounded_draw =
  fixes pick :: "'n::len word \<Rightarrow> 'g \<Rightarrow> ('n word \<times> 'g) option"
    and lively :: "nat \<Rightarrow> 'g \<Rightarrow> bool"
  assumes pick_below: "0 < n \<Longrightarrow> lively (Suc m) g \<Longrightarrow> \<exists>r g'. pick n g = Some (r, g') \<and> r < n \<and> lively m g'"

interpretation draw32: bounded_draw below "yields (2 ^ 32)"
proof
  fix n :: u32 and m g
  assume n: "0 < n" and y: "yields (2 ^ 32) (Suc m) g"
  have u: "unat (ucast n :: u64) = unat n" by (simp add: unat_ucast_up_eq)
  then have "0 < (ucast n :: u64)" using n by (simp add: word_less_nat_alt)
  then have "unat (rejected_below (ucast n)) < unat n"
    using rejected_below_small(1)[of "ucast n"] u by (simp add: word_less_nat_alt)
  then have "rejected_below (ucast n) \<le> 2 ^ 32" using unat_lt32[of n] by (simp add: word_le_nat_alt)
  from below64_yields[OF y this] obtain r g' where r: "below64 (ucast n) g = Some (r, g')"
    "1 < (ucast n :: u64) \<longrightarrow> r < ucast n" "(ucast n :: u64) \<le> 1 \<longrightarrow> r = 0" "yields (2 ^ 32) m g'" by blast
  have "unat r < unat n"
  proof (cases "1 < (ucast n :: u64)")
    case True
    then show ?thesis using r(2) u by (simp add: word_less_nat_alt)
  next
    case False
    then have "r = 0" using r(3) by simp
    then show ?thesis using n by (simp add: word_less_nat_alt)
  qed
  then have "unat (ucast r :: u32) < unat n" using unat_lt32[of n] by (simp add: unsigned_ucast_eq take_bit_nat_eq_self)
  then show "\<exists>r g'. below n g = Some (r, g') \<and> r < n \<and> yields (2 ^ 32) m g'"
    using r by (simp add: below_def word_less_nat_alt)
qed

interpretation draw64: bounded_draw below64 "yields (2 ^ 63)"
proof
  fix n :: u64 and m g
  assume n: "0 < n" and y: "yields (2 ^ 63) (Suc m) g"
  have "rejected_below n \<le> 2 ^ 63" using rejected_below_small(2)[OF n] by (simp add: word_le_nat_alt)
  from below64_yields[OF y this] obtain r g' where r: "below64 n g = Some (r, g')"
    "1 < n \<longrightarrow> r < n" "n \<le> 1 \<longrightarrow> r = 0" "yields (2 ^ 63) m g'" by blast
  moreover have "r < n" using r(2,3) n by (cases "1 < n") auto
  ultimately show "\<exists>r g'. below64 n g = Some (r, g') \<and> r < n \<and> yields (2 ^ 63) m g'" by blast
qed

lemma draw_port_range:
  assumes "yields (2 ^ 32) (Suc m) g"
  shows "\<exists>q g'. draw_port g = Some (q, g') \<and> 1024 \<le> q \<and> q < 64512 \<and> yields (2 ^ 32) m g'"
proof -
  obtain r g' where r: "below 63488 g = Some (r, g')" "r < 63488" "yields (2 ^ 32) m g'"
    using draw32.pick_below[OF _ assms, of 63488] by auto
  have "unat (1024 + r) = 1024 + unat r"
    using r(2) by (subst unat_add_small) (simp_all add: word_less_nat_alt)
  then have "unat (ucast (1024 + r) :: u16) = 1024 + unat r"
    using r(2) by (simp add: unsigned_ucast_eq take_bit_nat_eq_self word_less_nat_alt)
  then show ?thesis using r by (simp add: draw_port_def word_le_nat_alt word_less_nat_alt)
qed

lemma jittered_start:
  assumes "yields (2 ^ 63) (Suc m) g"
  shows "\<exists>t g'. below64 (j + 1) g = Some (t, g') \<and> t \<le> j \<and> yields (2 ^ 63) m g'"
proof -
  have "rejected_below (j + 1) \<le> 2 ^ 63"
    using rejected_below_small(2)[of "j + 1"]
    by (cases "j + 1 = 0") (simp_all add: word_gt_0 word_le_nat_alt rejected_below_def)
  from below64_yields[OF assms this] obtain t g' where t: "below64 (j + 1) g = Some (t, g')"
    "1 < j + 1 \<longrightarrow> t < j + 1" "j + 1 \<le> 1 \<longrightarrow> t = 0" "yields (2 ^ 63) m g'" by blast
  have "t \<le> j"
  proof (cases "1 < j + 1")
    case True
    then have "1 + j \<noteq> 0" by (auto simp: add.commute)
    then have "unat (j + 1) = Suc (unat j)" using unatSuc[of j] by (simp add: add.commute)
    then show ?thesis using t(2) True by (simp add: word_less_nat_alt word_le_nat_alt)
  next
    case False
    then show ?thesis using t(3) by simp
  qed
  then show ?thesis using t by blast
qed

section \<open>The first outputs of a fresh stream\<close>

definition front_draws :: "nat \<Rightarrow> u64 \<Rightarrow> u64 \<Rightarrow> u64 list" where
  "front_draws m seed nm = (let xs = mt_fill (m + 156) 1 (splitmix (seed XOR splitmix nm))
     in map (\<lambda>i. mt_temper (mt_twist (xs ! i) (xs ! Suc i) (xs ! (i + 156)))) [0..<m])"

lemma stream_at_gen: "i \<le> length (gen g) \<Longrightarrow> 0 < length (gen g) \<Longrightarrow> \<exists>ys. gen (stream_at i g) = drop i (gen g) @ ys \<and> length ys = i"
proof (induction i arbitrary: g)
  case (Suc i)
  let ?g = "snd (next_draw g)"
  obtain x where x: "gen ?g = tl (gen g) @ [x]" by (auto simp: next_draw_def mt_next_def Let_def)
  then have "length (gen ?g) = length (gen g)" using Suc.prems by simp
  then obtain ys where "gen (stream_at i ?g) = drop i (gen ?g) @ ys" "length ys = i" using Suc.IH[of ?g] Suc.prems by auto
  moreover have "drop i (tl (gen g) @ [x]) = drop (Suc i) (gen g) @ [x]"
    using Suc.prems by (simp add: drop_Suc)
  ultimately show ?case using x by (intro exI[of _ "x # ys"]) simp
qed simp

lemma front_draw:
  assumes "i < m" "m + 156 \<le> 312"
  shows "draw (stream_new seed nm) i = front_draws m seed nm ! i"
proof -
  let ?s = "splitmix (seed XOR splitmix nm)" and ?g = "stream_new seed nm"
  have g: "gen ?g = mt_fill 312 1 ?s" by (simp add: stream_new_def mt_new_def)
  obtain ys where ys: "gen (stream_at i ?g) = drop i (mt_fill 312 1 ?s) @ ys"
    using stream_at_gen[of i ?g] assms by (auto simp: g)
  have nth: "gen (stream_at i ?g) ! j = mt_fill (m + 156) 1 ?s ! (i + j)" if "j \<le> 156" for j
  proof -
    have j: "j < 312 - i" "i + j < 312" "i + j < m + 156" using that assms by linarith+
    then show ?thesis using mt_fill_nth[OF j(2,3), of 1 ?s] by (simp add: ys nth_append)
  qed
  have "draw ?g i = mt_temper (mt_twist (mt_fill (m + 156) 1 ?s ! (i + 0)) (mt_fill (m + 156) 1 ?s ! (i + 1)) (mt_fill (m + 156) 1 ?s ! (i + 156)))"
    unfolding draw_def next_draw_def mt_next_def Let_def by (subst nth, simp)+ simp
  then show ?thesis using assms(1) by (simp add: front_draws_def Let_def del: mt_fill.simps)
qed

lemma yields_fresh:
  assumes "list_all (\<lambda>r. t \<le> r) (front_draws m seed nm)" "m \<le> 156"
  shows "yields t m (stream_new seed nm)"
proof (rule yields_front)
  fix i assume i: "i < m"
  moreover have "length (front_draws m seed nm) = m" by (simp add: front_draws_def Let_def)
  ultimately have "t \<le> front_draws m seed nm ! i" using assms(1) by (simp add: list_all_length)
  then show "t \<le> draw (stream_new seed nm) i" using front_draw[OF i, of seed nm] assms(2) by simp
qed

end
