(* ===== verification/Permutation.thy ===== *)
theory Permutation
  imports Random_Stream Sim_Flows
begin

text \<open>
  \<^verbatim>\<open>workload/permutation.hpp\<close> and \<^verbatim>\<open>workload/permutation.cpp\<close>: the permutation workload,
  one flow out of and one flow into every host.  Sattolo's loop is shown to make one single
  cycle of the hosts, whatever the draws are.
\<close>

section \<open>The code\<close>

record PermutationParams =
  pp_seed :: u64
  pp_flow_bytes :: Bytes
  pp_mtu_bytes :: u16
  pp_load_permille :: u32
  pp_window_pkts :: u32
  pp_max_start_jitter_ns :: Nanos

definition default_permutation :: PermutationParams where
  "default_permutation = \<lparr>pp_seed = 0, pp_flow_bytes = 1000000, pp_mtu_bytes = 1500,
     pp_load_permille = 1000, pp_window_pkts = 32, pp_max_start_jitter_ns = 0\<rparr>"

text \<open>The loop from \<open>i\<close> down to 1, over the draw it makes.\<close>

primrec shuffle_loop :: "('n::len word \<Rightarrow> 'g \<Rightarrow> ('n word \<times> 'g) option) \<Rightarrow> nat \<Rightarrow> 'a list \<Rightarrow> 'g \<Rightarrow> ('a list \<times> 'g) option" where
  "shuffle_loop pick 0 dst g = Some (dst, g)"
| "shuffle_loop pick (Suc i) dst g = do {
     (j, g) \<leftarrow> pick (of_nat (Suc i)) g;
     tmp \<leftarrow> vget dst (Suc i);
     v \<leftarrow> vget dst (unat j);
     dst \<leftarrow> vset dst (Suc i) v;
     dst \<leftarrow> vset dst (unat j) tmp;
     shuffle_loop pick i dst g
   }"

definition permutation_flow :: "fabric \<Rightarrow> PermutationParams \<Rightarrow> u32 list \<Rightarrow> nat
    \<Rightarrow> FlowSpec list \<times> RandomStream \<times> RandomStream \<Rightarrow> (FlowSpec list \<times> RandomStream \<times> RandomStream) option" where
  "permutation_flow f params dst h = (\<lambda>(flows, port_rng, start_rng). do {
     d \<leftarrow> vget dst h;
     assert_that (d \<noteq> of_nat h);
     src \<leftarrow> host_at f (of_nat h);
     to \<leftarrow> host_at f d;
     (port, port_rng) \<leftarrow> draw_port port_rng;
     (start, start_rng) \<leftarrow> (if pp_max_start_jitter_ns params = 0 then Some (0, start_rng)
       else below64 (pp_max_start_jitter_ns params + 1) start_rng);
     Some (flows @ [default_flow_spec\<lparr>fs_src := src, fs_dst := to, fs_size_bytes := pp_flow_bytes params,
       fs_mtu_bytes := pp_mtu_bytes params, fs_load_permille := pp_load_permille params,
       fs_window_pkts := pp_window_pkts params, fs_src_port := port, fs_dst_port := 5001,
       fs_start_ns := start\<rparr>], port_rng, start_rng)
   })"

definition make_permutation :: "fabric \<Rightarrow> PermutationParams \<Rightarrow> FlowSpec list option" where
  "make_permutation f params = do {
     let n = (of_nat (host_count f) :: u32);
     assert_that (2 \<le> n);
     assert_that (0 < pp_load_permille params \<and> pp_load_permille params \<le> 1000);
     let perm_rng = stream_new (pp_seed params) kStreamPermutation;
     let port_rng = stream_new (pp_seed params) kStreamPorts;
     let start_rng = stream_new (pp_seed params) kStreamStartTimes;
     (dst, _) \<leftarrow> shuffle_loop below (unat (n - 1)) (map of_nat [0..<unat n]) perm_rng;
     (flows, _, _) \<leftarrow> fold_opt (permutation_flow f params dst) [0..<unat n] ([], port_rng, start_rng);
     Some flows
   }"

section \<open>One cycle\<close>

definition single_cycle :: "(nat \<Rightarrow> nat) \<Rightarrow> nat \<Rightarrow> bool" where
  "single_cycle \<pi> n \<longleftrightarrow> bij_betw \<pi> {..<n} {..<n} \<and> (\<forall>x < n. \<forall>y < n. (x, y) \<in> {(x, \<pi> x) |x. x < n}\<^sup>*)"

lemma single_cycle_bij: "single_cycle \<pi> n \<Longrightarrow> bij_betw \<pi> {..<n} {..<n}"
  by (simp add: single_cycle_def)

lemma single_cycle_less: "single_cycle \<pi> n \<Longrightarrow> x < n \<Longrightarrow> \<pi> x < n"
  using bij_betwE[OF single_cycle_bij] by blast

lemma single_cycle_deranged:
  assumes c: "single_cycle \<pi> n" and n: "2 \<le> n" and x: "x < n"
  shows "\<pi> x \<noteq> x"
proof
  assume fixed: "\<pi> x = x"
  have stuck: "y = x" if "(x, y) \<in> {(x, \<pi> x) |x. x < n}\<^sup>*" for y
    using that by (induction rule: rtrancl_induct) (auto simp: fixed)
  define y where "y = (if x = 0 then 1 else 0 :: nat)"
  have "y < n" "y \<noteq> x" using n by (simp_all add: y_def)
  then show False using c x stuck unfolding single_cycle_def by blast
qed

text \<open>A new element \<open>n\<close> spliced into the cycle just before \<open>j\<close>.\<close>

definition splice :: "(nat \<Rightarrow> nat) \<Rightarrow> nat \<Rightarrow> nat \<Rightarrow> nat \<Rightarrow> nat" where
  "splice \<pi> n j x = (if x = n then j else if \<pi> x = j then n else \<pi> x)"

lemma splice_cycle:
  assumes c: "single_cycle \<pi> n" and j: "j < n"
  shows "single_cycle (splice \<pi> n j) (Suc n)"
proof -
  let ?\<sigma> = "splice \<pi> n j" and ?R = "{(x, \<pi> x) |x. x < n}" and ?S = "{(x, splice \<pi> n j x) |x. x < Suc n}"
  note less = single_cycle_less[OF c] and inj = bij_betw_imp_inj_on[OF single_cycle_bij[OF c]]
  have "\<exists>p < n. \<pi> p = j"
    using bij_betw_imp_surj_on[OF single_cycle_bij[OF c]] j by (metis imageE lessThan_iff)
  then obtain p where p: "p < n" "\<pi> p = j" by blast
  have "inj_on ?\<sigma> {..<Suc n}"
  proof (rule inj_onI)
    fix x y assume "x \<in> {..<Suc n}" "y \<in> {..<Suc n}" "?\<sigma> x = ?\<sigma> y"
    then show "x = y"
      using less[of x] less[of y] j inj by (auto simp: splice_def less_Suc_eq inj_on_def split: if_splits)
  qed
  moreover have "?\<sigma> ` {..<Suc n} \<subseteq> {..<Suc n}"
    using less j by (auto simp: splice_def less_Suc_eq)
  ultimately have bij: "bij_betw ?\<sigma> {..<Suc n} {..<Suc n}"
    by (simp add: bij_betw_def endo_inj_surj)
  have nj: "(n, j) \<in> ?S" by (auto simp: splice_def)
  have pn: "(p, n) \<in> ?S" using p j by (auto simp: splice_def)
  have "?R \<subseteq> ?S\<^sup>*"
  proof
    fix e assume "e \<in> ?R"
    then obtain x where x: "x < n" "e = (x, \<pi> x)" by blast
    show "e \<in> ?S\<^sup>*"
    proof (cases "\<pi> x = j")
      case True
      then have "(x, n) \<in> ?S" using x by (auto simp: splice_def)
      then have "(x, j) \<in> ?S\<^sup>*" using nj by (rule rtrancl.rtrancl_into_rtrancl[OF r_into_rtrancl])
      then show ?thesis using True x(2) by simp
    next
      case False
      then have "(x, \<pi> x) \<in> ?S" using x by (auto simp: splice_def)
      then show ?thesis using x(2) by blast
    qed
  qed
  then have RS: "?R\<^sup>* \<subseteq> ?S\<^sup>*" by (rule rtrancl_subset_rtrancl)
  have old: "(x, y) \<in> ?S\<^sup>*" if "x < n" "y < n" for x y
    using that c RS unfolding single_cycle_def by blast
  have all: "(x, y) \<in> ?S\<^sup>*" if xy: "x < Suc n" "y < Suc n" for x y
  proof -
    have to_n: "(u, n) \<in> ?S\<^sup>*" if "u < n" for u
      using old[OF that p(1)] pn by (rule rtrancl.rtrancl_into_rtrancl)
    have from_n: "(n, u) \<in> ?S\<^sup>*" if "u < n" for u
      using nj old[OF j that] by (rule converse_rtrancl_into_rtrancl)
    consider "x = n" "y = n" | "x = n" "y < n" | "x < n" "y = n" | "x < n" "y < n" using xy by linarith
    then show ?thesis using old to_n from_n by cases (blast+)
  qed
  then show ?thesis using bij unfolding single_cycle_def by blast
qed

lemma single_cycle_one: "single_cycle (\<lambda>x. x) 1"
  by (simp add: single_cycle_def bij_betw_def)

text \<open>The loop, for any draw that keeps its bounds.\<close>

context bounded_draw begin

lemma shuffle_loop_cycle:
  assumes "i < length dst" "length dst \<le> 2 ^ LENGTH('n)" "lively i g"
  shows "\<exists>\<pi> dst' g'. shuffle_loop pick i dst g = Some (dst', g') \<and> single_cycle \<pi> (Suc i)
    \<and> dst' = map (\<lambda>x. dst ! (if x \<le> i then \<pi> x else x)) [0..<length dst]"
  using assms
proof (induction i arbitrary: dst g)
  case 0
  have "dst = map (\<lambda>x. dst ! (if x \<le> 0 then x else x)) [0..<length dst]" by (simp add: map_nth)
  then show ?case using single_cycle_one by (intro exI[of _ "\<lambda>x. x"]) simp
next
  case (Suc i)
  have small: "unat (of_nat (Suc i) :: 'n word) = Suc i" using Suc.prems by (intro unat_of_nat_small) simp
  then have "0 < (of_nat (Suc i) :: 'n word)" by (simp add: word_less_nat_alt)
  from pick_below[OF this Suc.prems(3)] obtain r g1
    where r: "pick (of_nat (Suc i)) g = Some (r, g1)" "r < of_nat (Suc i)" "lively i g1" by blast
  define j where "j = unat r"
  have j: "j < Suc i" using r(2) small by (simp add: j_def word_less_nat_alt)
  define dst1 where "dst1 = dst[Suc i := dst ! j, j := dst ! Suc i]"
  have len: "length dst1 = length dst" by (simp add: dst1_def)
  obtain \<pi> dst' g' where IH: "shuffle_loop pick i dst1 g1 = Some (dst', g')" "single_cycle \<pi> (Suc i)"
    "dst' = map (\<lambda>x. dst1 ! (if x \<le> i then \<pi> x else x)) [0..<length dst1]"
    using Suc.IH[of dst1 g1] Suc.prems r(3) len by auto
  have "shuffle_loop pick (Suc i) dst g = Some (dst', g')"
    using r(1) IH(1) j Suc.prems(1) by (simp add: fabric_simps dst1_def flip: j_def)
  moreover have "dst' = map (\<lambda>x. dst ! (if x \<le> Suc i then splice \<pi> (Suc i) j x else x)) [0..<length dst]"
    unfolding IH(3) len
  proof (rule map_cong[OF refl])
    fix x assume "x \<in> set [0..<length dst]"
    then show "dst1 ! (if x \<le> i then \<pi> x else x) = dst ! (if x \<le> Suc i then splice \<pi> (Suc i) j x else x)"
      using single_cycle_less[OF IH(2), of x] j Suc.prems(1)
      by (auto simp: dst1_def nth_list_update splice_def)
  qed
  ultimately show ?case using splice_cycle[OF IH(2) j] by blast
qed

end

section \<open>The workload\<close>

definition permutation_spec :: "fabric \<Rightarrow> PermutationParams \<Rightarrow> nat \<Rightarrow> nat \<Rightarrow> FlowSpec \<Rightarrow> bool" where
  "permutation_spec f params h d spec \<longleftrightarrow> (\<exists>port start. 1024 \<le> port \<and> port < 64512 \<and> start \<le> pp_max_start_jitter_ns params
     \<and> spec = default_flow_spec\<lparr>fs_src := fab_hosts f ! h, fs_dst := fab_hosts f ! d, fs_size_bytes := pp_flow_bytes params,
       fs_mtu_bytes := pp_mtu_bytes params, fs_load_permille := pp_load_permille params,
       fs_window_pkts := pp_window_pkts params, fs_src_port := port, fs_dst_port := 5001, fs_start_ns := start\<rparr>)"

definition permutation_draws :: "nat \<Rightarrow> PermutationParams \<Rightarrow> bool" where
  "permutation_draws n params \<longleftrightarrow> yields (2 ^ 32) (n - 1) (stream_new (pp_seed params) kStreamPermutation)
     \<and> yields (2 ^ 32) n (stream_new (pp_seed params) kStreamPorts)
     \<and> (pp_max_start_jitter_ns params = 0 \<or> yields (2 ^ 63) n (stream_new (pp_seed params) kStreamStartTimes))"

lemma permutation_flow_ok:
  assumes h: "h < n" "n = host_count f" "n < 2 ^ 32" and d: "d < n" "d \<noteq> h" "length dst = n" "dst ! h = of_nat d"
    and ports: "yields (2 ^ 32) (Suc m) pr"
    and starts: "pp_max_start_jitter_ns params = 0 \<or> yields (2 ^ 63) (Suc m) sr"
  shows "\<exists>spec pr' sr'. permutation_flow f params dst h (flows, pr, sr) = Some (flows @ [spec], pr', sr')
    \<and> permutation_spec f params h d spec \<and> yields (2 ^ 32) m pr'
    \<and> (pp_max_start_jitter_ns params = 0 \<or> yields (2 ^ 63) m sr')"
proof -
  have u: "unat (of_nat h :: u32) = h" "unat (of_nat d :: u32) = d" using h d by (simp_all add: unat_of_nat_small)
  then have ne: "(of_nat d :: u32) \<noteq> of_nat h" using d(2) by metis
  have at: "host_at f (of_nat h) = Some (fab_hosts f ! h)" "host_at f (of_nat d) = Some (fab_hosts f ! d)"
    using u h d by (simp_all add: host_at_def host_count_def fabric_simps)
  obtain q pr' where q: "draw_port pr = Some (q, pr')" "1024 \<le> q" "q < 64512" "yields (2 ^ 32) m pr'"
    using draw_port_range[OF ports] by blast
  show ?thesis
  proof (cases "pp_max_start_jitter_ns params = 0")
    case True
    then show ?thesis using q ne at h d by (auto simp: permutation_flow_def fabric_simps permutation_spec_def)
  next
    case False
    then obtain t sr' where "below64 (pp_max_start_jitter_ns params + 1) sr = Some (t, sr')"
      "t \<le> pp_max_start_jitter_ns params" "yields (2 ^ 63) m sr'"
      using jittered_start[of m sr] starts by blast
    then show ?thesis using False q ne at h d
      by (auto simp: permutation_flow_def fabric_simps permutation_spec_def)
  qed
qed

lemma make_permutation_ok:
  assumes n: "n = host_count f" "2 \<le> n" "n < 2 ^ 32"
    and load: "0 < pp_load_permille params" "pp_load_permille params \<le> 1000"
    and draws: "permutation_draws n params"
  shows "\<exists>flows \<pi>. make_permutation f params = Some flows \<and> length flows = n \<and> single_cycle \<pi> n
    \<and> (\<forall>h < n. permutation_spec f params h (\<pi> h) (flows ! h))"
proof -
  let ?perm = "stream_new (pp_seed params) kStreamPermutation" and ?ids = "map of_nat [0..<n] :: u32 list"
  let ?ports = "stream_new (pp_seed params) kStreamPorts" and ?starts = "stream_new (pp_seed params) kStreamStartTimes"
  note D = draws[unfolded permutation_draws_def]
  have un: "unat (of_nat n :: u32) = n" using n(3) by (simp add: unat_of_nat_small)
  then have two: "2 \<le> (of_nat n :: u32)" using n(2) by (simp add: word_le_nat_alt)
  then have pred: "unat (of_nat n - 1 :: u32) = n - 1"
    using un by (subst unat_sub_small) (simp_all add: word_le_nat_alt)
  have "\<exists>\<pi> dst g'. shuffle_loop below (n - 1) ?ids ?perm = Some (dst, g') \<and> single_cycle \<pi> (Suc (n - 1))
    \<and> dst = map (\<lambda>x. ?ids ! (if x \<le> n - 1 then \<pi> x else x)) [0..<length ?ids]"
    by (rule draw32.shuffle_loop_cycle) (use n D in simp_all)
  then obtain \<pi> dst g' where s: "shuffle_loop below (n - 1) ?ids ?perm = Some (dst, g')" "single_cycle \<pi> n"
    and dst: "dst = map (\<lambda>x. ?ids ! (if x \<le> n - 1 then \<pi> x else x)) [0..<n]"
    using n(2) by (auto simp: Suc_diff_1)
  have to: "length dst = n" "h < n \<Longrightarrow> dst ! h = of_nat (\<pi> h)" for h
    using single_cycle_less[OF s(2), of h] by (auto simp: dst)
  define Inv where "Inv i st = (case st of (flows, pr, sr) \<Rightarrow> length flows = i \<and> yields (2 ^ 32) (n - i) pr
      \<and> (pp_max_start_jitter_ns params = 0 \<or> yields (2 ^ 63) (n - i) sr)
      \<and> (\<forall>h < i. permutation_spec f params h (\<pi> h) (flows ! h)))" for i st
  have "\<exists>st. fold_opt (permutation_flow f params dst) [0..<n] ([], ?ports, ?starts) = Some st \<and> Inv (length [0..<n]) st"
  proof (rule fold_opt_invariant)
    show "Inv 0 ([], ?ports, ?starts)" using D by (simp add: Inv_def)
    fix i st assume i: "i < length [0..<n]" and I: "Inv i st"
    obtain flows pr sr where st: "st = (flows, pr, sr)" by (cases st)
    have rest: "n - i = Suc (n - Suc i)" using i by simp
    obtain spec pr' sr' where run: "permutation_flow f params dst i (flows, pr, sr) = Some (flows @ [spec], pr', sr')"
      and sp: "permutation_spec f params i (\<pi> i) spec" "yields (2 ^ 32) (n - Suc i) pr'"
        "pp_max_start_jitter_ns params = 0 \<or> yields (2 ^ 63) (n - Suc i) sr'"
      using permutation_flow_ok[OF _ n(1,3) _ _ to(1) to(2), of i "n - Suc i" pr params sr flows] i I n(2)
        single_cycle_less[OF s(2), of i] single_cycle_deranged[OF s(2), of i]
      by (auto simp: Inv_def st rest)
    moreover have "Inv (Suc i) (flows @ [spec], pr', sr')"
      using I sp by (auto simp: Inv_def st nth_append less_Suc_eq)
    ultimately show "\<exists>st'. permutation_flow f params dst ([0..<n] ! i) st = Some st' \<and> Inv (Suc i) st'"
      using i by (simp add: st)
  qed
  then obtain flows pr sr where fl: "fold_opt (permutation_flow f params dst) [0..<n] ([], ?ports, ?starts) = Some (flows, pr, sr)"
    "length flows = n" "\<forall>h < n. permutation_spec f params h (\<pi> h) (flows ! h)" by (auto simp: Inv_def)
  have "make_permutation f params = Some flows"
    using two load s(1) fl(1) by (simp add: make_permutation_def fabric_simps un pred flip: n(1))
  then show ?thesis using fl s(2) by blast
qed

end
