(* ===== verification/Fat_Tree.thy ===== *)
theory Fat_Tree
  imports Topology
begin

text \<open>
  \<^verbatim>\<open>topology/fat_tree.hpp\<close> and \<^verbatim>\<open>topology/fat_tree.cpp\<close>: the k-ary fat-tree, its id
  arithmetic on 32-bit words, the loops that build it, and the closed form for hop counts.
\<close>

section \<open>The code\<close>

definition fat_tree_host_count :: "u32 \<Rightarrow> u32" where "fat_tree_host_count k = k * k * k div 4"
definition fat_tree_core_count :: "u32 \<Rightarrow> u32" where "fat_tree_core_count k = k * k div 4"
definition fat_tree_switch_count :: "u32 \<Rightarrow> u32" where "fat_tree_switch_count k = 5 * k * k div 4"
definition fat_tree_hosts_per_edge :: "u32 \<Rightarrow> u32" where "fat_tree_hosts_per_edge k = k div 2"
definition fat_tree_hosts_per_pod :: "u32 \<Rightarrow> u32" where "fat_tree_hosts_per_pod k = k * k div 4"

definition fat_tree_core :: "u32 \<Rightarrow> u32 \<Rightarrow> u32 \<Rightarrow> node_id" where
  "fat_tree_core k i j = Id (i * (k div 2) + j)"

definition fat_tree_agg :: "u32 \<Rightarrow> u32 \<Rightarrow> u32 \<Rightarrow> node_id" where
  "fat_tree_agg k pod a = Id (fat_tree_core_count k + pod * k + a)"

definition fat_tree_edge :: "u32 \<Rightarrow> u32 \<Rightarrow> u32 \<Rightarrow> node_id" where
  "fat_tree_edge k pod e = Id (fat_tree_core_count k + pod * k + k div 2 + e)"

definition fat_tree_pod_of_host :: "u32 \<Rightarrow> u32 \<Rightarrow> u32" where
  "fat_tree_pod_of_host k host = host div fat_tree_hosts_per_pod k"

definition fat_tree_edge_of_host :: "u32 \<Rightarrow> u32 \<Rightarrow> u32" where
  "fat_tree_edge_of_host k host = host div fat_tree_hosts_per_edge k"

definition kFatTreeSameEdgeHops :: u32 where "kFatTreeSameEdgeHops = 2"
definition kFatTreeSamePodHops :: u32 where "kFatTreeSamePodHops = 4"
definition kFatTreeCrossPodHops :: u32 where "kFatTreeCrossPodHops = 6"

definition fat_tree_hops :: "u32 \<Rightarrow> u32 \<Rightarrow> u32 \<Rightarrow> u32" where
  "fat_tree_hops k src_host dst_host =
     (if fat_tree_edge_of_host k src_host = fat_tree_edge_of_host k dst_host then kFatTreeSameEdgeHops
      else if fat_tree_pod_of_host k src_host = fat_tree_pod_of_host k dst_host then kFatTreeSamePodHops
      else kFatTreeCrossPodHops)"

definition fat_tree_cross_pod_paths :: "u32 \<Rightarrow> u32" where "fat_tree_cross_pod_paths k = k * k div 4"

record FatTreeConfig =
  ft_k :: u32
  ft_host_link :: link_params
  ft_fabric_link :: link_params

definition default_fat_tree :: FatTreeConfig where
  "default_fat_tree = \<lparr>ft_k = 4, ft_host_link = default_link, ft_fabric_link = default_link\<rparr>"

text \<open>\<open>add_switch\<close> and \<open>add_host\<close>, with the assertion on the id they return.\<close>

definition expect_switch :: "node_id \<Rightarrow> fabric_builder \<Rightarrow> fabric_builder option" where
  "expect_switch expected b = (let (n, b) = add_switch b in do { assert_that (n = expected); Some b })"

definition expect_host :: "node_id \<Rightarrow> fabric_builder \<Rightarrow> fabric_builder option" where
  "expect_host expected b = (let (n, b) = add_host b in do { assert_that (n = expected); Some b })"

definition add_pod :: "u32 \<Rightarrow> u32 \<Rightarrow> fabric_builder \<Rightarrow> fabric_builder option" where
  "add_pod k pod b = do {
     let half = unat (k div 2);
     b \<leftarrow> fold_opt (\<lambda>a. expect_switch (fat_tree_agg k pod (of_nat a))) [0..<half] b;
     fold_opt (\<lambda>e. expect_switch (fat_tree_edge k pod (of_nat e))) [0..<half] b
   }"

definition wire_agg :: "u32 \<Rightarrow> link_params \<Rightarrow> u32 \<Rightarrow> u32 \<Rightarrow> fabric_builder \<Rightarrow> fabric_builder option" where
  "wire_agg k params pod a b = do {
     let half = unat (k div 2);
     let agg = fat_tree_agg k pod a;
     b \<leftarrow> fold_opt (\<lambda>j. connect agg (fat_tree_core k a (of_nat j)) params) [0..<half] b;
     fold_opt (\<lambda>e. connect agg (fat_tree_edge k pod (of_nat e)) params) [0..<half] b
   }"

definition wire_host :: "u32 \<Rightarrow> link_params \<Rightarrow> u32 \<Rightarrow> fabric_builder \<Rightarrow> fabric_builder option" where
  "wire_host k params h b = do {
     let half = k div 2;
     let pod = fat_tree_pod_of_host k h;
     let e = h div half mod half;
     connect (Id (fat_tree_switch_count k + h)) (fat_tree_edge k pod e) params b
   }"

definition build_fat_tree :: "FatTreeConfig \<Rightarrow> fabric option" where
  "build_fat_tree cfg = do {
     let k = ft_k cfg;
     assert_that (2 \<le> k \<and> k mod 2 = 0);
     let half = unat (k div 2);
     b \<leftarrow> fold_opt (\<lambda>c. expect_switch (Id (of_nat c))) [0..<unat (fat_tree_core_count k)] builder_new;
     b \<leftarrow> fold_opt (\<lambda>pod. add_pod k (of_nat pod)) [0..<unat k] b;
     let first_host = fat_tree_switch_count k;
     b \<leftarrow> fold_opt (\<lambda>h. expect_host (Id (first_host + of_nat h))) [0..<unat (fat_tree_host_count k)] b;
     b \<leftarrow> fold_opt (\<lambda>pod. fold_opt (\<lambda>a. wire_agg k (ft_fabric_link cfg) (of_nat pod) (of_nat a)) [0..<half])
            [0..<unat k] b;
     b \<leftarrow> fold_opt (\<lambda>h. wire_host k (ft_host_link cfg) (of_nat h)) [0..<unat (fat_tree_host_count k)] b;
     build b
   }"

section \<open>The id arithmetic, without wrap-around\<close>

lemma word_div_of_nat:
  assumes "a < 2 ^ 32" "b < 2 ^ 32"
  shows "(of_nat a :: u32) div of_nat b = of_nat (a div b)" "(of_nat a :: u32) mod of_nat b = of_nat (a mod b)"
proof -
  have u: "unat (of_nat a :: u32) = a" "unat (of_nat b :: u32) = b" using assms by (simp_all add: unat_of_nat_small)
  have "a div b < 2 ^ 32" using assms(1) div_le_dividend[of a b] by linarith
  then show "(of_nat a :: u32) div of_nat b = of_nat (a div b)"
    by (simp add: word_unat_eq_iff unat_div u unat_of_nat_small)
  have "a mod b < 2 ^ 32" using assms(1) mod_less_eq_dividend[of a b] by linarith
  then show "(of_nat a :: u32) mod of_nat b = of_nat (a mod b)"
    by (simp add: word_unat_eq_iff unat_mod u unat_of_nat_small)
qed

text \<open>Half arities up to 512 keep every product of the id arithmetic below \<open>2 ^ 32\<close>.\<close>

definition arity :: "u32 \<Rightarrow> nat \<Rightarrow> bool" where
  "arity k m \<longleftrightarrow> k = of_nat (2 * m) \<and> 1 \<le> m \<and> m \<le> 512"

lemma cube_bounds:
  assumes "m \<le> (512 :: nat)"
  shows "m * m \<le> 262144" "m * m * m \<le> 134217728"
proof -
  show "m * m \<le> 262144" using mult_le_mono[OF assms assms] by simp
  then show "m * m * m \<le> 134217728" using mult_le_mono[OF \<open>m * m \<le> 262144\<close> assms] by simp
qed

lemma arity_words:
  assumes "arity k m"
  shows "unat k = 2 * m" "unat (k div 2) = m" "k div 2 = of_nat m"
    "fat_tree_core_count k = of_nat (m * m)" "fat_tree_hosts_per_pod k = of_nat (m * m)"
    "fat_tree_switch_count k = of_nat (5 * m * m)" "fat_tree_host_count k = of_nat (2 * m * m * m)"
    "unat (fat_tree_core_count k) = m * m" "unat (fat_tree_host_count k) = 2 * m * m * m"
    "unat (fat_tree_switch_count k) = 5 * m * m"
proof -
  have k: "k = of_nat (2 * m)" and m: "m \<le> 512" using assms by (auto simp: arity_def)
  note B = cube_bounds[OF m]
  show "unat k = 2 * m" using m unfolding k by (intro unat_of_nat_small) simp
  have 2: "(of_nat (2 * m) :: u32) div of_nat 2 = of_nat (2 * m div 2)" by (rule word_div_of_nat) (use m in simp_all)
  then show h: "k div 2 = of_nat m" unfolding k by simp
  show "unat (k div 2) = m" using m unfolding h by (intro unat_of_nat_small) simp
  have div4: "(of_nat (4 * n) :: u32) div 4 = of_nat n" if "4 * n < 2 ^ 32" for n
    using word_div_of_nat(1)[of "4 * n" 4] that by simp
  have kk: "k * k = of_nat (4 * (m * m))" "5 * k * k = of_nat (4 * (5 * m * m))" "k * k * k = of_nat (4 * (2 * m * m * m))"
    unfolding k by (simp_all add: algebra_simps)
  show core: "fat_tree_core_count k = of_nat (m * m)" and "fat_tree_hosts_per_pod k = of_nat (m * m)"
    unfolding fat_tree_core_count_def fat_tree_hosts_per_pod_def kk(1) by (rule div4, use B in simp)+
  show sw: "fat_tree_switch_count k = of_nat (5 * m * m)"
    unfolding fat_tree_switch_count_def kk(2) by (rule div4) (use B in simp)
  show ho: "fat_tree_host_count k = of_nat (2 * m * m * m)"
    unfolding fat_tree_host_count_def kk(3) by (rule div4) (use B in simp)
  show "unat (fat_tree_core_count k) = m * m" unfolding core by (rule unat_of_nat_small) (use B in simp)
  show "unat (fat_tree_host_count k) = 2 * m * m * m" unfolding ho by (rule unat_of_nat_small) (use B in simp)
  show "unat (fat_tree_switch_count k) = 5 * m * m" unfolding sw by (rule unat_of_nat_small) (use B in simp)
qed

section \<open>Nodes\<close>

datatype ft_node = Core nat nat | Agg nat nat | Edge nat nat | Fat_Host nat nat nat

fun ft_index :: "nat \<Rightarrow> ft_node \<Rightarrow> nat" where
  "ft_index m (Core i j) = i * m + j"
| "ft_index m (Agg p a) = m * m + (p * (2 * m) + a)"
| "ft_index m (Edge p e) = m * m + (p * (2 * m) + (m + e))"
| "ft_index m (Fat_Host p e i) = 5 * m * m + ((p * m + e) * m + i)"

fun ft_valid :: "nat \<Rightarrow> ft_node \<Rightarrow> bool" where
  "ft_valid m (Core i j) \<longleftrightarrow> i < m \<and> j < m"
| "ft_valid m (Agg p a) \<longleftrightarrow> p < 2 * m \<and> a < m"
| "ft_valid m (Edge p e) \<longleftrightarrow> p < 2 * m \<and> e < m"
| "ft_valid m (Fat_Host p e i) \<longleftrightarrow> p < 2 * m \<and> e < m \<and> i < m"

lemma ft_ids:
  assumes "arity k m"
  shows "fat_tree_core k (of_nat i) (of_nat j) = id_at (ft_index m (Core i j))"
    "fat_tree_agg k (of_nat p) (of_nat a) = id_at (ft_index m (Agg p a))"
    "fat_tree_edge k (of_nat p) (of_nat e) = id_at (ft_index m (Edge p e))"
  using arity_words(3,4)[OF assms] assms
  by (simp_all add: fat_tree_core_def fat_tree_agg_def fat_tree_edge_def id_at_def arity_def algebra_simps)

lemma ft_index_bounds:
  assumes "ft_valid m u"
  shows "ft_index m u < 5 * m * m + 2 * m * m * m"
    "case u of Fat_Host p e i \<Rightarrow> 5 * m * m \<le> ft_index m u | Core i j \<Rightarrow> ft_index m u < m * m
       | _ \<Rightarrow> m * m \<le> ft_index m u \<and> ft_index m u < 5 * m * m"
proof -
  have pod: "m * m + (p * (2 * m) + x) < 5 * m * m" if "p < 2 * m" "x < 2 * m" for p x
    using row_index_less[OF that] by simp
  have host: "(p * m + e) * m + i < 2 * m * m * m" if "p < 2 * m" "e < m" "i < m" for p e i
    using row_index_less[OF row_index_less[OF that(1,2)] that(3)] by simp
  have core: "i * m + j < m * m" if "i < m" "j < m" for i j using row_index_less[OF that] .
  show "case u of Fat_Host p e i \<Rightarrow> 5 * m * m \<le> ft_index m u | Core i j \<Rightarrow> ft_index m u < m * m
       | _ \<Rightarrow> m * m \<le> ft_index m u \<and> ft_index m u < 5 * m * m"
    using assms pod core by (cases u) auto
  show "ft_index m u < 5 * m * m + 2 * m * m * m"
  proof (cases u)
    case (Core i j)
    then have "ft_index m u < m * m" using assms core by simp
    then show ?thesis by simp
  next
    case (Agg p a)
    then show ?thesis using assms pod[of p a] by simp
  next
    case (Edge p e)
    then show ?thesis using assms pod[of p "m + e"] by simp
  next
    case (Fat_Host p e i)
    then show ?thesis using assms host[of p e i] by simp
  qed
qed

lemma ft_index_inj: "inj_on (ft_index m) {u. ft_valid m u}"
proof (rule inj_onI, clarsimp)
  fix u v assume uv: "ft_valid m u" "ft_valid m v" "ft_index m u = ft_index m v"
  note B = ft_index_bounds(2)[OF uv(1)] ft_index_bounds(2)[OF uv(2)]
  show "u = v"
  proof (cases u)
    case u: (Core i j)
    then obtain i' j' where v: "v = Core i' j'" using B uv(3) by (cases v) auto
    then show ?thesis using row_index_inject[of j m j' i i'] uv u by simp
  next
    case u: (Agg p a)
    then consider p' a' where "v = Agg p' a'" | p' e' where "v = Edge p' e'" using B uv(3) by (cases v) auto
    then show ?thesis
    proof cases
      case 1
      then show ?thesis using row_index_inject[of a "2 * m" a' p p'] uv u by simp
    next
      case 2
      then show ?thesis using row_index_inject[of a "2 * m" "m + e'" p p'] uv u by simp
    qed
  next
    case u: (Edge p e)
    then consider p' a' where "v = Agg p' a'" | p' e' where "v = Edge p' e'" using B uv(3) by (cases v) auto
    then show ?thesis
    proof cases
      case 1
      then show ?thesis using row_index_inject[of "m + e" "2 * m" a' p p'] uv u by simp
    next
      case 2
      then show ?thesis using row_index_inject[of "m + e" "2 * m" "m + e'" p p'] uv u by simp
    qed
  next
    case u: (Fat_Host p e i)
    then obtain p' e' i' where v: "v = Fat_Host p' e' i'" using B uv(3) by (cases v) auto
    have "p * m + e = p' * m + e' \<and> i = i'"
      using row_index_inject[of i m i' "p * m + e" "p' * m + e'"] uv u v by simp
    then show ?thesis using row_index_inject[of e m e' p p'] uv u v by simp
  qed
qed

lemma ft_index_surj:
  assumes m: "0 < m" and n: "n < 5 * m * m + 2 * m * m * m"
  shows "\<exists>u. ft_valid m u \<and> ft_index m u = n"
proof -
  consider "n < m * m" | "m * m \<le> n" "n < 5 * m * m" | "5 * m * m \<le> n" by linarith
  then show ?thesis
  proof cases
    case 1
    then show ?thesis using m by (intro exI[of _ "Core (n div m) (n mod m)"]) (simp add: less_mult_imp_div_less)
  next
    case 2
    define x where "x = n - m * m"
    have x: "x < 2 * m * (2 * m)" "n = m * m + x" using 2 by (simp_all add: x_def)
    have d: "x div (2 * m) < 2 * m" "x mod (2 * m) < 2 * m" "x div (2 * m) * (2 * m) + x mod (2 * m) = x"
      using less_mult_imp_div_less[OF x(1)] m div_mult_mod_eq[of x "2 * m"] by (simp_all only: mod_less_divisor)
    show ?thesis
    proof (cases "x mod (2 * m) < m")
      case True
      then show ?thesis using d x(2) by (intro exI[of _ "Agg (x div (2 * m)) (x mod (2 * m))"]) simp
    next
      case False
      moreover have "x mod (2 * m) - m < m" using d(2) by linarith
      ultimately show ?thesis using d x(2) by (intro exI[of _ "Edge (x div (2 * m)) (x mod (2 * m) - m)"]) simp
    qed
  next
    case 3
    define h where "h = n - 5 * m * m"
    have h: "h < 2 * m * m * m" "n = 5 * m * m + h" using 3 n by (simp_all add: h_def)
    have "h div m < 2 * m * m" using less_mult_imp_div_less[OF h(1)] .
    then have "h div m div m < 2 * m" by (rule less_mult_imp_div_less)
    then show ?thesis
      using m h(2) by (intro exI[of _ "Fat_Host (h div m div m) (h div m mod m) (h mod m)"]) simp
  qed
qed

section \<open>The builder it fills\<close>

definition ft_agg_edges :: "nat \<Rightarrow> link_params \<Rightarrow> nat \<Rightarrow> nat \<Rightarrow> edge list" where
  "ft_agg_edges m p pod a =
     map (\<lambda>j. joins (id_at (ft_index m (Agg pod a))) (id_at (ft_index m (Core a j))) p) [0..<m]
     @ map (\<lambda>e. joins (id_at (ft_index m (Agg pod a))) (id_at (ft_index m (Edge pod e))) p) [0..<m]"

definition ft_mesh :: "nat \<Rightarrow> link_params \<Rightarrow> edge list" where
  "ft_mesh m p = concat (map (\<lambda>pod. concat (map (ft_agg_edges m p pod) [0..<m])) [0..<2 * m])"

definition ft_edge_of :: "nat \<Rightarrow> nat \<Rightarrow> ft_node" where
  "ft_edge_of m h = Edge (h div (m * m)) (h div m mod m)"

definition ft_drops :: "nat \<Rightarrow> link_params \<Rightarrow> edge list" where
  "ft_drops m p = map (\<lambda>h. joins (id_at (5 * m * m + h)) (id_at (ft_index m (ft_edge_of m h))) p) [0..<2 * m * m * m]"

definition ft_builder :: "nat \<Rightarrow> link_params \<Rightarrow> link_params \<Rightarrow> fabric_builder" where
  "ft_builder m hp fp = \<lparr>fb_is_host = replicate (5 * m * m) 0 @ replicate (2 * m * m * m) 1,
     fb_edges = ft_mesh m fp @ ft_drops m hp\<rparr>"

lemma fold_expect:
  assumes "\<And>i. i < n \<Longrightarrow> ids i = id_at (length (fb_is_host b) + i)"
  shows "fold_opt (\<lambda>i. expect_switch (ids i)) [0..<n] b = Some (grow (replicate n 0) [] b)"
    "fold_opt (\<lambda>i. expect_host (ids i)) [0..<n] b = Some (grow (replicate n 1) [] b)"
proof -
  have "expect_switch (ids i) (grow (replicate i 0) [] b) = Some (grow (replicate i 0 @ [0]) [] b)"
    "expect_host (ids i) (grow (replicate i 1) [] b) = Some (grow (replicate i 1 @ [1]) [] b)" if "i < n" for i
    using assms[OF that]
    by (simp_all add: expect_switch_def expect_host_def add_switch_def add_host_def grow_def fabric_simps)
  then show "fold_opt (\<lambda>i. expect_switch (ids i)) [0..<n] b = Some (grow (replicate n 0) [] b)"
    "fold_opt (\<lambda>i. expect_host (ids i)) [0..<n] b = Some (grow (replicate n 1) [] b)"
    using fold_grow[of "[0..<n]" "\<lambda>i. expect_switch (ids i)" "\<lambda>_. [0]" "\<lambda>_. []" b]
      fold_grow[of "[0..<n]" "\<lambda>i. expect_host (ids i)" "\<lambda>_. [1]" "\<lambda>_. []" b]
    by (simp_all add: concat_singletons map_replicate_const)
qed

lemma add_pod_grow:
  assumes k: "arity k m" and b: "length (fb_is_host b) = m * m + pod * (2 * m)"
  shows "add_pod k (of_nat pod) b = Some (grow (replicate (2 * m) 0) [] b)"
proof -
  have "fold_opt (\<lambda>a. expect_switch (fat_tree_agg k (of_nat pod) (of_nat a))) [0..<m] b = Some (grow (replicate m 0) [] b)"
    by (rule fold_expect(1)) (simp add: ft_ids[OF k] b add.assoc)
  moreover have "fold_opt (\<lambda>e. expect_switch (fat_tree_edge k (of_nat pod) (of_nat e))) [0..<m] (grow (replicate m 0) [] b)
      = Some (grow (replicate m 0) [] (grow (replicate m 0) [] b))"
    by (rule fold_expect(1)) (simp add: ft_ids[OF k] b add.assoc)
  ultimately show ?thesis
    using arity_words(2)[OF k] by (simp add: add_pod_def mult_2 replicate_add)
qed

lemma ft_ix:
  assumes "arity k m" "ft_valid m u"
  shows "id_index (id_at (ft_index m u) :: node_id) = ft_index m u"
proof -
  have "m \<le> 512" using assms(1) by (simp add: arity_def)
  then have "ft_index m u < 2 ^ 32" using ft_index_bounds(1)[OF assms(2)] cube_bounds[of m] by simp
  then show ?thesis by simp
qed

lemma ft_id_inject:
  assumes "arity k m" "ft_valid m u" "ft_valid m v"
  shows "(id_at (ft_index m u) :: node_id) = id_at (ft_index m v) \<longleftrightarrow> u = v"
proof
  assume "(id_at (ft_index m u) :: node_id) = id_at (ft_index m v)"
  then have "ft_index m u = ft_index m v" using ft_ix[OF assms(1,2)] ft_ix[OF assms(1,3)] by metis
  then show "u = v" using ft_index_inj[of m] assms(2,3) by (auto simp: inj_on_def)
qed simp

lemma wire_agg_grow:
  assumes k: "arity k m" and b: "5 * m * m \<le> length (fb_is_host b)" and v: "pod < 2 * m" "a < m"
  shows "wire_agg k p (of_nat pod) (of_nat a) b = Some (grow [] (ft_agg_edges m p pod a) b)"
proof -
  have lt: "id_index (id_at (ft_index m u) :: node_id) < length (fb_is_host b)" if "ft_valid m u" "\<forall>x y z. u \<noteq> Fat_Host x y z" for u
    using ft_index_bounds(2)[OF that(1)] that b ft_ix[OF k that(1)] by (cases u) auto
  have 1: "fold_opt (\<lambda>j. connect (id_at (ft_index m (Agg pod a))) (id_at (ft_index m (Core a j))) p) [0..<m] b
    = Some (grow [] (map (\<lambda>j. joins (id_at (ft_index m (Agg pod a))) (id_at (ft_index m (Core a j))) p) [0..<m]) b)"
    by (rule fold_connect) (use lt[of "Agg pod a"] lt[of "Core a _"] ft_id_inject[OF k, of "Agg pod a" "Core a _"] v in simp)
  have 2: "fold_opt (\<lambda>e. connect (id_at (ft_index m (Agg pod a))) (id_at (ft_index m (Edge pod e))) p) [0..<m] (grow [] es b)
    = Some (grow [] (map (\<lambda>e. joins (id_at (ft_index m (Agg pod a))) (id_at (ft_index m (Edge pod e))) p) [0..<m]) (grow [] es b))" for es
    by (rule fold_connect) (use lt[of "Agg pod a"] lt[of "Edge pod _"] ft_id_inject[OF k, of "Agg pod a" "Edge pod _"] v in simp)
  show ?thesis
    using 1 2 arity_words(2)[OF k] unfolding wire_agg_def Let_def ft_ids[OF k] by (simp add: ft_agg_edges_def)
qed

lemma ft_edge_of_valid: "h < 2 * m * m * m \<Longrightarrow> ft_valid m (ft_edge_of m h)"
proof -
  assume h: "h < 2 * m * m * m"
  then have "0 < m" by (cases m) auto
  moreover have "h div (m * m) < 2 * m" using h by (intro less_mult_imp_div_less) (simp add: algebra_simps)
  ultimately show ?thesis by (simp add: ft_edge_of_def)
qed

lemma wire_host_grow:
  assumes k: "arity k m" and b: "length (fb_is_host b) = 5 * m * m + 2 * m * m * m" and h: "h < 2 * m * m * m"
  shows "wire_host k p (of_nat h) b
    = Some (grow [] [joins (id_at (5 * m * m + h)) (id_at (ft_index m (ft_edge_of m h))) p] b)"
proof -
  have m: "m \<le> 512" using k by (simp add: arity_def)
  note B = cube_bounds[OF m] and W = arity_words[OF k]
  have small: "h < 2 ^ 32" "m * m < 2 ^ 32" "m < 2 ^ 32" using h B m by simp_all
  have "h div m < 2 ^ 32" using div_le_dividend[of h m] small(1) by linarith
  then have "(of_nat h :: u32) div (k div 2) mod (k div 2) = of_nat (h div m mod m)"
    using small by (simp add: W(3) word_div_of_nat)
  moreover have "fat_tree_pod_of_host k (of_nat h) = of_nat (h div (m * m))"
    unfolding fat_tree_pod_of_host_def W(5) by (rule word_div_of_nat(1)[OF small(1,2)])
  ultimately have run: "wire_host k p (of_nat h) b
      = connect (id_at (5 * m * m + h)) (id_at (ft_index m (ft_edge_of m h))) p b"
    by (simp add: wire_host_def Let_def ft_ids[OF k] W(6) ft_edge_of_def id_at_def del: ft_index.simps)
  have v: "ft_valid m (ft_edge_of m h)" by (rule ft_edge_of_valid[OF h])
  have lt: "ft_index m (ft_edge_of m h) < 5 * m * m" using ft_index_bounds(2)[OF v] by (simp add: ft_edge_of_def)
  have i: "id_index (id_at (5 * m * m + h) :: node_id) = 5 * m * m + h" using B h by simp
  show ?thesis
    unfolding run by (rule connect_grow) (use i ft_ix[OF k v] lt h b in \<open>auto dest: arg_cong[of _ _ id_index]\<close>)
qed

lemma build_fat_tree_builder:
  assumes k: "arity (ft_k cfg) m"
  shows "build_fat_tree cfg = build (ft_builder m (ft_host_link cfg) (ft_fabric_link cfg))"
proof -
  define k where "k = ft_k cfg"
  have a: "arity k m" using k by (simp add: k_def)
  have m: "1 \<le> m" "m \<le> 512" using a by (auto simp: arity_def)
  note W = arity_words[OF a] and B = cube_bounds[OF m(2)]
  let ?fp = "ft_fabric_link cfg" and ?hp = "ft_host_link cfg"
  have even: "2 \<le> k \<and> k mod 2 = 0"
  proof -
    have "(of_nat (2 * m) :: u32) mod of_nat 2 = of_nat (2 * m mod 2)" by (rule word_div_of_nat) (use m in simp_all)
    then have "k mod 2 = 0" using a by (simp add: arity_def)
    moreover have "2 \<le> k" using W(1) m by (simp add: word_le_nat_alt)
    ultimately show ?thesis by simp
  qed
  define b1 where "b1 = grow (replicate (m * m) 0) [] builder_new"
  have cores: "fold_opt (\<lambda>c. expect_switch (Id (of_nat c))) [0..<m * m] builder_new = Some b1"
    unfolding b1_def by (rule fold_expect(1)) (simp add: builder_new_def id_at_def)
  have "fold_opt (\<lambda>pod. add_pod k (of_nat pod)) [0..<2 * m] b1
      = Some (grow (concat (map (\<lambda>_. replicate (2 * m) 0) [0..<length [0..<2 * m]])) (concat (map (\<lambda>_. []) [0..<length [0..<2 * m]])) b1)"
  proof (rule fold_grow)
    fix i assume i: "i < length [0..<2 * m]"
    show "add_pod k (of_nat ([0..<2 * m] ! i)) (grow (concat (map (\<lambda>_. replicate (2 * m) 0) [0..<i])) (concat (map (\<lambda>_. []) [0..<i])) b1)
      = Some (grow (concat (map (\<lambda>_. replicate (2 * m) 0) [0..<i]) @ replicate (2 * m) 0) (concat (map (\<lambda>_. []) [0..<i]) @ []) b1)"
      using i add_pod_grow[OF a, of "grow (replicate (i * (2 * m)) 0) [] b1" i]
      by (simp add: concat_replicates b1_def builder_new_def)
  qed
  then have pods: "fold_opt (\<lambda>pod. add_pod k (of_nat pod)) [0..<2 * m] b1 = Some (grow (replicate (2 * m * (2 * m)) 0) [] b1)"
    by (simp add: concat_replicates)
  have "m * m + 2 * m * (2 * m) = 5 * m * m" by simp
  then have sw: "grow (replicate (2 * m * (2 * m)) 0) [] b1 = grow (replicate (5 * m * m) 0) [] builder_new"
    by (simp add: b1_def replicate_add[symmetric] del: mult.assoc mult_Suc)
  define b2 where "b2 = grow (replicate (5 * m * m) 0) [] builder_new"
  define b3 where "b3 = grow (replicate (2 * m * m * m) 1) [] b2"
  have hosts: "fold_opt (\<lambda>h. expect_host (Id (fat_tree_switch_count k + of_nat h))) [0..<2 * m * m * m] b2 = Some b3"
    unfolding b3_def by (rule fold_expect(2)) (simp add: b2_def builder_new_def id_at_def W(6))
  have n3: "fb_is_host b3 = replicate (5 * m * m) 0 @ replicate (2 * m * m * m) 1" "fb_edges b3 = []"
    by (simp_all add: b3_def b2_def builder_new_def)
  have mesh: "fold_opt (\<lambda>pod. fold_opt (\<lambda>x. wire_agg k ?fp (of_nat pod) (of_nat x)) [0..<m]) [0..<2 * m] b3
      = Some (grow [] (ft_mesh m ?fp) b3)"
    unfolding ft_mesh_def
  proof (rule fold_wire)
    fix pod and b' :: fabric_builder assume p: "pod \<in> set [0..<2 * m]" "fb_is_host b' = fb_is_host b3"
    show "fold_opt (\<lambda>x. wire_agg k ?fp (of_nat pod) (of_nat x)) [0..<m] b'
        = Some (grow [] (concat (map (ft_agg_edges m ?fp pod) [0..<m])) b')"
      by (rule fold_wire, rule wire_agg_grow[OF a]) (use p n3 in simp_all)
  qed
  define b4 where "b4 = grow [] (ft_mesh m ?fp) b3"
  have "fold_opt (\<lambda>h. wire_host k ?hp (of_nat h)) [0..<2 * m * m * m] b4
      = Some (grow [] (concat (map (\<lambda>h. [joins (id_at (5 * m * m + h)) (id_at (ft_index m (ft_edge_of m h))) ?hp]) [0..<2 * m * m * m])) b4)"
    by (rule fold_wire, rule wire_host_grow[OF a]) (use n3 in \<open>simp_all add: b4_def\<close>)
  then have drops: "fold_opt (\<lambda>h. wire_host k ?hp (of_nat h)) [0..<2 * m * m * m] b4 = Some (grow [] (ft_drops m ?hp) b4)"
    by (simp add: ft_drops_def concat_singletons)
  have "grow [] (ft_drops m ?hp) b4 = ft_builder m ?hp ?fp"
    by (simp add: ft_builder_def b4_def b3_def b2_def builder_new_def grow_def)
  then show ?thesis
    using even cores pods hosts mesh drops W(1,2,8,9) sw
    by (simp add: build_fat_tree_def Let_def k_def[symmetric] fabric_simps b2_def[symmetric] b4_def[symmetric])
qed

section \<open>Links and levels\<close>

fun ft_up :: "ft_node \<Rightarrow> ft_node \<Rightarrow> bool" where
  "ft_up (Agg p a) (Core i j) \<longleftrightarrow> i = a"
| "ft_up (Agg p a) (Edge p' e) \<longleftrightarrow> p = p'"
| "ft_up (Fat_Host p e i) (Edge p' e') \<longleftrightarrow> p = p' \<and> e = e'"
| "ft_up _ _ \<longleftrightarrow> False"

definition ft_links :: "nat \<Rightarrow> (ft_node \<times> ft_node) set" where
  "ft_links m = {(u, v). ft_valid m u \<and> ft_valid m v \<and> (ft_up u v \<or> ft_up v u)}"

fun ft_level :: "nat \<Rightarrow> nat \<Rightarrow> nat \<Rightarrow> ft_node \<Rightarrow> nat" where
  "ft_level P E I (Core i j) = 3"
| "ft_level P E I (Agg p a) = (if p = P then 2 else 4)"
| "ft_level P E I (Edge p e) = (if p = P then if e = E then 1 else 3 else 5)"
| "ft_level P E I (Fat_Host p e i) = (if p = P then if e = E then if i = I then 0 else 2 else 4 else 6)"

definition ft_host :: "nat \<Rightarrow> nat \<Rightarrow> ft_node" where
  "ft_host m h = Fat_Host (h div m div m) (h div m mod m) (h mod m)"

lemma ft_host_props:
  assumes "h < 2 * m * m * m"
  shows "ft_valid m (ft_host m h)" "ft_index m (ft_host m h) = 5 * m * m + h" "ft_up (ft_host m h) (ft_edge_of m h)"
proof -
  have m: "0 < m" using assms by (cases m) auto
  have "h div m < 2 * m * m" using less_mult_imp_div_less[OF assms] .
  then have "h div m div m < 2 * m" by (rule less_mult_imp_div_less)
  then show "ft_valid m (ft_host m h)" using m by (simp add: ft_host_def)
  show "ft_index m (ft_host m h) = 5 * m * m + h" by (simp add: ft_host_def)
  show "ft_up (ft_host m h) (ft_edge_of m h)" by (simp add: ft_host_def ft_edge_of_def div_mult2_eq)
qed

lemma ft_host_of: "e < m \<Longrightarrow> i < m \<Longrightarrow> ft_host m ((p * m + e) * m + i) = Fat_Host p e i"
  by (simp add: ft_host_def)

lemma ft_mesh_mem: "e \<in> set (ft_mesh m prm) \<longleftrightarrow> (\<exists>p < 2 * m. \<exists>a < m. \<exists>x < m.
    e = joins (id_at (ft_index m (Agg p a))) (id_at (ft_index m (Core a x))) prm
    \<or> e = joins (id_at (ft_index m (Agg p a))) (id_at (ft_index m (Edge p x))) prm)"
  unfolding ft_mesh_def ft_agg_edges_def
  by (simp add: image_iff del: ft_index.simps) (simp add: Bex_def del: ft_index.simps, blast)

lemma ft_builder_links:
  assumes k: "arity k m"
  shows "builder_links (ft_builder m hp fp) = (\<lambda>(u, v). (ft_index m u, ft_index m v)) ` ft_links m"
  unfolding ft_links_def
proof (rule links_image)
  show "id_index (id_at (ft_index m u) :: node_id) = ft_index m u" if "ft_valid m u" for u
    by (rule ft_ix[OF k that])
  fix e assume "e \<in> set (fb_edges (ft_builder m hp fp))"
  then have "e \<in> set (ft_mesh m fp) \<or> e \<in> set (ft_drops m hp)" by (simp add: ft_builder_def)
  then show "\<exists>u v p. e = joins (id_at (ft_index m u)) (id_at (ft_index m v)) p \<and> ft_valid m u \<and> ft_valid m v \<and> ft_up u v"
  proof
    assume "e \<in> set (ft_mesh m fp)"
    then obtain p a x where v: "p < 2 * m" "a < m" "x < m" and
      e: "e = joins (id_at (ft_index m (Agg p a))) (id_at (ft_index m (Core a x))) fp
        \<or> e = joins (id_at (ft_index m (Agg p a))) (id_at (ft_index m (Edge p x))) fp"
      unfolding ft_mesh_mem by blast
    have "ft_valid m (Agg p a)" "ft_valid m (Core a x)" "ft_valid m (Edge p x)" "ft_up (Agg p a) (Core a x)" "ft_up (Agg p a) (Edge p x)"
      using v by simp_all
    then show ?thesis using e by blast
  next
    assume "e \<in> set (ft_drops m hp)"
    then obtain h where h: "h < 2 * m * m * m" "e = joins (id_at (5 * m * m + h)) (id_at (ft_index m (ft_edge_of m h))) hp"
      by (auto simp: ft_drops_def)
    then show ?thesis using ft_host_props[OF h(1)] ft_edge_of_valid[OF h(1)] by metis
  qed
next
  fix u v assume uv: "ft_valid m u" "ft_valid m v" "ft_up u v"
  then consider p a x where "u = Agg p a" "v = Core a x \<or> v = Edge p x" | p e i where "u = Fat_Host p e i" "v = Edge p e"
    by (cases u; cases v) auto
  then show "\<exists>p. joins (id_at (ft_index m u)) (id_at (ft_index m v)) p \<in> set (fb_edges (ft_builder m hp fp))"
  proof cases
    case 1
    have "joins (id_at (ft_index m u)) (id_at (ft_index m v)) fp \<in> set (ft_mesh m fp)"
      unfolding ft_mesh_mem
      by (rule exI[of _ p], rule conjI, use uv 1 in simp, rule exI[of _ a], rule conjI, use uv 1 in simp,
          rule exI[of _ x], rule conjI) (use uv 1 in auto)
    then show ?thesis by (auto simp: ft_builder_def)
  next
    case 2
    define h where "h = (p * m + e) * m + i"
    have "h < 2 * m * m * m" unfolding h_def
      by (rule row_index_less[OF row_index_less]) (use uv(1) 2 in simp_all)
    moreover have "ft_host m h = u" "ft_edge_of m h = v"
      using uv(1) 2 ft_host_of[of e m i p] by (auto simp: h_def ft_edge_of_def div_mult2_eq)
    ultimately have "joins (id_at (ft_index m u)) (id_at (ft_index m v)) hp \<in> set (ft_drops m hp)"
      using ft_host_props(2)[of h m] by (auto simp: ft_drops_def image_iff intro!: bexI[of _ h])
    then show ?thesis by (auto simp: ft_builder_def)
  qed
qed

lemma ft_level_hops:
  assumes k: "arity k m" and d: "P < 2 * m" "E < m" "I < m" and v: "ft_valid m v"
  shows "min_hops (builder_links (ft_builder m hp fp)) (ft_index m (Fat_Host P E I)) (ft_index m v) (ft_level P E I v)"
proof (rule levels_min_hops_image[OF ft_builder_links[OF k] _ ft_index_inj])
  have m: "0 < m" using d by simp
  show "\<And>u v. (u, v) \<in> ft_links m \<Longrightarrow> u \<in> {u. ft_valid m u} \<and> v \<in> {u. ft_valid m u}"
    by (auto simp: ft_links_def)
  show "Fat_Host P E I \<in> {u. ft_valid m u}" "v \<in> {u. ft_valid m u}" "ft_level P E I (Fat_Host P E I) = 0"
    using d v by simp_all
  show "w = Fat_Host P E I" if "ft_level P E I w = 0" for w using that by (cases w) (auto split: if_splits)
  show "ft_level P E I w \<le> Suc (ft_level P E I u)" if "(u, w) \<in> ft_links m" for u w
    using that by (cases u; cases w) (auto simp: ft_links_def)
  show "\<exists>u. (u, w) \<in> ft_links m \<and> ft_level P E I w = Suc (ft_level P E I u)"
    if w: "w \<in> {u. ft_valid m u}" "0 < ft_level P E I w" for w
  proof (cases w)
    case (Core i j)
    then show ?thesis using w d by (intro exI[of _ "Agg P i"]) (simp add: ft_links_def)
  next
    case (Agg p a)
    then show ?thesis
      using w d m by (intro exI[of _ "if p = P then Edge P E else Core a 0"]) (simp add: ft_links_def)
  next
    case (Edge p e)
    then show ?thesis
      using w d m by (intro exI[of _ "if p = P \<and> e = E then Fat_Host P E I else Agg p 0"]) (auto simp: ft_links_def)
  next
    case (Fat_Host p e i)
    then show ?thesis using w d by (intro exI[of _ "Edge p e"]) (auto simp: ft_links_def split: if_splits)
  qed
qed

section \<open>The fabric it builds\<close>

lemma length_ft_mesh: "length (ft_mesh m p) = 4 * m * m * m"
  by (simp add: ft_mesh_def ft_agg_edges_def length_concat comp_def sum_list_triv)

lemma ft_tiered:
  assumes k: "arity k m"
  shows "tiered (5 * m * m) (2 * m * m * m) (ft_mesh m fp) (ft_drops m hp) (ft_builder m hp fp)"
proof -
  have m: "m \<le> 512" using k by (simp add: arity_def)
  note B = cube_bounds[OF m]
  have sw: "id_index (id_at (ft_index m u) :: node_id) < 5 * m * m" if "ft_valid m u" "\<forall>x y z. u \<noteq> Fat_Host x y z" for u
    using ft_index_bounds(2)[OF that(1)] that ft_ix[OF k that(1)] by (cases u) auto
  have mesh: "id_index (edge_a e) < 5 * m * m \<and> id_index (edge_b e) < 5 * m * m \<and> edge_a e \<noteq> edge_b e" if e: "e \<in> set (ft_mesh m fp)" for e
  proof -
    obtain p a x where v: "p < 2 * m" "a < m" "x < m" and
      e: "e = joins (id_at (ft_index m (Agg p a))) (id_at (ft_index m (Core a x))) fp
        \<or> e = joins (id_at (ft_index m (Agg p a))) (id_at (ft_index m (Edge p x))) fp"
      using e unfolding ft_mesh_mem by blast
    have "ft_valid m (Agg p a)" "ft_valid m (Core a x)" "ft_valid m (Edge p x)" using v by simp_all
    then show ?thesis
      using e sw[of "Agg p a"] sw[of "Core a x"] sw[of "Edge p x"] ft_id_inject[OF k, of "Agg p a" "Core a x"]
        ft_id_inject[OF k, of "Agg p a" "Edge p x"] by (auto simp del: ft_index.simps ft_valid.simps)
  qed
  have "id_index (edge_b e) < 5 * m * m" if e: "e \<in> set (ft_drops m hp)" for e
  proof -
    obtain h where h: "h < 2 * m * m * m" "e = joins (id_at (5 * m * m + h)) (id_at (ft_index m (ft_edge_of m h))) hp"
      using e by (auto simp: ft_drops_def)
    have "\<forall>x y z. ft_edge_of m h \<noteq> Fat_Host x y z" by (simp add: ft_edge_of_def)
    then show ?thesis using sw[OF ft_edge_of_valid[OF h(1)]] h(2) by simp
  qed
  moreover have "map (\<lambda>e. id_index (edge_a e)) (ft_drops m hp) = [5 * m * m..<5 * m * m + 2 * m * m * m]"
  proof -
    have "map (\<lambda>e. id_index (edge_a e)) (ft_drops m hp) = map (\<lambda>h. 5 * m * m + h) [0..<2 * m * m * m]"
      unfolding ft_drops_def list.map_comp by (rule map_cong) (use B in simp_all)
    then show ?thesis by (simp add: upt_offset)
  qed
  ultimately show ?thesis
    using mesh B length_ft_mesh[of m fp] by (simp add: tiered_def ft_builder_def)
qed

text \<open>Up to half arity 23 the route table's 32-bit offsets cannot wrap either.\<close>

definition fat_tree_fits :: "FatTreeConfig \<Rightarrow> nat \<Rightarrow> bool" where
  "fat_tree_fits cfg m \<longleftrightarrow> ft_k cfg = of_nat (2 * m) \<and> 1 \<le> m \<and> m \<le> 23
     \<and> lp_rate (ft_host_link cfg) \<noteq> 0 \<and> lp_rate (ft_fabric_link cfg) \<noteq> 0"

lemma fat_tree_hops_nat:
  assumes k: "arity k m" and h: "h < 2 * m * m * m" and g: "g < 2 * m * m * m"
  shows "unat (fat_tree_hops k (of_nat h) (of_nat g))
    = (if h div m = g div m then 2 else if h div (m * m) = g div (m * m) then 4 else 6)"
proof -
  have m: "m \<le> 512" using k by (simp add: arity_def)
  note B = cube_bounds[OF m] and W = arity_words[OF k]
  have small: "h < 2 ^ 32" "g < 2 ^ 32" "m * m < 2 ^ 32" "m < 2 ^ 32" using h g B m by simp_all
  have eq: "(of_nat (h div n) :: u32) = of_nat (g div n) \<longleftrightarrow> h div n = g div n" for n
  proof
    assume "(of_nat (h div n) :: u32) = of_nat (g div n)"
    then have "unat (of_nat (h div n) :: u32) = unat (of_nat (g div n) :: u32)" by simp
    then show "h div n = g div n"
      using le_less_trans[OF div_le_dividend small(1), of n] le_less_trans[OF div_le_dividend small(2), of n]
      by (simp add: unat_of_nat_small)
  qed simp
  have "fat_tree_edge_of_host k (of_nat x) = of_nat (x div m)" "fat_tree_pod_of_host k (of_nat x) = of_nat (x div (m * m))"
    if "x < 2 ^ 32" for x
    unfolding fat_tree_edge_of_host_def fat_tree_pod_of_host_def fat_tree_hosts_per_edge_def W(3,5)
    by (rule word_div_of_nat(1)[OF that small(4)], rule word_div_of_nat(1)[OF that small(3)])
  then show ?thesis
    using small eq by (simp add: fat_tree_hops_def kFatTreeSameEdgeHops_def kFatTreeSamePodHops_def kFatTreeCrossPodHops_def
        del: of_nat_mult)
qed

lemma fat_tree_ok:
  assumes fits: "fat_tree_fits cfg m"
  shows "\<exists>f rt. build_fat_tree cfg = Some f \<and> build_shortest_path f = Some rt \<and> fabric_ready f rt \<and> reset_state f = f
    \<and> node_count f = unat (fat_tree_switch_count (ft_k cfg)) + unat (fat_tree_host_count (ft_k cfg))
    \<and> host_count f = unat (fat_tree_host_count (ft_k cfg))
    \<and> (\<forall>h < host_count f. \<forall>g < host_count f. g \<noteq> h \<longrightarrow>
         min_hops (links f) (id_index (fab_hosts f ! h)) (id_index (fab_hosts f ! g))
           (unat (fat_tree_hops (ft_k cfg) (of_nat h) (of_nat g))))"
proof -
  let ?b = "ft_builder m (ft_host_link cfg) (ft_fabric_link cfg)"
  note F = fits[unfolded fat_tree_fits_def]
  have k: "arity (ft_k cfg) m" using F by (simp add: arity_def)
  note T = ft_tiered[OF k, of "ft_fabric_link cfg" "ft_host_link cfg"] and W = arity_words[OF k]
  have run: "build_fat_tree cfg = build ?b" by (rule build_fat_tree_builder[OF k])
  obtain f where f: "build ?b = Some f" using build_spec[OF tiered_facts(1)[OF T]] by blast
  note Ho = tiered_hosts[OF T f]
  have hops: "\<exists>v. ft_valid m v \<and> ft_index m v = u \<and>
      min_hops (builder_links ?b) (5 * m * m + h) u (ft_level (h div m div m) (h div m mod m) (h mod m) v)"
    if h: "h < 2 * m * m * m" and u: "u < 5 * m * m + 2 * m * m * m" for h u
  proof -
    have "ft_valid m (ft_host m h)" using ft_host_props(1)[OF h] .
    then have d: "h div m div m < 2 * m" "h div m mod m < m" "h mod m < m" by (simp_all add: ft_host_def)
    obtain v where v: "ft_valid m v" "ft_index m v = u" using ft_index_surj[OF _ u] F by auto
    then show ?thesis
      using ft_level_hops[OF k d v(1), of "ft_host_link cfg" "ft_fabric_link cfg"] ft_host_props(2)[OF h]
      by (auto simp: ft_host_def)
  qed
  have "lp_rate (edge_params e) \<noteq> 0" if e: "e \<in> set (ft_mesh m (ft_fabric_link cfg)) \<union> set (ft_drops m (ft_host_link cfg))" for e
    using e F by (auto simp: ft_drops_def ft_mesh_mem simp del: ft_index.simps)
  then have rates: "\<forall>e \<in> set (ft_mesh m (ft_fabric_link cfg)) \<union> set (ft_drops m (ft_host_link cfg)). lp_rate (edge_params e) \<noteq> 0"
    by blast
  have "2 * (length (ft_mesh m (ft_fabric_link cfg)) + 2 * m * m * m) * (2 * m * m * m) < 2 ^ 32"
  proof -
    have m: "m \<le> 23" using F by simp
    have "m * m * m \<le> 23 * 23 * 23" using m by (intro mult_le_mono) simp_all
    then have "12 * (m * m * m) * (2 * (m * m * m)) \<le> 12 * 12167 * (2 * 12167)" by (intro mult_le_mono) simp_all
    then show ?thesis by (simp add: length_ft_mesh algebra_simps)
  qed
  then obtain rt where rt: "build_shortest_path f = Some rt" "fabric_ready f rt" "reset_state f = f"
    using tiered_ready[OF T _ rates _ f] hops by metis
  have "min_hops (links f) (id_index (fab_hosts f ! h)) (id_index (fab_hosts f ! g))
      (unat (fat_tree_hops (ft_k cfg) (of_nat h) (of_nat g)))"
    if h: "h < 2 * m * m * m" and g: "g < 2 * m * m * m" and ne: "g \<noteq> h" for h g
  proof -
    obtain v where v: "ft_valid m v" "ft_index m v = 5 * m * m + g"
      "min_hops (builder_links ?b) (5 * m * m + h) (5 * m * m + g) (ft_level (h div m div m) (h div m mod m) (h mod m) v)"
      using hops[OF h, of "5 * m * m + g"] g by auto
    have "v = ft_host m g"
      using v(1,2) ft_host_props(1,2)[OF g] ft_index_inj[of m] by (auto simp: inj_on_def)
    moreover have "h div m = g div m \<longleftrightarrow> g div m div m = h div m div m \<and> g div m mod m = h div m mod m"
      by (metis div_mult_mod_eq)
    moreover have "h div (m * m) = g div (m * m) \<longleftrightarrow> g div m div m = h div m div m"
      by (simp only: div_mult2_eq eq_commute)
    moreover have "g div m div m = h div m div m \<and> g div m mod m = h div m mod m \<longrightarrow> g mod m \<noteq> h mod m"
      using ne by (metis div_mult_mod_eq)
    ultimately have "ft_level (h div m div m) (h div m mod m) (h mod m) v
        = unat (fat_tree_hops (ft_k cfg) (of_nat h) (of_nat g))"
      unfolding fat_tree_hops_nat[OF k h g] by (simp only: ft_host_def ft_level.simps) argo
    then show ?thesis using v(3) Ho(5) Ho(6)[OF h] Ho(6)[OF g] by simp
  qed
  then have "\<forall>h < host_count f. \<forall>g < host_count f. g \<noteq> h \<longrightarrow>
      min_hops (links f) (id_index (fab_hosts f ! h)) (id_index (fab_hosts f ! g))
        (unat (fat_tree_hops (ft_k cfg) (of_nat h) (of_nat g)))"
    unfolding Ho(2) by blast
  moreover have "build_fat_tree cfg = Some f" using run f by simp
  ultimately show ?thesis using rt Ho(1,2) unfolding W(9,10) by blast
qed

end
