(* ===== verification/All_Reduce.thy ===== *)
theory All_Reduce
  imports Random_Stream Sim_Flows Fat_Tree Topology
begin

text \<open>
  \<^verbatim>\<open>workload/all_reduce.hpp\<close> and \<^verbatim>\<open>workload/all_reduce.cpp\<close>: the ring all-reduce, its
  placement of ranks on hosts and the dependency chain of its \<open>2 * (N - 1)\<close> steps.
\<close>

section \<open>The code\<close>

datatype RingPlacement = Sequential | RoundRobinPods

record AllReduceParams =
  ap_seed :: u64
  ap_buffer_bytes :: Bytes
  ap_mtu_bytes :: u16
  ap_window_pkts :: u32
  ap_gpu_count :: u32
  ap_load_permille :: u32
  ap_placement :: RingPlacement
  ap_fat_tree_k :: u32

definition default_all_reduce :: AllReduceParams where
  "default_all_reduce = \<lparr>ap_seed = 0, ap_buffer_bytes = 19200000, ap_mtu_bytes = 1500, ap_window_pkts = 32,
     ap_gpu_count = 0, ap_load_permille = 1000, ap_placement = RoundRobinPods, ap_fat_tree_k = 0\<rparr>"

record AllReduce =
  ar_flows :: "FlowSpec list"
  ar_rank_to_host :: "u32 list"
  ar_gpus :: u32
  ar_steps :: u32
  ar_chunk_bytes :: Bytes
  ar_chunk_packets :: u32
  ar_chunk_exact :: bool

definition place_ranks :: "fabric \<Rightarrow> AllReduceParams \<Rightarrow> u32 \<Rightarrow> u32 list option" where
  "place_ranks f p gpus = (case ap_placement p of
       Sequential \<Rightarrow> Some (map of_nat [0..<unat gpus])
     | RoundRobinPods \<Rightarrow> do {
         let k = ap_fat_tree_k p;
         assert_that (2 \<le> k \<and> k mod 2 = 0);
         assert_that (unat gpus = host_count f);
         let per_pod = fat_tree_hosts_per_pod k;
         Some (map (\<lambda>r. (of_nat r mod k) * per_pod + of_nat r div k) [0..<unat gpus])
       })"

primrec draw_ports :: "nat \<Rightarrow> RandomStream \<Rightarrow> u16 list option" where
  "draw_ports 0 g = Some []"
| "draw_ports (Suc n) g = do { (p, g) \<leftarrow> draw_port g; ps \<leftarrow> draw_ports n g; Some (p # ps) }"

definition ring_flow :: "fabric \<Rightarrow> AllReduceParams \<Rightarrow> u32 \<Rightarrow> Bytes \<Rightarrow> u32 list \<Rightarrow> u16 list \<Rightarrow> nat \<Rightarrow> nat
    \<Rightarrow> FlowSpec list \<Rightarrow> FlowSpec list option" where
  "ring_flow f params gpus chunk_bytes rank_to_host src_port s r flows = do {
     a \<leftarrow> vget rank_to_host r;
     src \<leftarrow> host_at f a;
     b \<leftarrow> vget rank_to_host (unat ((of_nat r + 1) mod gpus));
     to \<leftarrow> host_at f b;
     port \<leftarrow> vget src_port r;
     let spec = default_flow_spec\<lparr>fs_src := src, fs_dst := to, fs_size_bytes := chunk_bytes,
       fs_mtu_bytes := ap_mtu_bytes params, fs_window_pkts := ap_window_pkts params,
       fs_load_permille := ap_load_permille params, fs_src_port := port, fs_dst_port := 5001, fs_start_ns := 0\<rparr>;
     let upstream = (of_nat r + gpus - 1) mod gpus;
     let spec = (if 0 < s then spec\<lparr>fs_depends_on := Id ((of_nat s - 1) * gpus + upstream)\<rparr> else spec);
     Some (flows @ [spec])
   }"

definition make_ring_all_reduce :: "fabric \<Rightarrow> AllReduceParams \<Rightarrow> AllReduce option" where
  "make_ring_all_reduce f params = do {
     let gpus = (if ap_gpu_count params = 0 then of_nat (host_count f) else ap_gpu_count params);
     assert_that (2 \<le> gpus \<and> unat gpus \<le> host_count f);
     let steps = 2 * (gpus - 1);
     let chunk_bytes = ap_buffer_bytes params div ucast gpus;
     let mtu = (ucast (ap_mtu_bytes params) :: Bytes);
     assert_that (mtu \<noteq> 0);
     let chunk_packets = (ucast ((chunk_bytes + mtu - 1) div mtu) :: u32);
     let chunk_exact = (ap_buffer_bytes params mod ucast gpus = 0 \<and> chunk_bytes mod mtu = 0);
     assert_that (0 < chunk_bytes);
     rank_to_host \<leftarrow> place_ranks f params gpus;
     src_port \<leftarrow> draw_ports (unat gpus) (stream_new (ap_seed params) kStreamPorts);
     flows \<leftarrow> fold_opt (\<lambda>s. fold_opt (ring_flow f params gpus chunk_bytes rank_to_host src_port s) [0..<unat gpus])
       [0..<unat steps] [];
     Some \<lparr>ar_flows = flows, ar_rank_to_host = rank_to_host, ar_gpus = gpus, ar_steps = steps,
       ar_chunk_bytes = chunk_bytes, ar_chunk_packets = chunk_packets, ar_chunk_exact = chunk_exact\<rparr>
   }"

section \<open>Placement of the ranks\<close>

fun ring_host :: "RingPlacement \<Rightarrow> nat \<Rightarrow> nat \<Rightarrow> nat" where
  "ring_host Sequential m r = r"
| "ring_host RoundRobinPods m r = (r mod (2 * m)) * (m * m) + r div (2 * m)"

definition placement_fits :: "fabric \<Rightarrow> AllReduceParams \<Rightarrow> nat \<Rightarrow> nat \<Rightarrow> bool" where
  "placement_fits f p m N \<longleftrightarrow> (case ap_placement p of Sequential \<Rightarrow> N \<le> host_count f
     | RoundRobinPods \<Rightarrow> arity (ap_fat_tree_k p) m \<and> N = 2 * m * m * m \<and> N = host_count f)"

lemma row_column_inverse:
  fixes a b :: nat
  assumes "r < a * b"
  shows "(r mod a) * b + r div a < a * b" "(((r mod a) * b + r div a) mod b) * a + ((r mod a) * b + r div a) div b = r"
proof -
  have a: "0 < a" "0 < b" using assms by (cases a; cases b; simp)+
  have d: "r div a < b" using assms by (simp add: less_mult_imp_div_less mult.commute)
  have m: "r mod a < a" using a by simp
  have "(r mod a + 1) * b \<le> a * b" using m by (intro mult_le_mono1) simp
  then show "(r mod a) * b + r div a < a * b" using d by simp
  show "(((r mod a) * b + r div a) mod b) * a + ((r mod a) * b + r div a) div b = r"
    using d by simp
qed

lemma ring_host_less:
  assumes "placement_fits f p m N" "r < N"
  shows "ring_host (ap_placement p) m r < host_count f"
  using assms row_column_inverse(1)[of r "2 * m" "m * m"]
  by (cases "ap_placement p") (auto simp: placement_fits_def mult.assoc)

lemma ring_host_inj: "placement_fits f p m N \<Longrightarrow> inj_on (ring_host (ap_placement p) m) {..<N}"
proof (cases "ap_placement p")
  case RoundRobinPods
  assume "placement_fits f p m N"
  then have N: "N = (2 * m) * (m * m)" by (simp add: placement_fits_def RoundRobinPods)
  show ?thesis unfolding RoundRobinPods
  proof (rule inj_on_inverseI)
    fix r assume "r \<in> {..<N}"
    then show "(\<lambda>x. (x mod (m * m)) * (2 * m) + x div (m * m)) (ring_host RoundRobinPods m r) = r"
      using row_column_inverse(2)[of r "2 * m" "m * m"] by (simp add: N)
  qed
qed (simp add: inj_on_def)

text \<open>Round robin over the pods, every ring hop leaves its pod.\<close>

lemma ring_hop_crosses:
  assumes r: "r < N" and N: "N = 2 * m * m * m"
  shows "ring_host RoundRobinPods m r div (m * m) \<noteq> ring_host RoundRobinPods m ((r + 1) mod N) div (m * m)"
proof -
  have m: "0 < m" using assms by (cases m) simp_all
  have N': "N = (2 * m) * (m * m)" by (simp add: N)
  have pod: "ring_host RoundRobinPods m x div (m * m) = x mod (2 * m)" if "x < N" for x
  proof -
    have "x div (2 * m) < m * m" using that by (simp add: N' less_mult_imp_div_less mult.commute)
    moreover have "(q * b + d) div b = q" if "d < b" for q b d :: nat using that by simp
    ultimately show ?thesis unfolding ring_host.simps by blast
  qed
  have "(r + 1) mod N mod (2 * m) = (r + 1) mod (2 * m)" by (rule mod_mod_cancel) (simp add: N')
  moreover have "(r + 1) mod (2 * m) \<noteq> r mod (2 * m)" using m by (simp add: mod_Suc)
  moreover have "(r + 1) mod N < N" using r by simp
  ultimately show ?thesis using pod[OF r] pod[of "(r + 1) mod N"] by simp
qed

lemma place_ranks_ok:
  assumes fits: "placement_fits f p m N" and N: "N < 2 ^ 32"
  shows "place_ranks f p (of_nat N) = Some (map (\<lambda>r. of_nat (ring_host (ap_placement p) m r)) [0..<N])"
proof (cases "ap_placement p")
  case Sequential
  then show ?thesis using N by (simp add: place_ranks_def unat_of_nat_small)
next
  case RoundRobinPods
  then have F: "arity (ap_fat_tree_k p) m" "N = 2 * m * m * m" "N = host_count f"
    using fits by (simp_all add: placement_fits_def)
  note W = arity_words[OF F(1)]
  have k: "ap_fat_tree_k p = of_nat (2 * m)" "1 \<le> m" "m \<le> 512" using F(1) by (simp_all add: arity_def)
  have "(of_nat (2 * m) :: u32) mod of_nat 2 = of_nat (2 * m mod 2)"
    by (rule word_div_of_nat) (use k in simp_all)
  then have even: "ap_fat_tree_k p mod 2 = 0" unfolding k by simp
  have two: "2 \<le> ap_fat_tree_k p" using W(1) k by (simp add: word_le_nat_alt)
  have dm: "(of_nat r :: u32) mod ap_fat_tree_k p = of_nat (r mod (2 * m))"
    "(of_nat r :: u32) div ap_fat_tree_k p = of_nat (r div (2 * m))" if "r < N" for r
    unfolding k by (rule word_div_of_nat; use that N k in simp)+
  have "map (\<lambda>r. (of_nat r mod ap_fat_tree_k p) * fat_tree_hosts_per_pod (ap_fat_tree_k p) + of_nat r div ap_fat_tree_k p) [0..<N]
      = map (\<lambda>r. of_nat (ring_host RoundRobinPods m r)) [0..<N]"
    by (rule map_cong[OF refl]) (simp add: dm W(5))
  then show ?thesis using even two F(3) N RoundRobinPods
    by (simp add: place_ranks_def unat_of_nat_small fabric_simps Let_def)
qed

section \<open>The chain of steps\<close>

text \<open>The send of rank \<open>r\<close> in step \<open>s\<close>, on ranks placed by \<open>\<sigma>\<close>.\<close>

definition ring_spec :: "fabric \<Rightarrow> AllReduceParams \<Rightarrow> Bytes \<Rightarrow> (nat \<Rightarrow> nat) \<Rightarrow> u16 list \<Rightarrow> nat \<Rightarrow> nat \<Rightarrow> nat \<Rightarrow> FlowSpec" where
  "ring_spec f params chunk \<sigma> ports N s r = default_flow_spec\<lparr>fs_src := fab_hosts f ! \<sigma> r,
     fs_dst := fab_hosts f ! \<sigma> ((r + 1) mod N), fs_size_bytes := chunk,
     fs_mtu_bytes := ap_mtu_bytes params, fs_window_pkts := ap_window_pkts params,
     fs_load_permille := ap_load_permille params, fs_src_port := ports ! r, fs_dst_port := 5001, fs_start_ns := 0,
     fs_depends_on := (if 0 < s then id_at ((s - 1) * N + (r + N - 1) mod N) else id_invalid)\<rparr>"

lemma draw_ports_ok:
  "yields (2 ^ 32) n g \<Longrightarrow> \<exists>ps. draw_ports n g = Some ps \<and> length ps = n \<and> (\<forall>p \<in> set ps. 1024 \<le> p \<and> p < 64512)"
proof (induction n arbitrary: g)
  case (Suc n)
  obtain q g' where q: "draw_port g = Some (q, g')" "1024 \<le> q" "q < 64512" "yields (2 ^ 32) n g'"
    using draw_port_range[OF Suc.prems] by blast
  then obtain ps where "draw_ports n g' = Some ps" "length ps = n" "\<forall>p \<in> set ps. 1024 \<le> p \<and> p < 64512"
    using Suc.IH by blast
  then show ?case using q by simp
qed simp

lemma ring_flow_ok:
  assumes r: "r < N" and N: "N < 2 ^ 31" and s: "s < S" "S * N < 2 ^ 32"
    and hosts: "hosts = map (\<lambda>r. of_nat (\<sigma> r)) [0..<N]" "\<And>r. r < N \<Longrightarrow> \<sigma> r < host_count f" "host_count f < 2 ^ 32"
    and ports: "length ports = N"
  shows "ring_flow f params (of_nat N) chunk hosts ports s r flows = Some (flows @ [ring_spec f params chunk \<sigma> ports N s r])"
proof -
  have n1: "(r + 1) mod N < N" using r by simp
  have w1: "((of_nat r :: u32) + 1) mod of_nat N = of_nat ((r + 1) mod N)"
    using word_div_of_nat(2)[of "r + 1" N] r N by (simp add: add.commute)
  have u1: "unat (((of_nat r :: u32) + 1) mod of_nat N) = (r + 1) mod N"
    unfolding w1 using n1 N by (intro unat_of_nat_small) simp
  have at: "host_at f (of_nat (\<sigma> x)) = Some (fab_hosts f ! \<sigma> x)" if "x < N" for x
    using hosts(2)[OF that] hosts(3) by (simp add: host_at_def host_count_def unat_of_nat_small fabric_simps)
  have "(of_nat r :: u32) + of_nat N - 1 = of_nat (r + N - 1)" using r by (simp add: of_nat_diff)
  then have w2: "((of_nat r :: u32) + of_nat N - 1) mod of_nat N = of_nat ((r + N - 1) mod N)"
    using word_div_of_nat(2)[of "r + N - 1" N] r N by simp
  have w3: "(of_nat s - 1) * of_nat N + (of_nat r + of_nat N - 1) mod of_nat N
      = (of_nat ((s - 1) * N + (r + N - 1) mod N) :: u32)" if "0 < s"
    unfolding w2 using that by (simp add: of_nat_diff)
  show ?thesis
    unfolding ring_flow_def hosts(1)
    using r n1 at[OF r] at[OF n1] ports w3
    by (simp add: fabric_simps u1 Let_def ring_spec_def id_at_def default_flow_spec_def del: of_nat_add of_nat_mult)
qed

lemma fold_opt_extend:
  assumes "\<And>x acc. x \<in> set xs \<Longrightarrow> F x acc = Some (acc @ h x)"
  shows "fold_opt F xs acc = Some (acc @ concat (map h xs))"
  using assms by (induction xs arbitrary: acc) simp_all

lemma concat_rows_length: "length (concat (map (\<lambda>s. map (h s) [0..<N]) [0..<S])) = S * N"
  by (induction S) simp_all

lemma concat_rows_nth:
  assumes "s < S" "r < N"
  shows "concat (map (\<lambda>s. map (h s) [0..<N]) [0..<S]) ! (s * N + r) = h s r"
  using assms
proof (induction S)
  case (Suc S)
  let ?c = "concat (map (\<lambda>s. map (h s) [0..<N]) [0..<S])"
  have split: "concat (map (\<lambda>s. map (h s) [0..<N]) [0..<Suc S]) = ?c @ map (h S) [0..<N]" by simp
  have len: "length ?c = S * N" by (rule concat_rows_length)
  show ?case
  proof (cases "s < S")
    case True
    then have "(s + 1) * N \<le> S * N" by (intro mult_le_mono1) simp
    then have "s * N + r < S * N" using Suc.prems(2) by simp
    then show ?thesis unfolding split nth_append len using Suc.IH[OF True Suc.prems(2)] by simp
  next
    case False
    then have "s = S" using Suc.prems(1) by simp
    then show ?thesis unfolding split nth_append len using Suc.prems(2) by simp
  qed
qed simp

definition ring_ranks :: "fabric \<Rightarrow> AllReduceParams \<Rightarrow> nat" where
  "ring_ranks f p = (if ap_gpu_count p = 0 then host_count f else unat (ap_gpu_count p))"

definition ring_fits :: "fabric \<Rightarrow> AllReduceParams \<Rightarrow> nat \<Rightarrow> nat \<Rightarrow> bool" where
  "ring_fits f p m N \<longleftrightarrow> N = ring_ranks f p \<and> 2 \<le> N \<and> 2 * (N - 1) * N < 2 ^ 32 \<and> N \<le> host_count f \<and> host_count f < 2 ^ 32
     \<and> 0 < ap_mtu_bytes p \<and> N \<le> unat (ap_buffer_bytes p) \<and> placement_fits f p m N"

text \<open>What the generator returns: sizes, placement, and the send of every rank in every step.\<close>

definition ring_built :: "fabric \<Rightarrow> AllReduceParams \<Rightarrow> nat \<Rightarrow> nat \<Rightarrow> u16 list \<Rightarrow> AllReduce \<Rightarrow> bool" where
  "ring_built f p m N ports ar \<longleftrightarrow> unat (ar_gpus ar) = N \<and> unat (ar_steps ar) = 2 * (N - 1)
     \<and> unat (ar_chunk_bytes ar) = unat (ap_buffer_bytes p) div N
     \<and> (ar_chunk_exact ar \<longleftrightarrow> N dvd unat (ap_buffer_bytes p) \<and> unat (ap_mtu_bytes p) dvd unat (ar_chunk_bytes ar))
     \<and> ar_rank_to_host ar = map (\<lambda>r. of_nat (ring_host (ap_placement p) m r)) [0..<N]
     \<and> length ports = N \<and> (\<forall>q \<in> set ports. 1024 \<le> q \<and> q < 64512)
     \<and> ar_chunk_packets ar = ucast ((ar_chunk_bytes ar + ucast (ap_mtu_bytes p) - 1) div ucast (ap_mtu_bytes p))
     \<and> length (ar_flows ar) = 2 * (N - 1) * N
     \<and> (\<forall>s < 2 * (N - 1). \<forall>r < N. ar_flows ar ! (s * N + r)
          = ring_spec f p (ar_chunk_bytes ar) (ring_host (ap_placement p) m) ports N s r)"

lemma ring_ranks_bound:
  fixes N :: nat
  assumes "2 \<le> N" "2 * (N - 1) * N < 2 ^ 32"
  shows "N < 2 ^ 31"
proof -
  have "2 * 1 * N \<le> 2 * (N - 1) * N" using assms(1) by (intro mult_le_mono) simp_all
  then have "2 * 1 * N < 2 ^ 32" using assms(2) by (rule le_less_trans)
  then show ?thesis by simp
qed

lemma make_ring_all_reduce_ok:
  assumes fits: "ring_fits f p m N" and ports: "yields (2 ^ 32) N (stream_new (ap_seed p) kStreamPorts)"
  shows "\<exists>ar ports. make_ring_all_reduce f p = Some ar \<and> ring_built f p m N ports ar"
proof -
  note F = fits[unfolded ring_fits_def]
  have N: "N < 2 ^ 31" using ring_ranks_bound F by blast
  let ?S = "2 * (N - 1)" and ?\<sigma> = "ring_host (ap_placement p) m"
  define gpus where "gpus = (if ap_gpu_count p = 0 then of_nat (host_count f) else ap_gpu_count p)"
  have g: "gpus = of_nat N" using F by (simp add: gpus_def ring_ranks_def)
  have un: "unat (of_nat N :: u32) = N" "unat (of_nat N :: u64) = N" using N by (simp_all add: unat_of_nat_small)
  then have ug: "unat (ucast (of_nat N :: u32) :: u64) = N" by (simp add: unat_ucast_up_eq)
  have two: "2 \<le> (of_nat N :: u32)" using F un by (simp add: word_le_nat_alt)
  have "unat (of_nat N - 1 :: u32) = N - 1" using un two F by (subst unat_sub_small) (simp_all add: word_le_nat_alt)
  then have us: "unat (2 * (of_nat N - 1) :: u32) = ?S" using N by (subst unat_mult_small) simp_all
  define chunk where "chunk = ap_buffer_bytes p div ucast (of_nat N :: u32)"
  have uc: "unat chunk = unat (ap_buffer_bytes p) div N" using ug by (simp add: chunk_def unat_div)
  have cpos: "0 < chunk" using F uc by (simp add: word_less_nat_alt div_greater_zero_iff)
  let ?mtu = "ucast (ap_mtu_bytes p) :: Bytes"
  have um: "unat ?mtu = unat (ap_mtu_bytes p)" by (simp add: unat_ucast_up_eq)
  have mtu: "?mtu \<noteq> 0"
  proof
    assume "?mtu = 0"
    then have "unat (ap_mtu_bytes p) = 0" using um by simp
    then show False using F by (simp add: word_less_nat_alt)
  qed
  have "ap_buffer_bytes p mod ucast (of_nat N :: u32) = 0 \<longleftrightarrow> N dvd unat (ap_buffer_bytes p)"
    using ug by (simp add: word_unat_eq_iff unat_mod dvd_eq_mod_eq_0)
  moreover have "chunk mod ?mtu = 0 \<longleftrightarrow> unat (ap_mtu_bytes p) dvd unat chunk"
    using um by (simp add: word_unat_eq_iff unat_mod dvd_eq_mod_eq_0)
  ultimately have exact: "(ap_buffer_bytes p mod ucast (of_nat N :: u32) = 0 \<and> chunk mod ?mtu = 0)
      \<longleftrightarrow> N dvd unat (ap_buffer_bytes p) \<and> unat (ap_mtu_bytes p) dvd unat chunk" by (simp only:)
  define hosts where "hosts = map (\<lambda>r. of_nat (?\<sigma> r) :: u32) [0..<N]"
  have place: "place_ranks f p (of_nat N) = Some hosts"
    unfolding hosts_def by (rule place_ranks_ok) (use F N in auto)
  obtain qs where qs: "draw_ports N (stream_new (ap_seed p) kStreamPorts) = Some qs" "length qs = N"
    "\<forall>q \<in> set qs. 1024 \<le> q \<and> q < 64512" using draw_ports_ok[OF ports] by blast
  let ?row = "\<lambda>s. map (ring_spec f p chunk ?\<sigma> qs N s) [0..<N]"
  have step: "ring_flow f p (of_nat N) chunk hosts qs s r acc = Some (acc @ [ring_spec f p chunk ?\<sigma> qs N s r])"
    if "r < N" "s < ?S" for s r acc
  proof (rule ring_flow_ok[OF that(1) N that(2) _ hosts_def _ _ qs(2)])
    show "?S * N < 2 ^ 32" "host_count f < 2 ^ 32" using F by blast+
    show "?\<sigma> x < host_count f" if "x < N" for x using ring_host_less[OF _ that] F by blast
  qed
  have row: "fold_opt (ring_flow f p (of_nat N) chunk hosts qs s) [0..<N] acc = Some (acc @ ?row s)" if "s < ?S" for s acc
    using fold_opt_extend[of "[0..<N]" "ring_flow f p (of_nat N) chunk hosts qs s" "\<lambda>r. [ring_spec f p chunk ?\<sigma> qs N s r]" acc]
      step[OF _ that] by (simp add: concat_singletons)
  have "fold_opt (\<lambda>s. fold_opt (ring_flow f p (of_nat N) chunk hosts qs s) [0..<N]) [0..<?S] []
      = Some ([] @ concat (map ?row [0..<?S]))"
    by (rule fold_opt_extend) (use row in simp)
  then have flows: "fold_opt (\<lambda>s. fold_opt (ring_flow f p (of_nat N) chunk hosts qs s) [0..<N]) [0..<?S] []
      = Some (concat (map ?row [0..<?S]))" by (simp only: append_Nil)
  let ?ar = "\<lparr>ar_flows = concat (map ?row [0..<?S]), ar_rank_to_host = hosts, ar_gpus = of_nat N,
    ar_steps = 2 * (of_nat N - 1), ar_chunk_bytes = chunk, ar_chunk_packets = ucast ((chunk + ?mtu - 1) div ?mtu),
    ar_chunk_exact = (ap_buffer_bytes p mod ucast (of_nat N :: u32) = 0 \<and> chunk mod ?mtu = 0)\<rparr>"
  have "make_ring_all_reduce f p = Some ?ar"
    unfolding make_ring_all_reduce_def gpus_def[symmetric] Let_def g chunk_def[symmetric] un us
    using two F mtu cpos place qs(1) flows by (simp add: fabric_simps)
  moreover have "ring_built f p m N qs ?ar"
    unfolding ring_built_def using us uc exact qs un
    by (simp add: hosts_def concat_rows_length concat_rows_nth)
  ultimately show ?thesis by blast
qed

text \<open>The send a dependent send waits for is the one, of the step before, that delivers to its source.\<close>

lemma ring_dependency:
  assumes b: "ring_built f p m N ports ar" and N: "2 \<le> N" and s: "0 < s" "s < 2 * (N - 1)" and r: "r < N"
    and d: "d = (s - 1) * N + (r + N - 1) mod N"
  shows "fs_depends_on (ar_flows ar ! (s * N + r)) = id_at d" "(s - 1) * N \<le> d" "d < s * N"
    "fs_dst (ar_flows ar ! d) = fs_src (ar_flows ar ! (s * N + r))"
proof -
  let ?u = "(r + N - 1) mod N"
  have spec: "ar_flows ar ! (s' * N + r') = ring_spec f p (ar_chunk_bytes ar) (ring_host (ap_placement p) m) ports N s' r'"
    if "s' < 2 * (N - 1)" "r' < N" for s' r' using b that unfolding ring_built_def by blast
  have u: "?u < N" using N by simp
  have "(?u + 1) mod N = (r + N - 1 + 1) mod N" by (rule mod_add_left_eq)
  also have "\<dots> = r" using r by simp
  finally have next_u: "(?u + 1) mod N = r" .
  show "fs_depends_on (ar_flows ar ! (s * N + r)) = id_at d"
    using spec[OF s(2) r] s(1) by (simp add: ring_spec_def d default_flow_spec_def)
  show "(s - 1) * N \<le> d" by (simp add: d)
  have "(s - 1) * N + ?u < (s - 1) * N + N" using u by simp
  also have "\<dots> = s * N" using s(1) by (cases s) simp_all
  finally show "d < s * N" by (simp add: d)
  have "s - 1 < 2 * (N - 1)" using s(2) by simp
  from spec[OF this u] have "fs_dst (ar_flows ar ! d) = fab_hosts f ! ring_host (ap_placement p) m ((?u + 1) mod N)"
    by (simp only: d ring_spec_def) (simp add: default_flow_spec_def)
  then show "fs_dst (ar_flows ar ! d) = fs_src (ar_flows ar ! (s * N + r))"
    unfolding next_u spec[OF s(2) r] by (simp add: ring_spec_def default_flow_spec_def)
qed

end
