(* ===== verification/Fct_Metrics.thy ===== *)
theory Fct_Metrics
  imports Simulation
begin

text \<open>
  \<^verbatim>\<open>metrics/fct.hpp\<close> and \<^verbatim>\<open>metrics/fct.cpp\<close>: percentiles, the summary of completion
  times and the completion time of a collective, and what these numbers mean.
\<close>

section \<open>The code\<close>

definition percentile_ns :: "Nanos list \<Rightarrow> u32 \<Rightarrow> Nanos option" where
  "percentile_ns xs permille = do {
     assert_that (xs \<noteq> []);
     assert_that (permille \<le> 1000);
     assert_that (sorted xs);
     let n = (of_nat (length xs) :: u64);
     let rank = (ucast permille * n + 999) div 1000;
     let rank = (if rank = 0 then 1 else rank);
     vget xs (unat (rank - 1))
   }"

record FctSummary =
  su_flows_total :: u32
  su_flows_complete :: u32
  su_flows_incomplete :: u32
  su_min_ns :: Nanos
  su_p50_ns :: Nanos
  su_p90_ns :: Nanos
  su_p99_ns :: Nanos
  su_max_ns :: Nanos
  su_mean_ns :: Nanos

definition blank_summary :: FctSummary where
  "blank_summary = \<lparr>su_flows_total = 0, su_flows_complete = 0, su_flows_incomplete = 0, su_min_ns = 0,
     su_p50_ns = 0, su_p90_ns = 0, su_p99_ns = 0, su_max_ns = 0, su_mean_ns = 0\<rparr>"

definition summary_complete :: "FctSummary \<Rightarrow> bool" where
  "summary_complete s \<longleftrightarrow> su_flows_incomplete s = 0"

definition completed_fcts :: "FlowResult list \<Rightarrow> Nanos list" where
  "completed_fcts results =
     sort (fold (\<lambda>r v. if res_complete r then v @ [fct_ns r] else v) results [])"

fun collective_loop :: "Nanos \<Rightarrow> FlowResult list \<Rightarrow> Nanos" where
  "collective_loop latest [] = latest"
| "collective_loop latest (r # rs) =
     (if \<not> res_complete r then 0
      else collective_loop (if res_finish_ns r > latest then res_finish_ns r else latest) rs)"

definition collective_time_ns :: "FlowResult list \<Rightarrow> Nanos" where
  "collective_time_ns results = collective_loop 0 results"

definition summarize_fct :: "FlowResult list \<Rightarrow> FctSummary option" where
  "summarize_fct results = do {
     let s = blank_summary\<lparr>su_flows_total := of_nat (length results)\<rparr>;
     let fcts = completed_fcts results;
     let s = s\<lparr>su_flows_complete := of_nat (length fcts)\<rparr>;
     let s = s\<lparr>su_flows_incomplete := su_flows_total s - su_flows_complete s\<rparr>;
     if fcts = [] then Some s
     else do {
       let s = s\<lparr>su_min_ns := hd fcts, su_max_ns := last fcts\<rparr>;
       p50 \<leftarrow> percentile_ns fcts 500;
       p90 \<leftarrow> percentile_ns fcts 900;
       p99 \<leftarrow> percentile_ns fcts 990;
       let s = s\<lparr>su_p50_ns := p50, su_p90_ns := p90, su_p99_ns := p99\<rparr>;
       let sum = fold (\<lambda>v acc. acc + v) fcts 0;
       Some (s\<lparr>su_mean_ns := sum div of_nat (length fcts)\<rparr>)
     }
   }"

section \<open>Nearest-rank percentiles\<close>

definition rank_of :: "nat \<Rightarrow> nat \<Rightarrow> nat" where
  "rank_of n permille = max 1 (ceil_div (permille * n) 1000)"

lemma rank_of_bounds:
  assumes "0 < n" "p \<le> 1000"
  shows "1 \<le> rank_of n p" "rank_of n p \<le> n" "p \<le> q \<Longrightarrow> rank_of n p \<le> rank_of n q"
proof -
  have "p * n \<le> n * 1000" using assms(2) by simp
  then have "ceil_div (p * n) 1000 \<le> n" using ceil_div_le_iff[of 1000 "p * n" n] by simp
  then show "rank_of n p \<le> n" using assms(1) by (simp add: rank_of_def)
  show "1 \<le> rank_of n p" by (simp add: rank_of_def)
  assume "p \<le> q"
  then have "ceil_div (p * n) 1000 \<le> ceil_div (q * n) 1000"
    unfolding ceil_div_def by (intro div_le_mono) simp
  then show "rank_of n p \<le> rank_of n q" by (simp add: rank_of_def)
qed

lemma percentile_rank:
  assumes xs: "xs \<noteq> []" "sorted xs" and p: "permille \<le> 1000" and n: "length xs < 2 ^ 54"
  shows "percentile_ns xs permille = Some (xs ! (rank_of (length xs) (unat permille) - 1))"
proof -
  define p where "p = unat permille"
  define n where "n = length xs"
  have pn: "p \<le> 1000" "0 < n" "n < 2 ^ 54" using assms by (simp_all add: p_def n_def word_le_nat_alt)
  have "p * n \<le> 1000 * 2 ^ 54" using pn by (intro mult_le_mono) simp_all
  then have room: "p * n + 999 < 2 ^ 64" by simp
  have u: "unat (ucast permille :: u64) = p" "unat (of_nat n :: u64) = n"
    using pn by (simp_all add: p_def unat_ucast_up_eq unat_of_nat_small)
  have m: "unat (ucast permille * of_nat n :: u64) = p * n" using u room by (subst unat_mult_small) simp_all
  have "unat (ucast permille * of_nat n + 999 :: u64) = p * n + 999" using m room by (subst unat_add_small) simp_all
  then have r0: "unat ((ucast permille * of_nat n + 999 :: u64) div 1000) = ceil_div (p * n) 1000"
    by (simp add: unat_div ceil_div_def)
  define r where "r = (let rank = (ucast permille * of_nat n + 999 :: u64) div 1000 in if rank = 0 then 1 else rank)"
  have r: "unat r = rank_of n p" using r0 by (auto simp: r_def Let_def rank_of_def word_unat_eq_iff max_def)
  have "unat (r - 1) = rank_of n p - 1"
    using r rank_of_bounds(1)[OF pn(2,1)] by (subst unat_sub_small) (simp_all add: word_le_nat_alt)
  moreover have "percentile_ns xs permille = vget xs (unat (r - 1))"
    using assms(1-3) by (simp add: percentile_ns_def fabric_simps r_def Let_def n_def)
  moreover have "rank_of n p - 1 < length xs" using rank_of_bounds(1,2)[OF pn(2,1)] by (simp add: n_def)
  ultimately show ?thesis by (simp add: vget_def n_def p_def)
qed

text \<open>The value at rank \<open>r\<close> of a sorted sample: at least \<open>r\<close> observations are no larger, fewer than \<open>r\<close> are smaller.\<close>

lemma sorted_rank:
  assumes "sorted xs" "1 \<le> r" "r \<le> length xs"
  shows "r \<le> length (filter (\<lambda>x. x \<le> xs ! (r - 1)) xs)" "length (filter (\<lambda>x. x < xs ! (r - 1)) xs) < r"
proof -
  have "{i. i < r} \<subseteq> {i. i < length xs \<and> xs ! i \<le> xs ! (r - 1)}"
    using assms by (auto intro: sorted_nth_mono)
  then have "card {i. i < r} \<le> card {i. i < length xs \<and> xs ! i \<le> xs ! (r - 1)}" by (intro card_mono) auto
  then show "r \<le> length (filter (\<lambda>x. x \<le> xs ! (r - 1)) xs)" by (simp add: length_filter_conv_card)
  have "i < r - 1" if "i < length xs" "xs ! i < xs ! (r - 1)" for i
  proof (rule ccontr)
    assume "\<not> i < r - 1"
    then have "xs ! (r - 1) \<le> xs ! i" using assms(1) that(1) by (intro sorted_nth_mono) simp_all
    then show False using that(2) by simp
  qed
  then have "{i. i < length xs \<and> xs ! i < xs ! (r - 1)} \<subseteq> {i. i < r - 1}" by auto
  then have "card {i. i < length xs \<and> xs ! i < xs ! (r - 1)} \<le> card {i. i < r - 1}" by (intro card_mono) auto
  then show "length (filter (\<lambda>x. x < xs ! (r - 1)) xs) < r" using assms(2) by (simp add: length_filter_conv_card)
qed

lemma percentile_spec:
  assumes "xs \<noteq> []" "sorted xs" "permille \<le> 1000" "length xs < 2 ^ 54"
  shows "\<exists>v. percentile_ns xs permille = Some v \<and> v \<in> set xs
    \<and> unat permille * length xs \<le> 1000 * length (filter (\<lambda>x. x \<le> v) xs)
    \<and> (0 < permille \<longrightarrow> 1000 * length (filter (\<lambda>x. x < v) xs) < unat permille * length xs)"
proof -
  let ?n = "length xs" and ?p = "unat permille"
  have pn: "0 < ?n" "?p \<le> 1000" using assms by (simp_all add: word_le_nat_alt)
  note B = rank_of_bounds(1,2)[OF pn]
  define r where "r = rank_of ?n ?p"
  have v: "percentile_ns xs permille = Some (xs ! (r - 1))" using percentile_rank[OF assms] by (simp add: r_def)
  note R = sorted_rank[OF assms(2) B[folded r_def]]
  have ge: "?p * ?n \<le> r * 1000"
    using ceil_div_le_iff[of 1000 "?p * ?n" r] by (simp add: r_def rank_of_def)
  have lt: "(r - 1) * 1000 < ?p * ?n" if "0 < permille"
  proof (cases "ceil_div (?p * ?n) 1000 \<le> 1")
    case True
    then have "r = 1" by (simp add: r_def rank_of_def)
    then show ?thesis using that pn(1) by (simp add: word_less_nat_alt)
  next
    case False
    then have "r = ceil_div (?p * ?n) 1000" by (simp add: r_def rank_of_def)
    then have "\<not> ceil_div (?p * ?n) 1000 \<le> r - 1" using False by simp
    then show ?thesis using ceil_div_le_iff[of 1000 "?p * ?n" "r - 1"] by simp
  qed
  have "1000 * length (filter (\<lambda>x. x < xs ! (r - 1)) xs) \<le> (r - 1) * 1000" using R(2) by simp
  then have "0 < permille \<longrightarrow> 1000 * length (filter (\<lambda>x. x < xs ! (r - 1)) xs) < ?p * ?n" using lt by linarith
  moreover have "xs ! (r - 1) \<in> set xs" using B by (intro nth_mem) (simp add: r_def)
  moreover have "?p * ?n \<le> 1000 * length (filter (\<lambda>x. x \<le> xs ! (r - 1)) xs)" using R(1) ge by linarith
  ultimately show ?thesis using v by blast
qed

section \<open>The sample and its summary\<close>

lemma completed_fcts_eq: "completed_fcts rs = sort (map fct_ns (filter res_complete rs))"
proof -
  have "fold (\<lambda>r v. if res_complete r then v @ [fct_ns r] else v) rs acc = acc @ map fct_ns (filter res_complete rs)" for acc
    by (induction rs arbitrary: acc) auto
  then show ?thesis by (simp add: completed_fcts_def)
qed

lemma collective_loop_eq:
  "collective_loop t rs = (if \<forall>r \<in> set rs. res_complete r then fold max (map res_finish_ns rs) t else 0)"
  by (induction rs arbitrary: t) (auto simp: max_def not_less)

lemma collective_time_max:
  "collective_time_ns rs = (if \<forall>r \<in> set rs. res_complete r then Max (insert 0 (res_finish_ns ` set rs)) else 0)"
proof -
  have "fold max ts (t :: Nanos) = Max (insert t (set ts))" for ts t
    by (metis Max.set_eq_fold list.simps(15))
  then show ?thesis unfolding collective_time_ns_def collective_loop_eq by simp
qed

lemma sum_words_exact:
  assumes "sum_list (map unat xs) < 2 ^ 64"
  shows "unat (fold (\<lambda>v acc. acc + v) xs (0 :: u64)) = sum_list (map unat xs)"
proof -
  have "unat (fold (\<lambda>v acc. acc + v) xs a) = unat a + sum_list (map unat xs)"
    if "unat a + sum_list (map unat xs) < 2 ^ 64" for a :: u64
    using that
  proof (induction xs arbitrary: a)
    case (Cons x xs)
    then have "unat (a + x) = unat a + unat x" by (intro unat_add_small) simp
    then show ?case using Cons by simp
  qed simp
  from this[of 0] show ?thesis using assms by simp
qed

lemma summarize_spec:
  assumes n: "length rs < 2 ^ 32" and room: "sum_list (map unat (completed_fcts rs)) < 2 ^ 64"
  shows "\<exists>s. summarize_fct rs = Some s \<and> unat (su_flows_total s) = length rs
    \<and> unat (su_flows_complete s) = length (filter res_complete rs)
    \<and> unat (su_flows_incomplete s) = length (filter (\<lambda>r. \<not> res_complete r) rs)
    \<and> (completed_fcts rs \<noteq> [] \<longrightarrow>
        su_min_ns s = Min (set (completed_fcts rs)) \<and> su_max_ns s = Max (set (completed_fcts rs))
        \<and> percentile_ns (completed_fcts rs) 500 = Some (su_p50_ns s)
        \<and> percentile_ns (completed_fcts rs) 900 = Some (su_p90_ns s)
        \<and> percentile_ns (completed_fcts rs) 990 = Some (su_p99_ns s)
        \<and> su_min_ns s \<le> su_p50_ns s \<and> su_p50_ns s \<le> su_p90_ns s \<and> su_p90_ns s \<le> su_p99_ns s
        \<and> su_p99_ns s \<le> su_max_ns s
        \<and> unat (su_mean_ns s) = sum_list (map unat (completed_fcts rs)) div length (completed_fcts rs))"
proof -
  define xs where "xs = completed_fcts rs"
  have l: "length xs = length (filter res_complete rs)" and so: "sorted xs"
    by (simp_all add: xs_def completed_fcts_eq)
  have le: "length xs \<le> length rs" using l length_filter_le[of res_complete rs] by simp
  have c: "length (filter (\<lambda>r. \<not> res_complete r) rs) = length rs - length xs"
    using sum_length_filter_compl[of res_complete rs] l by simp
  have u: "unat (of_nat (length rs) :: u32) = length rs" "unat (of_nat (length xs) :: u32) = length xs"
    using n le by (simp_all add: unat_of_nat_small)
  then have inc: "unat (of_nat (length rs) - of_nat (length xs) :: u32) = length rs - length xs"
    using le by (subst unat_sub_small) (simp_all add: word_le_nat_alt)
  show ?thesis
  proof (cases "xs = []")
    case True
    then show ?thesis using u inc l c n by (simp add: summarize_fct_def blank_summary_def Let_def flip: xs_def)
  next
    case False
    have small: "length xs < 2 ^ 54" "0 < length xs" using le n False by simp_all
    define at where "at p = xs ! (rank_of (length xs) p - 1)" for p
    have p: "percentile_ns xs 500 = Some (at 500)" "percentile_ns xs 900 = Some (at 900)" "percentile_ns xs 990 = Some (at 990)"
      using percentile_rank[OF False so _ small(1)] by (simp_all add: at_def)
    have mono: "at p \<le> at q" if "p \<le> q" "q \<le> 1000" for p q
      unfolding at_def using rank_of_bounds[OF small(2), of p] rank_of_bounds[OF small(2), of q] that
      by (intro sorted_nth_mono[OF so]) (auto intro: diff_le_mono less_le_trans)
    have hd: "hd xs = xs ! 0" "last xs = xs ! (length xs - 1)" using False by (simp_all add: hd_conv_nth last_conv_nth)
    have ends: "hd xs \<le> at q" "at q \<le> last xs" if "q \<le> 1000" for q
      unfolding at_def hd using rank_of_bounds[OF small(2), of q] that
      by (auto intro!: sorted_nth_mono[OF so])
    have mm: "hd xs = Min (set xs)" "last xs = Max (set xs)"
    proof -
      show "hd xs = Min (set xs)" using False so by (cases xs) (auto intro!: Min_eqI[symmetric])
      have "y \<le> last xs" if "y \<in> set xs" for y
        using that hd(2) by (auto simp: in_set_conv_nth intro!: sorted_nth_mono[OF so])
      then show "last xs = Max (set xs)" using False by (intro Max_eqI[symmetric]) simp_all
    qed
    define total where "total = fold (\<lambda>v acc. acc + v) xs (0 :: u64)"
    have t: "unat total = sum_list (map unat xs)" using sum_words_exact[of xs] room by (simp add: total_def xs_def)
    have "unat (of_nat (length xs) :: u64) = length xs" using small by (simp add: unat_of_nat_small)
    then have mean: "unat (total div of_nat (length xs)) = sum_list (map unat xs) div length xs"
      using t by (simp add: unat_div)
    have run: "summarize_fct rs = Some (blank_summary\<lparr>su_flows_total := of_nat (length rs), su_flows_complete := of_nat (length xs),
        su_flows_incomplete := of_nat (length rs) - of_nat (length xs), su_min_ns := hd xs, su_p50_ns := at 500, su_p90_ns := at 900,
        su_p99_ns := at 990, su_max_ns := last xs, su_mean_ns := total div of_nat (length xs)\<rparr>)"
      using False p by (simp add: summarize_fct_def Let_def total_def blank_summary_def flip: xs_def)
    show ?thesis
      unfolding run using u inc l c p mono[of 500 900] mono[of 900 990] ends[of 500] ends[of 990] mm mean
      by (simp flip: xs_def)
  qed
qed

end
