(* ===== verification/Sim_Load.thy ===== *)
theory Sim_Load
  imports Sim_Flows Sim_Reach Fabric_Links
begin

text \<open>
  From a built fabric and a list of flow specifications to a simulation that is ready to
  run: all the flows are accepted in order, and the numbers of the configuration alone
  (link rates and delays, timeout, packet totals) bound the run in 64-bit time.
\<close>

section \<open>Adding a list of flows\<close>

definition flow_fits :: "fabric \<Rightarrow> nat \<Rightarrow> FlowSpec \<Rightarrow> bool" where
  "flow_fits f i spec \<longleftrightarrow> 0 < fs_mtu_bytes spec \<and> unat (fs_mtu_bytes spec) \<le> 9216 \<and> 0 < fs_size_bytes spec
     \<and> (\<exists>h < host_count f. fs_src spec = fab_hosts f ! h) \<and> (\<exists>h < host_count f. fs_dst spec = fab_hosts f ! h)
     \<and> fs_src spec \<noteq> fs_dst spec \<and> 0 < fs_load_permille spec \<and> fs_load_permille spec \<le> 1000
     \<and> (id_valid (fs_depends_on spec) \<longrightarrow> id_index (fs_depends_on spec) < i)"

lemma frozen_views [simp]:
  "node_count (reset_state f) = node_count f" "fab_nodes (reset_state f) = fab_nodes f"
  "fab_hosts (reset_state f) = fab_hosts f" "host_count (reset_state f) = host_count f"
  by (simp_all add: reset_state_def node_count_def host_count_def)

lemma flow_fits_accepted:
  assumes ok: "setup_ok s" and fits: "flow_fits (frozen s) (nflows s) spec"
  shows "spec_accepted s spec"
proof -
  have "fabric_ok (frozen s)" using setup_okD(1)[OF ok] by (simp add: fabric_ready_def)
  then have "hosts_indexed (frozen s)" by (rule fabric_okD(3))
  then have "id_index (fab_hosts (frozen s) ! h) < node_count (sim_fabric s)
      \<and> node_is_host (fab_nodes (sim_fabric s) ! id_index (fab_hosts (frozen s) ! h))" if "h < host_count (frozen s)" for h
    using that by (simp add: hosts_indexed_def)
  then show ?thesis using fits unfolding spec_accepted_def flow_fits_def by auto
qed

lemma add_flows_ok:
  assumes "setup_ok s" and "\<And>i. i < length specs \<Longrightarrow> flow_fits (frozen s) (nflows s + i) (specs ! i)"
    and "nflows s + length specs < 2 ^ 32 - 1"
    and "sum_list (map unat (tots s)) + sum_list (map packets_of specs) < 2 ^ 32"
    and "sum_list (map unat (wins s)) + sum_list (map window_of specs) < 2 ^ 31"
  shows "\<exists>s'. add_flows specs s = Some s' \<and> setup_ok s' \<and> frozen s' = frozen s \<and> sim_transport s' = sim_transport s
    \<and> sim_specs s' = sim_specs s @ specs \<and> map unat (tots s') = map unat (tots s) @ map packets_of specs"
  using assms
proof (induction specs arbitrary: s)
  case Nil
  then show ?case by (simp add: add_flows_def)
next
  case (Cons spec specs)
  have fit: "flow_fits (frozen s) (nflows s) spec" using Cons.prems(2)[of 0] by simp
  have "spec_fits s spec" unfolding spec_fits_def using Cons.prems(3-5) by simp
  then obtain s1 where s1: "add_flow spec s = Some (id_at (nflows s), s1)" "setup_ok s1" "flow_added s spec s1"
    using add_flow_ok[OF Cons.prems(1) flow_fits_accepted[OF Cons.prems(1) fit]] by blast
  obtain w tot where A: "frozen s1 = frozen s" "sim_transport s1 = sim_transport s" "sim_specs s1 = sim_specs s @ [spec]"
    "wins s1 = wins s @ [w]" "tots s1 = tots s @ [tot]" "unat w = window_of spec" "unat tot = packets_of spec"
    using s1(3) by (auto simp: flow_added_def)
  have "\<exists>s'. add_flows specs s1 = Some s' \<and> setup_ok s' \<and> frozen s' = frozen s1 \<and> sim_transport s' = sim_transport s1
    \<and> sim_specs s' = sim_specs s1 @ specs \<and> map unat (tots s') = map unat (tots s1) @ map packets_of specs"
  proof (rule Cons.IH[OF s1(2)])
    show "flow_fits (frozen s1) (nflows s1 + i) (specs ! i)" if "i < length specs" for i
      using Cons.prems(2)[of "Suc i"] that by (simp add: A(1,3))
  qed (use Cons.prems(3-5) A in simp_all)
  then show ?case using s1(1) A by (auto simp: add_flows_def)
qed

section \<open>Bounds on the run\<close>

definition link_within :: "link_params \<Rightarrow> nat \<Rightarrow> bool" where
  "link_within l D \<longleftrightarrow> lp_rate l \<noteq> 0 \<and> unat (lp_prop_delay_ns l) \<le> D
     \<and> 1000 * (65535 * 8000000000 div unat (lp_rate l)) \<le> D"

definition ports_from :: "fabric \<Rightarrow> link_params set \<Rightarrow> bool" where
  "ports_from f ls \<longleftrightarrow> (\<forall>i < port_count f. \<exists>l \<in> ls. port_rate (fab_ports f ! i) = lp_rate l
     \<and> port_prop_delay_ns (fab_ports f ! i) = lp_prop_delay_ns l
     \<and> ring_capacity (port_queue (fab_ports f ! i)) = lp_queue_capacity_pkts l)"

lemma build_ports_from:
  assumes "builder_inv b" "build b = Some f" "\<forall>e \<in> set (fb_edges b). edge_params e \<in> ls"
  shows "ports_from f ls"
  unfolding ports_from_def
proof (intro allI impI)
  fix p assume "p < port_count f"
  then obtain j where j: "fab_ports f ! p = endpoint_port (fb_edges b) j" "fb_edges b ! (j div 2) \<in> set (fb_edges b)"
    using build_port_edge[OF assms(1,2)] by metis
  show "\<exists>l \<in> ls. port_rate (fab_ports f ! p) = lp_rate l \<and> port_prop_delay_ns (fab_ports f ! p) = lp_prop_delay_ns l
      \<and> ring_capacity (port_queue (fab_ports f ! p)) = lp_queue_capacity_pkts l"
    by (rule bexI[of _ "edge_params (fb_edges b ! (j div 2))"]) (use j assms(3) in simp_all)
qed

lemma serialization_nat:
  assumes "rate \<noteq> 0" "unat bytes \<le> 65535"
  shows "\<exists>t. serialization_ns bytes rate = Some t \<and> unat t = unat bytes * 8000000000 div unat rate"
proof -
  have a: "unat (bytes * 8 :: u64) = unat bytes * 8" using assms(2) by (subst unat_mult_small) simp_all
  have "unat (bytes * 8 * 1000000000 :: u64) = unat bytes * 8 * 1000000000"
    using assms(2) a by (subst unat_mult_small) simp_all
  then show ?thesis using assms(1)
    by (simp add: serialization_ns_def kBitsPerByte_def kNanosPerSec_def unat_div mult.commute)
qed

lemma serialization_within:
  assumes "link_within l D" "serialization_ns (ucast (b :: u16)) (lp_rate l) = Some t"
  shows "1000 * unat t \<le> D"
proof -
  have b: "unat (ucast b :: u64) = unat b" by (simp add: unat_ucast_up_eq)
  then obtain t' where "serialization_ns (ucast b) (lp_rate l) = Some t'" "unat t' = unat b * 8000000000 div unat (lp_rate l)"
    using serialization_nat[of "lp_rate l" "ucast b"] assms(1) unat_lt16[of b] by (auto simp: link_within_def)
  then have "unat t = unat b * 8000000000 div unat (lp_rate l)" using assms(2) by simp
  also have "\<dots> \<le> 65535 * 8000000000 div unat (lp_rate l)" using unat_lt16[of b] by (intro div_le_mono) simp
  finally show ?thesis using assms(1) unfolding link_within_def by linarith
qed

lemma pacing_within:
  assumes l: "link_within l D" and p: "pacing_period spec (lp_rate l) = Some p" and D: "D < 2 ^ 64"
  shows "unat p \<le> D"
proof -
  obtain t where t: "serialization_ns (ucast (fs_mtu_bytes spec)) (lp_rate l) = Some t"
    "p = t * 1000 div ucast (fs_load_permille spec)" using p by (auto simp: pacing_period_def checked_iffs)
  have w: "1000 * unat t \<le> D" using serialization_within[OF l t(1)] .
  then have u: "unat (t * 1000) = unat t * 1000" using D by (subst unat_mult_small) simp_all
  have "unat p \<le> unat t * 1000" by (simp add: t(2) unat_div u)
  then show ?thesis using w by simp
qed

lemma delay_bound_links:
  assumes ok: "setup_ok s" and ls: "ports_from (frozen s) ls" "\<forall>l \<in> ls. link_within l D"
    and rto: "unat (tc_rto_ns (sim_transport s)) \<le> D" and D: "D < 2 ^ 64"
  shows "delay_bound s D"
proof -
  have port: "\<exists>l. link_within l D \<and> port_rate (fab_ports (frozen s) ! i) = lp_rate l
      \<and> port_prop_delay_ns (fab_ports (frozen s) ! i) = lp_prop_delay_ns l" if "i < port_count (frozen s)" for i
    using ls that unfolding ports_from_def by blast
  have "delays_ok (frozen s) D"
    unfolding delays_ok_def
  proof (intro allI impI)
    fix i assume "i < port_count (frozen s)"
    then obtain l where l: "link_within l D" "port_rate (fab_ports (frozen s) ! i) = lp_rate l"
      "port_prop_delay_ns (fab_ports (frozen s) ! i) = lp_prop_delay_ns l" using port by blast
    have "unat t \<le> D" if "serialization_ns (ucast (b :: u16)) (lp_rate l) = Some t" for b t
      using serialization_within[OF l(1) that] by simp
    then show "unat (port_prop_delay_ns (fab_ports (frozen s) ! i)) \<le> D
        \<and> (\<forall>b t. serialization_ns (ucast (b :: u16)) (port_rate (fab_ports (frozen s) ! i)) = Some t \<longrightarrow> unat t \<le> D)"
      using l by (auto simp: link_within_def)
  qed
  moreover have "unat p \<le> D" if i: "i < nflows s" and p: "flow_period s i = Some p" for i p
  proof -
    have "id_index (frt_src_nic (sim_froutes s ! i)) < port_count (frozen s)"
      using setup_okD(15)[OF ok i] by (simp add: flow_shape_def on_route_def)
    then obtain l where "link_within l D" "port_rate (fab_ports (frozen s) ! id_index (frt_src_nic (sim_froutes s ! i))) = lp_rate l"
      using port by blast
    then show ?thesis using pacing_within[of l D] p D by (simp add: flow_period_def)
  qed
  ultimately show ?thesis using rto by (simp add: delay_bound_def)
qed

lemma run_budget_sum:
  assumes "setup_ok s"
  shows "run_budget s = (4 * node_count (frozen s) + 6) * max_tries s * sum_list (map unat (tots s)) + nflows s"
proof -
  have l: "length (tots s) = nflows s" using setup_okD(6)[OF assms] .
  have "run_budget s = (\<Sum>i<nflows s. send_weight s * max_tries s * unat (tots s ! i)) + nflows s"
    unfolding run_budget_def sum.distrib by (simp add: mult.assoc)
  also have "(\<Sum>i<nflows s. send_weight s * max_tries s * unat (tots s ! i))
      = send_weight s * max_tries s * (\<Sum>i<nflows s. unat (tots s ! i))" by (simp add: sum_distrib_left)
  also have "(\<Sum>i<nflows s. unat (tots s ! i)) = sum_list (map unat (tots s))"
    using l by (simp add: sum_list_sum_nth atLeast0LessThan)
  finally show ?thesis by (simp add: send_weight_def diameter_def)
qed

lemma run_ready_loaded:
  assumes "setup_ok s" "transport_ok s" "ports_from (frozen s) ls" "\<forall>l \<in> ls. link_within l D"
    and "unat (tc_rto_ns (sim_transport s)) \<le> D" "starts_by s H"
    and "H + ((4 * node_count (frozen s) + 6) * max_tries s * sum_list (map unat (tots s)) + nflows s) * D < 2 ^ 64"
    and "D < 2 ^ 64"
  shows "run_ready s D H"
  using assms delay_bound_links[OF assms(1,3,4,5,8)] run_budget_sum[OF assms(1)] by (simp add: run_ready_def)

section \<open>Fabrics built by the topology functions\<close>

lemma loaded_fabric:
  assumes f: "fabric_ready f rt" "reset_state f = f" and t: "sim_transport s0 = tr" "s0 = set_transport tr (sim_new f rt)"
    and specs: "\<And>i. i < length specs \<Longrightarrow> flow_fits f i (specs ! i)"
    and sums: "length specs < 2 ^ 32 - 1" "sum_list (map packets_of specs) < 2 ^ 32" "sum_list (map window_of specs) < 2 ^ 31"
  shows "\<exists>s. add_flows specs s0 = Some s \<and> setup_ok s \<and> frozen s = f \<and> sim_transport s = tr
    \<and> sim_specs s = specs \<and> map unat (tots s) = map packets_of specs"
proof -
  have "setup_ok s0" unfolding t(2) setup_transport by (rule setup_new) (simp add: f)
  moreover have v: "frozen s0 = f" "sim_specs s0 = []" "tots s0 = []" "wins s0 = []"
    by (simp_all add: t(2) set_transport_def sim_new_def tots_def wins_def f)
  ultimately show ?thesis using add_flows_ok[of s0 specs] specs sums t(1) by simp
qed

end
