(* ===== verification/Scenario.thy ===== *)
theory Scenario
  imports Leaf_Spine Permutation All_Reduce Fct_Metrics Sim_Load
begin

text \<open>
  \<^verbatim>\<open>harness/scenario.hpp\<close> and \<^verbatim>\<open>harness/scenario.cpp\<close>: the closed forms, the sizing of
  the transport, the routing dispatch and the construction of the three scenarios.
\<close>

section \<open>Closed forms and transport sizing\<close>

definition analytical_fct_ns :: "u32 \<Rightarrow> u32 \<Rightarrow> Nanos \<Rightarrow> Nanos \<Rightarrow> Nanos" where
  "analytical_fct_ns packets hops ser_ns prop_ns =
     (ucast packets - 1 + ucast hops) * ser_ns + ucast hops * prop_ns"

definition paced_fct_ns :: "u32 \<Rightarrow> u32 \<Rightarrow> Nanos \<Rightarrow> Nanos \<Rightarrow> Nanos \<Rightarrow> Nanos" where
  "paced_fct_ns packets hops ser_ns period_ns prop_ns =
     (ucast packets - 1) * period_ns + ucast hops * ser_ns + ucast hops * prop_ns"

definition round_trip_ns :: "u32 \<Rightarrow> Nanos \<Rightarrow> Nanos \<Rightarrow> Nanos \<Rightarrow> Nanos" where
  "round_trip_ns hops ser_ns ack_ser_ns prop_ns =
     ucast hops * (ser_ns + prop_ns) + ucast hops * (ack_ser_ns + prop_ns)"

definition min_window_packets :: "u32 \<Rightarrow> Nanos \<Rightarrow> Nanos \<Rightarrow> Nanos \<Rightarrow> u32 option" where
  "min_window_packets hops ser_ns ack_ser_ns prop_ns = do {
     assert_that (ser_ns \<noteq> 0);
     Some (ucast (round_trip_ns hops ser_ns ack_ser_ns prop_ns div ser_ns) + 1)
   }"

definition window_is_sufficient :: "u32 \<Rightarrow> u32 \<Rightarrow> u32 \<Rightarrow> Nanos \<Rightarrow> Nanos \<Rightarrow> Nanos \<Rightarrow> bool option" where
  "window_is_sufficient window_pkts packets hops ser_ns ack_ser_ns prop_ns =
     (if packets \<le> window_pkts then Some True
      else do { w \<leftarrow> min_window_packets hops ser_ns ack_ser_ns prop_ns; Some (w \<le> window_pkts) })"

definition default_rto_ns :: "u32 \<Rightarrow> Nanos \<Rightarrow> Nanos \<Rightarrow> Nanos \<Rightarrow> u32 \<Rightarrow> Nanos" where
  "default_rto_ns hops ser_ns ack_ser_ns prop_ns queue_pkts =
     2 * (round_trip_ns hops ser_ns ack_ser_ns prop_ns + ucast hops * ucast queue_pkts * ser_ns)"

definition ack_is_free :: "Bytes \<Rightarrow> BitsPerSec \<Rightarrow> bool option" where
  "ack_is_free ack_bytes rate = do { t \<leftarrow> serialization_ns ack_bytes rate; Some (t = 0) }"

definition all_reduce_analytical_ns :: "u32 \<Rightarrow> u32 \<Rightarrow> u32 \<Rightarrow> Nanos \<Rightarrow> Nanos \<Rightarrow> Nanos \<Rightarrow> Nanos" where
  "all_reduce_analytical_ns steps chunk_packets hops ser_ns period_ns prop_ns =
     ucast steps * paced_fct_ns chunk_packets hops ser_ns period_ns prop_ns"

definition sized_transport :: "TransportConfig \<Rightarrow> link_params \<Rightarrow> u16 \<Rightarrow> u32 \<Rightarrow> TransportConfig option" where
  "sized_transport t link mtu_bytes hops =
     (if tc_rto_ns t = 0 then do {
        ser \<leftarrow> serialization_ns (ucast mtu_bytes) (lp_rate link);
        ack_ser \<leftarrow> serialization_ns (tc_ack_bytes t) (lp_rate link);
        Some (t\<lparr>tc_rto_ns := default_rto_ns hops ser ack_ser (lp_prop_delay_ns link)
          (of_nat (lp_queue_capacity_pkts link))\<rparr>)
      } else Some t)"

text \<open>\<open>a && b\<close>, where evaluating \<open>b\<close> may be undefined.\<close>

definition and_also :: "bool \<Rightarrow> bool option \<Rightarrow> bool option" where
  "and_also a b = (if a then b else Some False)"

definition packets_for :: "Bytes \<Rightarrow> u16 \<Rightarrow> u32 option" where
  "packets_for bytes mtu = do {
     assert_that (mtu \<noteq> 0);
     Some (ucast ((bytes + ucast mtu - 1) div ucast mtu))
   }"

section \<open>Routing dispatch\<close>

definition run_with_routing :: "sim \<Rightarrow> RoutingAlgorithm \<Rightarrow> u64 \<Rightarrow> (RunStats \<times> sim) option" where
  "run_with_routing s algo hash_seed = (case algo of
       StaticFirst \<Rightarrow> run_sim static_first_select s
     | Ecmp \<Rightarrow> run_sim (ecmp_select hash_seed) s)"

definition parse_routing :: "string \<Rightarrow> RoutingAlgorithm option" where
  "parse_routing name = (if name = ''ecmp'' then Some Ecmp else if name = ''static'' then Some StaticFirst else None)"

section \<open>smoke\<close>

record SmokeConfig =
  sm_topology :: LeafSpineConfig
  sm_flow_bytes :: Bytes
  sm_mtu_bytes :: u16
  sm_src_host :: u32
  sm_dst_host :: u32
  sm_window_pkts :: u32

definition default_smoke :: SmokeConfig where
  "default_smoke = \<lparr>sm_topology = default_leaf_spine, sm_flow_bytes = 1500000, sm_mtu_bytes = 1500,
     sm_src_host = 0, sm_dst_host = 4, sm_window_pkts = 512\<rparr>"

record SmokeScenario =
  ss_sim :: sim
  ss_flow :: flow_id
  ss_packets :: u32
  ss_hops :: u32
  ss_analytical_ns :: Nanos
  ss_analytical_exact :: bool

definition build_smoke :: "SmokeConfig \<Rightarrow> SmokeScenario option" where
  "build_smoke cfg = do {
     fab \<leftarrow> build_leaf_spine (sm_topology cfg);
     routes \<leftarrow> build_shortest_path fab;
     assert_that (unat (sm_src_host cfg) < host_count fab \<and> unat (sm_dst_host cfg) < host_count fab);
     src \<leftarrow> host_at fab (sm_src_host cfg);
     dst \<leftarrow> host_at fab (sm_dst_host cfg);
     let per_leaf = ls_hosts_per_leaf (sm_topology cfg);
     let same_leaf = (sm_src_host cfg div per_leaf = sm_dst_host cfg div per_leaf);
     let hops = (if same_leaf then kLeafSpineSameLeafHops else kLeafSpineCrossLeafHops);
     let host_link = ls_host_link (sm_topology cfg);
     let fabric_link = ls_fabric_link (sm_topology cfg);
     let homogeneous = (lp_rate host_link = lp_rate fabric_link
       \<and> lp_prop_delay_ns host_link = lp_prop_delay_ns fabric_link);
     packets \<leftarrow> packets_for (sm_flow_bytes cfg) (sm_mtu_bytes cfg);
     transport \<leftarrow> sized_transport default_transport host_link (sm_mtu_bytes cfg) hops;
     ser \<leftarrow> serialization_ns (ucast (sm_mtu_bytes cfg)) (lp_rate host_link);
     ack_ser \<leftarrow> serialization_ns (tc_ack_bytes transport) (lp_rate host_link);
     let analytical = analytical_fct_ns packets hops ser (lp_prop_delay_ns host_link);
     ser_exact \<leftarrow> serialization_is_exact (ucast (sm_mtu_bytes cfg)) (lp_rate host_link);
     exact \<leftarrow> and_also (homogeneous \<and> sm_flow_bytes cfg mod ucast (sm_mtu_bytes cfg) = 0 \<and> ser_exact)
       (window_is_sufficient (sm_window_pkts cfg) packets hops ser ack_ser (lp_prop_delay_ns host_link));
     let s = set_transport transport (sim_new fab routes);
     let spec = default_flow_spec\<lparr>fs_src := src, fs_dst := dst, fs_size_bytes := sm_flow_bytes cfg,
       fs_mtu_bytes := sm_mtu_bytes cfg, fs_window_pkts := sm_window_pkts cfg\<rparr>;
     (flow, s) \<leftarrow> add_flow spec s;
     Some \<lparr>ss_sim = s, ss_flow = flow, ss_packets = packets, ss_hops = hops,
       ss_analytical_ns = analytical, ss_analytical_exact = exact\<rparr>
   }"

section \<open>permutation\<close>

record PermutationConfig =
  pc_topology :: FatTreeConfig
  pc_workload :: PermutationParams
  pc_routing :: RoutingAlgorithm
  pc_transport :: TransportConfig

definition default_permutation_config :: PermutationConfig where
  "default_permutation_config = \<lparr>pc_topology = default_fat_tree, pc_workload = default_permutation,
     pc_routing = Ecmp, pc_transport = default_transport\<rparr>"

record PermutationScenario =
  psc_sim :: sim
  psc_k :: u32
  psc_flow_count :: u32
  psc_routing :: RoutingAlgorithm
  psc_seed :: u64
  psc_best_case_ns :: Nanos
  psc_analytical_exact :: bool

definition permutation_flow_lower_bound_ns :: "PermutationConfig \<Rightarrow> u32 \<Rightarrow> u32 \<Rightarrow> Nanos option" where
  "permutation_flow_lower_bound_ns cfg src_host dst_host = do {
     let w = pc_workload cfg;
     let link = ft_host_link (pc_topology cfg);
     packets \<leftarrow> packets_for (pp_flow_bytes w) (pp_mtu_bytes w);
     let hops = fat_tree_hops (ft_k (pc_topology cfg)) src_host dst_host;
     ser \<leftarrow> serialization_ns (ucast (pp_mtu_bytes w)) (lp_rate link);
     assert_that (pp_load_permille w \<noteq> 0);
     let period = (ser * 1000) div ucast (pp_load_permille w);
     Some (paced_fct_ns packets hops ser period (lp_prop_delay_ns link))
   }"

text \<open>The loop that adds the flows and keeps the best lower bound.\<close>

definition load_permutation_flow :: "PermutationConfig \<Rightarrow> FlowSpec list \<Rightarrow> nat \<Rightarrow> sim \<times> Nanos \<Rightarrow> (sim \<times> Nanos) option" where
  "load_permutation_flow cfg flows i = (\<lambda>(s, best). do {
     spec \<leftarrow> vget flows i;
     dst_host \<leftarrow> host_index (sim_fabric s) (fs_dst spec);
     lb \<leftarrow> permutation_flow_lower_bound_ns cfg (of_nat i) dst_host;
     let best = (if best = 0 \<or> lb < best then lb else best);
     (_, s) \<leftarrow> add_flow spec s;
     Some (s, best)
   })"

definition build_permutation :: "PermutationConfig \<Rightarrow> PermutationScenario option" where
  "build_permutation cfg = do {
     let w = pc_workload cfg;
     fab \<leftarrow> build_fat_tree (pc_topology cfg);
     routes \<leftarrow> build_shortest_path fab;
     flows \<leftarrow> make_permutation fab w;
     let host_link = ft_host_link (pc_topology cfg);
     let fabric_link = ft_fabric_link (pc_topology cfg);
     transport \<leftarrow> sized_transport (pc_transport cfg) host_link (pp_mtu_bytes w) kFatTreeCrossPodHops;
     let s = set_transport transport (sim_new fab routes);
     (s, best) \<leftarrow> fold_opt (load_permutation_flow cfg flows) [0..<length flows] (s, 0);
     ser \<leftarrow> serialization_ns (ucast (pp_mtu_bytes w)) (lp_rate host_link);
     ack_ser \<leftarrow> serialization_ns (tc_ack_bytes (sim_transport s)) (lp_rate host_link);
     packets \<leftarrow> packets_for (pp_flow_bytes w) (pp_mtu_bytes w);
     ser_exact \<leftarrow> serialization_is_exact (ucast (pp_mtu_bytes w)) (lp_rate host_link);
     exact \<leftarrow> and_also (lp_rate host_link = lp_rate fabric_link
         \<and> lp_prop_delay_ns host_link = lp_prop_delay_ns fabric_link
         \<and> pp_flow_bytes w mod ucast (pp_mtu_bytes w) = 0 \<and> ser_exact)
       (window_is_sufficient (pp_window_pkts w) packets kFatTreeCrossPodHops ser ack_ser (lp_prop_delay_ns host_link));
     Some \<lparr>psc_sim = s, psc_k = ft_k (pc_topology cfg), psc_flow_count = of_nat (length flows),
       psc_routing = pc_routing cfg, psc_seed = pp_seed w, psc_best_case_ns = best, psc_analytical_exact = exact\<rparr>
   }"

section \<open>allreduce\<close>

record AllReduceConfig =
  ac_topology :: FatTreeConfig
  ac_workload :: AllReduceParams
  ac_routing :: RoutingAlgorithm
  ac_transport :: TransportConfig

definition default_all_reduce_config :: AllReduceConfig where
  "default_all_reduce_config = \<lparr>ac_topology = default_fat_tree, ac_workload = default_all_reduce,
     ac_routing = Ecmp, ac_transport = default_transport\<rparr>"

record AllReduceScenario =
  asc_sim :: sim
  asc_gpus :: u32
  asc_steps :: u32
  asc_chunk_packets :: u32
  asc_hops :: u32
  asc_chunk_bytes :: Bytes
  asc_analytical_ns :: Nanos
  asc_routing :: RoutingAlgorithm
  asc_seed :: u64
  asc_uniform_hops :: bool
  asc_analytical_exact :: bool

text \<open>The loop over the ring hops: the first hop count, the largest, and whether all agree.\<close>

definition scan_hop :: "u32 \<Rightarrow> AllReduce \<Rightarrow> nat \<Rightarrow> u32 \<times> u32 \<times> bool \<Rightarrow> (u32 \<times> u32 \<times> bool) option" where
  "scan_hop k ar r = (\<lambda>(hops, max_hops, uniform). do {
     a \<leftarrow> vget (ar_rank_to_host ar) r;
     b \<leftarrow> vget (ar_rank_to_host ar) (unat ((of_nat r + 1) mod ar_gpus ar));
     let h = fat_tree_hops k a b;
     let (hops, uniform) = (if r = 0 then (h, uniform) else if h \<noteq> hops then (hops, False) else (hops, uniform));
     Some (hops, if max_hops < h then h else max_hops, uniform)
   })"

definition build_all_reduce :: "AllReduceConfig \<Rightarrow> AllReduceScenario option" where
  "build_all_reduce cfg = do {
     let params = (ac_workload cfg)\<lparr>ap_fat_tree_k := ft_k (ac_topology cfg)\<rparr>;
     fab \<leftarrow> build_fat_tree (ac_topology cfg);
     routes \<leftarrow> build_shortest_path fab;
     ar \<leftarrow> make_ring_all_reduce fab params;
     (hops, max_hops, uniform) \<leftarrow> fold_opt (scan_hop (ft_k (ac_topology cfg)) ar) [0..<unat (ar_gpus ar)] (0, 0, True);
     let host_link = ft_host_link (ac_topology cfg);
     let fabric_link = ft_fabric_link (ac_topology cfg);
     transport \<leftarrow> sized_transport (ac_transport cfg) host_link (ap_mtu_bytes params) max_hops;
     ser \<leftarrow> serialization_ns (ucast (ap_mtu_bytes params)) (lp_rate host_link);
     ack_ser \<leftarrow> serialization_ns (tc_ack_bytes transport) (lp_rate host_link);
     assert_that (ap_load_permille params \<noteq> 0);
     let period = (ser * 1000) div ucast (ap_load_permille params);
     let s = set_transport transport (sim_new fab routes);
     let step_hops = (if uniform then hops else max_hops);
     let analytical = all_reduce_analytical_ns (ar_steps ar) (ar_chunk_packets ar) step_hops ser period
       (lp_prop_delay_ns host_link);
     ser_exact \<leftarrow> serialization_is_exact (ucast (ap_mtu_bytes params)) (lp_rate host_link);
     free \<leftarrow> ack_is_free (tc_ack_bytes transport) (lp_rate host_link);
     exact \<leftarrow> and_also (uniform \<and> hops = kFatTreeSameEdgeHops \<and> ar_chunk_exact ar
         \<and> lp_rate host_link = lp_rate fabric_link
         \<and> lp_prop_delay_ns host_link = lp_prop_delay_ns fabric_link
         \<and> ser_exact \<and> free \<and> (ser * 1000) mod ucast (ap_load_permille params) = 0)
       (window_is_sufficient (ap_window_pkts params) (ar_chunk_packets ar) hops ser ack_ser (lp_prop_delay_ns host_link));
     s \<leftarrow> add_flows (ar_flows ar) s;
     Some \<lparr>asc_sim = s, asc_gpus = ar_gpus ar, asc_steps = ar_steps ar, asc_chunk_packets = ar_chunk_packets ar,
       asc_hops = step_hops, asc_chunk_bytes = ar_chunk_bytes ar, asc_analytical_ns = analytical,
       asc_routing = ac_routing cfg, asc_seed = ap_seed params, asc_uniform_hops = uniform,
       asc_analytical_exact = exact\<rparr>
   }"

end
