(* ===== verification/Scenario_Runs.thy ===== *)
theory Scenario_Runs
  imports Scenario
begin

text \<open>
  The scenarios are built without a failing assertion, undefined division or index out of
  range, and what they build is ready to run: topology, route table, workload and
  transport fit together.
\<close>

section \<open>Shared steps\<close>

lemma fat_tree_ports:
  assumes "fat_tree_fits cfg m" "build_fat_tree cfg = Some f"
  shows "ports_from f {ft_host_link cfg, ft_fabric_link cfg}"
proof -
  have k: "arity (ft_k cfg) m" using assms(1) by (simp add: fat_tree_fits_def arity_def)
  let ?b = "ft_builder m (ft_host_link cfg) (ft_fabric_link cfg)"
  show ?thesis
  proof (rule build_ports_from)
    show "builder_inv ?b" using tiered_facts(1)[OF ft_tiered[OF k]] .
    show "build ?b = Some f" using assms(2) build_fat_tree_builder[OF k] by simp
    have "edge_params e = ft_fabric_link cfg" if "e \<in> set (ft_mesh m (ft_fabric_link cfg))" for e
      using that unfolding ft_mesh_mem by (auto simp del: ft_index.simps)
    moreover have "edge_params e = ft_host_link cfg" if "e \<in> set (ft_drops m (ft_host_link cfg))" for e
      using that by (auto simp: ft_drops_def)
    ultimately show "\<forall>e \<in> set (fb_edges ?b). edge_params e \<in> {ft_host_link cfg, ft_fabric_link cfg}"
      by (auto simp: ft_builder_def)
  qed
qed

lemma leaf_spine_ports:
  assumes fits: "leaf_spine_fits cfg" and f: "build_leaf_spine cfg = Some f"
  shows "ports_from f {ls_host_link cfg, ls_fabric_link cfg}"
proof -
  define S where "S = unat (ls_spine_count cfg)"
  define L where "L = unat (ls_leaf_count cfg)"
  define H where "H = unat (ls_hosts_per_leaf cfg)"
  note F = fits[unfolded leaf_spine_fits_def Let_def, folded S_def L_def H_def]
  have LH: "1 \<le> L * H" using F by (simp add: Suc_le_eq)
  have "2 * (L * S + L * H) * 1 \<le> 2 * (L * S + L * H) * (L * H)" using LH by (intro mult_le_mono2)
  moreover have "2 * (L * S + L * H) * (L * H) < 2 ^ 32" using F by blast
  ultimately have small: "S + L + L * H < 2 ^ 32 - 1" "2 * (L * S + L * H) < 2 ^ 32"
    using F by (blast, linarith)
  then have small': "S + L + L * H < 2 ^ 32" by simp
  let ?b = "ls_builder S L H (ls_host_link cfg) (ls_fabric_link cfg)"
  show ?thesis
  proof (rule build_ports_from)
    show "builder_inv ?b" using tiered_facts(1)[OF ls_tiered[OF small]] .
    show "build ?b = Some f"
      using f build_leaf_spine_builder[OF _ _ _ S_def L_def H_def small'] F
      by (simp add: word_less_nat_alt S_def L_def H_def)
    show "\<forall>e \<in> set (fb_edges ?b). edge_params e \<in> {ls_host_link cfg, ls_fabric_link cfg}"
      by (auto simp: ls_builder_def ls_mesh_mem ls_drops_mem)
  qed
qed

lemma host_index_host:
  assumes "fabric_ok f" "h < host_count f" "host_count f < 2 ^ 32"
  shows "host_index f (fab_hosts f ! h) = Some (of_nat h)"
proof -
  note H = fabric_okD(3)[OF assms(1), unfolded hosts_indexed_def]
  have "unat (fab_host_index f ! id_index (fab_hosts f ! h)) = h" "id_index (fab_hosts f ! h) < length (fab_host_index f)"
    using H assms(2) by simp_all
  then show ?thesis using assms(2,3)
    by (simp add: host_index_def fabric_simps word_unat_eq_iff unat_of_nat_small)
qed

lemma fab_hosts_inj:
  assumes "fabric_ok f" "h < host_count f" "g < host_count f"
  shows "fab_hosts f ! h = fab_hosts f ! g \<longleftrightarrow> h = g"
  using fabric_okD(3)[OF assms(1), unfolded hosts_indexed_def] assms(2,3) by metis

lemma frozen_host_index [simp]: "host_index (reset_state f) n = host_index f n"
  by (simp add: host_index_def reset_state_def)

lemma packets_for_some: "0 < mtu \<Longrightarrow> \<exists>p. packets_for bytes mtu = Some p"
  by (auto simp: packets_for_def fabric_simps)

lemma serialization_some: "rate \<noteq> 0 \<Longrightarrow> \<exists>t. serialization_ns b rate = Some t"
  "rate \<noteq> 0 \<Longrightarrow> \<exists>e. serialization_is_exact b rate = Some e"
  by (simp_all add: serialization_ns_def serialization_is_exact_def)

text \<open>An exact serialisation takes time, so the window test never divides by zero.\<close>

lemma exact_takes_time:
  assumes e: "serialization_is_exact (ucast (mtu :: u16)) rate = Some True" and m: "0 < mtu"
    and t: "serialization_ns (ucast mtu) rate = Some t"
  shows "t \<noteq> 0"
proof
  assume z: "t = 0"
  have u: "unat (ucast mtu :: u64) = unat mtu" by (simp add: unat_ucast_up_eq)
  have r: "rate \<noteq> 0" using t by (auto simp: serialization_ns_def split: if_splits)
  have w: "(ucast mtu * kBitsPerByte * kNanosPerSec) mod rate = (0 :: u64)"
    "(ucast mtu * kBitsPerByte * kNanosPerSec) div rate = (0 :: u64)"
    using e t r z by (auto simp: serialization_is_exact_def serialization_ns_def)
  then have "ucast mtu * kBitsPerByte * kNanosPerSec = (0 :: u64)"
    by (metis add_0 mult_zero_left word_mod_div_equality add.commute)
  then have "unat (ucast mtu * 8 * 1000000000 :: u64) = 0" by (simp add: kBitsPerByte_def kNanosPerSec_def)
  moreover have "unat (ucast mtu * 8 :: u64) = unat mtu * 8" using unat_lt16[of mtu] u by (subst unat_mult_small) simp_all
  then have "unat (ucast mtu * 8 * 1000000000 :: u64) = unat mtu * 8 * 1000000000"
    using unat_lt16[of mtu] by (subst unat_mult_small) simp_all
  ultimately show False using m by (simp add: word_less_nat_alt)
qed

lemma window_test_some:
  assumes "c \<longrightarrow> ser \<noteq> 0"
  shows "\<exists>b. and_also c (window_is_sufficient w packets hops ser ack_ser prop) = Some b"
  using assms by (cases "packets \<le> w"; cases c)
    (auto simp: and_also_def window_is_sufficient_def min_window_packets_def fabric_simps)

section \<open>Permutation\<close>

lemma permutation_spec_fields:
  assumes "permutation_spec f w h d spec"
  shows "fs_src spec = fab_hosts f ! h" "fs_dst spec = fab_hosts f ! d" "fs_size_bytes spec = pp_flow_bytes w"
    "fs_mtu_bytes spec = pp_mtu_bytes w" "fs_load_permille spec = pp_load_permille w"
    "fs_window_pkts spec = pp_window_pkts w" "fs_depends_on spec = id_invalid" "fs_start_ns spec \<le> pp_max_start_jitter_ns w"
  using assms by (auto simp: permutation_spec_def default_flow_spec_def)

lemma add_flows_snoc: "add_flows (specs @ [spec]) s = do { s \<leftarrow> add_flows specs s; (_, s) \<leftarrow> add_flow spec s; Some s }"
proof (cases "add_flows specs s")
  case (Some s1)
  then show ?thesis by (cases "add_flow spec s1") (auto simp: add_flows_def fold_opt_append)
qed (simp add: add_flows_def fold_opt_append)

lemma add_flows_prefix: "add_flows (xs @ ys) s = Some s' \<Longrightarrow> \<exists>s1. add_flows xs s = Some s1"
  unfolding add_flows_def fold_opt_append by (auto simp: bind_eq_Some_conv)

definition running_best :: "Nanos list \<Rightarrow> Nanos" where
  "running_best lbs = foldl (\<lambda>best lb. if best = 0 \<or> lb < best then lb else best) 0 lbs"

lemma running_best_min:
  assumes "lbs \<noteq> []" "0 \<notin> set lbs"
  shows "running_best lbs = Min (set lbs)"
  using assms
proof (induction lbs rule: rev_nonempty_induct)
  case (single x)
  then show ?case by (simp add: running_best_def)
next
  case (snoc x xs)
  then have r: "running_best xs = Min (set xs)" by simp
  have "Min (set xs) \<in> set xs" using snoc.hyps by (intro Min_in) simp_all
  then have "Min (set xs) \<noteq> 0" using snoc.prems by auto
  moreover have "Min (set (xs @ [x])) = min x (Min (set xs))" using snoc.hyps by simp
  ultimately show ?case using r by (auto simp: running_best_def min_def)
qed

lemma load_permutation_flows:
  assumes "add_flows flows s0 = Some s'"
    and "\<And>i s1. i < length flows \<Longrightarrow> add_flows (take i flows) s0 = Some s1
      \<Longrightarrow> host_index (sim_fabric s1) (fs_dst (flows ! i)) = Some (dst i)"
    and "\<And>i. i < length flows \<Longrightarrow> permutation_flow_lower_bound_ns cfg (of_nat i) (dst i) = Some (lb i)"
  shows "fold_opt (load_permutation_flow cfg flows) [0..<length flows] (s0, 0) = Some (s', running_best (map lb [0..<length flows]))"
proof -
  let ?P = "\<lambda>k st. add_flows (take k flows) s0 = Some (fst st) \<and> snd st = running_best (map lb [0..<k])"
  have "\<exists>st. fold_opt (load_permutation_flow cfg flows) [0..<length flows] (s0, 0) = Some st \<and> ?P (length [0..<length flows]) st"
  proof (rule fold_opt_invariant)
    show "?P 0 (s0, 0)" by (simp add: add_flows_def running_best_def)
    fix i st assume "i < length [0..<length flows]" and I: "?P i st"
    then have i: "i < length flows" by simp
    obtain s1 best where st: "st = (s1, best)" by (cases st)
    have tk: "take (Suc i) flows = take i flows @ [flows ! i]" using i by (rule take_Suc_conv_app_nth)
    have "add_flows (take (Suc i) flows @ drop (Suc i) flows) s0 = Some s'" using assms(1) by simp
    then obtain s2 where "add_flows (take (Suc i) flows) s0 = Some s2" using add_flows_prefix by blast
    then obtain fid where s2: "add_flow (flows ! i) s1 = Some (fid, s2)" "add_flows (take (Suc i) flows) s0 = Some s2"
      using I unfolding tk add_flows_snoc st by (auto simp: bind_eq_Some_conv)
    have "host_index (sim_fabric s1) (fs_dst (flows ! i)) = Some (dst i)" using assms(2)[OF i] I st by simp
    then have "load_permutation_flow cfg flows i st = Some (s2, if best = 0 \<or> lb i < best then lb i else best)"
      using s2(1) i assms(3)[OF i] by (simp add: st load_permutation_flow_def fabric_simps Let_def)
    then show "\<exists>st'. load_permutation_flow cfg flows ([0..<length flows] ! i) st = Some st' \<and> ?P (Suc i) st'"
      using i I s2(2) st by (simp add: running_best_def)
  qed
  then show ?thesis using assms(1) by fastforce
qed

section \<open>Transport and flow lists\<close>

definition transport_within :: "TransportConfig \<Rightarrow> link_params \<Rightarrow> u16 \<Rightarrow> u32 \<Rightarrow> nat \<Rightarrow> bool" where
  "transport_within tc link mtu hops D \<longleftrightarrow> 0 < tc_ack_bytes tc \<and> tc_ack_bytes tc \<le> kMaxPacketBytes \<and> 0 < tc_max_attempts tc
     \<and> (case sized_transport tc link mtu hops of None \<Rightarrow> False | Some t \<Rightarrow> 0 < tc_rto_ns t \<and> unat (tc_rto_ns t) \<le> D)"

lemma sized_transport_fields:
  assumes "sized_transport tc link mtu hops = Some t"
  shows "tc_ack_bytes t = tc_ack_bytes tc" "tc_max_attempts t = tc_max_attempts tc"
  using assms by (auto simp: sized_transport_def bind_eq_Some_conv split: if_splits)

lemma add_flow_fabric: "add_flow spec s = Some (i, s') \<Longrightarrow> sim_fabric s' = sim_fabric s"
  by (auto simp: add_flow_def Let_def bind_eq_Some_conv)

lemma add_flows_fabric: "add_flows specs s = Some s' \<Longrightarrow> sim_fabric s' = sim_fabric s"
  unfolding add_flows_def
  by (erule fold_opt_preserves[where P = "\<lambda>t. sim_fabric t = sim_fabric s"]) (auto simp: bind_eq_Some_conv dest: add_flow_fabric)

lemma sum_list_const: "(\<And>x. x \<in> set xs \<Longrightarrow> f x = (c :: nat)) \<Longrightarrow> sum_list (map f xs) = length xs * c"
  by (induction xs) simp_all

end
