(* ===== verification/Permutation_Runs.thy ===== *)
theory Permutation_Runs
  imports Scenario_Runs
begin

text \<open>
  The permutation scenario as a whole: built on a fat-tree that fits, it is ready to run and
  holds one flow out of and one flow into every host.
\<close>

definition perm_packets :: "PermutationParams \<Rightarrow> nat" where
  "perm_packets w = ceil_div (unat (pp_flow_bytes w)) (unat (pp_mtu_bytes w))"

definition perm_window :: "PermutationParams \<Rightarrow> nat" where
  "perm_window w = max 1 (min (unat (pp_window_pkts w)) (perm_packets w))"

definition permutation_fits :: "PermutationConfig \<Rightarrow> nat \<Rightarrow> nat \<Rightarrow> nat \<Rightarrow> bool" where
  "permutation_fits cfg m n D \<longleftrightarrow> (let w = pc_workload cfg; top = pc_topology cfg in
     fat_tree_fits top m \<and> n = 2 * m * m * m
     \<and> 0 < pp_mtu_bytes w \<and> unat (pp_mtu_bytes w) \<le> 9216 \<and> 0 < pp_flow_bytes w
     \<and> 0 < pp_load_permille w \<and> pp_load_permille w \<le> 1000
     \<and> n * perm_packets w < 2 ^ 32 \<and> n * perm_window w < 2 ^ 31 \<and> permutation_draws n w
     \<and> link_within (ft_host_link top) D \<and> link_within (ft_fabric_link top) D
     \<and> transport_within (pc_transport cfg) (ft_host_link top) (pp_mtu_bytes w) kFatTreeCrossPodHops D
     \<and> unat (pp_max_start_jitter_ns w)
        + ((4 * (5 * m * m + n) + 6) * unat (tc_max_attempts (pc_transport cfg)) * (n * perm_packets w) + n) * D < 2 ^ 64
     \<and> D < 2 ^ 64)"

text \<open>What is built: the flows of the single cycle \<open>\<pi>\<close> of the hosts, accepted in host order.\<close>

definition permutation_built :: "PermutationConfig \<Rightarrow> nat \<Rightarrow> (nat \<Rightarrow> nat) \<Rightarrow> PermutationScenario \<Rightarrow> bool" where
  "permutation_built cfg n \<pi> sc \<longleftrightarrow> nflows (psc_sim sc) = n \<and> unat (psc_flow_count sc) = n \<and> single_cycle \<pi> n
     \<and> psc_routing sc = pc_routing cfg \<and> psc_seed sc = pp_seed (pc_workload cfg) \<and> psc_k sc = ft_k (pc_topology cfg)
     \<and> build_fat_tree (pc_topology cfg) = Some (frozen (psc_sim sc))
     \<and> (\<forall>h < n. permutation_spec (frozen (psc_sim sc)) (pc_workload cfg) h (\<pi> h) (sim_specs (psc_sim sc) ! h))
     \<and> (\<exists>lb. (\<forall>h < n. permutation_flow_lower_bound_ns cfg (of_nat h) (of_nat (\<pi> h)) = Some (lb h))
          \<and> psc_best_case_ns sc = running_best (map lb [0..<n]))"

lemma lower_bound_some:
  assumes "0 < pp_mtu_bytes (pc_workload cfg)" "lp_rate (ft_host_link (pc_topology cfg)) \<noteq> 0" "0 < pp_load_permille (pc_workload cfg)"
  shows "\<exists>lb. permutation_flow_lower_bound_ns cfg a b = Some lb"
  using packets_for_some[OF assms(1), of "pp_flow_bytes (pc_workload cfg)"]
    serialization_some(1)[OF assms(2), of "ucast (pp_mtu_bytes (pc_workload cfg))"] assms(3)
  by (auto simp: permutation_flow_lower_bound_ns_def fabric_simps Let_def)

lemma build_permutation_ok:
  assumes fits: "permutation_fits cfg m n D"
  shows "\<exists>sc \<pi>. build_permutation cfg = Some sc \<and> permutation_built cfg n \<pi> sc
    \<and> run_ready (psc_sim sc) D (unat (pp_max_start_jitter_ns (pc_workload cfg)))"
proof -
  define w where "w = pc_workload cfg"
  define top where "top = pc_topology cfg"
  note F = fits[unfolded permutation_fits_def Let_def, folded w_def top_def]
  have k: "arity (ft_k top) m" and m: "1 \<le> m" "m \<le> 23" using F by (auto simp: fat_tree_fits_def arity_def)
  note W = arity_words[OF k]
  have fft: "fat_tree_fits top m" using F by blast
  obtain f rt where f: "build_fat_tree top = Some f" "build_shortest_path f = Some rt" "fabric_ready f rt"
    "reset_state f = f" "host_count f = n" "node_count f = 5 * m * m + n"
    using fat_tree_ok[OF fft] W(9,10) F by auto
  have fo: "fabric_ok f" using f(3) by (simp add: fabric_ready_def)
  have n: "2 \<le> n" "n < 2 ^ 32"
  proof -
    have "1 * 1 * 1 \<le> m * m * m" using m by (intro mult_le_mono) simp_all
    then show "2 \<le> n" using F by simp
    have "m * m * m \<le> 134217728" using cube_bounds(2)[of m] m by simp
    then show "n < 2 ^ 32" using F by simp
  qed
  have mtu: "0 < pp_mtu_bytes w" "unat (pp_mtu_bytes w) \<le> 9216" "0 < pp_flow_bytes w"
    and load: "0 < pp_load_permille w" "pp_load_permille w \<le> 1000" using F by blast+
  obtain flows \<pi> where fl: "make_permutation f w = Some flows" "length flows = n" "single_cycle \<pi> n"
    "\<And>h. h < n \<Longrightarrow> permutation_spec f w h (\<pi> h) (flows ! h)"
    using make_permutation_ok[OF f(5)[symmetric] n load] F by blast
  note sp = permutation_spec_fields[OF fl(4)]
  obtain tr where tr: "sized_transport (pc_transport cfg) (ft_host_link top) (pp_mtu_bytes w) kFatTreeCrossPodHops = Some tr"
    "0 < tc_rto_ns tr" "unat (tc_rto_ns tr) \<le> D"
    using F by (auto simp: transport_within_def split: option.splits)
  note trf = sized_transport_fields[OF tr(1)]
  define s0 where "s0 = set_transport tr (sim_new f rt)"
  have fit: "flow_fits f i (flows ! i)" if i: "i < length flows" for i
  proof -
    have h: "i < n" "\<pi> i < n" "\<pi> i \<noteq> i"
      using i fl(2) single_cycle_less[OF fl(3)] single_cycle_deranged[OF fl(3) n(1)] by auto
    then have "fab_hosts f ! i \<noteq> fab_hosts f ! \<pi> i" using fab_hosts_inj[OF fo, of i "\<pi> i"] f(5) by auto
    moreover have "\<not> id_valid (id_invalid :: flow_id)" by (simp add: id_valid_def id_invalid_def)
    ultimately show ?thesis
      using h sp[OF h(1)] f(5) mtu load by (auto simp: flow_fits_def)
  qed
  have packs: "packets_of x = perm_packets w" "window_of x = perm_window w" if "x \<in> set flows" for x
    using that fl(2) sp by (auto simp: in_set_conv_nth packets_of_def perm_packets_def window_of_def perm_window_def)
  have sums: "sum_list (map packets_of flows) = n * perm_packets w" "sum_list (map window_of flows) = n * perm_window w"
    using sum_list_const[of flows packets_of] sum_list_const[of flows window_of] packs fl(2) by blast+
  have "\<exists>s. add_flows flows s0 = Some s \<and> setup_ok s \<and> frozen s = f \<and> sim_transport s = tr
    \<and> sim_specs s = flows \<and> map unat (tots s) = map packets_of flows"
  proof (rule loaded_fabric[OF f(3,4) _ s0_def fit])
    show "sim_transport s0 = tr" by (simp add: s0_def set_transport_def)
    have "1 \<le> perm_packets w"
      using mtu by (simp add: perm_packets_def ceil_div_def word_less_nat_alt div_greater_zero_iff Suc_le_eq)
    then have "n * 1 \<le> n * perm_packets w" by (rule mult_le_mono2)
    have "m * m * m \<le> 134217728" using cube_bounds(2)[of m] m by simp
    then show "length flows < 2 ^ 32 - 1" using fl(2) F by simp
    show "sum_list (map packets_of flows) < 2 ^ 32" "sum_list (map window_of flows) < 2 ^ 31" unfolding sums using F by blast+
  qed
  then obtain s where s: "add_flows flows s0 = Some s" "setup_ok s" "frozen s = f" "sim_transport s = tr"
    "sim_specs s = flows" "map unat (tots s) = map packets_of flows" by blast
  have pre: "host_index (sim_fabric s1) (fs_dst (flows ! i)) = Some (of_nat (\<pi> i))"
    if i: "i < length flows" and s1: "add_flows (take i flows) s0 = Some s1" for i s1
  proof -
    have h: "i < n" "\<pi> i < host_count f" using i fl(2) single_cycle_less[OF fl(3)] f(5) by auto
    have "sim_fabric s1 = f" using add_flows_fabric[OF s1] by (simp add: s0_def set_transport_def sim_new_def)
    then show ?thesis using host_index_host[OF fo h(2)] sp(2)[OF h(1)] f(5) n(2) by simp
  qed
  have rate: "lp_rate (ft_host_link top) \<noteq> 0" using F by (simp add: link_within_def)
  have "\<exists>lb. \<forall>i. permutation_flow_lower_bound_ns cfg (of_nat i) (of_nat (\<pi> i)) = Some (lb i)"
    using lower_bound_some[of cfg] mtu(1) rate load(1) unfolding w_def top_def by (intro choice) blast
  then obtain lb where lb: "\<And>i. permutation_flow_lower_bound_ns cfg (of_nat i) (of_nat (\<pi> i)) = Some (lb i)" by blast
  define best where "best = running_best (map lb [0..<n])"
  have load_run: "fold_opt (load_permutation_flow cfg flows) [0..<n] (s0, 0) = Some (s, best)"
    using load_permutation_flows[OF s(1) pre lb] fl(2) by (simp add: best_def)
  obtain ser ack_ser packets se where parts: "serialization_ns (ucast (pp_mtu_bytes w)) (lp_rate (ft_host_link top)) = Some ser"
    "serialization_ns (tc_ack_bytes tr) (lp_rate (ft_host_link top)) = Some ack_ser"
    "packets_for (pp_flow_bytes w) (pp_mtu_bytes w) = Some packets"
    "serialization_is_exact (ucast (pp_mtu_bytes w)) (lp_rate (ft_host_link top)) = Some se"
    using serialization_some[OF rate] packets_for_some[OF mtu(1)] by metis
  let ?c = "lp_rate (ft_host_link top) = lp_rate (ft_fabric_link top)
    \<and> lp_prop_delay_ns (ft_host_link top) = lp_prop_delay_ns (ft_fabric_link top)
    \<and> pp_flow_bytes w mod ucast (pp_mtu_bytes w) = 0 \<and> se"
  have c: "?c \<longrightarrow> ser \<noteq> 0" using exact_takes_time[OF _ mtu(1) parts(1)] parts(4) by auto
  obtain ex where ex: "and_also ?c (window_is_sufficient (pp_window_pkts w) packets kFatTreeCrossPodHops ser ack_ser
      (lp_prop_delay_ns (ft_host_link top))) = Some ex" using window_test_some[OF c] by (metis (no_types))
  let ?sc = "\<lparr>psc_sim = s, psc_k = ft_k top, psc_flow_count = of_nat n, psc_routing = pc_routing cfg,
    psc_seed = pp_seed w, psc_best_case_ns = best, psc_analytical_exact = ex\<rparr>"
  have "build_permutation cfg = Some ?sc"
    unfolding build_permutation_def Let_def w_def[symmetric] top_def[symmetric]
    using f(1,2) fl(1,2) tr(1) load_run parts ex s(4) by (simp flip: s0_def)
  moreover have "permutation_built cfg n \<pi> ?sc"
    unfolding permutation_built_def
  proof (intro conjI allI impI)
    fix h assume h: "h < n"
    show "permutation_spec (frozen (psc_sim ?sc)) (pc_workload cfg) h (\<pi> h) (sim_specs (psc_sim ?sc) ! h)"
      using fl(4)[OF h] s by (simp add: w_def)
  qed (use s fl n lb f(1) in \<open>auto simp: unat_of_nat_small w_def top_def best_def\<close>)
  moreover have "run_ready s D (unat (pp_max_start_jitter_ns w))"
  proof (rule run_ready_loaded[OF s(2)])
    show "transport_ok s" using F tr(2) trf by (simp add: transport_ok_def s(4) transport_within_def)
    show "ports_from (frozen s) {ft_host_link top, ft_fabric_link top}" using fat_tree_ports[OF fft f(1)] s(3) by simp
    show "\<forall>l \<in> {ft_host_link top, ft_fabric_link top}. link_within l D" using F by blast
    show "unat (tc_rto_ns (sim_transport s)) \<le> D" using tr(3) s(4) by simp
    show "starts_by s (unat (pp_max_start_jitter_ns w))"
      using sp(8) s(5) fl(2) by (simp add: starts_by_def word_le_nat_alt)
    have "unat (pp_max_start_jitter_ns w)
        + ((4 * (5 * m * m + n) + 6) * unat (tc_max_attempts (pc_transport cfg)) * (n * perm_packets w) + n) * D < 2 ^ 64"
      using F by blast
    then show "unat (pp_max_start_jitter_ns w) + ((4 * node_count (frozen s) + 6) * max_tries s * sum_list (map unat (tots s)) + nflows s) * D < 2 ^ 64"
      unfolding s(3,5,6) sums f(6) max_tries_def s(4) trf(2) fl(2) .
    show "D < 2 ^ 64" using F by blast
  qed
  ultimately show ?thesis unfolding w_def by (metis PermutationScenario.select_convs(1))
qed

end
