(* ===== verification/All_Reduce_Runs.thy ===== *)
theory All_Reduce_Runs
  imports Scenario_Runs
begin

text \<open>
  The ring all-reduce scenario as a whole: built on a fat-tree that fits, it is ready to
  run, holds every rank's send of every step, and each dependent send waits for the one
  that delivers to its source.
\<close>

definition chunk_size :: "AllReduceParams \<Rightarrow> nat \<Rightarrow> nat" where
  "chunk_size w N = unat (ap_buffer_bytes w) div N"

definition chunk_packs :: "AllReduceParams \<Rightarrow> nat \<Rightarrow> nat" where
  "chunk_packs w N = ceil_div (chunk_size w N) (unat (ap_mtu_bytes w))"

definition chunk_window :: "AllReduceParams \<Rightarrow> nat \<Rightarrow> nat" where
  "chunk_window w N = max 1 (min (unat (ap_window_pkts w)) (chunk_packs w N))"

definition all_reduce_fits :: "AllReduceConfig \<Rightarrow> nat \<Rightarrow> nat \<Rightarrow> nat \<Rightarrow> bool" where
  "all_reduce_fits cfg m N D \<longleftrightarrow> (let w = ac_workload cfg; top = ac_topology cfg; n = 2 * m * m * m; S = 2 * (N - 1) * N in
     fat_tree_fits top m \<and> N = (if ap_gpu_count w = 0 then n else unat (ap_gpu_count w)) \<and> 2 \<le> N \<and> N \<le> n
     \<and> (ap_placement w = RoundRobinPods \<longrightarrow> N = n)
     \<and> 0 < ap_mtu_bytes w \<and> unat (ap_mtu_bytes w) \<le> 9216 \<and> N \<le> unat (ap_buffer_bytes w)
     \<and> 0 < ap_load_permille w \<and> ap_load_permille w \<le> 1000
     \<and> S < 2 ^ 32 - 1 \<and> S * chunk_packs w N < 2 ^ 32 \<and> S * chunk_window w N < 2 ^ 31
     \<and> yields (2 ^ 32) N (stream_new (ap_seed w) kStreamPorts)
     \<and> link_within (ft_host_link top) D \<and> link_within (ft_fabric_link top) D
     \<and> (\<forall>h \<in> {2, 4, 6}. transport_within (ac_transport cfg) (ft_host_link top) (ap_mtu_bytes w) h D)
     \<and> ((4 * (5 * m * m + n) + 6) * unat (tc_max_attempts (ac_transport cfg)) * (S * chunk_packs w N) + S) * D < 2 ^ 64
     \<and> D < 2 ^ 64)"

text \<open>The hops between a rank and the next.\<close>

definition ring_hops :: "u32 \<Rightarrow> RingPlacement \<Rightarrow> nat \<Rightarrow> nat \<Rightarrow> nat \<Rightarrow> u32" where
  "ring_hops k pl m N r = fat_tree_hops k (of_nat (ring_host pl m r)) (of_nat (ring_host pl m ((r + 1) mod N)))"

definition all_reduce_built :: "AllReduceConfig \<Rightarrow> nat \<Rightarrow> nat \<Rightarrow> u16 list \<Rightarrow> AllReduceScenario \<Rightarrow> bool" where
  "all_reduce_built cfg m N ports sc \<longleftrightarrow> (let w = ac_workload cfg; specs = sim_specs (asc_sim sc) in
     build_fat_tree (ac_topology cfg) = Some (frozen (asc_sim sc))
     \<and> (\<exists>ser. serialization_ns (ucast (ap_mtu_bytes w)) (lp_rate (ft_host_link (ac_topology cfg))) = Some ser
          \<and> asc_analytical_ns sc = all_reduce_analytical_ns (asc_steps sc) (asc_chunk_packets sc) (asc_hops sc) ser
              (ser * 1000 div ucast (ap_load_permille w)) (lp_prop_delay_ns (ft_host_link (ac_topology cfg))))
     \<and> unat (asc_gpus sc) = N \<and> unat (asc_steps sc) = 2 * (N - 1) \<and> unat (asc_chunk_bytes sc) = chunk_size w N
     \<and> unat (asc_chunk_packets sc) = chunk_packs w N \<and> length specs = 2 * (N - 1) * N
     \<and> (\<forall>s < 2 * (N - 1). \<forall>r < N. specs ! (s * N + r)
          = ring_spec (frozen (asc_sim sc)) w (asc_chunk_bytes sc) (ring_host (ap_placement w) m) ports N s r)
     \<and> (asc_uniform_hops sc \<longleftrightarrow> (\<forall>r < N. ring_hops (ft_k (ac_topology cfg)) (ap_placement w) m N r
          = ring_hops (ft_k (ac_topology cfg)) (ap_placement w) m N 0))
     \<and> (\<forall>r < N. ring_hops (ft_k (ac_topology cfg)) (ap_placement w) m N r \<le> asc_hops sc)
     \<and> (\<exists>r < N. ring_hops (ft_k (ac_topology cfg)) (ap_placement w) m N r = asc_hops sc))"

lemma fat_tree_hops_values: "fat_tree_hops k a b \<in> {2, 4, 6}"
  by (simp add: fat_tree_hops_def kFatTreeSameEdgeHops_def kFatTreeSamePodHops_def kFatTreeCrossPodHops_def)

lemma scan_hops:
  assumes N: "0 < N" "N < 2 ^ 31" and g: "ar_gpus ar = of_nat N"
    and hosts: "ar_rank_to_host ar = map (\<lambda>r. of_nat (ring_host pl m r)) [0..<N]"
  shows "\<exists>hops mx un. fold_opt (scan_hop k ar) [0..<N] (0, 0, True) = Some (hops, mx, un)
    \<and> hops = ring_hops k pl m N 0 \<and> (un \<longleftrightarrow> (\<forall>r < N. ring_hops k pl m N r = ring_hops k pl m N 0))
    \<and> (\<forall>r < N. ring_hops k pl m N r \<le> mx) \<and> (\<exists>r < N. ring_hops k pl m N r = mx)"
proof -
  let ?h = "ring_hops k pl m N"
  define P where "P i st = (case st of (hops, mx, un) \<Rightarrow> (if i = 0 then hops = 0 \<and> mx = 0 \<and> un else hops = ?h 0 \<and> (\<exists>r < i. ?h r = mx))
    \<and> (un \<longleftrightarrow> (\<forall>r < i. ?h r = ?h 0)) \<and> (\<forall>r < i. ?h r \<le> mx))" for i :: nat and st :: "u32 \<times> u32 \<times> bool"
  have "\<exists>st. fold_opt (scan_hop k ar) [0..<N] (0, 0, True) = Some st \<and> P (length [0..<N]) st"
  proof (rule fold_opt_invariant)
    show "P 0 (0, 0, True)" by (simp add: P_def)
    fix i st assume "i < length [0..<N]" and I: "P i st"
    then have i: "i < N" by simp
    obtain hops mx un where st: "st = (hops, mx, un)" by (cases st)
    have n1: "(i + 1) mod N < N" using N by simp
    have "((of_nat i :: u32) + 1) mod of_nat N = of_nat ((i + 1) mod N)"
      using word_div_of_nat(2)[of "i + 1" N] i N by (simp add: add.commute)
    moreover have "unat (of_nat ((i + 1) mod N) :: u32) = (i + 1) mod N"
      by (rule unat_of_nat_small[OF less_trans[OF n1]]) (use N(2) in simp)
    ultimately have u: "unat (((of_nat i :: u32) + 1) mod of_nat N) = (i + 1) mod N" by simp
    have run: "scan_hop k ar i st = Some (if i = 0 then ?h i else hops, if mx < ?h i then ?h i else mx,
        if i = 0 then un else un \<and> ?h i = hops)"
      using i n1 by (simp add: st scan_hop_def hosts g u fabric_simps Let_def ring_hops_def)
    have "P (Suc i) (if i = 0 then ?h i else hops, if mx < ?h i then ?h i else mx, if i = 0 then un else un \<and> ?h i = hops)"
    proof (cases "i = 0")
      case True
      then show ?thesis using I by (auto simp: P_def st less_Suc_eq word_less_nat_alt word_le_nat_alt word_unat_eq_iff)
    next
      case False
      have "\<exists>r < Suc i. ?h r = (if mx < ?h i then ?h i else mx)" using I False by (auto simp: P_def st less_Suc_eq)
      moreover have "?h r \<le> (if mx < ?h i then ?h i else mx)" if "r < Suc i" for r
      proof -
        have "r = i \<or> ?h r \<le> mx" using I that by (auto simp: P_def st less_Suc_eq)
        then show ?thesis by (auto simp: not_less)
      qed
      ultimately show ?thesis using I False by (auto simp: P_def st less_Suc_eq)
    qed
    then show "\<exists>st'. scan_hop k ar ([0..<N] ! i) st = Some st' \<and> P (Suc i) st'" using run i by simp
  qed
  then obtain hops mx un where "fold_opt (scan_hop k ar) [0..<N] (0, 0, True) = Some (hops, mx, un)" "P N (hops, mx, un)"
    by (metis length_upt minus_nat.diff_0 prod_cases3)
  then show ?thesis using N(1) by (auto simp: P_def)
qed

text \<open>Round robin over the pods, every hop crosses pods: six links.\<close>

lemma ring_hops_round_robin:
  assumes k: "arity k m" and r: "r < N" and N: "N = 2 * m * m * m"
  shows "ring_hops k RoundRobinPods m N r = 6"
proof -
  have less: "ring_host RoundRobinPods m x < 2 * m * m * m" if "x < N" for x
    using row_column_inverse(1)[of x "2 * m" "m * m"] that N by (simp add: mult.assoc)
  have n1: "(r + 1) mod N < N" using r by simp
  let ?a = "ring_host RoundRobinPods m r" and ?b = "ring_host RoundRobinPods m ((r + 1) mod N)"
  have ne: "?a div (m * m) \<noteq> ?b div (m * m)" by (rule ring_hop_crosses[OF r N])
  then have "?a div m \<noteq> ?b div m" by (metis div_mult2_eq)
  then have "unat (ring_hops k RoundRobinPods m N r) = 6"
    unfolding ring_hops_def using fat_tree_hops_nat[OF k less[OF r] less[OF n1]] ne by simp
  then show ?thesis by (simp add: word_unat_eq_iff)
qed

lemma build_all_reduce_ok:
  assumes fits: "all_reduce_fits cfg m N D"
  shows "\<exists>sc ports. build_all_reduce cfg = Some sc \<and> all_reduce_built cfg m N ports sc \<and> run_ready (asc_sim sc) D 0"
proof -
  define w where "w = ac_workload cfg"
  define top where "top = ac_topology cfg"
  define n where "n = 2 * m * m * m"
  define S where "S = 2 * (N - 1) * N"
  note F = fits[unfolded all_reduce_fits_def Let_def, folded w_def top_def n_def S_def]
  have fft: "fat_tree_fits top m" using F by blast
  have k: "arity (ft_k top) m" and m: "1 \<le> m" "m \<le> 23" using fft by (auto simp: fat_tree_fits_def arity_def)
  note W = arity_words[OF k]
  obtain f rt where f: "build_fat_tree top = Some f" "build_shortest_path f = Some rt" "fabric_ready f rt"
    "reset_state f = f" "host_count f = n" "node_count f = 5 * m * m + n"
    using fat_tree_ok[OF fft] W(9,10) by (auto simp: n_def)
  have fo: "fabric_ok f" using f(3) by (simp add: fabric_ready_def)
  have "m * m * m \<le> 134217728" using cube_bounds(2)[of m] m by simp
  then have n: "n < 2 ^ 32" by (simp add: n_def)
  have "S < 2 ^ 32" using F by simp
  then have N: "2 \<le> N" "N \<le> n" "2 * (N - 1) * N < 2 ^ 32" using F by (blast, blast, simp only: S_def)
  note N31 = ring_ranks_bound[OF N(1,3)]
  have mtu: "0 < ap_mtu_bytes w" "unat (ap_mtu_bytes w) \<le> 9216"
    and load: "0 < ap_load_permille w" "ap_load_permille w \<le> 1000" using F by blast+
  define params where "params = w\<lparr>ap_fat_tree_k := ft_k top\<rparr>"
  have pv: "ap_seed params = ap_seed w" "ap_buffer_bytes params = ap_buffer_bytes w" "ap_mtu_bytes params = ap_mtu_bytes w"
    "ap_window_pkts params = ap_window_pkts w" "ap_gpu_count params = ap_gpu_count w" "ap_load_permille params = ap_load_permille w"
    "ap_placement params = ap_placement w" "ap_fat_tree_k params = ft_k top" by (simp_all add: params_def)
  let ?\<sigma> = "ring_host (ap_placement w) m"
  have place: "placement_fits f params m N"
    using F N(2) k f(5) by (auto simp: placement_fits_def pv n_def split: RingPlacement.split)
  have rf: "ring_fits f params m N"
    unfolding ring_fits_def ring_ranks_def pv f(5) using F N n place by auto
  obtain ar ports where ar: "make_ring_all_reduce f params = Some ar" "ring_built f params m N ports ar"
    using make_ring_all_reduce_ok[OF rf] F by (auto simp: pv)
  note B = ar(2)[unfolded ring_built_def pv]
  have spec: "ar_flows ar ! (s * N + r) = ring_spec f w (ar_chunk_bytes ar) ?\<sigma> ports N s r" if "s < 2 * (N - 1)" "r < N" for s r
    using B that by (simp add: ring_spec_def pv)
  have idx: "\<exists>s r. i = s * N + r \<and> s < 2 * (N - 1) \<and> r < N" if "i < S" for i
    using that N(1) by (intro exI[of _ "i div N"] exI[of _ "i mod N"]) (simp add: S_def less_mult_imp_div_less)
  have chunk: "unat (ar_chunk_bytes ar) = chunk_size w N" "0 < ar_chunk_bytes ar"
    using B F N(1) by (simp_all add: chunk_size_def word_less_nat_alt div_greater_zero_iff)
  have \<sigma>: "?\<sigma> r < n" if "r < N" for r using ring_host_less[OF place that] f(5) pv(7) by simp
  have fit: "flow_fits f i (ar_flows ar ! i)" if i: "i < length (ar_flows ar)" for i
  proof -
    have "length (ar_flows ar) = S" using B by (simp add: S_def)
    then obtain s r where sr: "i = s * N + r" "s < 2 * (N - 1)" "r < N" using idx[of i] i by auto
    have r1: "(r + 1) mod N < N" "(r + 1) mod N \<noteq> r" using sr(3) N(1) by (auto simp: mod_Suc)
    have "?\<sigma> r = ?\<sigma> ((r + 1) mod N) \<longleftrightarrow> r = (r + 1) mod N"
      by (rule inj_on_eq_iff[OF ring_host_inj[OF place, unfolded pv(7)]]) (use sr(3) r1(1) in simp_all)
    then have "?\<sigma> r \<noteq> ?\<sigma> ((r + 1) mod N)" using r1(2) by simp
    then have ne: "fab_hosts f ! ?\<sigma> r \<noteq> fab_hosts f ! ?\<sigma> ((r + 1) mod N)"
      using fab_hosts_inj[OF fo] \<sigma>[OF sr(3)] \<sigma>[OF r1(1)] f(5) by simp
    have dep: "id_index (id_at ((s - 1) * N + (r + N - 1) mod N) :: flow_id) < s * N + r" if "0 < s"
    proof -
      have "(s - 1) * N + (r + N - 1) mod N < (s - 1) * N + N" using N(1) by simp
      also have "\<dots> = s * N" using that by (cases s) simp_all
      finally have lt: "(s - 1) * N + (r + N - 1) mod N < s * N" .
      moreover have "s * N \<le> 2 * (N - 1) * N" using sr(2) by (intro mult_le_mono1) simp
      ultimately have "(s - 1) * N + (r + N - 1) mod N < 2 ^ 32" using N(3) by linarith
      then show ?thesis using lt by simp
    qed
    have "\<not> id_valid (id_invalid :: flow_id)" by (simp add: id_valid_def id_invalid_def)
    then show ?thesis
      using ne dep \<sigma>[OF sr(3)] \<sigma>[OF r1(1)] mtu load chunk(2) f(5) spec[OF sr(2,3)] sr(1)
      by (auto simp: flow_fits_def ring_spec_def default_flow_spec_def)
  qed
  have packs: "packets_of x = chunk_packs w N" "window_of x = chunk_window w N" if "x \<in> set (ar_flows ar)" for x
  proof -
    obtain i where "i < S" "x = ar_flows ar ! i" using \<open>x \<in> set (ar_flows ar)\<close> B by (auto simp: in_set_conv_nth S_def)
    then obtain s r where "x = ring_spec f w (ar_chunk_bytes ar) ?\<sigma> ports N s r" using idx spec by blast
    then show "packets_of x = chunk_packs w N" "window_of x = chunk_window w N"
      using chunk(1) by (simp_all add: packets_of_def chunk_packs_def window_of_def chunk_window_def ring_spec_def)
  qed
  have len: "length (ar_flows ar) = S" using B by (simp add: S_def)
  have sums: "sum_list (map packets_of (ar_flows ar)) = S * chunk_packs w N"
    "sum_list (map window_of (ar_flows ar)) = S * chunk_window w N"
    using sum_list_const[of "ar_flows ar" packets_of] sum_list_const[of "ar_flows ar" window_of] packs len by blast+
  have gpus: "unat (ar_gpus ar) = N" "ar_gpus ar = of_nat N" using B N31 by (auto simp: word_unat_eq_iff unat_of_nat_small)
  obtain hops mx un where scan: "fold_opt (scan_hop (ft_k top) ar) [0..<N] (0, 0, True) = Some (hops, mx, un)"
    and hops: "hops = ring_hops (ft_k top) (ap_placement w) m N 0"
      "un \<longleftrightarrow> (\<forall>r < N. ring_hops (ft_k top) (ap_placement w) m N r = ring_hops (ft_k top) (ap_placement w) m N 0)"
      "\<forall>r < N. ring_hops (ft_k top) (ap_placement w) m N r \<le> mx" "\<exists>r < N. ring_hops (ft_k top) (ap_placement w) m N r = mx"
    using scan_hops[of N ar "ap_placement w" m "ft_k top"] N(1) N31 gpus(2) B by auto
  have "mx \<in> {2, 4, 6}" using hops(4) fat_tree_hops_values unfolding ring_hops_def by metis
  then have tw: "transport_within (ac_transport cfg) (ft_host_link top) (ap_mtu_bytes w) mx D" using F by blast
  then obtain tr where tr: "sized_transport (ac_transport cfg) (ft_host_link top) (ap_mtu_bytes w) mx = Some tr"
    "0 < tc_rto_ns tr" "unat (tc_rto_ns tr) \<le> D" by (auto simp: transport_within_def split: option.splits)
  note trf = sized_transport_fields[OF tr(1)]
  define s0 where "s0 = set_transport tr (sim_new f rt)"
  have "\<exists>s. add_flows (ar_flows ar) s0 = Some s \<and> setup_ok s \<and> frozen s = f \<and> sim_transport s = tr
    \<and> sim_specs s = ar_flows ar \<and> map unat (tots s) = map packets_of (ar_flows ar)"
  proof (rule loaded_fabric[OF f(3,4) _ s0_def fit])
    show "sim_transport s0 = tr" by (simp add: s0_def set_transport_def)
    show "length (ar_flows ar) < 2 ^ 32 - 1" "sum_list (map packets_of (ar_flows ar)) < 2 ^ 32"
      "sum_list (map window_of (ar_flows ar)) < 2 ^ 31" unfolding sums len using F by blast+
  qed
  then obtain s where s: "add_flows (ar_flows ar) s0 = Some s" "setup_ok s" "frozen s = f" "sim_transport s = tr"
    "sim_specs s = ar_flows ar" "map unat (tots s) = map packets_of (ar_flows ar)" by blast
  have rate: "lp_rate (ft_host_link top) \<noteq> 0" using F by (simp add: link_within_def)
  obtain ser ack_ser se where parts: "serialization_ns (ucast (ap_mtu_bytes w)) (lp_rate (ft_host_link top)) = Some ser"
    "serialization_ns (tc_ack_bytes tr) (lp_rate (ft_host_link top)) = Some ack_ser"
    "serialization_is_exact (ucast (ap_mtu_bytes w)) (lp_rate (ft_host_link top)) = Some se"
    using serialization_some[OF rate] by metis
  have free: "ack_is_free (tc_ack_bytes tr) (lp_rate (ft_host_link top)) = Some (ack_ser = 0)"
    using parts(2) by (simp add: ack_is_free_def)
  let ?c = "un \<and> hops = kFatTreeSameEdgeHops \<and> ar_chunk_exact ar \<and> lp_rate (ft_host_link top) = lp_rate (ft_fabric_link top)
    \<and> lp_prop_delay_ns (ft_host_link top) = lp_prop_delay_ns (ft_fabric_link top)
    \<and> se \<and> ack_ser = 0 \<and> (ser * 1000) mod ucast (ap_load_permille w) = 0"
  have c: "?c \<longrightarrow> ser \<noteq> 0" using exact_takes_time[OF _ mtu(1) parts(1)] parts(3) by auto
  obtain ex where ex: "and_also ?c (window_is_sufficient (ap_window_pkts w) (ar_chunk_packets ar) hops ser ack_ser
      (lp_prop_delay_ns (ft_host_link top))) = Some ex" using window_test_some[OF c] by (metis (no_types))
  define sh where "sh = (if un then hops else mx)"
  let ?sc = "\<lparr>asc_sim = s, asc_gpus = ar_gpus ar, asc_steps = ar_steps ar, asc_chunk_packets = ar_chunk_packets ar,
    asc_hops = sh, asc_chunk_bytes = ar_chunk_bytes ar,
    asc_analytical_ns = all_reduce_analytical_ns (ar_steps ar) (ar_chunk_packets ar) sh ser
      ((ser * 1000) div ucast (ap_load_permille w)) (lp_prop_delay_ns (ft_host_link top)),
    asc_routing = ac_routing cfg, asc_seed = ap_seed w, asc_uniform_hops = un, asc_analytical_exact = ex\<rparr>"
  have lnz: "ap_load_permille w \<noteq> 0" using load(1) by auto
  have "build_all_reduce cfg = Some ?sc"
    unfolding build_all_reduce_def Let_def w_def[symmetric] top_def[symmetric] params_def[symmetric] pv
    using f(1,2) ar(1) scan gpus(1) tr(1) parts free ex s(1) lnz by (simp add: fabric_simps sh_def flip: s0_def)
  moreover have "all_reduce_built cfg m N ports ?sc"
  proof -
    have cp: "unat (ar_chunk_packets ar) = chunk_packs w N"
    proof -
      let ?spec = "default_flow_spec\<lparr>fs_size_bytes := ar_chunk_bytes ar, fs_mtu_bytes := ap_mtu_bytes w\<rparr>"
      have p: "packets_of ?spec = chunk_packs w N" using chunk(1) by (simp add: packets_of_def chunk_packs_def)
      have "1 \<le> S" using N(1) by (simp add: S_def)
      then have "1 * chunk_packs w N \<le> S * chunk_packs w N" by (rule mult_le_mono1)
      moreover have "S * chunk_packs w N < 2 ^ 32" using F by blast
      ultimately have "packets_of ?spec < 2 ^ 32" unfolding p by linarith
      then show ?thesis using packets_total_exact[of ?spec] mtu(1) p B by simp
    qed
    obtain r where r: "r < N" "ring_hops (ft_k top) (ap_placement w) m N r = mx" using hops(4) by blast
    have sh: "sh = mx"
    proof (cases un)
      case True
      then have "ring_hops (ft_k top) (ap_placement w) m N r = hops" using hops(1,2) r(1) by blast
      then show ?thesis using True r(2) by (simp add: sh_def)
    qed (simp add: sh_def)
    have v: "frozen (asc_sim ?sc) = f" "sim_specs (asc_sim ?sc) = ar_flows ar" "asc_chunk_bytes ?sc = ar_chunk_bytes ar"
      "asc_hops ?sc = mx" "asc_uniform_hops ?sc = un" "asc_gpus ?sc = ar_gpus ar" "asc_steps ?sc = ar_steps ar"
      "asc_chunk_packets ?sc = ar_chunk_packets ar"
      "asc_analytical_ns ?sc = all_reduce_analytical_ns (ar_steps ar) (ar_chunk_packets ar) mx ser
        (ser * 1000 div ucast (ap_load_permille w)) (lp_prop_delay_ns (ft_host_link top))" using s(3,5) sh by simp_all
    have st: "unat (ar_steps ar) = 2 * (N - 1)" "length (ar_flows ar) = 2 * (N - 1) * N" using B by blast+
    show ?thesis
      unfolding all_reduce_built_def Let_def w_def[symmetric] top_def[symmetric] v
      using f(1) parts(1) gpus(1) st chunk(1) cp spec hops(2-4) by blast
  qed
  moreover have "run_ready s D 0"
  proof (rule run_ready_loaded[OF s(2)])
    show "transport_ok s" using tw tr(2) trf by (simp add: transport_ok_def s(4) transport_within_def)
    show "ports_from (frozen s) {ft_host_link top, ft_fabric_link top}" using fat_tree_ports[OF fft f(1)] s(3) by simp
    show "\<forall>l \<in> {ft_host_link top, ft_fabric_link top}. link_within l D" using F by blast
    show "unat (tc_rto_ns (sim_transport s)) \<le> D" using tr(3) s(4) by simp
    have "fs_start_ns (ar_flows ar ! i) = 0" if "i < S" for i
      using idx[OF that] spec by (auto simp: ring_spec_def)
    then show "starts_by s 0" using s(5) len by (simp add: starts_by_def)
    have "((4 * (5 * m * m + n) + 6) * unat (tc_max_attempts (ac_transport cfg)) * (S * chunk_packs w N) + S) * D < 2 ^ 64"
      using F by blast
    then show "0 + ((4 * node_count (frozen s) + 6) * max_tries s * sum_list (map unat (tots s)) + nflows s) * D < 2 ^ 64"
      unfolding s(3,5,6) sums f(6) max_tries_def s(4) trf(2) len add_0 .
    show "D < 2 ^ 64" using F by blast
  qed
  ultimately show ?thesis by (metis AllReduceScenario.select_convs(1))
qed

end
