(* ===== verification/Smoke_Runs.thy ===== *)
theory Smoke_Runs
  imports Scenario_Runs
begin

text \<open>
  The smoke scenario: built on a leaf-spine fabric that fits, it is ready to run, and the
  hop count of its closed form is the length of the shortest path of its flow.
\<close>

definition smoke_packets :: "SmokeConfig \<Rightarrow> nat" where
  "smoke_packets cfg = ceil_div (unat (sm_flow_bytes cfg)) (unat (sm_mtu_bytes cfg))"

definition smoke_fits :: "SmokeConfig \<Rightarrow> nat \<Rightarrow> bool" where
  "smoke_fits cfg D \<longleftrightarrow> (let top = sm_topology cfg; S = unat (ls_spine_count top); L = unat (ls_leaf_count top);
       H = unat (ls_hosts_per_leaf top); P = smoke_packets cfg in
     leaf_spine_fits top \<and> unat (sm_src_host cfg) < L * H \<and> unat (sm_dst_host cfg) < L * H \<and> sm_src_host cfg \<noteq> sm_dst_host cfg
     \<and> 0 < sm_mtu_bytes cfg \<and> unat (sm_mtu_bytes cfg) \<le> 9216 \<and> 0 < sm_flow_bytes cfg
     \<and> P < 2 ^ 32 \<and> max 1 (min (unat (sm_window_pkts cfg)) P) < 2 ^ 31
     \<and> link_within (ls_host_link top) D \<and> link_within (ls_fabric_link top) D
     \<and> (\<forall>h \<in> {2, 4}. transport_within default_transport (ls_host_link top) (sm_mtu_bytes cfg) h D)
     \<and> ((4 * (S + L + L * H) + 6) * 8 * P + 1) * D < 2 ^ 64 \<and> D < 2 ^ 64)"

definition smoke_built :: "SmokeConfig \<Rightarrow> SmokeScenario \<Rightarrow> bool" where
  "smoke_built cfg sc \<longleftrightarrow> (let f = frozen (ss_sim sc); src = fab_hosts f ! unat (sm_src_host cfg); dst = fab_hosts f ! unat (sm_dst_host cfg) in
     build_leaf_spine (sm_topology cfg) = Some f
     \<and> (\<exists>ser. serialization_ns (ucast (sm_mtu_bytes cfg)) (lp_rate (ls_host_link (sm_topology cfg))) = Some ser
          \<and> ss_analytical_ns sc = analytical_fct_ns (ss_packets sc) (ss_hops sc) ser (lp_prop_delay_ns (ls_host_link (sm_topology cfg))))
     \<and> sim_specs (ss_sim sc) = [default_flow_spec\<lparr>fs_src := src, fs_dst := dst, fs_size_bytes := sm_flow_bytes cfg,
       fs_mtu_bytes := sm_mtu_bytes cfg, fs_window_pkts := sm_window_pkts cfg\<rparr>]
     \<and> id_index (ss_flow sc) = 0 \<and> unat (ss_packets sc) = smoke_packets cfg
     \<and> min_hops (links f) (id_index src) (id_index dst) (unat (ss_hops sc)))"

lemma build_smoke_ok:
  assumes fits: "smoke_fits cfg D"
  shows "\<exists>sc. build_smoke cfg = Some sc \<and> smoke_built cfg sc \<and> run_ready (ss_sim sc) D 0"
proof -
  define top where "top = sm_topology cfg"
  define S where "S = unat (ls_spine_count top)"
  define L where "L = unat (ls_leaf_count top)"
  define H where "H = unat (ls_hosts_per_leaf top)"
  define P where "P = smoke_packets cfg"
  note F = fits[unfolded smoke_fits_def Let_def, folded top_def, folded S_def L_def H_def P_def]
  have lf: "leaf_spine_fits top" using F by blast
  obtain f rt where f: "build_leaf_spine top = Some f" "build_shortest_path f = Some rt" "fabric_ready f rt"
    "reset_state f = f" "node_count f = S + L + L * H" "host_count f = L * H"
    "\<And>h g. h < L * H \<Longrightarrow> g < L * H \<Longrightarrow> min_hops (links f) (id_index (fab_hosts f ! h)) (id_index (fab_hosts f ! g))
         (if g = h then 0 else if g div H = h div H then 2 else 4)"
    using leaf_spine_ok[OF lf S_def L_def H_def] by blast
  have fo: "fabric_ok f" using f(3) by (simp add: fabric_ready_def)
  define a where "a = unat (sm_src_host cfg)"
  define b where "b = unat (sm_dst_host cfg)"
  have ab: "a < L * H" "b < L * H" "a \<noteq> b" using F by (auto simp: a_def b_def word_unat_eq_iff)
  have mtu: "0 < sm_mtu_bytes cfg" "unat (sm_mtu_bytes cfg) \<le> 9216" "0 < sm_flow_bytes cfg" using F by blast+
  have at: "host_at f (sm_src_host cfg) = Some (fab_hosts f ! a)" "host_at f (sm_dst_host cfg) = Some (fab_hosts f ! b)"
    using ab f(6) by (simp_all add: host_at_def a_def b_def host_count_def fabric_simps)
  define hops where "hops = (if sm_src_host cfg div ls_hosts_per_leaf top = sm_dst_host cfg div ls_hosts_per_leaf top
    then kLeafSpineSameLeafHops else kLeafSpineCrossLeafHops)"
  have same: "sm_src_host cfg div ls_hosts_per_leaf top = sm_dst_host cfg div ls_hosts_per_leaf top \<longleftrightarrow> b div H = a div H"
    by (auto simp: word_unat_eq_iff unat_div a_def b_def H_def)
  have uh: "unat hops = (if b div H = a div H then 2 else 4)" "hops \<in> {2, 4}"
    by (simp_all add: hops_def same kLeafSpineSameLeafHops_def kLeafSpineCrossLeafHops_def)
  have tw: "transport_within default_transport (ls_host_link top) (sm_mtu_bytes cfg) hops D" using F uh(2) by blast
  then obtain tr where tr: "sized_transport default_transport (ls_host_link top) (sm_mtu_bytes cfg) hops = Some tr"
    "0 < tc_rto_ns tr" "unat (tc_rto_ns tr) \<le> D" by (auto simp: transport_within_def split: option.splits)
  note trf = sized_transport_fields[OF tr(1)]
  define s0 where "s0 = set_transport tr (sim_new f rt)"
  define spec where "spec = default_flow_spec\<lparr>fs_src := fab_hosts f ! a, fs_dst := fab_hosts f ! b, fs_size_bytes := sm_flow_bytes cfg,
       fs_mtu_bytes := sm_mtu_bytes cfg, fs_window_pkts := sm_window_pkts cfg\<rparr>"
  have spv: "packets_of spec = P" "window_of spec = max 1 (min (unat (sm_window_pkts cfg)) P)"
    by (simp_all add: spec_def packets_of_def window_of_def P_def smoke_packets_def)
  have "fab_hosts f ! a \<noteq> fab_hosts f ! b" using fab_hosts_inj[OF fo] ab f(6) by simp
  then have fit: "flow_fits f i ([spec] ! i)" if "i < length [spec]" for i
    using that ab f(6) mtu by (auto simp: flow_fits_def spec_def default_flow_spec_def id_valid_def id_invalid_def)
  have "\<exists>s. add_flows [spec] s0 = Some s \<and> setup_ok s \<and> frozen s = f \<and> sim_transport s = tr
    \<and> sim_specs s = [spec] \<and> map unat (tots s) = map packets_of [spec]"
  proof (rule loaded_fabric[OF f(3,4) _ s0_def fit])
    show "sim_transport s0 = tr" by (simp add: s0_def set_transport_def)
    have "P < 2 ^ 32" "max 1 (min (unat (sm_window_pkts cfg)) P) < 2 ^ 31" using F by blast+
    then show "sum_list (map packets_of [spec]) < 2 ^ 32" "sum_list (map window_of [spec]) < 2 ^ 31"
      using spv by simp_all
    have "(1 :: nat) < 2 ^ 32 - 1" by simp
    then show "length [spec] < 2 ^ 32 - 1" by (simp only: list.size One_nat_def add_0)
  qed
  then obtain s where s: "add_flows [spec] s0 = Some s" "setup_ok s" "frozen s = f" "sim_transport s = tr"
    "sim_specs s = [spec]" "map unat (tots s) = [P]" using spv by auto
  then obtain fid where fid: "add_flow spec s0 = Some (fid, s)" by (auto simp: add_flows_def bind_eq_Some_conv)
  have "setup_ok s0" unfolding s0_def setup_transport by (rule setup_new) (simp add: f)
  moreover have s0: "frozen s0 = f" "sim_specs s0 = []" by (simp_all add: s0_def set_transport_def sim_new_def f)
  ultimately have "fid = id_at 0"
    using fid by (auto simp: add_flow_def Let_def bind_eq_Some_conv)
  then have i0: "id_index fid = 0" by simp
  have rate: "lp_rate (ls_host_link top) \<noteq> 0" using F by (simp add: link_within_def)
  obtain ser ack_ser packets se where parts: "serialization_ns (ucast (sm_mtu_bytes cfg)) (lp_rate (ls_host_link top)) = Some ser"
    "serialization_ns (tc_ack_bytes tr) (lp_rate (ls_host_link top)) = Some ack_ser"
    "packets_for (sm_flow_bytes cfg) (sm_mtu_bytes cfg) = Some packets"
    "serialization_is_exact (ucast (sm_mtu_bytes cfg)) (lp_rate (ls_host_link top)) = Some se"
    using serialization_some[OF rate] packets_for_some[OF mtu(1)] by metis
  have up: "unat packets = P"
  proof -
    have "packets_of spec < 2 ^ 32" using spv(1) F by simp
    then show ?thesis using packets_total_exact[of spec] parts(3) mtu(1) spv(1)
      by (auto simp: packets_for_def spec_def bind_eq_Some_conv)
  qed
  let ?c = "(lp_rate (ls_host_link top) = lp_rate (ls_fabric_link top)
    \<and> lp_prop_delay_ns (ls_host_link top) = lp_prop_delay_ns (ls_fabric_link top))
    \<and> sm_flow_bytes cfg mod ucast (sm_mtu_bytes cfg) = 0 \<and> se"
  have c: "?c \<longrightarrow> ser \<noteq> 0" using exact_takes_time[OF _ mtu(1) parts(1)] parts(4) by auto
  obtain ex where ex: "and_also ?c (window_is_sufficient (sm_window_pkts cfg) packets hops ser ack_ser
      (lp_prop_delay_ns (ls_host_link top))) = Some ex" using window_test_some[OF c] by (metis (no_types))
  let ?sc = "\<lparr>ss_sim = s, ss_flow = fid, ss_packets = packets, ss_hops = hops,
    ss_analytical_ns = analytical_fct_ns packets hops ser (lp_prop_delay_ns (ls_host_link top)), ss_analytical_exact = ex\<rparr>"
  have "build_smoke cfg = Some ?sc"
    unfolding build_smoke_def Let_def top_def[symmetric] hops_def[symmetric]
    using f(1,2) ab at f(6) parts tr(1) ex fid
    by (simp add: fabric_simps flip: s0_def a_def b_def spec_def)
  moreover have "smoke_built cfg ?sc"
    unfolding smoke_built_def Let_def using s i0 up uh(1) f(7)[OF ab(1,2)] ab(3) f(1) parts(1)
    by (auto simp: spec_def a_def b_def P_def top_def)
  moreover have "run_ready s D 0"
  proof (rule run_ready_loaded[OF s(2)])
    show "transport_ok s" using tw tr(2) trf by (simp add: transport_ok_def s(4) transport_within_def)
    show "ports_from (frozen s) {ls_host_link top, ls_fabric_link top}" using leaf_spine_ports[OF lf f(1)] s(3) by simp
    show "\<forall>l \<in> {ls_host_link top, ls_fabric_link top}. link_within l D" using F by blast
    show "unat (tc_rto_ns (sim_transport s)) \<le> D" using tr(3) s(4) by simp
    show "starts_by s 0" using s(5) by (simp add: starts_by_def spec_def default_flow_spec_def)
    have "((4 * (S + L + L * H) + 6) * 8 * P + 1) * D < 2 ^ 64" using F by blast
    moreover have "unat (tc_max_attempts default_transport) = 8" by (simp add: default_transport_def)
    ultimately show "0 + ((4 * node_count (frozen s) + 6) * max_tries s * sum_list (map unat (tots s)) + nflows s) * D < 2 ^ 64"
      unfolding s(3,5,6) f(5) max_tries_def s(4) trf(2) by simp
    show "D < 2 ^ 64" using F by blast
  qed
  ultimately show ?thesis by (metis SmokeScenario.select_convs(1))
qed

end
