(* ===== verification/Sim_Clock.thy ===== *)
theory Sim_Clock
  imports Sim_Reach
begin

text \<open>
  When a given packet can be where it is.  \<open>B u\<close> is the earliest time at which the copy of
  packet \<open>x\<close> of flow \<open>i\<close> may stand at node \<open>u\<close>; \<open>on_time\<close> says that every copy in a
  queue, in transmission or on a wire respects it.  The network operations preserve it
  whenever one transmission over one link costs what \<open>B\<close> charges for a hop.
\<close>

section \<open>Copies of one packet\<close>

definition copy_of :: "nat \<Rightarrow> u32 \<Rightarrow> packet \<Rightarrow> bool" where
  "copy_of i x k \<longleftrightarrow> pkt_kind k = Data \<and> id_index (pkt_flow k) = i \<and> pkt_index k = x"

lemma copy_of_plain [simp]: "copy_of i x (plain k) = copy_of i x k"
  by (simp add: copy_of_def)

definition queued_on_time :: "nat \<Rightarrow> u32 \<Rightarrow> (nat \<Rightarrow> nat) \<Rightarrow> fabric \<Rightarrow> Nanos \<Rightarrow> bool" where
  "queued_on_time i x B f now \<longleftrightarrow> (\<forall>p < port_count f. \<forall>k \<in> set (ring_list (port_queue (fab_ports f ! p))).
     copy_of i x k \<longrightarrow> B (owner_index f p) \<le> unat now)"

definition event_on_time :: "nat \<Rightarrow> u32 \<Rightarrow> (nat \<Rightarrow> nat) \<Rightarrow> fabric \<Rightarrow> event \<Rightarrow> bool" where
  "event_on_time i x B f e \<longleftrightarrow> (let p = id_index (ev_port e); k = port_in_flight (fab_ports f ! p) in
     (ev_type e = TxComplete \<and> copy_of i x k \<longrightarrow> (\<forall>ser.
        serialization_ns (ucast (pkt_bytes k)) (port_rate (fab_ports f ! p)) = Some ser \<longrightarrow>
        B (owner_index f p) + unat ser \<le> unat (ev_time e)))
     \<and> (ev_type e = Arrive \<and> copy_of i x (ev_packet e) \<longrightarrow> B (peer_index f p) \<le> unat (ev_time e)))"

definition on_time :: "nat \<Rightarrow> u32 \<Rightarrow> (nat \<Rightarrow> nat) \<Rightarrow> sim \<Rightarrow> bool" where
  "on_time i x B s \<longleftrightarrow> queued_on_time i x B (sim_fabric s) (sim_now s)
     \<and> (\<forall>e \<in># events s. event_on_time i x B (sim_fabric s) e)"

lemma event_on_time_stamp [simp]:
  "event_on_time i x B f (eq_stamp q e) = event_on_time i x B f e"
  by (simp add: event_on_time_def)

lemma on_time_cong:
  "sim_fabric s' = sim_fabric s \<Longrightarrow> sim_queue s' = sim_queue s \<Longrightarrow> sim_now s' = sim_now s \<Longrightarrow>
   on_time i x B s' = on_time i x B s"
  by (simp add: on_time_def)

lemma on_time_push:
  assumes "on_time i x B s" "eq_inv (sim_queue s)" "event_on_time i x B (sim_fabric s) e"
  shows "on_time i x B (push_event e s)"
  using assms by (auto simp: on_time_def evq.push_items)

text \<open>Injections and timers carry no packet.\<close>

lemma event_on_time_other: "ev_type e \<in> {Inject, Timeout} \<Longrightarrow> event_on_time i x B f e"
  by (auto simp: event_on_time_def Let_def)

section \<open>One port changes\<close>

lemma peer_index_put:
  assumes "p < port_count f" "port_peer_node q = port_peer_node (fab_ports f ! p)"
  shows "peer_index (put_fab p q f) j = peer_index f j"
  using assms by (cases "j = p") (simp_all add: peer_index_def port_count_def)

lemma owner_index_put:
  assumes "p < port_count f" "port_owner q = port_owner (fab_ports f ! p)"
  shows "owner_index (put_fab p q f) j = owner_index f j"
  using assms by (cases "j = p") (simp_all add: port_count_def)

lemma queued_on_time_put:
  assumes "queued_on_time i x B f now" "p < port_count f" "port_owner q = port_owner (fab_ports f ! p)"
    "\<And>k. k \<in> set (ring_list (port_queue q)) \<Longrightarrow> copy_of i x k \<Longrightarrow>
       k \<in> set (ring_list (port_queue (fab_ports f ! p))) \<or> B (owner_index f p) \<le> unat now"
  shows "queued_on_time i x B (put_fab p q f) now"
  unfolding queued_on_time_def port_count_put owner_index_put[OF assms(2,3)]
proof (intro allI impI ballI)
  fix j k assume j: "j < port_count f" "k \<in> set (ring_list (port_queue (fab_ports (put_fab p q f) ! j)))" "copy_of i x k"
  show "B (owner_index f j) \<le> unat now"
  proof (cases "j = p")
    case True
    then have "k \<in> set (ring_list (port_queue q))" using j(2) assms(2) by simp
    then show ?thesis using assms(1) assms(4)[of k] j True by (auto simp: queued_on_time_def)
  next
    case False
    then show ?thesis using assms(1) j by (auto simp: queued_on_time_def)
  qed
qed

lemma event_on_time_put:
  assumes "event_on_time i x B f e" "p < port_count f" "port_owner q = port_owner (fab_ports f ! p)"
    "port_peer_node q = port_peer_node (fab_ports f ! p)" "port_rate q = port_rate (fab_ports f ! p)"
    "port_in_flight q = port_in_flight (fab_ports f ! p) \<or> \<not> (ev_type e = TxComplete \<and> id_index (ev_port e) = p)"
  shows "event_on_time i x B (put_fab p q f) e"
proof (cases "id_index (ev_port e) = p")
  case True
  then show ?thesis
    using assms unfolding event_on_time_def Let_def owner_index_put[OF assms(2,3)] peer_index_put[OF assms(2,4)]
    by auto
next
  case False
  then show ?thesis
    using assms(1) unfolding event_on_time_def Let_def owner_index_put[OF assms(2,3)] peer_index_put[OF assms(2,4)]
    by simp
qed

lemma no_pending_tx:
  assumes "count (tx_pending E) p = 0" "e \<in># E"
  shows "\<not> (ev_type e = TxComplete \<and> id_index (ev_port e) = p)"
proof
  assume "ev_type e = TxComplete \<and> id_index (ev_port e) = p"
  then have "p \<in># tx_pending E" using assms(2) by (auto simp: tx_pending_def)
  then show False using assms(1) by (metis count_eq_zero_iff)
qed

section \<open>The network operations\<close>

lemma sum_no_wrap:
  assumes "unat (t :: u64) + D < 2 ^ 64" "unat d \<le> D"
  shows "unat (t + d) = unat t + unat d"
  by (rule unat_add_small) (use assms in simp)

lemma started_on_time:
  assumes "ev_type e = TxComplete" "id_index (ev_port e) = p" "port_in_flight (fab_ports f ! p) = k"
    "serialization_ns (ucast (pkt_bytes k)) (port_rate (fab_ports f ! p)) = Some ser"
    "copy_of i x k \<Longrightarrow> B (owner_index f p) + unat ser \<le> unat (ev_time e)"
  shows "event_on_time i x B f e"
  using assms by (auto simp: event_on_time_def Let_def)

lemma enqueue_on_time:
  assumes net: "net_inv s" and pid: "id_index pid < port_count (sim_fabric s)"
    and flow: "id_index (pkt_flow k) < length (sim_results s)"
    and on: "on_time i x B s"
    and due: "copy_of i x k \<Longrightarrow> B (owner_index (sim_fabric s) (id_index pid)) \<le> unat (sim_now s)"
    and D: "delays_ok (sim_fabric s) D" "unat (sim_now s) + D < 2 ^ 64"
    and run: "enqueue pid k s = Some s'"
  shows "on_time i x B s'"
proof -
  let ?p = "id_index pid" and ?f = "sim_fabric s"
  define p where "p = fab_ports ?f ! ?p"
  note on = on[unfolded on_time_def]
  have q: "eq_inv (sim_queue s)" and cnt: "count (tx_pending (events s)) ?p = of_bool (port_busy p)"
    using net pid by (auto simp: net_inv_def ports_ok_def p_def)
  from net pid flow p_def show ?thesis
  proof (cases rule: enqueue_cases)
    case (drop st res)
    have q1: "queued_on_time i x B (put_fab ?p (p\<lparr>port_packets_dropped := port_packets_dropped p + 1,
             port_bytes_dropped := port_bytes_dropped p + ucast (pkt_bytes k)\<rparr>) ?f) (sim_now s)"
      by (rule queued_on_time_put) (use on pid in \<open>auto simp: p_def\<close>)
    have "event_on_time i x B (put_fab ?p (p\<lparr>port_packets_dropped := port_packets_dropped p + 1,
             port_bytes_dropped := port_bytes_dropped p + ucast (pkt_bytes k)\<rparr>) ?f) e" if "e \<in># events s" for e
      by (rule event_on_time_put) (use on pid that in \<open>auto simp: p_def\<close>)
    then show ?thesis using q1 drop(1) run by (simp add: on_time_def)
  next
    case (wait ring)
    have q1: "queued_on_time i x B (put_fab ?p (p\<lparr>port_queue := ring\<rparr>) ?f) (sim_now s)"
      by (rule queued_on_time_put) (use on pid due wait(4) in \<open>auto simp: p_def\<close>)
    have "event_on_time i x B (put_fab ?p (p\<lparr>port_queue := ring\<rparr>) ?f) e" if "e \<in># events s" for e
      by (rule event_on_time_put) (use on pid that in \<open>auto simp: p_def\<close>)
    then show ?thesis using q1 wait(1) run by (simp add: on_time_def)
  next
    case (send ring ser)
    define q' where "q' = p\<lparr>port_in_flight := k, port_queue := ring, port_busy := True\<rparr>"
    define t where "t = s\<lparr>sim_fabric := put_fab ?p q' ?f\<rparr>"
    define e where "e = ev_tx_complete (sim_now s + ser) pid"
    have q1: "queued_on_time i x B (put_fab ?p q' ?f) (sim_now s)"
      by (rule queued_on_time_put) (use on pid send(4) in \<open>auto simp: p_def q'_def\<close>)
    have "event_on_time i x B (put_fab ?p q' ?f) e" if "e \<in># events s" for e
    proof (rule event_on_time_put)
      have "count (tx_pending (events s)) ?p = 0" using cnt send(2) by simp
      from no_pending_tx[OF this that]
      show "port_in_flight q' = port_in_flight (fab_ports ?f ! ?p) \<or> \<not> (ev_type e = TxComplete \<and> id_index (ev_port e) = ?p)"
        by blast
    qed (use on pid that in \<open>auto simp: p_def q'_def\<close>)
    then have "on_time i x B t" using q1 by (simp add: on_time_def t_def)
    moreover have "event_on_time i x B (put_fab ?p q' ?f) e"
    proof (rule started_on_time)
      show "serialization_ns (ucast (pkt_bytes k)) (port_rate (fab_ports (put_fab ?p q' ?f) ! ?p)) = Some ser"
        using send(7) pid by (simp add: q'_def)
      have "unat ser \<le> D" using D(1) send(7) pid by (auto simp: delays_ok_def p_def)
      then have "unat (sim_now s + ser) = unat (sim_now s) + unat ser" using sum_no_wrap D(2) by blast
      moreover have "owner_index (put_fab ?p q' ?f) ?p = owner_index ?f ?p"
        using owner_index_put[OF pid] by (simp add: q'_def p_def)
      ultimately show "copy_of i x k \<Longrightarrow> B (owner_index (put_fab ?p q' ?f) ?p) + unat ser \<le> unat (ev_time e)"
        using due by (simp add: e_def)
    qed (use pid in \<open>simp_all add: e_def q'_def p_def\<close>)
    ultimately have "on_time i x B (push_event e t)" using q by (intro on_time_push) (simp_all add: t_def)
    then show ?thesis using send(1) run by (simp add: e_def t_def q'_def)
  qed
qed


text \<open>The port whose completion was just popped: its packet starts its flight, the next one its
  transmission.\<close>

lemma on_tx_complete_on_time:
  assumes q: "eq_inv (sim_queue s)" and ra: "rates_ok (sim_fabric s)"
    and pid: "id_index (ev_port e) < port_count (sim_fabric s)"
    and po: "ports_ok (sim_fabric s) (add_mset (id_index (ev_port e)) (tx_pending (events s)))"
    and ty: "ev_type e = TxComplete" and now: "sim_now s = ev_time e"
    and on: "on_time i x B s" "event_on_time i x B (sim_fabric s) e"
    and D: "delays_ok (sim_fabric s) D" "unat (sim_now s) + D < 2 ^ 64"
    and cost: "\<And>ser. copy_of i x (port_in_flight (fab_ports (sim_fabric s) ! id_index (ev_port e))) \<Longrightarrow>
        serialization_ns (ucast (pkt_bytes (port_in_flight (fab_ports (sim_fabric s) ! id_index (ev_port e)))))
          (port_rate (fab_ports (sim_fabric s) ! id_index (ev_port e))) = Some ser \<Longrightarrow>
        B (peer_index (sim_fabric s) (id_index (ev_port e))) \<le> B (owner_index (sim_fabric s) (id_index (ev_port e)))
          + unat ser + unat (port_prop_delay_ns (fab_ports (sim_fabric s) ! id_index (ev_port e)))"
    and run: "on_tx_complete e s = Some s'"
  shows "on_time i x B s'"
proof -
  define p where "p = id_index (ev_port e)"
  define f where "f = sim_fabric s"
  define c where "c = fab_ports f ! p"
  define k where "k = port_in_flight c"
  note pid = pid[folded p_def f_def] and po = po[folded p_def f_def] and ra = ra[folded f_def]
  have ri: "ring_inv (port_queue c)" and busy: "port_busy c" and cnt: "count (tx_pending (events s)) p = 0"
    using ports_okD[OF po pid] unfolding c_def by (cases "port_busy (fab_ports f ! p)"; simp)+
  define c1 where "c1 = c\<lparr>port_packets_sent := port_packets_sent c + 1,
             port_bytes_sent := port_bytes_sent c + ucast (pkt_bytes k)\<rparr>"
  define a where "a = ev_arrive (sim_now s + port_prop_delay_ns c) (ev_port e) k"
  define s1 where "s1 = push_event a (s\<lparr>sim_fabric := put_fab p c1 f\<rparr>)"
  have pid1: "p < port_count (sim_fabric s1)" using pid by (simp add: s1_def)
  have c1: "fab_ports (sim_fabric s1) ! p = c1" using pid by (simp add: s1_def)
  have q1: "eq_inv (sim_queue s1)" using q by (simp add: s1_def evq.push_invar)
  note own = owner_index_put[OF pid, of c1] and peer = peer_index_put[OF pid, of c1]
  have on1: "on_time i x B s1"
    unfolding s1_def
  proof (rule on_time_push)
    have "queued_on_time i x B (put_fab p c1 f) (sim_now s)"
      by (rule queued_on_time_put) (use on pid in \<open>auto simp: on_time_def c1_def c_def f_def\<close>)
    moreover have "event_on_time i x B (put_fab p c1 f) y" if "y \<in># events s" for y
      by (rule event_on_time_put) (use on pid that in \<open>auto simp: on_time_def c1_def c_def f_def\<close>)
    ultimately show "on_time i x B (s\<lparr>sim_fabric := put_fab p c1 f\<rparr>)" by (simp add: on_time_def)
    have "B (peer_index f p) \<le> unat (ev_time a)" if cp: "copy_of i x k"
    proof -
      obtain ser where ser: "serialization_ns (ucast (pkt_bytes k)) (port_rate c) = Some ser"
        using ra pid by (auto simp: rates_ok_def serialization_ns_def c_def)
      have "B (owner_index f p) + unat ser \<le> unat (sim_now s)"
        using on(2) ty cp ser now unfolding event_on_time_def Let_def
        by (simp add: p_def[symmetric] f_def[symmetric] c_def[symmetric] k_def)
      moreover have "B (peer_index f p) \<le> B (owner_index f p) + unat ser + unat (port_prop_delay_ns c)"
        using cost[folded p_def f_def, folded c_def, folded k_def, OF cp ser] by (simp add: c_def)
      moreover have "unat (port_prop_delay_ns c) \<le> D" using D(1) pid by (simp add: delays_ok_def f_def c_def)
      then have "unat (sim_now s + port_prop_delay_ns c) = unat (sim_now s) + unat (port_prop_delay_ns c)"
        using sum_no_wrap D(2) by blast
      ultimately show ?thesis by (simp add: a_def)
    qed
    then show "event_on_time i x B (sim_fabric (s\<lparr>sim_fabric := put_fab p c1 f\<rparr>)) a"
      using peer by (simp add: event_on_time_def Let_def a_def p_def[symmetric] c1_def c_def)
  qed (use q in simp)
  have step: "on_tx_complete e s = (if ring_list (port_queue c) \<noteq> [] then start_tx (ev_port e) s1
      else put_port (ev_port e) (c1\<lparr>port_busy := False\<rparr>) s1)"
    using pid fabric_port_Some[of "ev_port e" f] put_port_Some[of "ev_port e" s c1]
      length_ring_list[of "port_queue c"]
    by (auto simp: on_tx_complete_def Let_def s1_def a_def c1_def c_def k_def p_def f_def ring_empty_def
        simp del: length_ring_list)
  have none: "\<not> (ev_type y = TxComplete \<and> id_index (ev_port y) = p)" if y: "y \<in># events s1" for y
  proof (rule no_pending_tx[OF _ y])
    show "count (tx_pending (events s1)) p = 0"
      using cnt q by (simp add: s1_def evq.push_items views_add a_def)
  qed
  have moved: "on_time i x B (s1\<lparr>sim_fabric := put_fab p d (sim_fabric s1)\<rparr>)"
    if d: "port_owner d = port_owner c" "port_peer_node d = port_peer_node c" "port_rate d = port_rate c"
      "set (ring_list (port_queue d)) \<subseteq> set (ring_list (port_queue c))" for d
  proof -
    have "queued_on_time i x B (put_fab p d (sim_fabric s1)) (sim_now s1)"
      by (rule queued_on_time_put[OF _ pid1])
         (use on1 d c1 in \<open>auto simp: on_time_def c1_def\<close>)
    moreover have "event_on_time i x B (put_fab p d (sim_fabric s1)) y" if y: "y \<in># events s1" for y
      by (rule event_on_time_put[OF _ pid1])
         (use on1 d c1 y none[OF y] in \<open>auto simp: on_time_def c1_def\<close>)
    ultimately show ?thesis by (simp add: on_time_def)
  qed
  show ?thesis
  proof (cases "ring_list (port_queue c)")
    case Nil
    then have "s' = s1\<lparr>sim_fabric := put_fab p (c1\<lparr>port_busy := False\<rparr>) (sim_fabric s1)\<rparr>"
      using run step put_port_Some[of "ev_port e" s1 "c1\<lparr>port_busy := False\<rparr>"] pid1 by (simp add: p_def)
    then show ?thesis using moved[of "c1\<lparr>port_busy := False\<rparr>"] by (simp add: c1_def)
  next
    case (Cons y ys)
    obtain ring ser where st: "ring_list ring = ys"
      "serialization_ns (ucast (pkt_bytes y)) (port_rate c) = Some ser"
      "start_tx (ev_port e) s1 = Some (push_event (ev_tx_complete (sim_now s1 + ser) (ev_port e))
        (s1\<lparr>sim_fabric := put_fab p
           (c1\<lparr>port_in_flight := y, port_queue := ring, port_busy := True\<rparr>) (sim_fabric s1)\<rparr>))"
      using start_tx_spec[of "ev_port e" s1 c1 y ys] pid1 c1 ri Cons ra pid
      by (auto simp: p_def c1_def rates_ok_def c_def)
    define d where "d = c1\<lparr>port_in_flight := y, port_queue := ring, port_busy := True\<rparr>"
    define t where "t = s1\<lparr>sim_fabric := put_fab p d (sim_fabric s1)\<rparr>"
    have "on_time i x B t"
      unfolding t_def by (rule moved) (use Cons st(1) in \<open>auto simp: d_def c1_def\<close>)
    moreover have "event_on_time i x B (sim_fabric t) (ev_tx_complete (sim_now s1 + ser) (ev_port e))"
    proof (rule started_on_time)
      show "serialization_ns (ucast (pkt_bytes y)) (port_rate (fab_ports (sim_fabric t) ! p)) = Some ser"
        using st(2) pid1 by (simp add: t_def d_def c1_def)
      assume cp: "copy_of i x y"
      have "B (owner_index f p) \<le> unat (sim_now s)"
        using on(1) pid cp Cons by (auto simp: on_time_def queued_on_time_def f_def c_def)
      moreover have "unat ser \<le> D" using D(1) st(2) pid by (auto simp: delays_ok_def f_def c_def)
      then have "unat (sim_now s1 + ser) = unat (sim_now s1) + unat ser"
        using sum_no_wrap D(2) by (simp add: s1_def)
      moreover have "owner_index (sim_fabric t) p = owner_index f p"
        using owner_index_put[OF pid1, of d p] c1 own[of p] pid by (simp add: t_def d_def c1_def c_def)
      ultimately show "B (owner_index (sim_fabric t) p) + unat ser \<le> unat (ev_time (ev_tx_complete (sim_now s1 + ser) (ev_port e)))"
        by (simp add: s1_def)
    qed (use pid1 in \<open>simp_all add: t_def d_def p_def\<close>)
    ultimately have "on_time i x B (push_event (ev_tx_complete (sim_now s1 + ser) (ev_port e)) t)"
      using q1 by (intro on_time_push) (simp_all add: t_def)
    then show ?thesis using run step Cons st(3) by (simp add: t_def d_def)
  qed
qed

end
