(* ===== verification/Sim_Pace.thy ===== *)
theory Sim_Pace
  imports Sim_Clock
begin

text \<open>
  Pacing: packet \<open>n\<close> of a flow is not sent before the start of the flow plus \<open>n\<close> periods,
  first transmission or retransmission.  \<open>try_send\<close> preserves this, and with it the earliest
  arrival times of the copies it puts on the network.
\<close>

section \<open>When a packet is due\<close>

definition due :: "sim \<Rightarrow> nat \<Rightarrow> nat \<Rightarrow> nat" where
  "due s i n = unat (res_start_ns (sim_results s ! i)) + n * unat (tx_period_ns (sim_tx s ! i))"

definition paced :: "sim \<Rightarrow> nat \<Rightarrow> bool" where
  "paced s i \<longleftrightarrow> (\<forall>x < tx_next_seq (sim_tx s ! i). due s i (unat x) \<le> unat (sim_now s))
     \<and> (tx_next_seq (sim_tx s ! i) \<noteq> 0 \<longrightarrow>
          due s i (unat (tx_next_seq (sim_tx s ! i))) \<le> unat (tx_next_send_ns (sim_tx s ! i)))"

lemma due_mono: "m \<le> n \<Longrightarrow> due s i m \<le> due s i n"
  by (simp add: due_def)

lemma due_Suc: "due s i (Suc n) = due s i n + unat (tx_period_ns (sim_tx s ! i))"
  by (simp add: due_def)

lemma due_cong:
  "res_start_ns (sim_results s' ! i) = res_start_ns (sim_results s ! i) \<Longrightarrow>
   tx_period_ns (sim_tx s' ! i) = tx_period_ns (sim_tx s ! i) \<Longrightarrow> due s' i = due s i"
  by (simp add: due_def fun_eq_iff)

section \<open>Sending\<close>

definition source_node :: "sim \<Rightarrow> nat \<Rightarrow> nat" where
  "source_node s i = owner_index (frozen s) (id_index (frt_src_nic (sim_froutes s ! i)))"

text \<open>The state of sender \<open>j\<close> while it may put packets on the network at the current time, with the
  copies of packet \<open>x\<close> of flow \<open>i\<close> watched.\<close>

definition may_send :: "nat \<Rightarrow> nat \<Rightarrow> nat \<Rightarrow> u32 \<Rightarrow> (nat \<Rightarrow> nat) \<Rightarrow> sim \<Rightarrow> bool" where
  "may_send j D i x B s \<longleftrightarrow> setup_ok s \<and> net_inv s \<and> j < nflows s
     \<and> tx_retx_head (sim_tx s ! j) < wins s ! j \<and> (\<forall>y \<in> set (retx s j). y < tx_next_seq (sim_tx s ! j))
     \<and> tx_next_seq (sim_tx s ! j) \<le> tots s ! j
     \<and> res_start_ns (sim_results s ! j) \<le> sim_now s \<and> paced s j
     \<and> run_delays s D \<and> unat (sim_now s) + D < 2 ^ 64
     \<and> on_time i x B s \<and> (j = i \<longrightarrow> B (source_node s i) \<le> due s i (unat x))"

lemma may_sendD:
  assumes "may_send j D i x B s"
  shows "setup_ok s" "net_inv s" "j < nflows s" "tx_retx_head (sim_tx s ! j) < wins s ! j"
    "y \<in> set (retx s j) \<Longrightarrow> y < tx_next_seq (sim_tx s ! j)" "tx_next_seq (sim_tx s ! j) \<le> tots s ! j"
    "res_start_ns (sim_results s ! j) \<le> sim_now s" "paced s j" "run_delays s D"
    "unat (sim_now s) + D < 2 ^ 64" "on_time i x B s" "j = i \<Longrightarrow> B (source_node s i) \<le> due s i (unat x)"
  using assms by (auto simp: may_send_def)

lemma send_packet_enqueue:
  assumes "send_packet f idx s = Some s'"
  shows "\<exists>t k a. enqueue (frt_src_nic (sim_froutes s ! id_index f)) k t = Some s' \<and> sim_fabric t = sim_fabric s
    \<and> sim_now t = sim_now s \<and> sim_queue t = eq_push (ev_timeout (sim_now s + tc_rto_ns (sim_transport s)) f idx a) (sim_queue s)
    \<and> pkt_kind k = Data \<and> pkt_flow k = f \<and> pkt_index k = idx \<and> length (sim_results t) = length (sim_results s)
    \<and> pkt_bytes k = payload (sim_specs s ! id_index f) idx"
proof -
  obtain t k a where "enqueue (frt_src_nic (sim_froutes s ! id_index f)) k t = Some s'" "sim_fabric t = sim_fabric s"
    "sim_now t = sim_now s" "sim_queue t = eq_push (ev_timeout (sim_now s + tc_rto_ns (sim_transport s)) f idx a) (sim_queue s)"
    "pkt_kind k = Data" "pkt_flow k = f" "pkt_index k = idx" "length (sim_results t) = length (sim_results s)"
    "pkt_bytes k = payload (sim_specs s ! id_index f) idx"
    using assms
    by (simp add: send_packet_def Let_def checked_iffs get_tx_def put_tx_def get_result_def put_result_def
        put_pkt_state_def pkt_slot_def payload_def split: if_splits) (fastforce simp: checked_iffs)+
  then show ?thesis by blast
qed


lemma send_packet_on_time:
  assumes ok: "setup_ok s" and net: "net_inv s" and f: "id_index f < nflows s" and on: "on_time i x B s"
    and at: "id_index f = i \<Longrightarrow> idx = x \<Longrightarrow> B (source_node s i) \<le> unat (sim_now s)"
    and D: "run_delays s D" "unat (sim_now s) + D < 2 ^ 64"
    and run: "send_packet f idx s = Some s'"
  shows "on_time i x B s'"
proof -
  obtain t k a where t: "enqueue (frt_src_nic (sim_froutes s ! id_index f)) k t = Some s'" "sim_fabric t = sim_fabric s"
    "sim_now t = sim_now s" "sim_queue t = eq_push (ev_timeout (sim_now s + tc_rto_ns (sim_transport s)) f idx a) (sim_queue s)"
    "pkt_kind k = Data" "pkt_flow k = f" "pkt_index k = idx" "length (sim_results t) = length (sim_results s)"
    using send_packet_enqueue[OF run] by blast
  let ?e = "ev_timeout (sim_now s + tc_rto_ns (sim_transport s)) f idx a"
  have q: "eq_inv (sim_queue s)" using net by (simp add: net_inv_def)
  have E: "events t = add_mset (eq_stamp (sim_queue s) ?e) (events s)" using q t(4) by (simp add: evq.push_items)
  have net_t: "net_inv t"
    using net q unfolding net_inv_def E by (simp add: t(2,4) views_add evq.push_invar)
  have "event_on_time i x B (sim_fabric s) (eq_stamp (sim_queue s) ?e)" by (simp add: event_on_time_other)
  then have on_t: "on_time i x B t" using on unfolding on_time_def E by (simp add: t(2,3))
  have nic: "id_index (frt_src_nic (sim_froutes s ! id_index f)) < port_count (sim_fabric s)"
    by (rule nic_in_range(1)[OF ok f])
  show ?thesis
  proof (rule enqueue_on_time[OF net_t _ _ on_t _ _ _ t(1)])
    show "id_index (frt_src_nic (sim_froutes s ! id_index f)) < port_count (sim_fabric t)" using nic t(2) by simp
    show "id_index (pkt_flow k) < length (sim_results t)" using f t(6,8) setup_okD(7)[OF ok] by simp
    show "delays_ok (sim_fabric t) D" "unat (sim_now t) + D < 2 ^ 64"
      using D delays_frozen[of s] t(2,3) by (simp_all add: run_delays_def)
    assume "copy_of i x k"
    then have c: "id_index f = i" "idx = x" using t(5-7) by (simp_all add: copy_of_def)
    have "owner_index (sim_fabric s) (id_index (frt_src_nic (sim_froutes s ! i))) = source_node s i"
      using nic c(1) frozen_port(7)[OF refl, of _ "sim_fabric s"] by (simp add: source_node_def)
    then show "B (owner_index (sim_fabric t) (id_index (frt_src_nic (sim_froutes s ! id_index f)))) \<le> unat (sim_now t)"
      using at[OF c] c(1) t(2,3) by simp
  qed
qed

text \<open>One turn of the window loop: the ring or the sequence counter advances, a packet goes out.\<close>

lemma transmit_may_send:
  assumes m: "may_send j D i x B s" and f: "id_index f = j" and gate: "tx_next_send_ns (sim_tx s ! j) \<le> sim_now s"
    and same: "tx_window tx = tx_window (sim_tx s ! j)" "tx_packets_total tx = tx_packets_total (sim_tx s ! j)"
      "tx_period_ns tx = tx_period_ns (sim_tx s ! j)" "tx_next_send_ns tx = tx_next_send_ns (sim_tx s ! j)"
    and head: "tx_retx_head tx < wins s ! j"
    and ring: "\<forall>y \<in> set (retx_list (retx_buf s j) tx). y < tx_next_seq tx" and tot: "tx_next_seq tx \<le> tots s ! j"
    and idx: "idx < tx_next_seq tx"
    and seq: "tx_next_seq tx = tx_next_seq (sim_tx s ! j) \<or> unat (tx_next_seq tx) = Suc (unat (tx_next_seq (sim_tx s ! j)))"
    and run: "put_tx f tx s = Some s1" "send_packet f idx s1 = Some s2"
  shows "may_send j D i x B s2 \<and> fixed s2 = fixed s"
proof -
  note M = may_sendD[OF m]
  let ?n = "unat (tx_next_seq (sim_tx s ! j))" and ?now = "unat (sim_now s)"
  have L: "j < length (sim_tx s)" using setup_okD(4)[OF M(1)] M(3) by simp
  have s1: "s1 = s\<lparr>sim_tx := (sim_tx s)[j := tx]\<rparr>" using put_tx_Some[OF M(1), of f tx] f M(3) run(1) by simp
  have fx1: "fixed s1 = fixed s" using setup_put_tx[OF L same(1,2)] by (simp add: s1)
  have ok1: "setup_ok s1" and n1: "nflows s1 = nflows s" using setup_ok_cong[OF fx1] M(1) fixed_nflows[OF fx1] by simp_all
  have net1: "net_inv s1" using M(2) by (simp add: net_inv_def s1)
  have ix: "idx < tots s1 ! j" using idx tot setupD(7)[OF fx1] by simp
  have S: "sent_state s1 j idx s2"
    using send_packet_spec[OF ok1 net1 f _ ix] M(3) n1 run(2) by auto
  note S = S[unfolded sent_state_def]
  have cf: "common_frame s1 s2" and net2: "net_inv s2" and buf2: "retx_buf s2 = retx_buf s1"
    and rc: "map res_core (sim_results s2) = map res_core (sim_results s1)" using S by blast+
  have tx2: "sim_tx s2 ! j = tx\<lparr>tx_in_flight := tx_in_flight tx + 1, tx_next_send_ns := sim_now s + tx_period_ns tx\<rparr>"
    using S L by (simp add: s1)
  have fx: "fixed s2 = fixed s" using cf fx1 by (simp add: common_frame_def)
  have now2: "sim_now s2 = sim_now s" using cf by (simp add: common_frame_def s1)
  have per: "periods s1 = periods s" using L same(3) by (simp add: periods_def s1 map_update_same)
  have D2: "run_delays s2 D" using M(9) run_delays_cong[OF fx, of D] cf per by (simp add: common_frame_def)
  have LR: "j < length (sim_results s1)" using setup_okD(7)[OF M(1)] M(3) by (simp add: s1)
  have st2: "res_start_ns (sim_results s2 ! j) = res_start_ns (sim_results s ! j)"
    using core_fields(1)[OF core_eq[OF rc LR]] by (simp add: s1)
  have due2: "due s2 j = due s j" by (rule due_cong) (simp_all add: st2 tx2 same(3))
  have due_n: "due s j ?n \<le> ?now"
  proof (cases "tx_next_seq (sim_tx s ! j) = 0")
    case True
    then show ?thesis using M(7) by (simp add: due_def word_le_nat_alt)
  next
    case False
    then show ?thesis using M(8) gate by (simp add: paced_def word_le_nat_alt)
  qed
  have all_due: "due s j (unat y) \<le> ?now" if "y < tx_next_seq tx" for y
  proof -
    have "unat y \<le> ?n" using that seq by (auto simp: word_less_nat_alt)
    then show ?thesis using due_mono[of "unat y" ?n s j] due_n by simp
  qed
  have "unat (tx_period_ns tx) \<le> D"
    using M(9) L same(3) by (auto simp: run_delays_def periods_def)
  then have add: "unat (sim_now s + tx_period_ns tx) = ?now + unat (tx_period_ns tx)"
    using sum_no_wrap M(10) by blast
  have "due s j (unat (tx_next_seq tx)) \<le> due s j (Suc ?n)" using seq by (intro due_mono) auto
  then have "due s j (unat (tx_next_seq tx)) \<le> ?now + unat (tx_period_ns tx)"
    using due_n same(3) by (simp add: due_Suc)
  then have paced2: "paced s2 j"
    using all_due add by (simp add: paced_def due2 now2 tx2)
  have R2: "retx s2 j = retx_list (retx_buf s j) tx"
  proof -
    have "retx_buf s1 = retx_buf s" using view_congs(3)[OF fx1] by (simp add: s1)
    then show ?thesis using buf2 by (simp add: retx_def tx2 retx_list_def)
  qed
  have src: "source_node s1 = source_node s" "source_node s2 = source_node s"
    using setupD(1,5)[OF fx] by (simp_all add: source_node_def fun_eq_iff s1)
  have on2: "on_time i x B s2"
  proof (rule send_packet_on_time[OF ok1 net1 _ _ _ _ _ run(2)])
    show "id_index f < nflows s1" using f M(3) n1 by simp
    show "on_time i x B s1" using M(11) on_time_cong[of s1 s] by (simp add: s1)
    show "run_delays s1 D" "unat (sim_now s1) + D < 2 ^ 64"
      using M(9,10) run_delays_cong[OF fx1 per, of D] by (simp_all add: s1)
    assume c: "id_index f = i" "idx = x"
    then have "B (source_node s i) \<le> due s j (unat idx)" using M(12) f by simp
    then show "B (source_node s1 i) \<le> unat (sim_now s1)" using all_due[OF idx] unfolding src by (simp add: s1)
  qed
  show ?thesis
    unfolding may_send_def
  proof (intro conjI impI)
    show "setup_ok s2" using setup_ok_cong[OF fx] M(1) by simp
    show "j < nflows s2" using fixed_nflows[OF fx] M(3) by simp
    show "tx_retx_head (sim_tx s2 ! j) < wins s2 ! j" using head setupD(6)[OF fx] by (simp add: tx2)
    show "\<forall>y \<in> set (retx s2 j). y < tx_next_seq (sim_tx s2 ! j)" using ring by (simp add: R2 tx2)
    show "tx_next_seq (sim_tx s2 ! j) \<le> tots s2 ! j" using tot setupD(7)[OF fx] by (simp add: tx2)
    show "res_start_ns (sim_results s2 ! j) \<le> sim_now s2" using M(7) by (simp add: st2 now2)
    show "unat (sim_now s2) + D < 2 ^ 64" using M(10) by (simp add: now2)
    show "B (source_node s2 i) \<le> due s2 i (unat x)" if "j = i" using M(12)[OF that] due2 that by (simp add: src)
  qed (use net2 paced2 D2 on2 fx in simp_all)
qed

lemma may_send_put:
  assumes m: "may_send j D i x B s" and s1: "s1 = s\<lparr>sim_tx := (sim_tx s)[j := tx]\<rparr>"
    and same: "tx_window tx = tx_window (sim_tx s ! j)" "tx_packets_total tx = tx_packets_total (sim_tx s ! j)"
      "tx_period_ns tx = tx_period_ns (sim_tx s ! j)" "tx_next_send_ns tx = tx_next_send_ns (sim_tx s ! j)"
      "tx_next_seq tx = tx_next_seq (sim_tx s ! j)"
  shows "paced s1 j" "on_time i x B s1"
proof -
  note M = may_sendD[OF m]
  have L: "j < length (sim_tx s)" using setup_okD(4)[OF M(1)] M(3) by simp
  have "due s1 j = due s j" by (rule due_cong) (use L same in \<open>simp_all add: s1\<close>)
  then show "paced s1 j" using M(8) L same by (simp add: paced_def s1)
  show "on_time i x B s1" using M(11) on_time_cong[of s1 s] by (simp add: s1)
qed


lemma try_send_loop_paced:
  assumes "try_send_loop f base rbase s = Some s'" "id_index f = j"
    "base = of_nat (psum (tots s) j)" "rbase = of_nat (psum (wins s) j)" "may_send j D i x B s"
  shows "paced s' j \<and> on_time i x B s'"
proof -
  have "id_index f = j \<longrightarrow> base = of_nat (psum (tots s) j) \<longrightarrow> rbase = of_nat (psum (wins s) j) \<longrightarrow>
    may_send j D i x B s \<longrightarrow> paced s' j \<and> on_time i x B s'"
  proof (rule try_send_loop.raw_induct[OF _ assms(1)], intro impI)
  fix loop f base rbase s s'
  assume IH: "\<And>f base rbase s s'. loop f base rbase s = Some s' \<Longrightarrow> id_index f = j \<longrightarrow> base = of_nat (psum (tots s) j) \<longrightarrow>
      rbase = of_nat (psum (wins s) j) \<longrightarrow> may_send j D i x B s \<longrightarrow> paced s' j \<and> on_time i x B s'"
    and body: "(do {
     tx \<leftarrow> get_tx f s;
     if tx_in_flight tx < tx_window tx then
       if sim_now s < tx_next_send_ns tx then
         (if \<not> tx_send_scheduled tx then do {
            s \<leftarrow> put_tx f (tx\<lparr>tx_send_scheduled := True\<rparr>) s;
            Some (push_event (ev_inject (tx_next_send_ns tx) f) s)
          }
          else Some s)
       else do {
         (found, tx) \<leftarrow> scan_retx (sim_retx_ring s) (sim_pkt_state s) base rbase tx;
         case found of
           Some idx \<Rightarrow> do {
             s \<leftarrow> put_tx f tx s;
             s \<leftarrow> send_packet f idx s;
             loop f base rbase s
           }
         | None \<Rightarrow>
             if tx_next_seq tx \<ge> tx_packets_total tx then put_tx f tx s
             else do {
               s \<leftarrow> put_tx f (tx\<lparr>tx_next_seq := tx_next_seq tx + 1\<rparr>) s;
               s \<leftarrow> send_packet f (tx_next_seq tx) s;
               loop f base rbase s
             }
       }
     else Some s
   }) = Some s'"
    and fj: "id_index f = j" and bs: "base = of_nat (psum (tots s) j)" "rbase = of_nat (psum (wins s) j)"
    and m: "may_send j D i x B s"
  note M = may_sendD[OF m]
  define tx where "tx = sim_tx s ! j"
  have get: "get_tx f s = Some tx" using get_tx_Some[OF M(1), of f] fj M(3) by (simp add: tx_def)
  have win: "tx_window tx = wins s ! j" and tot: "tx_packets_total tx = tots s ! j"
    using setup_okD(17,18)[OF M(1,3)] by (simp_all add: tx_def)
  have R: "retx s j = retx_list (retx_buf s j) tx" by (simp add: retx_def tx_def)
  show "paced s' j \<and> on_time i x B s'"
  proof (cases "tx_in_flight tx < tx_window tx")
    case False
    then have "s' = s" using body get by simp
    then show ?thesis using M(8,11) by simp
  next
    case room: True
    show ?thesis
    proof (cases "sim_now s < tx_next_send_ns tx")
      case True
      show ?thesis
      proof (cases "tx_send_scheduled tx")
        case True
        then have "s' = s" using body get room \<open>sim_now s < tx_next_send_ns tx\<close> by simp
        then show ?thesis using M(8,11) by simp
      next
        case False
        define s1 where "s1 = s\<lparr>sim_tx := (sim_tx s)[j := tx\<lparr>tx_send_scheduled := True\<rparr>]\<rparr>"
        have "s' = push_event (ev_inject (tx_next_send_ns tx) f) s1"
          using body get room True False put_tx_Some[OF M(1), of f] fj M(3) by (simp add: s1_def)
        moreover have "paced s1 j" "on_time i x B s1"
          by (rule may_send_put[OF m s1_def]; simp add: tx_def)+
        moreover have "eq_inv (sim_queue s1)" using M(2) by (simp add: net_inv_def s1_def)
        ultimately show ?thesis
          using on_time_push[of i x B s1] by (simp add: event_on_time_other paced_def due_def)
      qed
    next
      case gate: False
      have Rin: "\<forall>y \<in> set (retx_list (retx_buf s j) tx). y < tots s ! j"
        using M(5,6) R by (metis less_le_trans)
      obtain A found h c where sc: "scan_retx (sim_retx_ring s) (sim_pkt_state s) base rbase tx
          = Some (found, tx\<lparr>tx_retx_head := h, tx_retx_count := c\<rparr>)" "h < tx_window tx"
        "case found of None \<Rightarrow> retx_list (retx_buf s j) tx = A \<and> c = 0
         | Some y \<Rightarrow> retx_list (retx_buf s j) tx
             = A @ y # retx_list (retx_buf s j) (tx\<lparr>tx_retx_head := h, tx_retx_count := c\<rparr>)
             \<and> \<not> bit (pst s j y) 1"
        using scan_retx_spec[OF M(1,3) win _ Rin] M(4) bs win by (auto simp: tx_def)
      define txs where "txs = tx\<lparr>tx_retx_head := h, tx_retx_count := c\<rparr>"
      have le: "tx_next_send_ns (sim_tx s ! j) \<le> sim_now s" using gate by (simp add: tx_def)
      show ?thesis
      proof (cases found)
        case (Some y)
        have Ry: "retx s j = A @ y # retx_list (retx_buf s j) txs" using sc(3) Some R by (simp add: txs_def)
        obtain s1 s2 where r: "put_tx f txs s = Some s1" "send_packet f y s1 = Some s2" "loop f base rbase s2 = Some s'"
          using body get room gate sc(1) Some by (auto simp: txs_def bind_eq_Some_conv)
        have "may_send j D i x B s2 \<and> fixed s2 = fixed s"
        proof (rule transmit_may_send[OF m fj le _ _ _ _ _ _ _ _ _ r(1,2)])
          show "\<forall>z \<in> set (retx_list (retx_buf s j) txs). z < tx_next_seq txs" "y < tx_next_seq txs"
            using M(5) Ry by (auto simp: txs_def tx_def)
        qed (use sc(2) win M(6) in \<open>simp_all add: txs_def tx_def\<close>)
        then show ?thesis using IH[OF r(3)] fj bs setupD(6,7)[of s2 s] by simp
      next
        case None
        have R0: "retx_list (retx_buf s j) txs = []" using sc(3) None by (simp add: txs_def retx_list_def circ_def)
        show ?thesis
        proof (cases "tx_next_seq tx \<ge> tx_packets_total tx")
          case True
          then have "s' = s\<lparr>sim_tx := (sim_tx s)[j := txs]\<rparr>"
            using body get room gate sc(1) None put_tx_Some[OF M(1), of f] fj M(3) by (simp add: txs_def)
          then show ?thesis using may_send_put[OF m] by (simp add: txs_def tx_def)
        next
          case False
          define txn where "txn = txs\<lparr>tx_next_seq := tx_next_seq tx + 1\<rparr>"
          obtain s1 s2 where r: "put_tx f txn s = Some s1" "send_packet f (tx_next_seq tx) s1 = Some s2"
            "loop f base rbase s2 = Some s'"
            using body get room gate sc(1) None False by (auto simp: txs_def txn_def bind_eq_Some_conv)
          have lt: "tx_next_seq tx < tx_packets_total tx" using False by simp
          have inc: "unat (tx_next_seq tx + 1) = Suc (unat (tx_next_seq tx))" using unat_inc[OF lt] .
          have "may_send j D i x B s2 \<and> fixed s2 = fixed s"
          proof (rule transmit_may_send[OF m fj le _ _ _ _ _ _ _ _ _ r(1,2)])
            show "\<forall>z \<in> set (retx_list (retx_buf s j) txn). z < tx_next_seq txn"
              using R0 by (simp add: txn_def txs_def retx_list_def)
            show "tx_next_seq tx < tx_next_seq txn" "tx_next_seq txn \<le> tots s ! j"
              using inc lt tot by (simp_all add: txn_def word_less_nat_alt word_le_nat_alt)
          qed (use sc(2) win inc in \<open>simp_all add: txn_def txs_def tx_def\<close>)
          then show ?thesis using IH[OF r(3)] fj bs setupD(6,7)[of s2 s] by simp
        qed
      qed
    qed
  qed
  qed
  then show ?thesis using assms(2-) by blast
qed

end
