(* ===== verification/Sim_Light.thy ===== *)
theory Sim_Light
  imports Sim_Pace
begin

text \<open>
  No flow beats the wire.  The watched packet \<open>x\<close> of flow \<open>i\<close> stands at no node earlier than
  its due time plus \<open>w\<close> for every hop it has made, \<open>w\<close> being what the packet costs on any
  link of the fabric.  Every handler preserves this, so the flow does not finish earlier than
  its last packet can arrive.
\<close>

section \<open>Earliest times\<close>

definition hops_left :: "sim \<Rightarrow> nat \<Rightarrow> nat \<Rightarrow> nat" where
  "hops_left s i u = hop_rank (frozen s) (unat (frt_dst_host (sim_froutes s ! i))) u"

definition path_length :: "sim \<Rightarrow> nat \<Rightarrow> nat" where
  "path_length s i = hops_left s i (source_node s i)"

definition earliest :: "sim \<Rightarrow> nat \<Rightarrow> u32 \<Rightarrow> nat \<Rightarrow> nat \<Rightarrow> nat" where
  "earliest s i x w u = due s i (unat x) + (path_length s i - hops_left s i u) * w"

definition arrival :: "sim \<Rightarrow> nat \<Rightarrow> u32 \<Rightarrow> nat \<Rightarrow> nat" where
  "arrival s i x w = due s i (unat x) + path_length s i * w"

text \<open>What packet \<open>x\<close> costs on every link, at least.\<close>

definition hop_cost :: "fabric \<Rightarrow> u16 \<Rightarrow> nat \<Rightarrow> bool" where
  "hop_cost F b w \<longleftrightarrow> (\<forall>p < port_count F. \<forall>ser. serialization_ns (ucast b) (port_rate (fab_ports F ! p)) = Some ser \<longrightarrow>
     w \<le> unat ser + unat (port_prop_delay_ns (fab_ports F ! p)))"

definition light :: "nat \<Rightarrow> u32 \<Rightarrow> nat \<Rightarrow> sim \<Rightarrow> bool" where
  "light i x w s \<longleftrightarrow> (\<forall>j < nflows s. paced s j) \<and> on_time i x (earliest s i x w) s
     \<and> (bit (pst s i x) 0 \<longrightarrow> arrival s i x w \<le> unat (sim_now s))
     \<and> (res_complete (sim_results s ! i) \<longrightarrow> arrival s i x w \<le> unat (res_finish_ns (sim_results s ! i)))"

lemma lightD:
  assumes "light i x w s"
  shows "j < nflows s \<Longrightarrow> paced s j" "on_time i x (earliest s i x w) s"
    "bit (pst s i x) 0 \<Longrightarrow> arrival s i x w \<le> unat (sim_now s)"
    "res_complete (sim_results s ! i) \<Longrightarrow> arrival s i x w \<le> unat (res_finish_ns (sim_results s ! i))"
  using assms by (auto simp: light_def)

lemma fixed_hops:
  assumes "fixed s' = fixed s"
  shows "hops_left s' = hops_left s" "source_node s' = source_node s" "path_length s' = path_length s"
proof -
  show h: "hops_left s' = hops_left s" "source_node s' = source_node s"
    using setupD(1,5)[OF assms] by (simp_all add: hops_left_def source_node_def fun_eq_iff)
  show "path_length s' = path_length s" by (simp add: path_length_def h fun_eq_iff)
qed

lemma period_at:
  assumes "periods s' = periods s" "setup_ok s" "setup_ok s'" "nflows s' = nflows s" "i < nflows s"
  shows "tx_period_ns (sim_tx s' ! i) = tx_period_ns (sim_tx s ! i)"
  using arg_cong[OF assms(1), of "\<lambda>xs. xs ! i"] assms(4,5) setup_okD(4)[OF assms(2)] setup_okD(4)[OF assms(3)]
  by (simp add: periods_def)

lemma earliest_cong:
  assumes "fixed s' = fixed s" "periods s' = periods s" "setup_ok s" "i < nflows s"
    "res_start_ns (sim_results s' ! i) = res_start_ns (sim_results s ! i)"
  shows "earliest s' i x w = earliest s i x w" "arrival s' i x w = arrival s i x w" "due s' i = due s i"
proof -
  have "setup_ok s'" using setup_ok_cong[OF assms(1)] assms(3) by simp
  then show d: "due s' i = due s i"
    by (intro due_cong period_at assms) (use fixed_nflows[OF assms(1)] in auto)
  show "earliest s' i x w = earliest s i x w" "arrival s' i x w = arrival s i x w"
    by (simp_all add: earliest_def arrival_def d fixed_hops[OF assms(1)] fun_eq_iff)
qed

lemma earliest_source: "earliest s i x w (source_node s i) = due s i (unat x)"
  by (simp add: earliest_def path_length_def)

lemma earliest_hop:
  assumes "hops_left s i u = Suc (hops_left s i v)"
  shows "earliest s i x w v \<le> earliest s i x w u + w"
proof -
  let ?L = "path_length s i" and ?h = "hops_left s i v"
  have "?L - ?h \<le> Suc (?L - Suc ?h)" by simp
  then have "(?L - ?h) * w \<le> Suc (?L - Suc ?h) * w" by (rule mult_le_mono1)
  then show ?thesis by (simp add: earliest_def assms)
qed

lemma earliest_home: "hops_left s i u = 0 \<Longrightarrow> earliest s i x w u = arrival s i x w"
  by (simp add: earliest_def arrival_def)

section \<open>Frames\<close>

lemma paced_cong:
  assumes "res_start_ns (sim_results s' ! j) = res_start_ns (sim_results s ! j)"
    "tx_period_ns (sim_tx s' ! j) = tx_period_ns (sim_tx s ! j)"
    "tx_next_seq (sim_tx s' ! j) = tx_next_seq (sim_tx s ! j)"
    "tx_next_send_ns (sim_tx s' ! j) = tx_next_send_ns (sim_tx s ! j)" "sim_now s \<le> sim_now s'" "paced s j"
  shows "paced s' j"
  using assms(3-6) due_cong[OF assms(1,2)] by (auto simp: paced_def word_le_nat_alt)

lemma light_frame:
  assumes l: "light i x w s" and ok: "setup_ok s" and i: "i < nflows s"
    and fx: "fixed s' = fixed s" and per: "periods s' = periods s" and now: "sim_now s \<le> sim_now s'"
    and pace: "\<And>j. j < nflows s \<Longrightarrow> paced s' j" and on: "on_time i x (earliest s i x w) s'"
    and same: "res_start_ns (sim_results s' ! i) = res_start_ns (sim_results s ! i)"
      "res_complete (sim_results s' ! i) = res_complete (sim_results s ! i)"
      "res_finish_ns (sim_results s' ! i) = res_finish_ns (sim_results s ! i)"
      "bit (pst s' i x) 0 = bit (pst s i x) 0"
  shows "light i x w s'"
  using lightD(3,4)[OF l] pace on now fixed_nflows[OF fx] earliest_cong[OF fx per ok i same(1)] same(2-4)
  by (auto simp: light_def word_le_nat_alt)

lemma net_frame_light:
  assumes l: "light i x w s" and ok: "setup_ok s" and i: "i < nflows s" and fr: "net_frame s s'"
    and on: "on_time i x (earliest s i x w) s'"
  shows "light i x w s'"
proof -
  note f = net_frameD[OF fr] and fx = setup_frame[OF fr]
  have L: "length (sim_results s) = nflows s" using setup_okD(7)[OF ok] .
  note c = core_fields[OF core_eq[OF f(7)], unfolded L]
  have "pst s' = pst s" using views_cong(1)[OF fx] f by (simp add: same_arrays_def)
  moreover have "paced s' j" if j: "j < nflows s" for j
    by (rule paced_cong[OF c(1)[OF j] _ _ _ _ lightD(1)[OF l j]]) (simp_all add: f)
  ultimately show ?thesis
    using light_frame[OF l ok i fx _ _ _ on] c[OF i] f by (simp add: periods_def)
qed

lemma flow_change_light:
  assumes l: "light i x w s" and ok: "setup_ok s" and i: "i < nflows s" and ch: "flow_change j s s1"
  shows "light i x w s1"
proof -
  note C = ch[unfolded flow_change_def]
  have fx: "fixed s1 = fixed s" and per: "periods s1 = periods s" using C by blast+
  have ok1: "setup_ok s1" and n: "nflows s1 = nflows s" using setup_ok_cong[OF fx] ok fixed_nflows[OF fx] by simp_all
  have st: "res_start_ns (sim_results s1 ! k) = res_start_ns (sim_results s ! k)" if "k < nflows s" for k
    using C that by (cases "k = j") auto
  have "paced s1 k" if k: "k < nflows s" for k
    by (rule paced_cong[OF st[OF k] period_at[OF per ok ok1 n k] _ _ _ lightD(1)[OF l k]])
       (use C k in \<open>cases "k = j"; auto\<close>)+
  moreover have "on_time i x (earliest s i x w) s1"
    using lightD(2)[OF l] on_time_cong[of s1 s] C by simp
  ultimately show ?thesis
    using light_frame[OF l ok i fx per _ _ _ st[OF i]] C i by (cases "i = j") auto
qed

lemma sender_frame_light:
  assumes l: "light i x w s" and ok: "setup_ok s" and i: "i < nflows s" and j: "j < nflows s"
    and fr: "sender_frame j s s'" and pace: "paced s' j" and on: "on_time i x (earliest s i x w) s'"
  shows "light i x w s'"
proof -
  note F = fr[unfolded sender_frame_def common_frame_def others_frame_def]
  have fx: "fixed s' = fixed s" and per: "periods s' = periods s" and now: "sim_now s' = sim_now s"
    and rc: "map res_core (sim_results s') = map res_core (sim_results s)" using F by blast+
  have L: "length (sim_results s) = nflows s" using setup_okD(7)[OF ok] .
  note c = core_fields[OF core_eq[OF rc], unfolded L]
  have "paced s' k" if k: "k < nflows s" for k
  proof (cases "k = j")
    case False
    then have "sim_tx s' ! k = sim_tx s ! k" using F k by blast
    then show ?thesis using paced_cong[OF c(1)[OF k] _ _ _ _ lightD(1)[OF l k]] now by simp
  qed (use pace in simp)
  moreover have "bit (pst s' i x) 0 = bit (pst s i x) 0" using F i by (cases "i = j") auto
  ultimately show ?thesis using light_frame[OF l ok i fx per _ _ on] c[OF i] now by simp
qed

section \<open>The event that is handled\<close>

lemma event_on_time_mono: "queued_on_time i x B f now \<Longrightarrow> now \<le> now' \<Longrightarrow> queued_on_time i x B f now'"
  by (fastforce simp: queued_on_time_def word_le_nat_alt)

lemma popped_light:
  assumes l: "light i x w s0" and inv: "sim_inv s0" and i: "i < nflows s0" and pop: "popped e s0 s"
  shows "light i x w s" "event_on_time i x (earliest s i x w) (sim_fabric s) e"
proof -
  note P = poppedD[OF pop]
  have ok: "setup_ok s0" using run_invD(1)[OF inv] .
  note E = earliest_cong[OF P(1,2) ok i, unfolded P(4), OF refl]
  have on0: "on_time i x (earliest s0 i x w) s0" using lightD(2)[OF l] .
  then show "event_on_time i x (earliest s i x w) (sim_fabric s) e"
    unfolding E(1) P(9) by (simp add: on_time_def P(13))
  have "on_time i x (earliest s0 i x w) s"
    using on0 event_on_time_mono[OF _ P(15)] by (simp add: on_time_def P(9,13))
  moreover have "paced s j" if "j < nflows s0" for j
    by (rule paced_cong[OF _ _ _ _ P(15) lightD(1)[OF l that]]) (simp_all add: P)
  ultimately show "light i x w s" using light_frame[OF l ok i P(1,2,15)] by (simp add: P)
qed


section \<open>Handlers\<close>

lemma try_send_paced:
  assumes m: "may_send (id_index f) D i x B s" and run: "try_send f s = Some s'"
  shows "paced s' (id_index f) \<and> on_time i x B s'"
proof -
  note M = may_sendD[OF m]
  show ?thesis
  proof (cases "tx_failed (sim_tx s ! id_index f)")
    case True
    then have "s' = s" using run get_tx_Some[OF M(1,3)] by (simp add: try_send_def)
    then show ?thesis using M(8,11) by simp
  next
    case False
    have "vget (sim_retx_offset s) (id_index f) = Some (of_nat (psum (wins s) (id_index f)))"
      using M(1,3) by (simp add: setup_ok_def vget_def)
    then have "try_send_loop f (of_nat (psum (tots s) (id_index f))) (of_nat (psum (wins s) (id_index f))) s = Some s'"
      using run False get_tx_Some[OF M(1,3)] base_slot(1)[OF M(1,3)] by (simp add: try_send_def)
    then show ?thesis using try_send_loop_paced m by blast
  qed
qed

lemma sender_op_light:
  assumes op: "sender_op f s0 s r" and l: "light i x w s" and ok: "setup_ok s" and i: "i < nflows s"
    and D: "run_delays s D" "unat (sim_now s) + D < 2 ^ 64" and r: "r = Some s'"
  shows "light i x w s'"
  using op unfolding sender_op_def
proof
  assume "\<exists>s1. r = Some s1 \<and> flow_change (id_index f) s s1 \<and> handled s0 s s1"
  then show ?thesis using flow_change_light[OF l ok i] r by blast
next
  assume "\<exists>s1. r = try_send f s1 \<and> ready_to_send (id_index f) s0 s s1"
  then obtain s1 where s1: "try_send f s1 = Some s'" "ready_to_send (id_index f) s0 s s1" using r by auto
  let ?j = "id_index f"
  have ri: "run_inv {?j} (\<lambda>_. 0) s1" and j: "?j < nflows s1" and st: "res_start_ns (sim_results s1 ! ?j) \<le> sim_now s1"
    and ch: "flow_change ?j s s1" using s1(2) by (auto simp: ready_to_send_def)
  have fx: "fixed s1 = fixed s" "periods s1 = periods s" "sim_now s1 = sim_now s"
    using ch by (simp_all add: flow_change_def)
  have i1: "i < nflows s1" using i fixed_nflows[OF fx(1)] by simp
  note I = run_invD[OF ri]
  have l1: "light i x w s1" by (rule flow_change_light[OF l ok i ch])
  have sok: "sender_ok (max_tries s1) (sim_tx s1 ! ?j) (pst s1 ?j) (att s1 ?j) (retx s1 ?j) (flow_timers s1 ?j)"
    using flow_invD(1)[OF I(5)[OF j]] by (simp add: sender_at_def)
  have "may_send ?j D i x (earliest s1 i x w) s1"
    unfolding may_send_def
    using I(1,4) j sender_okD(1,2)[OF sok] sender_ok_in_ring[OF sok] setup_okD(17,18)[OF I(1) j] st
      lightD(1)[OF l1 j] lightD(2)[OF l1] run_delays_cong[OF fx(1,2), of D] D fx(3)
    by (auto simp: earliest_source)
  from try_send_paced[OF this s1(1)] have p: "paced s' ?j" "on_time i x (earliest s1 i x w) s'" by auto
  obtain g where "send_done s1 ?j s' g" using finish_send[OF s1(2)] s1(1) by auto
  then have "sender_frame ?j s1 s'" by (simp add: send_done_def)
  then show ?thesis by (rule sender_frame_light[OF l1 I(1) i1 j _ p])
qed

text \<open>The packet that a busy port sends is one of the packets carried.\<close>

lemma in_flight_carried:
  assumes "p < port_count (sim_fabric s)" "port_busy (fab_ports (sim_fabric s) ! p)"
  shows "(AtPort p, plain (port_in_flight (fab_ports (sim_fabric s) ! p))) \<in># carried s"
proof -
  let ?f = "sim_fabric s"
  have "(AtPort p, plain (port_in_flight (fab_ports ?f ! p))) \<in># port_load p (fab_ports ?f ! p)"
    using assms(2) by (simp add: port_load_def)
  moreover have "port_load p (fab_ports ?f ! p) \<subseteq># fabric_load ?f"
    using assms(1) sum.remove[of "{..<port_count ?f}" p "\<lambda>j. port_load j (fab_ports ?f ! j)"]
    by (simp add: fabric_load_def)
  ultimately show ?thesis by (auto simp: carried_def dest: mset_subset_eqD)
qed

lemma copy_cost:
  assumes ok: "setup_ok s" and pk: "packet_ok s (h, k)" and cp: "copy_of i x k" and p: "hop_port h = p"
    and cost: "hop_cost (frozen s) (payload (sim_specs s ! i) x) w"
    and ser: "serialization_ns (ucast (pkt_bytes k)) (port_rate (fab_ports (sim_fabric s) ! p)) = Some ser"
  shows "earliest s i x w (peer_index (sim_fabric s) p) \<le> earliest s i x w (owner_index (sim_fabric s) p) + unat ser
    + unat (port_prop_delay_ns (fab_ports (sim_fabric s) ! p))"
proof -
  have k: "pkt_bytes k = payload (sim_specs s ! i) x"
    and ro: "on_route (frozen s) (unat (frt_dst_host (sim_froutes s ! i))) p"
    using pk cp p by (auto simp: packet_ok_def Let_def copy_of_def dest_host_def)
  have pc: "p < port_count (frozen s)" using ro by (simp add: on_route_def)
  note fr = frozen_port(7-10)[OF refl pc]
  have "hops_left s i (owner_index (frozen s) p) = Suc (hops_left s i (peer_index (frozen s) p))"
    using on_route_rank[OF setup_okD(1)[OF ok] ro] by (simp add: hops_left_def)
  from earliest_hop[OF this, of x w]
  have "earliest s i x w (peer_index (frozen s) p) \<le> earliest s i x w (owner_index (frozen s) p) + w" .
  moreover have "w \<le> unat ser + unat (port_prop_delay_ns (fab_ports (frozen s) ! p))"
    using cost pc ser k fr(3) by (simp add: hop_cost_def)
  ultimately show ?thesis using fr by (simp add: peer_index_def)
qed

lemma tx_complete_light:
  assumes inv: "sim_inv s0" and pop: "popped e s0 s" and ty: "ev_type e = TxComplete"
    and un: "\<And>kd. unaccounted kd s = 0" and l0: "light i x w s0" and i: "i < nflows s0"
    and cost: "hop_cost (frozen s0) (payload (sim_specs s0 ! i) x) w"
    and D: "run_delays s D" "unat (sim_now s) + D < 2 ^ 64"
    and run: "on_tx_complete e s = Some s'"
  shows "light i x w s'"
proof -
  note I = run_invD[OF inv] and P = poppedD[OF pop] and V = popped_events[OF pop]
  let ?p = "id_index (ev_port e)"
  have ok: "setup_ok s" and n: "nflows s = nflows s0" using popped_setup[OF inv pop] by auto
  note l = popped_light[OF l0 inv i pop]
  have net0: "ports_ok (sim_fabric s) (add_mset ?p (tx_pending (events s)))" "rates_ok (sim_fabric s)"
    using I(4) V(4) ty P(9) by (simp_all add: net_inv_def)
  then have pc: "?p < port_count (sim_fabric s)" by (auto simp: ports_ok_def)
  have fr: "net_frame s s'"
    using on_tx_complete_effect[OF P(16) net0(2) pc net0(1)] run by (metis option.inject)
  have busy: "port_busy (fab_ports (sim_fabric s) ! ?p)"
    using ports_okD(3)[OF net0(1) pc] by (cases "port_busy (fab_ports (sim_fabric s) ! ?p)") simp_all
  let ?k = "port_in_flight (fab_ports (sim_fabric s) ! ?p)"
  have "(AtPort ?p, plain ?k) \<in># carried s0" using in_flight_carried[OF pc busy] V(5) ty by simp
  then have pk: "packet_ok s (AtPort ?p, plain ?k)"
    using packet_ok_mono[OF I(9) P(1)] P by auto
  have cost': "hop_cost (frozen s) (payload (sim_specs s ! i) x) w" using cost setupD(1)[OF P(1)] P(10) by simp
  have "on_time i x (earliest s i x w) s'"
  proof (rule on_tx_complete_on_time[OF P(16) net0(2) pc net0(1) ty P(14) lightD(2)[OF l(1)] l(2) _ D(2) _ run])
    show "delays_ok (sim_fabric s) D" using D(1) delays_frozen[of s] by (simp add: run_delays_def)
    show "earliest s i x w (peer_index (sim_fabric s) ?p) \<le> earliest s i x w (owner_index (sim_fabric s) ?p) + unat ser
        + unat (port_prop_delay_ns (fab_ports (sim_fabric s) ! ?p))"
      if "copy_of i x ?k" "serialization_ns (ucast (pkt_bytes ?k)) (port_rate (fab_ports (sim_fabric s) ! ?p)) = Some ser" for ser
      by (rule copy_cost[OF ok pk _ _ cost']) (use that in simp_all)
  qed
  then show ?thesis using net_frame_light[OF l(1) ok _ fr] i n by simp
qed


text \<open>An arrival at a switch.\<close>

lemma enqueue_light:
  assumes ok: "setup_ok s" and net: "net_inv s" and l: "light i x w s" and i: "i < nflows s"
    and pid: "id_index pid < port_count (sim_fabric s)" and flow: "id_index (pkt_flow k) < nflows s"
    and D: "run_delays s D" "unat (sim_now s) + D < 2 ^ 64"
    and at: "copy_of i x k \<Longrightarrow> earliest s i x w (owner_index (sim_fabric s) (id_index pid)) \<le> unat (sim_now s)"
    and run: "enqueue pid k s = Some s'"
  shows "light i x w s'"
proof -
  have f: "id_index (pkt_flow k) < length (sim_results s)" using flow setup_okD(7)[OF ok] by simp
  have "net_frame s s'" using enqueue_effect[OF net pid f] run by (metis option.inject)
  moreover have "on_time i x (earliest s i x w) s'"
    by (rule enqueue_on_time[OF net pid f lightD(2)[OF l] at _ D(2) run])
       (use D(1) delays_frozen[of s] in \<open>simp_all add: run_delays_def\<close>)
  ultimately show ?thesis using net_frame_light[OF l ok i] by blast
qed

lemma forwarded_light:
  assumes inv: "sim_inv s0" and pop: "popped e s0 s" and ty: "ev_type e = Arrive"
    and fw: "forwarded e s s'" and l0: "light i x w s0" and i: "i < nflows s0"
    and D: "run_delays s D" "unat (sim_now s) + D < 2 ^ 64"
  shows "light i x w s'"
proof -
  note A = arrived[OF inv pop ty] and P = poppedD[OF pop]
  have ok: "setup_ok s" and n: "nflows s = nflows s0" using popped_setup[OF inv pop] by auto
  note l = popped_light[OF l0 inv i pop]
  obtain out where out: "enqueue out (ev_packet e) s = Some s'" "packet_ok s (AtPort (id_index out), ev_packet e)"
    "owner_index (frozen s) (id_index out) = peer_index (frozen s) (id_index (ev_port e))"
    using fw by (auto simp: forwarded_def)
  have pc: "id_index out < port_count (frozen s)" using out(2) by (simp add: packet_ok_def Let_def on_route_def)
  have own: "owner_index (sim_fabric s) (id_index out) = peer_index (sim_fabric s) (id_index (ev_port e))"
    using frozen_port(7)[OF refl pc] A(4) out(3) by (simp add: peer_index_def)
  show ?thesis
  proof (rule enqueue_light[OF ok A(6) l(1) _ _ _ D _ out(1)])
    show "id_index (pkt_flow (ev_packet e)) < nflows s" using packet_ok_flow[OF out(2)] .
    assume "copy_of i x (ev_packet e)"
    then have "earliest s i x w (peer_index (sim_fabric s) (id_index (ev_port e))) \<le> unat (ev_time e)"
      using l(2) ty by (simp add: event_on_time_def Let_def)
    then show "earliest s i x w (owner_index (sim_fabric s) (id_index out)) \<le> unat (sim_now s)"
      using own P(14) by simp
  qed (use i n pc in simp_all)
qed

section \<open>Delivery\<close>

lemma light_stats [simp]: "light i x w (s\<lparr>sim_stats := st\<rparr>) = light i x w s"
proof -
  let ?s = "s\<lparr>sim_stats := st\<rparr>"
  have "earliest ?s i x w = earliest s i x w" "arrival ?s i x w = arrival s i x w" "paced ?s = paced s"
    by (simp_all add: paced_def due_def earliest_def arrival_def path_length_def hops_left_def source_node_def fun_eq_iff)
  moreover have "pst ?s = pst s" using view_congs(1)[of ?s s] by simp
  ultimately show ?thesis by (simp add: light_def on_time_def)
qed

text \<open>Nothing is known of, and nothing can be wrong with, a packet without copies.\<close>

lemma no_copies_on_time:
  assumes net: "net_inv s" and none: "\<And>y. y \<in># carried s \<Longrightarrow> \<not> copy_of i x (snd y)"
  shows "on_time i x B s"
proof -
  have "\<not> copy_of i x k" if "p < port_count (sim_fabric s)" "k \<in> set (ring_list (port_queue (fab_ports (sim_fabric s) ! p)))" for p k
  proof -
    have "(AtPort p, plain k) \<in># port_load p (fab_ports (sim_fabric s) ! p)"
      using that(2) by (auto simp: port_load_def)
    moreover have "port_load p (fab_ports (sim_fabric s) ! p) \<subseteq># fabric_load (sim_fabric s)"
      using that(1) sum.remove[of "{..<port_count (sim_fabric s)}" p "\<lambda>j. port_load j (fab_ports (sim_fabric s) ! j)"]
      by (simp add: fabric_load_def)
    ultimately have "(AtPort p, plain k) \<in># carried s" by (auto simp: carried_def dest: mset_subset_eqD)
    then show ?thesis using none by fastforce
  qed
  moreover have "event_on_time i x B (sim_fabric s) e" if e: "e \<in># events s" for e
  proof -
    have "\<not> copy_of i x (port_in_flight (fab_ports (sim_fabric s) ! id_index (ev_port e)))" if ty: "ev_type e = TxComplete"
    proof -
      let ?p = "id_index (ev_port e)"
      have m: "?p \<in># tx_pending (events s)" using e ty by (auto simp: tx_pending_def)
      have po: "ports_ok (sim_fabric s) (tx_pending (events s))" using net by (simp add: net_inv_def)
      then have pc: "?p < port_count (sim_fabric s)" using m by (auto simp: ports_ok_def)
      have "count (tx_pending (events s)) ?p \<noteq> 0" using m by (metis count_eq_zero_iff)
      then have "port_busy (fab_ports (sim_fabric s) ! ?p)" using ports_okD(3)[OF po pc] by (metis of_bool_eq_0_iff)
      then show ?thesis using none[OF in_flight_carried[OF pc]] by simp
    qed
    moreover have "\<not> copy_of i x (ev_packet e)" if ty: "ev_type e = Arrive"
    proof -
      have "(OnWire (id_index (ev_port e)), ev_packet e) \<in># arrivals (events s)" using e ty by (auto simp: arrivals_def)
      then show ?thesis using none[of "(OnWire (id_index (ev_port e)), ev_packet e)"] by (simp add: carried_def)
    qed
    ultimately show ?thesis by (auto simp: event_on_time_def Let_def)
  qed
  ultimately show ?thesis by (auto simp: on_time_def queued_on_time_def)
qed

text \<open>A flow that has sent nothing is in the clear.\<close>

lemma unsent_light:
  assumes inv: "sim_inv s" and i: "i < nflows s" and nil: "tx_next_seq (sim_tx s ! i) = 0"
    and nc: "\<not> res_complete (sim_results s ! i)" and pace: "\<And>j. j < nflows s \<Longrightarrow> paced s j"
  shows "light i x w s"
proof -
  note I = run_invD[OF inv]
  have "\<not> copy_of i x (snd y)" if "y \<in># carried s" for y
    using I(9)[OF that] nil by (auto simp: packet_ok_def Let_def copy_of_def)
  then have "on_time i x (earliest s i x w) s" by (rule no_copies_on_time[OF I(4)])
  moreover have "pst s i x = 0"
    using sender_okD(6)[of "max_tries s" "sim_tx s ! i"] flow_invD(1)[OF I(5)[OF i]] nil by (auto simp: sender_at_def)
  ultimately show ?thesis using pace nc by (simp add: light_def)
qed

lemma complete_delivered:
  assumes inv: "sim_inv s" and i: "i < nflows s" and c: "res_complete (sim_results s ! i)" and x: "x < tots s ! i"
  shows "bit (pst s i x) 0"
proof -
  note I = run_invD[OF inv]
  have sub: "{y. bit (pst s i y) 0} \<subseteq> {y. y < tots s ! i}" by (auto simp: pst_def)
  have "card {y. bit (pst s i y) 0} = card {y. y < tots s ! i}"
    using flow_invD(2)[OF I(5)[OF i]] c setup_okD(16)[OF I(1) i] unfolding card_word_less receiver_ok_def by metis
  then have "{y. bit (pst s i y) 0} = {y. y < tots s ! i}" by (intro card_subset_eq sub) simp_all
  then show ?thesis using x by auto
qed

lemma delivered_light:
  assumes invA: "sim_inv s" and invB: "sim_inv s'" and l: "light i x w s" and d: "delivered_to j y b s s'"
    and j: "j < nflows s" and y: "y < tots s ! j" "\<not> bit (pst s j y) 0" and i: "i < nflows s" and x: "x < tots s ! i"
    and at: "j = i \<Longrightarrow> y = x \<Longrightarrow> arrival s i x w \<le> unat (sim_now s)"
  shows "light i x w s'"
proof -
  note IA = run_invD[OF invA]
  have ok: "setup_ok s" using IA(1) .
  define r2 where "r2 = first_delivery s (sim_results s ! j) b"
  define R where "R = (if res_complete r2 then freed s j else {})"
  note V = delivered_views[OF d ok j y(1) r2_def R_def]
  note miss = receiver_missing(1)[OF IA(5)[OF j] ok j y]
  have n: "nflows s' = nflows s" using fixed_nflows[OF V(1)] .
  have jR: "j \<notin> R" using freed_bounds[OF ok, of j j] by (auto simp: R_def split: if_splits)
  have blank: "tx_next_seq (sim_tx s ! k) = 0" "\<not> res_complete (sim_results s ! k)" if "k \<in> R" for k
  proof -
    have k: "k \<in> freed s j" using that by (auto simp: R_def split: if_splits)
    note wb = waiting_blank[OF invA freed_bounds(1)[OF ok k] freed_waiting[OF ok miss k]]
    show "tx_next_seq (sim_tx s ! k) = 0" "\<not> res_complete (sim_results s ! k)" by (rule wb(1), rule wb(4))
  qed
  have st: "res_start_ns (sim_results s' ! k) = res_start_ns (sim_results s ! k)" if "k < nflows s" "k \<notin> R" for k
    using V(19)[OF that(1)] that(2) by (cases "k = j") (simp_all add: r2_def)
  have pace: "paced s' k" if k: "k < nflows s" for k
  proof (cases "k \<in> R")
    case True
    then show ?thesis using V(18)[OF k] blank(1) by (simp add: paced_def)
  next
    case False
    then show ?thesis
      by (intro paced_cong[OF st[OF k False] _ _ _ _ lightD(1)[OF l k]]) (use V(3) V(18)[OF k] in simp_all)
  qed
  show ?thesis
  proof (cases "i \<in> R")
    case True
    then have "i \<noteq> j" using jR by auto
    then show ?thesis
      using unsent_light[OF invB, of i] i n V(18,19)[OF i] True blank[OF True] pace by simp
  next
    case False
    note E = earliest_cong[OF V(1,2) ok i st[OF i False]]
    have on: "on_time i x (earliest s i x w) s'"
      using lightD(2)[OF l] V(21) event_on_time_other[of _ i x _ "sim_fabric s"] by (auto simp: on_time_def V(3,5))
    have bit': "bit (pst s' i x) 0 \<Longrightarrow> arrival s i x w \<le> unat (sim_now s)"
      using V(15)[OF i] lightD(3)[OF l] at by (cases "i = j \<and> x = y") (auto split: if_splits)
    have fin: "arrival s i x w \<le> unat (res_finish_ns (sim_results s' ! i))" if c: "res_complete (sim_results s' ! i)"
    proof (cases "res_complete (sim_results s ! i)")
      case True
      then have "i \<noteq> j" using miss by auto
      then show ?thesis using V(19)[OF i] False lightD(4)[OF l True] by simp
    next
      case nc: False
      then have ij: "i = j" using c V(19)[OF i] False by (auto split: if_splits)
      then have "res_finish_ns (sim_results s' ! i) = sim_now s"
        using c V(19)[OF i] first_delivery_complete(1)[OF miss] by (simp add: r2_def)
      moreover have "bit (pst s' i x) 0"
        using complete_delivered[OF invB _ c] i n x setupD(7)[OF V(1)] by simp
      ultimately show ?thesis using bit' by simp
    qed
    show ?thesis unfolding light_def using pace n on bit' fin E V(3) by simp
  qed
qed


text \<open>Data at its destination has made all its hops.\<close>

lemma home_hops:
  assumes ok: "setup_ok s" and home: "at_home e s" and f: "id_index (ev_flow e) = i"
  shows "hops_left s i (peer_index (frozen s) (id_index (ev_port e))) = 0"
proof -
  let ?h = "unat (frt_dst_host (sim_froutes s ! i))"
  have h: "?h < host_count (frozen s)" and pc: "id_index (ev_port e) < port_count (frozen s)"
    and peer: "peer_index (frozen s) (id_index (ev_port e)) = id_index (fab_hosts (frozen s) ! ?h)"
    using home f by (auto simp: at_home_def packet_ok_def Let_def on_route_def dest_host_def ev_packet_def peer_index_def)
  have ready: "fabric_ready (frozen s) (sim_routes s)" using setup_okD(1)[OF ok] .
  then have "fabric_ok (frozen s)" by (simp add: fabric_ready_def)
  from wiredD(5)[OF this pc] have "hop_rank (frozen s) ?h (peer_index (frozen s) (id_index (ev_port e))) = 0"
    using rank_0_iff[OF ready h] peer by blast
  then show ?thesis by (simp add: hops_left_def)
qed

lemma received_light:
  assumes inv: "sim_inv s0" and pop: "popped e s0 s" and ty: "ev_type e = Arrive"
    and home: "at_home e s" and rc: "received e s s'" and l0: "light i x w s0" and i: "i < nflows s0" and x: "x < tots s0 ! i"
    and D: "run_delays s D" "unat (sim_now s) + D < 2 ^ 64"
  shows "light i x w s'"
proof -
  note P = poppedD[OF pop]
  let ?j = "id_index (ev_flow e)" and ?y = "ev_packet_index e"
  have ok: "setup_ok s" and n: "nflows s = nflows s0" using popped_setup[OF inv pop] by auto
  note l = popped_light[OF l0 inv i pop]
  obtain st sB k st2 where r: "sim_inv (s\<lparr>sim_stats := st\<rparr>)" "sim_inv sB" "?j < nflows s" "?y < tots s ! ?j"
    "sB = s\<lparr>sim_stats := st\<rparr> \<or> \<not> bit (pst s ?j ?y) 0 \<and> delivered_to ?j ?y (ev_bytes e) (s\<lparr>sim_stats := st\<rparr>) sB"
    "pkt_kind k = Ack" "pkt_flow k = ev_flow e"
    "enqueue (frt_dst_nic (sim_froutes s ! ?j)) k (sB\<lparr>sim_stats := st2\<rparr>) = Some s'"
    using rc by (auto simp: received_def Let_def)
  define sA where "sA = s\<lparr>sim_stats := st\<rparr>"
  have fA: "fixed sA = fixed s" by (simp add: sA_def)
  have A: "pst sA = pst s" "tots sA = tots s" using view_congs(1)[OF fA] setupD(7)[OF fA] by (simp_all add: sA_def)
  have x': "x < tots s ! i" using x setupD(7)[OF P(1)] by simp
  have at: "arrival sA i x w \<le> unat (sim_now sA)" if c: "?j = i" "?y = x"
  proof -
    have "copy_of i x (ev_packet e)" using home c by (simp add: at_home_def copy_of_def ev_packet_def)
    then have "earliest s i x w (peer_index (sim_fabric s) (id_index (ev_port e))) \<le> unat (sim_now s)"
      using l(2) ty P(14) by (simp add: event_on_time_def Let_def)
    moreover have "peer_index (sim_fabric s) (id_index (ev_port e)) = peer_index (frozen s) (id_index (ev_port e))"
      using arrived(4)[OF inv pop ty] by (simp add: peer_index_def)
    moreover have "arrival sA i x w = arrival s i x w"
      by (simp add: arrival_def due_def path_length_def hops_left_def source_node_def sA_def)
    ultimately show ?thesis using earliest_home[OF home_hops[OF ok home c(1)]] by (simp add: sA_def)
  qed
  have lA: "light i x w sA" using l(1) by (simp add: sA_def)
  have B: "light i x w sB \<and> fixed sB = fixed s \<and> periods sB = periods s \<and> sim_now sB = sim_now s"
  proof (cases "sB = sA")
    case True
    then show ?thesis using lA by (simp add: sA_def periods_def)
  next
    case False
    then have d: "\<not> bit (pst sA ?j ?y) 0" "delivered_to ?j ?y (ev_bytes e) sA sB" using r(5) A(1) by (auto simp: sA_def)
    have okA: "setup_ok sA" using setup_ok_cong[OF fA] ok by simp
    have jA: "?j < nflows sA" "?y < tots sA ! ?j" using r(3,4) A(2) by (simp_all add: sA_def)
    note V = delivered_views[OF d(2) okA jA refl refl]
    have "light i x w sB"
      by (rule delivered_light[OF r(1)[folded sA_def] r(2) lA d(2) jA d(1) _ _ at])
         (use i n x' A(2) in \<open>simp_all add: sA_def\<close>)
    then show ?thesis using V(1-3) fA by (simp add: sA_def periods_def)
  qed
  let ?t = "sB\<lparr>sim_stats := st2\<rparr>"
  note IB = run_invD[OF r(2)]
  have ft: "fixed ?t = fixed s" using B by simp
  have okt: "setup_ok ?t" using setup_ok_cong[OF ft] ok by simp
  have nt: "nflows ?t = nflows s" using fixed_nflows[OF ft] .
  have frt: "sim_froutes ?t = sim_froutes s" using setupD(5)[OF ft] by simp
  show ?thesis
  proof (rule enqueue_light[OF okt _ _ _ _ _ _ _ _ r(8)])
    show "net_inv ?t" using IB(4) by (simp add: net_inv_def)
    show "light i x w ?t" using B by simp
    show "i < nflows ?t" "id_index (pkt_flow k) < nflows ?t" using i n nt r(3,7) by simp_all
    show "id_index (frt_dst_nic (sim_froutes s ! ?j)) < port_count (sim_fabric ?t)"
      using nic_in_range(2)[OF okt] r(3) nt frt by simp
    show "run_delays ?t D" "unat (sim_now ?t) + D < 2 ^ 64"
      using D run_delays_cong[of ?t s D] B by (simp_all add: periods_def)
  qed (use r(6) in \<open>simp add: copy_of_def\<close>)
qed

section \<open>The run\<close>

lemma handle_event_light:
  assumes inv: "sim_inv s0" and tn: "turn e s0 s" and pol: "routing_policy select"
    and l0: "light i x w s0" and i: "i < nflows s0" and x: "x < tots s0 ! i"
    and cost: "hop_cost (frozen s0) (payload (sim_specs s0 ! i) x) w"
    and D: "run_delays s D" "unat (sim_now s) + D < 2 ^ 64" and run: "handle_event select e s = Some s'"
  shows "light i x w s'"
proof -
  have pop: "popped e s0 s" and un: "\<And>kd. unaccounted kd s = (if ev_type e = Arrive then packet_bytes (ev_packet e) kd else 0)"
    using tn by (auto simp: turn_def)
  have ok: "setup_ok s" and n: "nflows s = nflows s0" using popped_setup[OF inv pop] by auto
  have i1: "i < nflows s" using i n by simp
  note l = popped_light(1)[OF l0 inv i pop]
  show ?thesis
  proof (cases "ev_type e")
    case Inject
    then show ?thesis
      using sender_op_light[OF on_inject_op[OF inv pop Inject] l ok i1 D] un run by (simp add: handle_event_def)
  next
    case Timeout
    then show ?thesis
      using sender_op_light[OF on_timeout_op[OF inv pop Timeout] l ok i1 D] un run by (simp add: handle_event_def)
  next
    case TxComplete
    then show ?thesis
      using tx_complete_light[OF inv pop TxComplete _ l0 i cost D] un run by (simp add: handle_event_def)
  next
    case Arrive
    have "arrival_op e s0 s (Some s')"
      using on_arrive_op[OF inv pop Arrive _ pol] un run Arrive by (simp add: handle_event_def)
    then consider "forwarded e s s'" | "at_home e s" "received e s s'"
      | st where "quiet s (s\<lparr>sim_stats := st\<rparr>)" "sender_op (ev_flow e) s0 (s\<lparr>sim_stats := st\<rparr>) (Some s')"
      unfolding arrival_op_def by blast
    then show ?thesis
    proof cases
      case 1
      then show ?thesis by (rule forwarded_light[OF inv pop Arrive _ l0 i D])
    next
      case 2
      then show ?thesis by (rule received_light[OF inv pop Arrive _ _ l0 i x D])
    next
      case 3
      have f: "fixed (s\<lparr>sim_stats := st\<rparr>) = fixed s" by simp
      show ?thesis
        by (rule sender_op_light[OF 3(2) _ _ _ _ _ refl])
           (use l i1 D setup_ok_cong[OF f] ok run_delays_cong[OF f, of D] in \<open>simp_all add: periods_def\<close>)
    qed
  qed
qed

lemma begin_light:
  assumes rr: "run_ready s D H" and t: "begin_run s = Some t" and i: "i < nflows s"
  shows "light i x w t"
proof -
  have ok: "setup_ok s" and tr: "transport_ok s" using rr by (simp_all add: run_ready_def)
  then have r: "reset_upto s (nflows s) t" using begin_run_reset[OF ok tr] t by auto
  note V = reset_views[OF ok r]
  have "paced t j" if "j < nflows t" for j
    using V(9)[of j] that V(2) by (auto simp: paced_def)
  moreover obtain p where "sim_tx t ! i = blank_tx s i p" using V(9)[OF i] by blast
  ultimately show ?thesis
    using unsent_light[OF begin_run_inv(1)[OF rr t], of i] V(2,10) i by simp
qed

lemma reach_light:
  assumes re: "reaches select s u" and rr: "run_ready s D H" and pol: "routing_policy select"
    and i: "i < nflows s" and x: "x < tots s ! i"
    and cost: "hop_cost (frozen s) (payload (sim_specs s ! i) x) w"
  shows "light i x w u"
  using re
proof induction
  case (reach_begin t)
  then show ?case by (rule begin_light[OF rr _ i])
next
  case (reach_step u v)
  obtain m where inv: "sim_inv u" and fx: "fixed u = fixed s" and D: "run_delays u D" and m: "run_timed u (H + m * D)"
    "m + potential u \<le> run_budget s"
    using reach_inv[OF reach_step.hyps(1) rr pol] by blast
  obtain e u1 where e: "run_step select u = handle_event select e u1" "turn e u u1" "unat (ev_time e) \<le> H + m * D"
    using run_step_turn[OF inv reach_step.hyps(2) m(1)] by blast
  have pop: "popped e u u1" using e(2) by (simp add: turn_def)
  note P = poppedD[OF pop]
  have st: "stepped u v" using run_step_ok[OF inv pol reach_step.hyps(2) D m(1)] reach_step.hyps(3) by auto
  then have "Suc m * D \<le> run_budget s * D" using m(2) by (intro mult_le_mono1) (simp add: stepped_def)
  then have room: "unat (sim_now u1) + D < 2 ^ 64" using rr e(3) by (simp add: P(14) run_ready_def)
  show ?case
  proof (rule handle_event_light[OF inv e(2) pol reach_step.IH _ _ _ _ room])
    show "i < nflows u" "x < tots u ! i" using i x fixed_nflows[OF fx] setupD(7)[OF fx] by simp_all
    show "hop_cost (frozen u) (payload (sim_specs u ! i) x) w" using cost setupD(1,4)[OF fx] by simp
    show "run_delays u1 D" using D run_delays_cong[OF P(1,2)] by simp
    show "handle_event select e u1 = Some v" using e(1) reach_step.hyps(3) by simp
  qed
qed


section \<open>The time of a complete flow\<close>

lemma run_loop_reaches:
  assumes "run_loop select u = Some v" "reaches select s u"
  shows "reaches select s v"
proof -
  have "reaches select s u \<longrightarrow> reaches select s v"
  proof (rule run_loop.raw_induct[OF _ assms(1)], intro impI)
    fix loop and select :: policy and u v
    assume IH: "\<And>select u v. loop select u = Some v \<Longrightarrow> reaches select s u \<longrightarrow> reaches select s v"
      and body: "(if eq_empty (sim_queue u) then Some u
        else do { u \<leftarrow> run_step select u; loop select u }) = Some v"
      and re: "reaches select s u"
    show "reaches select s v"
    proof (cases "eq_empty (sim_queue u)")
      case True
      then show ?thesis using body re by simp
    next
      case False
      then obtain u1 where "run_step select u = Some u1" "loop select u1 = Some v"
        using body by (auto simp: bind_eq_Some_conv)
      then show ?thesis using IH reach_step[OF re False] by blast
    qed
  qed
  then show ?thesis using assms(2) by blast
qed

lemma run_sim_reaches:
  assumes "run_sim select s = Some (st, s')"
  shows "\<exists>u. reaches select s u \<and> s' = end_run u"
proof -
  obtain t u where "begin_run s = Some t" "run_loop select t = Some u" "s' = end_run u"
    using assms by (auto simp: run_sim_def bind_eq_Some_conv Let_def)
  then show ?thesis using run_loop_reaches reach_begin by blast
qed

lemma reach_period:
  assumes "reaches select s u" "run_ready s D H" "routing_policy select" "i < nflows s"
  shows "flow_period s i = Some (tx_period_ns (sim_tx u ! i))"
  using assms(1)
proof induction
  case (reach_begin t)
  have ok: "setup_ok s" and tr: "transport_ok s" using assms(2) by (simp_all add: run_ready_def)
  then have r: "reset_upto s (nflows s) t" using begin_run_reset[OF ok tr] reach_begin by auto
  then obtain p where "flow_period s i = Some p" "sim_tx t ! i = blank_tx s i p"
    using reset_views(9)[OF ok r assms(4)] by blast
  then show ?case by simp
next
  case (reach_step u v)
  obtain m where inv: "sim_inv u" and fx: "fixed u = fixed s" and D: "run_delays u D" and m: "run_timed u (H + m * D)"
    using reach_inv[OF reach_step.hyps(1) assms(2,3)] by blast
  have st: "stepped u v" using run_step_ok[OF inv assms(3) reach_step.hyps(2) D m] reach_step.hyps(3) by auto
  have n: "nflows u = nflows s" using fixed_nflows[OF fx] .
  have "tx_period_ns (sim_tx v ! i) = tx_period_ns (sim_tx u ! i)"
    using st assms(4) n fixed_nflows[of v u] run_invD(1)[of "{}" "\<lambda>_. 0"]
    by (intro period_at) (auto simp: stepped_def inv)
  then show ?case using reach_step.IH by simp
qed

text \<open>Finish minus start is at least the last release plus one full journey.\<close>

lemma complete_flow_time:
  assumes rr: "run_ready s D H" and pol: "routing_policy select" and run: "run_sim select s = Some (st, s')"
    and i: "i < nflows s" and c: "res_complete (sim_results s' ! i)" and p: "flow_period s i = Some p"
    and x: "unat x < packets_of (sim_specs s ! i)"
    and cost: "hop_cost (frozen s) (payload (sim_specs s ! i) x) w"
    and hops: "min_hops (links (frozen s)) (id_index (fs_dst (sim_specs s ! i))) (id_index (fs_src (sim_specs s ! i))) n"
  shows "unat (res_start_ns (sim_results s' ! i)) + unat x * unat p + n * w \<le> unat (res_finish_ns (sim_results s' ! i))"
    "unat x * unat p + n * w \<le> unat (fct_ns (sim_results s' ! i))"
proof -
  obtain u where u: "reaches select s u" "s' = end_run u" using run_sim_reaches[OF run] by blast
  have r: "sim_results s' = sim_results u" using u(2) by (simp add: end_run_def)
  have ok: "setup_ok s" using rr by (simp add: run_ready_def)
  note fs = setup_okD(15)[OF ok i, unfolded flow_shape_def]
  have xt: "x < tots s ! i" using x fs by (simp add: word_less_nat_alt)
  have "light i x w u" by (rule reach_light[OF u(1) rr pol i xt cost])
  then have l: "arrival u i x w \<le> unat (res_finish_ns (sim_results u ! i))" using c r by (simp add: light_def)
  have fx: "fixed u = fixed s" using reach_inv[OF u(1) rr pol] by blast
  have p': "tx_period_ns (sim_tx u ! i) = p" using reach_period[OF u(1) rr pol i] p by simp
  have ready: "fabric_ready (frozen s) (sim_routes s)" using setup_okD(1)[OF ok] .
  then have fo: "fabric_ok (frozen s)" by (simp add: fabric_ready_def)
  let ?h = "unat (frt_dst_host (sim_froutes s ! i))"
  have "path_length s i = n"
  proof -
    have pc: "id_index (frt_src_nic (sim_froutes s ! i)) < port_count (frozen s)" using fs by (simp add: on_route_def)
    have own: "source_node s i < node_count (frozen s)" using wiredD(1)[OF fo pc] by (simp add: source_node_def)
    have "source_node s i = id_index (fs_src (sim_specs s ! i))" using fs by (simp add: source_node_def)
    then show ?thesis
      using rank_min_hops[OF ready _ own, of ?h] hops fs min_hops_unique
      by (simp add: path_length_def hops_left_def)
  qed
  then show a: "unat (res_start_ns (sim_results s' ! i)) + unat x * unat p + n * w \<le> unat (res_finish_ns (sim_results s' ! i))"
    using l p' fixed_hops(3)[OF fx] by (simp add: arrival_def due_def r)
  then have "unat (fct_ns (sim_results s' ! i)) = unat (res_finish_ns (sim_results s' ! i)) - unat (res_start_ns (sim_results s' ! i))"
    by (simp add: fct_ns_def unat_sub_small word_le_nat_alt)
  then show "unat x * unat p + n * w \<le> unat (fct_ns (sim_results s' ! i))" using a by simp
qed

end
