(* ===== verification/Closed_Forms.thy ===== *)
theory Closed_Forms
  imports Permutation_Runs All_Reduce_Runs Smoke_Runs Sim_Light
begin

text \<open>
  The closed forms of \<^verbatim>\<open>harness/scenario.cpp\<close> against the simulator: with one kind of link
  and flows made of whole packets, no completed flow is faster than the figure the three
  scenarios compute for it, and no completed ring all-reduce faster than the sum of its steps.
\<close>

section \<open>The closed form as a number\<close>

lemma unat_plus_le: "unat (a + b) \<le> unat a + unat (b :: 'a::len word)"
  by (simp add: unat_word_ariths)

lemma unat_times_le: "unat (a * b) \<le> unat a * unat (b :: 'a::len word)"
  by (simp add: unat_word_ariths)

text \<open>The least a flow of \<open>packets\<close> whole packets takes over \<open>hops\<close> links.\<close>

definition least_time :: "nat \<Rightarrow> nat \<Rightarrow> Nanos \<Rightarrow> Nanos \<Rightarrow> Nanos \<Rightarrow> nat" where
  "least_time packets hops ser period prp = (packets - 1) * unat period + hops * (unat ser + unat prp)"

lemma packets_minus_one:
  assumes "packets \<noteq> (0 :: u32)"
  shows "unat (ucast packets - 1 :: u64) = unat packets - 1"
proof -
  have u: "unat (ucast packets :: u64) = unat packets" by (simp add: unat_ucast_up_eq)
  then have "1 \<le> (ucast packets :: u64)" using assms by (simp add: word_le_nat_alt Suc_le_eq unat_gt_0)
  then show ?thesis using u by (simp add: unat_sub_small word_le_nat_alt)
qed

lemma paced_fct_le:
  assumes "packets \<noteq> 0"
  shows "unat (paced_fct_ns packets hops ser period prp) \<le> least_time (unat packets) (unat hops) ser period prp"
  unfolding paced_fct_ns_def least_time_def
  using unat_plus_le[of "(ucast packets - 1) * period + ucast hops * ser" "ucast hops * prp"]
    unat_plus_le[of "(ucast packets - 1) * period" "ucast hops * ser"]
    unat_times_le[of "ucast packets - 1" period] unat_times_le[of "ucast hops :: u64" ser]
    unat_times_le[of "ucast hops :: u64" prp]
  by (simp add: packets_minus_one[OF assms] unat_ucast_up_eq add_mult_distrib2)

lemma paced_fct_eq:
  assumes "packets \<noteq> 0" "least_time (unat packets) (unat hops) ser period prp < 2 ^ 64"
  shows "unat (paced_fct_ns packets hops ser period prp) = least_time (unat packets) (unat hops) ser period prp"
  using assms(2)
  by (simp add: paced_fct_ns_def least_time_def unat_word_ariths packets_minus_one[OF assms(1)] unat_ucast_up_eq
      add_mult_distrib2 mod_simps)

lemma analytical_fct_le:
  assumes "packets \<noteq> 0"
  shows "unat (analytical_fct_ns packets hops ser prp) \<le> least_time (unat packets) (unat hops) ser ser prp"
proof -
  let ?k = "ucast packets - 1 + ucast hops :: u64"
  have "unat ?k \<le> unat packets - 1 + unat hops"
    using unat_plus_le[of "ucast packets - 1 :: u64" "ucast hops"] by (simp add: packets_minus_one[OF assms] unat_ucast_up_eq)
  then have "unat ?k * unat ser \<le> (unat packets - 1 + unat hops) * unat ser" by (rule mult_le_mono1)
  then show ?thesis
    using unat_plus_le[of "?k * ser" "ucast hops * prp"] unat_times_le[of ?k ser] unat_times_le[of "ucast hops :: u64" prp]
    by (simp add: analytical_fct_ns_def least_time_def unat_ucast_up_eq add_mult_distrib add_mult_distrib2)
qed

lemma all_reduce_analytical_le:
  assumes "packets \<noteq> 0"
  shows "unat (all_reduce_analytical_ns steps packets hops ser period prp)
    \<le> unat steps * least_time (unat packets) (unat hops) ser period prp"
proof -
  have "unat (all_reduce_analytical_ns steps packets hops ser period prp)
      \<le> unat steps * unat (paced_fct_ns packets hops ser period prp)"
    using unat_times_le[of "ucast steps :: u64"] by (simp add: all_reduce_analytical_ns_def unat_ucast_up_eq)
  also have "\<dots> \<le> unat steps * least_time (unat packets) (unat hops) ser period prp"
    by (rule mult_le_mono2[OF paced_fct_le[OF assms]])
  finally show ?thesis .
qed

section \<open>Links of one kind\<close>

definition same_links :: "link_params \<Rightarrow> link_params \<Rightarrow> bool" where
  "same_links a b \<longleftrightarrow> lp_rate a = lp_rate b \<and> lp_prop_delay_ns a = lp_prop_delay_ns b"

definition one_kind :: "fabric \<Rightarrow> link_params \<Rightarrow> bool" where
  "one_kind F l \<longleftrightarrow> (\<forall>p < port_count F. port_rate (fab_ports F ! p) = lp_rate l
     \<and> port_prop_delay_ns (fab_ports F ! p) = lp_prop_delay_ns l)"

lemma one_kind_hop_cost:
  assumes "one_kind F l" "serialization_ns (ucast b) (lp_rate l) = Some ser"
  shows "hop_cost F b (unat ser + unat (lp_prop_delay_ns l))"
  using assms by (simp add: one_kind_def hop_cost_def)

text \<open>A flow of whole packets: every payload is the MTU.\<close>

lemma whole_packets:
  assumes "0 < fs_mtu_bytes spec" "fs_size_bytes spec mod ucast (fs_mtu_bytes spec) = 0" "unat x < packets_of spec"
    and "packets_of spec < 2 ^ 32"
  shows "payload spec x = fs_mtu_bytes spec"
proof -
  define mtu where "mtu = unat (fs_mtu_bytes spec)"
  define sz where "sz = unat (fs_size_bytes spec)"
  have m: "0 < mtu" using assms(1) by (simp add: mtu_def word_less_nat_alt)
  have "unat (fs_size_bytes spec mod ucast (fs_mtu_bytes spec)) = sz mod mtu"
    by (simp add: unat_mod sz_def mtu_def unat_ucast_up_eq)
  then have d: "sz mod mtu = 0" using assms(2) by simp
  then obtain k where k: "sz = mtu * k" by auto
  have "unat x < k" using payload_last(2)[OF assms(1,3,4)] k m by (simp add: sz_def[symmetric] mtu_def[symmetric] mult.commute)
  then have "Suc (unat x) * mtu \<le> k * mtu" by (intro mult_le_mono1) simp
  then have "min mtu (sz - unat x * mtu) = mtu" by (simp add: k mult.commute)
  then show ?thesis using payload_last(1)[OF assms(1,3,4)] by (simp add: word_unat_eq_iff sz_def mtu_def)
qed

lemma min_hops_swap:
  assumes "ports_wired f" "min_hops (links f) u v n"
  shows "min_hops (links f) v u n"
proof -
  have "(v, u) \<in> links f ^^ k" if "(u, v) \<in> links f ^^ k" for u v k
    using that
  proof (induction k arbitrary: v)
    case (Suc k)
    then obtain w where "(u, w) \<in> links f ^^ k" "(w, v) \<in> links f" by auto
    then show ?case using Suc.IH links_sym[OF assms(1)] by (meson relpow_Suc_I2)
  qed simp
  then show ?thesis using assms(2) unfolding min_hops_def by blast
qed

lemma uniform_flow_least:
  assumes rr: "run_ready s D H" and pol: "routing_policy select" and run: "run_sim select s = Some (st, s')"
    and i: "i < nflows s" and c: "res_complete (sim_results s' ! i)" and kind: "one_kind (frozen s) l"
    and whole: "fs_size_bytes (sim_specs s ! i) mod ucast (fs_mtu_bytes (sim_specs s ! i)) = 0"
    and ser: "serialization_ns (ucast (fs_mtu_bytes (sim_specs s ! i))) (lp_rate l) = Some ser"
    and hops: "min_hops (links (frozen s)) (id_index (fs_src (sim_specs s ! i))) (id_index (fs_dst (sim_specs s ! i))) n"
    and t: "t = least_time (packets_of (sim_specs s ! i)) n ser
      (ser * 1000 div ucast (fs_load_permille (sim_specs s ! i))) (lp_prop_delay_ns l)"
  shows "unat (res_start_ns (sim_results s' ! i)) + t \<le> unat (res_finish_ns (sim_results s' ! i))"
    "t \<le> unat (fct_ns (sim_results s' ! i))"
proof -
  let ?spec = "sim_specs s ! i"
  have ok: "setup_ok s" using rr by (simp add: run_ready_def)
  note fs = setup_okD(15)[OF ok i, unfolded flow_shape_def]
  let ?x = "tots s ! i - 1"
  have fit: "0 < fs_mtu_bytes ?spec" "unat (tots s ! i) = packets_of ?spec" "0 < tots s ! i" using fs by blast+
  have N: "packets_of ?spec < 2 ^ 32" using unat_lt32[of "tots s ! i"] by (simp add: fit(2))
  have x: "unat ?x = packets_of ?spec - 1" "unat ?x < packets_of ?spec"
    using fit(2,3) by (simp_all add: unat_sub_small word_le_nat_alt word_less_nat_alt Suc_le_eq)
  have pay: "payload ?spec ?x = fs_mtu_bytes ?spec" by (rule whole_packets[OF fit(1) whole x(2) N])
  obtain p where p: "flow_period s i = Some p" using flow_period_Some[OF ok i] by blast
  have nic: "id_index (frt_src_nic (sim_froutes s ! i)) < port_count (frozen s)" using nic_in_range(1)[OF ok i] by simp
  then have "port_rate (fab_ports (frozen s) ! id_index (frt_src_nic (sim_froutes s ! i))) = lp_rate l"
    using kind by (simp add: one_kind_def)
  then have pp: "p = ser * 1000 div ucast (fs_load_permille ?spec)"
    using p ser by (auto simp: flow_period_def pacing_period_def checked_iffs)
  have cost: "hop_cost (frozen s) (payload ?spec ?x) (unat ser + unat (lp_prop_delay_ns l))"
    using one_kind_hop_cost[OF kind] ser pay by simp
  have fo: "fabric_ok (frozen s)" using setup_okD(1)[OF ok] by (simp add: fabric_ready_def)
  note complete_flow_time[OF rr pol run i c p x(2) cost min_hops_swap[OF fabric_okD(1)[OF fo] hops]]
  then show "unat (res_start_ns (sim_results s' ! i)) + t \<le> unat (res_finish_ns (sim_results s' ! i))"
    "t \<le> unat (fct_ns (sim_results s' ! i))"
    by (simp_all add: x(1) pp t least_time_def)
qed

lemma run_with_routing_policy:
  assumes "run_with_routing s algo seed = Some r"
  shows "\<exists>select. routing_policy select \<and> run_sim select s = Some r"
  using assms static_policy.routing_policy_axioms ecmp_policy.routing_policy_axioms
  by (cases algo) (auto simp: run_with_routing_def)

section \<open>The permutation scenario\<close>

lemma budget_covers:
  fixes m n a N D :: nat
  assumes "1 \<le> m" "1 \<le> n" "1 \<le> a"
  shows "22 * (N * D) \<le> ((4 * (5 * m * m + n) + 6) * a * (n * N) + n) * D"
proof -
  have "4 * (5 * 1 * 1 + 0) + 2 \<le> 4 * (5 * m * m + n) + 6" using assms by (intro add_mono mult_le_mono) simp_all
  then have "22 \<le> 4 * (5 * m * m + n) + 6" by (simp only: mult_1_right numeral_times_numeral add_0_right) simp
  then have "22 * 1 * (1 * N) \<le> (4 * (5 * m * m + n) + 6) * a * (n * N)" using assms by (intro mult_le_mono) simp_all
  then have "22 * N \<le> (4 * (5 * m * m + n) + 6) * a * (n * N)" by (simp only: mult_1 mult_1_right)
  then have "22 * N * D \<le> ((4 * (5 * m * m + n) + 6) * a * (n * N) + n) * D" by (intro mult_le_mono1 trans_le_add1)
  then show ?thesis by (simp only: mult.assoc)
qed

text \<open>The bound of a flow inside a scenario that fits does not wrap, and is zero for all flows or for none.\<close>

lemma permutation_bound_value:
  assumes fits: "permutation_fits cfg m n D" and h: "h < n" "g < n"
    and ser: "serialization_ns (ucast (pp_mtu_bytes (pc_workload cfg))) (lp_rate (ft_host_link (pc_topology cfg))) = Some ser"
  shows "\<exists>packets. unat packets = perm_packets (pc_workload cfg)
      \<and> permutation_flow_lower_bound_ns cfg (of_nat h) (of_nat g)
        = Some (paced_fct_ns packets (fat_tree_hops (ft_k (pc_topology cfg)) (of_nat h) (of_nat g)) ser
            (ser * 1000 div ucast (pp_load_permille (pc_workload cfg))) (lp_prop_delay_ns (ft_host_link (pc_topology cfg))))"
    "permutation_flow_lower_bound_ns cfg (of_nat h) (of_nat g) = Some 0
      \<longleftrightarrow> ser = 0 \<and> lp_prop_delay_ns (ft_host_link (pc_topology cfg)) = 0"
proof -
  let ?w = "pc_workload cfg" and ?l = "ft_host_link (pc_topology cfg)"
  let ?hops = "fat_tree_hops (ft_k (pc_topology cfg)) (of_nat h) (of_nat g)"
  let ?p = "ser * 1000 div ucast (pp_load_permille ?w)"
  let ?N = "perm_packets ?w"
  let ?spec = "default_flow_spec\<lparr>fs_size_bytes := pp_flow_bytes ?w, fs_mtu_bytes := pp_mtu_bytes ?w, fs_load_permille := pp_load_permille ?w\<rparr>"
  note F = fits[unfolded permutation_fits_def Let_def]
  have k: "arity (ft_k (pc_topology cfg)) m" and n: "n = 2 * m * m * m" "0 < n" using F by (auto simp: fat_tree_fits_def arity_def)
  have mtu: "0 < pp_mtu_bytes ?w" "0 < pp_flow_bytes ?w" "0 < pp_load_permille ?w" using F by blast+
  have N1: "1 \<le> ?N"
    using mtu by (simp add: perm_packets_def ceil_div_def word_less_nat_alt div_greater_zero_iff Suc_le_eq)
  have nN: "n * ?N < 2 ^ 32" using F by blast
  have "1 * ?N \<le> n * ?N" using n(2) by (intro mult_le_mono1) simp
  then have N: "?N < 2 ^ 32" using nN by linarith
  have ps: "packets_of ?spec = ?N" by (simp add: packets_of_def perm_packets_def)
  obtain packets where packets: "packets_for (pp_flow_bytes ?w) (pp_mtu_bytes ?w) = Some packets"
    using packets_for_some[OF mtu(1)] by blast
  have up: "unat packets = ?N"
    using packets_total_exact[of ?spec] packets mtu(1) ps N by (auto simp: packets_for_def bind_eq_Some_conv)
  have lb: "permutation_flow_lower_bound_ns cfg (of_nat h) (of_nat g)
      = Some (paced_fct_ns packets ?hops ser ?p (lp_prop_delay_ns ?l))"
    using packets ser mtu(3) by (simp add: permutation_flow_lower_bound_ns_def fabric_simps Let_def)
  then show "\<exists>packets. unat packets = perm_packets ?w
      \<and> permutation_flow_lower_bound_ns cfg (of_nat h) (of_nat g) = Some (paced_fct_ns packets ?hops ser ?p (lp_prop_delay_ns ?l))"
    using up by blast
  have l: "link_within ?l D" "D < 2 ^ 64" using F by blast+
  have sD: "1000 * unat ser \<le> D" "unat (lp_prop_delay_ns ?l) \<le> D"
    using serialization_within[OF l(1) ser] l(1) by (simp_all add: link_within_def)
  have "pacing_period ?spec (lp_rate ?l) = Some ?p" using ser mtu(3) by (simp add: pacing_period_def fabric_simps)
  then have pD: "unat ?p \<le> D" by (rule pacing_within[OF l(1) _ l(2)])
  have hops: "2 \<le> unat ?hops" "unat ?hops \<le> 6"
    using fat_tree_hops_nat[OF k h[unfolded n(1)]] by simp_all
  have tries: "1 \<le> unat (tc_max_attempts (pc_transport cfg))"
  proof -
    have "0 < tc_max_attempts (pc_transport cfg)" using F unfolding transport_within_def by blast
    then show ?thesis by (simp add: word_less_nat_alt)
  qed
  have "(?N - 1) * unat ?p + unat ?hops * (unat ser + unat (lp_prop_delay_ns ?l)) \<le> ?N * D + 6 * (D + D)"
    using pD hops(2) sD by (intro add_mono mult_le_mono) simp_all
  also have "\<dots> \<le> 22 * (?N * D)"
  proof -
    have "1 * D \<le> ?N * D" using N1 by (rule mult_le_mono1)
    moreover have "b + 6 * (1 * a + a) \<le> 22 * b" if "1 * a \<le> b" for a b :: nat using that by simp
    ultimately show ?thesis by (metis mult_1)
  qed
  also have "\<dots> \<le> ((4 * (5 * m * m + n) + 6) * unat (tc_max_attempts (pc_transport cfg)) * (n * ?N) + n) * D"
    using k n(2) tries by (intro budget_covers) (simp_all add: arity_def)
  also have "\<dots> < 2 ^ 64"
    by (rule le_less_trans[OF le_add2[of _ "unat (pp_max_start_jitter_ns ?w)"]]) (use F in blast)
  finally have small: "least_time (unat packets) (unat ?hops) ser ?p (lp_prop_delay_ns ?l) < 2 ^ 64"
    by (simp only: up least_time_def)
  have "packets \<noteq> 0" using up N1 by auto
  from paced_fct_eq[OF this small] have
    "unat (paced_fct_ns packets ?hops ser ?p (lp_prop_delay_ns ?l)) = 0 \<longleftrightarrow> ser = 0 \<and> lp_prop_delay_ns ?l = 0"
    using hops(1) by (auto simp: unat_eq_0 least_time_def)
  then show "permutation_flow_lower_bound_ns cfg (of_nat h) (of_nat g) = Some 0
      \<longleftrightarrow> ser = 0 \<and> lp_prop_delay_ns ?l = 0"
    using lb by (simp add: unat_eq_0)
qed

lemma running_best_zero: "\<forall>x \<in> set lbs. x = 0 \<Longrightarrow> running_best lbs = 0"
  unfolding running_best_def by (induction lbs rule: rev_induct) auto

lemma permutation_best_le:
  assumes fits: "permutation_fits cfg m n D" and b: "permutation_built cfg n \<pi> sc" and h: "h < n"
    and lb: "permutation_flow_lower_bound_ns cfg (of_nat h) (of_nat (\<pi> h)) = Some x"
  shows "psc_best_case_ns sc \<le> x"
proof -
  obtain lb where l: "\<And>h. h < n \<Longrightarrow> permutation_flow_lower_bound_ns cfg (of_nat h) (of_nat (\<pi> h)) = Some (lb h)"
    "psc_best_case_ns sc = running_best (map lb [0..<n])" and cyc: "single_cycle \<pi> n"
    using b by (auto simp: permutation_built_def)
  have rate: "lp_rate (ft_host_link (pc_topology cfg)) \<noteq> 0"
    using fits by (simp add: permutation_fits_def Let_def link_within_def)
  then obtain ser where ser: "serialization_ns (ucast (pp_mtu_bytes (pc_workload cfg))) (lp_rate (ft_host_link (pc_topology cfg))) = Some ser"
    using serialization_some by blast
  let ?z = "ser = 0 \<and> lp_prop_delay_ns (ft_host_link (pc_topology cfg)) = 0"
  have z: "lb g = 0 \<longleftrightarrow> ?z" if g: "g < n" for g
    using permutation_bound_value(2)[OF fits g single_cycle_less[OF cyc g] ser] l(1)[OF g] by simp
  have x: "x = lb h" using lb l(1)[OF h] by simp
  show ?thesis
  proof (cases ?z)
    case True
    then have "running_best (map lb [0..<n]) = 0" using z by (intro running_best_zero) auto
    then show ?thesis using l(2) by simp
  next
    case False
    then have "running_best (map lb [0..<n]) = Min (set (map lb [0..<n]))" using z h by (intro running_best_min) auto
    then show ?thesis using h by (simp add: l(2) x Min_le_iff)
  qed
qed

lemma permutation_flow_time:
  assumes fits: "permutation_fits cfg m n D" and same: "same_links (ft_host_link (pc_topology cfg)) (ft_fabric_link (pc_topology cfg))"
    and whole: "pp_flow_bytes (pc_workload cfg) mod ucast (pp_mtu_bytes (pc_workload cfg)) = 0"
    and b: "permutation_built cfg n \<pi> sc" and rr: "run_ready (psc_sim sc) D H"
    and run: "run_with_routing (psc_sim sc) algo seed = Some (st, s')"
    and h: "h < n" and c: "res_complete (sim_results s' ! h)"
  shows "\<exists>lb. permutation_flow_lower_bound_ns cfg (of_nat h) (of_nat (\<pi> h)) = Some lb \<and> lb \<le> fct_ns (sim_results s' ! h)"
proof -
  let ?s = "psc_sim sc" and ?w = "pc_workload cfg" and ?top = "pc_topology cfg"
  let ?l = "ft_host_link ?top"
  obtain select where sel: "routing_policy select" "run_sim select ?s = Some (st, s')"
    using run_with_routing_policy[OF run] by blast
  note F = fits[unfolded permutation_fits_def Let_def]
  have fft: "fat_tree_fits ?top m" and k: "arity (ft_k ?top) m" and n: "n = 2 * m * m * m"
    using F by (auto simp: fat_tree_fits_def arity_def)
  have B: "nflows ?s = n" "single_cycle \<pi> n" "build_fat_tree ?top = Some (frozen ?s)"
    "permutation_spec (frozen ?s) ?w h (\<pi> h) (sim_specs ?s ! h)"
    using b h by (auto simp: permutation_built_def)
  note sp = permutation_spec_fields[OF B(4)]
  have g: "\<pi> h < n" by (rule single_cycle_less[OF B(2) h])
  have "2 \<le> n"
  proof -
    have "1 * 1 * 1 \<le> m * m * m" using k by (intro mult_le_mono) (simp_all add: arity_def)
    then show ?thesis using n by simp
  qed
  then have ne: "\<pi> h \<noteq> h" using single_cycle_deranged[OF B(2) _ h] by blast
  have H: "host_count (frozen ?s) = n" "\<And>h g. h < n \<Longrightarrow> g < n \<Longrightarrow> g \<noteq> h \<Longrightarrow>
      min_hops (links (frozen ?s)) (id_index (fab_hosts (frozen ?s) ! h)) (id_index (fab_hosts (frozen ?s) ! g))
        (unat (fat_tree_hops (ft_k ?top) (of_nat h) (of_nat g)))"
    using fat_tree_ok[OF fft] B(3) arity_words[OF k] n by auto
  have kind: "one_kind (frozen ?s) ?l"
    using fat_tree_ports[OF fft B(3)] same by (auto simp: ports_from_def one_kind_def same_links_def)
  have rate: "lp_rate ?l \<noteq> 0" using F by (simp add: link_within_def)
  then obtain ser where ser: "serialization_ns (ucast (pp_mtu_bytes ?w)) (lp_rate ?l) = Some ser"
    using serialization_some by blast
  obtain packets where P: "unat packets = perm_packets ?w"
    "permutation_flow_lower_bound_ns cfg (of_nat h) (of_nat (\<pi> h))
        = Some (paced_fct_ns packets (fat_tree_hops (ft_k ?top) (of_nat h) (of_nat (\<pi> h))) ser
            (ser * 1000 div ucast (pp_load_permille ?w)) (lp_prop_delay_ns ?l))"
    using permutation_bound_value(1)[OF fits h g ser] by blast
  have u: "unat packets = packets_of (sim_specs ?s ! h)" using P(1) sp by (simp add: packets_of_def perm_packets_def)
  have "least_time (packets_of (sim_specs ?s ! h)) (unat (fat_tree_hops (ft_k ?top) (of_nat h) (of_nat (\<pi> h)))) ser
            (ser * 1000 div ucast (fs_load_permille (sim_specs ?s ! h))) (lp_prop_delay_ns ?l) \<le> unat (fct_ns (sim_results s' ! h))"
  proof (rule uniform_flow_least(2)[OF rr sel _ c kind])
    show "h < nflows ?s" using h B(1) by simp
    show "fs_size_bytes (sim_specs ?s ! h) mod ucast (fs_mtu_bytes (sim_specs ?s ! h)) = 0" using whole sp by simp
    show "serialization_ns (ucast (fs_mtu_bytes (sim_specs ?s ! h))) (lp_rate ?l) = Some ser" using ser sp by simp
    show "min_hops (links (frozen ?s)) (id_index (fs_src (sim_specs ?s ! h))) (id_index (fs_dst (sim_specs ?s ! h)))
        (unat (fat_tree_hops (ft_k ?top) (of_nat h) (of_nat (\<pi> h))))"
      using H(2)[OF h g] ne sp by simp
  qed simp
  moreover have "packets \<noteq> 0"
    using u setup_okD(15)[of ?s h] rr h B(1) by (auto simp: run_ready_def flow_shape_def word_less_nat_alt)
  ultimately show ?thesis
    using P(2) le_trans[OF paced_fct_le] by (simp add: word_le_nat_alt sp(5) flip: u)
qed

section \<open>The smoke scenario\<close>

lemma smoke_flow_time:
  assumes fits: "smoke_fits cfg D" and same: "same_links (ls_host_link (sm_topology cfg)) (ls_fabric_link (sm_topology cfg))"
    and whole: "sm_flow_bytes cfg mod ucast (sm_mtu_bytes cfg) = 0"
    and b: "smoke_built cfg sc" and rr: "run_ready (ss_sim sc) D H"
    and run: "run_with_routing (ss_sim sc) algo seed = Some (st, s')" and c: "res_complete (sim_results s' ! 0)"
  shows "ss_analytical_ns sc \<le> fct_ns (sim_results s' ! 0)"
proof -
  let ?s = "ss_sim sc" and ?l = "ls_host_link (sm_topology cfg)"
  obtain select where sel: "routing_policy select" "run_sim select ?s = Some (st, s')"
    using run_with_routing_policy[OF run] by blast
  note F = fits[unfolded smoke_fits_def Let_def] and B = b[unfolded smoke_built_def Let_def]
  have lf: "leaf_spine_fits (sm_topology cfg)" using F by blast
  obtain ser where ser: "serialization_ns (ucast (sm_mtu_bytes cfg)) (lp_rate ?l) = Some ser"
    "ss_analytical_ns sc = analytical_fct_ns (ss_packets sc) (ss_hops sc) ser (lp_prop_delay_ns ?l)" using B by blast
  have sp: "fs_mtu_bytes (sim_specs ?s ! 0) = sm_mtu_bytes cfg" "fs_size_bytes (sim_specs ?s ! 0) = sm_flow_bytes cfg"
    "fs_src (sim_specs ?s ! 0) = fab_hosts (frozen ?s) ! unat (sm_src_host cfg)"
    "fs_dst (sim_specs ?s ! 0) = fab_hosts (frozen ?s) ! unat (sm_dst_host cfg)"
    "fs_load_permille (sim_specs ?s ! 0) = 1000" "nflows ?s = 1"
    using B by (auto simp: default_flow_spec_def)
  have kind: "one_kind (frozen ?s) ?l"
    using leaf_spine_ports[OF lf, of "frozen ?s"] B same by (auto simp: ports_from_def one_kind_def same_links_def)
  have D: "1000 * unat ser \<le> D" "D < 2 ^ 64" using serialization_within[OF _ ser(1), of D] F by blast+
  then have "unat (ser * 1000) = unat ser * 1000" by (subst unat_mult_small) simp_all
  then have p: "ser * 1000 div 1000 = ser" by (simp add: word_unat_eq_iff unat_div)
  have u: "unat (ss_packets sc) = packets_of (sim_specs ?s ! 0)"
    using B sp by (simp add: packets_of_def smoke_packets_def)
  have "least_time (packets_of (sim_specs ?s ! 0)) (unat (ss_hops sc)) ser
            (ser * 1000 div ucast (fs_load_permille (sim_specs ?s ! 0))) (lp_prop_delay_ns ?l) \<le> unat (fct_ns (sim_results s' ! 0))"
  proof (rule uniform_flow_least(2)[OF rr sel _ c kind])
    show "0 < nflows ?s" using sp by simp
    show "fs_size_bytes (sim_specs ?s ! 0) mod ucast (fs_mtu_bytes (sim_specs ?s ! 0)) = 0" using whole sp by simp
    show "serialization_ns (ucast (fs_mtu_bytes (sim_specs ?s ! 0))) (lp_rate ?l) = Some ser" using ser sp by simp
    show "min_hops (links (frozen ?s)) (id_index (fs_src (sim_specs ?s ! 0))) (id_index (fs_dst (sim_specs ?s ! 0))) (unat (ss_hops sc))"
      using B sp by simp
  qed simp
  moreover have "ss_packets sc \<noteq> 0"
    using u setup_okD(15)[of ?s 0] rr sp(6) by (auto simp: run_ready_def flow_shape_def word_less_nat_alt)
  ultimately show ?thesis using analytical_fct_le[of "ss_packets sc" "ss_hops sc" ser "lp_prop_delay_ns ?l"] u
    by (simp add: ser(2) word_le_nat_alt sp(5) p)
qed

section \<open>The ring all-reduce\<close>

text \<open>A chain of dependent sends: each starts when the one before it finished.\<close>

lemma dependent_chain:
  assumes rr: "run_ready s D H" and pol: "routing_policy select" and run: "run_sim select s = Some (st, s')"
    and c: "\<And>i. i < nflows s \<Longrightarrow> res_complete (sim_results s' ! i)"
    and t: "\<And>i. i < nflows s \<Longrightarrow> unat (res_start_ns (sim_results s' ! i)) + t \<le> unat (res_finish_ns (sim_results s' ! i))"
    and i: "chain 0 < nflows s" "\<And>j. j < k \<Longrightarrow> chain (Suc j) < nflows s \<and> fs_depends_on (sim_specs s ! chain (Suc j)) = id_at (chain j)"
  shows "Suc k * t \<le> unat (res_finish_ns (sim_results s' ! chain k))"
  using i(2)
proof (induction k)
  case 0
  then show ?case using t[OF i(1)] by simp
next
  case (Suc k)
  obtain u where u: "s' = end_run u" "settled s u" by (rule run_sim_settled[OF rr pol run])
  have n: "nflows s < 2 ^ 32 - 1" using rr setup_okD(2) by (simp add: run_ready_def)
  have k: "chain k < nflows s" using i(1) Suc.prems[of "k - 1"] by (cases k) auto
  have dep: "chain (Suc k) < nflows s" "fs_depends_on (sim_specs s ! chain (Suc k)) = id_at (chain k)" using Suc.prems by auto
  have lt: "chain k < 2 ^ 32 - 1" using k n by linarith
  then have "id_valid (fs_depends_on (sim_specs s ! chain (Suc k)))" "id_index (fs_depends_on (sim_specs s ! chain (Suc k))) = chain k"
    using id_valid_at[OF lt] by (simp_all add: dep(2))
  then have "res_start_ns (sim_results s' ! chain (Suc k)) = res_finish_ns (sim_results s' ! chain k)"
    using settled_clock(3)[OF u(2) dep(1)] c[OF k] by (simp add: u(1))
  moreover have "Suc k * t \<le> unat (res_finish_ns (sim_results s' ! chain k))" using Suc.IH Suc.prems by simp
  ultimately show ?case using t[OF dep(1)] by simp
qed

lemma all_reduce_uniform_hops:
  assumes b: "all_reduce_built cfg m N ports sc" and u: "asc_uniform_hops sc" and r: "r < N"
  shows "ring_hops (ft_k (ac_topology cfg)) (ap_placement (ac_workload cfg)) m N r = asc_hops sc"
  using b u r unfolding all_reduce_built_def Let_def by metis

text \<open>The least a send of the ring takes, when all its steps cross the same number of links.\<close>

definition send_time :: "AllReduceConfig \<Rightarrow> nat \<Rightarrow> AllReduceScenario \<Rightarrow> Nanos \<Rightarrow> nat" where
  "send_time cfg N sc ser = least_time (chunk_packs (ac_workload cfg) N) (unat (asc_hops sc)) ser
     (ser * 1000 div ucast (ap_load_permille (ac_workload cfg))) (lp_prop_delay_ns (ft_host_link (ac_topology cfg)))"

lemma all_reduce_send_time:
  assumes fits: "all_reduce_fits cfg m N D" and same: "same_links (ft_host_link (ac_topology cfg)) (ft_fabric_link (ac_topology cfg))"
    and uniform: "asc_uniform_hops sc" and whole: "asc_chunk_bytes sc mod ucast (ap_mtu_bytes (ac_workload cfg)) = 0"
    and b: "all_reduce_built cfg m N ports sc" and rr: "run_ready (asc_sim sc) D H"
    and sel: "routing_policy select" "run_sim select (asc_sim sc) = Some (st, s')"
    and ser: "serialization_ns (ucast (ap_mtu_bytes (ac_workload cfg))) (lp_rate (ft_host_link (ac_topology cfg))) = Some ser"
    and i: "i < nflows (asc_sim sc)" and c: "res_complete (sim_results s' ! i)"
  shows "unat (res_start_ns (sim_results s' ! i)) + send_time cfg N sc ser \<le> unat (res_finish_ns (sim_results s' ! i))"
proof -
  let ?s = "asc_sim sc" and ?w = "ac_workload cfg" and ?top = "ac_topology cfg"
  let ?l = "ft_host_link ?top" and ?\<sigma> = "ring_host (ap_placement (ac_workload cfg)) m" and ?S = "2 * (N - 1)"
  let ?n = "2 * m * m * m"
  note F = fits[unfolded all_reduce_fits_def Let_def] and B = b[unfolded all_reduce_built_def Let_def]
  have fft: "fat_tree_fits ?top m" and k: "arity (ft_k ?top) m" and N: "2 \<le> N" "N \<le> ?n"
    using F by (auto simp: fat_tree_fits_def arity_def)
  have bf: "build_fat_tree ?top = Some (frozen ?s)" using B by blast
  have H: "host_count (frozen ?s) = ?n" "\<And>h g. h < ?n \<Longrightarrow> g < ?n \<Longrightarrow> g \<noteq> h \<Longrightarrow>
      min_hops (links (frozen ?s)) (id_index (fab_hosts (frozen ?s) ! h)) (id_index (fab_hosts (frozen ?s) ! g))
        (unat (fat_tree_hops (ft_k ?top) (of_nat h) (of_nat g)))"
    using fat_tree_ok[OF fft] bf arity_words[OF k] by auto
  have place: "placement_fits (frozen ?s) (?w\<lparr>ap_fat_tree_k := ft_k ?top\<rparr>) m N"
    using F N k H(1) by (auto simp: placement_fits_def split: RingPlacement.split)
  have kind: "one_kind (frozen ?s) ?l"
    using fat_tree_ports[OF fft bf] same by (auto simp: ports_from_def one_kind_def same_links_def)
  have nf: "nflows ?s = ?S * N" using B by blast
  have spec: "sim_specs ?s ! (t * N + r) = ring_spec (frozen ?s) ?w (asc_chunk_bytes sc) ?\<sigma> ports N t r" if "t < ?S" "r < N" for t r
    using B that by blast
  show ?thesis
  proof (rule uniform_flow_least(1)[OF rr sel i c kind])
    define t where "t = i div N" define r where "r = i mod N"
    have r: "r < N" using N(1) by (simp add: r_def)
    then have "(r + 1) mod N < N" "(r + 1) mod N \<noteq> r" using N(1) by (simp_all add: mod_Suc)
    moreover have "i = t * N + r" "t < ?S" using i nf by (simp_all add: t_def r_def less_mult_imp_div_less)
    ultimately have tr: "i = t * N + r" "t < ?S" "r < N" "(r + 1) mod N < N" "(r + 1) mod N \<noteq> r" using r by blast+
    have sp: "sim_specs ?s ! i = ring_spec (frozen ?s) ?w (asc_chunk_bytes sc) ?\<sigma> ports N t r" using spec[OF tr(2,3)] tr(1) by simp
    show "fs_size_bytes (sim_specs ?s ! i) mod ucast (fs_mtu_bytes (sim_specs ?s ! i)) = 0" using whole by (simp add: sp ring_spec_def)
    show "serialization_ns (ucast (fs_mtu_bytes (sim_specs ?s ! i))) (lp_rate ?l) = Some ser" using ser by (simp add: sp ring_spec_def)
    have host: "?\<sigma> r < ?n" "?\<sigma> ((r + 1) mod N) < ?n"
      using ring_host_less[OF place tr(3)] ring_host_less[OF place tr(4)] H(1) by simp_all
    have "?\<sigma> ((r + 1) mod N) \<noteq> ?\<sigma> r"
      using inj_onD[OF ring_host_inj[OF place]] tr(3-5) by auto
    then have "min_hops (links (frozen ?s)) (id_index (fab_hosts (frozen ?s) ! ?\<sigma> r)) (id_index (fab_hosts (frozen ?s) ! ?\<sigma> ((r + 1) mod N)))
        (unat (ring_hops (ft_k ?top) (ap_placement ?w) m N r))"
      unfolding ring_hops_def by (rule H(2)[OF host])
    then show "min_hops (links (frozen ?s)) (id_index (fs_src (sim_specs ?s ! i))) (id_index (fs_dst (sim_specs ?s ! i))) (unat (asc_hops sc))"
      using all_reduce_uniform_hops[OF b uniform tr(3)] by (simp add: sp ring_spec_def)
    have "packets_of (sim_specs ?s ! i) = chunk_packs ?w N"
      using B by (simp add: sp packets_of_def ring_spec_def chunk_packs_def)
    then show "send_time cfg N sc ser = least_time (packets_of (sim_specs ?s ! i)) (unat (asc_hops sc)) ser
        (ser * 1000 div ucast (fs_load_permille (sim_specs ?s ! i))) (lp_prop_delay_ns ?l)"
      by (simp add: send_time_def sp ring_spec_def)
  qed
qed

lemma all_reduce_time:
  assumes fits: "all_reduce_fits cfg m N D" and same: "same_links (ft_host_link (ac_topology cfg)) (ft_fabric_link (ac_topology cfg))"
    and uniform: "asc_uniform_hops sc" and whole: "asc_chunk_bytes sc mod ucast (ap_mtu_bytes (ac_workload cfg)) = 0"
    and b: "all_reduce_built cfg m N ports sc" and rr: "run_ready (asc_sim sc) D H"
    and run: "run_with_routing (asc_sim sc) algo seed = Some (st, s')"
    and c: "\<And>i. i < nflows (asc_sim sc) \<Longrightarrow> res_complete (sim_results s' ! i)"
  shows "asc_analytical_ns sc \<le> collective_time_ns (sim_results s')"
proof -
  let ?s = "asc_sim sc" and ?w = "ac_workload cfg" and ?top = "ac_topology cfg"
  let ?l = "ft_host_link ?top" and ?\<sigma> = "ring_host (ap_placement (ac_workload cfg)) m" and ?S = "2 * (N - 1)"
  obtain select where sel: "routing_policy select" "run_sim select ?s = Some (st, s')"
    using run_with_routing_policy[OF run] by blast
  note F = fits[unfolded all_reduce_fits_def Let_def] and B = b[unfolded all_reduce_built_def Let_def]
  have N: "2 \<le> N" using F by blast
  obtain ser where ser: "serialization_ns (ucast (ap_mtu_bytes ?w)) (lp_rate ?l) = Some ser"
    "asc_analytical_ns sc = all_reduce_analytical_ns (asc_steps sc) (asc_chunk_packets sc) (asc_hops sc) ser
       (ser * 1000 div ucast (ap_load_permille ?w)) (lp_prop_delay_ns ?l)" using B by blast
  have nf: "nflows ?s = ?S * N" using B by blast
  have spec: "sim_specs ?s ! (t * N + r) = ring_spec (frozen ?s) ?w (asc_chunk_bytes sc) ?\<sigma> ports N t r" if "t < ?S" "r < N" for t r
    using B that by blast
  define T where "T = send_time cfg N sc ser"
  have least: "unat (res_start_ns (sim_results s' ! i)) + T \<le> unat (res_finish_ns (sim_results s' ! i))" if i: "i < nflows ?s" for i
    unfolding T_def by (rule all_reduce_send_time[OF fits same uniform whole b rr sel ser(1) i c[OF i]])
  define chain where "chain j = j * N + j mod N" for j
  have inside: "chain j < nflows ?s" if "j < ?S" for j
  proof -
    have "j * N + j mod N < Suc j * N" using N by simp
    also have "\<dots> \<le> ?S * N" using that by (intro mult_le_mono1) simp
    finally show ?thesis by (simp add: chain_def nf)
  qed
  have dep: "fs_depends_on (sim_specs ?s ! chain (Suc j)) = id_at (chain j)" if j: "Suc j < ?S" for j
  proof -
    have "(Suc j mod N + N - 1) mod N = j mod N" using N by (auto simp: mod_Suc)
    then show ?thesis using spec[OF j, of "Suc j mod N"] N by (simp add: chain_def ring_spec_def)
  qed
  let ?last = "?S - 1"
  have S: "0 < ?S" "?S = Suc ?last" using N by simp_all
  have "Suc ?last * T \<le> unat (res_finish_ns (sim_results s' ! chain ?last))"
    using S inside dep by (intro dependent_chain[OF rr sel c least]) auto
  then have fin: "?S * T \<le> unat (res_finish_ns (sim_results s' ! chain ?last))" using S(2) by simp
  obtain u where u: "s' = end_run u" "settled ?s u" by (rule run_sim_settled[OF rr sel])
  then have len: "length (sim_results s') = nflows ?s" using settledD(5)[OF u(2)] by simp
  have "chain ?last < length (sim_results s')" using inside S len by simp
  then have mem: "sim_results s' ! chain ?last \<in> set (sim_results s')" by simp
  have "\<forall>r \<in> set (sim_results s'). res_complete r" using c len by (auto simp: in_set_conv_nth)
  then have "collective_time_ns (sim_results s') = Max (insert 0 (res_finish_ns ` set (sim_results s')))"
    by (simp add: collective_time_max)
  moreover have "res_finish_ns (sim_results s' ! chain ?last) \<le> Max (insert 0 (res_finish_ns ` set (sim_results s')))"
    using mem by (intro Max_ge) auto
  ultimately have top: "unat (res_finish_ns (sim_results s' ! chain ?last)) \<le> unat (collective_time_ns (sim_results s'))"
    by (simp add: word_le_nat_alt)
  have cp: "unat (asc_chunk_packets sc) = chunk_packs ?w N" and st: "unat (asc_steps sc) = ?S" using B by blast+
  have "0 < unat (ap_mtu_bytes ?w)" "N \<le> unat (ap_buffer_bytes ?w)" using F by (auto simp: word_less_nat_alt)
  moreover from this have "0 < unat (ap_buffer_bytes ?w) div N" using N by (simp add: div_greater_zero_iff)
  ultimately have "chunk_packs ?w N \<noteq> 0"
    using ceil_div_le_iff[of "unat (ap_mtu_bytes ?w)" "unat (ap_buffer_bytes ?w) div N" 0]
    by (simp add: chunk_packs_def chunk_size_def)
  then have "asc_chunk_packets sc \<noteq> 0" using cp by auto
  from all_reduce_analytical_le[OF this]
  have "unat (asc_analytical_ns sc) \<le> ?S * T" unfolding ser(2) T_def send_time_def by (metis cp st)
  then show ?thesis using fin top by (simp add: word_le_nat_alt)
qed

end
