(* ===== verification/Sample_Light.thy ===== *)
theory Sample_Light
  imports Sample_Run Closed_Forms
begin

text \<open>What the last packet of the sample run's first flow costs, and how far it goes.\<close>

lemma sample_distance: "min_hops (links sample_fabric) 2 1 2" "min_hops (links sample_fabric) 1 2 2"
proof -
  have fo: "fabric_ok sample_fabric" by (rule sample_shape)
  have h: "id_index (fab_hosts sample_fabric ! 0) = 1" "id_index (fab_hosts sample_fabric ! 1) = 2"
    by (simp_all add: sample_fabric_def id_index_def)
  have d: "host_dist sample_fabric 0 ! 2 = 2" "host_dist sample_fabric 1 ! 1 = 2" using sample_dist by simp_all
  obtain n where n: "min_hops (links sample_fabric) 1 2 n"
    using host_dist_min_hops(1)[OF fo, of 0 2] h d by (auto simp: sample_counts kUnreachable_def)
  then have "n = 2" using host_dist_min_hops(2)[OF fo, of 0 2 n] h d by (simp add: sample_counts)
  then show m: "min_hops (links sample_fabric) 1 2 2" using n by simp
  show "min_hops (links sample_fabric) 2 1 2" by (rule min_hops_swap[OF fabric_okD(1)[OF fo] m])
qed

lemma sample_last_packet: "payload (sample_spec 0) 1 = 1000" "flow_period sample_sim 0 = Some 1500"
  by (simp add: payload_def) code_simp

lemma sample_hop_cost: "hop_cost (frozen sample_sim) 1000 1005"
proof -
  have "list_all (\<lambda>p. port_rate p = 8000000000 \<and> port_prop_delay_ns p = 5) (fab_ports sample_fabric)"
    by code_simp
  moreover have "serialization_ns (ucast (1000 :: u16)) 8000000000 = Some 1000"
    by (simp add: serialization_ns_def kBitsPerByte_def kNanosPerSec_def)
  ultimately show ?thesis
    by (auto simp: hop_cost_def sample_sim_frozen list_all_length port_count_def)
qed

text \<open>
  The flow's last packet is shorter than the MTU, and the closed form, which charges every packet a
  whole MTU, is more than the flow takes: it bounds flows of whole packets only.
\<close>

lemma partial_packet_beats_closed_form:
  "fct_ns (sim_results sample_end ! 0) < paced_fct_ns 2 2 1500 1500 5"
proof -
  have "map fct_ns (sim_results sample_end) = [4010, 274]"
    using arg_cong[OF sample_results, of "map (\<lambda>t. fst (snd t) - fst t)"] by (simp add: comp_def fct_ns_def[abs_def])
  then obtain a b where "sim_results sample_end = [a, b]" "fct_ns a = 4010"
    by (cases "sim_results sample_end" rule: remdups_adj.cases) auto
  then show ?thesis by (simp add: paced_fct_ns_def)
qed

end
