(* ===== verification/Sim_Digest.thy ===== *)
theory Sim_Digest
  imports Simulation
begin

text \<open>
  \<open>result_digest\<close>: folding one flow into the digest loses nothing, and a change of a single
  word that the digest reads always changes it; the packet total of a flow is not read.
\<close>

definition packed_counts :: "u32 \<Rightarrow> u32 \<Rightarrow> u64" where
  "packed_counts a b = push_bit 32 (ucast a) OR ucast b"

definition packed_flags :: "u32 \<Rightarrow> bool \<Rightarrow> bool \<Rightarrow> u64" where
  "packed_flags n f c = push_bit 2 (ucast n) OR push_bit 1 (of_bool f) OR of_bool c"

definition result_words :: "FlowResult \<Rightarrow> u64 list" where
  "result_words r = [res_start_ns r, res_finish_ns r, res_delivered_bytes r,
     packed_counts (res_packets_delivered r) (res_packets_dropped r),
     packed_flags (res_packets_retransmitted r) (res_failed r) (res_complete r)]"

definition absorb :: "u64 \<Rightarrow> u64 \<Rightarrow> u64" where
  "absorb w h = mix64 (h XOR w)"

lemma digest_absorb: "digest_result r h = fold absorb (result_words r) h"
  by (simp add: digest_result_def result_words_def absorb_def Let_def packed_counts_def packed_flags_def)

lemma xor_left_cancel: "(h XOR w = h XOR w') \<longleftrightarrow> w = (w' :: u64)"
proof
  assume "h XOR w = h XOR w'"
  then have "h XOR (h XOR w) = h XOR (h XOR w')" by simp
  then show "w = w'" by (simp flip: xor.assoc)
qed simp

lemma absorb_inject: "absorb w h = absorb w h' \<longleftrightarrow> h = h'" "absorb w h = absorb w' h \<longleftrightarrow> w = w'"
  using xor_left_cancel[of w h h'] xor_left_cancel[of h w w']
  by (simp_all add: absorb_def mix64_inject xor.commute)

lemma fold_absorb_inject: "fold absorb ws h = fold absorb ws h' \<longleftrightarrow> h = h'"
  by (induction ws arbitrary: h h') (simp_all add: absorb_inject)

lemma fold_digest_inject: "fold digest_result rs h = fold digest_result rs h' \<longleftrightarrow> h = h'"
  by (induction rs arbitrary: h h') (simp_all add: digest_absorb fold_absorb_inject)

lemma digest_word_change:
  assumes "result_words r = us @ w # vs" "result_words r' = us @ w' # vs"
  shows "digest_result r h = digest_result r' h \<longleftrightarrow> w = w'"
  by (simp add: digest_absorb assms fold_absorb_inject absorb_inject)

lemma result_digest_update:
  assumes "i < length (sim_results s)" "result_words (sim_results s ! i) = us @ w # vs" "result_words r = us @ w' # vs"
  shows "result_digest (s\<lparr>sim_results := (sim_results s)[i := r]\<rparr>) = result_digest s \<longleftrightarrow> w' = w"
proof -
  let ?rs = "sim_results s"
  define h where "h = fold digest_result (take i ?rs) 0xCBF29CE484222325"
  have "fold digest_result (take i ?rs @ ?rs ! i # drop (Suc i) ?rs) 0xCBF29CE484222325
      = fold digest_result (drop (Suc i) ?rs) (digest_result (?rs ! i) h)"
    by (simp add: h_def)
  then have "result_digest s = fold digest_result (drop (Suc i) ?rs) (digest_result (?rs ! i) h)"
    using assms(1) by (simp add: result_digest_def id_take_nth_drop[symmetric])
  moreover have "result_digest (s\<lparr>sim_results := ?rs[i := r]\<rparr>) = fold digest_result (drop (Suc i) ?rs) (digest_result r h)"
    using assms(1) by (simp add: result_digest_def h_def upd_conv_take_nth_drop)
  ultimately show ?thesis
    using digest_word_change[OF assms(3,2)] by (simp add: fold_digest_inject)
qed

text \<open>The packed counters are recovered from their word.\<close>

lemma packed_counts_inject [simp]: "packed_counts a b = packed_counts c d \<longleftrightarrow> a = c \<and> b = d"
proof
  assume eq: "packed_counts a b = packed_counts c d"
  have hi: "drop_bit 32 (packed_counts x y) = ucast x" for x y
    unfolding packed_counts_def by (rule bit_word_eqI) (auto simp: bit_simps dest: bit_imp_le_length)
  have lo: "take_bit 32 (packed_counts x y) = ucast y" for x y
    unfolding packed_counts_def by (rule bit_word_eqI) (auto simp: bit_simps dest: bit_imp_le_length)
  have "(ucast a :: u64) = ucast c" "(ucast b :: u64) = ucast d" using eq hi lo by metis+
  then show "a = c \<and> b = d" by (simp add: word_unat_eq_iff unat_ucast_up_eq)
qed simp

lemma packed_flags_inject [simp]: "packed_flags a f c = packed_flags b g d \<longleftrightarrow> a = b \<and> f = g \<and> c = d"
proof
  assume eq: "packed_flags a f c = packed_flags b g d"
  have hi: "drop_bit 2 (packed_flags x p q) = ucast x" for x p q
    unfolding packed_flags_def
    by (rule bit_word_eqI) (cases p; cases q; auto simp: bit_simps bit_1_iff dest: bit_imp_le_length)
  have b0: "bit (packed_flags x p q) 0 = q" for x p q
    unfolding packed_flags_def by (cases p; cases q) (auto simp: bit_simps)
  have b1: "bit (packed_flags x p q) 1 = p" for x p q
    unfolding packed_flags_def by (cases p; cases q) (auto simp: bit_simps)
  have "(ucast a :: u64) = ucast b" "f = g" "c = d" using eq hi b0 b1 by metis+
  then show "a = b \<and> f = g \<and> c = d" by (simp add: word_unat_eq_iff unat_ucast_up_eq)
qed simp

text \<open>A change of one field is a change of one word.\<close>

definition field_changes :: "FlowResult \<Rightarrow> u64 \<Rightarrow> u32 \<Rightarrow> bool \<Rightarrow> FlowResult set" where
  "field_changes r t n c = {r\<lparr>res_start_ns := t\<rparr>, r\<lparr>res_finish_ns := t\<rparr>, r\<lparr>res_delivered_bytes := t\<rparr>,
     r\<lparr>res_packets_delivered := n\<rparr>, r\<lparr>res_packets_dropped := n\<rparr>, r\<lparr>res_packets_retransmitted := n\<rparr>,
     r\<lparr>res_complete := c\<rparr>, r\<lparr>res_failed := c\<rparr>}"

lemma field_change_word:
  assumes "r' \<in> field_changes r t n c"
  shows "\<exists>us w vs w'. result_words r = us @ w # vs \<and> result_words r' = us @ w' # vs \<and> (w' = w \<longleftrightarrow> r' = r)"
proof -
  define p where "p = [result_words r ! 0, result_words r ! 1, result_words r ! 2, result_words r ! 3]"
  consider "r' = r\<lparr>res_start_ns := t\<rparr>" | "r' = r\<lparr>res_finish_ns := t\<rparr>" | "r' = r\<lparr>res_delivered_bytes := t\<rparr>"
    | "r' = r\<lparr>res_packets_delivered := n\<rparr> \<or> r' = r\<lparr>res_packets_dropped := n\<rparr>"
    | "r' = r\<lparr>res_packets_retransmitted := n\<rparr> \<or> r' = r\<lparr>res_complete := c\<rparr> \<or> r' = r\<lparr>res_failed := c\<rparr>"
    using assms unfolding field_changes_def by blast
  then show ?thesis
  proof cases
    case 1
    then show ?thesis by (cases r) (intro exI[of _ "[]"], auto simp: result_words_def)
  next
    case 2
    then show ?thesis by (cases r) (intro exI[of _ "take 1 p"], auto simp: p_def result_words_def)
  next
    case 3
    then show ?thesis by (cases r) (intro exI[of _ "take 2 p"], auto simp: p_def result_words_def)
  next
    case 4
    then show ?thesis
      by (cases r) (intro exI[of _ "take 3 p"], auto simp: p_def result_words_def)
  next
    case 5
    then show ?thesis
      by (cases r) (intro exI[of _ p], auto simp: p_def result_words_def)
  qed
qed

lemma digest_field_change:
  assumes "i < length (sim_results s)" "r' \<in> field_changes (sim_results s ! i) t n c"
  shows "result_digest (s\<lparr>sim_results := (sim_results s)[i := r']\<rparr>) = result_digest s \<longleftrightarrow> r' = sim_results s ! i"
  using field_change_word[OF assms(2)] result_digest_update[OF assms(1)] by metis

text \<open>The number of packets a flow has is not part of the digest.\<close>

lemma digest_skips_total:
  assumes "i < length (sim_results s)"
  shows "result_digest (s\<lparr>sim_results := (sim_results s)[i := r\<lparr>res_packets_total := m\<rparr>]\<rparr>)
    = result_digest (s\<lparr>sim_results := (sim_results s)[i := r]\<rparr>)"
  using assms by (simp add: result_digest_def digest_absorb result_words_def upd_conv_take_nth_drop)

end
