(* ===== verification/Cli.thy ===== *)
theory Cli
  imports Scenario Sim_Digest
begin

text \<open>
  \<^verbatim>\<open>apps/fabricsim/main.cpp\<close>: the options, their parsing and validation, and the three
  commands with the exit code they return.  Text output and the wall-clock timer are left
  out; the numbers a command reports are part of its result.
\<close>

section \<open>Options\<close>

record Options =
  op_k :: u32
  op_routing :: RoutingAlgorithm
  op_seed :: u64
  op_flow_bytes :: Bytes
  op_buffer_bytes :: Bytes
  op_gpus :: u32
  op_placement :: RingPlacement
  op_mtu_bytes :: u16
  op_load_permille :: u32
  op_window_pkts :: u32
  op_ack_bytes :: Bytes
  op_rto_ns :: Nanos
  op_queue_pkts :: u32

definition default_options :: Options where
  "default_options = \<lparr>op_k = 8, op_routing = Ecmp, op_seed = 0, op_flow_bytes = 1000000, op_buffer_bytes = 1920000,
     op_gpus = 0, op_placement = RoundRobinPods, op_mtu_bytes = 1500, op_load_permille = 1000, op_window_pkts = 32,
     op_ack_bytes = 64, op_rto_ns = 0, op_queue_pkts = 128\<rparr>"

definition match_value :: "string \<Rightarrow> string \<Rightarrow> string option" where
  "match_value arg key =
     (if take (length key) arg \<noteq> key \<or> length arg \<le> length key \<or> arg ! length key \<noteq> CHR ''=''
      then None else Some (drop (length key + 1) arg))"

text \<open>\<^verbatim>\<open>std::from_chars\<close> on an unsigned 64-bit integer, base 10, with the test that all of the text was read.\<close>

definition digit_of :: "char \<Rightarrow> nat option" where
  "digit_of c = (if 48 \<le> (of_char c :: nat) \<and> (of_char c :: nat) \<le> 57 then Some (of_char c - 48) else None)"

fun read_digits :: "nat \<Rightarrow> string \<Rightarrow> nat option" where
  "read_digits acc [] = Some acc"
| "read_digits acc (c # cs) = (case digit_of c of None \<Rightarrow> None | Some d \<Rightarrow> read_digits (10 * acc + d) cs)"

definition parse_u64 :: "string \<Rightarrow> u64 option" where
  "parse_u64 s = (if s = [] then None else case read_digits 0 s of
     None \<Rightarrow> None | Some n \<Rightarrow> if n < 18446744073709551616 then Some (of_nat n) else None)"

datatype cli_error = Bad_K | Bad_Routing | Bad_Placement | Bad_Seed | Bad_Bytes | Bad_Buffer | Bad_Gpus | Bad_Mtu
  | Bad_Load | Bad_Window | Bad_Ack | Bad_Rto | Bad_Queue | Unrecognised string | Unknown_Scenario string

text \<open>A number that must satisfy a test, with the error of its option.\<close>

definition number_where :: "string \<Rightarrow> (u64 \<Rightarrow> bool) \<Rightarrow> cli_error \<Rightarrow> (u64 \<Rightarrow> 'a) \<Rightarrow> cli_error + 'a" where
  "number_where v P e f = (case parse_u64 v of None \<Rightarrow> Inl e | Some n \<Rightarrow> if P n then Inr (f n) else Inl e)"

text \<open>One arm of the chain of \<open>match_value\<close> tests.\<close>

definition if_match :: "string \<Rightarrow> string \<Rightarrow> (string \<Rightarrow> 'a) \<Rightarrow> 'a \<Rightarrow> 'a" where
  "if_match arg key f rest = (case match_value arg key of Some v \<Rightarrow> f v | None \<Rightarrow> rest)"

definition parse_arg :: "string \<Rightarrow> string \<times> Options \<Rightarrow> cli_error + string \<times> Options" where
  "parse_arg arg st = (let scenario = fst st; opt = snd st in
     if_match arg ''--scenario'' (\<lambda>v. Inr (v, opt))
     (if_match arg ''--k'' (\<lambda>v. number_where v (\<lambda>n. 2 \<le> n \<and> n mod 2 = 0 \<and> n \<le> 64) Bad_K
        (\<lambda>n. (scenario, opt\<lparr>op_k := ucast n\<rparr>)))
     (if_match arg ''--routing'' (\<lambda>v. case parse_routing v of None \<Rightarrow> Inl Bad_Routing
        | Some a \<Rightarrow> Inr (scenario, opt\<lparr>op_routing := a\<rparr>))
     (if_match arg ''--placement'' (\<lambda>v. if v = ''pods'' then Inr (scenario, opt\<lparr>op_placement := RoundRobinPods\<rparr>)
        else if v = ''seq'' then Inr (scenario, opt\<lparr>op_placement := Sequential\<rparr>) else Inl Bad_Placement)
     (if_match arg ''--seed'' (\<lambda>v. number_where v (\<lambda>n. True) Bad_Seed (\<lambda>n. (scenario, opt\<lparr>op_seed := n\<rparr>)))
     (if_match arg ''--bytes'' (\<lambda>v. number_where v (\<lambda>n. n \<noteq> 0) Bad_Bytes (\<lambda>n. (scenario, opt\<lparr>op_flow_bytes := n\<rparr>)))
     (if_match arg ''--buffer'' (\<lambda>v. number_where v (\<lambda>n. n \<noteq> 0) Bad_Buffer (\<lambda>n. (scenario, opt\<lparr>op_buffer_bytes := n\<rparr>)))
     (if_match arg ''--gpus'' (\<lambda>v. number_where v (\<lambda>n. 2 \<le> n) Bad_Gpus (\<lambda>n. (scenario, opt\<lparr>op_gpus := ucast n\<rparr>)))
     (if_match arg ''--mtu'' (\<lambda>v. number_where v (\<lambda>n. n \<noteq> 0 \<and> n \<le> kMaxPacketBytes) Bad_Mtu
        (\<lambda>n. (scenario, opt\<lparr>op_mtu_bytes := ucast n\<rparr>)))
     (if_match arg ''--load'' (\<lambda>v. number_where v (\<lambda>n. n \<noteq> 0 \<and> n \<le> 1000) Bad_Load
        (\<lambda>n. (scenario, opt\<lparr>op_load_permille := ucast n\<rparr>)))
     (if_match arg ''--window'' (\<lambda>v. number_where v (\<lambda>n. n \<noteq> 0) Bad_Window (\<lambda>n. (scenario, opt\<lparr>op_window_pkts := ucast n\<rparr>)))
     (if_match arg ''--ack'' (\<lambda>v. number_where v (\<lambda>n. n \<noteq> 0 \<and> n \<le> kMaxPacketBytes) Bad_Ack
        (\<lambda>n. (scenario, opt\<lparr>op_ack_bytes := n\<rparr>)))
     (if_match arg ''--rto'' (\<lambda>v. number_where v (\<lambda>n. True) Bad_Rto (\<lambda>n. (scenario, opt\<lparr>op_rto_ns := n\<rparr>)))
     (if_match arg ''--queue'' (\<lambda>v. number_where v (\<lambda>n. n \<noteq> 0) Bad_Queue (\<lambda>n. (scenario, opt\<lparr>op_queue_pkts := ucast n\<rparr>)))
     (Inl (Unrecognised arg))))))))))))))))"

text \<open>The loop over the arguments: \<open>None\<close> is the early exit of \<open>--help\<close>.\<close>

fun parse_args :: "string list \<Rightarrow> string \<times> Options \<Rightarrow> cli_error + (string \<times> Options) option" where
  "parse_args [] st = Inr (Some st)"
| "parse_args (arg # args) st =
     (if arg = ''--help'' \<or> arg = ''-h'' then Inr None
      else case parse_arg arg st of Inl e \<Rightarrow> Inl e | Inr st' \<Rightarrow> parse_args args st')"

section \<open>The commands\<close>

text \<open>
  A command returns its exit status and the results it prints; \<^const>\<open>None\<close> is a failed
  assertion or an undefined operation.
\<close>

record Report =
  rp_success :: bool
  rp_stats :: RunStats
  rp_digest :: u64

definition smoke_succeeds :: "FlowResult \<Rightarrow> RunStats \<Rightarrow> bool" where
  "smoke_succeeds r stats \<longleftrightarrow> res_complete r \<and> rs_bytes_dropped stats = 0"

definition run_smoke :: "Report option" where
  "run_smoke = do {
     sc \<leftarrow> build_smoke default_smoke;
     (stats, s) \<leftarrow> run_static (ss_sim sc);
     r \<leftarrow> vget (sim_results s) (id_index (ss_flow sc));
     Some \<lparr>rp_success = smoke_succeeds r stats, rp_stats = stats, rp_digest = result_digest s\<rparr>
   }"

definition permutation_config :: "Options \<Rightarrow> PermutationConfig" where
  "permutation_config opt = (
     let top = default_fat_tree\<lparr>ft_k := op_k opt,
           ft_host_link := default_link\<lparr>lp_queue_capacity_pkts := unat (op_queue_pkts opt)\<rparr>,
           ft_fabric_link := default_link\<lparr>lp_queue_capacity_pkts := unat (op_queue_pkts opt)\<rparr>\<rparr>;
         w = default_permutation\<lparr>pp_seed := op_seed opt, pp_flow_bytes := op_flow_bytes opt, pp_mtu_bytes := op_mtu_bytes opt,
           pp_load_permille := op_load_permille opt, pp_window_pkts := op_window_pkts opt\<rparr>
     in default_permutation_config\<lparr>pc_topology := top, pc_workload := w, pc_routing := op_routing opt,
          pc_transport := default_transport\<lparr>tc_ack_bytes := op_ack_bytes opt, tc_rto_ns := op_rto_ns opt\<rparr>\<rparr>)"

definition permutation_succeeds :: "FctSummary \<Rightarrow> bool" where
  "permutation_succeeds fct \<longleftrightarrow> summary_complete fct"

definition run_permutation :: "Options \<Rightarrow> (Report \<times> FctSummary) option" where
  "run_permutation opt = do {
     sc \<leftarrow> build_permutation (permutation_config opt);
     (stats, s) \<leftarrow> run_with_routing (psc_sim sc) (psc_routing sc) (psc_seed sc);
     fct \<leftarrow> summarize_fct (sim_results s);
     Some (\<lparr>rp_success = permutation_succeeds fct, rp_stats = stats, rp_digest = result_digest s\<rparr>, fct)
   }"

definition all_reduce_config :: "Options \<Rightarrow> AllReduceConfig" where
  "all_reduce_config opt = (
     let top = default_fat_tree\<lparr>ft_k := op_k opt,
           ft_host_link := default_link\<lparr>lp_queue_capacity_pkts := unat (op_queue_pkts opt)\<rparr>,
           ft_fabric_link := default_link\<lparr>lp_queue_capacity_pkts := unat (op_queue_pkts opt)\<rparr>\<rparr>;
         w = default_all_reduce\<lparr>ap_seed := op_seed opt, ap_buffer_bytes := op_buffer_bytes opt, ap_mtu_bytes := op_mtu_bytes opt,
           ap_load_permille := op_load_permille opt, ap_window_pkts := op_window_pkts opt, ap_gpu_count := op_gpus opt,
           ap_placement := op_placement opt\<rparr>
     in default_all_reduce_config\<lparr>ac_topology := top, ac_workload := w, ac_routing := op_routing opt,
          ac_transport := default_transport\<lparr>tc_ack_bytes := op_ack_bytes opt, tc_rto_ns := op_rto_ns opt\<rparr>\<rparr>)"

definition all_reduce_succeeds :: "Nanos \<Rightarrow> bool" where
  "all_reduce_succeeds measured \<longleftrightarrow> measured \<noteq> 0"

definition run_all_reduce :: "Options \<Rightarrow> (Report \<times> Nanos) option" where
  "run_all_reduce opt = do {
     sc \<leftarrow> build_all_reduce (all_reduce_config opt);
     (stats, s) \<leftarrow> run_with_routing (asc_sim sc) (asc_routing sc) (asc_seed sc);
     let measured = collective_time_ns (sim_results s);
     Some (\<lparr>rp_success = all_reduce_succeeds measured, rp_stats = stats, rp_digest = result_digest s\<rparr>, measured)
   }"

definition exit_code :: "Report option \<Rightarrow> nat option" where
  "exit_code r = (case r of None \<Rightarrow> None | Some rep \<Rightarrow> Some (if rp_success rep then 0 else 1))"

text \<open>\<open>main\<close>: the exit code of a command line, or \<^const>\<open>None\<close> for an abort.\<close>

definition main :: "string list \<Rightarrow> nat option" where
  "main args = (case parse_args args (''smoke'', default_options) of
       Inl e \<Rightarrow> Some 2
     | Inr None \<Rightarrow> Some 0
     | Inr (Some (scenario, opt)) \<Rightarrow>
         if scenario = ''smoke'' then exit_code run_smoke
         else if scenario = ''permutation'' then exit_code (map_option fst (run_permutation opt))
         else if scenario = ''allreduce'' then exit_code (map_option fst (run_all_reduce opt))
         else Some 2)"

end
