(* ===== verification/Cli_Options.thy ===== *)
theory Cli_Options
  imports Cli Permutation_Runs All_Reduce_Runs
begin

text \<open>
  What the command line guarantees: option texts are matched exactly, numbers are read
  exactly, accepted options are in range, and what the range checks let through.
\<close>

section \<open>Texts and numbers\<close>

lemma match_value_iff: "match_value arg key = Some v \<longleftrightarrow> arg = key @ ''='' @ v"
proof
  assume "match_value arg key = Some v"
  then have m: "take (length key) arg = key" "length key < length arg" "arg ! length key = CHR ''=''"
    "v = drop (length key + 1) arg" by (auto simp: match_value_def split: if_splits)
  have "arg = take (length key) arg @ arg ! length key # drop (Suc (length key)) arg"
    using m(2) by (rule id_take_nth_drop)
  then show "arg = key @ ''='' @ v" using m by simp
next
  assume "arg = key @ ''='' @ v"
  then show "match_value arg key = Some v" by (simp add: match_value_def nth_append)
qed

fun digits_value :: "nat \<Rightarrow> nat list \<Rightarrow> nat" where
  "digits_value acc [] = acc"
| "digits_value acc (d # ds) = digits_value (10 * acc + d) ds"

definition digit_char :: "nat \<Rightarrow> char" where "digit_char d = char_of (48 + d)"

lemma digit_of_char: "d < 10 \<Longrightarrow> digit_of (digit_char d) = Some d"
  by (simp add: digit_of_def digit_char_def)

lemma digit_of_Some: "digit_of c = Some d \<longleftrightarrow> d < 10 \<and> c = digit_char d"
proof
  assume "digit_of c = Some d"
  then have c: "48 \<le> (of_char c :: nat)" "(of_char c :: nat) \<le> 57" "d = of_char c - 48"
    by (auto simp: digit_of_def split: if_splits)
  then have "48 + d = of_char c" by simp
  then have "digit_char d = c" by (simp add: digit_char_def)
  then show "d < 10 \<and> c = digit_char d" using c by simp
qed (simp add: digit_of_char)

lemma read_digits_Some:
  "read_digits acc s = Some n \<longleftrightarrow> (\<exists>ds. s = map digit_char ds \<and> (\<forall>d \<in> set ds. d < 10) \<and> n = digits_value acc ds)"
proof (induction acc s rule: read_digits.induct)
  case (2 acc c cs)
  show ?case
  proof (cases "digit_of c")
    case None
    have ne: "c \<noteq> digit_char d" if "d < 10" for d
    proof
      assume "c = digit_char d"
      then have "digit_of c = Some d" using digit_of_char[OF that] by (simp only:)
      then show False using None by simp
    qed
    then have "\<nexists>ds. c # cs = map digit_char ds \<and> (\<forall>d \<in> set ds. d < 10)"
      by (metis Cons_eq_map_conv list.set_intros(1))
    then show ?thesis using None by auto
  next
    case (Some d)
    have d: "d < 10" "c = digit_char d" using Some[unfolded digit_of_Some] by blast+
    have inj: "e = d" if "digit_char d = digit_char e" "e < 10" for e
      using digit_of_char[OF d(1)] digit_of_char[OF that(2)] unfolding that(1) by simp
    have "read_digits acc (c # cs) = Some n \<longleftrightarrow> (\<exists>ds. cs = map digit_char ds \<and> (\<forall>d \<in> set ds. d < 10) \<and> n = digits_value (10 * acc + d) ds)"
      using 2[OF Some] Some by simp
    also have "\<dots> \<longleftrightarrow> (\<exists>e ds. c = digit_char e \<and> cs = map digit_char ds \<and> e < 10 \<and> (\<forall>d \<in> set ds. d < 10)
        \<and> n = digits_value (10 * acc + e) ds)" (is "?A \<longleftrightarrow> ?B")
    proof
      assume ?A
      then show ?B using d by (intro exI[of _ d]) blast
    next
      assume ?B
      then obtain e ds where e: "c = digit_char e" "e < 10" and ds: "cs = map digit_char ds" "\<forall>d \<in> set ds. d < 10"
        "n = digits_value (10 * acc + e) ds" by (elim exE conjE)
      have "e = d" by (rule inj) (use e d in \<open>simp_all only:\<close>)
      then show ?A using ds by (intro exI[of _ ds]) (simp only: simp_thms)
    qed
    also have "\<dots> \<longleftrightarrow> (\<exists>ds. c # cs = map digit_char ds \<and> (\<forall>d \<in> set ds. d < 10) \<and> n = digits_value acc ds)" (is "?L \<longleftrightarrow> ?R")
    proof
      assume ?L
      then obtain e ds where "c = digit_char e" "cs = map digit_char ds" "e < 10" "\<forall>d \<in> set ds. d < 10" "n = digits_value (10 * acc + e) ds" by (elim exE conjE)
      then show ?R by (intro exI[of _ "e # ds"]) simp
    next
      assume ?R
      then obtain ds where "c # cs = map digit_char ds" "\<forall>d \<in> set ds. d < 10" "n = digits_value acc ds" by (elim exE conjE)
      then show ?L by (cases ds) auto
    qed
    finally show ?thesis .
  qed
qed auto

text \<open>The decimal text of a number.\<close>

function decimal_digits :: "nat \<Rightarrow> nat list" where
  "decimal_digits n = (if n < 10 then [n] else decimal_digits (n div 10) @ [n mod 10])"
  by auto
termination by (relation "measure id") auto

declare decimal_digits.simps [simp del]

definition decimal :: "nat \<Rightarrow> string" where "decimal n = map digit_char (decimal_digits n)"

lemma digits_value_append: "digits_value acc (ds @ es) = digits_value (digits_value acc ds) es"
  by (induction ds arbitrary: acc) simp_all

lemma decimal_digits_props: "decimal_digits n \<noteq> []" "\<forall>d \<in> set (decimal_digits n). d < 10" "digits_value 0 (decimal_digits n) = n"
proof (induction n rule: decimal_digits.induct)
  case (1 n)
  {
    case 1
    show ?case by (subst decimal_digits.simps) simp
  next
    case 2
    show ?case using "1.IH"(2) by (subst decimal_digits.simps) auto
  next
    case 3
    show ?case using "1.IH"(3) by (subst decimal_digits.simps) (simp add: digits_value_append)
  }
qed

lemma parse_decimal:
  "parse_u64 (decimal n) = (if n < 2 ^ 64 then Some (of_nat n) else None)"
proof -
  have "read_digits 0 (decimal n) = Some n"
    unfolding read_digits_Some decimal_def using decimal_digits_props by metis
  then show ?thesis using decimal_digits_props(1)[of n] by (simp add: parse_u64_def decimal_def)
qed

lemma parse_u64_digits:
  "parse_u64 s = Some v \<longleftrightarrow> s \<noteq> [] \<and> (\<exists>ds. s = map digit_char ds \<and> (\<forall>d \<in> set ds. d < 10) \<and> digits_value 0 ds = unat v)"
proof
  assume "parse_u64 s = Some v"
  then obtain n where n: "s \<noteq> []" "read_digits 0 s = Some n" "n < 18446744073709551616" "v = of_nat n"
    by (auto simp: parse_u64_def split: if_splits option.splits)
  then have "unat v = n" by (simp add: unat_of_nat_small)
  then show "s \<noteq> [] \<and> (\<exists>ds. s = map digit_char ds \<and> (\<forall>d \<in> set ds. d < 10) \<and> digits_value 0 ds = unat v)"
    using n read_digits_Some[of 0 s n] by auto
next
  assume a: "s \<noteq> [] \<and> (\<exists>ds. s = map digit_char ds \<and> (\<forall>d \<in> set ds. d < 10) \<and> digits_value 0 ds = unat v)"
  then have "read_digits 0 s = Some (unat v)" using read_digits_Some[of 0 s "unat v"] by auto
  then show "parse_u64 s = Some v" using a unat_lt64[of v] by (simp add: parse_u64_def)
qed

section \<open>Accepted options are in range\<close>

definition options_in_range :: "Options \<Rightarrow> bool" where
  "options_in_range opt \<longleftrightarrow> 2 \<le> op_k opt \<and> op_k opt mod 2 = 0 \<and> op_k opt \<le> 64 \<and> op_flow_bytes opt \<noteq> 0 \<and> op_buffer_bytes opt \<noteq> 0
     \<and> 0 < op_mtu_bytes opt \<and> unat (op_mtu_bytes opt) \<le> 9216 \<and> 0 < op_load_permille opt \<and> op_load_permille opt \<le> 1000
     \<and> op_ack_bytes opt \<noteq> 0 \<and> op_ack_bytes opt \<le> kMaxPacketBytes"

lemma default_in_range: "options_in_range default_options"
  by (simp add: options_in_range_def default_options_def kMaxPacketBytes_def)

lemma number_where_Inr: "number_where v P e f = Inr x \<longleftrightarrow> (\<exists>n. parse_u64 v = Some n \<and> P n \<and> x = f n)"
  by (auto simp: number_where_def split: option.splits)

lemma small_casts:
  "n \<le> 64 \<Longrightarrow> unat (ucast (n :: u64) :: u32) = unat n" "n \<le> 1000 \<Longrightarrow> unat (ucast n :: u32) = unat n"
  "n \<le> 9216 \<Longrightarrow> unat (ucast n :: u16) = unat n"
  by (simp_all add: unsigned_ucast_eq take_bit_nat_eq_self word_le_nat_alt)

text \<open>One arm after the other: an accepted argument was accepted by an arm that matched it.\<close>

lemma if_match_elim:
  assumes "if_match arg key f rest = Inr x" "\<And>v. f v = Inr x \<Longrightarrow> Q" "rest = Inr x \<Longrightarrow> Q"
  shows Q
  using assms by (auto simp: if_match_def split: option.splits)

lemma parse_arg_in_range:
  assumes "parse_arg arg st = Inr st'" "options_in_range (snd st)"
  shows "options_in_range (snd st')"
  using assms(1) unfolding parse_arg_def Let_def
  apply (elim if_match_elim)
  using assms(2) small_casts
  by (auto simp: number_where_Inr options_in_range_def kMaxPacketBytes_def unat_mod
      word_le_nat_alt word_less_nat_alt word_unat_eq_iff split: option.splits if_splits)

lemma parse_args_in_range:
  "parse_args args (scn, opt) = Inr (Some (scn', opt')) \<Longrightarrow> options_in_range opt \<Longrightarrow> options_in_range opt'"
proof (induction args arbitrary: scn opt)
  case (Cons arg args)
  then obtain scn1 opt1 where p: "parse_arg arg (scn, opt) = Inr (scn1, opt1)" "parse_args args (scn1, opt1) = Inr (Some (scn', opt'))"
    by (auto split: if_splits sum.splits)
  show ?case using Cons.IH[OF p(2)] parse_arg_in_range[OF p(1)] Cons.prems(2) by simp
qed simp

section \<open>Numbers cut to 32 bits\<close>

text \<open>The window, the queue and the ring size are checked as 64-bit numbers and stored in 32 bits.\<close>

lemma parse_arg_narrow:
  "parse_arg (''--window='' @ decimal n) (scn, opt) = (if 1 \<le> n \<and> n < 2 ^ 64
     then Inr (scn, opt\<lparr>op_window_pkts := of_nat n\<rparr>) else Inl Bad_Window)"
  "parse_arg (''--queue='' @ decimal n) (scn, opt) = (if 1 \<le> n \<and> n < 2 ^ 64
     then Inr (scn, opt\<lparr>op_queue_pkts := of_nat n\<rparr>) else Inl Bad_Queue)"
  "parse_arg (''--gpus='' @ decimal n) (scn, opt) = (if 2 \<le> n \<and> n < 2 ^ 64
     then Inr (scn, opt\<lparr>op_gpus := of_nat n\<rparr>) else Inl Bad_Gpus)"
proof -
  have z: "(of_nat n :: u64) \<noteq> 0 \<longleftrightarrow> 1 \<le> n" "2 \<le> (of_nat n :: u64) \<longleftrightarrow> 2 \<le> n" "ucast (of_nat n :: u64) = (of_nat n :: u32)"
    if "n < 2 ^ 64"
  proof -
    have "unat (of_nat n :: u64) = n" by (rule unat_of_nat_small) (use that in simp)
    then show "(of_nat n :: u64) \<noteq> 0 \<longleftrightarrow> 1 \<le> n" "2 \<le> (of_nat n :: u64) \<longleftrightarrow> 2 \<le> n" by (auto simp: word_unat_eq_iff word_le_nat_alt)
    show "ucast (of_nat n :: u64) = (of_nat n :: u32)" using that by (simp add: unsigned_of_nat take_bit_nat_eq_self)
  qed
  show "parse_arg (''--window='' @ decimal n) (scn, opt) = (if 1 \<le> n \<and> n < 2 ^ 64
     then Inr (scn, opt\<lparr>op_window_pkts := of_nat n\<rparr>) else Inl Bad_Window)"
    by (simp add: parse_arg_def if_match_def match_value_def number_where_def parse_decimal z)
  show "parse_arg (''--queue='' @ decimal n) (scn, opt) = (if 1 \<le> n \<and> n < 2 ^ 64
     then Inr (scn, opt\<lparr>op_queue_pkts := of_nat n\<rparr>) else Inl Bad_Queue)"
    by (simp add: parse_arg_def if_match_def match_value_def number_where_def parse_decimal z)
  show "parse_arg (''--gpus='' @ decimal n) (scn, opt) = (if 2 \<le> n \<and> n < 2 ^ 64
     then Inr (scn, opt\<lparr>op_gpus := of_nat n\<rparr>) else Inl Bad_Gpus)"
    by (simp add: parse_arg_def if_match_def match_value_def number_where_def parse_decimal z)
qed

lemma narrow_mod: "(of_nat (n mod 2 ^ 32) :: u32) = of_nat n"
  by (simp add: word_unat_eq_iff unsigned_of_nat take_bit_eq_mod)

end
