(* ===== verification/Command_Runs.thy ===== *)
theory Command_Runs
  imports Cli_Options Smoke_Runs Sim_Result
begin

text \<open>
  The commands end to end: topology, routes, workload, transport, run and metrics composed,
  from the options to the exit code.
\<close>

section \<open>The metrics of a run\<close>

lemma summarize_total:
  assumes n: "length rs < 2 ^ 32"
  shows "\<exists>s. summarize_fct rs = Some s \<and> unat (su_flows_total s) = length rs
    \<and> unat (su_flows_complete s) = length (filter res_complete rs)
    \<and> (summary_complete s \<longleftrightarrow> (\<forall>r \<in> set rs. res_complete r))"
proof -
  define xs where "xs = completed_fcts rs"
  have l: "length xs = length (filter res_complete rs)" and so: "sorted xs"
    by (simp_all add: xs_def completed_fcts_eq)
  have le: "length xs \<le> length rs" using l length_filter_le[of res_complete rs] by simp
  have u: "unat (of_nat (length rs) :: u32) = length rs" "unat (of_nat (length xs) :: u32) = length xs"
    using n le by (simp_all add: unat_of_nat_small)
  have all: "of_nat (length rs) - of_nat (length xs) = (0 :: u32) \<longleftrightarrow> (\<forall>r \<in> set rs. res_complete r)"
  proof -
    have "of_nat (length rs) - of_nat (length xs) = (0 :: u32) \<longleftrightarrow> length rs = length xs"
      using u by (metis eq_iff_diff_eq_0)
    also have "\<dots> \<longleftrightarrow> (\<forall>r \<in> set rs. res_complete r)"
      unfolding l by (metis filter_True length_filter_less less_irrefl)
    finally show ?thesis .
  qed
  show ?thesis
  proof (cases "xs = []")
    case True
    then show ?thesis using u l all n
      by (simp add: summarize_fct_def blank_summary_def Let_def summary_complete_def flip: xs_def)
  next
    case False
    have small: "length xs < 2 ^ 54" using le n by simp
    obtain p50 p90 p99 where p: "percentile_ns xs 500 = Some p50" "percentile_ns xs 900 = Some p90" "percentile_ns xs 990 = Some p99"
      using percentile_rank[OF False so _ small, of 500] percentile_rank[OF False so _ small, of 900]
        percentile_rank[OF False so _ small, of 990] by simp
    then show ?thesis using False u l all
      by (simp add: summarize_fct_def blank_summary_def Let_def summary_complete_def flip: xs_def)
  qed
qed

section \<open>The routing dispatch\<close>

lemma run_with_routing_settled:
  assumes "run_ready s D H"
  shows "\<exists>st s'. run_with_routing s algo seed = Some (st, s') \<and> (\<exists>u. s' = end_run u \<and> st = sim_stats (end_run u) \<and> settled s u)"
  using run_sim_ok[OF assms static_policy.routing_policy_axioms] run_sim_ok[OF assms ecmp_policy.routing_policy_axioms, of seed]
  by (cases algo) (auto simp: run_with_routing_def)

text \<open>Counting the results of a settled run.\<close>

lemma settled_tally:
  assumes u: "settled s u" and ok: "setup_ok s"
  shows "unat (rs_flows_complete (sim_stats (end_run u))) = nflows s \<longleftrightarrow> (\<forall>r \<in> set (sim_results (end_run u)). res_complete r)"
    "\<not> (\<forall>r \<in> set (sim_results (end_run u)). res_complete r) \<Longrightarrow> 0 < rs_flows_failed (sim_stats (end_run u))"
    "length (sim_results (end_run u)) = nflows s"
proof -
  let ?rs = "sim_results u"
  show l: "length (sim_results (end_run u)) = nflows s" using settledD(5)[OF u] by simp
  have e: "sim_results (end_run u) = ?rs" by simp
  show "unat (rs_flows_complete (sim_stats (end_run u))) = nflows s \<longleftrightarrow> (\<forall>r \<in> set (sim_results (end_run u)). res_complete r)"
    unfolding settled_counts(1)[OF u] l[symmetric] e by (metis filter_True length_filter_less less_irrefl)
  assume "\<not> (\<forall>r \<in> set (sim_results (end_run u)). res_complete r)"
  then obtain i where i: "i < nflows s" "\<not> res_complete (?rs ! i)" using l by (auto simp: in_set_conv_nth)
  obtain j where j: "j \<le> i" "res_failed (?rs ! j)" using settled_blocked[OF u i] by blast
  then have "?rs ! j \<in> set ?rs" using i l by (intro nth_mem) simp
  then have "?rs ! j \<in> set (filter res_failed ?rs)" using j(2) by simp
  then have "0 < length (filter res_failed ?rs)" by (metis length_pos_if_in_set)
  then have "0 < unat (rs_flows_failed (sim_stats (end_run u)))" unfolding settled_counts(3)[OF u] .
  then show "0 < rs_flows_failed (sim_stats (end_run u))" by (simp add: word_less_nat_alt)
qed

section \<open>The commands\<close>

lemma run_permutation_ok:
  assumes fits: "permutation_fits (permutation_config opt) m n D"
  shows "\<exists>rep fct. run_permutation opt = Some (rep, fct) \<and> unat (su_flows_total fct) = n
    \<and> su_flows_complete fct = rs_flows_complete (rp_stats rep)
    \<and> (rp_success rep \<longleftrightarrow> unat (rs_flows_complete (rp_stats rep)) = n)
    \<and> (\<not> rp_success rep \<longrightarrow> 0 < rs_flows_failed (rp_stats rep))"
proof -
  obtain sc \<pi> H where sc: "build_permutation (permutation_config opt) = Some sc"
    "permutation_built (permutation_config opt) n \<pi> sc" "run_ready (psc_sim sc) D H"
    using build_permutation_ok[OF fits] by blast
  obtain u where u: "run_with_routing (psc_sim sc) (psc_routing sc) (psc_seed sc) = Some (sim_stats (end_run u), end_run u)"
    "settled (psc_sim sc) u" using run_with_routing_settled[OF sc(3)] by blast
  have ok: "setup_ok (psc_sim sc)" using sc(3) by (simp add: run_ready_def)
  note T = settled_tally[OF u(2) ok]
  have n: "nflows (psc_sim sc) = n" using sc(2) by (simp add: permutation_built_def)
  have "length (sim_results (end_run u)) < 2 ^ 32" using T(3) setup_okD(2)[OF ok] by simp
  from summarize_total[OF this] obtain fct where f: "summarize_fct (sim_results (end_run u)) = Some fct"
    "unat (su_flows_total fct) = length (sim_results (end_run u))"
    "unat (su_flows_complete fct) = length (filter res_complete (sim_results (end_run u)))"
    "summary_complete fct \<longleftrightarrow> (\<forall>r \<in> set (sim_results (end_run u)). res_complete r)" by blast
  have "su_flows_complete fct = rs_flows_complete (sim_stats (end_run u))"
    using f(3) settled_counts(1)[OF u(2)] by (simp add: word_unat_eq_iff)
  then show ?thesis using sc(1) u(1) f T n by (simp add: run_permutation_def permutation_succeeds_def)
qed

lemma run_all_reduce_ok:
  assumes fits: "all_reduce_fits (all_reduce_config opt) m N D"
  shows "\<exists>rep measured. run_all_reduce opt = Some (rep, measured)
    \<and> (rp_success rep \<longrightarrow> unat (rs_flows_complete (rp_stats rep)) = 2 * (N - 1) * N)
    \<and> (unat (rs_flows_complete (rp_stats rep)) \<noteq> 2 * (N - 1) * N \<longrightarrow> measured = 0 \<and> 0 < rs_flows_failed (rp_stats rep))
    \<and> measured \<le> rs_virtual_end_ns (rp_stats rep)"
proof -
  obtain sc ports where sc: "build_all_reduce (all_reduce_config opt) = Some sc"
    "all_reduce_built (all_reduce_config opt) m N ports sc" "run_ready (asc_sim sc) D 0"
    using build_all_reduce_ok[OF fits] by blast
  obtain u where u: "run_with_routing (asc_sim sc) (asc_routing sc) (asc_seed sc) = Some (sim_stats (end_run u), end_run u)"
    "settled (asc_sim sc) u" using run_with_routing_settled[OF sc(3)] by blast
  have ok: "setup_ok (asc_sim sc)" using sc(3) by (simp add: run_ready_def)
  note T = settled_tally[OF u(2) ok]
  have n: "nflows (asc_sim sc) = 2 * (N - 1) * N" using sc(2) unfolding all_reduce_built_def Let_def by blast
  let ?rs = "sim_results (end_run u)" and ?m = "collective_time_ns (sim_results (end_run u))"
  have m: "?m = (if \<forall>r \<in> set ?rs. res_complete r then Max (insert 0 (res_finish_ns ` set ?rs)) else 0)"
    by (rule collective_time_max)
  have none: "?m = 0" if "\<not> (\<forall>r \<in> set ?rs. res_complete r)" using that m by argo
  have "?m \<le> rs_virtual_end_ns (sim_stats (end_run u))"
  proof (cases "\<forall>r \<in> set ?rs. res_complete r")
    case True
    have "res_finish_ns r \<le> rs_virtual_end_ns (sim_stats (end_run u))" if "r \<in> set ?rs" for r
    proof -
      obtain i where i: "i < nflows (asc_sim sc)" "r = sim_results u ! i" using \<open>r \<in> set ?rs\<close> T(3) by (auto simp: in_set_conv_nth)
      then show ?thesis using settled_clock(1)[OF u(2) i(1)] settled_counts(4)[OF u(2)] True that by simp
    qed
    then show ?thesis unfolding m using True by (auto intro!: Max.boundedI)
  next
    case False
    then show ?thesis unfolding none[OF False] by simp
  qed
  then show ?thesis using sc(1) u(1) T n none by (auto simp: run_all_reduce_def all_reduce_succeeds_def Let_def)
qed

lemma run_smoke_ok:
  assumes fits: "smoke_fits default_smoke D"
  shows "\<exists>rep. run_smoke = Some rep \<and> (rp_success rep \<longleftrightarrow> rs_flows_complete (rp_stats rep) = 1 \<and> rs_bytes_dropped (rp_stats rep) = 0)"
proof -
  obtain sc where sc: "build_smoke default_smoke = Some sc" "smoke_built default_smoke sc" "run_ready (ss_sim sc) D 0"
    using build_smoke_ok[OF fits] by blast
  obtain u where u: "run_with_routing (ss_sim sc) StaticFirst 0 = Some (sim_stats (end_run u), end_run u)"
    "settled (ss_sim sc) u" using run_with_routing_settled[OF sc(3)] by blast
  have ok: "setup_ok (ss_sim sc)" using sc(3) by (simp add: run_ready_def)
  note T = settled_tally[OF u(2) ok]
  have n: "nflows (ss_sim sc) = 1" "id_index (ss_flow sc) = 0" using sc(2) by (auto simp: smoke_built_def Let_def)
  then obtain r where r: "sim_results (end_run u) = [r]" using T(3) by (cases "sim_results (end_run u)") auto
  have "rs_flows_complete (sim_stats (end_run u)) = 1 \<longleftrightarrow> res_complete r"
    using T(1) n(1) r by (simp add: word_unat_eq_iff)
  then show ?thesis using sc(1) u(1) n(2) r
    by (simp add: run_smoke_def smoke_succeeds_def run_static_def run_with_routing_def vget_def)
qed

section \<open>What the range checks let through\<close>

lemma pods_ring_aborts:
  assumes "fat_tree_fits (ac_topology cfg) m" "ap_placement (ac_workload cfg) = RoundRobinPods"
    and "ap_gpu_count (ac_workload cfg) \<noteq> 0" "unat (ap_gpu_count (ac_workload cfg)) \<noteq> 2 * m * m * m"
  shows "build_all_reduce cfg = None"
proof -
  have k: "arity (ft_k (ac_topology cfg)) m" using assms(1) by (auto simp: fat_tree_fits_def arity_def)
  obtain f rt where f: "build_fat_tree (ac_topology cfg) = Some f" "build_shortest_path f = Some rt" "host_count f = 2 * m * m * m"
    using fat_tree_ok[OF assms(1)] arity_words(9)[OF k] by auto
  define params where "params = (ac_workload cfg)\<lparr>ap_fat_tree_k := ft_k (ac_topology cfg)\<rparr>"
  have pv: "ap_placement params = RoundRobinPods" "ap_gpu_count params = ap_gpu_count (ac_workload cfg)"
    using assms(2) by (simp_all add: params_def)
  have "place_ranks f params (ap_gpu_count params) = None"
    using pv assms(4) f(3) by (simp add: place_ranks_def assert_that_def)
  then have "make_ring_all_reduce f params = None"
    using pv assms(3) by (auto simp: make_ring_all_reduce_def Let_def bind_eq_None_conv)
  then show ?thesis using f by (simp add: build_all_reduce_def Let_def flip: params_def)
qed

end
