(* ===== verification/Command_Bounds.thy ===== *)
theory Command_Bounds
  imports Command_Runs Closed_Forms
begin

text \<open>
  The closed forms against the times the commands report: the best case the permutation
  command prints, and the analytical time of the all-reduce command.
\<close>

lemma permutation_config_views:
  "pp_flow_bytes (pc_workload (permutation_config opt)) = op_flow_bytes opt"
  "pp_mtu_bytes (pc_workload (permutation_config opt)) = op_mtu_bytes opt"
  "same_links (ft_host_link (pc_topology (permutation_config opt))) (ft_fabric_link (pc_topology (permutation_config opt)))"
  by (simp_all add: permutation_config_def default_permutation_config_def Let_def same_links_def)

lemma all_reduce_config_views:
  "ap_mtu_bytes (ac_workload (all_reduce_config opt)) = op_mtu_bytes opt"
  "same_links (ft_host_link (ac_topology (all_reduce_config opt))) (ft_fabric_link (ac_topology (all_reduce_config opt)))"
  by (simp_all add: all_reduce_config_def default_all_reduce_config_def Let_def same_links_def)

text \<open>The least completion time of the summary is that of a completed flow.\<close>

lemma summarize_least:
  assumes "summarize_fct rs = Some fct" "length rs < 2 ^ 32" "su_flows_complete fct \<noteq> 0"
  shows "\<exists>r \<in> set rs. res_complete r \<and> fct_ns r = su_min_ns fct"
proof -
  obtain s where s: "summarize_fct rs = Some s" "unat (su_flows_complete s) = length (filter res_complete rs)"
    using summarize_total[OF assms(2)] by blast
  have "length (completed_fcts rs) = unat (su_flows_complete fct)" using assms(1) s by (simp add: completed_fcts_eq)
  then have ne: "completed_fcts rs \<noteq> []" using assms(3) by (auto simp: unat_eq_0)
  then have "su_min_ns fct = hd (completed_fcts rs)"
    using assms(1) by (auto simp: summarize_fct_def Let_def bind_eq_Some_conv)
  then have "su_min_ns fct \<in> set (completed_fcts rs)" using ne by simp
  then show ?thesis by (auto simp: completed_fcts_eq)
qed

lemma permutation_command_bound:
  assumes fits: "permutation_fits (permutation_config opt) m n D"
    and whole: "op_flow_bytes opt mod ucast (op_mtu_bytes opt) = 0"
  shows "\<exists>sc rep fct. build_permutation (permutation_config opt) = Some sc \<and> run_permutation opt = Some (rep, fct)
    \<and> (su_flows_complete fct = 0 \<or> psc_best_case_ns sc \<le> su_min_ns fct)"
proof -
  let ?cfg = "permutation_config opt"
  obtain sc \<pi> H where sc: "build_permutation ?cfg = Some sc" "permutation_built ?cfg n \<pi> sc" "run_ready (psc_sim sc) D H"
    using build_permutation_ok[OF fits] by blast
  obtain u where u: "run_with_routing (psc_sim sc) (psc_routing sc) (psc_seed sc) = Some (sim_stats (end_run u), end_run u)"
    "settled (psc_sim sc) u" using run_with_routing_settled[OF sc(3)] by blast
  let ?rs = "sim_results (end_run u)"
  have ok: "setup_ok (psc_sim sc)" using sc(3) by (simp add: run_ready_def)
  have n: "nflows (psc_sim sc) = n" using sc(2) by (simp add: permutation_built_def)
  have len: "length ?rs = n" using settled_tally(3)[OF u(2) ok] n by simp
  then have l32: "length ?rs < 2 ^ 32" using setup_okD(2)[OF ok] n by simp
  obtain fct where f: "summarize_fct ?rs = Some fct" using summarize_total[OF l32] by blast
  have "psc_best_case_ns sc \<le> su_min_ns fct" if c: "su_flows_complete fct \<noteq> 0"
  proof -
    obtain h where h: "h < n" "res_complete (?rs ! h)" "fct_ns (?rs ! h) = su_min_ns fct"
      using summarize_least[OF f l32 c] len by (auto simp: in_set_conv_nth)
    obtain lb where "permutation_flow_lower_bound_ns ?cfg (of_nat h) (of_nat (\<pi> h)) = Some lb" "lb \<le> fct_ns (?rs ! h)"
      using permutation_flow_time[OF fits _ _ sc(2,3) u(1) h(1,2)] permutation_config_views whole by auto
    then show ?thesis using permutation_best_le[OF fits sc(2) h(1)] h(3) by fastforce
  qed
  then show ?thesis using sc(1) u(1) f by (auto simp: run_permutation_def)
qed

lemma all_reduce_command_bound:
  assumes fits: "all_reduce_fits (all_reduce_config opt) m N D" and sc: "build_all_reduce (all_reduce_config opt) = Some sc"
    and uniform: "asc_uniform_hops sc" and whole: "asc_chunk_bytes sc mod ucast (op_mtu_bytes opt) = 0"
  shows "\<exists>rep measured. run_all_reduce opt = Some (rep, measured) \<and> (measured = 0 \<or> asc_analytical_ns sc \<le> measured)"
proof -
  let ?cfg = "all_reduce_config opt"
  obtain ports where b: "all_reduce_built ?cfg m N ports sc" and rr: "run_ready (asc_sim sc) D 0"
    using build_all_reduce_ok[OF fits] sc by auto
  obtain u where u: "run_with_routing (asc_sim sc) (asc_routing sc) (asc_seed sc) = Some (sim_stats (end_run u), end_run u)"
    "settled (asc_sim sc) u" using run_with_routing_settled[OF rr] by blast
  let ?rs = "sim_results (end_run u)"
  have ok: "setup_ok (asc_sim sc)" using rr by (simp add: run_ready_def)
  have len: "length ?rs = nflows (asc_sim sc)" using settled_tally(3)[OF u(2) ok] .
  have "collective_time_ns ?rs = 0 \<or> asc_analytical_ns sc \<le> collective_time_ns ?rs"
  proof (cases "\<forall>r \<in> set ?rs. res_complete r")
    case True
    then have "res_complete (?rs ! i)" if "i < nflows (asc_sim sc)" for i using that len by simp
    then show ?thesis
      using all_reduce_time[OF fits _ uniform _ b rr u(1)] all_reduce_config_views whole by auto
  next
    case False
    then show ?thesis unfolding collective_time_max by argo
  qed
  then show ?thesis using sc u(1) by (auto simp: run_all_reduce_def Let_def)
qed

end
