(* ===== verification/Sample_Draws.thy ===== *)
theory Sample_Draws
  imports Permutation
begin

text \<open>The first outputs of two of the streams of seed 0: enough for the permutation of two hosts.\<close>

lemma sample_permutation_draws: "yields (2 ^ 32) 1 (stream_new 0 kStreamPermutation)"
  by (rule yields_fresh) (code_simp, simp)

lemma sample_port_draws: "yields (2 ^ 32) 2 (stream_new 0 kStreamPorts)"
  by (rule yields_fresh) (code_simp, simp)

end
