(* ===== verification/Sample_Scenarios.thy ===== *)
theory Sample_Scenarios
  imports Command_Bounds Sample_Draws
begin

text \<open>
  Concrete scenarios that meet the conditions of the scenario lemmas: the default smoke
  scenario, and the other two on the fat-tree of arity two, with flows of whole packets.
\<close>

definition sample_options :: Options where
  "sample_options = default_options\<lparr>op_k := 2, op_flow_bytes := 1500000\<rparr>"

lemma default_link_within: "link_within (default_link\<lparr>lp_queue_capacity_pkts := q\<rparr>) 5242000"
  by (simp add: link_within_def default_link_def gbps_def)

lemma default_sizing:
  assumes "h \<in> {2, 4, 6}"
  shows "transport_within (default_transport\<lparr>tc_ack_bytes := 64, tc_rto_ns := 0\<rparr>) (default_link\<lparr>lp_queue_capacity_pkts := 128\<rparr>) 1500 h 5242000"
proof -
  have s: "serialization_ns 1500 100000000000 = Some 120" "serialization_ns 64 100000000000 = Some 5"
    by (simp_all add: serialization_ns_def kBitsPerByte_def kNanosPerSec_def)
  show ?thesis using assms
    by (auto simp: transport_within_def sized_transport_def default_transport_def default_link_def gbps_def s
        default_rto_ns_def round_trip_ns_def kMaxPacketBytes_def)
qed

lemma default_link_queue: "default_link = default_link\<lparr>lp_queue_capacity_pkts := 128\<rparr>"
  by (simp add: default_link_def)

lemma default_transport_same: "default_transport = default_transport\<lparr>tc_ack_bytes := 64, tc_rto_ns := 0\<rparr>"
  by (simp add: default_transport_def)

lemma sample_permutation_fits: "permutation_fits (permutation_config sample_options) 1 2 5242000"
proof -
  have d: "permutation_draws 2 (pc_workload (permutation_config sample_options))"
    using sample_permutation_draws sample_port_draws
    by (simp add: permutation_draws_def permutation_config_def default_permutation_config_def default_permutation_def
        sample_options_def default_options_def Let_def)
  have p: "perm_packets (pc_workload (permutation_config sample_options)) = 1000"
    "perm_window (pc_workload (permutation_config sample_options)) = 32"
    by (simp_all add: perm_packets_def perm_window_def permutation_config_def default_permutation_config_def default_permutation_def
        sample_options_def default_options_def Let_def ceil_div_def)
  have "fat_tree_fits (pc_topology (permutation_config sample_options)) 1"
    by (simp add: fat_tree_fits_def permutation_config_def default_permutation_config_def default_fat_tree_def
        sample_options_def default_options_def Let_def default_link_def gbps_def)
  moreover have "transport_within (pc_transport (permutation_config sample_options)) (ft_host_link (pc_topology (permutation_config sample_options)))
      (pp_mtu_bytes (pc_workload (permutation_config sample_options))) kFatTreeCrossPodHops 5242000"
    using default_sizing[of 6]
    by (simp add: permutation_config_def default_permutation_config_def default_permutation_def default_fat_tree_def
        sample_options_def default_options_def Let_def kFatTreeCrossPodHops_def)
  moreover have "link_within (ft_host_link (pc_topology (permutation_config sample_options))) 5242000"
    "link_within (ft_fabric_link (pc_topology (permutation_config sample_options))) 5242000"
    using default_link_within by (simp_all add: permutation_config_def default_permutation_config_def Let_def)
  ultimately show ?thesis
    unfolding permutation_fits_def Let_def p
    using d by (simp add: permutation_config_def default_permutation_config_def default_permutation_def
        sample_options_def default_options_def Let_def default_transport_def)
qed

lemma sample_all_reduce_fits: "all_reduce_fits (all_reduce_config sample_options) 1 2 5242000"
proof -
  have y: "yields (2 ^ 32) 2 (stream_new (ap_seed (ac_workload (all_reduce_config sample_options))) kStreamPorts)"
    using sample_port_draws
    by (simp add: all_reduce_config_def default_all_reduce_config_def default_all_reduce_def sample_options_def default_options_def Let_def)
  have p: "chunk_packs (ac_workload (all_reduce_config sample_options)) 2 = 640"
    "chunk_window (ac_workload (all_reduce_config sample_options)) 2 = 32"
    by (simp_all add: chunk_packs_def chunk_window_def chunk_size_def all_reduce_config_def default_all_reduce_config_def
        default_all_reduce_def sample_options_def default_options_def Let_def ceil_div_def)
  have "fat_tree_fits (ac_topology (all_reduce_config sample_options)) 1"
    by (simp add: fat_tree_fits_def all_reduce_config_def default_all_reduce_config_def default_fat_tree_def
        sample_options_def default_options_def Let_def default_link_def gbps_def)
  moreover have "\<forall>h \<in> {2, 4, 6}. transport_within (ac_transport (all_reduce_config sample_options)) (ft_host_link (ac_topology (all_reduce_config sample_options)))
      (ap_mtu_bytes (ac_workload (all_reduce_config sample_options))) h 5242000"
    using default_sizing
    by (simp add: all_reduce_config_def default_all_reduce_config_def default_all_reduce_def default_fat_tree_def
        sample_options_def default_options_def Let_def)
  moreover have "link_within (ft_host_link (ac_topology (all_reduce_config sample_options))) 5242000"
    "link_within (ft_fabric_link (ac_topology (all_reduce_config sample_options))) 5242000"
    using default_link_within by (simp_all add: all_reduce_config_def default_all_reduce_config_def Let_def)
  ultimately show ?thesis
    unfolding all_reduce_fits_def Let_def p
    using y by (simp add: all_reduce_config_def default_all_reduce_config_def default_all_reduce_def
        sample_options_def default_options_def Let_def default_transport_def)
qed

lemma sample_ring:
  "\<exists>sc. build_all_reduce (all_reduce_config sample_options) = Some sc \<and> asc_uniform_hops sc
    \<and> asc_chunk_bytes sc mod ucast (op_mtu_bytes sample_options) = 0"
proof -
  let ?cfg = "all_reduce_config sample_options"
  obtain sc ports where sc: "build_all_reduce ?cfg = Some sc" "all_reduce_built ?cfg 1 2 ports sc"
    using build_all_reduce_ok[OF sample_all_reduce_fits] by blast
  have p: "chunk_size (ac_workload ?cfg) 2 = 960000"
    by (simp add: all_reduce_config_def default_all_reduce_config_def default_all_reduce_def sample_options_def
        default_options_def Let_def chunk_size_def)
  have "ring_hops k pl 1 2 r = ring_hops k pl 1 2 0" if "r < 2" for k pl r
    using that by (auto simp: less_2_cases_iff ring_hops_def fat_tree_hops_def)
  then have "asc_uniform_hops sc" using sc(2) unfolding all_reduce_built_def Let_def by blast
  moreover have "asc_chunk_bytes sc = 960000"
  proof -
    have "unat (asc_chunk_bytes sc) = 960000" using sc(2) unfolding all_reduce_built_def Let_def p by blast
    then show ?thesis by (simp add: word_unat_eq_iff)
  qed
  moreover have "op_mtu_bytes sample_options = 1500" by (simp add: sample_options_def default_options_def)
  ultimately show ?thesis using sc(1) by simp
qed

lemma sample_smoke_fits: "smoke_fits default_smoke 5242000"
proof -
  have p: "smoke_packets default_smoke = 1000" by (simp add: smoke_packets_def default_smoke_def ceil_div_def)
  have "leaf_spine_fits (sm_topology default_smoke)"
    by (simp add: leaf_spine_fits_def default_smoke_def default_leaf_spine_def default_link_def gbps_def)
  moreover have "link_within default_link 5242000" using default_link_within[of 128] default_link_queue by simp
  moreover have "\<forall>h \<in> {2, 4}. transport_within default_transport default_link 1500 h 5242000"
    using default_sizing default_link_queue default_transport_same by simp
  ultimately show ?thesis
    unfolding smoke_fits_def Let_def p by (simp add: default_smoke_def default_leaf_spine_def)
qed

end
