(* ===== verification/Sim_Plan.thy ===== *)
theory Sim_Plan
  imports Sim_Light
begin

text \<open>
  A timetable of the network.  \<open>B k u\<close> is the time at which packet \<open>k\<close> is planned to stand at
  node \<open>u\<close>.  \<open>planned\<close> says that every transmission and every flight ends exactly when the
  timetable says, that a port holds at most one waiting packet, and that a waiting packet
  is sent at once.  The network operations preserve it as long as the packets that share a port
  are planned at least one transmission apart; nothing is dropped then.
\<close>

section \<open>Ports and events on the timetable\<close>

text \<open>What port \<open>p\<close> needs to clock packet \<open>k\<close> out.\<close>

definition clock_out :: "fabric \<Rightarrow> nat \<Rightarrow> packet \<Rightarrow> nat" where
  "clock_out f p k = (case serialization_ns (ucast (pkt_bytes k)) (port_rate (fab_ports f ! p)) of
     Some t \<Rightarrow> unat t | None \<Rightarrow> 0)"

definition port_planned :: "(packet \<Rightarrow> nat \<Rightarrow> nat) \<Rightarrow> fabric \<Rightarrow> nat \<Rightarrow> nat \<Rightarrow> bool" where
  "port_planned B f now p \<longleftrightarrow> (let c = fab_ports f ! p; u = owner_index f p in
     length (ring_list (port_queue c)) \<le> 1 \<and> (\<forall>k \<in> set (ring_list (port_queue c)). B k u \<le> now)
     \<and> (port_busy c \<longrightarrow> B (port_in_flight c) u \<le> now))"

definition event_planned :: "(packet \<Rightarrow> nat \<Rightarrow> nat) \<Rightarrow> (event \<Rightarrow> bool) \<Rightarrow> fabric \<Rightarrow> event \<Rightarrow> bool" where
  "event_planned B C f e \<longleftrightarrow> (let p = id_index (ev_port e); c = fab_ports f ! p; u = owner_index f p in
     (ev_type e = TxComplete \<longrightarrow> unat (ev_time e) = B (port_in_flight c) u + clock_out f p (port_in_flight c)
        \<and> (\<forall>y \<in> set (ring_list (port_queue c)). unat (ev_time e) = B y u))
     \<and> (ev_type e = Arrive \<longrightarrow> unat (ev_time e) = B (ev_packet e) (peer_index f p))
     \<and> (ev_type e \<in> {Inject, Timeout} \<longrightarrow> C e))"

definition planned :: "(packet \<Rightarrow> nat \<Rightarrow> nat) \<Rightarrow> (event \<Rightarrow> bool) \<Rightarrow> sim \<Rightarrow> bool" where
  "planned B C s \<longleftrightarrow> (\<forall>p < port_count (sim_fabric s). port_planned B (sim_fabric s) (unat (sim_now s)) p)
     \<and> (\<forall>e \<in># events s. event_planned B C (sim_fabric s) e)"

text \<open>The timetable looks at the fields of a packet that travel; \<open>C\<close> at the fields of an event that
  the queue keeps.\<close>

definition timetable :: "(packet \<Rightarrow> nat \<Rightarrow> nat) \<Rightarrow> (event \<Rightarrow> bool) \<Rightarrow> bool" where
  "timetable B C \<longleftrightarrow> (\<forall>k u. B (plain k) u = B k u) \<and> (\<forall>e n. C (e\<lparr>ev_seq := n\<rparr>) = C e)"

lemma planned_cong:
  "sim_fabric s' = sim_fabric s \<Longrightarrow> sim_queue s' = sim_queue s \<Longrightarrow> sim_now s' = sim_now s \<Longrightarrow>
   planned B C s' = planned B C s"
  by (simp add: planned_def)

lemma event_planned_stamp:
  "timetable B C \<Longrightarrow> event_planned B C f (eq_stamp q e) = event_planned B C f e"
  by (simp add: event_planned_def timetable_def eq_stamp_def)

lemma planned_push:
  assumes "timetable B C" "planned B C s" "eq_inv (sim_queue s)" "event_planned B C (sim_fabric s) e"
  shows "planned B C (push_event e s)"
  using assms event_planned_stamp[OF assms(1)] by (auto simp: planned_def evq.push_items)

lemma event_planned_weaken:
  "event_planned B C f e \<Longrightarrow> (\<And>e. C e \<Longrightarrow> C' e) \<Longrightarrow> event_planned B C' f e"
  by (auto simp: event_planned_def Let_def)

lemma planned_weaken: "planned B C s \<Longrightarrow> (\<And>e. C e \<Longrightarrow> C' e) \<Longrightarrow> planned B C' s"
  using event_planned_weaken by (auto simp: planned_def)

lemma event_planned_other: "ev_type e \<in> {Inject, Timeout} \<Longrightarrow> C e \<Longrightarrow> event_planned B C f e"
  by (auto simp: event_planned_def Let_def)

section \<open>One port changes\<close>

lemma clock_out_put:
  assumes "p < port_count f" "port_rate q = port_rate (fab_ports f ! p)"
  shows "clock_out (put_fab p q f) j k = clock_out f j k"
  using assms by (cases "j = p") (simp_all add: clock_out_def)

lemma ports_planned_put:
  assumes "\<forall>j < port_count f. port_planned B f now j" "p < port_count f" "port_owner q = port_owner (fab_ports f ! p)"
    "length (ring_list (port_queue q)) \<le> 1" "\<forall>k \<in> set (ring_list (port_queue q)). B k (owner_index f p) \<le> now"
    "port_busy q \<Longrightarrow> B (port_in_flight q) (owner_index f p) \<le> now"
  shows "\<forall>j < port_count (put_fab p q f). port_planned B (put_fab p q f) now j"
  unfolding port_count_put
proof (intro allI impI)
  fix j assume j: "j < port_count f"
  show "port_planned B (put_fab p q f) now j"
    using assms j unfolding port_planned_def Let_def owner_index_put[OF assms(2,3)]
    by (cases "j = p") simp_all
qed

lemma event_planned_put:
  assumes "event_planned B C f e" "p < port_count f" "port_owner q = port_owner (fab_ports f ! p)"
    "port_peer_node q = port_peer_node (fab_ports f ! p)" "port_rate q = port_rate (fab_ports f ! p)"
    "ev_type e = TxComplete \<Longrightarrow> id_index (ev_port e) = p \<Longrightarrow>
       unat (ev_time e) = B (port_in_flight q) (owner_index f p) + clock_out f p (port_in_flight q)
       \<and> (\<forall>y \<in> set (ring_list (port_queue q)). unat (ev_time e) = B y (owner_index f p))"
  shows "event_planned B C (put_fab p q f) e"
  using assms unfolding event_planned_def Let_def owner_index_put[OF assms(2,3)] peer_index_put[OF assms(2,4)]
    clock_out_put[OF assms(2,5)]
  by (cases "id_index (ev_port e) = p"; cases "ev_type e = TxComplete") simp_all

lemma event_planned_put_none:
  assumes "event_planned B C f e" "p < port_count f" "port_owner q = port_owner (fab_ports f ! p)"
    "port_peer_node q = port_peer_node (fab_ports f ! p)" "port_rate q = port_rate (fab_ports f ! p)"
    "\<not> (ev_type e = TxComplete \<and> id_index (ev_port e) = p)"
  shows "event_planned B C (put_fab p q f) e"
  using assms by (intro event_planned_put) auto

text \<open>A busy port has its completion among the pending events.\<close>

lemma busy_pending:
  assumes "ports_ok f (tx_pending E)" "p < port_count f" "port_busy (fab_ports f ! p)"
  shows "\<exists>e \<in># E. ev_type e = TxComplete \<and> id_index (ev_port e) = p"
proof -
  have "count (tx_pending E) p = 1" using ports_okD(3)[OF assms(1,2)] assms(3) by simp
  then have "p \<in># tx_pending E" by (metis count_eq_zero_iff zero_neq_one)
  then show ?thesis by (auto simp: tx_pending_def)
qed

section \<open>Enqueueing on the timetable\<close>

text \<open>A packet arrives at port \<open>p\<close> as planned, and what the port holds was due before.\<close>

definition room_for :: "(packet \<Rightarrow> nat \<Rightarrow> nat) \<Rightarrow> fabric \<Rightarrow> nat \<Rightarrow> nat \<Rightarrow> bool" where
  "room_for B f now p \<longleftrightarrow> (let c = fab_ports f ! p; u = owner_index f p in 0 < ring_capacity (port_queue c)
     \<and> (\<forall>j. j \<in> set (ring_list (port_queue c)) \<or> port_busy c \<and> j = port_in_flight c \<longrightarrow>
          B j u < now \<and> B j u + clock_out f p j \<le> now))"

lemma enqueue_planned:
  assumes net: "net_inv s" and pid: "id_index pid = p" "p < port_count (sim_fabric s)"
    and flow: "id_index (pkt_flow k) < length (sim_results s)" and tt: "timetable B C"
    and pl: "planned B C s" and soon: "\<forall>e \<in># events s. sim_now s \<le> ev_time e"
    and due: "B k (owner_index (sim_fabric s) p) = unat (sim_now s)"
    and room: "room_for B (sim_fabric s) (unat (sim_now s)) p"
    and D: "delays_ok (sim_fabric s) D" "unat (sim_now s) + D < 2 ^ 64"
    and run: "enqueue pid k s = Some s'"
  shows "planned B C s'" "carried s' = add_mset (AtPort p, plain k) (carried s)"
proof -
  let ?f = "sim_fabric s" and ?now = "unat (sim_now s)"
  define c where "c = fab_ports ?f ! p"
  have c': "c = fab_ports ?f ! id_index pid" using pid(1) by (simp add: c_def)
  have q: "eq_inv (sim_queue s)" and po: "ports_ok ?f (tx_pending (events s))" using net by (auto simp: net_inv_def)
  note PL = pl[unfolded planned_def]
  note R = room[unfolded room_for_def Let_def]
  have early: "B j (owner_index ?f p) < ?now" "B j (owner_index ?f p) + clock_out ?f p j \<le> ?now"
    if "j \<in> set (ring_list (port_queue c)) \<or> port_busy c \<and> j = port_in_flight c" for j
    using conjunct2[OF R, rule_format, OF that[unfolded c_def]] by simp_all
  have tx: "unat (ev_time e) = B (port_in_flight c) (owner_index ?f p) + clock_out ?f p (port_in_flight c)"
    "\<forall>y \<in> set (ring_list (port_queue c)). unat (ev_time e) = B y (owner_index ?f p)" "?now \<le> unat (ev_time e)"
    if "e \<in># events s" "ev_type e = TxComplete" "id_index (ev_port e) = p" for e
    using PL soon that by (auto simp: event_planned_def Let_def c_def word_le_nat_alt)
  have empty: "ring_list (port_queue c) = []" if busy: "port_busy c"
  proof (rule ccontr)
    assume ne: "ring_list (port_queue c) \<noteq> []"
    obtain e where e: "e \<in># events s" "ev_type e = TxComplete" "id_index (ev_port e) = p"
      using busy_pending[OF po pid(2)] busy by (auto simp: c_def)
    obtain y where y: "y \<in> set (ring_list (port_queue c))" using ne by (cases "ring_list (port_queue c)") auto
    then have "B y (owner_index ?f p) < ?now" using early(1) y by simp
    then have "B y (owner_index ?f p) < unat (ev_time e)" using tx(3)[OF e] by simp
    moreover have "unat (ev_time e) = B y (owner_index ?f p)" using bspec[OF tx(2)[OF e] y] .
    ultimately show False by simp
  qed
  have idle: "ring_list (port_queue c) = []" if "\<not> port_busy c"
    using ports_okD(2)[OF po pid(2)] that by (simp add: c_def)
  have ports: "\<forall>j < port_count (put_fab p d ?f). port_planned B (put_fab p d ?f) ?now j"
    if "port_owner d = port_owner c" "length (ring_list (port_queue d)) \<le> 1"
      "\<forall>j \<in> set (ring_list (port_queue d)). j = k" "port_in_flight d = k \<or> port_busy c \<and> port_in_flight d = port_in_flight c" for d
  proof (rule ports_planned_put[OF _ pid(2)])
    have "port_planned B ?f ?now p" using PL pid(2) by blast
    then have "port_busy c \<Longrightarrow> B (port_in_flight c) (owner_index ?f p) \<le> ?now"
      unfolding port_planned_def Let_def c_def by blast
    then show "B (port_in_flight d) (owner_index ?f p) \<le> ?now" using that(4) due by auto
    show "\<forall>j \<in> set (ring_list (port_queue d)). B j (owner_index ?f p) \<le> ?now"
    proof
      fix j assume "j \<in> set (ring_list (port_queue d))"
      then have "j = k" using that(3) by blast
      then show "B j (owner_index ?f p) \<le> ?now" using due by simp
    qed
  qed (use PL that(1,2) in \<open>auto simp: c_def\<close>)
  have flow': "id_index pid < port_count ?f" using pid by simp
  from net flow' flow c' have "planned B C s' \<and> carried s' = add_mset (AtPort p, plain k) (carried s)"
  proof (cases rule: enqueue_cases)
    case drop
    then have "length (ring_list (port_queue c)) \<noteq> 0" using conjunct1[OF R] by (simp add: c_def)
    then show ?thesis using empty idle by (cases "port_busy c") simp_all
  next
    case (wait ring)
    note W = wait[unfolded pid(1)]
    define d where "d = c\<lparr>port_queue := ring\<rparr>"
    have s': "s' = s\<lparr>sim_fabric := put_fab p d ?f\<rparr>" using W(1) run by (simp add: d_def)
    have ring: "ring_list ring = [k]" using W(4) empty[OF W(2)] by simp
    have "event_planned B C (put_fab p d ?f) e" if e: "e \<in># events s" for e
    proof (rule event_planned_put[OF _ pid(2)])
      assume ty: "ev_type e = TxComplete" "id_index (ev_port e) = p"
      have "B (port_in_flight c) (owner_index ?f p) + clock_out ?f p (port_in_flight c) \<le> ?now" using early(2) W(2) by simp
      then have "unat (ev_time e) = ?now" using tx(1,3)[OF e ty] by simp
      then show "unat (ev_time e) = B (port_in_flight d) (owner_index ?f p) + clock_out ?f p (port_in_flight d)
          \<and> (\<forall>y \<in> set (ring_list (port_queue d)). unat (ev_time e) = B y (owner_index ?f p))"
        using tx(1)[OF e ty] ring due by (simp add: d_def)
    qed (use PL e in \<open>auto simp: d_def c_def\<close>)
    moreover have "\<forall>j < port_count (put_fab p d ?f). port_planned B (put_fab p d ?f) ?now j"
      by (rule ports) (use ring W(2) in \<open>auto simp: d_def\<close>)
    moreover have "fabric_load (put_fab p d ?f) = fabric_load ?f + {#(AtPort p, plain k)#}"
      by (rule fabric_load_add[OF pid(2)]) (use W(4) in \<open>simp add: port_load_def d_def c_def\<close>)
    ultimately show ?thesis by (simp add: planned_def s' carried_def)
  next
    case (send ring ser)
    note W = send[unfolded pid(1)]
    define d where "d = c\<lparr>port_in_flight := k, port_queue := ring, port_busy := True\<rparr>"
    define t where "t = s\<lparr>sim_fabric := put_fab p d ?f\<rparr>"
    define e where "e = ev_tx_complete (sim_now s + ser) pid"
    have s': "s' = push_event e t" using W(1) run by (simp add: d_def t_def e_def)
    have "count (tx_pending (events s)) p = 0" using ports_okD(3)[OF po pid(2)] W(2) by (simp add: c_def)
    then have "event_planned B C (put_fab p d ?f) y" if "y \<in># events s" for y
      by (intro event_planned_put_none[OF _ pid(2)] no_pending_tx) (use PL that in \<open>auto simp: d_def c_def\<close>)
    moreover have "\<forall>j < port_count (put_fab p d ?f). port_planned B (put_fab p d ?f) ?now j"
      by (rule ports) (use W(4) in \<open>auto simp: d_def\<close>)
    ultimately have "planned B C t" by (simp add: planned_def t_def)
    moreover have "event_planned B C (sim_fabric t) e"
    proof -
      have co: "clock_out (put_fab p d ?f) p k = clock_out ?f p k" "owner_index (put_fab p d ?f) p = owner_index ?f p"
        using clock_out_put[OF pid(2), of d] owner_index_put[OF pid(2), of d] by (simp_all add: d_def c_def)
      have "unat ser \<le> D" using D(1) W(7) pid(2) by (auto simp: delays_ok_def c_def)
      then have "unat (sim_now s + ser) = ?now + clock_out ?f p k"
        using sum_no_wrap[OF D(2)] W(7) by (simp add: clock_out_def c_def)
      then show ?thesis using due pid co W(4) by (simp add: event_planned_def Let_def t_def e_def d_def)
    qed
    ultimately have "planned B C s'" using planned_push[OF tt] q by (simp add: s' t_def)
    moreover have "fabric_load (put_fab p d ?f) = fabric_load ?f + {#(AtPort p, plain k)#}"
      by (rule fabric_load_add[OF pid(2)]) (use W(2,4,5) in \<open>simp add: port_load_def d_def c_def\<close>)
    ultimately show ?thesis using evq.push_items[OF q] by (simp add: s' t_def carried_def views_add e_def)
  qed
  then show "planned B C s'" "carried s' = add_mset (AtPort p, plain k) (carried s)" by auto
qed

text \<open>A completion as planned: the packet starts its flight, the waiting one its transmission.\<close>

lemma on_tx_complete_planned:
  assumes q: "eq_inv (sim_queue s)" and ra: "rates_ok (sim_fabric s)"
    and p: "p = id_index (ev_port e)" and pid: "p < port_count (sim_fabric s)"
    and po: "ports_ok (sim_fabric s) (add_mset p (tx_pending (events s)))"
    and ty: "ev_type e = TxComplete" and now: "sim_now s = ev_time e" and tt: "timetable B C"
    and pl: "planned B C s" "event_planned B C (sim_fabric s) e"
    and D: "delays_ok (sim_fabric s) D" "unat (sim_now s) + D < 2 ^ 64"
    and hop: "k = port_in_flight (fab_ports (sim_fabric s) ! p)"
      "B k (peer_index (sim_fabric s) p) = B k (owner_index (sim_fabric s) p) + clock_out (sim_fabric s) p k
         + unat (port_prop_delay_ns (fab_ports (sim_fabric s) ! p))"
    and run: "on_tx_complete e s = Some s'"
  shows "planned B C s'"
proof -
  define f where "f = sim_fabric s"
  define c where "c = fab_ports f ! p"
  define u where "u = owner_index f p"
  note pid = pid[folded f_def] and po = po[folded f_def] and ra = ra[folded f_def]
  have uc: "id_index (port_owner c) = u" by (simp add: u_def c_def)
  have k: "k = port_in_flight c" using hop(1) by (simp add: c_def f_def)
  have ri: "ring_inv (port_queue c)" and cnt: "count (tx_pending (events s)) p = 0"
    using ports_okD[OF po pid] unfolding c_def by (cases "port_busy (fab_ports f ! p)"; simp)+
  have at: "unat (sim_now s) = B k u + clock_out f p k" "\<forall>y \<in> set (ring_list (port_queue c)). B y u = unat (sim_now s)"
    using pl(2) ty now by (auto simp: event_planned_def Let_def u_def c_def f_def p k)
  have short: "length (ring_list (port_queue c)) \<le> 1" "\<forall>j < port_count f. port_planned B f (unat (sim_now s)) j"
    "\<And>y. y \<in># events s \<Longrightarrow> event_planned B C f y"
    using pl(1) pid by (auto simp: planned_def port_planned_def Let_def c_def f_def)
  define c1 where "c1 = c\<lparr>port_packets_sent := port_packets_sent c + 1,
             port_bytes_sent := port_bytes_sent c + ucast (pkt_bytes k)\<rparr>"
  define a where "a = ev_arrive (sim_now s + port_prop_delay_ns c) (ev_port e) k"
  define s1 where "s1 = push_event a (s\<lparr>sim_fabric := put_fab p c1 f\<rparr>)"
  have pid1: "p < port_count (sim_fabric s1)" and c1: "fab_ports (sim_fabric s1) ! p = c1" using pid by (simp_all add: s1_def)
  have q1: "eq_inv (sim_queue s1)" using q by (simp add: s1_def evq.push_invar)
  have E1: "events s1 = add_mset (eq_stamp (sim_queue s) a) (events s)"
    using evq.push_items[OF q] by (simp add: s1_def)
  have none: "\<not> (ev_type y = TxComplete \<and> id_index (ev_port y) = p)" if "y \<in># events s" for y
    by (rule no_pending_tx[OF cnt that])
  have flight: "event_planned B C (put_fab p d f) a"
    if "port_owner d = port_owner c" "port_peer_node d = port_peer_node c" for d
  proof -
    have "unat (port_prop_delay_ns c) \<le> D" using D(1) pid by (simp add: delays_ok_def f_def c_def)
    then have "unat (sim_now s + port_prop_delay_ns c) = B k u + clock_out f p k + unat (port_prop_delay_ns c)"
      using sum_no_wrap[OF D(2)] at(1) by simp
    moreover have "B (plain k) v = B k v" for v using tt by (simp add: timetable_def)
    ultimately show ?thesis
      using hop(2) peer_index_put[OF pid, of d p] that
      by (simp add: event_planned_def Let_def a_def p[symmetric] f_def[symmetric] c_def[symmetric] uc)
  qed
  have moved: "planned B C (s1\<lparr>sim_fabric := put_fab p d f\<rparr>)"
    if d: "port_owner d = port_owner c" "port_peer_node d = port_peer_node c" "port_rate d = port_rate c"
      "ring_list (port_queue d) = []" "port_busy d \<Longrightarrow> port_in_flight d \<in> set (ring_list (port_queue c))" for d
  proof -
    have "\<forall>j < port_count (put_fab p d f). port_planned B (put_fab p d f) (unat (sim_now s)) j"
      by (rule ports_planned_put[OF short(2) pid]) (use d at(2) in \<open>auto simp: c_def u_def\<close>)
    moreover have "event_planned B C (put_fab p d f) y" if "y \<in># events s" for y
      by (rule event_planned_put_none[OF short(3)[OF that] pid _ _ _ none[OF that]]) (use d in \<open>simp_all add: c_def\<close>)
    moreover have "event_planned B C (put_fab p d f) (eq_stamp (sim_queue s) a)"
      using flight[OF d(1,2)] event_planned_stamp[OF tt] by simp
    moreover have "sim_now s1 = sim_now s" by (simp add: s1_def)
    ultimately show ?thesis unfolding planned_def by (auto simp: E1)
  qed
  have step: "on_tx_complete e s = (if ring_list (port_queue c) \<noteq> [] then start_tx (ev_port e) s1
      else put_port (ev_port e) (c1\<lparr>port_busy := False\<rparr>) s1)"
    using pid fabric_port_Some[of "ev_port e" f] put_port_Some[of "ev_port e" s c1]
      length_ring_list[of "port_queue c"]
    by (auto simp: on_tx_complete_def Let_def s1_def a_def c1_def c_def k p f_def ring_empty_def
        simp del: length_ring_list)
  have F1: "put_fab p d (sim_fabric s1) = put_fab p d f" for d by (simp add: s1_def)
  show ?thesis
  proof (cases "ring_list (port_queue c)")
    case Nil
    then have "s' = s1\<lparr>sim_fabric := put_fab p (c1\<lparr>port_busy := False\<rparr>) f\<rparr>"
      using run step put_port_Some[of "ev_port e" s1 "c1\<lparr>port_busy := False\<rparr>"] pid1 p F1 by simp
    then show ?thesis using moved[of "c1\<lparr>port_busy := False\<rparr>"] Nil by (simp add: c1_def)
  next
    case (Cons y ys)
    have ys: "ys = []" using short(1) Cons by simp
    obtain ring ser where st: "ring_list ring = []"
      "serialization_ns (ucast (pkt_bytes y)) (port_rate c) = Some ser"
      "start_tx (ev_port e) s1 = Some (push_event (ev_tx_complete (sim_now s1 + ser) (ev_port e))
        (s1\<lparr>sim_fabric := put_fab p (c1\<lparr>port_in_flight := y, port_queue := ring, port_busy := True\<rparr>) f\<rparr>))"
      using start_tx_spec[of "ev_port e" s1 c1 y ys] pid1 c1 ri Cons ra pid ys
      by (auto simp: p[symmetric] c1_def rates_ok_def c_def F1)
    define d where "d = c1\<lparr>port_in_flight := y, port_queue := ring, port_busy := True\<rparr>"
    define t where "t = s1\<lparr>sim_fabric := put_fab p d f\<rparr>"
    have "planned B C t" unfolding t_def by (rule moved) (use Cons st(1) in \<open>auto simp: d_def c1_def\<close>)
    moreover have "event_planned B C (sim_fabric t) (ev_tx_complete (sim_now s1 + ser) (ev_port e))"
    proof -
      have "unat ser \<le> D" using D(1) st(2) pid by (auto simp: delays_ok_def f_def c_def)
      then have "unat (sim_now s1 + ser) = B y u + clock_out f p y"
        using sum_no_wrap[OF D(2)] st(2) at(2) Cons by (simp add: s1_def clock_out_def c_def)
      moreover have "clock_out (put_fab p d f) p y = clock_out f p y" "owner_index (put_fab p d f) p = u"
        using clock_out_put[OF pid, of d] owner_index_put[OF pid, of d] by (simp_all add: d_def c1_def c_def u_def)
      ultimately show ?thesis using pid st(1) by (simp add: event_planned_def Let_def t_def p[symmetric] d_def)
    qed
    ultimately have "planned B C (push_event (ev_tx_complete (sim_now s1 + ser) (ev_port e)) t)"
      using planned_push[OF tt] q1 by (simp add: t_def)
    then show ?thesis using run step Cons st(3) by (simp add: t_def d_def)
  qed
qed

lemma popped_planned:
  assumes "planned B C s0" "popped e s0 s"
  shows "planned B C s" "event_planned B C (sim_fabric s) e"
proof -
  note P = poppedD[OF assms(2)]
  have "port_planned B f n p \<Longrightarrow> n \<le> m \<Longrightarrow> port_planned B f m p" for f n m p
    by (fastforce simp: port_planned_def Let_def)
  then show "planned B C s" "event_planned B C (sim_fabric s) e"
    using assms(1) P(15) unfolding planned_def P(9,13) word_le_nat_alt by auto
qed

end
