(* ===== verification/Sim_Lone.thy ===== *)
theory Sim_Lone
  imports Sim_Plan Closed_Forms
begin

text \<open>
  A fabric with a single flow on it.  Packet \<open>x\<close> is released \<open>x\<close> periods after the start of
  the flow, crosses one link per \<open>data_hop\<close> and its ack one link per \<open>ack_hop\<close>: that is the
  timetable of the run.  Data moves away from the source along shortest paths and acks
  move back towards it, so they never share a port, and two packets at one port are planned
  a period apart.
\<close>

section \<open>The geometry of shortest paths\<close>

lemma rank_step:
  assumes ready: "fabric_ready F rt" and h: "h < host_count F" and p: "p < port_count F"
  shows "hop_rank F h (peer_index F p) \<le> Suc (hop_rank F h (owner_index F p))"
proof -
  have fo: "fabric_ok F" using ready by (simp add: fabric_ready_def)
  note w = wiredD[OF fo p]
  have "(owner_index F p, peer_index F p) \<in> links F" using p by (auto simp: links_def)
  moreover have "(id_index (fab_hosts F ! h), owner_index F p) \<in> links F ^^ hop_rank F h (owner_index F p)"
    using rank_min_hops[OF ready h w(1)] by (simp add: min_hops_def)
  ultimately have "(id_index (fab_hosts F ! h), peer_index F p) \<in> links F ^^ Suc (hop_rank F h (owner_index F p))"
    by auto
  then show ?thesis using rank_min_hops[OF ready h w(5)] unfolding min_hops_def by (meson not_le)
qed

lemma rank_triangle:
  assumes ready: "fabric_ready F rt" and h: "h < host_count F" and g: "g < host_count F" and u: "u < node_count F"
    and v: "v = id_index (fab_hosts F ! g)" "v < node_count F"
  shows "hop_rank F h v \<le> hop_rank F h u + hop_rank F g u"
proof -
  have pw: "ports_wired F" using ready fabric_okD(1) by (simp add: fabric_ready_def)
  have "(id_index (fab_hosts F ! h), u) \<in> links F ^^ hop_rank F h u"
    using rank_min_hops[OF ready h u] by (simp add: min_hops_def)
  moreover have "(u, v) \<in> links F ^^ hop_rank F g u"
    using min_hops_swap[OF pw rank_min_hops[OF ready g u]] v(1) by (simp add: min_hops_def)
  ultimately have "(id_index (fab_hosts F ! h), v) \<in> links F ^^ (hop_rank F h u + hop_rank F g u)"
    by (auto simp: relpow_add)
  then show ?thesis using rank_min_hops[OF ready h v(2)] unfolding min_hops_def by (meson not_le)
qed

lemma rank_swap:
  assumes ready: "fabric_ready F rt" and h: "h < host_count F" and g: "g < host_count F"
    and v: "v = id_index (fab_hosts F ! g)" "v < node_count F" and u: "u = id_index (fab_hosts F ! h)" "u < node_count F"
  shows "hop_rank F h v = hop_rank F g u"
proof -
  have pw: "ports_wired F" using ready fabric_okD(1) by (simp add: fabric_ready_def)
  from min_hops_swap[OF pw rank_min_hops[OF ready h v(2)]] rank_min_hops[OF ready g u(2)]
  show ?thesis using min_hops_unique u(1) v(1) by metis
qed

section \<open>The timetable\<close>

record journey =
  jn_start :: nat
  jn_period :: nat
  jn_hops :: nat
  jn_ser :: nat
  jn_ack :: nat
  jn_prop :: nat

definition data_hop :: "journey \<Rightarrow> nat" where "data_hop J = jn_ser J + jn_prop J"
definition ack_hop :: "journey \<Rightarrow> nat" where "ack_hop J = jn_ack J + jn_prop J"

definition round_trip :: "journey \<Rightarrow> nat" where
  "round_trip J = jn_hops J * data_hop J + jn_hops J * ack_hop J"

definition release :: "journey \<Rightarrow> nat \<Rightarrow> nat" where
  "release J x = jn_start J + x * jn_period J"

definition back_left :: "sim \<Rightarrow> nat \<Rightarrow> nat" where
  "back_left s u = hop_rank (frozen s) (unat (frt_src_host (sim_froutes s ! 0))) u"

definition plan :: "journey \<Rightarrow> sim \<Rightarrow> packet \<Rightarrow> nat \<Rightarrow> nat" where
  "plan J s k u = release J (unat (pkt_index k)) + (if pkt_kind k = Data then (jn_hops J - hops_left s 0 u) * data_hop J
     else jn_hops J * data_hop J + (jn_hops J - back_left s u) * ack_hop J)"

text \<open>When timers and injections go off: \<open>n\<close> is the next packet to be sent.\<close>

definition clocked :: "journey \<Rightarrow> Nanos \<Rightarrow> u32 \<Rightarrow> event \<Rightarrow> bool" where
  "clocked J rto n e \<longleftrightarrow> (ev_type e = Timeout \<longrightarrow>
        unat (ev_time e) = release J (unat (ev_packet_index e)) + unat rto \<and> ev_packet_index e < n)
     \<and> (ev_type e = Inject \<longrightarrow> unat (ev_time e) \<le> release J (unat n))"

text \<open>The conditions under which the timetable holds: one flow, whole packets, every link
  alike with room for one packet, no packet slower than the pace, a timeout longer than the
  round trip and a window that covers the round trip or the whole flow.\<close>

definition lone :: "journey \<Rightarrow> sim \<Rightarrow> bool" where
  "lone J s \<longleftrightarrow> (let spec = sim_specs s ! 0; F = frozen s in
     nflows s = 1
     \<and> (\<forall>p < port_count F. 0 < ring_capacity (port_queue (fab_ports F ! p))
          \<and> unat (port_prop_delay_ns (fab_ports F ! p)) = jn_prop J
          \<and> (\<forall>k. pkt_bytes k = fs_mtu_bytes spec \<longrightarrow> clock_out F p k = jn_ser J)
          \<and> (\<forall>k. pkt_bytes k = ucast (tc_ack_bytes (sim_transport s)) \<longrightarrow> clock_out F p k = jn_ack J))
     \<and> (\<forall>x < tots s ! 0. payload spec x = fs_mtu_bytes spec)
     \<and> jn_start J = unat (fs_start_ns spec) \<and> jn_hops J = path_length s 0
     \<and> 0 < jn_period J \<and> jn_ser J \<le> jn_period J \<and> jn_ack J \<le> jn_period J
     \<and> round_trip J < unat (tc_rto_ns (sim_transport s))
     \<and> (tots s ! 0 \<le> wins s ! 0 \<or> round_trip J < unat (wins s ! 0) * jn_period J))"

lemma loneD:
  assumes "lone J s"
  shows "nflows s = 1" "0 < jn_period J" "jn_ser J \<le> jn_period J" "jn_ack J \<le> jn_period J"
    "round_trip J < unat (tc_rto_ns (sim_transport s))"
    "tots s ! 0 \<le> wins s ! 0 \<or> round_trip J < unat (wins s ! 0) * jn_period J"
    "jn_start J = unat (fs_start_ns (sim_specs s ! 0))" "jn_hops J = path_length s 0"
    "p < port_count (frozen s) \<Longrightarrow> 0 < ring_capacity (port_queue (fab_ports (frozen s) ! p))"
    "p < port_count (frozen s) \<Longrightarrow> unat (port_prop_delay_ns (fab_ports (frozen s) ! p)) = jn_prop J"
    "p < port_count (frozen s) \<Longrightarrow> pkt_bytes k = fs_mtu_bytes (sim_specs s ! 0) \<Longrightarrow> clock_out (frozen s) p k = jn_ser J"
    "p < port_count (frozen s) \<Longrightarrow> pkt_bytes k = ucast (tc_ack_bytes (sim_transport s)) \<Longrightarrow> clock_out (frozen s) p k = jn_ack J"
    "x < tots s ! 0 \<Longrightarrow> payload (sim_specs s ! 0) x = fs_mtu_bytes (sim_specs s ! 0)"
  using assms by (auto simp: lone_def Let_def)

lemma lone_cong:
  assumes "fixed s' = fixed s"
  shows "lone J s' = lone J s" "back_left s' = back_left s" "plan J s' = plan J s"
proof -
  show b: "back_left s' = back_left s" using setupD(1,5)[OF assms] by (simp add: back_left_def fun_eq_iff)
  show "plan J s' = plan J s" by (simp add: plan_def b fixed_hops[OF assms] fun_eq_iff)
  have "path_length s' 0 = path_length s 0" by (simp add: fixed_hops[OF assms])
  then show "lone J s' = lone J s" unfolding lone_def Let_def using setupD[OF assms] by simp
qed

lemma timetable_plan: "timetable (plan J s) (clocked J rto n)"
  by (simp add: timetable_def plan_def clocked_def)

lemma release_mono: "m \<le> n \<Longrightarrow> release J m \<le> release J n"
  by (simp add: release_def)

lemma release_add: "release J (m + n) = release J m + n * jn_period J"
  by (simp add: release_def algebra_simps)

section \<open>Data and acks keep to their sides\<close>

definition side :: "journey \<Rightarrow> sim \<Rightarrow> hop \<times> packet \<Rightarrow> bool" where
  "side J s y \<longleftrightarrow> (let u = owner_index (frozen s) (hop_port (fst y)) in
     if pkt_kind (snd y) = Data then hops_left s 0 u + back_left s u \<le> jn_hops J else back_left s u \<le> jn_hops J)"

lemma side_cong:
  assumes "fixed s' = fixed s"
  shows "side J s' = side J s"
  using setupD(1)[OF assms] by (simp add: side_def fixed_hops[OF assms] lone_cong(2)[OF assms] fun_eq_iff)

text \<open>Where the only flow starts and ends.\<close>

lemma lone_ends:
  assumes ok: "setup_ok s" and l: "lone J s"
  shows "unat (frt_src_host (sim_froutes s ! 0)) < host_count (frozen s)" "unat (frt_dst_host (sim_froutes s ! 0)) < host_count (frozen s)"
    "hops_left s 0 (id_index (fs_src (sim_specs s ! 0))) = jn_hops J" "back_left s (id_index (fs_src (sim_specs s ! 0))) = 0"
    "back_left s (id_index (fs_dst (sim_specs s ! 0))) = jn_hops J" "0 < jn_hops J"
    "owner_index (frozen s) (id_index (frt_src_nic (sim_froutes s ! 0))) = id_index (fs_src (sim_specs s ! 0))"
    "owner_index (frozen s) (id_index (frt_dst_nic (sim_froutes s ! 0))) = id_index (fs_dst (sim_specs s ! 0))"
    "on_route (frozen s) (unat (frt_dst_host (sim_froutes s ! 0))) (id_index (frt_src_nic (sim_froutes s ! 0)))"
    "on_route (frozen s) (unat (frt_src_host (sim_froutes s ! 0))) (id_index (frt_dst_nic (sim_froutes s ! 0)))"
proof -
  let ?F = "frozen s" and ?fr = "sim_froutes s ! 0" and ?spec = "sim_specs s ! 0"
  have n: "0 < nflows s" using loneD(1)[OF l] by simp
  note fs = setup_okD(15)[OF ok n, unfolded flow_shape_def]
  show sh: "unat (frt_src_host ?fr) < host_count ?F" and dh: "unat (frt_dst_host ?fr) < host_count ?F"
    and os: "owner_index ?F (id_index (frt_src_nic ?fr)) = id_index (fs_src ?spec)"
    and od: "owner_index ?F (id_index (frt_dst_nic ?fr)) = id_index (fs_dst ?spec)"
    and rs: "on_route ?F (unat (frt_dst_host ?fr)) (id_index (frt_src_nic ?fr))"
    and rd: "on_route ?F (unat (frt_src_host ?fr)) (id_index (frt_dst_nic ?fr))" using fs by blast+
  have at: "fab_hosts ?F ! unat (frt_src_host ?fr) = fs_src ?spec" "fab_hosts ?F ! unat (frt_dst_host ?fr) = fs_dst ?spec"
    using fs by blast+
  have ready: "fabric_ready ?F (sim_routes s)" using setup_okD(1)[OF ok] .
  then have fo: "fabric_ok ?F" by (simp add: fabric_ready_def)
  have us: "id_index (fs_src ?spec) < node_count ?F" using wiredD(1)[OF fo] rs os by (metis on_route_def)
  have ud: "id_index (fs_dst ?spec) < node_count ?F" using wiredD(1)[OF fo] rd od by (metis on_route_def)
  show hs: "hops_left s 0 (id_index (fs_src ?spec)) = jn_hops J"
    using loneD(8)[OF l] os by (simp add: path_length_def source_node_def)
  show "back_left s (id_index (fs_src ?spec)) = 0"
    unfolding back_left_def rank_0_iff[OF ready sh us] by (simp only: at)
  have "hop_rank ?F (unat (frt_src_host ?fr)) (id_index (fs_dst ?spec)) = hop_rank ?F (unat (frt_dst_host ?fr)) (id_index (fs_src ?spec))"
    by (rule rank_swap[OF ready sh dh _ ud _ us]) (simp_all only: at)
  then show "back_left s (id_index (fs_dst ?spec)) = jn_hops J" using hs by (simp add: back_left_def hops_left_def)
  show "0 < jn_hops J" using on_route_rank[OF ready rs] hs os by (simp add: hops_left_def)
qed

lemma side_hop:
  assumes ok: "setup_ok s" and l: "lone J s" and pk: "packet_ok s (h, k)" and sd: "side J s (h, k)" and p: "hop_port h = p"
  shows "p < port_count (frozen s)" "id_index (pkt_flow k) = 0"
    "if pkt_kind k = Data then hops_left s 0 (owner_index (frozen s) p) = Suc (hops_left s 0 (peer_index (frozen s) p))
      else back_left s (owner_index (frozen s) p) = Suc (back_left s (peer_index (frozen s) p))"
    "if pkt_kind k = Data then hops_left s 0 (peer_index (frozen s) p) + back_left s (peer_index (frozen s) p) \<le> jn_hops J
      else back_left s (peer_index (frozen s) p) \<le> jn_hops J"
    "plan J s k (peer_index (frozen s) p) = plan J s k (owner_index (frozen s) p) + (if pkt_kind k = Data then data_hop J else ack_hop J)"
proof -
  let ?u = "owner_index (frozen s) p" and ?v = "peer_index (frozen s) p"
  have ready: "fabric_ready (frozen s) (sim_routes s)" using setup_okD(1)[OF ok] .
  have ro: "on_route (frozen s) (dest_host s k) p" and i: "id_index (pkt_flow k) < nflows s"
    using pk p by (auto simp: packet_ok_def Let_def)
  show pc: "p < port_count (frozen s)" using ro by (simp add: on_route_def)
  show f: "id_index (pkt_flow k) = 0" using i loneD(1)[OF l] by simp
  note rk = on_route_rank[OF ready ro]
  show step: "if pkt_kind k = Data then hops_left s 0 ?u = Suc (hops_left s 0 ?v) else back_left s ?u = Suc (back_left s ?v)"
    using rk kind_cases(1)[of "pkt_kind k"] by (auto simp: dest_host_def Let_def f hops_left_def back_left_def split: if_splits)
  have "back_left s ?v \<le> Suc (back_left s ?u)"
    using rank_step[OF ready lone_ends(1)[OF ok l] pc] by (simp add: back_left_def)
  then show "if pkt_kind k = Data then hops_left s 0 ?v + back_left s ?v \<le> jn_hops J else back_left s ?v \<le> jn_hops J"
    using step sd p by (auto simp: side_def Let_def split: if_splits)
  have suc: "(n - m) * c = (n - Suc m) * c + c" if "Suc m \<le> n" for n m c :: nat
  proof -
    have "n - m = Suc (n - Suc m)" using that by simp
    then show ?thesis by simp
  qed
  show "plan J s k ?v = plan J s k ?u + (if pkt_kind k = Data then data_hop J else ack_hop J)"
    using step sd p suc[of "hops_left s 0 ?v" "jn_hops J" "data_hop J"] suc[of "back_left s ?v" "jn_hops J" "ack_hop J"]
    by (auto simp: side_def Let_def plan_def split: if_splits)
qed

text \<open>What port \<open>p\<close> of the running fabric costs.\<close>

lemma lone_clock_out:
  assumes ok: "setup_ok s" and l: "lone J s" and pk: "packet_ok s (h, k)" and p: "hop_port h = p"
    and seq: "tx_next_seq (sim_tx s ! 0) \<le> tots s ! 0"
  shows "clock_out (sim_fabric s) p k = (if pkt_kind k = Data then jn_ser J else jn_ack J)"
    "clock_out (sim_fabric s) p k \<le> jn_period J"
    "unat (port_prop_delay_ns (fab_ports (sim_fabric s) ! p)) = jn_prop J"
    "0 < ring_capacity (port_queue (fab_ports (sim_fabric s) ! p))"
    "owner_index (sim_fabric s) p = owner_index (frozen s) p" "peer_index (sim_fabric s) p = peer_index (frozen s) p"
proof -
  have i: "id_index (pkt_flow k) = 0" and ix: "pkt_index k < tots s ! 0" and pc: "p < port_count (frozen s)"
    using pk p seq loneD(1)[OF l] by (auto simp: packet_ok_def Let_def on_route_def)
  note fr = frozen_port(7-10)[OF refl pc]
  have rt: "clock_out (sim_fabric s) p k = clock_out (frozen s) p k" using fr(3) by (simp add: clock_out_def)
  have b: "pkt_kind k = Data \<Longrightarrow> pkt_bytes k = fs_mtu_bytes (sim_specs s ! 0)"
    "pkt_kind k = Ack \<Longrightarrow> pkt_bytes k = ucast (tc_ack_bytes (sim_transport s))"
    using pk i ix loneD(13)[OF l] by (auto simp: packet_ok_def Let_def)
  show c: "clock_out (sim_fabric s) p k = (if pkt_kind k = Data then jn_ser J else jn_ack J)"
    using rt b loneD(11,12)[OF l pc] kind_cases(1)[of "pkt_kind k"] by auto
  show "clock_out (sim_fabric s) p k \<le> jn_period J" using c loneD(3,4)[OF l] by simp
  show "unat (port_prop_delay_ns (fab_ports (sim_fabric s) ! p)) = jn_prop J" using loneD(10)[OF l pc] fr(4) by simp
  have "ring_capacity (port_queue (fab_ports (frozen s) ! p)) = ring_capacity (port_queue (fab_ports (sim_fabric s) ! p))"
    using pc by (simp add: reset_port_def port_count_def)
  then show "0 < ring_capacity (port_queue (fab_ports (sim_fabric s) ! p))" using loneD(9)[OF l pc] by simp
  show "owner_index (sim_fabric s) p = owner_index (frozen s) p" using fr(1) by simp
  show "peer_index (sim_fabric s) p = peer_index (frozen s) p" using fr(2) by (simp add: peer_index_def)
qed

lemma same_kind:
  assumes ok: "setup_ok s" and l: "lone J s" and "packet_ok s (h, k)" "side J s (h, k)" "packet_ok s (g, j)" "side J s (g, j)"
    and p: "hop_port h = p" "hop_port g = p"
  shows "pkt_kind k = pkt_kind j"
proof -
  let ?v = "peer_index (frozen s) p"
  have tri: "jn_hops J \<le> hops_left s 0 ?v + back_left s ?v"
  proof -
    have ready: "fabric_ready (frozen s) (sim_routes s)" using setup_okD(1)[OF ok] .
    then have fo: "fabric_ok (frozen s)" by (simp add: fabric_ready_def)
    note E = lone_ends[OF ok l]
    have n: "0 < nflows s" using loneD(1)[OF l] by simp
    have pc: "p < port_count (frozen s)" by (rule side_hop(1)[OF ok l assms(3,4) p(1)])
    have "id_index (fs_src (sim_specs s ! 0)) < node_count (frozen s)" using wiredD(1)[OF fo] E(7,9) by (metis on_route_def)
    moreover have "fs_src (sim_specs s ! 0) = fab_hosts (frozen s) ! unat (frt_src_host (sim_froutes s ! 0))"
      using setup_okD(15)[OF ok n] by (simp add: flow_shape_def)
    ultimately show ?thesis
      using rank_triangle[OF ready E(2,1) wiredD(5)[OF fo pc], of "id_index (fs_src (sim_specs s ! 0))"] E(3)
      by (simp add: hops_left_def back_left_def)
  qed
  note A = side_hop(3)[OF ok l assms(3,4) p(1)] side_hop(3)[OF ok l assms(5,6) p(2)]
  have "side J s (h, k)" "side J s (g, j)" using assms by blast+
  then show ?thesis
    using A tri p kind_cases(1)[of "pkt_kind k"] kind_cases(1)[of "pkt_kind j"]
    by (cases "pkt_kind k = Data"; cases "pkt_kind j = Data") (auto simp: side_def Let_def)
qed

text \<open>Two packets at one port are a period apart.\<close>

lemma plan_apart:
  assumes "pkt_kind k = pkt_kind j" "pkt_index j \<noteq> pkt_index k" "plan J s j u \<le> plan J s k u" "0 < jn_period J"
  shows "plan J s j u + jn_period J \<le> plan J s k u"
proof -
  let ?a = "unat (pkt_index j)" and ?b = "unat (pkt_index k)"
  have "?a \<noteq> ?b" using assms(2) by (simp add: word_unat_eq_iff)
  moreover have "release J ?a \<le> release J ?b" using assms(1,3) by (auto simp: plan_def split: if_splits)
  then have "?a \<le> ?b" using assms(4) by (simp add: release_def)
  ultimately have "Suc ?a \<le> ?b" by simp
  then have "release J (Suc ?a) \<le> release J ?b" by (rule release_mono)
  then show ?thesis using assms(1) by (auto simp: plan_def release_def split: if_splits)
qed

end
