(* ===== verification/Lone_State.thy ===== *)
theory Lone_State
  imports Sim_Lone
begin

text \<open>
  The state of a run that follows the timetable of its only flow.  Every packet sent and
  not yet acked has exactly one copy on the network, where the timetable puts it; the next packet
  is not late; nothing failed and nothing waits for retransmission.
\<close>

section \<open>Following the timetable\<close>

definition copies :: "sim \<Rightarrow> u32 \<Rightarrow> nat" where
  "copies s x = size (filter_mset (\<lambda>y. pkt_index (snd y) = x) (carried s))"

text \<open>\<open>E\<close> holds the packets whose copy is in the hands of the current handler.\<close>

definition on_plan :: "journey \<Rightarrow> u32 set \<Rightarrow> sim \<Rightarrow> bool" where
  "on_plan J E s \<longleftrightarrow> (let tx = sim_tx s ! 0; n = tx_next_seq tx; now = unat (sim_now s); r = sim_results s ! 0 in
     \<not> tx_failed tx \<and> tx_retx_count tx = 0 \<and> unat (tx_period_ns tx) = jn_period J
     \<and> planned (plan J s) (clocked J (tc_rto_ns (sim_transport s)) n) s
     \<and> (\<forall>y \<in># carried s. side J s y)
     \<and> (\<forall>x. copies s x + of_bool (x \<in> E) = of_bool (x < n \<and> \<not> bit (pst s 0 x) 1))
     \<and> (\<forall>x < n. release J (unat x) \<le> now)
     \<and> (n = 0 \<longrightarrow> tx_next_send_ns tx = 0) \<and> (n \<noteq> 0 \<longrightarrow> unat (tx_next_send_ns tx) = release J (unat n))
     \<and> (n < tots s ! 0 \<longrightarrow> now \<le> release J (unat n))
     \<and> (res_complete r \<longrightarrow> unat (res_finish_ns r) \<le> release J (unat (tots s ! 0) - 1) + jn_hops J * data_hop J))"

lemma on_planD:
  assumes "on_plan J E s"
  shows "\<not> tx_failed (sim_tx s ! 0)" "tx_retx_count (sim_tx s ! 0) = 0" "unat (tx_period_ns (sim_tx s ! 0)) = jn_period J"
    "planned (plan J s) (clocked J (tc_rto_ns (sim_transport s)) (tx_next_seq (sim_tx s ! 0))) s"
    "y \<in># carried s \<Longrightarrow> side J s y"
    "copies s x + of_bool (x \<in> E) = of_bool (x < tx_next_seq (sim_tx s ! 0) \<and> \<not> bit (pst s 0 x) 1)"
    "x < tx_next_seq (sim_tx s ! 0) \<Longrightarrow> release J (unat x) \<le> unat (sim_now s)"
    "tx_next_seq (sim_tx s ! 0) = 0 \<Longrightarrow> tx_next_send_ns (sim_tx s ! 0) = 0"
    "tx_next_seq (sim_tx s ! 0) \<noteq> 0 \<Longrightarrow> unat (tx_next_send_ns (sim_tx s ! 0)) = release J (unat (tx_next_seq (sim_tx s ! 0)))"
    "tx_next_seq (sim_tx s ! 0) < tots s ! 0 \<Longrightarrow> unat (sim_now s) \<le> release J (unat (tx_next_seq (sim_tx s ! 0)))"
    "res_complete (sim_results s ! 0) \<Longrightarrow>
       unat (res_finish_ns (sim_results s ! 0)) \<le> release J (unat (tots s ! 0) - 1) + jn_hops J * data_hop J"
  using assms by (auto simp: on_plan_def Let_def)

text \<open>What the operations of the flow need of the state they start from.\<close>

definition workable :: "journey \<Rightarrow> nat \<Rightarrow> sim \<Rightarrow> bool" where
  "workable J D s \<longleftrightarrow> setup_ok s \<and> lone J s \<and> net_inv s \<and> (\<forall>y \<in># carried s. packet_ok s y)
     \<and> tx_next_seq (sim_tx s ! 0) \<le> tots s ! 0 \<and> (\<forall>e \<in># events s. sim_now s \<le> ev_time e)
     \<and> (\<forall>x. bit (pst s 0 x) 1 \<longrightarrow> x < tx_next_seq (sim_tx s ! 0)) \<and> run_delays s D \<and> unat (sim_now s) + D < 2 ^ 64"

lemma workableD:
  assumes "workable J D s"
  shows "setup_ok s" "lone J s" "net_inv s" "y \<in># carried s \<Longrightarrow> packet_ok s y" "tx_next_seq (sim_tx s ! 0) \<le> tots s ! 0"
    "\<forall>e \<in># events s. sim_now s \<le> ev_time e" "delays_ok (sim_fabric s) D" "unat (sim_now s) + D < 2 ^ 64"
    "unat (tc_rto_ns (sim_transport s)) \<le> D" "unat (tx_period_ns (sim_tx s ! 0)) \<le> D" "run_delays s D"
    "sim_tx s \<noteq> []" "0 < nflows s" "bit (pst s 0 x) 1 \<Longrightarrow> x < tx_next_seq (sim_tx s ! 0)" "eq_inv (sim_queue s)"
proof -
  note W = assms[unfolded workable_def]
  show "setup_ok s" "lone J s" "net_inv s" "y \<in># carried s \<Longrightarrow> packet_ok s y" "tx_next_seq (sim_tx s ! 0) \<le> tots s ! 0"
    "\<forall>e \<in># events s. sim_now s \<le> ev_time e" "unat (sim_now s) + D < 2 ^ 64" and rd: "run_delays s D"
    and "bit (pst s 0 x) 1 \<Longrightarrow> x < tx_next_seq (sim_tx s ! 0)" using W by blast+
  show "eq_inv (sim_queue s)" using W by (simp add: net_inv_def)
  show n: "0 < nflows s" using W loneD(1) by fastforce
  then have L: "0 < length (sim_tx s)" using W setup_okD(4) by metis
  then show "sim_tx s \<noteq> []" by auto
  show "delays_ok (sim_fabric s) D" "unat (tc_rto_ns (sim_transport s)) \<le> D"
    using rd delays_frozen[of s] by (simp_all add: run_delays_def)
  have "tx_period_ns (sim_tx s ! 0) \<in> set (periods s)" using L by (simp add: periods_def)
  then show "unat (tx_period_ns (sim_tx s ! 0)) \<le> D" using rd by (simp add: run_delays_def)
qed

section \<open>Copies on the network\<close>

lemma in_fabric_load:
  "y \<in># fabric_load f \<longleftrightarrow> (\<exists>p < port_count f. y \<in># port_load p (fab_ports f ! p))"
proof -
  have "y \<in># (\<Sum>i<n. g i) \<longleftrightarrow> (\<exists>i < n. y \<in># g i)" for n and g :: "nat \<Rightarrow> (hop \<times> packet) multiset"
    by (induction n) (auto simp: less_Suc_eq)
  then show ?thesis by (simp add: fabric_load_def)
qed

lemma port_in_carried:
  assumes "p < port_count (sim_fabric s)" "j \<in> set (ring_list (port_queue (fab_ports (sim_fabric s) ! p)))
    \<or> port_busy (fab_ports (sim_fabric s) ! p) \<and> j = port_in_flight (fab_ports (sim_fabric s) ! p)"
  shows "(AtPort p, plain j) \<in># carried s"
proof -
  have "(AtPort p, plain j) \<in># port_load p (fab_ports (sim_fabric s) ! p)"
    using assms(2) by (auto simp: port_load_def)
  then show ?thesis using assms(1) in_fabric_load by (auto simp: carried_def)
qed

lemma plan_plain: "plan J s (plain k) = plan J s k"
  by (simp add: plan_def fun_eq_iff)

lemma clock_out_plain: "clock_out f p (plain k) = clock_out f p k"
  by (simp add: clock_out_def)

lemma plan_home: "plan J s k u \<le> release J (unat (pkt_index k)) + round_trip J"
proof -
  have "(jn_hops J - a) * c \<le> jn_hops J * c" for a c by (rule mult_le_mono1) simp
  from this[of "hops_left s 0 u" "data_hop J"] this[of "back_left s u" "ack_hop J"]
  show ?thesis by (auto simp: plan_def round_trip_def intro: le_trans trans_le_add1)
qed

text \<open>Every copy has an event pending that brings it further, no later than its ack is due.\<close>

lemma carried_deadline:
  assumes ok: "setup_ok s" and l: "lone J s" and net: "net_inv s" and pk: "\<And>y. y \<in># carried s \<Longrightarrow> packet_ok s y"
    and seq: "tx_next_seq (sim_tx s ! 0) \<le> tots s ! 0" and op: "on_plan J E s" and y: "y \<in># carried s"
  shows "\<exists>e \<in># events s. unat (ev_time e) \<le> release J (unat (pkt_index (snd y))) + round_trip J"
proof -
  let ?f = "sim_fabric s"
  have pl: "event_planned (plan J s) (clocked J (tc_rto_ns (sim_transport s)) (tx_next_seq (sim_tx s ! 0))) ?f e" if "e \<in># events s" for e
    using on_planD(4)[OF op] that by (simp add: planned_def)
  have po: "ports_ok ?f (tx_pending (events s))" using net by (simp add: net_inv_def)
  consider (wire) e where "e \<in># events s" "ev_type e = Arrive" "snd y = ev_packet e"
    | (port) p k where "p < port_count ?f" "y = (AtPort p, plain k)"
      "k \<in> set (ring_list (port_queue (fab_ports ?f ! p))) \<or> port_busy (fab_ports ?f ! p) \<and> k = port_in_flight (fab_ports ?f ! p)"
    using y unfolding carried_def union_iff in_fabric_load
    by (auto simp: arrivals_def port_load_def split: if_splits)
  then show ?thesis
  proof cases
    case wire
    then show ?thesis using pl[OF wire(1)] plan_home[of J s "ev_packet e"]
      by (intro bexI[of _ e]) (simp_all add: event_planned_def Let_def)
  next
    case port
    have busy: "port_busy (fab_ports ?f ! p)" 
      using port(3) ports_okD(2)[OF po port(1)] by (cases "port_busy (fab_ports ?f ! p)") simp_all
    then obtain e where e: "e \<in># events s" "ev_type e = TxComplete" "id_index (ev_port e) = p"
      using busy_pending[OF po port(1)] by blast
    have pky: "packet_ok s (AtPort p, plain k)" using pk[OF y] port(2) by simp
    note C = lone_clock_out[OF ok l pky _ seq, of p, simplified clock_out_plain]
    have "unat (ev_time e) \<le> release J (unat (pkt_index k)) + round_trip J"
    proof (cases "k \<in> set (ring_list (port_queue (fab_ports ?f ! p)))")
      case True
      moreover have "\<forall>y \<in> set (ring_list (port_queue (fab_ports ?f ! p))). unat (ev_time e) = plan J s y (owner_index ?f p)"
        using pl[OF e(1)] e(2,3) by (auto simp: event_planned_def Let_def)
      ultimately have "unat (ev_time e) = plan J s k (owner_index ?f p)" by blast
      then show ?thesis using plan_home[of J s k] by simp
    next
      case False
      then have "unat (ev_time e) = plan J s k (owner_index ?f p) + clock_out ?f p k"
        using pl[OF e(1)] e(2,3) port(3) by (auto simp: event_planned_def Let_def)
      moreover have "plan J s k (peer_index (frozen s) p) = plan J s k (owner_index (frozen s) p)
          + (if pkt_kind k = Data then data_hop J else ack_hop J)"
        using side_hop(5)[OF ok l pky _, of p] on_planD(5)[OF op y] port(2) by (simp add: plan_plain)
      ultimately show ?thesis using C(1,5) plan_home[of J s k "peer_index (frozen s) p"]
        by (auto simp: data_hop_def ack_hop_def split: if_splits)
    qed
    then show ?thesis using e(1) port(2) by auto
  qed
qed

section \<open>A packet takes its place\<close>

lemma copies_add: "carried s' = add_mset y (carried s) \<Longrightarrow> copies s' x = copies s x + of_bool (pkt_index (snd y) = x)"
  by (simp add: copies_def)

lemma Suc_of_bool: "Suc n = of_bool P \<Longrightarrow> n = 0"
  by (cases P) simp_all

lemma Suc_of_boolD: "Suc n = of_bool P \<Longrightarrow> P"
  by (cases P) simp_all

lemma room_on_plan:
  assumes w: "workable J D s" and op: "on_plan J E s" and x: "pkt_index k \<in> E"
    and pk: "packet_ok s (AtPort p, k)" and sd: "side J s (AtPort p, k)"
    and now: "plan J s k (owner_index (frozen s) p) = unat (sim_now s)"
  shows "room_for (plan J s) (sim_fabric s) (unat (sim_now s)) p"
proof -
  note W = workableD[OF w]
  let ?f = "sim_fabric s" and ?u = "owner_index (sim_fabric s) p"
  note K = lone_clock_out[OF W(1,2) pk _ W(5), of p, simplified]
  have pc: "p < port_count ?f" using pk by (simp add: packet_ok_def Let_def on_route_def)
  have "plan J s j ?u < unat (sim_now s) \<and> plan J s j ?u + clock_out ?f p j \<le> unat (sim_now s)"
    if j: "j \<in> set (ring_list (port_queue (fab_ports ?f ! p))) \<or> port_busy (fab_ports ?f ! p) \<and> j = port_in_flight (fab_ports ?f ! p)" for j
  proof -
    have cj: "(AtPort p, plain j) \<in># carried s" by (rule port_in_carried[OF pc j])
    have pj: "packet_ok s (AtPort p, plain j)" and sj: "side J s (AtPort p, plain j)" using W(4) on_planD(5)[OF op] cj by blast+
    have kd: "pkt_kind k = pkt_kind j" using same_kind[OF W(1,2) pk sd pj sj] by simp
    have "copies s (pkt_index k) = 0" 
      using on_planD(6)[OF op, of "pkt_index k"] x Suc_of_bool by simp
    then have "\<forall>y \<in># carried s. pkt_index (snd y) \<noteq> pkt_index k" by (auto simp: copies_def)
    then have "pkt_index j \<noteq> pkt_index k" using cj by fastforce
    moreover have "plan J s j ?u \<le> plan J s k ?u"
      using on_planD(4)[OF op] pc j now K(5) by (auto simp: planned_def port_planned_def Let_def)
    ultimately have "plan J s j ?u + jn_period J \<le> plan J s k ?u"
      using plan_apart[OF kd] loneD(2)[OF W(2)] by blast
    moreover have "clock_out ?f p j \<le> jn_period J"
      using lone_clock_out(2)[OF W(1,2) pj _ W(5), of p] by (simp add: clock_out_plain)
    ultimately show ?thesis using now K(5) loneD(2)[OF W(2)] by simp
  qed
  then show ?thesis using K(4) by (simp add: room_for_def Let_def)
qed

lemma on_plan_frame:
  assumes op: "on_plan J E s" and fr: "net_frame s s'" and ok: "setup_ok s" and n: "0 < nflows s"
    and pl: "planned (plan J s) (clocked J (tc_rto_ns (sim_transport s)) (tx_next_seq (sim_tx s ! 0))) s'"
    and sd: "\<forall>y \<in># carried s'. side J s y"
    and cp: "\<And>x. copies s' x + of_bool (x \<in> E') = copies s x + of_bool (x \<in> E)"
  shows "on_plan J E' s'"
proof -
  note f = net_frameD[OF fr] and fx = setup_frame[OF fr]
  have L: "0 < length (sim_results s)" using setup_okD(7)[OF ok] n by simp
  note c = core_fields[OF core_eq[OF f(7) L]]
  have p: "pst s' = pst s" using views_cong(1)[OF fx] f by (simp add: same_arrays_def)
  note sides = side_cong[OF fx]
  show ?thesis
    unfolding on_plan_def Let_def f c p setupD[OF fx] lone_cong(3)[OF fx] sides cp
    using on_planD[OF op] pl sd by auto
qed

lemma enqueue_on_plan:
  assumes w: "workable J D s" and op: "on_plan J {x} s" and x: "pkt_index k = x" and pid: "id_index pid = p"
    and pk: "packet_ok s (AtPort p, plain k)" and sd: "side J s (AtPort p, plain k)"
    and now: "plan J s k (owner_index (frozen s) p) = unat (sim_now s)"
    and run: "enqueue pid k s = Some s'"
  shows "on_plan J {} s'" "net_frame s s'" "net_inv s'"
proof -
  note W = workableD[OF w]
  have pc: "p < port_count (sim_fabric s)" using pk by (simp add: packet_ok_def Let_def on_route_def)
  have fl: "id_index (pkt_flow k) < length (sim_results s)"
    using packet_ok_flow[OF pk] setup_okD(7)[OF W(1)] by simp
  obtain t where t: "enqueue pid k s = Some t" "net_inv t" "net_frame s t"
    using enqueue_effect[OF W(3) _ fl, of pid] pc pid by metis
  show fr: "net_frame s s'" and "net_inv s'" using t run by simp_all
  have due: "plan J s k (owner_index (sim_fabric s) p) = unat (sim_now s)"
    using now lone_clock_out(5)[OF W(1,2) pk _ W(5), of p] by simp
  have room: "room_for (plan J s) (sim_fabric s) (unat (sim_now s)) p"
    by (rule room_on_plan[OF w op _ pk sd]) (use x now in \<open>simp_all add: plan_plain\<close>)
  note E = enqueue_planned[OF W(3) pid pc fl timetable_plan on_planD(4)[OF op] W(6) due room W(7,8) run]
  show "on_plan J {} s'"
  proof (rule on_plan_frame[OF op fr W(1,13) E(1)])
    show "\<forall>y \<in># carried s'. side J s y" using E(2) on_planD(5)[OF op] sd by auto
    show "copies s' y + of_bool (y \<in> {}) = copies s y + of_bool (y \<in> {x})" for y
      using copies_add[OF E(2), of y] x by auto
  qed
qed

end
