(* ===== verification/Lone_Send.thy ===== *)
theory Lone_Send
  imports Lone_State
begin

text \<open>
  The sender of the only flow keeps to the timetable: \<open>try_send\<close> sends the next packet exactly
  when it is due, or leaves an injection behind that will.
\<close>

section \<open>Changes that leave the timetable alone\<close>

text \<open>Records of the sender that differ in nothing the timetable looks at.\<close>

definition tx_alike :: "FlowTx \<Rightarrow> FlowTx \<Rightarrow> bool" where
  "tx_alike a b \<longleftrightarrow> tx_window a = tx_window b \<and> tx_packets_total a = tx_packets_total b \<and> tx_next_seq a = tx_next_seq b
     \<and> tx_failed a = tx_failed b \<and> tx_retx_count a = tx_retx_count b \<and> tx_period_ns a = tx_period_ns b
     \<and> tx_next_send_ns a = tx_next_send_ns b"

lemma on_plan_cong:
  assumes fx: "fixed s' = fixed s" and pl: "planned (plan J s) (clocked J (tc_rto_ns (sim_transport s)) (tx_next_seq (sim_tx s ! 0))) s'"
    and cr: "carried s' = carried s" and now: "sim_now s' = sim_now s"
    and tx: "tx_alike (sim_tx s' ! 0) (sim_tx s ! 0)"
    and fin: "res_complete (sim_results s' ! 0) \<Longrightarrow>
       unat (res_finish_ns (sim_results s' ! 0)) \<le> release J (unat (tots s ! 0) - 1) + jn_hops J * data_hop J"
    and cp: "\<And>x. of_bool (x \<in> E') + of_bool (x < tx_next_seq (sim_tx s ! 0) \<and> \<not> bit (pst s 0 x) 1)
      = (of_bool (x \<in> E) + of_bool (x < tx_next_seq (sim_tx s ! 0) \<and> \<not> bit (pst s' 0 x) 1) :: nat)"
    and op: "on_plan J E s"
  shows "on_plan J E' s'"
proof -
  have ca: "copies s' = copies s" by (simp add: copies_def cr fun_eq_iff)
  have cs: "copies s x + of_bool (x \<in> E') = of_bool (x < tx_next_seq (sim_tx s ! 0) \<and> \<not> bit (pst s' 0 x) 1)" for x
    using on_planD(6)[OF op, of x] cp[of x] by linarith
  have t: "tx_next_seq (sim_tx s' ! 0) = tx_next_seq (sim_tx s ! 0)" "tx_failed (sim_tx s' ! 0) = tx_failed (sim_tx s ! 0)"
    "tx_retx_count (sim_tx s' ! 0) = tx_retx_count (sim_tx s ! 0)" "tx_period_ns (sim_tx s' ! 0) = tx_period_ns (sim_tx s ! 0)"
    "tx_next_send_ns (sim_tx s' ! 0) = tx_next_send_ns (sim_tx s ! 0)" using tx by (simp_all add: tx_alike_def)
  show ?thesis
    unfolding on_plan_def Let_def t now setupD[OF fx] lone_cong(3)[OF fx] side_cong[OF fx] cr ca
    using on_planD[OF op] pl cs fin by blast
qed

lemma on_plan_same_net:
  assumes op: "on_plan J E s" and fx: "fixed s' = fixed s"
    and net: "sim_fabric s' = sim_fabric s" "sim_queue s' = sim_queue s" "sim_now s' = sim_now s"
    and tx: "tx_alike (sim_tx s' ! 0) (sim_tx s ! 0)" and rs: "sim_results s' = sim_results s"
    and cp: "\<And>x. of_bool (x \<in> E') + of_bool (x < tx_next_seq (sim_tx s ! 0) \<and> \<not> bit (pst s 0 x) 1)
      = (of_bool (x \<in> E) + of_bool (x < tx_next_seq (sim_tx s ! 0) \<and> \<not> bit (pst s' 0 x) 1) :: nat)"
  shows "on_plan J E' s'"
proof (rule on_plan_cong[OF fx _ _ net(3) tx _ cp op])
  show "planned (plan J s) (clocked J (tc_rto_ns (sim_transport s)) (tx_next_seq (sim_tx s ! 0))) s'"
    using planned_cong[OF net] on_planD(4)[OF op] by simp
  show "carried s' = carried s" by (simp add: carried_def net)
qed (use on_planD(11)[OF op] rs in simp)

lemma workable_cong:
  assumes w: "workable J D s" and fx: "fixed s' = fixed s" "periods s' = periods s" and "sim_fabric s' = sim_fabric s"
    "sim_queue s' = sim_queue s" "sim_now s' = sim_now s" "tx_next_seq (sim_tx s' ! 0) = tx_next_seq (sim_tx s ! 0)"
    and pk: "\<And>x. bit (pst s 0 x) 0 \<Longrightarrow> bit (pst s' 0 x) 0"
      "\<And>x. bit (pst s' 0 x) 1 \<Longrightarrow> bit (pst s 0 x) 1 \<or> x < tx_next_seq (sim_tx s ! 0)"
  shows "workable J D s'"
proof -
  note W = workableD[OF w]
  have cr: "carried s' = carried s" by (simp add: carried_def assms(4,5))
  have one: "i = 0" if "i < nflows s" for i using that loneD(1)[OF W(2)] by simp
  have "packet_ok s' y" if "y \<in># carried s" for y
  proof (rule packet_ok_mono[OF W(4)[OF that] fx(1)])
    show "tx_next_seq (sim_tx s ! i) \<le> tx_next_seq (sim_tx s' ! i)" if "i < nflows s" for i
      using one[OF that] assms(7) by simp
    show "bit (pst s' i idx) 0" if "i < nflows s" "bit (pst s i idx) 0" for i idx
      using one[OF that(1)] pk(1) that(2) by simp
  qed
  moreover have "x < tx_next_seq (sim_tx s ! 0)" if "bit (pst s' 0 x) 1" for x using pk(2)[OF that] W(14) by blast
  ultimately show ?thesis
    using W setup_ok_cong[OF fx(1)] lone_cong(1)[OF fx(1)] run_delays_cong[OF fx, of D] setupD(7)[OF fx(1)]
    unfolding workable_def cr assms(4-7) net_inv_def by simp
qed

text \<open>Writing the sender's record.\<close>

lemma put_tx_on_plan:
  assumes L: "sim_tx s \<noteq> []" and op: "on_plan J E s" and s1: "s1 = s\<lparr>sim_tx := (sim_tx s)[0 := tx]\<rparr>"
    and same: "tx_alike tx (sim_tx s ! 0)"
  shows "fixed s1 = fixed s" "periods s1 = periods s" "pst s1 = pst s" "on_plan J E s1"
    "workable J D s \<Longrightarrow> workable J D s1"
proof -
  have L0: "0 < length (sim_tx s)" using L by simp
  show fx: "fixed s1 = fixed s" unfolding s1 by (rule setup_put_tx[OF L0]) (use same in \<open>simp_all add: tx_alike_def\<close>)
  show per: "periods s1 = periods s" using L0 same by (simp add: periods_def s1 map_update_same tx_alike_def)
  show p: "pst s1 = pst s" by (rule view_congs(1)[OF fx]) (simp add: s1)
  have t: "sim_tx s1 ! 0 = tx" using L0 by (simp add: s1)
  show "on_plan J E s1" by (rule on_plan_same_net[OF op fx]) (use same p t in \<open>simp_all add: s1\<close>)
  show "workable J D s1" if "workable J D s"
    by (rule workable_cong[OF that fx per]) (use same p t in \<open>simp_all add: tx_alike_def s1\<close>)
qed

text \<open>An injection or a timer is added.\<close>

lemma push_on_plan:
  assumes q: "eq_inv (sim_queue s)" and op: "on_plan J E s" and ty: "ev_type e \<in> {Inject, Timeout}"
    and c: "clocked J (tc_rto_ns (sim_transport s)) (tx_next_seq (sim_tx s ! 0)) e"
  shows "on_plan J E (push_event e s)"
proof -
  note P = on_planD[OF op]
  have "planned (plan J s) (clocked J (tc_rto_ns (sim_transport s)) (tx_next_seq (sim_tx s ! 0))) (push_event e s)"
    by (rule planned_push[OF timetable_plan P(4) q event_planned_other[OF ty]]) (rule c)
  moreover have cr: "carried (push_event e s) = carried s" using ty evq.push_items[OF q] by (auto simp: carried_def views_add)
  moreover have "copies (push_event e s) = copies s" by (simp add: copies_def cr fun_eq_iff)
  moreover have fx: "fixed (push_event e s) = fixed s" by simp
  moreover have "side J (push_event e s) = side J s" by (rule side_cong[OF fx])
  moreover have "pst (push_event e s) = pst s" by (rule view_congs(1)[OF fx]) simp
  ultimately show ?thesis
    using P lone_cong(3)[OF fx] setupD(7)[OF fx] unfolding on_plan_def Let_def push_event_sim by simp
qed

lemma schedule_on_plan:
  assumes L: "sim_tx s \<noteq> []" and q: "eq_inv (sim_queue s)" and op: "on_plan J E s"
    and later: "sim_now s < tx_next_send_ns (sim_tx s ! 0)" and tx: "tx = sim_tx s ! 0"
  shows "on_plan J E (push_event (ev_inject (tx_next_send_ns tx) f) (s\<lparr>sim_tx := (sim_tx s)[0 := tx\<lparr>tx_send_scheduled := True\<rparr>]\<rparr>))"
proof -
  have al: "tx_alike (tx\<lparr>tx_send_scheduled := True\<rparr>) (sim_tx s ! 0)" by (simp add: tx_alike_def tx)
  have "tx_next_seq tx \<noteq> 0" using on_planD(8)[OF op] later by (auto simp: tx)
  then have "unat (tx_next_send_ns tx) = release J (unat (tx_next_seq tx))" using on_planD(9)[OF op] by (simp add: tx)
  then show ?thesis
    by (intro push_on_plan[OF _ put_tx_on_plan(4)[OF L op refl al]]) (use L q in \<open>simp_all add: clocked_def\<close>)
qed

section \<open>The next packet\<close>

lemma next_due:
  assumes op: "on_plan J E s" and n: "n = tx_next_seq (sim_tx s ! 0)" "n < tots s ! 0"
    and gate: "tx_next_send_ns (sim_tx s ! 0) \<le> sim_now s" and start: "jn_start J \<le> unat (sim_now s)"
  shows "unat (sim_now s) = release J (unat n)"
proof -
  have "unat (sim_now s) \<le> release J (unat n)" using on_planD(10)[OF op] n by simp
  moreover have "release J (unat n) \<le> unat (sim_now s)"
    using on_planD(9)[OF op] n(1) gate start by (cases "n = 0") (simp_all add: release_def word_le_nat_alt)
  ultimately show ?thesis by simp
qed

lemma send_on_plan:
  assumes w: "workable J D s" and op: "on_plan J {} s" and f: "id_index f = 0"
    and n: "n = tx_next_seq (sim_tx s ! 0)" "n < tots s ! 0"
    and gate: "tx_next_send_ns (sim_tx s ! 0) \<le> sim_now s" and start: "jn_start J \<le> unat (sim_now s)"
    and s1: "s1 = s\<lparr>sim_tx := (sim_tx s)[0 := (sim_tx s ! 0)\<lparr>tx_next_seq := n + 1\<rparr>]\<rparr>"
    and run: "send_packet f n s1 = Some s2"
  shows "on_plan J {} s2" "sim_now s2 < tx_next_send_ns (sim_tx s2 ! 0)" "fixed s2 = fixed s" "eq_inv (sim_queue s2)"
    "sim_tx s2 \<noteq> []"
proof -
  note W = workableD[OF w] and P = on_planD[OF op]
  let ?tx = "sim_tx s ! 0" and ?now = "unat (sim_now s)"
  define nic where "nic = id_index (frt_src_nic (sim_froutes s ! 0))"
  have due: "?now = release J (unat n)" by (rule next_due[OF op n gate start])
  have L: "0 < length (sim_tx s)" using W(12) by simp
  have inc: "unat (n + 1) = Suc (unat n)" using unat_inc[OF n(2)] .
  have fx1: "fixed s1 = fixed s" unfolding s1 by (rule setup_put_tx[OF L]) simp_all
  have ok1: "setup_ok s1" and n1: "nflows s1 = nflows s" using setup_ok_cong[OF fx1] W(1) fixed_nflows[OF fx1] by simp_all
  have net1: "net_inv s1" using W(3) by (simp add: net_inv_def s1)
  have per1: "periods s1 = periods s" using L by (simp add: periods_def s1 map_update_same)
  have p1: "pst s1 = pst s" by (rule view_congs(1)[OF fx1]) (simp add: s1)
  obtain t k a where t: "enqueue (frt_src_nic (sim_froutes s1 ! id_index f)) k t = Some s2" "sim_fabric t = sim_fabric s1"
    "sim_now t = sim_now s1" "sim_queue t = eq_push (ev_timeout (sim_now s1 + tc_rto_ns (sim_transport s1)) f n a) (sim_queue s1)"
    "pkt_kind k = Data" "pkt_flow k = f" "pkt_index k = n" "length (sim_results t) = length (sim_results s1)"
    "pkt_bytes k = payload (sim_specs s1 ! id_index f) n"
    using send_packet_enqueue[OF run] by blast
  define e where "e = ev_timeout (sim_now s + tc_rto_ns (sim_transport s)) f n a"
  have t': "enqueue (frt_src_nic (sim_froutes s ! 0)) k t = Some s2" "sim_fabric t = sim_fabric s" "sim_now t = sim_now s"
    "sim_queue t = eq_push e (sim_queue s)" using t(1-4) f by (simp_all add: s1 e_def)
  have q: "eq_inv (sim_queue s)" using W(3) by (simp add: net_inv_def)
  have Et: "events t = add_mset (eq_stamp (sim_queue s) e) (events s)" using evq.push_items[OF q] by (simp add: t'(4))
  have net_t: "net_inv t" using W(3) q unfolding net_inv_def Et by (simp add: t'(2,4) views_add evq.push_invar e_def)
  have S: "sent_state s1 0 n s2"
    using send_packet_spec[OF ok1 net1 f _ , of n] W(13) n1 n(2) setupD(7)[OF fx1] run by auto
  note S = S[unfolded sent_state_def]
  have cf: "common_frame s1 s2" and rc: "map res_core (sim_results s2) = map res_core (sim_results s1)" using S by blast+
  have fx2: "fixed s2 = fixed s" and per2: "periods s2 = periods s" and now2: "sim_now s2 = sim_now s"
    using cf fx1 per1 by (simp_all add: common_frame_def s1)
  have nic_pc: "nic < port_count (sim_fabric s)" using nic_in_range(1)[OF W(1,13)] by (simp add: nic_def)
  have fl: "id_index (pkt_flow k) < length (sim_results t)"
    using f t(6,8) setup_okD(7)[OF ok1] n1 W(13) by simp
  obtain u where "enqueue (frt_src_nic (sim_froutes s ! 0)) k t = Some u" "net_frame t u"
    using enqueue_effect[OF net_t _ fl, of "frt_src_nic (sim_froutes s ! 0)"] nic_pc t'(2) unfolding nic_def by metis
  then have fr: "net_frame t s2" using t'(1) by simp
  note F = net_frameD[OF fr]
  have fxt: "fixed t = fixed s" using setup_frame[OF fr] fx2 by simp
  have okt: "setup_ok t" using setup_ok_cong[OF fxt] W(1) by simp
  have tx2: "sim_tx s2 ! 0 = ?tx\<lparr>tx_next_seq := n + 1, tx_in_flight := tx_in_flight ?tx + 1, tx_next_send_ns := sim_now s + tx_period_ns ?tx\<rparr>"
    using S L by (simp add: s1)
  have tx_t: "sim_tx t ! 0 = sim_tx s2 ! 0" using F(6) by simp
  have pst2: "pst s2 0 = (pst s 0)(n := pst s 0 n OR kInFlight)" using S W(13) n1 p1 by simp
  have pstt: "pst t = pst s2" using views_cong(1)[OF setup_frame[OF fr]] F by (simp add: same_arrays_def)
  have LR: "0 < length (sim_results s)" using setup_okD(7)[OF W(1)] W(13) by simp
  have rct: "map res_core (sim_results t) = map res_core (sim_results s)" using F(7) rc by (simp add: s1)
  note core = core_fields[OF core_eq[OF rct LR]]
  have add: "unat (sim_now s + tx_period_ns ?tx) = ?now + jn_period J"
    using sum_no_wrap[OF W(8,10)] P(3) by simp
  have rto: "unat (sim_now s + tc_rto_ns (sim_transport s)) = ?now + unat (tc_rto_ns (sim_transport s))"
    using sum_no_wrap[OF W(8,9)] .
  have crt: "carried t = carried s" by (simp add: carried_def t'(2) Et views_add e_def)
  have Wt: "workable J D t"
    unfolding workable_def
  proof (intro conjI ballI allI impI)
    show "lone J t" using lone_cong(1)[OF fxt] W(2) by simp
    show "packet_ok t y" if "y \<in># carried t" for y
    proof (rule packet_ok_mono[OF W(4) fxt])
      show "y \<in># carried s" using that crt by simp
      show "tx_next_seq (sim_tx s ! i) \<le> tx_next_seq (sim_tx t ! i)" if "i < nflows s" for i
        using that loneD(1)[OF W(2)] tx_t tx2 inc n(1) by (simp add: word_le_nat_alt)
      show "bit (pst t i idx) 0" if "i < nflows s" "bit (pst s i idx) 0" for i idx
        using that loneD(1)[OF W(2)] by (cases "idx = n") (simp_all add: pstt pst2)
    qed
    show "tx_next_seq (sim_tx t ! 0) \<le> tots t ! 0" using tx_t tx2 inc n(2) setupD(7)[OF fxt] by (simp add: word_le_nat_alt word_less_nat_alt)
    show "sim_now t \<le> ev_time y" if "y \<in># events t" for y
      using that W(6) rto by (auto simp: Et t'(3) e_def word_le_nat_alt)
    have "periods t = periods s" using per2 F(6) by (simp add: periods_def)
    then show "run_delays t D" using run_delays_cong[OF fxt] W(11) by simp
    show "unat (sim_now t) + D < 2 ^ 64" using W(8) t'(3) by simp
    show "x < tx_next_seq (sim_tx t ! 0)" if "bit (pst t 0 x) 1" for x
      using that W(14)[of x] inc n(1) by (auto simp: pstt pst2 tx_t tx2 word_less_nat_alt split: if_splits)
  qed (use okt net_t in simp_all)
  have below: "x < n + 1 \<longleftrightarrow> x < n \<or> x = n" for x using inc by (auto simp: word_less_nat_alt word_unat_eq_iff)
  have nack: "\<not> bit (pst s 0 n) 1" using W(14)[of n] n(1) by auto
  have op_t: "on_plan J {n} t"
    unfolding on_plan_def Let_def
  proof (intro conjI allI impI ballI)
    have pl: "planned (plan J s) (clocked J (tc_rto_ns (sim_transport s)) (n + 1)) s"
      by (rule planned_weaken[OF P(4)])
         (use inc in \<open>auto simp: clocked_def n(1)[symmetric] below intro: le_trans[OF _ release_mono]\<close>)
    have "event_planned (plan J s) (clocked J (tc_rto_ns (sim_transport s)) (n + 1)) (sim_fabric s) e"
      by (rule event_planned_other) (use rto due below in \<open>simp_all add: e_def clocked_def\<close>)
    from planned_push[OF timetable_plan pl q this]
    have "planned (plan J s) (clocked J (tc_rto_ns (sim_transport s)) (n + 1)) t"
      using planned_cong[of t "push_event e s"] t'(2-4) by simp
    then show "planned (plan J t) (clocked J (tc_rto_ns (sim_transport t)) (tx_next_seq (sim_tx t ! 0))) t"
      using lone_cong(3)[OF fxt] setupD(3)[OF fxt] by (simp add: tx_t tx2)
    show "side J t y" if "y \<in># carried t" for y
      using that P(5)[of y] by (simp add: crt side_cong[OF fxt])
    show "copies t x + of_bool (x \<in> {n}) = of_bool (x < tx_next_seq (sim_tx t ! 0) \<and> \<not> bit (pst t 0 x) 1)" for x
      using P(6)[of x, folded n(1)] nack by (cases "x = n") (simp_all add: copies_def crt tx_t tx2 below pstt pst2)
    show "release J (unat x) \<le> unat (sim_now t)" if "x < tx_next_seq (sim_tx t ! 0)" for x
      using that P(7)[of x, folded n(1)] due by (auto simp: tx_t tx2 t'(3) below)
    show "tx_next_send_ns (sim_tx t ! 0) = 0" if "tx_next_seq (sim_tx t ! 0) = 0"
      using that inc by (simp add: tx_t tx2)
    show "unat (tx_next_send_ns (sim_tx t ! 0)) = release J (unat (tx_next_seq (sim_tx t ! 0)))"
      using add due inc by (simp add: tx_t tx2 release_def)
    show "unat (sim_now t) \<le> release J (unat (tx_next_seq (sim_tx t ! 0)))"
      using due inc by (simp add: tx_t tx2 t'(3) release_def)
  qed (use P(1-3,11) core setupD(7)[OF fxt] in \<open>simp_all add: tx_t tx2\<close>)
  note E = lone_ends[OF okt workableD(2)[OF Wt]]
  have fr_s: "sim_froutes t = sim_froutes s" "sim_specs t = sim_specs s" using setupD(4,5)[OF fxt] by simp_all
  have pk: "packet_ok t (AtPort nic, plain k)"
    using E(9) f t(5-7,9) n1 W(13) fr_s setupD(4)[OF fx1] below tx2 tx_t fixed_nflows[OF fxt]
    by (simp add: packet_ok_def Let_def dest_host_def nic_def plain_def)
  have sd: "side J t (AtPort nic, plain k)" using E(3,4,7) t(5) fr_s by (simp add: side_def nic_def)
  have at: "plan J t k (owner_index (frozen t) nic) = unat (sim_now t)"
    using E(3,7) t(5,7) fr_s due t'(3) by (simp add: plan_def nic_def)
  note Q = enqueue_on_plan[OF Wt op_t t(7) _ pk sd at t'(1)]
  show "on_plan J {} s2" by (rule Q) (simp add: nic_def)
  show "sim_now s2 < tx_next_send_ns (sim_tx s2 ! 0)"
    using add loneD(2)[OF W(2)] now2 by (simp add: tx2 word_less_nat_alt)
  show "fixed s2 = fixed s" "eq_inv (sim_queue s2)" "sim_tx s2 \<noteq> []"
    using fx2 S L by (simp_all add: net_inv_def s1)
qed

section \<open>The window loop\<close>

lemma loop_waits:
  assumes ok: "setup_ok s" and f: "id_index f = 0" "0 < nflows s" and q: "eq_inv (sim_queue s)" and op: "on_plan J {} s"
    and later: "sim_now s < tx_next_send_ns (sim_tx s ! 0)" and run: "try_send_loop f base rbase s = Some s'"
  shows "on_plan J {} s'"
proof -
  have L: "sim_tx s \<noteq> []" using setup_okD(4)[OF ok] f(2) by auto
  have get: "get_tx f s = Some (sim_tx s ! 0)" using get_tx_Some[OF ok] f by simp
  have put: "put_tx f tx s = Some (s\<lparr>sim_tx := (sim_tx s)[0 := tx]\<rparr>)" for tx using put_tx_Some[OF ok] f by simp
  have "s' = s \<or> s' = push_event (ev_inject (tx_next_send_ns (sim_tx s ! 0)) f)
      (s\<lparr>sim_tx := (sim_tx s)[0 := (sim_tx s ! 0)\<lparr>tx_send_scheduled := True\<rparr>]\<rparr>)"
    using run later unfolding try_send_loop.simps[of f base rbase s] get put by (auto split: if_splits)
  then show ?thesis using op schedule_on_plan[OF L q op later refl] by auto
qed

lemma try_send_on_plan:
  assumes w: "workable J D s" and op: "on_plan J {} s" and f: "id_index f = 0"
    and start: "jn_start J \<le> unat (sim_now s)" and run: "try_send f s = Some s'"
  shows "on_plan J {} s'"
proof -
  note W = workableD[OF w] and P = on_planD[OF op]
  define tx where "tx = sim_tx s ! 0"
  have L: "sim_tx s \<noteq> []" using W(12) .
  have get: "get_tx f s = Some tx" using get_tx_Some[OF W(1)] f W(13) by (simp add: tx_def)
  have put: "put_tx f a s = Some (s\<lparr>sim_tx := (sim_tx s)[0 := a]\<rparr>)" for a using put_tx_Some[OF W(1)] f W(13) by simp
  obtain base rbase where loop: "try_send_loop f base rbase s = Some s'"
    using run get P(1) by (auto simp: try_send_def bind_eq_Some_conv tx_def)
  have scan: "scan_retx (sim_retx_ring s) (sim_pkt_state s) base rbase tx = Some (None, tx)"
    using P(2) by (simp add: scan_retx.simps tx_def)
  show ?thesis
  proof (cases "sim_now s < tx_next_send_ns tx")
    case True
    then show ?thesis using loop_waits[OF W(1) f W(13,15) op _ loop] by (simp add: tx_def)
  next
    case gate: False
    have tot: "tx_packets_total tx = tots s ! 0" using setup_okD(18)[OF W(1,13)] by (simp add: tx_def)
    have same: "s\<lparr>sim_tx := (sim_tx s)[0 := tx]\<rparr> = s" by (simp add: tx_def)
    consider "s' = s" | s1 s2 where "tx_next_seq tx < tots s ! 0" "s1 = s\<lparr>sim_tx := (sim_tx s)[0 := tx\<lparr>tx_next_seq := tx_next_seq tx + 1\<rparr>]\<rparr>"
        "send_packet f (tx_next_seq tx) s1 = Some s2" "try_send_loop f base rbase s2 = Some s'"
      using loop gate unfolding try_send_loop.simps[of f base rbase s] get
      by (auto simp: scan put same tot bind_eq_Some_conv split: if_splits)
    then show ?thesis
    proof cases
      case 2
      note S = send_on_plan[OF w op f _ 2(1) _ start _ 2(3)]
      have g: "tx_next_send_ns (sim_tx s ! 0) \<le> sim_now s" using gate by (simp add: tx_def)
      have s2: "on_plan J {} s2" "sim_now s2 < tx_next_send_ns (sim_tx s2 ! 0)" "fixed s2 = fixed s" "eq_inv (sim_queue s2)"
        using S[OF _ g] 2(2) by (simp_all add: tx_def)
      show ?thesis
        using loop_waits[OF _ f _ s2(4,1,2) 2(4)] setup_ok_cong[OF s2(3)] W(1,13) fixed_nflows[OF s2(3)] by simp
    qed (use op in simp)
  qed
qed

end
