(* ===== verification/Lone_Turn.thy ===== *)
theory Lone_Turn
  imports Lone_Send
begin

text \<open>
  One turn of the hot loop on the timetable.  The next event comes before the next packet is
  due, because either an injection is pending or the window is full and the oldest packet in it
  is acked first; for the same reason a timer goes off only for packets that are acked.
\<close>

section \<open>The event that is handled\<close>

text \<open>A flow with nothing to wait for.\<close>

lemma lone_independent:
  assumes "setup_ok s" "lone J s"
  shows "\<not> id_valid (fs_depends_on (sim_specs s ! 0))" "\<not> waiting s 0" "freed s 0 = {}"
proof -
  have n: "nflows s = 1" using loneD(1)[OF assms(2)] .
  have "0 < nflows s" using n by simp
  from setup_okD(15)[OF assms(1) this] show d: "\<not> id_valid (fs_depends_on (sim_specs s ! 0))" by (auto simp: flow_shape_def)
  then show "\<not> waiting s 0" by (simp add: waiting_def)
  show "freed s 0 = {}" using d n by (auto simp: freed_def intro!: gr0I)
qed

lemma in_flight_oldest:
  assumes ok: "sender_ok M tx st at R T" and full: "tx_in_flight tx = tx_window tx" and w: "0 < tx_window tx"
  shows "\<exists>x. bit (st x) 2 \<and> x < tx_next_seq tx \<and> unat x + unat (tx_window tx) \<le> unat (tx_next_seq tx)"
proof -
  let ?W = "{x. bit (st x) 2}" and ?n = "unat (tx_next_seq tx)"
  have below: "x < tx_next_seq tx" if "bit (st x) 2" for x
    using sender_okD(6)[OF ok, of x] that by (cases "tx_next_seq tx \<le> x") auto
  have c: "card ?W = unat (tx_window tx)" using sender_okD(3)[OF ok] full by simp
  have ne: "?W \<noteq> {}"
  proof
    assume "?W = {}"
    then have "unat (tx_window tx) = 0" using c by (simp only: card.empty)
    then show False using w by (simp add: word_less_nat_alt)
  qed
  define x where "x = Min ?W"
  have x: "bit (st x) 2" and least: "\<And>y. bit (st y) 2 \<Longrightarrow> x \<le> y"
    using Min_in[of ?W] Min_le[of ?W] ne by (auto simp: x_def)
  have "card (unat ` ?W) \<le> card {unat x..<?n}"
    using below least by (intro card_mono) (auto simp: word_less_nat_alt word_le_nat_alt)
  moreover have "card (unat ` ?W) = card ?W" by (intro card_image inj_onI) (simp add: word_unat_eq_iff)
  ultimately have "unat (tx_window tx) \<le> ?n - unat x" using c by simp
  then show ?thesis using x below[OF x] by (intro exI[of _ x]) (simp add: word_less_nat_alt)
qed

lemma pending_in_time:
  assumes inv: "sim_inv s" and l: "lone J s" and op: "on_plan J {} s"
    and more: "tx_next_seq (sim_tx s ! 0) < tots s ! 0"
  shows "\<exists>e \<in># events s. unat (ev_time e) \<le> release J (unat (tx_next_seq (sim_tx s ! 0)))"
proof -
  note I = run_invD[OF inv]
  let ?tx = "sim_tx s ! 0" and ?n = "tx_next_seq (sim_tx s ! 0)"
  have n0: "0 < nflows s" using loneD(1)[OF l] by simp
  have sok: "sender_ok (max_tries s) ?tx (pst s 0) (att s 0) (retx s 0) (flow_timers s 0)"
    using flow_invD(1)[OF I(5)[OF n0]] by (simp add: sender_at_def)
  have win: "tx_window ?tx = wins s ! 0" "0 < tx_window ?tx" and tot: "tx_packets_total ?tx = tots s ! 0"
    using setup_okD(15,17,18)[OF I(1) n0] by (auto simp: flow_shape_def)
  have "sender_idle s 0" using I(6)[OF n0] lone_independent(2)[OF I(1) l] by simp
  then consider "flow_injects s 0 \<noteq> {#}" | "tx_in_flight ?tx = tx_window ?tx"
    using on_planD(1)[OF op] more tot by (auto simp: sender_idle_def)
  then show ?thesis
  proof cases
    case 1
    then obtain e where e: "e \<in># events s" "ev_type e = Inject"
      by (auto simp: flow_injects_def injects_def filter_mset_eq_conv dest!: multiset_nonemptyE)
    then show ?thesis using on_planD(4)[OF op] by (auto simp: planned_def event_planned_def clocked_def Let_def)
  next
    case 2
    obtain x where x: "bit (pst s 0 x) 2" "x < ?n" "unat x + unat (tx_window ?tx) \<le> unat ?n"
      using in_flight_oldest[OF sok 2 win(2)] by blast
    have "\<not> bit (pst s 0 x) 1" using sender_okD(9)[OF sok] x(1) by blast
    then have "copies s x = 1" using on_planD(6)[OF op, of x] x(2) by simp
    then obtain y where y: "y \<in># carried s" "pkt_index (snd y) = x"
      by (auto simp: copies_def filter_mset_eq_conv dest!: size_eq_Suc_imp_elem)
    have "?n \<le> tots s ! 0" using more by simp
    from carried_deadline[OF I(1) l I(4) I(9) this op y(1)]
    obtain e where e: "e \<in># events s" "unat (ev_time e) \<le> release J (unat x) + round_trip J" using y(2) by auto
    have "\<not> tots s ! 0 \<le> wins s ! 0" using x(3) more win(1) by (auto simp: word_le_nat_alt word_less_nat_alt)
    then have "round_trip J < unat (wins s ! 0) * jn_period J" using loneD(6)[OF l] by blast
    then have "unat (ev_time e) \<le> release J (unat x + unat (tx_window ?tx))" using e(2) win(1) by (simp add: release_add)
    also have "\<dots> \<le> release J (unat ?n)" by (rule release_mono[OF x(3)])
    finally show ?thesis using e(1) by blast
  qed
qed

text \<open>What the handler of event \<open>e\<close> starts from.\<close>

definition at_turn :: "journey \<Rightarrow> nat \<Rightarrow> event \<Rightarrow> sim \<Rightarrow> bool" where
  "at_turn J D e s \<longleftrightarrow> setup_ok s \<and> lone J s \<and> (\<forall>y \<in># carried s. packet_ok s y) \<and> tx_next_seq (sim_tx s ! 0) \<le> tots s ! 0
     \<and> on_plan J (if ev_type e = Arrive then {ev_packet_index e} else {}) s
     \<and> event_planned (plan J s) (clocked J (tc_rto_ns (sim_transport s)) (tx_next_seq (sim_tx s ! 0))) (sim_fabric s) e
     \<and> sim_now s = ev_time e \<and> (ev_type e \<noteq> TxComplete \<longrightarrow> workable J D s)
     \<and> (ev_type e = Arrive \<longrightarrow> packet_ok s (OnWire (id_index (ev_port e)), ev_packet e)
          \<and> side J s (OnWire (id_index (ev_port e)), ev_packet e))
     \<and> (ev_type e = Timeout \<longrightarrow> bit (pst s 0 (ev_packet_index e)) 1 \<and> ev_packet_index e < tx_next_seq (sim_tx s ! 0))
     \<and> (ev_type e = Inject \<longrightarrow> jn_start J \<le> unat (sim_now s))
     \<and> (ev_type e \<noteq> TxComplete \<longrightarrow> id_index (ev_flow e) = 0)"

lemma turn_on_plan:
  assumes inv: "sim_inv s0" and l: "lone J s0" and op: "on_plan J {} s0" and tn: "turn e s0 s"
    and D: "run_delays s D" "unat (sim_now s) + D < 2 ^ 64"
  shows "at_turn J D e s"
proof -
  note I = run_invD[OF inv]
  have pop: "popped e s0 s" and min: "\<And>y. y \<in># events s \<Longrightarrow> ev_time e \<le> ev_time y" using tn by (auto simp: turn_def)
  note P = poppedD[OF pop] and V = popped_events[OF pop] and O = on_planD[OF op]
  have soon: "ev_time e \<le> ev_time y" if "y \<in># events s0" for y using that min by (auto simp: P(13))
  have n0: "0 < nflows s0" using loneD(1)[OF l] by simp
  have ok: "setup_ok s" using popped_setup[OF inv pop] by simp
  have l': "lone J s" using lone_cong(1)[OF P(1)] l by simp
  have sok: "sender_ok (max_tries s0) (sim_tx s0 ! 0) (pst s0 0) (att s0 0) (retx s0 0) (flow_timers s0 0)"
    using flow_invD(1)[OF I(5)[OF n0]] by (simp add: sender_at_def)
  have seq0: "tx_next_seq (sim_tx s0 ! 0) \<le> tots s0 ! 0"
    using sender_okD(1)[OF sok] setup_okD(18)[OF I(1) n0] by simp
  have seq: "tx_next_seq (sim_tx s ! 0) \<le> tots s ! 0" using seq0 setupD(7)[OF P(1)] P(3) by simp
  have pk0: "packet_ok s y" if "y \<in># carried s0" for y
    by (rule packet_ok_mono[OF I(9)[OF that] P(1)]) (simp_all add: P(3,5))
  have sub: "carried s \<subseteq># carried s0" using V(5) by simp
  have pk: "packet_ok s y" if "y \<in># carried s" for y using pk0 mset_subset_eqD[OF sub that] .
  note PL = popped_planned[OF O(4) pop]
  let ?E = "if ev_type e = Arrive then {ev_packet_index e} else {}"
  have ontime: "unat (ev_time e) \<le> release J (unat (tx_next_seq (sim_tx s0 ! 0)))" if "tx_next_seq (sim_tx s0 ! 0) < tots s0 ! 0"
    using pending_in_time[OF inv l op that] soon by (force simp: word_le_nat_alt)
  have cp: "copies s x + of_bool (x \<in> ?E) = copies s0 x" for x
    using V(5) by (auto simp: copies_def ev_packet_def)
  have on: "on_plan J ?E s"
    unfolding on_plan_def Let_def cp P(3,4,5) setupD[OF P(1)] lone_cong(3)[OF P(1)] side_cong[OF P(1)]
  proof (intro conjI allI impI ballI)
    show "side J s0 y" if "y \<in># carried s" for y using O(5) mset_subset_eqD[OF sub that] .
    show "release J (unat x) \<le> unat (sim_now s)" if "x < tx_next_seq (sim_tx s0 ! 0)" for x
      using O(7)[OF that] P(15) by (simp add: word_le_nat_alt)
    show "unat (sim_now s) \<le> release J (unat (tx_next_seq (sim_tx s0 ! 0)))" if "tx_next_seq (sim_tx s0 ! 0) < tots s0 ! 0"
      using ontime[OF that] P(14) by simp
    show "copies s0 x = of_bool (x < tx_next_seq (sim_tx s0 ! 0) \<and> \<not> bit (pst s0 0 x) 1)" for x using O(6)[of x] by simp
  qed (use O PL(1) in blast)+
  have work: "workable J D s" if "ev_type e \<noteq> TxComplete"
    unfolding workable_def
  proof (intro conjI ballI allI impI)
    show "net_inv s" using popped_net[OF pop I(4) that] .
    show "x < tx_next_seq (sim_tx s ! 0)" if "bit (pst s 0 x) 1" for x
      using that sender_okD(6)[OF sok, of x] P(3,5) by (cases "tx_next_seq (sim_tx s0 ! 0) \<le> x") auto
  qed (use ok l' pk seq min P(14) D in auto)
  have wire: "packet_ok s (OnWire (id_index (ev_port e)), ev_packet e) \<and> side J s (OnWire (id_index (ev_port e)), ev_packet e)"
    if "ev_type e = Arrive"
  proof -
    have "(OnWire (id_index (ev_port e)), ev_packet e) \<in># carried s0" using V(5) that by simp
    then show ?thesis using pk0 O(5) side_cong[OF P(1)] by simp
  qed
  have timer: "bit (pst s 0 (ev_packet_index e)) 1 \<and> ev_packet_index e < tx_next_seq (sim_tx s ! 0)" if ty: "ev_type e = Timeout"
  proof -
    let ?x = "ev_packet_index e"
    have c: "unat (ev_time e) = release J (unat ?x) + unat (tc_rto_ns (sim_transport s0))" "?x < tx_next_seq (sim_tx s0 ! 0)"
      using PL(2) ty by (auto simp: event_planned_def clocked_def Let_def)
    moreover have "bit (pst s0 0 ?x) 1"
    proof (rule ccontr)
      assume "\<not> bit (pst s0 0 ?x) 1"
      then have "copies s0 ?x = 1" using O(6)[of ?x] c(2) by simp
      then obtain y where y: "y \<in># carried s0" "pkt_index (snd y) = ?x"
        by (auto simp: copies_def filter_mset_eq_conv dest!: size_eq_Suc_imp_elem)
      from carried_deadline[OF I(1) l I(4) I(9) seq0 op y(1)]
      obtain e' where "e' \<in># events s0" "unat (ev_time e') \<le> release J (unat ?x) + round_trip J" using y(2) by auto
      then show False using soon[of e'] c(1) loneD(5)[OF l] by (simp add: word_le_nat_alt)
    qed
    ultimately show ?thesis using P(3,5) by simp
  qed
  have flow: "id_index (ev_flow e) = 0" if "ev_type e \<noteq> TxComplete"
  proof -
    have "id_index (ev_flow e) < nflows s0"
    proof (cases "ev_type e")
      case Arrive
      then show ?thesis using packet_ok_flow wire fixed_nflows[OF P(1)] by (force simp: ev_packet_def)
    qed (use that I(7,8) V(2,3) in force)+
    then show ?thesis using loneD(1)[OF l] by simp
  qed
  have inject: "jn_start J \<le> unat (sim_now s)" if ty: "ev_type e = Inject"
  proof -
    have "ev_time e \<in># flow_injects s0 0" using popped_flow_views(2)[OF pop, of 0] ty flow by simp
    then have "res_start_ns (sim_results s0 ! 0) \<le> ev_time e"
      using flow_invD(3)[OF I(5)[OF n0]] by (simp add: clock_ok_def Let_def)
    moreover have "res_start_ns (sim_results s0 ! 0) = fs_start_ns (sim_specs s0 ! 0)"
      using flow_invD(3)[OF I(5)[OF n0]] lone_independent(1)[OF I(1) l] by (simp add: clock_ok_def Let_def)
    ultimately show ?thesis using loneD(7)[OF l] P(14) by (simp add: word_le_nat_alt)
  qed
  have "event_planned (plan J s) (clocked J (tc_rto_ns (sim_transport s)) (tx_next_seq (sim_tx s ! 0))) (sim_fabric s) e"
    using PL(2) lone_cong(3)[OF P(1)] setupD(3)[OF P(1)] P(3) by simp
  then show ?thesis unfolding at_turn_def using ok l' pk seq on P(14) work wire timer inject flow by blast
qed

end
