(* ===== verification/Lone_Run.thy ===== *)
theory Lone_Run
  imports Lone_Turn
begin

text \<open>
  Every handler keeps a run with a single flow on its timetable, so the flow is delivered
  completely, without failure, and exactly when the closed form says.
\<close>

section \<open>Network events\<close>

lemma inject_on_plan:
  assumes t: "at_turn J D e s" and ty: "ev_type e = Inject" and run: "on_inject e s = Some s'"
  shows "on_plan J {} s'"
proof -
  have w: "workable J D s" and op: "on_plan J {} s" and f: "id_index (ev_flow e) = 0" and st: "jn_start J \<le> unat (sim_now s)"
    using t ty by (auto simp: at_turn_def)
  note W = workableD[OF w]
  let ?tx = "(sim_tx s ! 0)\<lparr>tx_send_scheduled := False\<rparr>" and ?s = "s\<lparr>sim_tx := (sim_tx s)[0 := (sim_tx s ! 0)\<lparr>tx_send_scheduled := False\<rparr>]\<rparr>"
  have "try_send (ev_flow e) ?s = Some s'"
    using run get_tx_Some[OF W(1), of "ev_flow e"] put_tx_Some[OF W(1), of "ev_flow e"] f W(13) by (simp add: on_inject_def Let_def)
  moreover have "tx_alike ?tx (sim_tx s ! 0)" by (simp add: tx_alike_def)
  note A = put_tx_on_plan(4,5)[OF W(12) op refl this]
  ultimately show ?thesis using try_send_on_plan[OF A(2)[OF w] A(1) f] st by simp
qed

lemma timeout_on_plan:
  assumes t: "at_turn J D e s" and ty: "ev_type e = Timeout" and run: "on_timeout e s = Some s'"
  shows "on_plan J {} s'"
proof -
  have w: "workable J D s" and op: "on_plan J {} s" and f: "id_index (ev_flow e) = 0"
    and x: "bit (pst s 0 (ev_packet_index e)) 1" "ev_packet_index e < tx_next_seq (sim_tx s ! 0)"
    using t ty by (auto simp: at_turn_def)
  note W = workableD[OF w]
  have ix: "ev_packet_index e < tots s ! 0" using x(2) W(5) by simp
  have "s' = s"
    using run pkt_slot_Some[OF W(1), of "ev_flow e"] read_pkt(1)[OF W(1,13) ix] f W(13) ix x(1)
    by (simp add: on_timeout_def Let_def)
  then show ?thesis using op by simp
qed

lemma tx_complete_on_plan:
  assumes inv: "sim_inv s0" and pop: "popped e s0 s" and ty: "ev_type e = TxComplete"
    and t: "at_turn J D e s" and D: "run_delays s D" "unat (sim_now s) + D < 2 ^ 64"
    and run: "on_tx_complete e s = Some s'"
  shows "on_plan J {} s'"
proof -
  note I = run_invD[OF inv] and P = poppedD[OF pop] and V = popped_events[OF pop]
  define p where "p = id_index (ev_port e)"
  define k where "k = port_in_flight (fab_ports (sim_fabric s) ! p)"
  have ok: "setup_ok s" and l: "lone J s" and op: "on_plan J {} s" and seq: "tx_next_seq (sim_tx s ! 0) \<le> tots s ! 0"
    and pk: "\<And>y. y \<in># carried s \<Longrightarrow> packet_ok s y" and now: "sim_now s = ev_time e"
    and ep: "event_planned (plan J s) (clocked J (tc_rto_ns (sim_transport s)) (tx_next_seq (sim_tx s ! 0))) (sim_fabric s) e"
    using t ty by (auto simp: at_turn_def)
  have net0: "ports_ok (sim_fabric s) (add_mset p (tx_pending (events s)))" "rates_ok (sim_fabric s)"
    using I(4) V(4) ty P(9) by (simp_all add: net_inv_def p_def)
  then have pc: "p < port_count (sim_fabric s)" by (auto simp: ports_ok_def)
  have busy: "port_busy (fab_ports (sim_fabric s) ! p)"
    using ports_okD(3)[OF net0(1) pc] by (cases "port_busy (fab_ports (sim_fabric s) ! p)") simp_all
  have ck: "(AtPort p, plain k) \<in># carried s" using in_flight_carried[OF pc busy] by (simp add: k_def)
  obtain u j where u: "on_tx_complete e s = Some u" "net_frame s u"
    "add_mset (AtPort p, j) (carried u) = add_mset (OnWire p, j) (carried s)" "(AtPort p, j) \<in># carried s"
    using on_tx_complete_effect[OF P(16) net0(2) pc[unfolded p_def] net0(1)[unfolded p_def]] unfolding p_def by metis
  then have fr: "net_frame s s'" and cs: "add_mset (AtPort p, j) (carried s') = add_mset (OnWire p, j) (carried s)"
    using run by simp_all
  note C = lone_clock_out[OF ok l pk[OF ck] _ seq, of p, simplified clock_out_plain]
  note H = side_hop[OF ok l pk[OF ck] on_planD(5)[OF op ck], of p, simplified plan_plain]
  have dl: "delays_ok (sim_fabric s) D" using D(1) delays_frozen[of s] by (simp add: run_delays_def)
  have hop: "plan J s k (peer_index (sim_fabric s) p) = plan J s k (owner_index (sim_fabric s) p) + clock_out (sim_fabric s) p k
      + unat (port_prop_delay_ns (fab_ports (sim_fabric s) ! p))"
    using H(5) C by (simp add: data_hop_def ack_hop_def)
  note pl = on_tx_complete_planned[OF P(16) net0(2) p_def pc net0(1) ty now timetable_plan on_planD(4)[OF op] ep dl D(2)
      k_def hop run]
  show ?thesis
  proof (rule on_plan_frame[OF op fr ok _ pl])
    show "0 < nflows s" using loneD(1)[OF l] by simp
    show "\<forall>y \<in># carried s'. side J s y"
    proof
      fix y assume "y \<in># carried s'"
      then have "y \<in># add_mset (AtPort p, j) (carried s')" by simp
      then have "y = (OnWire p, j) \<or> y \<in># carried s" unfolding cs by simp
      moreover have "side J s (OnWire p, j)" using on_planD(5)[OF op u(4)] by (simp add: side_def)
      ultimately show "side J s y" using on_planD(5)[OF op] by blast
    qed
    show "copies s' x + of_bool (x \<in> {}) = copies s x + of_bool (x \<in> {})" for x
      using arg_cong[OF cs, of "\<lambda>M. size (filter_mset (\<lambda>y. pkt_index (snd y) = x) M)"] by (auto simp: copies_def split: if_splits)
  qed
qed

text \<open>A packet that arrives does so as planned.\<close>

lemma arrives_on_plan:
  assumes t: "at_turn J D e s" and ty: "ev_type e = Arrive"
  shows "workable J D s" "on_plan J {ev_packet_index e} s" "plan J s (ev_packet e) (peer_index (frozen s) (id_index (ev_port e))) = unat (sim_now s)"
    "packet_ok s (OnWire (id_index (ev_port e)), ev_packet e)" "side J s (OnWire (id_index (ev_port e)), ev_packet e)"
    "id_index (ev_flow e) = 0"
proof -
  show w: "workable J D s" and "on_plan J {ev_packet_index e} s" "id_index (ev_flow e) = 0"
    and pk: "packet_ok s (OnWire (id_index (ev_port e)), ev_packet e)" and "side J s (OnWire (id_index (ev_port e)), ev_packet e)"
    using t ty by (auto simp: at_turn_def)
  note W = workableD[OF w]
  have "peer_index (sim_fabric s) (id_index (ev_port e)) = peer_index (frozen s) (id_index (ev_port e))"
    using lone_clock_out(6)[OF W(1,2) pk _ W(5)] by simp
  then show "plan J s (ev_packet e) (peer_index (frozen s) (id_index (ev_port e))) = unat (sim_now s)"
    using t ty by (auto simp: at_turn_def event_planned_def Let_def)
qed

lemma forwarded_on_plan:
  assumes t: "at_turn J D e s" and ty: "ev_type e = Arrive" and fw: "forwarded e s s'"
  shows "on_plan J {} s'"
proof -
  note A = arrives_on_plan[OF t ty] and W = workableD[OF arrives_on_plan(1)[OF t ty]]
  obtain out where out: "enqueue out (ev_packet e) s = Some s'" "packet_ok s (AtPort (id_index out), ev_packet e)"
    "owner_index (frozen s) (id_index out) = peer_index (frozen s) (id_index (ev_port e))"
    using fw by (auto simp: forwarded_def)
  have pl: "plain (ev_packet e) = ev_packet e" by (simp add: plain_def ev_packet_def)
  have "side J s (AtPort (id_index out), ev_packet e)"
    using side_hop(4)[OF W(1,2) A(4,5), of "id_index (ev_port e)"] unfolding side_def fst_conv snd_conv hop_port_simps out(3) Let_def by simp
  then show ?thesis
    by (intro enqueue_on_plan(1)[OF A(1,2) _ refl _ _ _ out(1)]) (use pl out(2,3) A(3) in \<open>simp_all add: ev_packet_def\<close>)
qed

section \<open>Delivery and acks\<close>

lemma inv_workable:
  assumes inv: "sim_inv s" and "lone J s" "\<forall>e \<in># events s. sim_now s \<le> ev_time e" "run_delays s D" "unat (sim_now s) + D < 2 ^ 64"
  shows "workable J D s"
proof -
  note I = run_invD[OF inv]
  have n: "0 < nflows s" using loneD(1)[OF assms(2)] by simp
  have sok: "sender_ok (max_tries s) (sim_tx s ! 0) (pst s 0) (att s 0) (retx s 0) (flow_timers s 0)"
    using flow_invD(1)[OF I(5)[OF n]] by (simp add: sender_at_def)
  have "x < tx_next_seq (sim_tx s ! 0)" if "bit (pst s 0 x) 1" for x
    using that sender_okD(6)[OF sok, of x] by (cases "tx_next_seq (sim_tx s ! 0) \<le> x") auto
  then show ?thesis
    using assms I sender_okD(1)[OF sok] setup_okD(18)[OF I(1) n] by (auto simp: workable_def)
qed

lemma delivered_on_plan:
  assumes w: "workable J D s" and op: "on_plan J E s" and inv: "sim_inv s'" and d: "delivered_to 0 x b s s'"
    and x: "x < tots s ! 0" "\<not> bit (pst s 0 x) 0" and miss: "\<not> res_complete (sim_results s ! 0)"
    and now: "unat (sim_now s) = release J (unat x) + jn_hops J * data_hop J"
  shows "workable J D s'" "on_plan J E s'" "fixed s' = fixed s" "sim_now s' = sim_now s"
proof -
  note W = workableD[OF w] and IN = run_invD[OF inv]
  define r2 where "r2 = first_delivery s (sim_results s ! 0) b"
  have R: "{} = (if res_complete r2 then freed s 0 else {})" using lone_independent(3)[OF W(1,2)] by simp
  note V = delivered_views[OF d W(1,13) x(1) r2_def R]
  show fx: "fixed s' = fixed s" and nw: "sim_now s' = sim_now s" using V(1,3) by blast+
  have same: "\<exists>y \<in># events s. ev_time y = ev_time e \<and> (ev_type e = Inject \<longrightarrow> ev_type y = Inject)
      \<and> (ev_type e \<noteq> Inject \<longrightarrow> y = e)" if e: "e \<in># events s'" for e
  proof (cases "ev_type e = Inject")
    case True
    then have "(id_index (ev_flow e), ev_time e) \<in># injects (events s')" using e by (auto simp: injects_def)
    then have "(id_index (ev_flow e), ev_time e) \<in># injects (events s)" using V(12) by simp
    then show ?thesis using True by (auto simp: injects_def)
  qed (use V(21) e in auto)
  have "sim_now s' \<le> ev_time e" if "e \<in># events s'" for e using same[OF that] W(6) nw by auto
  then show "workable J D s'"
    using lone_cong(1)[OF fx] run_delays_cong[OF fx V(2)] W nw by (intro inv_workable[OF inv]) auto
  have tx: "sim_tx s' ! 0 = sim_tx s ! 0" using V(18)[OF W(13)] by simp
  show "on_plan J E s'"
  proof (rule on_plan_cong[OF fx _ V(9) nw _ _ _ op])
    have "event_planned (plan J s) (clocked J (tc_rto_ns (sim_transport s)) (tx_next_seq (sim_tx s ! 0))) (sim_fabric s) e"
      if e: "e \<in># events s'" for e
    proof -
      obtain y where y: "y \<in># events s" "ev_time y = ev_time e" "ev_type e = Inject \<longrightarrow> ev_type y = Inject" "ev_type e \<noteq> Inject \<longrightarrow> y = e"
        using same[OF e] by blast
      have "event_planned (plan J s) (clocked J (tc_rto_ns (sim_transport s)) (tx_next_seq (sim_tx s ! 0))) (sim_fabric s) y"
        using on_planD(4)[OF op] y(1) by (simp add: planned_def)
      then show ?thesis using y(2-4) by (cases "ev_type e = Inject") (auto simp: event_planned_def clocked_def Let_def)
    qed
    then show "planned (plan J s) (clocked J (tc_rto_ns (sim_transport s)) (tx_next_seq (sim_tx s ! 0))) s'"
      using on_planD(4)[OF op] by (simp add: planned_def V(5) nw)
    show "tx_alike (sim_tx s' ! 0) (sim_tx s ! 0)" by (simp add: tx tx_alike_def)
    show "of_bool (y \<in> E) + of_bool (y < tx_next_seq (sim_tx s ! 0) \<and> \<not> bit (pst s 0 y) 1)
      = (of_bool (y \<in> E) + of_bool (y < tx_next_seq (sim_tx s ! 0) \<and> \<not> bit (pst s' 0 y) 1) :: nat)" for y
      using V(15)[OF W(13)] by (cases "y = x") simp_all
    have "unat x \<le> unat (tots s ! 0) - 1" using x(1) by (simp add: word_less_nat_alt)
    then have "unat (sim_now s) \<le> release J (unat (tots s ! 0) - 1) + jn_hops J * data_hop J"
      unfolding now by (simp add: release_mono)
    moreover assume "res_complete (sim_results s' ! 0)"
    then have "res_finish_ns (sim_results s' ! 0) = sim_now s"
      using V(19)[OF W(13)] first_delivery_complete(1)[OF miss] by (simp add: r2_def)
    ultimately show "unat (res_finish_ns (sim_results s' ! 0)) \<le> release J (unat (tots s ! 0) - 1) + jn_hops J * data_hop J" by simp
  qed
qed

lemma pst_stats: "pst (s\<lparr>sim_stats := st\<rparr>) = pst s"
  by (rule view_congs(1)) simp_all

lemma stats_on_plan: "on_plan J E s \<Longrightarrow> on_plan J E (s\<lparr>sim_stats := st\<rparr>)"
  by (rule on_plan_same_net) (simp_all add: tx_alike_def pst_stats)

lemma stats_workable: "workable J D s \<Longrightarrow> workable J D (s\<lparr>sim_stats := st\<rparr>)"
  by (rule workable_cong) (auto simp: periods_def pst_stats)

lemma received_on_plan:
  assumes t: "at_turn J D e s" and ty: "ev_type e = Arrive" and home: "at_home e s" and rc: "received e s s'"
  shows "on_plan J {} s'"
proof -
  note A = arrives_on_plan[OF t ty] and W = workableD[OF arrives_on_plan(1)[OF t ty]]
  let ?x = "ev_packet_index e" and ?nic = "id_index (frt_dst_nic (sim_froutes s ! 0))"
  obtain st sB k st2 where r: "sim_inv (s\<lparr>sim_stats := st\<rparr>)" "sim_inv sB" "?x < tots s ! 0" "?x < tx_next_seq (sim_tx s ! 0)"
    "sB = s\<lparr>sim_stats := st\<rparr> \<or> \<not> bit (pst s 0 ?x) 0 \<and> delivered_to 0 ?x (ev_bytes e) (s\<lparr>sim_stats := st\<rparr>) sB" "bit (pst sB 0 ?x) 0"
    "pkt_kind k = Ack" "pkt_flow k = ev_flow e" "pkt_index k = ?x" "pkt_bytes k = ucast (tc_ack_bytes (sim_transport s))"
    "enqueue (frt_dst_nic (sim_froutes s ! 0)) k (sB\<lparr>sim_stats := st2\<rparr>) = Some s'"
    using rc by (auto simp: received_def Let_def A(6))
  define sA where "sA = s\<lparr>sim_stats := st\<rparr>"
  have wA: "workable J D sA" and oA: "on_plan J {?x} sA" unfolding sA_def using stats_workable[OF A(1)] stats_on_plan[OF A(2)] by blast+
  have fA: "fixed sA = fixed s" and nA: "sim_now sA = sim_now s" by (simp_all add: sA_def)
  have pA: "pst sA = pst s" by (simp add: sA_def pst_stats)
  have at: "unat (sim_now s) = release J (unat ?x) + jn_hops J * data_hop J"
    using A(3) home home_hops[OF W(1) home A(6)] by (simp add: plan_def at_home_def ev_packet_def)
  have B: "workable J D sB \<and> on_plan J {?x} sB \<and> fixed sB = fixed s \<and> sim_now sB = sim_now s"
  proof (cases "sB = sA")
    case True
    then show ?thesis using wA oA fA nA by simp
  next
    case False
    then have d: "\<not> bit (pst sA 0 ?x) 0" "delivered_to 0 ?x (ev_bytes e) sA sB" using r(5) pA by (auto simp: sA_def)
    note WA = workableD[OF wA]
    have x: "?x < tots sA ! 0" using r(3) setupD(7)[OF fA] by simp
    have miss: "\<not> res_complete (sim_results sA ! 0)"
      using receiver_missing(1)[OF run_invD(5)[OF r(1)] _ _ x[unfolded sA_def]] WA(1,13) d(1) by (simp add: sA_def)
    from delivered_on_plan[OF wA oA r(2) d(2) x d(1) miss] show ?thesis using at nA fA by simp
  qed
  define u where "u = sB\<lparr>sim_stats := st2\<rparr>"
  have wu: "workable J D u" and ou: "on_plan J {?x} u"
    unfolding u_def using stats_workable[of J D sB] stats_on_plan[of J _ sB] B by blast+
  note WU = workableD[OF wu]
  have fu: "fixed u = fixed s" and nu: "sim_now u = sim_now s" using B by (simp_all add: u_def)
  have pu: "pst u = pst sB" by (simp add: u_def pst_stats)
  note E = lone_ends[OF WU(1,2)] and S = setupD[OF fu]
  have "Suc (copies u ?x) = of_bool (?x < tx_next_seq (sim_tx u ! 0) \<and> \<not> bit (pst u 0 ?x) 1)"
    using on_planD(6)[OF ou, of ?x] by simp
  from Suc_of_boolD[OF this] have seq: "?x < tx_next_seq (sim_tx u ! 0)" by blast
  have pk: "packet_ok u (AtPort ?nic, plain k)"
    using E(10) r(6-10) seq WU(13) A(6) S(3,5) pu
    by (simp add: packet_ok_def Let_def dest_host_def plain_def)
  have sd: "side J u (AtPort ?nic, plain k)" using E(5,8) r(7) S(4,5) by (simp add: side_def)
  have due: "plan J u k (owner_index (frozen u) ?nic) = unat (sim_now u)"
    using E(5,8) r(7,9) S(4,5) at nu by (simp add: plan_def)
  show ?thesis
    by (rule enqueue_on_plan(1)[OF wu ou r(9) refl pk sd due]) (use r(11) in \<open>simp add: u_def\<close>)
qed

lemma ack_on_plan:
  assumes t: "at_turn J D e s" and ty: "ev_type e = Arrive"
    and run: "on_ack (ev_flow e) (ev_packet_index e) (s\<lparr>sim_stats := st\<rparr>) = Some s'"
  shows "on_plan J {} s'"
proof -
  note A = arrives_on_plan[OF t ty]
  define x where "x = ev_packet_index e"
  define f where "f = ev_flow e"
  define u where "u = s\<lparr>sim_stats := st\<rparr>"
  have w: "workable J D u" and op: "on_plan J {x} u"
    unfolding u_def x_def using stats_workable[OF A(1)] stats_on_plan[OF A(2)] by blast+
  note W = workableD[OF w]
  have f0: "id_index f = 0" using A(6) by (simp add: f_def)
  have "Suc (copies u x) = of_bool (x < tx_next_seq (sim_tx u ! 0) \<and> \<not> bit (pst u 0 x) 1)" using on_planD(6)[OF op, of x] by simp
  from Suc_of_boolD[OF this] have x: "x < tx_next_seq (sim_tx u ! 0)" "\<not> bit (pst u 0 x) 1" by blast+
  have ix: "x < tots u ! 0" using x(1) W(5) by simp
  have run': "on_ack f x u = Some s'" using run by (simp add: f_def x_def u_def)
  have step: "\<exists>v tx. try_send f (u\<lparr>sim_pkt_state := (sim_pkt_state u)[pkt_pos u 0 x := v], sim_tx := (sim_tx u)[0 := tx]\<rparr>) = Some s'
      \<and> bit v 1 \<and> bit v 0 = bit (pst u 0 x) 0 \<and> tx_alike tx (sim_tx u ! 0)"
  proof -
    define st' where "st' = pst u 0 x OR kAcked"
    have pos: "pkt_pos u 0 x < length (sim_pkt_state u)" using pkt_pos_less[OF W(1,13) ix] setup_okD(10)[OF W(1)] by simp
    have get: "get_tx f (u\<lparr>sim_pkt_state := ps\<rparr>) = Some (sim_tx u ! 0)" for ps
      using get_tx_Some[OF W(1), of f] f0 W(13) by (simp add: get_tx_def)
    have put: "put_tx f tx (u\<lparr>sim_pkt_state := ps\<rparr>) = Some (u\<lparr>sim_pkt_state := ps, sim_tx := (sim_tx u)[0 := tx]\<rparr>)" for tx ps
      using put_tx_Some[OF W(1), of f] f0 W(13) by (auto simp: put_tx_def checked_iffs)
    have pps: "put_pkt_state (pkt_pos u 0 x) v (u\<lparr>sim_pkt_state := ps\<rparr>) = Some (u\<lparr>sim_pkt_state := ps[pkt_pos u 0 x := v]\<rparr>)"
      if "length ps = length (sim_pkt_state u)" for v ps using pos that by (simp add: put_pkt_state_def vset_def)
    have pps0: "put_pkt_state (pkt_pos u 0 x) v u = Some (u\<lparr>sim_pkt_state := (sim_pkt_state u)[pkt_pos u 0 x := v]\<rparr>)" for v
      using put_pkt_state_Some[OF W(1,13) ix] .
    note base = run'[unfolded on_ack_def] pkt_slot_Some[OF W(1), of f x] read_pkt(1)[OF W(1,13) ix]
    show ?thesis
    proof (cases "bit st' 2")
      case True
      then have "try_send f (u\<lparr>sim_pkt_state := (sim_pkt_state u)[pkt_pos u 0 x := st' AND NOT kInFlight],
          sim_tx := (sim_tx u)[0 := (sim_tx u ! 0)\<lparr>tx_acked_count := tx_acked_count (sim_tx u ! 0) + 1,
            tx_in_flight := tx_in_flight (sim_tx u ! 0) - 1\<rparr>]\<rparr>) = Some s'"
        using base f0 W(13) ix x(2) by (simp add: Let_def pps0 pps get put st'_def)
      then show ?thesis by (intro exI conjI) (assumption | simp add: st'_def tx_alike_def)+
    next
      case False
      then have "try_send f (u\<lparr>sim_pkt_state := (sim_pkt_state u)[pkt_pos u 0 x := st'],
          sim_tx := (sim_tx u)[0 := (sim_tx u ! 0)\<lparr>tx_acked_count := tx_acked_count (sim_tx u ! 0) + 1\<rparr>]\<rparr>) = Some s'"
        using base f0 W(13) ix x(2) by (simp add: Let_def pps0 get put st'_def)
      then show ?thesis by (intro exI conjI) (assumption | simp add: st'_def tx_alike_def)+
    qed
  qed
  then obtain v tx where v: "bit v 1" "bit v 0 = bit (pst u 0 x) 0" "tx_alike tx (sim_tx u ! 0)"
    "try_send f (u\<lparr>sim_pkt_state := (sim_pkt_state u)[pkt_pos u 0 x := v], sim_tx := (sim_tx u)[0 := tx]\<rparr>) = Some s'" by blast
  define q where "q = u\<lparr>sim_pkt_state := (sim_pkt_state u)[pkt_pos u 0 x := v]\<rparr>"
  have fq: "fixed q = fixed u" by (simp add: q_def)
  have pq: "pst q 0 = (pst u 0)(x := v)" using pst_update[OF W(1,13) ix W(13)] by (simp add: q_def)
  have oq: "on_plan J {} q"
    by (rule on_plan_same_net[OF op fq]) (use x v(1) pq in \<open>auto simp: q_def tx_alike_def\<close>)
  have wq: "workable J D q"
    by (rule workable_cong[OF w fq]) (use x v(1,2) pq in \<open>auto simp: q_def periods_def split: if_splits\<close>)
  have aq: "tx_alike tx (sim_tx q ! 0)" using v(3) by (simp add: q_def)
  note N = put_tx_on_plan(4,5)[OF workableD(12)[OF wq] oq refl aq]
  have "release J (unat x) \<le> unat (sim_now u)" using on_planD(7)[OF op x(1)] .
  then have "jn_start J \<le> unat (sim_now q)" by (simp add: release_def q_def)
  then show ?thesis using try_send_on_plan[OF N(2)[OF wq] N(1) f0, of s'] v(4) by (simp add: q_def)
qed

end
