(* ===== verification/Lone_Exact.thy ===== *)
theory Lone_Exact
  imports Lone_Run
begin

text \<open>
  The completion time of a lone flow: from the start of a run to its end the timetable holds,
  and with the lower bound of \<^verbatim>\<open>Sim_Light\<close> the flow takes exactly the time of the closed form.
\<close>

section \<open>Along the run\<close>

lemma handle_event_on_plan:
  assumes inv: "sim_inv s0" and l: "lone J s0" and op: "on_plan J {} s0" and tn: "turn e s0 s" and pol: "routing_policy select"
    and D: "run_delays s D" "unat (sim_now s) + D < 2 ^ 64" and run: "handle_event select e s = Some s'"
  shows "on_plan J {} s'"
proof -
  have pop: "popped e s0 s" and un: "\<And>kd. unaccounted kd s = (if ev_type e = Arrive then packet_bytes (ev_packet e) kd else 0)"
    using tn by (auto simp: turn_def)
  have t: "at_turn J D e s" by (rule turn_on_plan[OF inv l op tn D])
  show ?thesis
  proof (cases "ev_type e")
    case Inject
    then show ?thesis using inject_on_plan[OF t Inject] run by (simp add: handle_event_def)
  next
    case Timeout
    then show ?thesis using timeout_on_plan[OF t Timeout] run by (simp add: handle_event_def)
  next
    case TxComplete
    then show ?thesis using tx_complete_on_plan[OF inv pop TxComplete t D] run by (simp add: handle_event_def)
  next
    case Arrive
    have "arrival_op e s0 s (Some s')"
      using on_arrive_op[OF inv pop Arrive _ pol] un run Arrive by (simp add: handle_event_def)
    then consider "forwarded e s s'" | "at_home e s" "received e s s'"
      | st where "on_ack (ev_flow e) (ev_packet_index e) (s\<lparr>sim_stats := st\<rparr>) = Some s'"
      unfolding arrival_op_def by fastforce
    then show ?thesis
      using forwarded_on_plan[OF t Arrive] received_on_plan[OF t Arrive] ack_on_plan[OF t Arrive] by cases blast+
  qed
qed

lemma begin_on_plan:
  assumes rr: "run_ready s D H" and b: "begin_run s = Some t" and l: "lone J s"
    and p: "flow_period s 0 = Some p" "unat p = jn_period J"
  shows "on_plan J {} t" "lone J t"
proof -
  have ok: "setup_ok s" and tr: "transport_ok s" using rr by (simp_all add: run_ready_def)
  then have r: "reset_upto s (nflows s) t" using begin_run_reset[OF ok tr] b by auto
  note R = r[unfolded reset_upto_def] and V = reset_views[OF ok r] and B = begin_run_inv[OF rr b]
  have n0: "0 < nflows s" using loneD(1)[OF l] by simp
  show lt: "lone J t" using lone_cong(1)[OF B(2)] l by simp
  have tx: "sim_tx t ! 0 = blank_tx s 0 p" using V(9)[OF n0] p(1) by auto
  have idle: "\<not> port_busy (fab_ports (sim_fabric t) ! q)" "ring_list (port_queue (fab_ports (sim_fabric t) ! q)) = []"
    if "q < port_count (sim_fabric t)" for q
  proof -
    have f: "sim_fabric t = frozen s" using R by blast
    then have "fab_ports (sim_fabric t) ! q = reset_port (fab_ports (sim_fabric s) ! q)" using that by (simp add: port_count_def)
    then show nb: "\<not> port_busy (fab_ports (sim_fabric t) ! q)" by (simp add: reset_port_def)
    show "ring_list (port_queue (fab_ports (sim_fabric t) ! q)) = []"
      using ports_okD(2)[of "sim_fabric t" "tx_pending (events t)", OF _ that nb] V(12) by (simp add: net_inv_def)
  qed
  have inject: "ev_type e = Inject \<and> ev_time e = fs_start_ns (sim_specs s ! 0)" if e: "e \<in># events t" for e
  proof -
    have "arrivals (events t) = {#}" "timers (events t) = {#}" "tx_pending (events t) = {#}" using R by blast+
    then have none: "ev_type e \<noteq> Arrive" "ev_type e \<noteq> Timeout" "ev_type e \<noteq> TxComplete"
      using e by (auto simp: arrivals_def timers_def tx_pending_def filter_mset_eq_conv)
    then have ty: "ev_type e = Inject" by (cases "ev_type e") simp_all
    then have "(id_index (ev_flow e), ev_time e) \<in># injects (events t)" using e by (auto simp: injects_def)
    then have "(id_index (ev_flow e), ev_time e) \<in># starters s (nflows s)" using R by simp
    then have "ev_time e = fs_start_ns (sim_specs s ! 0)" 
      using loneD(1)[OF l] by (auto simp: starters_def split: if_splits)
    then show ?thesis using ty by simp
  qed
  have "planned (plan J t) (clocked J (tc_rto_ns (sim_transport t)) 0) t"
    unfolding planned_def
  proof (intro conjI ballI allI impI)
    show "port_planned (plan J t) (sim_fabric t) (unat (sim_now t)) q" if "q < port_count (sim_fabric t)" for q
      using idle[OF that] by (simp add: port_planned_def Let_def del: length_ring_list)
    show "event_planned (plan J t) (clocked J (tc_rto_ns (sim_transport t)) 0) (sim_fabric t) e" if "e \<in># events t" for e
      using inject[OF that] loneD(7)[OF l] by (intro event_planned_other) (simp_all add: clocked_def release_def)
  qed
  then show "on_plan J {} t"
    unfolding on_plan_def Let_def tx using V(6,10)[OF n0] V(3) R p(2) by (simp add: copies_def)
qed

lemma reach_on_plan:
  assumes re: "reaches select s u" and rr: "run_ready s D H" and pol: "routing_policy select" and l: "lone J s"
    and p: "flow_period s 0 = Some p" "unat p = jn_period J"
  shows "on_plan J {} u"
  using re
proof induction
  case (reach_begin t)
  then show ?case using begin_on_plan[OF rr _ l p] by blast
next
  case (reach_step u v)
  obtain m where inv: "sim_inv u" and fx: "fixed u = fixed s" and D: "run_delays u D" and m: "run_timed u (H + m * D)"
    "m + potential u \<le> run_budget s"
    using reach_inv[OF reach_step.hyps(1) rr pol] by blast
  obtain e u1 where e: "run_step select u = handle_event select e u1" "turn e u u1" "unat (ev_time e) \<le> H + m * D"
    using run_step_turn[OF inv reach_step.hyps(2) m(1)] by blast
  have pop: "popped e u u1" using e(2) by (simp add: turn_def)
  note P = poppedD[OF pop]
  have st: "stepped u v" using run_step_ok[OF inv pol reach_step.hyps(2) D m(1)] reach_step.hyps(3) by auto
  then have "Suc m * D \<le> run_budget s * D" using m(2) by (intro mult_le_mono1) (simp add: stepped_def)
  then have room: "unat (sim_now u1) + D < 2 ^ 64" using rr e(3) by (simp add: P(14) run_ready_def)
  show ?case
  proof (rule handle_event_on_plan[OF inv _ reach_step.IH e(2) pol _ room])
    show "lone J u" using lone_cong(1)[OF fx] l by simp
    show "run_delays u1 D" using D run_delays_cong[OF P(1,2)] by simp
    show "handle_event select e u1 = Some v" using e(1) reach_step.hyps(3) by simp
  qed
qed

section \<open>The completion time\<close>

lemma lone_flow_exact:
  assumes rr: "run_ready s D H" and pol: "routing_policy select" and run: "run_sim select s = Some (st, s')"
    and l: "lone J s" and p: "flow_period s 0 = Some p" "unat p = jn_period J"
  shows "res_complete (sim_results s' ! 0)" "\<not> res_failed (sim_results s' ! 0)"
    "unat (fct_ns (sim_results s' ! 0)) = (packets_of (sim_specs s ! 0) - 1) * jn_period J + jn_hops J * data_hop J"
proof -
  let ?r = "sim_results s' ! 0" and ?x = "tots s ! 0 - 1" and ?spec = "sim_specs s ! 0"
  have ok: "setup_ok s" using rr by (simp add: run_ready_def)
  have n0: "0 < nflows s" using loneD(1)[OF l] by simp
  note fs = setup_okD(15)[OF ok n0, unfolded flow_shape_def]
  obtain u where u: "s' = end_run u" "settled s u" using run_sim_settled[OF rr pol run] by metis
  obtain v where v: "reaches select s v" "s' = end_run v" using run_sim_reaches[OF run] by blast
  have op: "on_plan J {} v" by (rule reach_on_plan[OF v(1) rr pol l p])
  have res: "sim_results s' = sim_results v" "sim_results s' = sim_results u" using u(1) v(2) by (metis end_run_fields(1))+
  have inv: "sim_inv v" and fx: "fixed v = fixed s" using reach_inv[OF v(1) rr pol] by blast+
  have ck: "clock_ok v 0" using flow_invD(3)[OF run_invD(5)[OF inv]] fixed_nflows[OF fx] n0 by simp
  then show nf: "\<not> res_failed ?r" using on_planD(1)[OF op] res(1) by (simp add: clock_ok_def Let_def)
  show c: "res_complete ?r" using settled_blocked[OF u(2) n0] nf res(2) by auto
  have ub: "unat (res_finish_ns ?r) \<le> release J (unat (tots s ! 0) - 1) + jn_hops J * data_hop J"
    using on_planD(11)[OF op] c res(1) setupD(7)[OF fx] by simp
  have start: "res_start_ns ?r = fs_start_ns ?spec" using settled_clock(2)[OF u(2) n0] lone_independent(1)[OF ok l] res(2) by simp
  have tot: "unat (tots s ! 0) = packets_of ?spec" "0 < tots s ! 0" using fs by blast+
  then have x: "unat ?x = packets_of ?spec - 1" "unat ?x < packets_of ?spec" "?x < tots s ! 0"
    by (simp_all add: unat_sub_small word_le_nat_alt word_less_nat_alt Suc_le_eq)
  have cost: "hop_cost (frozen s) (payload ?spec ?x) (data_hop J)"
    unfolding hop_cost_def
  proof (intro allI impI)
    fix q ser assume q: "q < port_count (frozen s)"
      and ser: "serialization_ns (ucast (payload ?spec ?x)) (port_rate (fab_ports (frozen s) ! q)) = Some ser"
    let ?k = "data_packet s 0 ?x"
    have b: "pkt_bytes ?k = fs_mtu_bytes ?spec" using loneD(13)[OF l x(3)] by (simp add: data_packet_def)
    have "clock_out (frozen s) q ?k = jn_ser J" by (rule loneD(11)[OF l q b])
    then have "unat ser = jn_ser J" using ser unfolding clock_out_def data_packet_def by simp
    then show "data_hop J \<le> unat ser + unat (port_prop_delay_ns (fab_ports (frozen s) ! q))"
      using loneD(10)[OF l q] by (simp add: data_hop_def)
  qed
  note E = lone_ends[OF ok l]
  have ready: "fabric_ready (frozen s) (sim_routes s)" using setup_okD(1)[OF ok] .
  then have fo: "fabric_ok (frozen s)" by (simp add: fabric_ready_def)
  have us: "id_index (fs_src ?spec) < node_count (frozen s)" using wiredD(1)[OF fo] E(7,9) by (metis on_route_def)
  have "fab_hosts (frozen s) ! unat (frt_dst_host (sim_froutes s ! 0)) = fs_dst ?spec" using fs by blast
  then have hops: "min_hops (links (frozen s)) (id_index (fs_dst ?spec)) (id_index (fs_src ?spec)) (jn_hops J)"
    using rank_min_hops[OF ready E(2) us] E(3) unfolding hops_left_def by metis
  have lb: "unat ?x * unat p + jn_hops J * data_hop J \<le> unat (fct_ns ?r)"
    by (rule complete_flow_time(2)[OF rr pol run n0 c p(1) x(2) cost hops])
  have "unat (fct_ns ?r) = unat (res_finish_ns ?r) - unat (res_start_ns ?r)"
    using ck c res(1) by (simp add: fct_ns_def unat_sub_small clock_ok_def Let_def word_le_nat_alt)
  then show "unat (fct_ns ?r) = (packets_of ?spec - 1) * jn_period J + jn_hops J * data_hop J"
    using lb ub start loneD(7)[OF l] x(1) tot(1) p(2) by (simp add: release_def)
qed

end
