(* ===== verification/Smoke_Exact.thy ===== *)
theory Smoke_Exact
  imports Lone_Exact
begin

text \<open>
  The smoke scenario when its builder declares the closed form exact: the run delivers the flow,
  nothing fails, and the measured completion time is the closed form, whatever the routing
  algorithm and its seed.
\<close>

section \<open>What the builder decides\<close>

lemma build_smoke_parts:
  assumes "build_smoke cfg = Some sc"
  obtains ser ack_ser s0 spec fid where
    "serialization_ns (ucast (sm_mtu_bytes cfg)) (lp_rate (ls_host_link (sm_topology cfg))) = Some ser"
    "serialization_ns (tc_ack_bytes (sim_transport (ss_sim sc))) (lp_rate (ls_host_link (sm_topology cfg))) = Some ack_ser"
    "packets_for (sm_flow_bytes cfg) (sm_mtu_bytes cfg) = Some (ss_packets sc)" "ss_hops sc \<in> {2, 4}"
    "ss_hops sc = (if sm_src_host cfg div ls_hosts_per_leaf (sm_topology cfg) = sm_dst_host cfg div ls_hosts_per_leaf (sm_topology cfg) then 2 else 4)"
    "sized_transport default_transport (ls_host_link (sm_topology cfg)) (sm_mtu_bytes cfg) (ss_hops sc) = Some (sim_transport (ss_sim sc))"
    "ss_analytical_ns sc = analytical_fct_ns (ss_packets sc) (ss_hops sc) ser (lp_prop_delay_ns (ls_host_link (sm_topology cfg)))"
    "ss_analytical_exact sc \<longleftrightarrow> same_links (ls_host_link (sm_topology cfg)) (ls_fabric_link (sm_topology cfg))
       \<and> sm_flow_bytes cfg mod ucast (sm_mtu_bytes cfg) = 0
       \<and> serialization_is_exact (ucast (sm_mtu_bytes cfg)) (lp_rate (ls_host_link (sm_topology cfg))) = Some True
       \<and> window_is_sufficient (sm_window_pkts cfg) (ss_packets sc) (ss_hops sc) ser ack_ser (lp_prop_delay_ns (ls_host_link (sm_topology cfg))) = Some True"
    "add_flow spec s0 = Some (fid, ss_sim sc)" "sim_tx s0 = []" "fs_window_pkts spec = sm_window_pkts cfg"
proof -
  let ?top = "sm_topology cfg"
  let ?l = "ls_host_link ?top"
  define hops where "hops = (if sm_src_host cfg div ls_hosts_per_leaf ?top = sm_dst_host cfg div ls_hosts_per_leaf ?top
    then kLeafSpineSameLeafHops else kLeafSpineCrossLeafHops)"
  have hopv: "hops = (if sm_src_host cfg div ls_hosts_per_leaf ?top = sm_dst_host cfg div ls_hosts_per_leaf ?top then 2 else 4)"
    by (simp add: hops_def kLeafSpineSameLeafHops_def kLeafSpineCrossLeafHops_def)
  have hops: "hops \<in> {2, 4}" by (simp add: hops_def kLeafSpineSameLeafHops_def kLeafSpineCrossLeafHops_def)
  obtain f rt src dst packets tr ser ack_ser se ex fid s where P:
    "packets_for (sm_flow_bytes cfg) (sm_mtu_bytes cfg) = Some packets"
    "sized_transport default_transport ?l (sm_mtu_bytes cfg) hops = Some tr"
    "serialization_ns (ucast (sm_mtu_bytes cfg)) (lp_rate ?l) = Some ser"
    "serialization_ns (tc_ack_bytes tr) (lp_rate ?l) = Some ack_ser"
    "serialization_is_exact (ucast (sm_mtu_bytes cfg)) (lp_rate ?l) = Some se"
    "and_also ((lp_rate ?l = lp_rate (ls_fabric_link ?top) \<and> lp_prop_delay_ns ?l = lp_prop_delay_ns (ls_fabric_link ?top))
       \<and> sm_flow_bytes cfg mod ucast (sm_mtu_bytes cfg) = 0 \<and> se)
       (window_is_sufficient (sm_window_pkts cfg) packets hops ser ack_ser (lp_prop_delay_ns ?l)) = Some ex"
    "add_flow (default_flow_spec\<lparr>fs_src := src, fs_dst := dst, fs_size_bytes := sm_flow_bytes cfg,
       fs_mtu_bytes := sm_mtu_bytes cfg, fs_window_pkts := sm_window_pkts cfg\<rparr>) (set_transport tr (sim_new f rt)) = Some (fid, s)"
    "sc = \<lparr>ss_sim = s, ss_flow = fid, ss_packets = packets, ss_hops = hops,
       ss_analytical_ns = analytical_fct_ns packets hops ser (lp_prop_delay_ns ?l), ss_analytical_exact = ex\<rparr>"
    using assms unfolding build_smoke_def Let_def hops_def[symmetric]
    by (auto simp: bind_eq_Some_conv simp flip: hops_def)
  have S: "ss_sim sc = s" "ss_packets sc = packets" "ss_hops sc = hops" "ss_analytical_exact sc = ex"
    "ss_analytical_ns sc = analytical_fct_ns packets hops ser (lp_prop_delay_ns ?l)" by (simp_all add: P(8))
  have tr: "sim_transport s = tr" using P(7) by (auto simp: add_flow_def Let_def bind_eq_Some_conv set_transport_def)
  show thesis
  proof (rule that)
    show "add_flow (default_flow_spec\<lparr>fs_src := src, fs_dst := dst, fs_size_bytes := sm_flow_bytes cfg,
       fs_mtu_bytes := sm_mtu_bytes cfg, fs_window_pkts := sm_window_pkts cfg\<rparr>) (set_transport tr (sim_new f rt)) = Some (fid, ss_sim sc)"
      using P(7) S(1) by simp
    show "ss_analytical_exact sc \<longleftrightarrow> same_links ?l (ls_fabric_link ?top) \<and> sm_flow_bytes cfg mod ucast (sm_mtu_bytes cfg) = 0
       \<and> serialization_is_exact (ucast (sm_mtu_bytes cfg)) (lp_rate ?l) = Some True
       \<and> window_is_sufficient (sm_window_pkts cfg) (ss_packets sc) (ss_hops sc) ser ack_ser (lp_prop_delay_ns ?l) = Some True"
      using P(5,6) unfolding S by (auto simp: and_also_def same_links_def split: if_splits)
  qed (use P hops hopv in \<open>simp_all add: S tr set_transport_def sim_new_def\<close>)
qed

lemma add_flow_window:
  assumes "add_flow spec s = Some (fid, s')" "sim_tx s = []"
  shows "\<exists>tot. tots s' = [tot] \<and> wins s' = [if min (fs_window_pkts spec) tot = 0 then 1 else min (fs_window_pkts spec) tot]"
  using assms by (auto simp: add_flow_def Let_def bind_eq_Some_conv tots_def wins_def)

section \<open>Configurations the closed form is about\<close>

text \<open>An ack is no larger than a data packet, a queue has room for a packet, and the bounds keep
  the timeout and the window figure within their words.\<close>

definition smoke_ordinary :: "SmokeConfig \<Rightarrow> bool" where
  "smoke_ordinary cfg \<longleftrightarrow> 64 \<le> sm_mtu_bytes cfg \<and> (\<forall>l \<in> {ls_host_link (sm_topology cfg), ls_fabric_link (sm_topology cfg)}.
     0 < lp_queue_capacity_pkts l \<and> lp_queue_capacity_pkts l \<le> 2 ^ 12 \<and> lp_prop_delay_ns l < 2 ^ 28)"

text \<open>The words of the scenario, read as numbers.\<close>

lemma round_trip_value:
  assumes "h \<in> {2, 4 :: u32}" "unat ser < 2 ^ 47" "unat ack \<le> unat ser" "unat pd < 2 ^ 28"
  shows "unat (round_trip_ns h ser ack pd) = unat h * (unat ser + unat pd) + unat h * (unat ack + unat pd)"
proof -
  let ?h = "ucast h :: u64"
  have h: "unat ?h = unat h" "unat h \<le> 4" using assms(1) by (auto simp: unat_ucast_up_eq)
  have a: "unat (ser + pd) = unat ser + unat pd" "unat (ack + pd) = unat ack + unat pd"
    using assms(2-4) by (subst unat_add_small; simp)+
  have "unat h * x \<le> 4 * x" for x using h(2) by simp
  note B = this[of "unat ser + unat pd"] this[of "unat ack + unat pd"]
  have m: "unat (?h * (ser + pd)) = unat h * (unat ser + unat pd)" "unat (?h * (ack + pd)) = unat h * (unat ack + unat pd)"
    using assms(2-4) B by (subst unat_mult_small; simp add: h a)+
  show ?thesis unfolding round_trip_ns_def
    by (subst unat_add_small) (use assms(2-4) B in \<open>simp_all add: m\<close>)
qed

lemma rto_covers:
  assumes h: "h \<in> {2, 4 :: u32}" and ser: "0 < unat ser" "unat ser < 2 ^ 47" and "unat ack \<le> unat ser" "unat pd < 2 ^ 28"
    and cap: "cap \<le> 2 ^ 12"
  shows "unat h * (unat ser + unat pd) + unat h * (unat ack + unat pd) < unat (default_rto_ns h ser ack pd (of_nat cap))"
proof -
  define q where "q = unat h * (unat ser + unat pd) + unat h * (unat ack + unat pd)"
  note R = round_trip_value[OF h ser(2) assms(4,5), folded q_def]
  let ?h = "ucast h :: u64" and ?c = "ucast (of_nat cap :: u32) :: u64"
  have hc: "unat ?h = unat h" "unat h \<le> 4" "0 < unat h" using h by (auto simp: unat_ucast_up_eq)
  have c: "unat ?c = cap" using cap by (simp add: unat_ucast_up_eq unat_of_nat_small)
  have q: "0 < q" using hc(3) ser(1) by (simp add: q_def)
  have "unat h * x \<le> 4 * x" for x using hc(2) by simp
  note B = this[of "unat ser + unat pd"] this[of "unat ack + unat pd"]
  have q2: "q < 2 ^ 51" using B ser(2) assms(4,5) by (simp add: q_def)
  have hcap: "unat h * cap \<le> 2 ^ 14" using mult_le_mono[OF hc(2) cap] by simp
  have m1: "unat (?h * ?c) = unat h * cap" using hcap by (subst unat_mult_small) (simp_all add: hc c)
  have m2: "unat h * cap * unat ser < 2 ^ 14 * 2 ^ 47"
    using hcap ser(2) le_less_trans[OF mult_le_mono1[OF hcap, of "unat ser"]] by simp
  have m3: "unat (?h * ?c * ser) = unat h * cap * unat ser" using m2 by (subst unat_mult_small) (simp_all add: m1)
  have s1: "unat (round_trip_ns h ser ack pd + ?h * ?c * ser) = q + unat h * cap * unat ser"
    using q2 m2 by (subst unat_add_small) (simp_all add: R m3)
  have "unat (2 * (round_trip_ns h ser ack pd + ?h * ?c * ser)) = 2 * (q + unat h * cap * unat ser)"
    using q2 m2 by (subst unat_mult_small) (simp_all add: s1)
  then show ?thesis using q by (simp add: default_rto_ns_def q_def[symmetric])
qed

section \<open>The scenario on its timetable\<close>

lemma smoke_slack:
  assumes fits: "smoke_fits cfg D" and ser: "serialization_ns (ucast (sm_mtu_bytes cfg)) (lp_rate (ls_host_link (sm_topology cfg))) = Some ser"
  shows "unat ser < 2 ^ 47" "D < 2 ^ 64" "1000 * unat ser \<le> D"
proof -
  define N where "N = 4 * (unat (ls_spine_count (sm_topology cfg)) + unat (ls_leaf_count (sm_topology cfg))
    + unat (ls_leaf_count (sm_topology cfg)) * unat (ls_hosts_per_leaf (sm_topology cfg))) + 6"
  note F = fits[unfolded smoke_fits_def Let_def]
  have r: "(N * 8 * smoke_packets cfg + 1) * D < 2 ^ 64" using F unfolding N_def by blast
  show D: "1000 * unat ser \<le> D" "D < 2 ^ 64" using serialization_within[OF _ ser, of D] F by blast+
  have "0 < sm_mtu_bytes cfg" "0 < sm_flow_bytes cfg" using F by blast+
  then have "0 < smoke_packets cfg"
    by (simp add: smoke_packets_def ceil_div_def word_less_nat_alt div_greater_zero_iff)
  moreover have "18 \<le> N"
  proof -
    define m where "m = unat (ls_leaf_count (sm_topology cfg)) * unat (ls_hosts_per_leaf (sm_topology cfg))"
    have "unat (sm_src_host cfg) < m" "unat (sm_dst_host cfg) < m" "sm_src_host cfg \<noteq> sm_dst_host cfg"
      using F unfolding m_def by blast+
    then have "2 \<le> m" by (auto simp: word_unat_eq_iff)
    moreover from this have "1 \<le> unat (ls_leaf_count (sm_topology cfg))" by (cases "unat (ls_leaf_count (sm_topology cfg))") (simp_all add: m_def)
    ultimately show ?thesis by (simp add: N_def m_def)
  qed
  ultimately have "18 * 8 * 1 \<le> N * 8 * smoke_packets cfg" by (intro mult_le_mono) simp_all
  then have "145 * D \<le> (N * 8 * smoke_packets cfg + 1) * D" by (intro mult_le_mono1) simp
  then have "145 * D < 2 ^ 64" using r by (rule le_less_trans)
  then have "145 * (1000 * unat ser) < 2 ^ 64" using D(1) by linarith
  then show "unat ser < 2 ^ 47" by simp
qed

lemma window_covers:
  assumes suff: "window_is_sufficient w packets h ser ack pd = Some True" and h: "h \<in> {2, 4 :: u32}"
    and ser: "0 < unat ser" "unat ser < 2 ^ 47" and ack: "unat ack \<le> unat ser" and pd: "unat pd < 2 ^ 28"
    and v: "v = (if min w packets = 0 then 1 else min w packets)"
  shows "packets \<le> v \<or> unat h * (unat ser + unat pd) + unat h * (unat ack + unat pd) < unat v * unat ser"
proof (cases "packets \<le> w")
  case False
  define q where "q = unat h * (unat ser + unat pd) + unat h * (unat ack + unat pd)"
  note R = round_trip_value[OF h ser(2) ack pd, folded q_def]
  have "unat h \<le> 4" using h by auto
  then have "q \<le> 4 * (unat ser + unat pd) + 4 * (unat ser + unat pd)"
    unfolding q_def by (intro add_mono mult_mono) (use ack in simp_all)
  also have "\<dots> \<le> (8 + 8 * unat pd) * unat ser" using mult_le_mono2[of 1 "unat ser" "8 * unat pd"] ser(1) by (simp add: algebra_simps)
  finally have "q div unat ser \<le> 8 + 8 * unat pd" using ser(1) by (metis div_le_mono div_mult_self_is_m)
  then have small: "q div unat ser + 1 < 2 ^ 32" using pd by simp
  have rw: "unat (round_trip_ns h ser ack pd div ser) = q div unat ser" by (simp add: unat_div R)
  then have u: "unat (ucast (round_trip_ns h ser ack pd div ser) :: u32) = q div unat ser"
    using small by (simp add: unsigned_ucast_eq take_bit_nat_eq_self)
  then have "unat (ucast (round_trip_ns h ser ack pd div ser) + 1 :: u32) = q div unat ser + 1"
    using small by (subst unat_add_small) simp_all
  moreover have "ucast (round_trip_ns h ser ack pd div ser) + 1 \<le> w"
    using suff False by (auto simp: window_is_sufficient_def min_window_packets_def bind_eq_Some_conv split: if_splits)
  ultimately have w: "q div unat ser + 1 \<le> unat w" by (simp add: word_le_nat_alt)
  then have "w \<noteq> 0" by auto
  moreover have "min w packets = w" using False by simp
  ultimately have "v = w" using v by simp
  moreover have "q < (q div unat ser + 1) * unat ser"
    using ser(1) by (metis add.commute dividend_less_div_times mult.commute mult_Suc_right plus_1_eq_Suc)
  then have "q < unat w * unat ser" using mult_le_mono1[OF w, of "unat ser"] by linarith
  ultimately show ?thesis by (simp add: q_def)
qed (use v in \<open>auto simp: min_def\<close>)

definition smoke_journey :: "SmokeConfig \<Rightarrow> SmokeScenario \<Rightarrow> Nanos \<Rightarrow> Nanos \<Rightarrow> journey" where
  "smoke_journey cfg sc ser ack = \<lparr>jn_start = 0, jn_period = unat ser, jn_hops = unat (ss_hops sc), jn_ser = unat ser,
     jn_ack = unat ack, jn_prop = unat (lp_prop_delay_ns (ls_host_link (sm_topology cfg)))\<rparr>"

lemma smoke_lone:
  assumes fits: "smoke_fits cfg D" and ord: "smoke_ordinary cfg" and b: "build_smoke cfg = Some sc" and ex: "ss_analytical_exact sc"
    and built: "smoke_built cfg sc" and rr: "run_ready (ss_sim sc) D 0"
  shows "\<exists>ser ack. lone (smoke_journey cfg sc ser ack) (ss_sim sc) \<and> flow_period (ss_sim sc) 0 = Some ser
    \<and> serialization_ns (ucast (sm_mtu_bytes cfg)) (lp_rate (ls_host_link (sm_topology cfg))) = Some ser
    \<and> ss_analytical_ns sc = analytical_fct_ns (ss_packets sc) (ss_hops sc) ser (lp_prop_delay_ns (ls_host_link (sm_topology cfg)))"
proof -
  let ?s = "ss_sim sc" and ?top = "sm_topology cfg"
  let ?l = "ls_host_link ?top" and ?F = "frozen ?s"
  obtain ser ack s0 spec fid where P:
    "serialization_ns (ucast (sm_mtu_bytes cfg)) (lp_rate ?l) = Some ser"
    "serialization_ns (tc_ack_bytes (sim_transport ?s)) (lp_rate ?l) = Some ack"
    "packets_for (sm_flow_bytes cfg) (sm_mtu_bytes cfg) = Some (ss_packets sc)" "ss_hops sc \<in> {2, 4}"
    "sized_transport default_transport ?l (sm_mtu_bytes cfg) (ss_hops sc) = Some (sim_transport ?s)"
    "ss_analytical_ns sc = analytical_fct_ns (ss_packets sc) (ss_hops sc) ser (lp_prop_delay_ns ?l)"
    "same_links ?l (ls_fabric_link ?top)" "sm_flow_bytes cfg mod ucast (sm_mtu_bytes cfg) = 0"
    "serialization_is_exact (ucast (sm_mtu_bytes cfg)) (lp_rate ?l) = Some True"
    "window_is_sufficient (sm_window_pkts cfg) (ss_packets sc) (ss_hops sc) ser ack (lp_prop_delay_ns ?l) = Some True"
    "add_flow spec s0 = Some (fid, ?s)" "sim_tx s0 = []" "fs_window_pkts spec = sm_window_pkts cfg"
    using build_smoke_parts[OF b] ex by metis
  note F = fits[unfolded smoke_fits_def Let_def] and B = built[unfolded smoke_built_def Let_def]
    and O = ord[unfolded smoke_ordinary_def]
  have sp: "fs_mtu_bytes (sim_specs ?s ! 0) = sm_mtu_bytes cfg" "fs_size_bytes (sim_specs ?s ! 0) = sm_flow_bytes cfg"
    "fs_src (sim_specs ?s ! 0) = fab_hosts ?F ! unat (sm_src_host cfg)" "fs_dst (sim_specs ?s ! 0) = fab_hosts ?F ! unat (sm_dst_host cfg)"
    "fs_load_permille (sim_specs ?s ! 0) = 1000" "fs_start_ns (sim_specs ?s ! 0) = 0" "nflows ?s = 1"
    using B by (auto simp: default_flow_spec_def)
  have ok: "setup_ok ?s" using rr by (simp add: run_ready_def)
  have n0: "0 < nflows ?s" using sp by simp
  note fs = setup_okD(15)[OF ok n0, unfolded flow_shape_def]
  have lf: "leaf_spine_fits ?top" using F by blast
  have mtu: "0 < sm_mtu_bytes cfg" "64 \<le> sm_mtu_bytes cfg" using F O by blast+
  have rate: "lp_rate ?l \<noteq> 0" using P(1) by (auto simp: serialization_ns_def)
  have pd: "unat (lp_prop_delay_ns ?l) < 2 ^ 28" and cap: "lp_queue_capacity_pkts ?l \<le> 2 ^ 12"
    using O by (auto simp: word_less_nat_alt)
  have ser: "0 < unat ser" "unat ser < 2 ^ 47" "1000 * unat ser \<le> D" "D < 2 ^ 64"
    using exact_takes_time[OF P(9) mtu(1) P(1)] smoke_slack[OF fits P(1)] by (simp_all add: unat_gt_0)
  have ab: "tc_ack_bytes (sim_transport ?s) = 64"
    using sized_transport_fields(1)[OF P(5)] by (simp add: default_transport_def)
  have ack: "unat ack \<le> unat ser"
  proof -
    have "unat ack = 64 * 8000000000 div unat (lp_rate ?l)"
      using serialization_nat[OF rate, of 64] P(2) by (simp add: ab)
    moreover have "unat ser = unat (sm_mtu_bytes cfg) * 8000000000 div unat (lp_rate ?l)"
      using serialization_nat[OF rate, of "ucast (sm_mtu_bytes cfg)"] P(1) unat_lt16[of "sm_mtu_bytes cfg"] by (simp add: unat_ucast_up_eq)
    moreover have "64 * 8000000000 \<le> unat (sm_mtu_bytes cfg) * 8000000000" using mtu(2) by (simp add: word_le_nat_alt)
    ultimately show ?thesis using div_le_mono by simp
  qed
  have link: "port_rate (fab_ports ?F ! p) = lp_rate ?l" "port_prop_delay_ns (fab_ports ?F ! p) = lp_prop_delay_ns ?l"
    "0 < ring_capacity (port_queue (fab_ports ?F ! p))" if "p < port_count ?F" for p
  proof -
    have pf: "ports_from ?F {?l, ls_fabric_link ?top}" using leaf_spine_ports[OF lf] B by blast
    from pf[unfolded ports_from_def, rule_format, OF that]
    obtain l where l: "l \<in> {?l, ls_fabric_link ?top}" "port_rate (fab_ports ?F ! p) = lp_rate l
      \<and> port_prop_delay_ns (fab_ports ?F ! p) = lp_prop_delay_ns l \<and> ring_capacity (port_queue (fab_ports ?F ! p)) = lp_queue_capacity_pkts l"
      by (rule bexE)
    have "lp_rate l = lp_rate ?l" "lp_prop_delay_ns l = lp_prop_delay_ns ?l" using l(1) P(7) by (auto simp: same_links_def)
    moreover have "0 < lp_queue_capacity_pkts l" using l(1) O by blast
    ultimately show "port_rate (fab_ports ?F ! p) = lp_rate ?l" "port_prop_delay_ns (fab_ports ?F ! p) = lp_prop_delay_ns ?l"
      "0 < ring_capacity (port_queue (fab_ports ?F ! p))" using l by simp_all
  qed
  have tot: "unat (tots ?s ! 0) = packets_of (sim_specs ?s ! 0)" using fs by blast
  have N: "packets_of (sim_specs ?s ! 0) < 2 ^ 32" using unat_lt32[of "tots ?s ! 0"] tot by simp
  have pk: "tots ?s ! 0 = ss_packets sc"
    using tot B sp by (simp add: word_unat_eq_iff packets_of_def smoke_packets_def)
  have pay: "payload (sim_specs ?s ! 0) x = fs_mtu_bytes (sim_specs ?s ! 0)" if "x < tots ?s ! 0" for x
    by (rule whole_packets[OF _ _ _ N]) (use that mtu P(8) sp tot in \<open>simp_all add: word_less_nat_alt\<close>)
  have hops: "path_length ?s 0 = unat (ss_hops sc)"
  proof -
    have ready: "fabric_ready ?F (sim_routes ?s)" using setup_okD(1)[OF ok] .
    then have fo: "fabric_ok ?F" by (simp add: fabric_ready_def)
    have pc: "id_index (frt_src_nic (sim_froutes ?s ! 0)) < port_count ?F" using fs by (simp add: on_route_def)
    have own: "source_node ?s 0 < node_count ?F" using wiredD(1)[OF fo pc] by (simp add: source_node_def)
    have src: "source_node ?s 0 = id_index (fs_src (sim_specs ?s ! 0))"
      and dh: "unat (frt_dst_host (sim_froutes ?s ! 0)) < host_count ?F" "fab_hosts ?F ! unat (frt_dst_host (sim_froutes ?s ! 0)) = fs_dst (sim_specs ?s ! 0)"
      using fs by (auto simp: source_node_def)
    have "min_hops (links ?F) (id_index (fs_src (sim_specs ?s ! 0))) (id_index (fs_dst (sim_specs ?s ! 0))) (unat (ss_hops sc))"
      using B unfolding sp by blast
    from min_hops_swap[OF fabric_okD(1)[OF fo] this] rank_min_hops[OF ready dh(1) own]
    show ?thesis unfolding path_length_def hops_left_def src dh(2) by (rule min_hops_unique[symmetric])
  qed
  obtain t where t: "tots ?s = [t]" "wins ?s = [if min (sm_window_pkts cfg) t = 0 then 1 else min (sm_window_pkts cfg) t]"
    using add_flow_window[OF P(11,12)] P(13) by auto
  let ?J = "smoke_journey cfg sc ser ack"
  have rtt: "round_trip ?J = unat (ss_hops sc) * (unat ser + unat (lp_prop_delay_ns ?l)) + unat (ss_hops sc) * (unat ack + unat (lp_prop_delay_ns ?l))"
    by (simp add: round_trip_def data_hop_def ack_hop_def smoke_journey_def)
  have "lone ?J ?s"
    unfolding lone_def Let_def
  proof (intro conjI allI impI)
    show "clock_out ?F p k = jn_ser ?J" if "p < port_count ?F" "pkt_bytes k = fs_mtu_bytes (sim_specs ?s ! 0)" for p k
      using that link(1) P(1) sp by (simp add: clock_out_def smoke_journey_def)
    show "clock_out ?F p k = jn_ack ?J" if "p < port_count ?F" "pkt_bytes k = ucast (tc_ack_bytes (sim_transport ?s))" for p k
      using that link(1) P(2) ab by (simp add: clock_out_def smoke_journey_def)
    have "sim_transport ?s = default_transport\<lparr>tc_rto_ns := default_rto_ns (ss_hops sc) ser ack (lp_prop_delay_ns ?l) (of_nat (lp_queue_capacity_pkts ?l))\<rparr>"
      using P(5) P(1) P(2) ab unfolding sized_transport_def by (auto simp: default_transport_def)
    then show "round_trip ?J < unat (tc_rto_ns (sim_transport ?s))"
      unfolding rtt using rto_covers[OF P(4) ser(1,2) ack pd cap] by simp
    have "wins ?s ! 0 = (if min (sm_window_pkts cfg) (ss_packets sc) = 0 then 1 else min (sm_window_pkts cfg) (ss_packets sc))"
      using t pk by simp
    from window_covers[OF P(10,4) ser(1,2) ack pd this]
    show "tots ?s ! 0 \<le> wins ?s ! 0 \<or> round_trip ?J < unat (wins ?s ! 0) * jn_period ?J"
      unfolding rtt pk by (simp only: smoke_journey_def journey.select_convs)
  qed (use sp link pay hops ser(1) ack in \<open>simp_all add: smoke_journey_def\<close>)
  moreover have "flow_period ?s 0 = Some ser"
  proof -
    have nic: "id_index (frt_src_nic (sim_froutes ?s ! 0)) < port_count ?F" using nic_in_range(1)[OF ok n0] by simp
    have "unat (ser * 1000) = unat ser * 1000" using ser by (subst unat_mult_small) simp_all
    then have "ser * 1000 div 1000 = ser" by (simp add: word_unat_eq_iff unat_div)
    then show ?thesis using link(1)[OF nic] P(1) sp by (simp add: flow_period_def pacing_period_def assert_that_def)
  qed
  ultimately show ?thesis using P(1,6) by blast
qed

lemma smoke_runs_exactly:
  assumes fits: "smoke_fits cfg D" and ord: "smoke_ordinary cfg" and b: "build_smoke cfg = Some sc" and ex: "ss_analytical_exact sc"
  shows "\<exists>st s'. run_with_routing (ss_sim sc) algo seed = Some (st, s')
    \<and> res_complete (sim_results s' ! 0) \<and> \<not> res_failed (sim_results s' ! 0)
    \<and> fct_ns (sim_results s' ! 0) = ss_analytical_ns sc"
proof -
  let ?s = "ss_sim sc" and ?pd = "lp_prop_delay_ns (ls_host_link (sm_topology cfg))"
  have built: "smoke_built cfg sc" and rr: "run_ready ?s D 0" using build_smoke_ok[OF fits] b by auto
  obtain ser ack where L: "lone (smoke_journey cfg sc ser ack) ?s" "flow_period ?s 0 = Some ser"
    "ss_analytical_ns sc = analytical_fct_ns (ss_packets sc) (ss_hops sc) ser ?pd"
    using smoke_lone[OF fits ord b ex built rr] by blast
  obtain select where sel: "routing_policy select" "\<And>r. run_sim select ?s = Some r \<Longrightarrow> run_with_routing ?s algo seed = Some r"
    using that[of static_first_select] that[of "ecmp_select seed"] static_policy.routing_policy_axioms
      ecmp_policy.routing_policy_axioms by (cases algo) (auto simp: run_with_routing_def)
  obtain st s' where run: "run_sim select ?s = Some (st, s')" using run_sim_ok[OF rr sel(1)] by blast
  have "unat ser = jn_period (smoke_journey cfg sc ser ack)" by (simp add: smoke_journey_def)
  note E = lone_flow_exact[OF rr sel(1) run L(1,2) this]
  let ?P = "packets_of (sim_specs ?s ! 0)"
  have n0: "0 < nflows ?s" using loneD(1)[OF L(1)] by simp
  have u: "unat (ss_packets sc) = ?P" using built by (auto simp: smoke_built_def Let_def packets_of_def smoke_packets_def default_flow_spec_def)
  have "0 < ?P" using setup_okD(15)[of ?s 0] rr n0 by (auto simp: run_ready_def flow_shape_def word_less_nat_alt)
  then have "ss_packets sc \<noteq> 0" using u by auto
  then have e: "unat (ucast (ss_packets sc) - 1 :: u64) = ?P - 1" using packets_minus_one[of "ss_packets sc"] u by simp
  define m where "m = ?P - 1"
  have "(ucast (ss_packets sc) - 1 :: u64) = of_nat m" unfolding m_def e[symmetric] by simp
  then have "analytical_fct_ns (ss_packets sc) (ss_hops sc) ser ?pd = of_nat (m * unat ser + unat (ss_hops sc) * (unat ser + unat ?pd))"
    by (simp add: analytical_fct_ns_def algebra_simps)
  also have "\<dots> = of_nat (unat (fct_ns (sim_results s' ! 0)))" by (simp only: E(3) smoke_journey_def data_hop_def m_def journey.select_convs)
  finally show ?thesis using sel(2)[OF run] E(1,2) L(3) by auto
qed

end
