(* ===== verification/Sample_Smoke.thy ===== *)
theory Sample_Smoke
  imports Smoke_Exact Sample_Scenarios
begin

text \<open>
  The default smoke configuration is one of those its closed form is declared exact for.
\<close>

lemma sample_smoke_ordinary: "smoke_ordinary default_smoke"
  by (simp add: smoke_ordinary_def default_smoke_def default_leaf_spine_def default_link_def)

lemma sample_smoke_link:
  "lp_rate (ls_host_link (sm_topology default_smoke)) = 100000000000"
  "lp_prop_delay_ns (ls_host_link (sm_topology default_smoke)) = 100"
  "ls_fabric_link (sm_topology default_smoke) = ls_host_link (sm_topology default_smoke)"
  "sm_mtu_bytes default_smoke = 1500" "sm_flow_bytes default_smoke = 1500000" "sm_window_pkts default_smoke = 512"
  by (simp_all add: default_smoke_def default_leaf_spine_def default_link_def gbps_def)

lemma sample_smoke_times:
  "serialization_ns 1500 100000000000 = Some 120" "serialization_ns 64 100000000000 = Some 5"
  "serialization_is_exact 1500 100000000000 = Some True" "packets_for 1500000 1500 = Some 1000"
  "window_is_sufficient 512 1000 4 120 5 100 = Some True" "analytical_fct_ns 1000 4 120 100 = 120760"
  by (simp_all add: serialization_ns_def serialization_is_exact_def kBitsPerByte_def kNanosPerSec_def packets_for_def
      window_is_sufficient_def min_window_packets_def round_trip_ns_def analytical_fct_ns_def assert_that_def)

lemma sample_smoke_exact:
  "\<exists>sc. build_smoke default_smoke = Some sc \<and> ss_analytical_exact sc \<and> ss_hops sc = 4 \<and> ss_analytical_ns sc = 120760"
proof -
  obtain sc where sc: "build_smoke default_smoke = Some sc" using build_smoke_ok[OF sample_smoke_fits] by blast
  let ?l = "ls_host_link (sm_topology default_smoke)"
  obtain ser ack_ser s0 spec fid where P:
    "serialization_ns (ucast (sm_mtu_bytes default_smoke)) (lp_rate ?l) = Some ser"
    "serialization_ns (tc_ack_bytes (sim_transport (ss_sim sc))) (lp_rate ?l) = Some ack_ser"
    "packets_for (sm_flow_bytes default_smoke) (sm_mtu_bytes default_smoke) = Some (ss_packets sc)"
    "ss_hops sc = (if sm_src_host default_smoke div ls_hosts_per_leaf (sm_topology default_smoke)
       = sm_dst_host default_smoke div ls_hosts_per_leaf (sm_topology default_smoke) then 2 else 4)"
    "sized_transport default_transport ?l (sm_mtu_bytes default_smoke) (ss_hops sc) = Some (sim_transport (ss_sim sc))"
    "ss_analytical_ns sc = analytical_fct_ns (ss_packets sc) (ss_hops sc) ser (lp_prop_delay_ns ?l)"
    "ss_analytical_exact sc \<longleftrightarrow> same_links ?l (ls_fabric_link (sm_topology default_smoke))
       \<and> sm_flow_bytes default_smoke mod ucast (sm_mtu_bytes default_smoke) = 0
       \<and> serialization_is_exact (ucast (sm_mtu_bytes default_smoke)) (lp_rate ?l) = Some True
       \<and> window_is_sufficient (sm_window_pkts default_smoke) (ss_packets sc) (ss_hops sc) ser ack_ser (lp_prop_delay_ns ?l) = Some True"
    using build_smoke_parts[OF sc] by metis
  have "tc_ack_bytes (sim_transport (ss_sim sc)) = 64"
    using sized_transport_fields(1)[OF P(5)] by (simp add: default_transport_def)
  moreover have hops: "ss_hops sc = 4" using P(4) by (simp add: default_smoke_def default_leaf_spine_def)
  ultimately have v: "ser = 120" "ack_ser = 5" "ss_packets sc = 1000" using P(1-3) by (simp_all add: sample_smoke_link sample_smoke_times)
  show ?thesis
    by (intro exI[of _ sc]) (simp add: sc P(6,7) hops v sample_smoke_link sample_smoke_times same_links_def)
qed

lemma sample_smoke_flow:
  assumes "smoke_built default_smoke sc"
  shows "packets_of (sim_specs (ss_sim sc) ! 0) = 1000"
  using assms by (auto simp: smoke_built_def Let_def packets_of_def default_flow_spec_def default_smoke_def ceil_div_def)

end
