(* ===== verification/Spec2Isabelle.thy ===== *)
theory Spec2Isabelle
  imports Queue_Stable Sample_Light Sim_Digest Sample_Scenarios Sample_Smoke
begin

text \<open>
  A verification development of the GPU fabric simulator: a deterministic discrete-event
  simulator of packets crossing a datacentre fabric, the topologies and workloads it is run on,
  and the command line around it.

  \<^bold>\<open>The program and its parts.\<close>  A \<^emph>\<open>fabric\<close> is a graph of switches and hosts joined by directed
  ports, each with a rate, a propagation delay and a drop-tail queue; a \<^emph>\<open>route table\<close> computed
  once by breadth-first search gives, at every node and for every destination host, the ports
  one hop nearer to it, and a \<^emph>\<open>routing policy\<close> picks one of them for a packet.  The
  \<^emph>\<open>simulation\<close> holds flows and a queue of events; a run pops the earliest event, advances the
  clock and calls its handler, which pushes further events: injection and pacing at the sender,
  serialisation and propagation at the ports, forwarding, delivery and acknowledgement, timeout
  and retransmission, completion and the release of dependent flows.  A \<^emph>\<open>scenario\<close> builds a
  topology, a workload and a transport, and computes a closed form to compare the run with; the
  command line picks a scenario, runs it and reports.

  \<^bold>\<open>Theories and sources.\<close>  File names are under \<^verbatim>\<open>src/src/fabric/\<close>.

  \<^item> \<^verbatim>\<open>Fabric_Prelude\<close>: the word types, checked vector access and assertions, lemmas on words,
    sums and counting sorts that the components share.
  \<^item> \<^verbatim>\<open>Units_Ids\<close>: \<^verbatim>\<open>core/units.hpp\<close>, \<^verbatim>\<open>core/ids.hpp\<close>.  \<^verbatim>\<open>Packet_Ring\<close>: \<^verbatim>\<open>model/packet.hpp\<close>, refined to a
    bounded list (\<^const>\<open>bounded_fifo\<close>).  \<^verbatim>\<open>Event_Queue\<close>, \<^verbatim>\<open>Queue_Stable\<close>: \<^verbatim>\<open>core/event.hpp\<close>,
    \<^verbatim>\<open>core/event_queue.hpp\<close>, the binary heap as a stable priority queue (\<^const>\<open>min_queue\<close>).
  \<^item> \<^verbatim>\<open>Fabric_Build\<close>: \<^verbatim>\<open>model/fabric.*\<close>.  \<^verbatim>\<open>Flow_Hash\<close>: \<^verbatim>\<open>routing/flow_key.hpp\<close>, \<^verbatim>\<open>routing/policy.hpp\<close>
    (contract \<^const>\<open>routing_policy\<close>).  \<^verbatim>\<open>Route_Table\<close>: \<^verbatim>\<open>routing/route_table.*\<close>.
  \<^item> \<^verbatim>\<open>Simulation\<close>: \<^verbatim>\<open>core/simulation.hpp\<close> and \<^verbatim>\<open>core/simulation.cpp\<close>, every member function, one
    definition each, on the record \<^typ>\<open>sim\<close>; template parameter \<^verbatim>\<open>Policy\<close> is an argument.
  \<^item> \<^verbatim>\<open>Topology\<close>, \<^verbatim>\<open>Leaf_Spine\<close>, \<^verbatim>\<open>Fat_Tree\<close>: \<^verbatim>\<open>topology/*\<close>.  \<^verbatim>\<open>Random_Stream\<close>, \<^verbatim>\<open>Permutation\<close>,
    \<^verbatim>\<open>All_Reduce\<close>: \<^verbatim>\<open>workload/*\<close>, with the standard library's Mersenne Twister written out.
    \<^verbatim>\<open>Fct_Metrics\<close>: \<^verbatim>\<open>metrics/fct.*\<close>.  \<^verbatim>\<open>Scenario\<close>: \<^verbatim>\<open>harness/scenario.*\<close>.
    \<^verbatim>\<open>Cli\<close>: \<^verbatim>\<open>apps/fabricsim/main.cpp\<close>.

  \<^bold>\<open>Conventions.\<close>  Integers are words of their C++ width and wrap.  An operation that is
  undefined or whose assertion fails (out-of-range access, division by zero, \<^verbatim>\<open>assert\<close>) is
  \<^const>\<open>None\<close>, so a theorem that a function returns \<^const>\<open>Some\<close> says that no assertion fires and nothing
  undefined happens.  A \<^const>\<open>None\<close> of the model is therefore never an error the program handles;
  those are values (\<^typ>\<open>bool\<close>, or the exit status of \<^const>\<open>main\<close>).  Loops that C++ does not bound
  (\<^const>\<open>run_loop\<close>, \<^const>\<open>try_send_loop\<close>, \<^const>\<open>bfs_loop\<close>) are partial functions, and their return is proved.

  \<^bold>\<open>Groups of lemmas.\<close>

  \<^item> Conditions and invariant of a run: \<^verbatim>\<open>Sim_Network\<close> (where the packets in the fabric are),
    \<^verbatim>\<open>Sim_Routes\<close>, \<^verbatim>\<open>Sim_Setup\<close> (what \<^const>\<open>add_flow\<close> establishes), \<^verbatim>\<open>Sim_Invariant\<close>.
  \<^item> Every handler keeps it, returns, and pays for the events it pushes: \<^verbatim>\<open>Sim_Sender\<close>, \<^verbatim>\<open>Sim_Window\<close>,
    \<^verbatim>\<open>Sim_Handlers\<close>, \<^verbatim>\<open>Sim_Timeout\<close>, \<^verbatim>\<open>Sim_Receive\<close>, \<^verbatim>\<open>Sim_Complete\<close>, put together in \<^verbatim>\<open>Sim_Run\<close>; \<^verbatim>\<open>Sim_Dependents\<close>
    and \<^verbatim>\<open>Sim_Begin\<close> show that \<^const>\<open>begin_run\<close> establishes it, \<^verbatim>\<open>Sim_Books\<close> and \<^verbatim>\<open>Sim_Result\<close> what the
    final counters are, \<^verbatim>\<open>Sim_Flows\<close> what flows are accepted, \<^verbatim>\<open>Sim_Reach\<close> the states a run visits,
    \<^verbatim>\<open>Sim_Digest\<close> what the result digest distinguishes.
  \<^item> Time: \<^verbatim>\<open>Sim_Clock\<close>, \<^verbatim>\<open>Sim_Pace\<close> and \<^verbatim>\<open>Sim_Light\<close> bound from below when a copy of a packet can be where
    it is; \<^verbatim>\<open>Closed_Forms\<close> and \<^verbatim>\<open>Command_Bounds\<close> compare the closed forms with what a run measures.
  \<^item> The timetable of a flow that is alone in the network: \<^verbatim>\<open>Sim_Plan\<close> and \<^verbatim>\<open>Sim_Lone\<close> say when each copy
    of each packet and ack is where (\<^const>\<open>plan\<close>, under the conditions \<^const>\<open>lone\<close>), \<^verbatim>\<open>Lone_State\<close>,
    \<^verbatim>\<open>Lone_Send\<close>, \<^verbatim>\<open>Lone_Turn\<close> and \<^verbatim>\<open>Lone_Run\<close> that every handler keeps to it, so that no packet waits for
    another and no timer fires for a packet that is still needed; \<^verbatim>\<open>Lone_Exact\<close> concludes the exact completion
    time, and \<^verbatim>\<open>Smoke_Exact\<close> that the smoke scenario's flag \<^verbatim>\<open>analytical_exact\<close> is right for the
    configurations \<^const>\<open>smoke_ordinary\<close> (an ack no larger than a data packet).
  \<^item> Scenarios and commands from end to end: \<^verbatim>\<open>Sim_Load\<close>, \<^verbatim>\<open>Scenario_Runs\<close>, \<^verbatim>\<open>Permutation_Runs\<close>,
    \<^verbatim>\<open>All_Reduce_Runs\<close>, \<^verbatim>\<open>Smoke_Runs\<close>, \<^verbatim>\<open>Cli_Options\<close>, \<^verbatim>\<open>Command_Runs\<close>.
  \<^item> \<^verbatim>\<open>Sample_Fabric\<close>, \<^verbatim>\<open>Sample_Run\<close>, \<^verbatim>\<open>Sample_Light\<close>, \<^verbatim>\<open>Sample_Draws\<close>, \<^verbatim>\<open>Sample_Scenarios\<close>,
    \<^verbatim>\<open>Sample_Smoke\<close>: concrete inputs at which
    the properties are applied.

  \<^bold>\<open>Bounds.\<close>  A run needs at most \<^const>\<open>run_budget\<close> events: each attempt of each packet costs a fixed
  number of events per hop of the longest path, each flow one more.  \<^const>\<open>run_ready\<close> \<open>s D H\<close> asks that
  no single delay exceeds \<open>D\<close>, no start \<open>H\<close>, and that \<open>H\<close> plus the budget times \<open>D\<close> stays below
  \<open>2 ^ 64\<close>, so that the clock cannot wrap; flows, packets and windows stay below the 32-bit limits of
  the code's indices.  Fat-trees are covered up to half-arity 23 (arity 46), where the route
  table still fits its 32-bit offsets.  A bounded random draw may in principle reject for ever;
  where a workload draws, \<^const>\<open>yields\<close> states that its stream does not, and the samples prove it for
  theirs.

  \<^bold>\<open>Not modelled.\<close>  \<^verbatim>\<open>core/scoped_timer.hpp\<close> reads the wall clock, which no result depends on.  The
  text printed by the command line is output only; the values it is made of (\<^typ>\<open>Report\<close>, the
  summaries, the exit status) are modelled.  \<^verbatim>\<open>EventQueue::reserve\<close> only allocates, and
  exhaustion of memory is not represented.
\<close>

section \<open>Properties\<close>

text \<open>
  C1. A run of any simulation that is ready (flows accepted by \<open>add_flow\<close> over a built fabric, a transport with a timeout, delays that keep the clock in 64 bits) returns, with an empty event queue and having processed at most the budget of events, for every routing policy.
\<close>

theorem run_always_finishes:
  assumes "run_ready s D H" "routing_policy select"
  shows "\<exists>st s'. run_sim select s = Some (st, s') \<and> eq_empty (sim_queue s')
    \<and> unat (rs_events_processed st) \<le> run_budget s \<and> fixed s' = fixed s"
  using run_sim_ok[OF assms] settled_counts(5) by (fastforce dest: settledD)

theorem run_always_finishes_witness:
  "\<exists>st s'. run_sim (ecmp_select 7) sample_sim = Some (st, s') \<and> eq_empty (sim_queue s')
    \<and> unat (rs_events_processed st) \<le> 434 \<and> fixed s' = fixed sample_sim"
  using run_always_finishes[OF sample_run_ready ecmp_policy.routing_policy_axioms] by (simp add: sample_budget)

text \<open>
  C2. In no state a run reaches does a step fail: while events are pending the next one is handled with no assertion violated, no index out of range and no division by zero, the clock does not go back, and the bound \<open>potential\<close> on the events still to come strictly decreases.
\<close>

theorem steps_never_fail:
  assumes "run_ready s D H" "routing_policy select" "reaches select s u" "\<not> eq_empty (sim_queue u)"
  shows "\<exists>v. run_step select u = Some v \<and> reaches select s v \<and> sim_now u \<le> sim_now v
    \<and> potential v < potential u"
  by (rule reach_progress[OF assms(3,1,2,4)])

theorem steps_never_fail_witness:
  "\<exists>u v. reaches static_first_select sample_sim u \<and> run_step static_first_select u = Some v
    \<and> reaches static_first_select sample_sim v \<and> sim_now u \<le> sim_now v \<and> potential v < potential u"
proof -
  obtain u where u: "begin_run sample_sim = Some u" "\<not> eq_empty (sim_queue u)" using sample_begin by blast
  have r: "reaches static_first_select sample_sim u" using reach_begin[OF u(1)] .
  show ?thesis
    using steps_never_fail[OF sample_run_ready static_policy.routing_policy_axioms r u(2)] r by blast
qed

text \<open>
  C3. In every state a run reaches, the packets of a flow that are in flight and those queued for retransmission together fit its window, the in-flight counter is the number of packets marked in flight, no packet is queued twice, and an acked packet is delivered and not in flight.
\<close>

theorem window_is_respected:
  assumes "run_ready s D H" "routing_policy select" "reaches select s u" "i < nflows s"
  shows "unat (tx_in_flight (sim_tx u ! i)) + length (retx u i) \<le> unat (tx_window (sim_tx u ! i))
    \<and> unat (tx_in_flight (sim_tx u ! i)) = card {idx. pst u i idx AND kInFlight \<noteq> 0}
    \<and> tx_next_seq (sim_tx u ! i) \<le> tx_packets_total (sim_tx u ! i) \<and> distinct (retx u i)
    \<and> (\<forall>idx. pst u i idx AND kAcked \<noteq> 0 \<longrightarrow>
         pst u i idx AND kDelivered \<noteq> 0 \<and> pst u i idx AND kInFlight = 0)"
  using reach_window[OF assms(3,1,2,4)] by auto

theorem window_is_respected_witness:
  "\<exists>u. reaches static_first_select sample_sim u \<and>
    (unat (tx_in_flight (sim_tx u ! 0)) + length (retx u 0) \<le> unat (tx_window (sim_tx u ! 0))
    \<and> unat (tx_in_flight (sim_tx u ! 0)) = card {idx. pst u 0 idx AND kInFlight \<noteq> 0}
    \<and> tx_next_seq (sim_tx u ! 0) \<le> tx_packets_total (sim_tx u ! 0) \<and> distinct (retx u 0)
    \<and> (\<forall>idx. pst u 0 idx AND kAcked \<noteq> 0 \<longrightarrow>
         pst u 0 idx AND kDelivered \<noteq> 0 \<and> pst u 0 idx AND kInFlight = 0))"
proof -
  obtain u where "begin_run sample_sim = Some u" using sample_begin by blast
  then have r: "reaches static_first_select sample_sim u" by (rule reach_begin)
  have "0 < nflows sample_sim" by (simp add: sample_sim_specs)
  then show ?thesis
    using window_is_respected[OF sample_run_ready static_policy.routing_policy_axioms r] r by blast
qed

text \<open>
  C4. In every state a run reaches, the bytes of each kind (data and acks apart) that were injected are those delivered, those dropped, and those sitting in queues, on transmitters and on wires.
\<close>

theorem bytes_are_conserved:
  assumes "run_ready s D H" "routing_policy select" "reaches select s u"
  shows "rs_bytes_injected (sim_stats u) = rs_bytes_delivered (sim_stats u) + rs_bytes_dropped (sim_stats u)
      + bytes_in Data (carried u)
    \<and> rs_ack_bytes_injected (sim_stats u) = rs_ack_bytes_delivered (sim_stats u) + rs_ack_bytes_dropped (sim_stats u)
      + bytes_in Ack (carried u)"
  using reach_conserved[OF assms(3,1,2), of Data] reach_conserved[OF assms(3,1,2), of Ack] by simp

theorem bytes_are_conserved_witness:
  "\<exists>u. reaches static_first_select sample_sim u \<and>
    (rs_bytes_injected (sim_stats u) = rs_bytes_delivered (sim_stats u) + rs_bytes_dropped (sim_stats u)
      + bytes_in Data (carried u)
    \<and> rs_ack_bytes_injected (sim_stats u) = rs_ack_bytes_delivered (sim_stats u) + rs_ack_bytes_dropped (sim_stats u)
      + bytes_in Ack (carried u))"
proof -
  obtain u where "begin_run sample_sim = Some u" using sample_begin by blast
  then have r: "reaches static_first_select sample_sim u" by (rule reach_begin)
  show ?thesis
    using bytes_are_conserved[OF sample_run_ready static_policy.routing_policy_axioms r] r by blast
qed

text \<open>
  C5. What a run returns balances: injected bytes are delivered or dropped, for data and for acks; the dropped bytes are those the ports counted; the retransmissions are those of the flows; and the flow counters are the numbers of complete, incomplete and failed results.
\<close>

theorem ledgers_balance:
  assumes "run_ready s D H" "routing_policy select" "run_sim select s = Some (st, s')"
  shows "rs_bytes_injected st = rs_bytes_delivered st + rs_bytes_dropped st
    \<and> rs_ack_bytes_injected st = rs_ack_bytes_delivered st + rs_ack_bytes_dropped st
    \<and> rs_bytes_dropped st + rs_ack_bytes_dropped st = sum_list (map port_bytes_dropped (fab_ports (sim_fabric s')))
    \<and> ucast (rs_packets_retransmitted st) = sum_list (map res_packets_retransmitted (sim_results s'))
    \<and> unat (rs_flows_complete st) = length (filter res_complete (sim_results s'))
    \<and> unat (rs_flows_incomplete st) = length (filter (\<lambda>r. \<not> res_complete r) (sim_results s'))
    \<and> unat (rs_flows_failed st) = length (filter res_failed (sim_results s'))"
proof -
  obtain u where u: "s' = end_run u" "st = sim_stats (end_run u)" "settled s u"
    by (rule run_sim_settled[OF assms])
  show ?thesis
    using settled_ledger[OF u(3), of Data] settled_ledger[OF u(3), of Ack] settled_counts[OF u(3)]
      settled_books[OF u(3)]
    by (simp add: u(1,2) retransmits_def port_drops_def)
qed

theorem ledgers_balance_witness:
  "\<exists>st s'. run_sim static_first_select sample_sim = Some (st, s')
    \<and> (rs_bytes_injected st = rs_bytes_delivered st + rs_bytes_dropped st
    \<and> rs_ack_bytes_injected st = rs_ack_bytes_delivered st + rs_ack_bytes_dropped st
    \<and> rs_bytes_dropped st + rs_ack_bytes_dropped st = sum_list (map port_bytes_dropped (fab_ports (sim_fabric s')))
    \<and> ucast (rs_packets_retransmitted st) = sum_list (map res_packets_retransmitted (sim_results s'))
    \<and> unat (rs_flows_complete st) = length (filter res_complete (sim_results s'))
    \<and> unat (rs_flows_incomplete st) = length (filter (\<lambda>r. \<not> res_complete r) (sim_results s'))
    \<and> unat (rs_flows_failed st) = length (filter res_failed (sim_results s')))"
  using ledgers_balance[OF sample_run_ready static_policy.routing_policy_axioms sample_end_run] sample_end_run by blast

text \<open>
  C6. A flow that a run reports complete got every packet exactly once into its counters: the bytes delivered are its size, the packets delivered its packet total, whatever was lost, retransmitted or delivered twice on the way; and it finished between its start and the end.
\<close>

theorem complete_flows_are_exact:
  assumes "run_ready s D H" "routing_policy select" "run_sim select s = Some (st, s')" "i < nflows s"
    and "res_complete (sim_results s' ! i)"
  shows "res_delivered_bytes (sim_results s' ! i) = fs_size_bytes (sim_specs s ! i)
    \<and> res_packets_delivered (sim_results s' ! i) = res_packets_total (sim_results s' ! i)
    \<and> res_start_ns (sim_results s' ! i) \<le> res_finish_ns (sim_results s' ! i)
    \<and> res_finish_ns (sim_results s' ! i) \<le> rs_virtual_end_ns st"
proof -
  obtain u where u: "s' = end_run u" "st = sim_stats (end_run u)" "settled s u"
    by (rule run_sim_settled[OF assms(1-3)])
  show ?thesis
    using settled_bytes[OF u(3) assms(4)] settled_clock(1)[OF u(3) assms(4)] settled_counts(4)[OF u(3)] assms(5)
    by (simp add: u(1,2))
qed

theorem complete_flows_are_exact_witness:
  "res_complete (sim_results sample_end ! 0) \<and>
   (res_delivered_bytes (sim_results sample_end ! 0) = fs_size_bytes (sim_specs sample_sim ! 0)
    \<and> res_packets_delivered (sim_results sample_end ! 0) = res_packets_total (sim_results sample_end ! 0)
    \<and> res_start_ns (sim_results sample_end ! 0) \<le> res_finish_ns (sim_results sample_end ! 0)
    \<and> res_finish_ns (sim_results sample_end ! 0) \<le> rs_virtual_end_ns (sim_stats sample_end))"
  using complete_flows_are_exact[OF sample_run_ready static_policy.routing_policy_axioms sample_end_run _ sample_complete(1)]
    sample_complete(1) by (simp add: sample_sim_specs)

text \<open>
  C7. When a run returns, a flow that is not complete has failed itself or waits on a flow that is not complete, and at the bottom of every such wait is a failed flow: a run in which no flow fails completes every flow.
\<close>

theorem only_failure_blocks:
  assumes "run_ready s D H" "routing_policy select" "run_sim select s = Some (st, s')" "i < nflows s"
    and "\<not> res_complete (sim_results s' ! i)"
  shows "(res_failed (sim_results s' ! i) \<or> id_valid (fs_depends_on (sim_specs s ! i))
      \<and> \<not> res_complete (sim_results s' ! id_index (fs_depends_on (sim_specs s ! i))))
    \<and> (\<exists>j \<le> i. res_failed (sim_results s' ! j) \<and> \<not> res_complete (sim_results s' ! j))"
proof -
  obtain u where u: "s' = end_run u" "st = sim_stats (end_run u)" "settled s u"
    by (rule run_sim_settled[OF assms(1-3)])
  show ?thesis
    using settled_flow[OF u(3) assms(4)] settled_blocked[OF u(3) assms(4)] assms(5) by (auto simp: u(1))
qed

theorem only_failure_blocks_witness:
  "\<not> res_complete (sim_results starved_end ! 1) \<and>
   (res_failed (sim_results starved_end ! 1) \<or> id_valid (fs_depends_on (sim_specs starved_sim ! 1))
      \<and> \<not> res_complete (sim_results starved_end ! id_index (fs_depends_on (sim_specs starved_sim ! 1))))
   \<and> (\<exists>j \<le> 1. res_failed (sim_results starved_end ! j) \<and> \<not> res_complete (sim_results starved_end ! j))"
  using only_failure_blocks[OF starved_run_ready static_policy.routing_policy_axioms starved_end_run _ starved_incomplete]
    starved_incomplete by (simp add: starved_specs)

text \<open>
  C8. The clock of an independent flow starts at its specified start, the clock of a dependent flow at the moment the flow it depends on finished, so chained completion times add up exactly.
\<close>

theorem completion_clocks:
  assumes "run_ready s D H" "routing_policy select" "run_sim select s = Some (st, s')" "i < nflows s"
  shows "if id_valid (fs_depends_on (sim_specs s ! i))
    then res_complete (sim_results s' ! id_index (fs_depends_on (sim_specs s ! i))) \<longrightarrow>
      res_start_ns (sim_results s' ! i) = res_finish_ns (sim_results s' ! id_index (fs_depends_on (sim_specs s ! i)))
    else res_start_ns (sim_results s' ! i) = fs_start_ns (sim_specs s ! i)"
proof -
  obtain u where u: "s' = end_run u" "st = sim_stats (end_run u)" "settled s u"
    by (rule run_sim_settled[OF assms(1-3)])
  show ?thesis using settled_clock(2,3)[OF u(3) assms(4)] by (simp add: u(1))
qed

theorem completion_clocks_witness:
  "res_start_ns (sim_results sample_end ! 0) = 0 \<and> res_complete (sim_results sample_end ! 0)
    \<and> res_start_ns (sim_results sample_end ! 1) = res_finish_ns (sim_results sample_end ! 0)"
  using completion_clocks[OF sample_run_ready static_policy.routing_policy_axioms sample_end_run, of 0]
    completion_clocks[OF sample_run_ready static_policy.routing_policy_axioms sample_end_run, of 1] sample_complete(1)
  by (simp add: sample_sim_specs id_valid_def id_invalid_def id_index_def kInvalidValue_def)

text \<open>
  C9. Whatever a run does, however packets queue, are lost and are sent again, a flow that completes cannot finish before the first instant its pacing lets packet x leave plus one shortest journey, every link of which costs that packet its serialisation and the propagation delay.
\<close>

theorem no_flow_beats_the_wire:
  assumes "run_ready s D H" "routing_policy select" "run_sim select s = Some (st, s')" "i < nflows s"
    and "res_complete (sim_results s' ! i)" "flow_period s i = Some p" "unat x < packets_of (sim_specs s ! i)"
    and "hop_cost (frozen s) (payload (sim_specs s ! i) x) w"
    and "min_hops (links (frozen s)) (id_index (fs_src (sim_specs s ! i))) (id_index (fs_dst (sim_specs s ! i))) n"
  shows "unat (res_start_ns (sim_results s' ! i)) + unat x * unat p + n * w \<le> unat (res_finish_ns (sim_results s' ! i))
    \<and> unat x * unat p + n * w \<le> unat (fct_ns (sim_results s' ! i))"
proof -
  have "fabric_ok (frozen s)" using assms(1) setup_okD(1) by (auto simp: run_ready_def fabric_ready_def)
  from complete_flow_time[OF assms(1-8) min_hops_swap[OF fabric_okD(1)[OF this] assms(9)]] show ?thesis by blast
qed

theorem no_flow_beats_the_wire_witness:
  "unat (res_start_ns (sim_results sample_end ! 0)) + 3510 \<le> unat (res_finish_ns (sim_results sample_end ! 0))
    \<and> 3510 \<le> unat (fct_ns (sim_results sample_end ! 0))"
  using no_flow_beats_the_wire[OF sample_run_ready static_policy.routing_policy_axioms sample_end_run, of 0 1500 1 1005 2]
    sample_complete(1) sample_last_packet sample_hop_cost sample_distance(2)
  by (simp add: sample_sim_specs sample_packets sample_sim_frozen id_index_def)

text \<open>
  C10. The timetable of a flow that has the network to itself is exact. When the flow is the only one and made of whole packets (each carries a full MTU, the last one too), all links are alike and have room for a packet, the pacing period is positive and no shorter than the serialisation of a packet or of an ack, the timeout exceeds the round trip and the window covers the round trip (or the whole flow), then under every routing policy the run returns, the flow completes and has not failed, and its completion time is one pacing period for every packet but the last and then the unobstructed journey of the last: a serialisation and a propagation delay on each link.
\<close>

theorem lone_flow_keeps_time:
  assumes "run_ready s D H" "routing_policy select" "lone J s" "flow_period s 0 = Some p" "unat p = jn_period J"
  shows "\<exists>st s'. run_sim select s = Some (st, s') \<and> res_complete (sim_results s' ! 0) \<and> \<not> res_failed (sim_results s' ! 0)
    \<and> unat (fct_ns (sim_results s' ! 0)) = (packets_of (sim_specs s ! 0) - 1) * jn_period J + jn_hops J * (jn_ser J + jn_prop J)"
proof -
  obtain st s' where run: "run_sim select s = Some (st, s')" using run_sim_ok[OF assms(1,2)] by blast
  from lone_flow_exact[OF assms(1,2) run assms(3-5)] run show ?thesis by (simp add: data_hop_def)
qed

theorem lone_flow_keeps_time_witness:
  "\<exists>sc st s'. build_smoke default_smoke = Some sc \<and> run_sim static_first_select (ss_sim sc) = Some (st, s')
    \<and> res_complete (sim_results s' ! 0) \<and> \<not> res_failed (sim_results s' ! 0) \<and> unat (fct_ns (sim_results s' ! 0)) = 999 * 120 + 4 * (120 + 100)"
proof -
  obtain sc where sc: "build_smoke default_smoke = Some sc" "ss_analytical_exact sc" "ss_hops sc = 4"
    using sample_smoke_exact by blast
  have built: "smoke_built default_smoke sc" "run_ready (ss_sim sc) 5242000 0"
    using build_smoke_ok[OF sample_smoke_fits] sc(1) by auto
  obtain ack where "lone (smoke_journey default_smoke sc 120 ack) (ss_sim sc)" "flow_period (ss_sim sc) 0 = Some 120"
    using smoke_lone[OF sample_smoke_fits sample_smoke_ordinary sc(1,2) built] by (auto simp: sample_smoke_link sample_smoke_times)
  from lone_flow_keeps_time[OF built(2) static_policy.routing_policy_axioms this] sc(1) show ?thesis
    by (auto simp: smoke_journey_def sc(3) sample_smoke_link sample_smoke_flow[OF built(1)])
qed

text \<open>
  C11. The smoke scenario is built for every configuration that fits, with the length of a shortest path as its hop count; and when it declares its closed form exact, it is: for every routing algorithm and every hash seed the run delivers the flow, nothing fails, and the measured completion time equals the closed form to the nanosecond. Configurations are ordinary when an ack is no larger than a data packet (with a smaller MTU the flag can be wrong) and queues and delays are below the stated sizes.
\<close>

theorem smoke_closed_form_is_exact:
  assumes "smoke_fits cfg D" "smoke_ordinary cfg"
  shows "\<exists>sc. build_smoke cfg = Some sc
    \<and> min_hops (links (frozen (ss_sim sc))) (id_index (fs_src (sim_specs (ss_sim sc) ! 0)))
        (id_index (fs_dst (sim_specs (ss_sim sc) ! 0))) (unat (ss_hops sc))
    \<and> (ss_analytical_exact sc \<longrightarrow> (\<forall>algo seed. \<exists>st s'. run_with_routing (ss_sim sc) algo seed = Some (st, s')
        \<and> res_complete (sim_results s' ! 0) \<and> \<not> res_failed (sim_results s' ! 0)
        \<and> fct_ns (sim_results s' ! 0) = ss_analytical_ns sc))"
proof -
  obtain sc where sc: "build_smoke cfg = Some sc" "smoke_built cfg sc" using build_smoke_ok[OF assms(1)] by blast
  then show ?thesis using smoke_runs_exactly[OF assms sc(1)] by (auto simp: smoke_built_def Let_def)
qed

theorem smoke_closed_form_is_exact_witness:
  "\<exists>sc. build_smoke default_smoke = Some sc \<and> ss_analytical_exact sc
    \<and> (\<forall>algo seed. \<exists>st s'. run_with_routing (ss_sim sc) algo seed = Some (st, s')
        \<and> res_complete (sim_results s' ! 0) \<and> \<not> res_failed (sim_results s' ! 0) \<and> fct_ns (sim_results s' ! 0) = 120760)"
  using smoke_closed_form_is_exact[OF sample_smoke_fits sample_smoke_ordinary] sample_smoke_exact by auto

text \<open>
  C12. In every state a run reaches, no port queue holds more than its capacity, a port has exactly one completion pending when it is busy and none when it is idle, and an idle port has nothing queued.
\<close>

theorem ports_never_overflow:
  assumes "run_ready s D H" "routing_policy select" "reaches select s u" "i < port_count (sim_fabric u)"
    and "p = fab_ports (sim_fabric u) ! i"
  shows "length (ring_list (port_queue p)) \<le> ring_capacity (port_queue p)
    \<and> count (tx_pending (events u)) i = of_bool (port_busy p)
    \<and> (ring_list (port_queue p) = [] \<or> port_busy p)"
  using reach_ports[OF assms(3,1,2,4)] by (auto simp: assms(5))

theorem ports_never_overflow_witness:
  "\<exists>u p. reaches static_first_select sample_sim u \<and> p = fab_ports (sim_fabric u) ! 0
    \<and> (length (ring_list (port_queue p)) \<le> ring_capacity (port_queue p)
    \<and> count (tx_pending (events u)) 0 = of_bool (port_busy p)
    \<and> (ring_list (port_queue p) = [] \<or> port_busy p))"
proof -
  obtain u where u: "begin_run sample_sim = Some u" using sample_begin by blast
  then have r: "reaches static_first_select sample_sim u" by (rule reach_begin)
  have "frozen u = sample_fabric"
    using setupD(1)[OF begin_run_inv(2)[OF sample_run_ready u]] sample_sim_frozen by simp
  then have "port_count (frozen u) = 4" by (simp add: sample_counts)
  then have "0 < port_count (sim_fabric u)" by simp
  then show ?thesis
    using ports_never_overflow[OF sample_run_ready static_policy.routing_policy_axioms r] r by blast
qed

text \<open>
  C13. \<open>add_flow\<close> accepts exactly the specifications its assertions describe: those it adds under the next flow id, keeping the flows, routes and flat arrays ready to run, with the packet count the rounded-up quotient of size and MTU; every other specification is rejected. The flow is assumed to fit the 32-bit indices of the code (\<open>spec_fits\<close>).
\<close>

theorem add_flow_accepts_exactly:
  assumes "setup_ok s" "spec_fits s spec"
  shows "if spec_accepted s spec
    then \<exists>s'. add_flow spec s = Some (id_at (nflows s), s') \<and> setup_ok s' \<and> flow_added s spec s'
    else add_flow spec s = None"
  using add_flow_ok[OF assms(1) _ assms(2)] add_flow_rejects by simp

theorem add_flow_accepts_exactly_witness:
  "\<exists>s'. add_flow (sample_spec 0) sample_blank = Some (id_at (nflows sample_blank), s') \<and> setup_ok s'
     \<and> flow_added sample_blank (sample_spec 0) s'"
  using add_flow_accepts_exactly[OF sample_blank_ok sample_one_accepts(2)] sample_one_accepts(1) by simp

text \<open>
  C14. The dependency arrays that \<open>build_dependents\<close> lays out never run out of bounds and list, for each flow, exactly the flows that depend on it, each once.
\<close>

theorem dependents_are_indexed:
  assumes "depends_earlier (sim_specs s)" "nflows s < 2 ^ 32"
  shows "\<exists>off deps. build_dependents s = Some (s\<lparr>sim_dependents_offset := off, sim_dependents := deps\<rparr>)
    \<and> (\<forall>i < nflows s. distinct (dependents_of (s\<lparr>sim_dependents_offset := off, sim_dependents := deps\<rparr>) i)
      \<and> id_index ` set (dependents_of (s\<lparr>sim_dependents_offset := off, sim_dependents := deps\<rparr>) i)
        = {d. d < nflows s \<and> id_valid (fs_depends_on (sim_specs s ! d)) \<and> id_index (fs_depends_on (sim_specs s ! d)) = i})"
proof -
  obtain off deps where "build_dependents s = Some (s\<lparr>sim_dependents_offset := off, sim_dependents := deps\<rparr>)"
    "dependents_ok (s\<lparr>sim_dependents_offset := off, sim_dependents := deps\<rparr>)"
    using build_dependents_ok[OF assms] by blast
  then show ?thesis by (intro exI[of _ off] exI[of _ deps]) (simp add: dependents_ok_def)
qed

theorem dependents_are_indexed_witness:
  "\<exists>off deps. build_dependents sample_sim = Some (sample_sim\<lparr>sim_dependents_offset := off, sim_dependents := deps\<rparr>)
    \<and> (\<forall>i < nflows sample_sim. distinct (dependents_of (sample_sim\<lparr>sim_dependents_offset := off, sim_dependents := deps\<rparr>) i)
      \<and> id_index ` set (dependents_of (sample_sim\<lparr>sim_dependents_offset := off, sim_dependents := deps\<rparr>) i)
        = {d. d < nflows sample_sim \<and> id_valid (fs_depends_on (sim_specs sample_sim ! d))
             \<and> id_index (fs_depends_on (sim_specs sample_sim ! d)) = i})"
  by (rule dependents_are_indexed) (auto simp: depends_earlier_def sample_sim_specs less_Suc_eq
      id_valid_def id_invalid_def id_index_def kInvalidValue_def)

text \<open>
  C15. Changing one of the fields of one flow's result that a run writes (start and finish time, delivered bytes, packets delivered, dropped and retransmitted, complete, failed) always changes the digest of the run; the remaining field, the packet total, is not read by the digest, which is the same for every value of it.
\<close>

theorem digest_detects_changes:
  assumes "i < length (sim_results s)" "r = sim_results s ! i"
    and "r' \<in> {r\<lparr>res_start_ns := t\<rparr>, r\<lparr>res_finish_ns := t\<rparr>, r\<lparr>res_delivered_bytes := t\<rparr>,
      r\<lparr>res_packets_delivered := n\<rparr>, r\<lparr>res_packets_dropped := n\<rparr>, r\<lparr>res_packets_retransmitted := n\<rparr>,
      r\<lparr>res_complete := c\<rparr>, r\<lparr>res_failed := c\<rparr>}"
  shows "(result_digest (s\<lparr>sim_results := (sim_results s)[i := r']\<rparr>) = result_digest s \<longleftrightarrow> r' = r)
    \<and> result_digest (s\<lparr>sim_results := (sim_results s)[i := r\<lparr>res_packets_total := n\<rparr>]\<rparr>) = result_digest s"
proof
  show "result_digest (s\<lparr>sim_results := (sim_results s)[i := r']\<rparr>) = result_digest s \<longleftrightarrow> r' = r"
    using digest_field_change[OF assms(1)] assms(2,3) unfolding field_changes_def by metis
  show "result_digest (s\<lparr>sim_results := (sim_results s)[i := r\<lparr>res_packets_total := n\<rparr>]\<rparr>) = result_digest s"
    using digest_skips_total[OF assms(1), where r = r and m = n] assms(2) by simp
qed

theorem digest_detects_changes_witness:
  "result_digest (sample_end\<lparr>sim_results := (sim_results sample_end)[0 := (sim_results sample_end ! 0)\<lparr>res_finish_ns := 4011\<rparr>]\<rparr>)
    \<noteq> result_digest sample_end
  \<and> result_digest (sample_end\<lparr>sim_results := (sim_results sample_end)[0 := (sim_results sample_end ! 0)\<lparr>res_packets_total := 7\<rparr>]\<rparr>)
    = result_digest sample_end"
proof -
  let ?r = "sim_results sample_end ! 0"
  have l: "0 < length (sim_results sample_end)" using arg_cong[OF sample_results, of length] by simp
  have "res_finish_ns ?r = 4010"
    using arg_cong[OF sample_results, of "\<lambda>xs. fst (snd (xs ! 0))"] l by simp
  then have "res_finish_ns (?r\<lparr>res_finish_ns := 4011\<rparr>) \<noteq> res_finish_ns ?r" by simp
  then have ne: "?r\<lparr>res_finish_ns := 4011\<rparr> \<noteq> ?r" by metis
  have "?r\<lparr>res_finish_ns := 4011\<rparr> \<in> {?r\<lparr>res_start_ns := 4011\<rparr>, ?r\<lparr>res_finish_ns := 4011\<rparr>, ?r\<lparr>res_delivered_bytes := 4011\<rparr>,
      ?r\<lparr>res_packets_delivered := 7\<rparr>, ?r\<lparr>res_packets_dropped := 7\<rparr>, ?r\<lparr>res_packets_retransmitted := 7\<rparr>,
      ?r\<lparr>res_complete := False\<rparr>, ?r\<lparr>res_failed := False\<rparr>}" by blast
  from digest_detects_changes[OF l refl this] ne show ?thesis by (simp only: simp_thms)
qed

text \<open>
  C16. The permutation command, from its options to its exit status: for options that fit, topology, routes, workload and transport are built and the run returns, with no assertion failing and nothing undefined on the way. The summary counts the flows the run counted, the command succeeds exactly when every flow completed, and otherwise some flow gave up.
\<close>

theorem permutation_command_completes:
  assumes "permutation_fits (permutation_config opt) m n D"
  shows "\<exists>rep fct. run_permutation opt = Some (rep, fct) \<and> unat (su_flows_total fct) = n
    \<and> su_flows_complete fct = rs_flows_complete (rp_stats rep)
    \<and> (rp_success rep \<longleftrightarrow> unat (rs_flows_complete (rp_stats rep)) = n)
    \<and> (\<not> rp_success rep \<longrightarrow> 0 < rs_flows_failed (rp_stats rep))"
  by (rule run_permutation_ok[OF assms])

theorem permutation_command_completes_witness:
  "\<exists>rep fct. run_permutation sample_options = Some (rep, fct) \<and> unat (su_flows_total fct) = 2
    \<and> su_flows_complete fct = rs_flows_complete (rp_stats rep)
    \<and> (rp_success rep \<longleftrightarrow> unat (rs_flows_complete (rp_stats rep)) = 2)
    \<and> (\<not> rp_success rep \<longrightarrow> 0 < rs_flows_failed (rp_stats rep))"
  by (rule permutation_command_completes[OF sample_permutation_fits])

text \<open>
  C17. The all-reduce command returns for options that fit: it succeeds only when every send of every step completed, it reports a time of zero (by which the code says that the collective did not finish) and a flow that gave up when one did not, and the time it reports is never past the end of the run.
\<close>

theorem all_reduce_command_completes:
  assumes "all_reduce_fits (all_reduce_config opt) m N D"
  shows "\<exists>rep measured. run_all_reduce opt = Some (rep, measured)
    \<and> (rp_success rep \<longrightarrow> unat (rs_flows_complete (rp_stats rep)) = 2 * (N - 1) * N)
    \<and> (unat (rs_flows_complete (rp_stats rep)) \<noteq> 2 * (N - 1) * N \<longrightarrow> measured = 0 \<and> 0 < rs_flows_failed (rp_stats rep))
    \<and> measured \<le> rs_virtual_end_ns (rp_stats rep)"
  by (rule run_all_reduce_ok[OF assms])

theorem all_reduce_command_completes_witness:
  "\<exists>rep measured. run_all_reduce sample_options = Some (rep, measured)
    \<and> (rp_success rep \<longrightarrow> unat (rs_flows_complete (rp_stats rep)) = 4)
    \<and> (unat (rs_flows_complete (rp_stats rep)) \<noteq> 4 \<longrightarrow> measured = 0 \<and> 0 < rs_flows_failed (rp_stats rep))
    \<and> measured \<le> rs_virtual_end_ns (rp_stats rep)"
proof -
  have "2 * (2 - 1) * 2 = (4 :: nat)" by simp
  then show ?thesis using all_reduce_command_completes[OF sample_all_reduce_fits] by (simp only:)
qed

text \<open>
  C18. The best case the permutation command prints is a true lower bound when flows are made of whole packets: if any flow completes, even the fastest takes at least that long.
\<close>

theorem permutation_bound_holds:
  assumes "permutation_fits (permutation_config opt) m n D" "op_flow_bytes opt mod ucast (op_mtu_bytes opt) = 0"
  shows "\<exists>sc rep fct. build_permutation (permutation_config opt) = Some sc \<and> run_permutation opt = Some (rep, fct)
    \<and> (su_flows_complete fct = 0 \<or> psc_best_case_ns sc \<le> su_min_ns fct)"
  by (rule permutation_command_bound[OF assms])

theorem permutation_bound_holds_witness:
  "\<exists>sc rep fct. build_permutation (permutation_config sample_options) = Some sc \<and> run_permutation sample_options = Some (rep, fct)
    \<and> (su_flows_complete fct = 0 \<or> psc_best_case_ns sc \<le> su_min_ns fct)"
  by (rule permutation_bound_holds[OF sample_permutation_fits]) (simp add: sample_options_def default_options_def)

text \<open>
  C19. The analytical time of the all-reduce command is a true lower bound when every step crosses the same number of links and chunks are made of whole packets: the steps depend on each other around the ring, so no run that completes (reports a time other than zero) takes less than the sum of their least times.
\<close>

theorem all_reduce_bound_holds:
  assumes "all_reduce_fits (all_reduce_config opt) m N D" "build_all_reduce (all_reduce_config opt) = Some sc"
    and "asc_uniform_hops sc" "asc_chunk_bytes sc mod ucast (op_mtu_bytes opt) = 0"
  shows "\<exists>rep measured. run_all_reduce opt = Some (rep, measured) \<and> (measured = 0 \<or> asc_analytical_ns sc \<le> measured)"
  by (rule all_reduce_command_bound[OF assms])

theorem all_reduce_bound_holds_witness:
  "\<exists>sc rep measured. build_all_reduce (all_reduce_config sample_options) = Some sc
    \<and> run_all_reduce sample_options = Some (rep, measured) \<and> (measured = 0 \<or> asc_analytical_ns sc \<le> measured)"
proof -
  from sample_ring obtain sc where sc: "build_all_reduce (all_reduce_config sample_options) = Some sc" "asc_uniform_hops sc"
    "asc_chunk_bytes sc mod ucast (op_mtu_bytes sample_options) = 0"
    by (elim exE conjE)
  from all_reduce_bound_holds[OF sample_all_reduce_fits sc]
  obtain rep measured where "run_all_reduce sample_options = Some (rep, measured)" "measured = 0 \<or> asc_analytical_ns sc \<le> measured"
    by (elim exE conjE)
  then show ?thesis using sc(1) by (intro exI conjI)
qed

text \<open>
  C20. The permutation workload returns one flow per host, and its destinations are one single cycle through all the hosts: every host sends once, receives once, never to itself, whatever the draws are; ports and start times are in their ranges. The streams only have to yield enough draws that the rejection loops end.
\<close>

theorem permutation_is_one_cycle:
  assumes "n = host_count f" "2 \<le> n" "n < 2 ^ 32" "0 < pp_load_permille params" "pp_load_permille params \<le> 1000"
    and "permutation_draws n params"
  shows "\<exists>flows \<pi>. make_permutation f params = Some flows \<and> length flows = n \<and> bij_betw \<pi> {..<n} {..<n}
    \<and> (\<forall>x < n. \<forall>y < n. (x, y) \<in> {(x, \<pi> x) |x. x < n}\<^sup>*)
    \<and> (\<forall>h < n. \<pi> h \<noteq> h \<and> fs_src (flows ! h) = fab_hosts f ! h \<and> fs_dst (flows ! h) = fab_hosts f ! \<pi> h
        \<and> 1024 \<le> fs_src_port (flows ! h) \<and> fs_src_port (flows ! h) < 64512
        \<and> fs_start_ns (flows ! h) \<le> pp_max_start_jitter_ns params)"
proof -
  obtain flows \<pi> where r: "make_permutation f params = Some flows" "length flows = n" "single_cycle \<pi> n"
    "\<forall>h < n. permutation_spec f params h (\<pi> h) (flows ! h)" using make_permutation_ok[OF assms] by blast
  then have "\<forall>h < n. \<pi> h \<noteq> h \<and> fs_src (flows ! h) = fab_hosts f ! h \<and> fs_dst (flows ! h) = fab_hosts f ! \<pi> h
        \<and> 1024 \<le> fs_src_port (flows ! h) \<and> fs_src_port (flows ! h) < 64512
        \<and> fs_start_ns (flows ! h) \<le> pp_max_start_jitter_ns params"
    using single_cycle_deranged[OF r(3) assms(2)] by (fastforce simp: permutation_spec_def default_flow_spec_def)
  then show ?thesis using r(1-3) unfolding single_cycle_def by blast
qed

theorem permutation_is_one_cycle_witness:
  "\<exists>flows \<pi>. make_permutation sample_fabric default_permutation = Some flows \<and> length flows = 2 \<and> bij_betw \<pi> {..<2} {..<2}
    \<and> (\<forall>h < 2. \<pi> h \<noteq> h \<and> fs_src (flows ! h) = fab_hosts sample_fabric ! h \<and> fs_dst (flows ! h) = fab_hosts sample_fabric ! \<pi> h)"
proof -
  have "2 = host_count sample_fabric" "permutation_draws 2 default_permutation"
    using sample_permutation_draws sample_port_draws
    by (simp_all add: host_count_def sample_fabric_def permutation_draws_def default_permutation_def)
  from permutation_is_one_cycle[OF this(1) _ _ _ _ this(2)] show ?thesis by (fastforce simp: default_permutation_def)
qed

text \<open>
  C21. The ring all-reduce has its \<open>2 (N - 1)\<close> steps of \<open>N\<close> sends of one chunk each; the sends of the first step are free, and every later send waits for exactly one flow, an earlier one of the step before, which is the one that delivers to the sender.
\<close>

theorem ring_waits_for_its_input:
  assumes "ring_fits f p m N" "yields (2 ^ 32) N (stream_new (ap_seed p) kStreamPorts)"
  shows "\<exists>ar. make_ring_all_reduce f p = Some ar \<and> length (ar_flows ar) = 2 * (N - 1) * N
    \<and> unat (ar_chunk_bytes ar) = unat (ap_buffer_bytes p) div N
    \<and> (\<forall>s < 2 * (N - 1). \<forall>r < N. fs_size_bytes (ar_flows ar ! (s * N + r)) = ar_chunk_bytes ar
        \<and> (if s = 0 then fs_depends_on (ar_flows ar ! (s * N + r)) = id_invalid
           else \<exists>d. fs_depends_on (ar_flows ar ! (s * N + r)) = id_at d \<and> (s - 1) * N \<le> d \<and> d < s * N
             \<and> fs_dst (ar_flows ar ! d) = fs_src (ar_flows ar ! (s * N + r))))"
proof -
  obtain ar ports where ar: "make_ring_all_reduce f p = Some ar" "ring_built f p m N ports ar"
    using make_ring_all_reduce_ok[OF assms] by blast
  have N: "2 \<le> N" using assms(1) by (simp add: ring_fits_def)
  have spec: "ar_flows ar ! (s * N + r) = ring_spec f p (ar_chunk_bytes ar) (ring_host (ap_placement p) m) ports N s r"
    if "s < 2 * (N - 1)" "r < N" for s r using ar(2) that unfolding ring_built_def by blast
  have "fs_size_bytes (ar_flows ar ! (s * N + r)) = ar_chunk_bytes ar
        \<and> (if s = 0 then fs_depends_on (ar_flows ar ! (s * N + r)) = id_invalid
           else \<exists>d. fs_depends_on (ar_flows ar ! (s * N + r)) = id_at d \<and> (s - 1) * N \<le> d \<and> d < s * N
             \<and> fs_dst (ar_flows ar ! d) = fs_src (ar_flows ar ! (s * N + r)))" if sr: "s < 2 * (N - 1)" "r < N" for s r
    using spec[OF sr] ring_dependency[OF ar(2) N _ sr refl]
    by (cases "s = 0") (auto simp: ring_spec_def default_flow_spec_def simp del: fabric_simps)
  moreover have "length (ar_flows ar) = 2 * (N - 1) * N" "unat (ar_chunk_bytes ar) = unat (ap_buffer_bytes p) div N"
    using ar(2) unfolding ring_built_def by blast+
  ultimately show ?thesis using ar(1) by blast
qed

theorem ring_waits_for_its_input_witness:
  "\<exists>ar d. make_ring_all_reduce sample_fabric (default_all_reduce\<lparr>ap_placement := Sequential\<rparr>) = Some ar
    \<and> length (ar_flows ar) = 4 \<and> fs_depends_on (ar_flows ar ! 2) = id_at d \<and> d < 2
    \<and> fs_dst (ar_flows ar ! d) = fs_src (ar_flows ar ! 2)"
proof -
  let ?p = "default_all_reduce\<lparr>ap_placement := Sequential\<rparr>"
  have "ring_fits sample_fabric ?p 0 2" "yields (2 ^ 32) 2 (stream_new (ap_seed ?p) kStreamPorts)"
    using sample_port_draws
    by (simp_all add: ring_fits_def ring_ranks_def host_count_def sample_fabric_def placement_fits_def default_all_reduce_def)
  from ring_waits_for_its_input[OF this] obtain ar where ar: "make_ring_all_reduce sample_fabric ?p = Some ar"
    "length (ar_flows ar) = 2 * (2 - 1) * 2"
    and deps: "\<forall>s < 2 * (2 - 1). \<forall>r < 2. if s = 0 then fs_depends_on (ar_flows ar ! (s * 2 + r)) = id_invalid
       else \<exists>d. fs_depends_on (ar_flows ar ! (s * 2 + r)) = id_at d \<and> (s - 1) * 2 \<le> d \<and> d < s * 2
         \<and> fs_dst (ar_flows ar ! d) = fs_src (ar_flows ar ! (s * 2 + r))" by blast
  show ?thesis using ar deps[rule_format, of 1 0] by auto
qed

text \<open>
  C22. Placed round robin over the pods, the ranks are a permutation of all the hosts of the fat-tree and every hop of the ring, the closing one included, crosses pods: six links each.
\<close>

theorem pods_placement_crosses_pods:
  assumes "placement_fits f p m N" "ap_placement p = RoundRobinPods"
  shows "\<exists>hosts. place_ranks f p (of_nat N) = Some hosts \<and> length hosts = N \<and> unat ` set hosts = {..<N}
    \<and> (\<forall>r < N. fat_tree_hops (ap_fat_tree_k p) (hosts ! r) (hosts ! ((r + 1) mod N)) = kFatTreeCrossPodHops)"
proof -
  have F: "arity (ap_fat_tree_k p) m" "N = 2 * m * m * m" "N = host_count f"
    using assms by (simp_all add: placement_fits_def)
  have small: "N < 2 ^ 32" using cube_bounds(2)[of m] F(1,2) by (simp add: arity_def)
  let ?\<sigma> = "ring_host RoundRobinPods m" and ?hosts = "map (\<lambda>r. of_nat (ring_host RoundRobinPods m r) :: u32) [0..<N]"
  have less: "?\<sigma> r < N" if "r < N" for r using ring_host_less[OF assms(1) that] assms(2) F(3) by simp
  have inj: "inj_on ?\<sigma> {..<N}" using ring_host_inj[OF assms(1)] assms(2) by simp
  have u: "unat (of_nat (?\<sigma> r) :: u32) = ?\<sigma> r" if "r < N" for r
    using less[OF that] small by (intro unat_of_nat_small) simp
  have "unat ` set ?hosts = ?\<sigma> ` {..<N}" using u by (auto simp: image_image atLeast0LessThan intro!: image_cong simp del: ring_host.simps)
  also have "\<dots> = {..<N}" using less by (intro endo_inj_surj[OF _ _ inj]) auto
  finally have "unat ` set ?hosts = {..<N}" .
  moreover have "fat_tree_hops (ap_fat_tree_k p) (?hosts ! r) (?hosts ! ((r + 1) mod N)) = kFatTreeCrossPodHops" if r: "r < N" for r
  proof -
    have "(r + 1) mod N < N" using r by simp
    then have "?hosts ! r = of_nat (?\<sigma> r)" "?hosts ! ((r + 1) mod N) = of_nat (?\<sigma> ((r + 1) mod N))"
      using r by (simp_all del: ring_host.simps)
    then show ?thesis using ring_hops_round_robin[OF F(1) r F(2)] by (simp add: ring_hops_def kFatTreeCrossPodHops_def del: ring_host.simps)
  qed
  ultimately show ?thesis using place_ranks_ok[OF assms(1) small] assms(2)
    by (intro exI[of _ ?hosts]) (simp del: ring_host.simps)
qed

theorem pods_placement_crosses_pods_witness:
  "\<exists>hosts. place_ranks sample_fabric (default_all_reduce\<lparr>ap_fat_tree_k := 2\<rparr>) 2 = Some hosts \<and> length hosts = 2
    \<and> fat_tree_hops 2 (hosts ! 1) (hosts ! 0) = kFatTreeCrossPodHops"
proof -
  let ?p = "default_all_reduce\<lparr>ap_fat_tree_k := 2\<rparr>"
  have "placement_fits sample_fabric ?p 1 2" "ap_placement ?p = RoundRobinPods"
    by (simp_all add: placement_fits_def default_all_reduce_def arity_def host_count_def sample_fabric_def)
  from pods_placement_crosses_pods[OF this] obtain hosts where h: "place_ranks sample_fabric ?p 2 = Some hosts" "length hosts = 2"
    "\<forall>r < 2. fat_tree_hops (ap_fat_tree_k ?p) (hosts ! r) (hosts ! ((r + 1) mod 2)) = kFatTreeCrossPodHops" by auto
  then have "fat_tree_hops 2 (hosts ! 1) (hosts ! 0) = kFatTreeCrossPodHops" using h(3)[rule_format, of 1] by simp
  then show ?thesis using h by blast
qed

text \<open>
  C23. The bounded draw is the first output of its stream that is not below \<open>2^64 mod n\<close>, reduced modulo \<open>n\<close>, and leaves the stream right after it; it does not return exactly when no output of the stream is accepted.
\<close>

theorem bounded_draw_is_first_accepted:
  assumes "1 < n"
  shows "below64 n g = (if \<exists>i. rejected_below n \<le> draw g i
    then (let k = LEAST i. rejected_below n \<le> draw g i in Some (draw g k mod n, stream_at (Suc k) g)) else None)
    \<and> unat (rejected_below n) = 2 ^ 64 mod unat n"
  using below64_eq[OF assms] rejected_below_nat[of n] assms by (simp add: word_less_nat_alt)

theorem bounded_draw_is_first_accepted_witness:
  "below64 2 (stream_new 0 kStreamTenant) = (let k = LEAST i. rejected_below 2 \<le> draw (stream_new 0 kStreamTenant) i in
     Some (draw (stream_new 0 kStreamTenant) k mod 2, stream_at (Suc k) (stream_new 0 kStreamTenant)))"
proof -
  have "unat (rejected_below 2) = 0" using rejected_below_nat[of 2] by simp
  then have "rejected_below 2 \<le> draw (stream_new 0 kStreamTenant) 0" by (simp add: word_le_nat_alt)
  then show ?thesis using bounded_draw_is_first_accepted[of 2 "stream_new 0 kStreamTenant"] by auto
qed

text \<open>
  C24. The bounded draw returns \<open>k\<close> exactly when, of the outputs of its stream, the first that belongs to any value belongs to \<open>k\<close>, and leaves the stream right after that output; and the outputs that belong to \<open>k\<close> are exactly \<open>2^64 div n\<close> of the 64-bit words, the same number for every \<open>k\<close> below \<open>n\<close>: on uniform outputs no value is more likely than another.
\<close>

theorem bounded_draw_is_unbiased:
  assumes "1 < n" "k < n"
  shows "(below64 n g = Some (k, g') \<longleftrightarrow> (\<exists>j. g' = stream_at (Suc j) g \<and> draw g j \<in> outputs_for n k
      \<and> (\<forall>i<j. \<forall>v. draw g i \<notin> outputs_for n v)))
    \<and> card (outputs_for n k) = 2 ^ 64 div unat n"
  using below64_class[OF assms(1)] outputs_for_evenly[OF assms] by blast

theorem bounded_draw_is_unbiased_witness:
  "below64 2 (stream_new 0 kStreamTenant) = Some (draw (stream_new 0 kStreamTenant) 0 mod 2, stream_at 1 (stream_new 0 kStreamTenant))
    \<and> card (outputs_for 2 (draw (stream_new 0 kStreamTenant) 0 mod 2)) = 2 ^ 63"
proof -
  let ?g = "stream_new 0 kStreamTenant"
  have k: "draw ?g 0 mod 2 < 2" by (rule word_mod_less_divisor) simp
  have "draw ?g 0 \<in> outputs_for 2 (draw ?g 0 mod 2)" by (simp add: outputs_for_def)
  then have "\<exists>j. stream_at 1 ?g = stream_at (Suc j) ?g \<and> draw ?g j \<in> outputs_for 2 (draw ?g 0 mod 2)
      \<and> (\<forall>i<j. \<forall>v. draw ?g i \<notin> outputs_for 2 v)"
    by (intro exI[of _ 0]) simp
  then show ?thesis using bounded_draw_is_unbiased[of 2 "draw ?g 0 mod 2" ?g "stream_at 1 ?g"] k by simp
qed

text \<open>
  C25. Whatever the arguments, the options that the command line accepts are in range: an even arity from 2 to 64, positive sizes, an MTU and an ack of at most 9216 bytes, a load of 1 to 1000.
\<close>

theorem options_are_validated:
  assumes "parse_args args (''smoke'', default_options) = Inr (Some (scenario, opt))"
  shows "2 \<le> op_k opt \<and> op_k opt mod 2 = 0 \<and> op_k opt \<le> 64 \<and> op_flow_bytes opt \<noteq> 0 \<and> op_buffer_bytes opt \<noteq> 0
    \<and> 0 < op_mtu_bytes opt \<and> unat (op_mtu_bytes opt) \<le> 9216 \<and> 0 < op_load_permille opt \<and> op_load_permille opt \<le> 1000
    \<and> op_ack_bytes opt \<noteq> 0 \<and> op_ack_bytes opt \<le> kMaxPacketBytes"
  using parse_args_in_range[OF assms default_in_range] by (simp add: options_in_range_def)

theorem options_are_validated_witness:
  "\<exists>opt. parse_args [''--scenario=permutation'', ''--k=4'', ''--mtu=9000'', ''--load=500''] (''smoke'', default_options)
      = Inr (Some (''permutation'', opt))
    \<and> op_k opt = 4 \<and> op_mtu_bytes opt = 9000 \<and> op_load_permille opt = 500
    \<and> 2 \<le> op_k opt \<and> op_k opt mod 2 = 0 \<and> op_k opt \<le> 64 \<and> op_flow_bytes opt \<noteq> 0 \<and> op_buffer_bytes opt \<noteq> 0
    \<and> 0 < op_mtu_bytes opt \<and> unat (op_mtu_bytes opt) \<le> 9216 \<and> 0 < op_load_permille opt \<and> op_load_permille opt \<le> 1000
    \<and> op_ack_bytes opt \<noteq> 0 \<and> op_ack_bytes opt \<le> kMaxPacketBytes"
proof -
  let ?args = "[''--scenario=permutation'', ''--k=4'', ''--mtu=9000'', ''--load=500'']"
  define opt where "opt = default_options\<lparr>op_k := 4, op_mtu_bytes := 9000, op_load_permille := 500\<rparr>"
  have n: "parse_u64 ''4'' = Some 4" "parse_u64 ''9000'' = Some 9000" "parse_u64 ''500'' = Some 500"
    by (simp_all add: parse_u64_def digit_of_def)
  have p: "parse_args ?args (''smoke'', default_options) = Inr (Some (''permutation'', opt))"
    by (simp add: opt_def parse_arg_def if_match_def match_value_def number_where_def n kMaxPacketBytes_def)
  have "op_k opt = 4 \<and> op_mtu_bytes opt = 9000 \<and> op_load_permille opt = 500" by (simp add: opt_def)
  with options_are_validated[OF p] p show ?thesis
    by - (rule exI[of _ opt], elim conjE, intro conjI; assumption)
qed

text \<open>
  C26. The number options read back what is written: the decimal text of a number parses to the number when it fits 64 bits and is rejected when it does not, and an option text matches its key exactly when it is the key, an equals sign and the value.
\<close>

theorem numbers_round_trip:
  "parse_u64 (decimal n) = (if n < 2 ^ 64 then Some (of_nat n) else None)
   \<and> (match_value arg key = Some v \<longleftrightarrow> arg = key @ ''='' @ v)"
  using parse_decimal match_value_iff by blast

text \<open>
  C27. For every number \<open>n\<close>, wherever it occurs among the arguments, the window, the queue and the ring size are accepted exactly when \<open>n\<close> is a 64-bit number of at least 1 (2 for the ring size), and what is stored is \<open>n mod 2^32\<close>: numbers that pass their range check but not 32 bits are cut, so that a multiple of 2^32 becomes a window, a queue or a ring size of zero. Any other number stops the parse with the error of its option.
\<close>

theorem oversized_options_wrap:
  "parse_args ((''--window='' @ decimal n) # args) (scn, opt) = (if 1 \<le> n \<and> n < 2 ^ 64
     then parse_args args (scn, opt\<lparr>op_window_pkts := of_nat (n mod 2 ^ 32)\<rparr>) else Inl Bad_Window)
   \<and> parse_args ((''--queue='' @ decimal n) # args) (scn, opt) = (if 1 \<le> n \<and> n < 2 ^ 64
     then parse_args args (scn, opt\<lparr>op_queue_pkts := of_nat (n mod 2 ^ 32)\<rparr>) else Inl Bad_Queue)
   \<and> parse_args ((''--gpus='' @ decimal n) # args) (scn, opt) = (if 2 \<le> n \<and> n < 2 ^ 64
     then parse_args args (scn, opt\<lparr>op_gpus := of_nat (n mod 2 ^ 32)\<rparr>) else Inl Bad_Gpus)"
  unfolding narrow_mod by (simp only: parse_args.simps parse_arg_narrow) simp

text \<open>
  C28. A ring over fewer ranks than hosts, under the default placement over the pods, ends in a failed assertion, although the command line accepts the option.
\<close>

theorem partial_pods_ring_aborts:
  assumes "fat_tree_fits (ac_topology (all_reduce_config opt)) m" "op_placement opt = RoundRobinPods"
    and "op_gpus opt \<noteq> 0" "unat (op_gpus opt) \<noteq> 2 * m * m * m"
  shows "run_all_reduce opt = None"
proof -
  have "ap_placement (ac_workload (all_reduce_config opt)) = RoundRobinPods" "ap_gpu_count (ac_workload (all_reduce_config opt)) = op_gpus opt"
    using assms(2) by (simp_all add: all_reduce_config_def default_all_reduce_config_def Let_def)
  then show ?thesis using pods_ring_aborts[OF assms(1)] assms(3,4) by (simp add: run_all_reduce_def)
qed

theorem partial_pods_ring_aborts_witness:
  "main [''--scenario=allreduce'', ''--gpus=4''] = None"
proof -
  let ?opt = "default_options\<lparr>op_gpus := 4\<rparr>"
  have "parse_u64 ''4'' = Some 4" by (simp add: parse_u64_def digit_of_def)
  then have p: "parse_args [''--scenario=allreduce'', ''--gpus=4''] (''smoke'', default_options) = Inr (Some (''allreduce'', ?opt))"
    by (simp add: parse_arg_def if_match_def match_value_def number_where_def)
  have "fat_tree_fits (ac_topology (all_reduce_config ?opt)) 4"
    by (simp add: fat_tree_fits_def all_reduce_config_def default_all_reduce_config_def default_options_def Let_def default_link_def gbps_def)
  then have "run_all_reduce ?opt = None"
    by (rule partial_pods_ring_aborts) (simp_all add: default_options_def)
  then show ?thesis unfolding main_def p by (simp add: exit_code_def)
qed

text \<open>
  C29. For every even arity up to 46 the fat-tree is built without a failing assertion, its route table is built, the fabric is ready for flows, it has the announced numbers of hosts and switches, and \<open>fat_tree_hops\<close> is the length of the shortest path between any two hosts.
\<close>

theorem fat_tree_is_ready:
  assumes "fat_tree_fits cfg m"
  shows "\<exists>f rt. build_fat_tree cfg = Some f \<and> build_shortest_path f = Some rt \<and> fabric_ready f rt
    \<and> host_count f = unat (fat_tree_host_count (ft_k cfg))
    \<and> node_count f = unat (fat_tree_switch_count (ft_k cfg)) + unat (fat_tree_host_count (ft_k cfg))
    \<and> (\<forall>h < host_count f. \<forall>g < host_count f. g \<noteq> h \<longrightarrow>
         min_hops (links f) (id_index (fab_hosts f ! h)) (id_index (fab_hosts f ! g))
           (unat (fat_tree_hops (ft_k cfg) (of_nat h) (of_nat g))))"
  using fat_tree_ok[OF assms] by blast

theorem fat_tree_is_ready_witness:
  "\<exists>f rt. build_fat_tree default_fat_tree = Some f \<and> build_shortest_path f = Some rt \<and> fabric_ready f rt
    \<and> host_count f = 16 \<and> node_count f = 36
    \<and> (\<forall>h < host_count f. \<forall>g < host_count f. g \<noteq> h \<longrightarrow>
         min_hops (links f) (id_index (fab_hosts f ! h)) (id_index (fab_hosts f ! g))
           (unat (fat_tree_hops 4 (of_nat h) (of_nat g))))"
proof -
  have fits: "fat_tree_fits default_fat_tree 2"
    by (simp add: fat_tree_fits_def default_fat_tree_def default_link_def gbps_def kNanosPerSec_def)
  have k: "ft_k default_fat_tree = 4" by (simp add: default_fat_tree_def)
  have "unat (fat_tree_host_count 4) = 16" "unat (fat_tree_switch_count 4) = 20"
    by (simp_all add: fat_tree_host_count_def fat_tree_switch_count_def unat_div)
  then show ?thesis using fat_tree_is_ready[OF fits] by (simp add: k)
qed

text \<open>
  C30. A leaf-spine fabric of any size that its ids and route table can hold is built without a failing assertion, its route table is built, the fabric is ready for flows, it has the announced hosts and directed links, and hosts are two hops apart on a leaf, four across.
\<close>

theorem leaf_spine_is_ready:
  assumes "leaf_spine_fits cfg"
    and "S = unat (ls_spine_count cfg)" "L = unat (ls_leaf_count cfg)" "H = unat (ls_hosts_per_leaf cfg)"
  shows "\<exists>f rt. build_leaf_spine cfg = Some f \<and> build_shortest_path f = Some rt \<and> fabric_ready f rt
    \<and> node_count f = S + L + L * H \<and> host_count f = L * H \<and> port_count f = 2 * (L * S + L * H)
    \<and> (\<forall>h < L * H. \<forall>g < L * H. min_hops (links f) (id_index (fab_hosts f ! h)) (id_index (fab_hosts f ! g))
         (if g = h then 0 else if g div H = h div H then 2 else 4))"
  using leaf_spine_ok[OF assms] by blast

theorem leaf_spine_is_ready_witness:
  "\<exists>f rt. build_leaf_spine default_leaf_spine = Some f \<and> build_shortest_path f = Some rt \<and> fabric_ready f rt
    \<and> node_count f = 12 \<and> host_count f = 8 \<and> port_count f = 24
    \<and> (\<forall>h < 8. \<forall>g < 8. min_hops (links f) (id_index (fab_hosts f ! h)) (id_index (fab_hosts f ! g))
         (if g = h then 0 else if g div 4 = h div 4 then 2 else 4))"
proof -
  have fits: "leaf_spine_fits default_leaf_spine"
    by (simp add: leaf_spine_fits_def default_leaf_spine_def default_link_def gbps_def kNanosPerSec_def)
  have n: "2 = unat (ls_spine_count default_leaf_spine)" "2 = unat (ls_leaf_count default_leaf_spine)"
    "4 = unat (ls_hosts_per_leaf default_leaf_spine)" by (simp_all add: default_leaf_spine_def)
  have "2 + 2 + 2 * 4 = (12 :: nat)" "2 * 4 = (8 :: nat)" "2 * (2 * 2 + 8) = (24 :: nat)" by simp_all
  then show ?thesis using leaf_spine_is_ready[OF fits n] by (simp only:)
qed

text \<open>
  C31. A percentile is the smallest observed value that at least its share of the sample does not exceed: it is in the sample, the values up to it make up the asked permille, and the values strictly below it fall short of it.
\<close>

theorem percentile_is_nearest_rank:
  assumes "xs \<noteq> []" "sorted xs" "permille \<le> 1000" "length xs < 2 ^ 54"
  shows "\<exists>v. percentile_ns xs permille = Some v \<and> v \<in> set xs
    \<and> unat permille * length xs \<le> 1000 * length (filter (\<lambda>x. x \<le> v) xs)
    \<and> (0 < permille \<longrightarrow> 1000 * length (filter (\<lambda>x. x < v) xs) < unat permille * length xs)"
  by (rule percentile_spec[OF assms])

theorem percentile_is_nearest_rank_witness:
  "\<exists>v. percentile_ns [10, 20, 20, 50] 500 = Some v \<and> v \<in> set [10, 20, 20, 50]
    \<and> unat (500 :: u32) * 4 \<le> 1000 * length (filter (\<lambda>x. x \<le> v) [10, 20, 20, 50])
    \<and> ((0 :: u32) < 500 \<longrightarrow> 1000 * length (filter (\<lambda>x. x < v) [10, 20, 20, 50]) < unat (500 :: u32) * 4)"
  using percentile_is_nearest_rank[of "[10, 20, 20, 50]" 500] by simp

text \<open>
  C32. The summary of a run counts its flows exactly and reports over the completed ones the least and the largest completion time, the three percentiles in order, and the rounded-down mean.
\<close>

theorem summary_is_exact:
  assumes "length rs < 2 ^ 32" "sum_list (map unat (completed_fcts rs)) < 2 ^ 64"
  shows "\<exists>s. summarize_fct rs = Some s \<and> unat (su_flows_total s) = length rs
    \<and> unat (su_flows_complete s) = length (filter res_complete rs)
    \<and> unat (su_flows_incomplete s) = length (filter (\<lambda>r. \<not> res_complete r) rs)
    \<and> (completed_fcts rs \<noteq> [] \<longrightarrow>
        su_min_ns s = Min (set (completed_fcts rs)) \<and> su_max_ns s = Max (set (completed_fcts rs))
        \<and> percentile_ns (completed_fcts rs) 500 = Some (su_p50_ns s)
        \<and> percentile_ns (completed_fcts rs) 900 = Some (su_p90_ns s)
        \<and> percentile_ns (completed_fcts rs) 990 = Some (su_p99_ns s)
        \<and> su_min_ns s \<le> su_p50_ns s \<and> su_p50_ns s \<le> su_p90_ns s \<and> su_p90_ns s \<le> su_p99_ns s
        \<and> su_p99_ns s \<le> su_max_ns s
        \<and> unat (su_mean_ns s) = sum_list (map unat (completed_fcts rs)) div length (completed_fcts rs))"
  by (rule summarize_spec[OF assms])

theorem summary_is_exact_witness:
  "\<exists>s. summarize_fct (sim_results sample_end) = Some s \<and> unat (su_flows_total s) = 2 \<and> unat (su_flows_complete s) = 2
    \<and> su_min_ns s = 274 \<and> su_max_ns s = 4010"
proof -
  have "map res_complete (sim_results sample_end) = [True, True]" "map fct_ns (sim_results sample_end) = [4010, 274]"
    using arg_cong[OF sample_results, of "map (\<lambda>t. fst (snd (snd (snd t))))"]
      arg_cong[OF sample_results, of "map (\<lambda>t. fst (snd t) - fst t)"] by (simp_all add: comp_def fct_ns_def[abs_def])
  moreover then obtain a b where r: "sim_results sample_end = [a, b]" by (cases "sim_results sample_end" rule: remdups_adj.cases) auto
  ultimately have "completed_fcts (sim_results sample_end) = [274, 4010]" "filter res_complete [a, b] = [a, b]"
    by (simp_all add: completed_fcts_eq)
  then show ?thesis using summary_is_exact[of "sim_results sample_end"] r by auto
qed

text \<open>
  C33. However a port queue made by \<open>ring_init n\<close> is driven through pushes and pops, it does what a list of at most \<open>n\<close> packets does: the same packets are accepted (a push is refused only when \<open>n\<close> are queued), the same packets come out, in the order they went in, and the packets left are the list. A run fails exactly where the list's does, at a pop of an empty queue, so no push ever writes out of bounds; and what was accepted is what came out followed by what is left.
\<close>

theorem port_queue_is_fifo:
  "map_option (\<lambda>(accepted, outs, r). (accepted, outs, ring_list r)) (fifo_run ring_try_push ring_pop ops (ring_init n))
     = fifo_run (list_push n) list_pop ops []
   \<and> (case fifo_run ring_try_push ring_pop ops (ring_init n) of None \<Rightarrow> True
      | Some (accepted, outs, r) \<Rightarrow> accepted = outs @ ring_list r \<and> length (ring_list r) \<le> n)"
proof
  have c: "ring_capacity (ring_init n) = n" by (simp add: ring_init_def)
  show "map_option (\<lambda>(accepted, outs, r). (accepted, outs, ring_list r)) (fifo_run ring_try_push ring_pop ops (ring_init n))
     = fifo_run (list_push n) list_pop ops []"
    using ring.fifo_run_refines[OF ring_inv_init, of ops n] by (simp add: c)
  show "case fifo_run ring_try_push ring_pop ops (ring_init n) of None \<Rightarrow> True
      | Some (accepted, outs, r) \<Rightarrow> accepted = outs @ ring_list r \<and> length (ring_list r) \<le> n"
    using ring.fifo_run_order[OF ring_inv_init, of ops n] by (auto simp: ring_inv_def c split: option.splits)
qed

theorem port_queue_is_fifo_witness:
  "\<exists>r. fifo_run ring_try_push ring_pop
     [Push default_packet, Push (default_packet\<lparr>pkt_index := 7\<rparr>), Push default_packet, Pop, Push (default_packet\<lparr>pkt_index := 8\<rparr>), Pop] (ring_init 2)
   = Some ([default_packet, default_packet\<lparr>pkt_index := 7\<rparr>, default_packet\<lparr>pkt_index := 8\<rparr>], [default_packet, default_packet\<lparr>pkt_index := 7\<rparr>], r)
   \<and> ring_list r = [default_packet\<lparr>pkt_index := 8\<rparr>]"
  using port_queue_is_fifo[of "[Push default_packet, Push (default_packet\<lparr>pkt_index := 7\<rparr>), Push default_packet, Pop,
      Push (default_packet\<lparr>pkt_index := 8\<rparr>), Pop]" 2]
  by (auto simp: list_push_def)

text \<open>
  C34. Pushing a batch of events into an empty event queue and popping until it is empty yields them sorted by time, events of the same time in the order they were pushed: the stable sort.
\<close>

theorem event_queue_is_stable:
  assumes "length es < 2 ^ 64" "drain_queue eq_pop (length es) (fold eq_push es eq_new) = (outs, q)"
  shows "outs = sort_key ev_time (stamped 0 es) \<and> eq_empty q"
  by (rule drain_stable[OF assms])

theorem event_queue_is_stable_witness:
  "\<exists>outs q. drain_queue eq_pop 3 (fold eq_push
       [ev_inject 9 (Id 0), ev_inject 4 (Id 1), ev_inject 4 (Id 2)] eq_new) = (outs, q)
     \<and> outs = sort_key ev_time (stamped 0 [ev_inject 9 (Id 0), ev_inject 4 (Id 1), ev_inject 4 (Id 2)])
     \<and> eq_empty q"
proof -
  let ?es = "[ev_inject 9 (Id 0), ev_inject 4 (Id 1), ev_inject 4 (Id 2)]"
  obtain xs q where d: "drain_queue eq_pop 3 (fold eq_push ?es eq_new) = (xs, q)" by fastforce
  moreover have "length ?es = 3" by simp
  ultimately have "xs = sort_key ev_time (stamped 0 ?es) \<and> eq_empty q"
    using event_queue_is_stable[of ?es xs q] by (simp only:) simp
  then show ?thesis using d by blast
qed

text \<open>
  C35. Building a well-formed edge list never fails and yields a fabric in which the two ports of every link point at each other, the ports of a node are one contiguous run of the port array, and the host index is a bijection between host nodes and \<open>0 .. host_count - 1\<close>.
\<close>

theorem built_fabric_shape:
  assumes "builder_inv b"
  shows "\<exists>f. build b = Some f \<and> node_count f = length (fb_is_host b)
    \<and> port_count f = 2 * length (fb_edges b) \<and> fabric_shape f"
  using build_spec[OF assms] build_shape[OF assms] by (fastforce simp: node_count_def port_count_def)

theorem built_fabric_shape_witness:
  "\<exists>f. build sample_builder = Some f \<and> node_count f = length (fb_is_host sample_builder)
    \<and> port_count f = 2 * length (fb_edges sample_builder) \<and> fabric_shape f"
  by (rule built_fabric_shape[OF sample_builder_inv])

text \<open>
  C36. The breadth-first search from any node of a well-formed fabric returns, and its entry for each node is the minimum hop count over the links, or the unreachable mark if there is none.
\<close>

theorem bfs_is_shortest:
  assumes "fabric_ok f" "id_index src < node_count f"
  shows "\<exists>dist. bfs_distances f src = Some dist \<and> length dist = node_count f
    \<and> (\<forall>v < node_count f. \<forall>n. min_hops (links f) (id_index src) v n \<longrightarrow> unat (dist ! v) = n)
    \<and> (\<forall>v < node_count f. dist ! v = kUnreachable \<longleftrightarrow> (\<nexists>n. min_hops (links f) (id_index src) v n))"
proof -
  obtain dist where d: "bfs_distances f src = Some dist" "dist_correct f (id_index src) dist"
    using bfs_distances_correct[OF assms] by blast
  have N: "node_count f < 2 ^ 32 - 1" using assms(1) by (simp add: fabric_ok_def)
  have hop: "unat (dist ! v) = n \<and> dist ! v \<noteq> kUnreachable"
    if "v < node_count f" "min_hops (links f) (id_index src) v n" for v n
  proof -
    have n: "n < node_count f" "dist ! v = of_nat n" using d(2) that by (auto simp: dist_correct_def)
    then show ?thesis using N of_nat_not_unreachable[of n] by (simp add: unat_of_nat_small)
  qed
  have "dist ! v = kUnreachable \<longleftrightarrow> (\<nexists>n. min_hops (links f) (id_index src) v n)"
    if "v < node_count f" for v
    using d(2) hop that unfolding dist_correct_def by metis
  then show ?thesis using d hop unfolding dist_correct_def by metis
qed

theorem bfs_is_shortest_witness:
  "\<exists>dist. bfs_distances sample_fabric (Id 1) = Some dist \<and> length dist = node_count sample_fabric
    \<and> (\<forall>v < node_count sample_fabric. \<forall>n. min_hops (links sample_fabric) (id_index (Id 1 :: node_id)) v n \<longrightarrow> unat (dist ! v) = n)
    \<and> (\<forall>v < node_count sample_fabric. dist ! v = kUnreachable
        \<longleftrightarrow> (\<nexists>n. min_hops (links sample_fabric) (id_index (Id 1 :: node_id)) v n))"
  by (rule bfs_is_shortest[OF sample_shape]) (simp add: sample_counts id_index_def)

text \<open>
  C37. The route table of a well-formed fabric is built, and the candidates it gives at a node for a host are exactly the ports of that node whose peer is one hop nearer to the host.
\<close>

theorem routes_are_shortest:
  assumes "fabric_ok f" "port_count f * host_count f < 2 ^ 32"
  shows "\<exists>rt. build_shortest_path f = Some rt \<and> (\<forall>at h. id_index at < node_count f \<longrightarrow>
    unat h < host_count f \<longrightarrow> (\<exists>ps. candidates rt at h = Some ps \<and> (\<forall>p. p \<in> set ps \<longleftrightarrow>
      id_index p < port_count f \<and> port_owner (fab_ports f ! id_index p) = at \<and>
      (\<exists>n. min_hops (links f) (id_index (fab_hosts f ! unat h)) (id_index at) (Suc n) \<and>
           min_hops (links f) (id_index (fab_hosts f ! unat h)) (peer_index f (id_index p)) n))))"
  using build_shortest_path_spec[OF assms] cell_ports_iff[OF assms(1)]
  by (auto simp: id_index_inject)

theorem routes_are_shortest_witness:
  "\<exists>rt. build_shortest_path sample_fabric = Some rt \<and> (\<forall>at h. id_index at < node_count sample_fabric \<longrightarrow>
    unat h < host_count sample_fabric \<longrightarrow> (\<exists>ps. candidates rt at h = Some ps \<and> (\<forall>p. p \<in> set ps \<longleftrightarrow>
      id_index p < port_count sample_fabric \<and> port_owner (fab_ports sample_fabric ! id_index p) = at \<and>
      (\<exists>n. min_hops (links sample_fabric) (id_index (fab_hosts sample_fabric ! unat h)) (id_index at) (Suc n) \<and>
           min_hops (links sample_fabric) (id_index (fab_hosts sample_fabric ! unat h))
             (peer_index sample_fabric (id_index p)) n))))"
  by (rule routes_are_shortest[OF sample_shape]) (simp add: sample_counts)

text \<open>
  C38. Forwarding by the candidates of the table that \<open>build_shortest_path\<close> builds never visits a node twice. From a node at hop count \<open>n\<close> from the host, a walk of \<open>k\<close> steps along any candidates has \<open>k\<close> at most \<open>n\<close>, is at the host exactly when \<open>k\<close> is \<open>n\<close>, and can go on exactly when it is not.
\<close>

theorem forwarding_loop_free:
  assumes "fabric_ok f" "port_count f * host_count f < 2 ^ 32" "unat h < host_count f"
  shows "\<exists>rt. build_shortest_path f = Some rt
    \<and> (\<forall>u. (u, u) \<notin> {(a, b). a < node_count f
        \<and> (\<exists>ps p. candidates rt (id_at a) h = Some ps \<and> p \<in> set ps \<and> peer_index f (id_index p) = b)}\<^sup>+)
    \<and> (\<forall>u n k v. u < node_count f \<longrightarrow> min_hops (links f) (id_index (fab_hosts f ! unat h)) u n \<longrightarrow>
        (u, v) \<in> {(a, b). a < node_count f
          \<and> (\<exists>ps p. candidates rt (id_at a) h = Some ps \<and> p \<in> set ps \<and> peer_index f (id_index p) = b)} ^^ k \<longrightarrow>
        k \<le> n \<and> (k = n \<longleftrightarrow> v = id_index (fab_hosts f ! unat h))
        \<and> (k < n \<longleftrightarrow> (\<exists>ps p. v < node_count f \<and> candidates rt (id_at v) h = Some ps \<and> p \<in> set ps)))"
  using table_walks[OF assms] unfolding table_step_def .

theorem forwarding_loop_free_witness:
  "\<exists>rt. build_shortest_path sample_fabric = Some rt
    \<and> (2, 1) \<in> {(a, b). a < 3 \<and> (\<exists>ps p. candidates rt (id_at a) 0 = Some ps \<and> p \<in> set ps
        \<and> peer_index sample_fabric (id_index p) = b)} ^^ 2"
proof -
  have h: "id_index (fab_hosts sample_fabric ! unat 0) = 1" by (simp add: sample_fabric_def id_index_def)
  have s: "port_count sample_fabric * host_count sample_fabric < 2 ^ 32" "unat 0 < host_count sample_fabric"
    by (simp_all add: sample_counts)
  define R where "R rt = {(a, b). a < 3 \<and> (\<exists>ps p. candidates rt (id_at a) 0 = Some ps \<and> p \<in> set ps
    \<and> peer_index sample_fabric (id_index p) = b)}" for rt
  obtain rt where rt: "build_shortest_path sample_fabric = Some rt"
    "\<And>u n k v. u < 3 \<Longrightarrow> min_hops (links sample_fabric) 1 u n \<Longrightarrow> (u, v) \<in> R rt ^^ k \<Longrightarrow>
        (k = n \<longleftrightarrow> v = 1) \<and> (k < n \<longleftrightarrow> (\<exists>ps p. v < 3 \<and> candidates rt (id_at v) 0 = Some ps \<and> p \<in> set ps))"
    using forwarding_loop_free[OF sample_shape s] unfolding h sample_counts R_def by blast
  note W = rt(2)[OF _ sample_distance(2), simplified]
  obtain v where "(2, v) \<in> R rt" using W[of 2 0] by (auto simp: R_def)
  then have v: "(2, v) \<in> R rt ^^ 1" by simp
  obtain w where "(v, w) \<in> R rt" using W[OF v] by (auto simp: R_def)
  then have w: "(2, w) \<in> R rt ^^ 2" using v by (auto simp: numeral_2_eq_2)
  then show ?thesis using W[OF w] rt(1) by (auto simp: R_def)
qed

text \<open>
  C39. The index map stays in range, and of the \<open>2 ^ 32\<close> possible top halves of a hash each index is hit by \<open>2 ^ 32 div n\<close> or one more.
\<close>

theorem index_map_fair:
  assumes "n \<le> 2 ^ 32" "i < n"
  shows "unat (hash_to_index h n) < n \<and>
    card {f. f < 2 ^ 32 \<and> unat (hash_to_index (push_bit 32 (of_nat f)) n) = i}
      \<in> {2 ^ 32 div n, 2 ^ 32 div n + 1}"
  using hash_to_index_less[of n h] hash_to_index_fair[OF assms] assms by auto

theorem index_map_fair_witness:
  "unat (hash_to_index 0xDEADBEEF00000000 3) < 3 \<and>
   card {f. f < 2 ^ 32 \<and> unat (hash_to_index (push_bit 32 (of_nat f)) 3) = 2} \<in> {1431655765, 1431655766}"
  using index_map_fair[of 3 2] by simp

text \<open>
  C40. For a packet of at most 9216 bytes the 64-bit product never wraps: the serialisation time is the exact quotient \<open>bytes * 8 * 10 ^ 9 div rate\<close>, and the exactness test is divisibility.
\<close>

theorem serialization_exact:
  assumes "bytes \<le> kMaxPacketBytes" "rate \<noteq> 0"
  shows "\<exists>t. serialization_ns bytes rate = Some t \<and> unat t = unat bytes * 8 * 10 ^ 9 div unat rate
    \<and> serialization_is_exact bytes rate = Some (unat rate dvd unat bytes * 8 * 10 ^ 9)"
proof -
  let ?p = "bytes * kBitsPerByte * kNanosPerSec"
  have p: "unat ?p = unat bytes * 8 * 10 ^ 9" using serialization_numerator[OF assms(1)] by simp
  have "?p mod rate = 0 \<longleftrightarrow> unat ?p mod unat rate = 0"
    by (simp only: word_unat_eq_iff unat_mod unat_0)
  then have "serialization_is_exact bytes rate = Some (unat rate dvd unat bytes * 8 * 10 ^ 9)"
    using assms(2) by (simp add: serialization_is_exact_def p dvd_eq_mod_eq_0)
  moreover have "unat (?p div rate) = unat bytes * 8 * 10 ^ 9 div unat rate"
    by (simp only: unat_div p)
  ultimately show ?thesis using assms(2) by (simp add: serialization_ns_def)
qed

theorem serialization_exact_witness:
  "\<exists>t. serialization_ns 9216 (gbps 100) = Some t \<and> unat t = unat (9216 :: u64) * 8 * 10 ^ 9 div unat (gbps 100)
    \<and> serialization_is_exact 9216 (gbps 100) = Some (unat (gbps 100) dvd unat (9216 :: u64) * 8 * 10 ^ 9)"
  by (rule serialization_exact) (simp_all add: kMaxPacketBytes_def gbps_def)

end
